(* ===== verification/Prelude.thy ===== *)
theory Prelude
  imports Main "HOL-Library.Word"
begin

text \<open>
  Shared vocabulary of the development: how C values are represented and the generic
  lemmas on lists, sums and memories that the component theories use.

  \<^item> A C unsigned integer of width \<open>w\<close> is a \<open>nat\<close>; every operation that can wrap is
    written with \<open>u8\<close>, \<open>u16\<close>, \<open>u32\<close>, \<open>u64\<close> (reduction modulo \<open>2 ^ w\<close>) or with
    \<open>u32_sub\<close> and \<open>u64_sub\<close>. Plain subtraction is used only behind a guard that
    makes it exact. Bit-level code (bitmaps, shifts, the payload header) uses
    \<open>8 word\<close>, \<open>16 word\<close>, \<open>32 word\<close> and \<open>64 word\<close>.
  \<^item> A C \<open>char\<close> is a HOL \<open>char\<close>; \<open>(unsigned char) c\<close> is \<open>of_char c :: nat\<close>.
  \<^item> A memory region is a function from offsets to bytes, so that frame facts are
    function-update facts.
\<close>

named_theorems frame_simps \<open>what an update leaves alone\<close>
named_theorems width_simps \<open>bounds and exactness of fixed-width arithmetic\<close>

type_synonym mem = "nat \<Rightarrow> char"

abbreviation (input) UINT16_MAX :: nat where "UINT16_MAX \<equiv> 65535"
abbreviation (input) UINT32_MAX :: nat where "UINT32_MAX \<equiv> 4294967295"
abbreviation (input) UINT64_MAX :: nat where "UINT64_MAX \<equiv> 18446744073709551615"

section \<open>Fixed-width unsigned arithmetic\<close>

definition u8 :: "nat \<Rightarrow> nat" where "u8 n = n mod 256"
definition u16 :: "nat \<Rightarrow> nat" where "u16 n = n mod 65536"
definition u32 :: "nat \<Rightarrow> nat" where "u32 n = n mod 4294967296"
definition u64 :: "nat \<Rightarrow> nat" where "u64 n = n mod 18446744073709551616"

text \<open>Unsigned subtraction: wraps when the subtrahend is larger.\<close>

definition u32_sub :: "nat \<Rightarrow> nat \<Rightarrow> nat" where
  "u32_sub a b = u32 (a + 4294967296 - u32 b)"

definition u64_sub :: "nat \<Rightarrow> nat \<Rightarrow> nat" where
  "u64_sub a b = u64 (a + 18446744073709551616 - u64 b)"

lemma u32_id [simp, width_simps]: "n \<le> UINT32_MAX \<Longrightarrow> u32 n = n"
  by (simp add: u32_def)

lemma u64_id [simp, width_simps]: "n \<le> UINT64_MAX \<Longrightarrow> u64 n = n"
  by (simp add: u64_def)

lemma u16_id [simp, width_simps]: "n \<le> UINT16_MAX \<Longrightarrow> u16 n = n"
  by (simp add: u16_def)

lemma u32_le [width_simps]: "u32 n \<le> UINT32_MAX"
proof -
  have "n mod 4294967296 < 4294967296" by simp
  then show ?thesis unfolding u32_def by linarith
qed

lemma u64_le [width_simps]: "u64 n \<le> UINT64_MAX"
proof -
  have "n mod 18446744073709551616 < 18446744073709551616" by simp
  then show ?thesis unfolding u64_def by linarith
qed

lemma u32_sub_exact [width_simps]: "b \<le> a \<Longrightarrow> a \<le> UINT32_MAX \<Longrightarrow> u32_sub a b = a - b"
proof -
  assume ba: "b \<le> a" and a: "a \<le> UINT32_MAX"
  then have "a + 4294967296 - u32 b = (a - b) + 4294967296" by simp
  then show ?thesis using a by (simp add: u32_sub_def u32_def)
qed

lemma u64_sub_exact [width_simps]: "b \<le> a \<Longrightarrow> a \<le> UINT64_MAX \<Longrightarrow> u64_sub a b = a - b"
proof -
  assume ba: "b \<le> a" and a: "a \<le> UINT64_MAX"
  then have "a + 18446744073709551616 - u64 b = (a - b) + 18446744073709551616" by simp
  then show ?thesis using a by (simp add: u64_sub_def u64_def)
qed

section \<open>Byte memories\<close>

text \<open>\<open>memcpy\<close> of a \<open>uint32\<close> into and out of a byte region (little-endian host).\<close>

definition store_u32 :: "mem \<Rightarrow> nat \<Rightarrow> nat \<Rightarrow> mem" where
  "store_u32 m i v =
     m(i := char_of v, i + 1 := char_of (v div 256),
       i + 2 := char_of (v div 65536), i + 3 := char_of (v div 16777216))"

definition load_u32 :: "mem \<Rightarrow> nat \<Rightarrow> nat" where
  "load_u32 m i =
     of_char (m i) + 256 * of_char (m (i + 1)) +
     65536 * of_char (m (i + 2)) + 16777216 * of_char (m (i + 3))"

text \<open>\<open>memcpy\<close> of a byte string into a region, and the bytes of a region.\<close>

definition store_bytes :: "mem \<Rightarrow> nat \<Rightarrow> char list \<Rightarrow> mem" where
  "store_bytes m i bs = (\<lambda>j. if i \<le> j \<and> j < i + length bs then bs ! (j - i) else m j)"

definition load_bytes :: "mem \<Rightarrow> nat \<Rightarrow> nat \<Rightarrow> char list" where
  "load_bytes m i n = map (\<lambda>k. m (i + k)) [0..<n]"

lemma load_store_u32 [simp]:
  assumes "v \<le> UINT32_MAX"
  shows "load_u32 (store_u32 m i v) i = v"
proof -
  have top: "v div 16777216 mod 256 = v div 16777216"
    using assms by (intro mod_less) linarith
  have "v div 65536 = v div 256 div 256" and "v div 16777216 = v div 65536 div 256"
    by (simp_all add: div_mult2_eq [symmetric])
  then have "v mod 256 + 256 * (v div 256 mod 256) + 65536 * (v div 65536 mod 256)
      + 16777216 * (v div 16777216) = v"
    using mult_div_mod_eq [of 256 v] mult_div_mod_eq [of 256 "v div 256"]
      mult_div_mod_eq [of 256 "v div 65536"] by linarith
  with top show ?thesis
    by (simp add: load_u32_def store_u32_def)
qed

lemma store_u32_other [frame_simps]:
  "j < i \<or> i + 4 \<le> j \<Longrightarrow> store_u32 m i v j = m j"
  by (auto simp: store_u32_def)

lemma load_u32_cong:
  "(\<And>k. k < 4 \<Longrightarrow> m (i + k) = m' (i + k)) \<Longrightarrow> load_u32 m i = load_u32 m' i"
proof -
  assume eq: "\<And>k. k < 4 \<Longrightarrow> m (i + k) = m' (i + k)"
  show ?thesis
    using eq[of 0] eq[of 1] eq[of 2] eq[of 3] by (simp add: load_u32_def)
qed

lemma length_load_bytes [simp]: "length (load_bytes m i n) = n"
  by (simp add: load_bytes_def)

lemma load_bytes_cong:
  "(\<And>k. k < n \<Longrightarrow> m (i + k) = m' (i + k)) \<Longrightarrow> load_bytes m i n = load_bytes m' i n"
  by (simp add: load_bytes_def)

lemma load_store_bytes [simp]: "load_bytes (store_bytes m i bs) i (length bs) = bs"
  by (rule nth_equalityI) (simp_all add: load_bytes_def store_bytes_def)

lemma store_bytes_other [frame_simps]:
  "j < i \<or> i + length bs \<le> j \<Longrightarrow> store_bytes m i bs j = m j"
  by (auto simp: store_bytes_def)

lemma load_bytes_append:
  "load_bytes m i (k + n) = load_bytes m i k @ load_bytes m (i + k) n"
  by (rule nth_equalityI) (auto simp: load_bytes_def nth_append)

lemma store_bytes_Nil [simp]: "store_bytes m i [] = m"
  by (auto simp: store_bytes_def fun_eq_iff)

section \<open>Sums over indices\<close>

lemma sum_list_update_nat:
  fixes f :: "'a \<Rightarrow> nat"
  assumes "i < length xs"
  shows "sum_list (map f (xs[i := x])) + f (xs ! i) = sum_list (map f xs) + f x"
  using assms
proof (induction xs arbitrary: i)
  case Nil
  then show ?case by simp
next
  case (Cons y ys)
  then show ?case by (cases i) auto
qed

lemma sum_list_map_mono_strict:
  fixes f g :: "'a \<Rightarrow> nat"
  assumes "\<And>x. x \<in> set xs \<Longrightarrow> f x \<le> g x" and "i < length xs" and "f (xs ! i) + d \<le> g (xs ! i)"
  shows "sum_list (map f xs) + d \<le> sum_list (map g xs)"
  using assms
proof (induction xs arbitrary: i)
  case Nil
  then show ?case by simp
next
  case (Cons y ys)
  show ?case
  proof (cases i)
    case 0
    have "sum_list (map f ys) \<le> sum_list (map g ys)"
      using Cons.prems(1) by (auto intro: sum_list_mono)
    with 0 Cons.prems show ?thesis by simp
  next
    case (Suc j)
    have "sum_list (map f ys) + d \<le> sum_list (map g ys)"
      using Cons.prems Suc by (intro Cons.IH) auto
    moreover have "f y \<le> g y" using Cons.prems(1) by simp
    ultimately show ?thesis by simp
  qed
qed

lemma find_SomeD: "find P xs = Some x \<Longrightarrow> x \<in> set xs \<and> P x"
  by (induction xs) (auto split: if_splits)

end
