(* ===== verification/Arena.thy ===== *)
theory Arena
  imports Prelude
begin

unbundle bit_operations_syntax

text \<open>
  The slab allocator of \<open>src/src/cache_arena.c\<close>. An arena is a byte region cut into 64 KiB
  pages. A page is unassigned, or belongs to one of seven block classes (256 bytes to
  16 KiB); the free blocks of a page form a linked list whose links are stored in the
  first four bytes of each free block, and a bitmap records which blocks are live.

  The first part translates the C functions one by one. The second part relates an
  arena to an abstract allocator, a finite map from live block references to the sizes
  requested for them, and shows that \<open>pglc_arena_alloc\<close>, \<open>pglc_arena_free\<close> and
  \<open>pglc_arena_resize\<close> implement insertion, deletion and update of that map, that live
  blocks never overlap, and that their contents survive every other operation.

  A \<open>NULL\<close> region is only accepted by \<open>pglc_arena_init\<close> together with a page count of
  0, so \<open>arena_ready\<close> tests the page count and the extent only.
\<close>

section \<open>Data\<close>

abbreviation (input) PGLC_ARENA_PAGE_SIZE :: nat where "PGLC_ARENA_PAGE_SIZE \<equiv> 65536"
abbreviation (input) PGLC_ARENA_MIN_BLOCK :: nat where "PGLC_ARENA_MIN_BLOCK \<equiv> 256"
abbreviation (input) PGLC_ARENA_MAX_BLOCK :: nat where "PGLC_ARENA_MAX_BLOCK \<equiv> 16384"
abbreviation (input) PGLC_ARENA_CLASS_COUNT :: nat where "PGLC_ARENA_CLASS_COUNT \<equiv> 7"
abbreviation (input) PGLC_ARENA_NO_BLOCK :: nat where "PGLC_ARENA_NO_BLOCK \<equiv> UINT32_MAX"

record PglcArenaPage =
  free_head :: nat
  block_count :: nat
  live_count :: nat
  class_index :: nat
  allocated :: "8 word list"

record PglcArena =
  memory :: mem
  pages :: "PglcArenaPage list"
  page_count :: nat
  first_unassigned_page :: nat
  used_bytes :: nat
  class_slack_bytes :: nat
  assigned_bytes :: nat

section \<open>Operations\<close>

definition class_bytes :: "nat \<Rightarrow> nat" where
  "class_bytes ci =
     (if PGLC_ARENA_CLASS_COUNT \<le> ci then 0 else u32 (PGLC_ARENA_MIN_BLOCK * 2 ^ ci))"

definition arena_ready :: "PglcArena \<Rightarrow> bool" where
  "arena_ready a \<longleftrightarrow> page_count a \<noteq> 0 \<and> page_count a \<le> UINT32_MAX div PGLC_ARENA_PAGE_SIZE"

definition arena_counters_valid :: "PglcArena \<Rightarrow> bool" where
  "arena_counters_valid a \<longleftrightarrow>
     arena_ready a \<and>
     (let extent = page_count a * PGLC_ARENA_PAGE_SIZE in
        assigned_bytes a \<le> extent \<and>
        used_bytes a \<le> assigned_bytes a \<and>
        class_slack_bytes a \<le> assigned_bytes a - used_bytes a)"

definition page_shape_valid :: "PglcArenaPage \<Rightarrow> nat option" where
  "page_shape_valid page =
     (if class_index page = 0 \<or> PGLC_ARENA_CLASS_COUNT < class_index page then None
      else let size = class_bytes (class_index page - 1) in
        if size = 0 then None
        else let n = PGLC_ARENA_PAGE_SIZE div size in
          if block_count page \<noteq> n \<or> n < live_count page then None else Some size)"

definition block_mask :: "nat \<Rightarrow> 8 word" where
  "block_mask block_no = push_bit (block_no mod 8) 1"

definition block_allocated :: "PglcArenaPage \<Rightarrow> nat \<Rightarrow> bool" where
  "block_allocated page block_no \<longleftrightarrow>
     (allocated page ! (block_no div 8)) AND block_mask block_no \<noteq> 0"

text \<open>The result carries the three out parameters: page, block size, block number.\<close>

definition block_info :: "PglcArena \<Rightarrow> nat \<Rightarrow> bool \<Rightarrow> (nat \<times> nat \<times> nat) option" where
  "block_info a block_ref require_allocated =
     (if \<not> arena_ready a then None
      else
        let page_no = block_ref div PGLC_ARENA_PAGE_SIZE;
            page_offset = block_ref mod PGLC_ARENA_PAGE_SIZE
        in if page_count a \<le> page_no then None
        else
          let page = pages a ! page_no in
          case page_shape_valid page of None \<Rightarrow> None
          | Some block_size \<Rightarrow>
            if page_offset mod block_size \<noteq> 0 then None
            else if (require_allocated \<and> live_count page = 0) \<or>
                    (\<not> require_allocated \<and> block_count page \<le> live_count page) then None
            else
              let block_no = page_offset div block_size in
              if block_count page \<le> block_no \<or>
                 PGLC_ARENA_PAGE_SIZE div PGLC_ARENA_MIN_BLOCK \<le> block_no then None
              else if block_allocated page block_no \<noteq> require_allocated then None
              else if page_count a * PGLC_ARENA_PAGE_SIZE < block_ref + block_size then None
              else Some (page_no, block_size, block_no))"

definition free_head_valid :: "PglcArena \<Rightarrow> nat \<Rightarrow> PglcArenaPage \<Rightarrow> nat \<Rightarrow> bool" where
  "free_head_valid a page_no page block_size \<longleftrightarrow>
     (if free_head page = PGLC_ARENA_NO_BLOCK then live_count page = block_count page
      else case block_info a (free_head page) False of None \<Rightarrow> False
        | Some (free_page, free_size, _) \<Rightarrow>
            free_page = page_no \<and> free_size = block_size \<and>
            live_count page < block_count page)"

text \<open>The doubling loop of \<open>pglc_arena_class_size\<close>.\<close>

function class_size_loop :: "nat \<Rightarrow> nat \<Rightarrow> nat" where
  "class_size_loop request_size block_size =
     (if block_size < request_size \<and> block_size < PGLC_ARENA_MAX_BLOCK \<and> block_size \<noteq> 0
      then class_size_loop request_size (2 * block_size)
      else block_size)"
  by pat_completeness auto
termination
  by (relation "measure (\<lambda>(r, b). PGLC_ARENA_MAX_BLOCK - b)") auto

definition pglc_arena_class_size :: "nat \<Rightarrow> nat" where
  "pglc_arena_class_size request_size =
     (if request_size \<le> PGLC_ARENA_MIN_BLOCK then PGLC_ARENA_MIN_BLOCK
      else
        let block_size = class_size_loop request_size PGLC_ARENA_MIN_BLOCK in
        if request_size \<le> block_size then block_size else 0)"

definition empty_page :: PglcArenaPage where
  "empty_page = \<lparr>free_head = PGLC_ARENA_NO_BLOCK, block_count = 0, live_count = 0,
     class_index = 0, allocated = replicate 32 0\<rparr>"

text \<open>
  \<open>None\<close> is the \<open>false\<close> return. The region and the page array are the caller's; a
  missing one (\<open>NULL\<close>) is refused unless the page count is 0.
\<close>

definition pglc_arena_init ::
  "mem option \<Rightarrow> PglcArenaPage list option \<Rightarrow> nat \<Rightarrow> PglcArena option" where
  "pglc_arena_init region page_array n =
     (if n \<noteq> 0 \<and> (region = None \<or> page_array = None) then None
      else if UINT32_MAX div PGLC_ARENA_PAGE_SIZE < n then None
      else Some \<lparr>memory = (case region of Some m \<Rightarrow> m | None \<Rightarrow> (\<lambda>_. CHR 0x00)),
        pages = replicate n empty_page, page_count = n, first_unassigned_page = 0,
        used_bytes = 0, class_slack_bytes = 0, assigned_bytes = 0\<rparr>)"

text \<open>One iteration of the loop that threads the free list through a fresh page.\<close>

definition link_block :: "nat \<Rightarrow> nat \<Rightarrow> nat \<Rightarrow> nat \<Rightarrow> mem \<Rightarrow> mem" where
  "link_block page_no block_size n block_no m =
     (let ref = page_no * PGLC_ARENA_PAGE_SIZE + block_no * block_size;
          nxt = (if block_no + 1 < n then ref + block_size else PGLC_ARENA_NO_BLOCK)
      in store_u32 m ref nxt)"

definition assign_page :: "PglcArena \<Rightarrow> nat \<Rightarrow> nat \<Rightarrow> PglcArena \<times> bool" where
  "assign_page a page_no ci =
     (let block_size = class_bytes ci in
      if \<not> arena_counters_valid a \<or> page_count a \<le> page_no \<or> block_size = 0 \<or>
         page_count a * PGLC_ARENA_PAGE_SIZE - PGLC_ARENA_PAGE_SIZE < assigned_bytes a
      then (a, False)
      else if class_index (pages a ! page_no) \<noteq> 0 then (a, False)
      else
        let n = PGLC_ARENA_PAGE_SIZE div block_size;
            page = \<lparr>free_head = page_no * PGLC_ARENA_PAGE_SIZE, block_count = n,
              live_count = 0, class_index = ci + 1, allocated = replicate 32 0\<rparr>
        in (a\<lparr>pages := (pages a)[page_no := page],
              memory := fold (link_block page_no block_size n) [0..<n] (memory a),
              assigned_bytes := assigned_bytes a + PGLC_ARENA_PAGE_SIZE\<rparr>, True))"

text \<open>The search for the class index of a block size (the \<open>while\<close> loop of
  \<open>pglc_arena_alloc\<close>), over the candidates still to try.\<close>

fun find_class :: "nat \<Rightarrow> nat list \<Rightarrow> nat" where
  "find_class block_size [] = PGLC_ARENA_CLASS_COUNT"
| "find_class block_size (ci # cis) =
     (if PGLC_ARENA_MIN_BLOCK * 2 ^ ci \<noteq> block_size then find_class block_size cis else ci)"

text \<open>The scan of the assigned pages: a damaged page ends the allocation, the first page
  of the class with a free block wins, and \<open>Scan_End\<close> is \<open>page_no == page_count\<close>.\<close>

datatype scan_result = Scan_Corrupt | Scan_Found nat | Scan_End

fun scan_pages :: "PglcArena \<Rightarrow> nat \<Rightarrow> nat list \<Rightarrow> scan_result" where
  "scan_pages a ci [] = Scan_End"
| "scan_pages a ci (page_no # rest) =
     (let page = pages a ! page_no in
      if class_index page = 0 then
        (if block_count page \<noteq> 0 \<or> live_count page \<noteq> 0 \<or>
            free_head page \<noteq> PGLC_ARENA_NO_BLOCK
         then Scan_Corrupt else scan_pages a ci rest)
      else case page_shape_valid page of None \<Rightarrow> Scan_Corrupt
        | Some page_size \<Rightarrow>
          if \<not> free_head_valid a page_no page page_size then Scan_Corrupt
          else if class_index page = ci + 1 \<and> free_head page \<noteq> PGLC_ARENA_NO_BLOCK
          then Scan_Found page_no
          else scan_pages a ci rest)"

text \<open>The first unassigned page among the given page numbers, if any.\<close>

fun find_unassigned :: "PglcArena \<Rightarrow> nat list \<Rightarrow> nat option" where
  "find_unassigned a [] = None"
| "find_unassigned a (p # ps) =
     (if class_index (pages a ! p) = 0 then Some p else find_unassigned a ps)"

text \<open>The loop that moves \<open>first_unassigned_page\<close> past assigned pages.\<close>

definition advance_first_unassigned :: "PglcArena \<Rightarrow> PglcArena" where
  "advance_first_unassigned a =
     a\<lparr>first_unassigned_page :=
        (case find_unassigned a [first_unassigned_page a..<page_count a] of
           None \<Rightarrow> page_count a | Some p \<Rightarrow> p)\<rparr>"

text \<open>The last block of \<open>pglc_arena_alloc\<close>: pop the head of the page's free list.\<close>

definition take_block :: "PglcArena \<Rightarrow> nat \<Rightarrow> nat \<Rightarrow> nat \<Rightarrow> PglcArena \<times> (nat \<times> nat) option" where
  "take_block a page_no block_size request_size =
     (let page = pages a ! page_no in
      if assigned_bytes a < block_size \<or>
         assigned_bytes a - block_size < used_bytes a + class_slack_bytes a
      then (a, None)
      else
        let block_ref = free_head page in
        case block_info a block_ref False of None \<Rightarrow> (a, None)
        | Some (free_page, free_size, _) \<Rightarrow>
          if free_page \<noteq> page_no \<or> free_size \<noteq> block_size then (a, None)
          else
            let nxt = load_u32 (memory a) block_ref;
                nxt_ok = (nxt = PGLC_ARENA_NO_BLOCK \<or>
                  (case block_info a nxt False of None \<Rightarrow> False
                   | Some (p, sz, _) \<Rightarrow> p = page_no \<and> sz = block_size));
                block_no = block_ref mod PGLC_ARENA_PAGE_SIZE div block_size
            in if \<not> nxt_ok then (a, None)
            else if block_allocated page block_no then (a, None)
            else
              let page' = page\<lparr>allocated := (allocated page)
                      [block_no div 8 := allocated page ! (block_no div 8) OR block_mask block_no],
                    free_head := nxt,
                    live_count := u16 (live_count page + 1)\<rparr>
              in (a\<lparr>pages := (pages a)[page_no := page'],
                    used_bytes := u64 (used_bytes a + request_size),
                    class_slack_bytes := u64 (class_slack_bytes a + (block_size - request_size))\<rparr>,
                  Some (block_ref, block_size)))"

definition pglc_arena_alloc :: "PglcArena \<Rightarrow> nat \<Rightarrow> PglcArena \<times> (nat \<times> nat) option" where
  "pglc_arena_alloc a request_size =
     (let block_size = pglc_arena_class_size request_size in
      if \<not> arena_counters_valid a \<or> page_count a < first_unassigned_page a \<or> block_size = 0
      then (a, None)
      else
        let ci = find_class block_size [0..<PGLC_ARENA_CLASS_COUNT] in
        if PGLC_ARENA_CLASS_COUNT \<le> ci then (a, None)
        else case scan_pages a ci [0..<page_count a] of
            Scan_Corrupt \<Rightarrow> (a, None)
          | Scan_Found page_no \<Rightarrow> take_block a page_no block_size request_size
          | Scan_End \<Rightarrow>
            (case find_unassigned a [first_unassigned_page a..<page_count a] of
               None \<Rightarrow> (a, None)
             | Some page_no \<Rightarrow>
               (case assign_page (advance_first_unassigned a) page_no ci of
                  (a', False) \<Rightarrow> (a', None)
                | (a', True) \<Rightarrow> take_block a' page_no block_size request_size)))"

definition pglc_arena_free :: "PglcArena \<Rightarrow> nat \<Rightarrow> nat \<Rightarrow> PglcArena \<times> bool" where
  "pglc_arena_free a block_ref request_size =
     (case block_info a block_ref True of None \<Rightarrow> (a, False)
      | Some (page_no, block_size, block_no) \<Rightarrow>
        let page = pages a ! page_no;
            page_offset = block_ref mod PGLC_ARENA_PAGE_SIZE
        in if live_count page = 0 then (a, False)
        else if \<not> arena_counters_valid a \<or> page_offset mod block_size \<noteq> 0 \<or>
                block_size < request_size \<or> used_bytes a < request_size \<or>
                class_slack_bytes a < block_size - request_size \<or>
                (live_count page = 1 \<and> assigned_bytes a < PGLC_ARENA_PAGE_SIZE)
        then (a, False)
        else if \<not> free_head_valid a page_no page block_size then (a, False)
        else
          let page' = page\<lparr>allocated := (allocated page)
                  [block_no div 8 :=
                     (allocated page ! (block_no div 8)) AND NOT (block_mask block_no)],
                free_head := block_ref,
                live_count := live_count page - 1\<rparr>;
              a' = a\<lparr>memory := store_u32 (memory a) block_ref (free_head page),
                used_bytes := used_bytes a - request_size,
                class_slack_bytes := class_slack_bytes a - (block_size - request_size)\<rparr>
          in if live_count page' = 0 then
               (a'\<lparr>pages := (pages a)[page_no := page'\<lparr>class_index := 0, block_count := 0,
                      free_head := PGLC_ARENA_NO_BLOCK\<rparr>],
                    assigned_bytes := assigned_bytes a - PGLC_ARENA_PAGE_SIZE,
                    first_unassigned_page :=
                      (if page_no < first_unassigned_page a then page_no
                       else first_unassigned_page a)\<rparr>, True)
             else (a'\<lparr>pages := (pages a)[page_no := page']\<rparr>, True))"

definition pglc_arena_block_class :: "PglcArena \<Rightarrow> nat \<Rightarrow> nat" where
  "pglc_arena_block_class a block_ref =
     (case block_info a block_ref True of None \<Rightarrow> 0 | Some (_, block_size, _) \<Rightarrow> block_size)"

text \<open>A block pointer is an offset into the region; \<open>None\<close> is \<open>NULL\<close>.\<close>

definition pglc_arena_block :: "PglcArena \<Rightarrow> nat \<Rightarrow> nat option" where
  "pglc_arena_block a block_ref =
     (case block_info a block_ref True of None \<Rightarrow> None | Some _ \<Rightarrow> Some block_ref)"

definition pglc_arena_resize :: "PglcArena \<Rightarrow> nat \<Rightarrow> nat \<Rightarrow> nat \<Rightarrow> PglcArena \<times> bool" where
  "pglc_arena_resize a block_ref old_request_size new_request_size =
     (let block_size = pglc_arena_block_class a block_ref in
      if \<not> arena_counters_valid a \<or> block_size = 0 \<or> block_size < old_request_size \<or>
         block_size < new_request_size \<or> used_bytes a < old_request_size \<or>
         class_slack_bytes a < block_size - old_request_size
      then (a, False)
      else (a\<lparr>used_bytes := used_bytes a - old_request_size + new_request_size,
              class_slack_bytes := class_slack_bytes a - (block_size - old_request_size)
                + (block_size - new_request_size)\<rparr>, True))"

section \<open>Block classes\<close>

abbreviation page_bytes :: "PglcArenaPage \<Rightarrow> nat" where
  "page_bytes pg \<equiv> class_bytes (class_index pg - 1)"

lemma class_bytes_eq: "ci < 7 \<Longrightarrow> class_bytes ci = 256 * 2 ^ ci"
proof -
  assume "ci < 7"
  then have "(2::nat) ^ ci \<le> 2 ^ 6" by (intro power_increasing) auto
  then show ?thesis using \<open>ci < 7\<close> by (simp add: class_bytes_def)
qed

lemma class_cases:
  assumes "ci < (7::nat)"
  obtains "ci = 0" | "ci = 1" | "ci = 2" | "ci = 3" | "ci = 4" | "ci = 5" | "ci = 6"
  using assms by linarith

lemma class_bytes_bounds:
  assumes "ci < 7"
  shows "256 \<le> class_bytes ci" "class_bytes ci \<le> 16384" "65536 div class_bytes ci * class_bytes ci = 65536"
    "0 < 65536 div class_bytes ci" "65536 div class_bytes ci \<le> 256"
  by (use assms in \<open>cases rule: class_cases; simp add: class_bytes_eq\<close>)+

lemma class_bytes_inj: "ci < 7 \<Longrightarrow> cj < 7 \<Longrightarrow> class_bytes ci = class_bytes cj \<longleftrightarrow> ci = cj"
  by (simp add: class_bytes_eq)

declare class_size_loop.simps [simp del]

lemma class_size_unfold:
  "pglc_arena_class_size n =
     (if n \<le> 256 then 256 else if n \<le> 512 then 512 else if n \<le> 1024 then 1024
      else if n \<le> 2048 then 2048 else if n \<le> 4096 then 4096 else if n \<le> 8192 then 8192
      else if n \<le> 16384 then 16384 else 0)"
  by (simp add: pglc_arena_class_size_def class_size_loop.simps)

lemma class_size_class:
  assumes "pglc_arena_class_size n \<noteq> 0"
  shows "\<exists>ci < 7. pglc_arena_class_size n = class_bytes ci"
    and "n \<le> pglc_arena_class_size n"
proof -
  have classes: "{256, 512, 1024, 2048, 4096, 8192, 16384} = class_bytes ` {0, 1, 2, 3, 4, 5, 6}"
    by (simp add: class_bytes_eq)
  have "pglc_arena_class_size n \<in> {256, 512, 1024, 2048, 4096, 8192, 16384}"
    using assms by (auto simp: class_size_unfold split: if_splits)
  then obtain ci where "ci \<in> {0, 1, 2, 3, 4, 5, 6::nat}" "pglc_arena_class_size n = class_bytes ci"
    unfolding classes by (rule imageE) blast
  then show "\<exists>ci < 7. pglc_arena_class_size n = class_bytes ci"
    by (intro exI[of _ ci]) auto
  show "n \<le> pglc_arena_class_size n" using assms by (auto simp: class_size_unfold split: if_splits)
qed

lemma find_class_eq:
  assumes "ci < 7"
  shows "find_class (class_bytes ci) [0..<7] = ci"
  using assms by (cases rule: class_cases) (simp_all add: class_bytes_eq upt_rec)

section \<open>Bitmaps\<close>

lemma block_allocated_bit: "block_allocated pg b \<longleftrightarrow> bit (allocated pg ! (b div 8)) (b mod 8)"
  by (simp add: block_allocated_def block_mask_def bit_iff_and_push_bit_not_eq_0)

lemma bit_block_mask: "bit (block_mask b) k \<longleftrightarrow> k = b mod 8"
  by (auto simp: block_mask_def bit_simps)

lemma div_mod_eq_iff: "(a::nat) div 8 = b div 8 \<and> a mod 8 = b mod 8 \<longleftrightarrow> a = b"
  by (metis div_mult_mod_eq)

lemma block_allocated_set:
  assumes "b < 256" "b' < 256" "length (allocated pg) = 32"
  shows "block_allocated (pg\<lparr>allocated := (allocated pg)
      [b div 8 := allocated pg ! (b div 8) OR block_mask b]\<rparr>) b' \<longleftrightarrow> b' = b \<or> block_allocated pg b'"
proof (cases "b' div 8 = b div 8")
  case True
  then have "b' mod 8 = b mod 8 \<longleftrightarrow> b' = b" using div_mod_eq_iff[of b' b] by auto
  with True assms show ?thesis
    by (auto simp: block_allocated_bit bit_or_iff bit_block_mask)
next
  case False
  then show ?thesis by (auto simp: block_allocated_bit)
qed

lemma block_allocated_clear:
  assumes "b < 256" "b' < 256" "length (allocated pg) = 32"
  shows "block_allocated (pg\<lparr>allocated := (allocated pg)
      [b div 8 := allocated pg ! (b div 8) AND NOT (block_mask b)]\<rparr>) b' \<longleftrightarrow> b' \<noteq> b \<and> block_allocated pg b'"
proof (cases "b' div 8 = b div 8")
  case True
  then have "b' mod 8 = b mod 8 \<longleftrightarrow> b' = b" using div_mod_eq_iff[of b' b] by auto
  with True assms show ?thesis
    by (auto simp: block_allocated_bit bit_and_iff bit_not_iff bit_block_mask)
next
  case False
  then show ?thesis by (auto simp: block_allocated_bit)
qed

lemma block_allocated_fresh: "b < 256 \<Longrightarrow> allocated pg = replicate 32 0 \<Longrightarrow> \<not> block_allocated pg b"
  by (simp add: block_allocated_bit)

section \<open>Pages\<close>

text \<open>The free list of a page, as the list of its block numbers.\<close>

fun chain :: "mem \<Rightarrow> nat \<Rightarrow> nat \<Rightarrow> nat \<Rightarrow> nat list \<Rightarrow> bool" where
  "chain m base sz h [] \<longleftrightarrow> h = PGLC_ARENA_NO_BLOCK"
| "chain m base sz h (b # bs) \<longleftrightarrow> h = base + b * sz \<and> chain m base sz (load_u32 m h) bs"

definition free_blocks :: "PglcArenaPage \<Rightarrow> nat set" where
  "free_blocks pg = {b. b < block_count pg \<and> \<not> block_allocated pg b}"

definition live_blocks :: "PglcArenaPage \<Rightarrow> nat set" where
  "live_blocks pg = {b. b < block_count pg \<and> block_allocated pg b}"

definition page_ok :: "mem \<Rightarrow> nat \<Rightarrow> PglcArenaPage \<Rightarrow> bool" where
  "page_ok m p pg \<longleftrightarrow> length (allocated pg) = 32 \<and>
     (if class_index pg = 0
      then block_count pg = 0 \<and> live_count pg = 0 \<and> free_head pg = PGLC_ARENA_NO_BLOCK
      else class_index pg \<le> 7 \<and> block_count pg = PGLC_ARENA_PAGE_SIZE div page_bytes pg \<and>
        live_count pg = card (live_blocks pg) \<and>
        (\<exists>fl. chain m (p * PGLC_ARENA_PAGE_SIZE) (page_bytes pg) (free_head pg) fl \<and>
          distinct fl \<and> set fl = free_blocks pg))"

lemma page_okD:
  assumes "page_ok m p pg" "class_index pg \<noteq> 0"
  shows "length (allocated pg) = 32" "class_index pg - 1 < 7" "class_index pg \<le> 7"
    "block_count pg = 65536 div page_bytes pg"
    "live_count pg = card (live_blocks pg)"
    "\<exists>fl. chain m (p * 65536) (page_bytes pg) (free_head pg) fl \<and> distinct fl \<and> set fl = free_blocks pg"
    "256 \<le> page_bytes pg" "page_bytes pg \<le> 16384" "block_count pg * page_bytes pg = 65536"
    "0 < block_count pg" "block_count pg \<le> 256"
proof -
  show c: "class_index pg - 1 < 7" "class_index pg \<le> 7"
    using assms by (auto simp: page_ok_def)
  show "length (allocated pg) = 32" "block_count pg = 65536 div page_bytes pg"
    "live_count pg = card (live_blocks pg)"
    "\<exists>fl. chain m (p * 65536) (page_bytes pg) (free_head pg) fl \<and> distinct fl \<and> set fl = free_blocks pg"
    using assms by (auto simp: page_ok_def)
  with class_bytes_bounds[OF c(1)]
  show "256 \<le> page_bytes pg" "page_bytes pg \<le> 16384" "block_count pg * page_bytes pg = 65536"
    "0 < block_count pg" "block_count pg \<le> 256" by auto
qed

lemma finite_blocks [simp]: "finite (free_blocks pg)" "finite (live_blocks pg)"
  by (auto simp: free_blocks_def live_blocks_def)

lemma card_blocks: "card (free_blocks pg) + card (live_blocks pg) = block_count pg"
proof -
  have "free_blocks pg \<union> live_blocks pg = {..<block_count pg}" "free_blocks pg \<inter> live_blocks pg = {}"
    by (auto simp: free_blocks_def live_blocks_def)
  then show ?thesis using card_Un_disjoint[of "free_blocks pg" "live_blocks pg"] by simp
qed

lemma page_live_le: "page_ok m p pg \<Longrightarrow> class_index pg \<noteq> 0 \<Longrightarrow> live_count pg \<le> block_count pg"
  using card_blocks[of pg] by (simp add: page_okD)

lemma page_shape_ok:
  assumes "page_ok m p pg"
  shows "page_shape_valid pg = (if class_index pg = 0 then None else Some (page_bytes pg))"
proof (cases "class_index pg = 0")
  case True
  then show ?thesis by (simp add: page_shape_valid_def)
next
  case False
  note d = page_okD[OF assms False]
  have "live_count pg \<le> block_count pg" by (rule page_live_le[OF assms False])
  then show ?thesis using False d by (simp add: page_shape_valid_def Let_def)
qed

lemma chain_cong:
  assumes "\<And>b k. b \<in> set fl \<Longrightarrow> k < 4 \<Longrightarrow> m' (base + b * sz + k) = m (base + b * sz + k)"
  shows "chain m' base sz h fl = chain m base sz h fl"
  using assms
proof (induction fl arbitrary: h)
  case Nil
  then show ?case by simp
next
  case (Cons b fl)
  have "load_u32 m' (base + b * sz) = load_u32 m (base + b * sz)"
    by (rule load_u32_cong) (simp add: Cons.prems)
  with Cons show ?case by auto
qed

lemma page_ok_cong:
  assumes "page_ok m p pg"
    and "\<And>b k. class_index pg \<noteq> 0 \<Longrightarrow> b \<in> free_blocks pg \<Longrightarrow> k < 4 \<Longrightarrow>
      m' (p * 65536 + b * page_bytes pg + k) = m (p * 65536 + b * page_bytes pg + k)"
  shows "page_ok m' p pg"
proof (cases "class_index pg = 0")
  case True
  with assms(1) show ?thesis by (simp add: page_ok_def)
next
  case False
  from page_okD(6)[OF assms(1) False] obtain fl where
    fl: "chain m (p * 65536) (page_bytes pg) (free_head pg) fl" "distinct fl" "set fl = free_blocks pg"
    by blast
  have "chain m' (p * 65536) (page_bytes pg) (free_head pg) fl"
    using fl chain_cong[of fl m' "p * 65536" "page_bytes pg" m] assms(2)[OF False] by metis
  with fl assms(1) show ?thesis by (auto simp: page_ok_def)
qed

section \<open>Block references\<close>

lemma block_within_page:
  assumes "page_ok m p pg" "class_index pg \<noteq> 0" "b < block_count pg"
  shows "b * page_bytes pg + page_bytes pg \<le> 65536"
proof -
  have "(b + 1) * page_bytes pg \<le> block_count pg * page_bytes pg"
    using assms(3) by (intro mult_le_mono1) simp
  then show ?thesis using page_okD(9)[OF assms(1,2)] by (simp add: algebra_simps)
qed

lemma block_ref_split:
  assumes "page_ok m p pg" "class_index pg \<noteq> 0" "b < block_count pg"
    and "r = p * 65536 + b * page_bytes pg"
  shows "r div 65536 = p" "r mod 65536 = b * page_bytes pg"
    "r mod 65536 mod page_bytes pg = 0" "r mod 65536 div page_bytes pg = b"
proof -
  have le: "b * page_bytes pg < 65536" and pos: "0 < page_bytes pg"
    using block_within_page[OF assms(1-3)] page_okD(7)[OF assms(1,2)] by linarith+
  show d: "r div 65536 = p" and m: "r mod 65536 = b * page_bytes pg"
    using le assms(4) by simp_all
  show "r mod 65536 mod page_bytes pg = 0" "r mod 65536 div page_bytes pg = b"
    unfolding m using pos by simp_all
qed

lemma block_disjoint:
  assumes "(b::nat) \<noteq> b'"
  shows "b * sz + sz \<le> b' * sz \<or> b' * sz + sz \<le> b * sz"
proof -
  have "(b + 1) * sz \<le> b' * sz \<or> (b' + 1) * sz \<le> b * sz"
    using assms by (metis Suc_eq_plus1 Suc_leI linorder_neqE_nat mult_le_mono1)
  then show ?thesis by (simp add: algebra_simps)
qed

definition arena_struct :: "PglcArena \<Rightarrow> bool" where
  "arena_struct a \<longleftrightarrow> length (pages a) = page_count a \<and> arena_ready a \<and>
     (\<forall>p < page_count a. page_ok (memory a) p (pages a ! p))"

lemma arena_structD:
  assumes "arena_struct a"
  shows "length (pages a) = page_count a" "arena_ready a" "0 < page_count a" "page_count a \<le> 65535"
    "\<And>p. p < page_count a \<Longrightarrow> page_ok (memory a) p (pages a ! p)"
  using assms by (auto simp: arena_struct_def arena_ready_def)

definition block_at :: "PglcArena \<Rightarrow> bool \<Rightarrow> nat \<Rightarrow> nat \<Rightarrow> nat \<Rightarrow> bool" where
  "block_at a live p b r \<longleftrightarrow>
     p < page_count a \<and> class_index (pages a ! p) \<noteq> 0 \<and> b < block_count (pages a ! p) \<and>
     block_allocated (pages a ! p) b = live \<and> r = p * 65536 + b * page_bytes (pages a ! p)"

lemma block_atI_info:
  assumes st: "arena_struct a" and at: "block_at a req p b r"
  shows "block_info a r req = Some (p, page_bytes (pages a ! p), b)"
proof -
  let ?pg = "pages a ! p"
  have p: "p < page_count a" "class_index ?pg \<noteq> 0" "b < block_count ?pg"
    "block_allocated ?pg b = req" "r = p * 65536 + b * page_bytes ?pg"
    using at by (auto simp: block_at_def)
  have ok: "page_ok (memory a) p ?pg" using arena_structD(5)[OF st] p by simp
  note sp = block_ref_split[OF ok p(2,3,5)]
  note d = page_okD[OF ok p(2)]
  have live: "\<not> (req \<and> live_count ?pg = 0)" "\<not> (\<not> req \<and> block_count ?pg \<le> live_count ?pg)"
  proof -
    have "b \<in> (if req then live_blocks ?pg else free_blocks ?pg)"
      using p by (auto simp: live_blocks_def free_blocks_def)
    then have "0 < card (if req then live_blocks ?pg else free_blocks ?pg)"
      by (auto simp: card_gt_0_iff split: if_splits)
    then show "\<not> (req \<and> live_count ?pg = 0)" "\<not> (\<not> req \<and> block_count ?pg \<le> live_count ?pg)"
      using d(5) card_blocks[of ?pg] by (auto split: if_splits)
  qed
  have "p + 1 \<le> page_count a" using p(1) by simp
  then have "(p + 1) * 65536 \<le> page_count a * 65536" by (intro mult_le_mono1)
  then have extent: "r + page_bytes ?pg \<le> page_count a * 65536"
    using block_within_page[OF ok p(2,3)] p(5) by simp
  show ?thesis
    using p sp d live extent arena_structD[OF st]
    by (simp add: block_info_def Let_def page_shape_ok[OF ok])
qed

lemma block_info_Some:
  assumes st: "arena_struct a" and bi: "block_info a r req = Some (p, sz, b)"
  shows "block_at a req p b r \<and> sz = page_bytes (pages a ! p)"
proof -
  define q where "q = r div 65536"
  define off where "off = r mod 65536"
  define pg where "pg = pages a ! q"
  have p: "q < page_count a" using bi by (auto simp: block_info_def Let_def q_def split: if_splits)
  have ok: "page_ok (memory a) q pg" using arena_structD(5)[OF st] p by (simp add: pg_def)
  have "class_index pg \<noteq> 0 \<and> off mod page_bytes pg = 0 \<and> b = off div page_bytes pg \<and>
    b < block_count pg \<and> block_allocated pg b = req \<and> p = q \<and> sz = page_bytes pg"
    using bi p unfolding block_info_def Let_def q_def [symmetric] off_def [symmetric]
      pg_def [symmetric] page_shape_ok[OF ok]
    by (auto simp: not_le split: if_splits)
  moreover have "r = q * 65536 + off" unfolding q_def off_def by (rule div_mult_mod_eq [symmetric])
  ultimately show ?thesis
    using p by (auto simp: block_at_def pg_def)
qed

lemma block_info_iff:
  assumes "arena_struct a"
  shows "block_info a r req = Some (p, sz, b) \<longleftrightarrow> block_at a req p b r \<and> sz = page_bytes (pages a ! p)"
  using block_info_Some[OF assms] block_atI_info[OF assms] by blast

lemma block_at_split:
  assumes "arena_struct a" "block_at a live p b r"
  shows "r div 65536 = p" "r mod 65536 = b * page_bytes (pages a ! p)"
    "r mod 65536 mod page_bytes (pages a ! p) = 0" "r mod 65536 div page_bytes (pages a ! p) = b"
    "r < UINT32_MAX" "b * page_bytes (pages a ! p) + page_bytes (pages a ! p) \<le> 65536"
proof -
  have ok: "page_ok (memory a) p (pages a ! p)"
    using assms by (auto simp: block_at_def arena_structD)
  have q: "class_index (pages a ! p) \<noteq> 0" "b < block_count (pages a ! p)"
    "r = p * 65536 + b * page_bytes (pages a ! p)" "p < page_count a"
    using assms by (auto simp: block_at_def)
  show "r div 65536 = p" "r mod 65536 = b * page_bytes (pages a ! p)"
    "r mod 65536 mod page_bytes (pages a ! p) = 0" "r mod 65536 div page_bytes (pages a ! p) = b"
    by (rule block_ref_split[OF ok q(1,2,3)])+
  show le: "b * page_bytes (pages a ! p) + page_bytes (pages a ! p) \<le> 65536"
    by (rule block_within_page[OF ok q(1,2)])
  show "r < UINT32_MAX" using le q(3,4) arena_structD(4)[OF assms(1)] page_okD(7)[OF ok q(1)] by simp
qed

lemma block_at_unique:
  assumes "arena_struct a" "block_at a l p b r" "block_at a l' p' b' r"
  shows "p' = p" "b' = b" "l' = l"
proof -
  show p: "p' = p" using block_at_split(1)[OF assms(1,2)] block_at_split(1)[OF assms(1,3)] by simp
  show b: "b' = b" using block_at_split(4)[OF assms(1,2)] block_at_split(4)[OF assms(1,3)] p by simp
  show "l' = l" using assms(2,3) p b by (simp add: block_at_def)
qed

text \<open>Two different blocks, live or free, share no byte.\<close>

lemma block_at_disjoint:
  assumes "arena_struct a" "block_at a l p b r" "block_at a l' p' b' r'" "r \<noteq> r'"
  shows "r + page_bytes (pages a ! p) \<le> r' \<or> r' + page_bytes (pages a ! p') \<le> r"
proof (cases "p = p'")
  case True
  then have "b \<noteq> b'" using assms by (auto simp: block_at_def)
  then show ?thesis
    using block_disjoint[of b b' "page_bytes (pages a ! p)"] assms True by (auto simp: block_at_def)
next
  case False
  then have "p + 1 \<le> p' \<or> p' + 1 \<le> p" by auto
  then have "(p + 1) * 65536 \<le> p' * 65536 \<or> (p' + 1) * 65536 \<le> p * 65536"
    by (metis mult_le_mono1)
  then show ?thesis
    using block_at_split(6)[OF assms(1,2)] block_at_split(6)[OF assms(1,3)] assms(2,3)
    by (auto simp: block_at_def)
qed

section \<open>The abstract allocator\<close>

definition live_refs :: "PglcArena \<Rightarrow> nat set" where
  "live_refs a = {r. \<exists>p b. block_at a True p b r}"

definition ref_bytes :: "PglcArena \<Rightarrow> nat \<Rightarrow> nat" where
  "ref_bytes a r = page_bytes (pages a ! (r div 65536))"

definition page_load :: "PglcArenaPage \<Rightarrow> nat" where
  "page_load pg = live_count pg * page_bytes pg"

definition page_extent :: "PglcArenaPage \<Rightarrow> nat" where
  "page_extent pg = (if class_index pg = 0 then 0 else 65536)"

text \<open>
  The refinement relation: \<open>M\<close> maps every live block to the number of bytes requested
  for it, and the counters are the sums they are meant to be.
\<close>

definition arena_rel :: "PglcArena \<Rightarrow> (nat \<rightharpoonup> nat) \<Rightarrow> bool" where
  "arena_rel a M \<longleftrightarrow> arena_struct a \<and>
     first_unassigned_page a \<le> page_count a \<and>
     (\<forall>p < first_unassigned_page a. class_index (pages a ! p) \<noteq> 0) \<and>
     dom M = live_refs a \<and> (\<forall>r n. M r = Some n \<longrightarrow> n \<le> ref_bytes a r) \<and>
     used_bytes a = (\<Sum>r \<in> dom M. the (M r)) \<and>
     class_slack_bytes a = (\<Sum>r \<in> dom M. ref_bytes a r - the (M r)) \<and>
     used_bytes a + class_slack_bytes a = sum_list (map page_load (pages a)) \<and>
     assigned_bytes a = sum_list (map page_extent (pages a))"

lemma arena_relD:
  assumes "arena_rel a M"
  shows "arena_struct a" "first_unassigned_page a \<le> page_count a"
    "\<And>p. p < first_unassigned_page a \<Longrightarrow> class_index (pages a ! p) \<noteq> 0"
    "dom M = live_refs a" "\<And>r n. M r = Some n \<Longrightarrow> n \<le> ref_bytes a r"
    "used_bytes a = (\<Sum>r \<in> dom M. the (M r))"
    "class_slack_bytes a = (\<Sum>r \<in> dom M. ref_bytes a r - the (M r))"
    "used_bytes a + class_slack_bytes a = sum_list (map page_load (pages a))"
    "assigned_bytes a = sum_list (map page_extent (pages a))"
  using assms by (auto simp: arena_rel_def)

lemma finite_live_refs: "arena_struct a \<Longrightarrow> finite (live_refs a)"
proof -
  assume "arena_struct a"
  then have "live_refs a \<subseteq> {..<UINT32_MAX}"
    using block_at_split(5) by (auto simp: live_refs_def)
  then show ?thesis by (rule finite_subset) simp
qed

lemma page_load_le:
  assumes "page_ok m p pg"
  shows "page_load pg \<le> page_extent pg"
proof (cases "class_index pg = 0")
  case True
  then show ?thesis using assms by (simp add: page_ok_def page_load_def)
next
  case False
  have "live_count pg * page_bytes pg \<le> block_count pg * page_bytes pg"
    by (rule mult_le_mono1[OF page_live_le[OF assms False]])
  then show ?thesis using False unfolding page_okD(9)[OF assms False]
    by (simp add: page_load_def page_extent_def)
qed

lemma arena_struct_page: "arena_struct a \<Longrightarrow> pg \<in> set (pages a) \<Longrightarrow> \<exists>p < page_count a. page_ok (memory a) p pg"
  by (metis arena_structD(1,5) in_set_conv_nth)

lemma arena_load_room:
  assumes rel: "arena_rel a M" and "p < page_count a" "class_index (pages a ! p) \<noteq> 0"
    and "live_count (pages a ! p) < block_count (pages a ! p)"
  shows "used_bytes a + class_slack_bytes a + page_bytes (pages a ! p) \<le> assigned_bytes a"
proof -
  note st = arena_relD(1)[OF rel]
  have ok: "page_ok (memory a) p (pages a ! p)" by (rule arena_structD(5)[OF st assms(2)])
  have "(live_count (pages a ! p) + 1) * page_bytes (pages a ! p)
      \<le> block_count (pages a ! p) * page_bytes (pages a ! p)"
    using assms(4) by (intro mult_le_mono1) simp
  then have "page_load (pages a ! p) + page_bytes (pages a ! p) \<le> page_extent (pages a ! p)"
    using page_okD(9)[OF ok assms(3)] assms(3) by (simp add: page_load_def page_extent_def)
  moreover have "page_load pg \<le> page_extent pg" if "pg \<in> set (pages a)" for pg
    using arena_struct_page[OF st that] page_load_le by blast
  ultimately have "sum_list (map page_load (pages a)) + page_bytes (pages a ! p)
      \<le> sum_list (map page_extent (pages a))"
    using assms(2) arena_structD(1)[OF st]
    by (intro sum_list_map_mono_strict[of "pages a" page_load page_extent p]) auto
  then show ?thesis using arena_relD(8,9)[OF rel] by simp
qed

lemma arena_rel_bounds:
  assumes rel: "arena_rel a M"
  shows "used_bytes a + class_slack_bytes a \<le> assigned_bytes a"
    "assigned_bytes a \<le> page_count a * 65536" "page_count a * 65536 \<le> UINT32_MAX"
proof -
  note st = arena_relD(1)[OF rel]
  have "page_load pg \<le> page_extent pg" if "pg \<in> set (pages a)" for pg
    using arena_struct_page[OF st that] page_load_le by blast
  then have "sum_list (map page_load (pages a)) \<le> sum_list (map page_extent (pages a))"
    by (rule sum_list_mono)
  then show "used_bytes a + class_slack_bytes a \<le> assigned_bytes a"
    using arena_relD(8,9)[OF rel] by simp
  have "sum_list (map page_extent (pages a)) \<le> sum_list (map (\<lambda>_. 65536) (pages a))"
    by (rule sum_list_mono) (simp add: page_extent_def)
  then show "assigned_bytes a \<le> page_count a * 65536"
    using arena_relD(9)[OF rel] arena_structD(1)[OF st] by (simp add: sum_list_triv)
  show "page_count a * 65536 \<le> UINT32_MAX" using arena_structD(4)[OF st] by simp
qed

lemma arena_rel_counters: "arena_rel a M \<Longrightarrow> arena_counters_valid a"
  using arena_rel_bounds[of a M] arena_structD(2)[OF arena_relD(1)[of a M]]
  by (auto simp: arena_counters_valid_def)

lemma free_head_cases:
  assumes st: "arena_struct a" and p: "p < page_count a" "class_index (pages a ! p) \<noteq> 0"
  shows "free_head_valid a p (pages a ! p) (page_bytes (pages a ! p))"
    "free_head (pages a ! p) \<noteq> PGLC_ARENA_NO_BLOCK \<Longrightarrow>
     \<exists>b. block_at a False p b (free_head (pages a ! p))"
    "free_head (pages a ! p) \<noteq> PGLC_ARENA_NO_BLOCK \<longleftrightarrow> free_blocks (pages a ! p) \<noteq> {}"
proof -
  let ?pg = "pages a ! p"
  have ok: "page_ok (memory a) p ?pg" by (rule arena_structD(5)[OF st p(1)])
  from page_okD(6)[OF ok p(2)] obtain fl where
    fl: "chain (memory a) (p * 65536) (page_bytes ?pg) (free_head ?pg) fl" "set fl = free_blocks ?pg"
    by blast
  have cnt: "card (free_blocks ?pg) + live_count ?pg = block_count ?pg"
    using card_blocks[of ?pg] page_okD(5)[OF ok p(2)] by simp
  show blk: "\<exists>b. block_at a False p b (free_head ?pg)" if "free_head ?pg \<noteq> PGLC_ARENA_NO_BLOCK"
    using fl p that by (cases fl) (auto simp: block_at_def free_blocks_def)
  have empty: "free_head ?pg = PGLC_ARENA_NO_BLOCK \<Longrightarrow> free_blocks ?pg = {}"
  proof (cases fl)
    case (Cons b bs)
    then have "block_at a False p b (free_head ?pg)"
      using fl p by (auto simp: block_at_def free_blocks_def)
    then show "free_head ?pg = PGLC_ARENA_NO_BLOCK \<Longrightarrow> free_blocks ?pg = {}"
      using block_at_split(5)[OF st] by auto
  qed (use fl in auto)
  have nonempty: "free_head ?pg \<noteq> PGLC_ARENA_NO_BLOCK \<Longrightarrow> free_blocks ?pg \<noteq> {}"
    using blk by (auto simp: block_at_def free_blocks_def)
  show "free_head ?pg \<noteq> PGLC_ARENA_NO_BLOCK \<longleftrightarrow> free_blocks ?pg \<noteq> {}"
    using empty nonempty by blast
  show "free_head_valid a p ?pg (page_bytes ?pg)"
  proof (cases "free_head ?pg = PGLC_ARENA_NO_BLOCK")
    case True
    with empty cnt show ?thesis by (simp add: free_head_valid_def)
  next
    case False
    then have "card (free_blocks ?pg) \<noteq> 0" using nonempty by simp
    then have "live_count ?pg < block_count ?pg" using cnt by linarith
    with False blk[OF False] block_atI_info[OF st] show ?thesis
      by (auto simp: free_head_valid_def)
  qed
qed

lemma scan_pages_eq:
  assumes "arena_struct a" "set ps \<subseteq> {..<page_count a}"
  shows "scan_pages a ci ps =
    (case find (\<lambda>p. class_index (pages a ! p) = ci + 1 \<and>
        free_head (pages a ! p) \<noteq> PGLC_ARENA_NO_BLOCK) ps of
       None \<Rightarrow> Scan_End | Some p \<Rightarrow> Scan_Found p)"
  using assms(2)
proof (induction ps)
  case Nil
  then show ?case by simp
next
  case (Cons p ps)
  then have p: "p < page_count a" by simp
  have ok: "page_ok (memory a) p (pages a ! p)" by (rule arena_structD(5)[OF assms(1) p])
  show ?case
  proof (cases "class_index (pages a ! p) = 0")
    case True
    then show ?thesis using Cons ok by (auto simp: page_ok_def Let_def)
  next
    case False
    then show ?thesis
      using Cons free_head_cases(1)[OF assms(1) p False] by (auto simp: page_shape_ok[OF ok] Let_def)
  qed
qed

lemma find_unassigned_eq: "find_unassigned a ps = find (\<lambda>p. class_index (pages a ! p) = 0) ps"
  by (induction ps) auto

section \<open>Updating one page\<close>

lemma arena_struct_update:
  assumes "arena_struct a" "p < page_count a"
    and "pages a' = (pages a)[p := pg']" "page_count a' = page_count a"
    and "page_ok (memory a') p pg'"
    and "\<And>q. q < page_count a \<Longrightarrow> q \<noteq> p \<Longrightarrow> page_ok (memory a') q (pages a ! q)"
  shows "arena_struct a'"
  using assms arena_structD[OF assms(1)]
  by (auto simp: arena_struct_def arena_ready_def nth_list_update)

lemma block_at_update:
  assumes "arena_struct a" "p < page_count a"
    and "pages a' = (pages a)[p := pg']" "page_count a' = page_count a"
  shows "block_at a' l q c r \<longleftrightarrow>
    (if q = p then class_index pg' \<noteq> 0 \<and> c < block_count pg' \<and> block_allocated pg' c = l \<and>
        r = p * 65536 + c * page_bytes pg'
     else block_at a l q c r)"
  using assms(2-4) arena_structD(1)[OF assms(1)] by (auto simp: block_at_def)

lemma ref_bytes_update:
  assumes "arena_struct a" "p < page_count a" "pages a' = (pages a)[p := pg']"
    and "class_index pg' = class_index (pages a ! p)"
  shows "ref_bytes a' r = ref_bytes a r"
  using assms arena_structD(1)[OF assms(1)] by (cases "r div 65536 = p") (auto simp: ref_bytes_def)

lemma page_sums_update:
  assumes "arena_struct a" "p < page_count a" "pages a' = (pages a)[p := pg']"
  shows "sum_list (map page_load (pages a')) + page_load (pages a ! p)
      = sum_list (map page_load (pages a)) + page_load pg'"
    "sum_list (map page_extent (pages a')) + page_extent (pages a ! p)
      = sum_list (map page_extent (pages a)) + page_extent pg'"
  using assms arena_structD(1)[OF assms(1)] by (simp_all add: sum_list_update_nat)

lemma map_sum_insert:
  fixes M :: "nat \<rightharpoonup> nat"
  assumes "finite (dom M)" "r \<notin> dom M"
  shows "(\<Sum>x \<in> dom (M(r \<mapsto> n)). f x (the ((M(r \<mapsto> n)) x))) = (\<Sum>x \<in> dom M. f x (the (M x))) + (f r n :: nat)"
proof -
  have "(\<Sum>x \<in> dom (M(r \<mapsto> n)). f x (the ((M(r \<mapsto> n)) x)))
      = f r n + (\<Sum>x \<in> dom M. f x (the ((M(r \<mapsto> n)) x)))"
    using assms by simp
  also have "(\<Sum>x \<in> dom M. f x (the ((M(r \<mapsto> n)) x))) = (\<Sum>x \<in> dom M. f x (the (M x)))"
    using assms(2) by (intro sum.cong) auto
  finally show ?thesis by (simp only: add.commute)
qed

text \<open>The live references of one page, and how they change with the page.\<close>

definition page_refs :: "nat \<Rightarrow> PglcArenaPage \<Rightarrow> nat set" where
  "page_refs p pg =
     (if class_index pg = 0 then {} else (\<lambda>c. p * 65536 + c * page_bytes pg) ` live_blocks pg)"

lemma live_refs_split:
  assumes "arena_struct a" "p < page_count a"
  shows "live_refs a = {r \<in> live_refs a. r div 65536 \<noteq> p} \<union> page_refs p (pages a ! p)"
proof -
  have "{r \<in> live_refs a. r div 65536 = p} = page_refs p (pages a ! p)"
  proof (intro equalityI subsetI)
    fix r assume "r \<in> {r \<in> live_refs a. r div 65536 = p}"
    then obtain q b where at: "block_at a True q b r" and "r div 65536 = p"
      by (auto simp: live_refs_def)
    then have "q = p" using block_at_split(1)[OF assms(1)] by blast
    with at show "r \<in> page_refs p (pages a ! p)"
      by (auto simp: block_at_def page_refs_def live_blocks_def)
  next
    fix r assume "r \<in> page_refs p (pages a ! p)"
    then obtain b where at: "block_at a True p b r"
      using assms(2) by (auto simp: page_refs_def live_blocks_def block_at_def split: if_splits)
    with block_at_split(1)[OF assms(1)] show "r \<in> {r \<in> live_refs a. r div 65536 = p}"
      by (auto simp: live_refs_def)
  qed
  then show ?thesis by blast
qed

lemma live_refs_update:
  assumes "arena_struct a" "arena_struct a'" "p < page_count a"
    and "pages a' = (pages a)[p := pg']" "page_count a' = page_count a"
  shows "live_refs a' = {r \<in> live_refs a. r div 65536 \<noteq> p} \<union> page_refs p pg'"
proof -
  have "block_at a' True q b r \<longleftrightarrow> block_at a True q b r" if "q \<noteq> p" for q b r
    using that by (simp add: block_at_update[OF assms(1,3-5)])
  moreover have "q = r div 65536" if "block_at a True q b r" for q b r
    using block_at_split(1)[OF assms(1) that] by simp
  moreover have "q = r div 65536" if "block_at a' True q b r" for q b r
    using block_at_split(1)[OF assms(2) that] by simp
  ultimately have "{r \<in> live_refs a'. r div 65536 \<noteq> p} = {r \<in> live_refs a. r div 65536 \<noteq> p}"
    unfolding live_refs_def by blast
  moreover have "pages a' ! p = pg'" using assms(3,4) arena_structD(1)[OF assms(1)] by simp
  ultimately show ?thesis using live_refs_split[OF assms(2), of p] assms(3,5) by simp
qed

section \<open>Popping a block\<close>

lemma take_block_spec:
  assumes rel: "arena_rel a M" and p: "p < page_count a" "class_index (pages a ! p) \<noteq> 0"
    and head: "free_head (pages a ! p) \<noteq> PGLC_ARENA_NO_BLOCK"
    and sz: "sz = page_bytes (pages a ! p)" and n: "n \<le> sz"
  obtains a' where "take_block a p sz n = (a', Some (free_head (pages a ! p), sz))"
    "M (free_head (pages a ! p)) = None" "arena_rel a' (M(free_head (pages a ! p) \<mapsto> n))"
    "memory a' = memory a" "page_count a' = page_count a"
    "\<And>r. ref_bytes a' r = ref_bytes a r" "ref_bytes a' (free_head (pages a ! p)) = sz"
    "\<And>q. q \<noteq> p \<Longrightarrow> pages a' ! q = pages a ! q" "live_count (pages a' ! p) \<noteq> 0"
    "\<And>q. class_index (pages a' ! q) = class_index (pages a ! q)"
proof -
  let ?pg = "pages a ! p" let ?r = "free_head ?pg" let ?m = "memory a"
  note st = arena_relD(1)[OF rel]
  have ok: "page_ok ?m p ?pg" by (rule arena_structD(5)[OF st p(1)])
  note d = page_okD[OF ok p(2)]
  from d(6) obtain fl where
    fl: "chain ?m (p * 65536) (page_bytes ?pg) ?r fl" "distinct fl" "set fl = free_blocks ?pg" by blast
  obtain b bs where fl_eq: "fl = b # bs" using head fl(1) by (cases fl) simp_all
  have "b \<in> free_blocks ?pg" unfolding fl(3)[symmetric] fl_eq by simp
  then have b: "b < block_count ?pg" "\<not> block_allocated ?pg b" "b < 256"
    using d(11) by (simp_all add: free_blocks_def)
  have r: "?r = p * 65536 + b * page_bytes ?pg" using fl(1) fl_eq by simp
  have at: "block_at a False p b ?r" using p b r by (simp add: block_at_def)
  define nxt where "nxt = load_u32 ?m ?r"
  have chain_bs: "chain ?m (p * 65536) (page_bytes ?pg) nxt bs"
    using fl(1) unfolding fl_eq chain.simps nxt_def by (rule conjunct2)
  have nxt_ok: "nxt = PGLC_ARENA_NO_BLOCK \<or>
      (case block_info a nxt False of None \<Rightarrow> False | Some (q, s, _) \<Rightarrow> q = p \<and> s = sz)"
  proof (cases bs)
    case Nil
    then show ?thesis using chain_bs by simp
  next
    case (Cons c cs)
    then have "c \<in> free_blocks ?pg" unfolding fl(3)[symmetric] fl_eq by simp
    then have "block_at a False p c nxt"
      using chain_bs Cons p by (simp add: block_at_def free_blocks_def)
    then show ?thesis using block_atI_info[OF st] sz by auto
  qed
  define pg' where "pg' = ?pg\<lparr>allocated := (allocated ?pg)
      [b div 8 := allocated ?pg ! (b div 8) OR block_mask b],
      free_head := nxt, live_count := u16 (live_count ?pg + 1)\<rparr>"
  define a' where "a' = a\<lparr>pages := (pages a)[p := pg'],
      used_bytes := u64 (used_bytes a + n), class_slack_bytes := u64 (class_slack_bytes a + (sz - n))\<rparr>"
  have live_lt: "live_count ?pg < block_count ?pg"
  proof -
    have "card (free_blocks ?pg) \<noteq> 0" unfolding fl(3)[symmetric] fl_eq by simp
    then show ?thesis using card_blocks[of ?pg] d(5) by linarith
  qed
  have room: "used_bytes a + class_slack_bytes a + sz \<le> assigned_bytes a"
    using arena_load_room[OF rel p live_lt] sz by simp
  have small: "assigned_bytes a \<le> UINT32_MAX" using arena_rel_bounds[OF rel] by linarith
  have bno: "?r mod 65536 div sz = b" using block_at_split(4)[OF st at] sz by simp
  have "take_block a p sz n = (a', Some (?r, sz))"
    using room nxt_ok block_atI_info[OF st at] bno b(2)
    unfolding take_block_def Let_def nxt_def[symmetric]
    by (auto simp: sz a'_def pg'_def)
  moreover have alloc': "block_allocated pg' c \<longleftrightarrow> c = b \<or> block_allocated ?pg c" if "c < 256" for c
    using block_allocated_set[OF b(3) that d(1)] by (simp add: pg'_def block_allocated_def)
  have same: "block_count pg' = block_count ?pg" "class_index pg' = class_index ?pg"
    "length (allocated pg') = 32" "free_head pg' = nxt" "live_count pg' = live_count ?pg + 1"
    using d live_lt by (auto simp: pg'_def)
  have live': "live_blocks pg' = insert b (live_blocks ?pg)"
    using alloc' b d(11) by (auto simp: live_blocks_def same)
  have "free_blocks pg' = free_blocks ?pg - {b}"
    using alloc' d(11) by (auto simp: free_blocks_def same)
  then have free': "free_blocks pg' = set bs" using fl(2) unfolding fl(3)[symmetric] fl_eq by auto
  have "b \<notin> live_blocks ?pg" using b by (simp add: live_blocks_def)
  then have "live_count pg' = card (live_blocks pg')" using live' d(5) same by simp
  then have ok': "page_ok ?m p pg'"
    using d(3,4) p(2) same chain_bs fl(2) fl_eq free' by (auto simp: page_ok_def)
  have fields: "pages a' = (pages a)[p := pg']" "page_count a' = page_count a" "memory a' = ?m"
    "assigned_bytes a' = assigned_bytes a" "first_unassigned_page a' = first_unassigned_page a"
    "used_bytes a' = used_bytes a + n" "class_slack_bytes a' = class_slack_bytes a + (sz - n)"
    using room small n by (auto simp: a'_def)
  have st': "arena_struct a'"
    by (rule arena_struct_update[OF st p(1) fields(1,2)]) (simp_all add: fields ok' arena_structD(5)[OF st])
  have class': "class_index (pages a' ! q) = class_index (pages a ! q)" for q
    using p arena_structD(1)[OF st] by (cases "q = p") (auto simp: fields same)
  have rb: "ref_bytes a' x = ref_bytes a x" for x
    by (rule ref_bytes_update[OF st p(1) fields(1) same(2)])
  have "page_refs p pg' = insert ?r (page_refs p ?pg)"
    using p(2) by (simp add: page_refs_def live' same r)
  then have live_refs': "live_refs a' = insert ?r (live_refs a)"
    using live_refs_update[OF st st' p(1) fields(1,2)] live_refs_split[OF st p(1)] by blast
  moreover have fresh: "?r \<notin> dom M"
    using block_at_unique(3)[OF st at] arena_relD(4)[OF rel] by (auto simp: live_refs_def)
  have fin: "finite (dom M)" using finite_live_refs[OF st] arena_relD(4)[OF rel] by simp
  have rr: "ref_bytes a ?r = sz" using block_at_split(1)[OF st at] sz by (simp add: ref_bytes_def)
  have used': "used_bytes a' = (\<Sum>x \<in> dom (M(?r \<mapsto> n)). the ((M(?r \<mapsto> n)) x))"
    using map_sum_insert[OF fin fresh, of "\<lambda>_ k. k" n] arena_relD(6)[OF rel] fields(6) by simp
  have slack': "class_slack_bytes a' = (\<Sum>x \<in> dom (M(?r \<mapsto> n)). ref_bytes a' x - the ((M(?r \<mapsto> n)) x))"
    using map_sum_insert[OF fin fresh, of "\<lambda>x k. ref_bytes a x - k" n] arena_relD(7)[OF rel] fields(7)
    by (simp add: rb rr)
  have load': "used_bytes a' + class_slack_bytes a' = sum_list (map page_load (pages a'))"
    using page_sums_update(1)[OF st p(1) fields(1)] arena_relD(8)[OF rel] fields(6,7) n
    by (simp add: page_load_def same sz)
  have ext': "assigned_bytes a' = sum_list (map page_extent (pages a'))"
    using page_sums_update(2)[OF st p(1) fields(1)] arena_relD(9)[OF rel] fields(4)
    by (simp add: page_extent_def same)
  have "arena_rel a' (M(?r \<mapsto> n))"
    using st' arena_relD(2-5)[OF rel] used' slack' load' ext' live_refs' fields class' rb rr n
    by (auto simp: arena_rel_def)
  moreover have "live_count (pages a' ! p) \<noteq> 0" using p arena_structD(1)[OF st] by (simp add: fields same)
  ultimately show thesis
    using that[of a'] fresh fields rb rr class' by auto
qed

section \<open>Assigning a page\<close>

lemma link_fold:
  assumes "4 \<le> sz" "p * 65536 + n * sz \<le> UINT32_MAX" "k \<le> n"
  shows "(\<forall>b < k. load_u32 (fold (link_block p sz n) [0..<k] m) (p * 65536 + b * sz) =
      (if b + 1 < n then p * 65536 + (b + 1) * sz else PGLC_ARENA_NO_BLOCK)) \<and>
    (\<forall>x. x < p * 65536 \<or> p * 65536 + k * sz \<le> x \<longrightarrow> fold (link_block p sz n) [0..<k] m x = m x)"
  using assms(3)
proof (induction k)
  case 0
  then show ?case by simp
next
  case (Suc k)
  define m1 where "m1 = fold (link_block p sz n) [0..<k] m"
  define nx where "nx = (if k + 1 < n then p * 65536 + (k + 1) * sz else PGLC_ARENA_NO_BLOCK)"
  have step: "fold (link_block p sz n) [0..<Suc k] m = store_u32 m1 (p * 65536 + k * sz) nx"
    by (simp add: m1_def nx_def link_block_def Let_def algebra_simps)
  have IH: "b < k \<Longrightarrow> load_u32 m1 (p * 65536 + b * sz) =
      (if b + 1 < n then p * 65536 + (b + 1) * sz else PGLC_ARENA_NO_BLOCK)"
    "x < p * 65536 \<or> p * 65536 + k * sz \<le> x \<Longrightarrow> m1 x = m x" for b x
    using Suc unfolding m1_def by (meson Suc_leD)+
  have "(k + 1) * sz \<le> n * sz" using Suc.prems by (intro mult_le_mono1) simp
  then have nx: "nx \<le> UINT32_MAX" using assms(2) by (simp add: nx_def)
  have older: "load_u32 (store_u32 m1 (p * 65536 + k * sz) nx) (p * 65536 + b * sz) =
      load_u32 m1 (p * 65536 + b * sz)" if "b < k" for b
  proof (rule load_u32_cong)
    fix j :: nat assume "j < 4"
    have "(b + 1) * sz \<le> k * sz" using that by (intro mult_le_mono1) simp
    then have "b * sz + sz \<le> k * sz" by simp
    with \<open>j < 4\<close> assms(1) have "p * 65536 + b * sz + j < p * 65536 + k * sz" by linarith
    then show "store_u32 m1 (p * 65536 + k * sz) nx (p * 65536 + b * sz + j) = m1 (p * 65536 + b * sz + j)"
      by (simp add: store_u32_other)
  qed
  have "store_u32 m1 (p * 65536 + k * sz) nx x = m x"
    if "x < p * 65536 \<or> p * 65536 + Suc k * sz \<le> x" for x
  proof -
    have "x < p * 65536 + k * sz \<or> p * 65536 + k * sz + 4 \<le> x" "x < p * 65536 \<or> p * 65536 + k * sz \<le> x"
      using that assms(1) by auto
    then show ?thesis using IH(2) by (simp add: store_u32_other)
  qed
  with older IH(1) nx show ?case unfolding step by (auto simp: less_Suc_eq nx_def)
qed

lemma chain_upt:
  assumes "\<And>b. i \<le> b \<Longrightarrow> b < n \<Longrightarrow> load_u32 m (base + b * sz) =
      (if b + 1 < n then base + (b + 1) * sz else PGLC_ARENA_NO_BLOCK)"
    and "i \<le> n"
  shows "chain m base sz (if i < n then base + i * sz else PGLC_ARENA_NO_BLOCK) [i..<n]"
  using assms
proof (induction "n - i" arbitrary: i)
  case 0
  then show ?case by simp
next
  case (Suc d)
  then have "i < n" "d = n - Suc i" by simp_all
  moreover have "chain m base sz (if Suc i < n then base + Suc i * sz else PGLC_ARENA_NO_BLOCK) [Suc i..<n]"
    using Suc.hyps(1)[of "Suc i"] Suc.prems \<open>i < n\<close> \<open>d = n - Suc i\<close> by simp
  ultimately show ?case using Suc.prems(1)[of i] by (cases "Suc i < n") (simp_all add: upt_rec[of i n])
qed

lemma page_refs_fresh:
  assumes "allocated pg = replicate 32 0" "block_count pg \<le> 256"
  shows "live_blocks pg = {}" "free_blocks pg = {..<block_count pg}" "page_refs p pg = {}"
proof -
  have "\<not> block_allocated pg b" if "b < block_count pg" for b
    using block_allocated_fresh[of b pg] that assms by simp
  then show "live_blocks pg = {}" "free_blocks pg = {..<block_count pg}" "page_refs p pg = {}"
    by (auto simp: live_blocks_def free_blocks_def page_refs_def)
qed

lemma assign_page_spec:
  assumes rel: "arena_rel a M" and p: "p < page_count a" "class_index (pages a ! p) = 0"
    and below: "first_unassigned_page a \<le> p" and ci: "ci < 7"
  obtains a' where "assign_page a p ci = (a', True)" "arena_rel a' M"
    "\<And>q. q \<noteq> p \<Longrightarrow> pages a' ! q = pages a ! q" "class_index (pages a' ! p) = ci + 1"
    "free_head (pages a' ! p) \<noteq> PGLC_ARENA_NO_BLOCK" "page_count a' = page_count a"
    "\<And>r. r \<in> dom M \<Longrightarrow> ref_bytes a' r = ref_bytes a r"
    "\<And>x. x < p * 65536 \<or> p * 65536 + 65536 \<le> x \<Longrightarrow> memory a' x = memory a x"
proof -
  note st = arena_relD(1)[OF rel]
  define sz where "sz = class_bytes ci"
  define n where "n = 65536 div sz"
  note szb = class_bytes_bounds[OF ci, folded sz_def, folded n_def]
  define pg' where "pg' = \<lparr>free_head = p * 65536, block_count = n, live_count = 0,
      class_index = ci + 1, allocated = replicate 32 0\<rparr>"
  define m' where "m' = fold (link_block p sz n) [0..<n] (memory a)"
  define a' where "a' = a\<lparr>pages := (pages a)[p := pg'], memory := m',
      assigned_bytes := assigned_bytes a + 65536\<rparr>"
  have fields: "pages a' = (pages a)[p := pg']" "page_count a' = page_count a" "memory a' = m'"
    "assigned_bytes a' = assigned_bytes a + 65536" "first_unassigned_page a' = first_unassigned_page a"
    "used_bytes a' = used_bytes a" "class_slack_bytes a' = class_slack_bytes a"
    by (simp_all add: a'_def)
  have len: "length (pages a) = page_count a" by (rule arena_structD(1)[OF st])
  have sums: "sum_list (map page_load (pages a')) = sum_list (map page_load (pages a))"
    "sum_list (map page_extent (pages a')) = assigned_bytes a + 65536"
    using page_sums_update[OF st p(1) fields(1)] p(2) arena_relD(9)[OF rel]
      arena_structD(5)[OF st p(1)]
    by (simp_all add: page_load_def page_extent_def pg'_def page_ok_def)
  have "sum_list (map page_extent (pages a')) \<le> sum_list (map (\<lambda>_. 65536) (pages a'))"
    by (rule sum_list_mono) (simp add: page_extent_def)
  then have room: "assigned_bytes a \<le> page_count a * 65536 - 65536"
    using sums(2) len by (simp add: sum_list_triv fields)
  have "assign_page a p ci = (a', True)"
    using arena_rel_counters[OF rel] p szb(1) room
    by (auto simp: assign_page_def Let_def a'_def pg'_def m'_def sz_def n_def)
  moreover have ext: "p * 65536 + n * sz = p * 65536 + 65536" "p * 65536 + 65536 \<le> UINT32_MAX"
    using szb(3) p(1) arena_structD(4)[OF st] by auto
  have "4 \<le> sz" "p * 65536 + n * sz \<le> UINT32_MAX" using szb(1) ext by auto
  note lf = link_fold[OF this le_refl, of "memory a", folded m'_def]
  have frame: "m' x = memory a x" if "x < p * 65536 \<or> p * 65536 + 65536 \<le> x" for x
    using lf that ext(1) by auto
  have "chain m' (p * 65536) sz (p * 65536) [0..<n]"
    using chain_upt[of 0 n m' "p * 65536" sz] lf szb(4) by simp
  then have ok': "page_ok m' p pg'"
    using page_refs_fresh[of pg'] ci szb(5)
    by (auto simp: page_ok_def pg'_def sz_def[symmetric] n_def intro!: exI[of _ "[0..<n]"])
  have other: "page_ok m' q (pages a ! q)" if q: "q < page_count a" "q \<noteq> p" for q
  proof (rule page_ok_cong[OF arena_structD(5)[OF st q(1)]])
    fix b k :: nat
    assume b: "class_index (pages a ! q) \<noteq> 0" "b \<in> free_blocks (pages a ! q)" "k < 4"
    let ?x = "q * 65536 + b * page_bytes (pages a ! q) + k"
    have "b * page_bytes (pages a ! q) + page_bytes (pages a ! q) \<le> 65536"
      using block_within_page[OF arena_structD(5)[OF st q(1)] b(1)] b(2) by (simp add: free_blocks_def)
    then have "b * page_bytes (pages a ! q) + k < 65536"
      using page_okD(7)[OF arena_structD(5)[OF st q(1)] b(1)] b(3) by linarith
    then have "?x < p * 65536 \<or> p * 65536 + 65536 \<le> ?x" using q(2) by linarith
    then show "m' ?x = memory a ?x" by (rule frame)
  qed
  have st': "arena_struct a'"
    by (rule arena_struct_update[OF st p(1) fields(1,2)]) (simp_all add: fields ok' other)
  have "page_refs p pg' = {}" "page_refs p (pages a ! p) = {}"
    using page_refs_fresh(3)[of pg' p] szb(5) p(2) by (simp_all add: pg'_def page_refs_def)
  then have refs: "live_refs a' = live_refs a" "\<And>r. r \<in> live_refs a \<Longrightarrow> r div 65536 \<noteq> p"
    using live_refs_update[OF st st' p(1) fields(1,2)] live_refs_split[OF st p(1)] by auto
  have rb: "ref_bytes a' r = ref_bytes a r" if "r \<in> dom M" for r
    using refs(2)[of r] that arena_relD(4)[OF rel] by (simp add: ref_bytes_def fields)
  have le: "k \<le> ref_bytes a' r" if "M r = Some k" for r k
    using arena_relD(5)[OF rel that] rb[of r] that by (simp add: domI)
  have below': "class_index (pages a' ! q) \<noteq> 0" if "q < first_unassigned_page a" for q
    using arena_relD(3)[OF rel that] that below by (simp add: fields)
  have "class_slack_bytes a' = (\<Sum>r \<in> dom M. ref_bytes a' r - the (M r))"
    using arena_relD(7)[OF rel] by (simp add: fields rb)
  then have "arena_rel a' M"
    using st' arena_relD[OF rel] sums refs(1) fields below' le
    unfolding arena_rel_def by auto
  moreover have "pages a' ! p = pg'" using p(1) len by (simp add: fields)
  moreover have "p * 65536 \<noteq> PGLC_ARENA_NO_BLOCK" using ext(2) by linarith
  ultimately show thesis
    using that[of a'] rb frame fields by (auto simp: pg'_def)
qed

section \<open>Allocation\<close>

text \<open>What an operation keeps of the blocks it does not name: their size and contents.\<close>

definition keeps_block :: "PglcArena \<Rightarrow> PglcArena \<Rightarrow> nat \<Rightarrow> bool" where
  "keeps_block a a' r \<longleftrightarrow> ref_bytes a' r = ref_bytes a r \<and>
     (\<forall>k < ref_bytes a r. memory a' (r + k) = memory a (r + k))"

lemma keeps_block_refl [simp]: "keeps_block a a r"
  by (simp add: keeps_block_def)

lemma keeps_block_trans: "keeps_block a b r \<Longrightarrow> keeps_block b c r \<Longrightarrow> keeps_block a c r"
  by (simp add: keeps_block_def)

text \<open>An assigned page always holds a live block: \<open>pglc_arena_free\<close> gives an emptied
  page back to the arena.\<close>

definition no_idle_page :: "PglcArena \<Rightarrow> bool" where
  "no_idle_page a \<longleftrightarrow>
     (\<forall>p < page_count a. class_index (pages a ! p) \<noteq> 0 \<longrightarrow> live_count (pages a ! p) \<noteq> 0)"

text \<open>Room for a request: an unassigned page, or a free block in a page of the class.\<close>

definition has_room :: "PglcArena \<Rightarrow> nat \<Rightarrow> bool" where
  "has_room a n \<longleftrightarrow> (\<exists>p < page_count a. class_index (pages a ! p) = 0 \<or>
     page_bytes (pages a ! p) = pglc_arena_class_size n \<and> free_blocks (pages a ! p) \<noteq> {})"

lemma advance_spec:
  assumes rel: "arena_rel a M"
  shows "arena_rel (advance_first_unassigned a) M"
    "pages (advance_first_unassigned a) = pages a"
    "page_count (advance_first_unassigned a) = page_count a"
    "memory (advance_first_unassigned a) = memory a"
    "find_unassigned a [first_unassigned_page a..<page_count a] = Some p \<Longrightarrow>
       first_unassigned_page (advance_first_unassigned a) = p"
proof -
  let ?fu = "find_unassigned a [first_unassigned_page a..<page_count a]"
  have "f \<le> page_count a \<and> (\<forall>p < f. class_index (pages a ! p) \<noteq> 0)"
    if "f = (case ?fu of None \<Rightarrow> page_count a | Some p \<Rightarrow> p)" for f
  proof (cases ?fu)
    case None
    then have "\<forall>p \<in> {first_unassigned_page a..<page_count a}. class_index (pages a ! p) \<noteq> 0"
      by (simp add: find_unassigned_eq find_None_iff)
    then show ?thesis using None that arena_relD(3)[OF rel]
      by (metis atLeastLessThan_iff le_refl linorder_not_le option.simps(4))
  next
    case (Some q)
    then have q: "q < page_count a" "first_unassigned_page a \<le> q"
      "\<And>p. first_unassigned_page a \<le> p \<Longrightarrow> p < q \<Longrightarrow> class_index (pages a ! p) \<noteq> 0"
      unfolding find_unassigned_eq find_Some_iff
      by (auto simp: le_iff_add less_diff_conv)
    then show ?thesis using Some that arena_relD(3)[OF rel]
      by (metis less_imp_le linorder_not_le option.simps(5))
  qed
  moreover have "arena_struct (a\<lparr>first_unassigned_page := f\<rparr>) = arena_struct a"
    "live_refs (a\<lparr>first_unassigned_page := f\<rparr>) = live_refs a"
    "ref_bytes (a\<lparr>first_unassigned_page := f\<rparr>) = ref_bytes a" for f
    by (simp_all add: arena_struct_def arena_ready_def live_refs_def block_at_def ref_bytes_def fun_eq_iff)
  ultimately show "arena_rel (advance_first_unassigned a) M"
    using arena_relD[OF rel] unfolding advance_first_unassigned_def arena_rel_def by simp
qed (simp_all add: advance_first_unassigned_def)

lemma live_block_keeps:
  assumes "arena_struct a" "r \<in> live_refs a" "r div 65536 \<noteq> p"
    and "ref_bytes a' r = ref_bytes a r"
    and "\<And>x. x < p * 65536 \<or> p * 65536 + 65536 \<le> x \<Longrightarrow> memory a' x = memory a x"
  shows "keeps_block a a' r"
proof -
  obtain q b where at: "block_at a True q b r" using assms(2) by (auto simp: live_refs_def)
  note sp = block_at_split[OF assms(1) at]
  have r: "r = q * 65536 + b * page_bytes (pages a ! q)" using at by (simp add: block_at_def)
  have "memory a' (r + k) = memory a (r + k)" if "k < ref_bytes a r" for k
  proof (rule assms(5))
    have "b * page_bytes (pages a ! q) + k < 65536" using sp(1,6) that by (simp add: ref_bytes_def)
    then show "r + k < p * 65536 \<or> p * 65536 + 65536 \<le> r + k" using assms(3) sp(1) r by linarith
  qed
  then show ?thesis using assms(4) by (simp add: keeps_block_def)
qed

lemma take_found:
  assumes "arena_rel a M" "p < page_count a" "class_index (pages a ! p) \<noteq> 0"
    and "free_head (pages a ! p) \<noteq> PGLC_ARENA_NO_BLOCK" "sz = page_bytes (pages a ! p)" "n \<le> sz"
  obtains a' r where "take_block a p sz n = (a', Some (r, sz))" "M r = None"
    "arena_rel a' (M(r \<mapsto> n))" "ref_bytes a' r = sz" "\<And>x. keeps_block a a' x"
    "(\<And>q. q < page_count a \<Longrightarrow> q \<noteq> p \<Longrightarrow> class_index (pages a ! q) \<noteq> 0 \<Longrightarrow> live_count (pages a ! q) \<noteq> 0)
      \<Longrightarrow> no_idle_page a'"
proof -
  obtain a' where a': "take_block a p sz n = (a', Some (free_head (pages a ! p), sz))"
    "M (free_head (pages a ! p)) = None" "arena_rel a' (M(free_head (pages a ! p) \<mapsto> n))"
    "memory a' = memory a" "page_count a' = page_count a"
    "\<And>r. ref_bytes a' r = ref_bytes a r" "ref_bytes a' (free_head (pages a ! p)) = sz"
    "\<And>q. q \<noteq> p \<Longrightarrow> pages a' ! q = pages a ! q" "live_count (pages a' ! p) \<noteq> 0"
    "\<And>q. class_index (pages a' ! q) = class_index (pages a ! q)"
    by (rule take_block_spec[OF assms]) blast
  show thesis
  proof (rule that[OF a'(1,2,3,7)])
    show "keeps_block a a' x" for x using a'(4,6) by (simp add: keeps_block_def)
    show "no_idle_page a'"
      if "\<And>q. q < page_count a \<Longrightarrow> q \<noteq> p \<Longrightarrow> class_index (pages a ! q) \<noteq> 0 \<Longrightarrow> live_count (pages a ! q) \<noteq> 0"
      unfolding no_idle_page_def
    proof (intro allI impI)
      fix q assume "q < page_count a'" "class_index (pages a' ! q) \<noteq> 0"
      then show "live_count (pages a' ! q) \<noteq> 0"
        using a'(5,8-10) that by (cases "q = p") auto
    qed
  qed
qed

lemma assign_take:
  assumes rel: "arena_rel a M" and p: "p < page_count a" "class_index (pages a ! p) = 0"
    and fu: "find_unassigned a [first_unassigned_page a..<page_count a] = Some p"
    and ci: "ci < 7" and n: "n \<le> class_bytes ci"
  obtains a1 a' r where "assign_page (advance_first_unassigned a) p ci = (a1, True)"
    "take_block a1 p (class_bytes ci) n = (a', Some (r, class_bytes ci))" "M r = None"
    "arena_rel a' (M(r \<mapsto> n))" "ref_bytes a' r = class_bytes ci"
    "\<And>x. x \<in> dom M \<Longrightarrow> keeps_block a a' x" "no_idle_page a \<Longrightarrow> no_idle_page a'"
proof -
  let ?a0 = "advance_first_unassigned a"
  note adv = advance_spec[OF rel]
  have first: "first_unassigned_page ?a0 \<le> p" using adv(5)[OF fu] by simp
  obtain a1 where a1: "assign_page ?a0 p ci = (a1, True)" "arena_rel a1 M"
    "\<And>q. q \<noteq> p \<Longrightarrow> pages a1 ! q = pages a ! q" "class_index (pages a1 ! p) = ci + 1"
    "free_head (pages a1 ! p) \<noteq> PGLC_ARENA_NO_BLOCK" "page_count a1 = page_count a"
    "\<And>r. r \<in> dom M \<Longrightarrow> ref_bytes a1 r = ref_bytes a r"
    "\<And>x. x < p * 65536 \<or> p * 65536 + 65536 \<le> x \<Longrightarrow> memory a1 x = memory a x"
    using assign_page_spec[OF adv(1) _ _ first ci] p unfolding adv(2-4)
    by (metis adv(2) ref_bytes_def)
  obtain a' r where a': "take_block a1 p (class_bytes ci) n = (a', Some (r, class_bytes ci))" "M r = None"
    "arena_rel a' (M(r \<mapsto> n))" "ref_bytes a' r = class_bytes ci" "\<And>x. keeps_block a1 a' x"
    "(\<And>q. q < page_count a1 \<Longrightarrow> q \<noteq> p \<Longrightarrow> class_index (pages a1 ! q) \<noteq> 0 \<Longrightarrow> live_count (pages a1 ! q) \<noteq> 0)
      \<Longrightarrow> no_idle_page a'"
    using take_found[OF a1(2), of p "class_bytes ci" n] p(1) a1(4-6) n by auto
  have "keeps_block a a1 x" if "x \<in> dom M" for x
  proof (rule live_block_keeps[OF arena_relD(1)[OF rel]])
    show live: "x \<in> live_refs a" using that arena_relD(4)[OF rel] by simp
    show "x div 65536 \<noteq> p"
      using live p(2) live_refs_split[OF arena_relD(1)[OF rel] p(1)] by (auto simp: page_refs_def)
  qed (use a1(7,8) that in auto)
  then have "keeps_block a a' x" if "x \<in> dom M" for x
    using that a'(5) keeps_block_trans by blast
  moreover have "no_idle_page a \<Longrightarrow> no_idle_page a'"
    using a'(6) a1(3,6) by (auto simp: no_idle_page_def)
  ultimately show thesis using that a1(1) a'(1-4) by blast
qed

text \<open>
  Allocation against the abstract allocator. Success gives a reference that was not
  live, of the class of the request, and keeps every other live block. Failure changes
  nothing and happens exactly when the request is over the largest class or the arena
  has no room for its class: no state that the operations reach counts as damaged.
\<close>

lemma alloc_unfold:
  assumes rel: "arena_rel a M" and sz: "pglc_arena_class_size n = class_bytes ci" "ci < 7"
  shows "pglc_arena_alloc a n = (case find (\<lambda>p. class_index (pages a ! p) = ci + 1 \<and>
        free_head (pages a ! p) \<noteq> PGLC_ARENA_NO_BLOCK) [0..<page_count a] of
      Some p \<Rightarrow> take_block a p (class_bytes ci) n
    | None \<Rightarrow> (case find_unassigned a [first_unassigned_page a..<page_count a] of None \<Rightarrow> (a, None)
       | Some p \<Rightarrow> (case assign_page (advance_first_unassigned a) p ci of
           (a', False) \<Rightarrow> (a', None) | (a', True) \<Rightarrow> take_block a' p (class_bytes ci) n)))"
proof -
  have "set [0..<page_count a] \<subseteq> {..<page_count a}" by auto
  note scan = scan_pages_eq[OF arena_relD(1)[OF rel] this, of ci]
  have "class_bytes ci \<noteq> 0" using class_bytes_bounds(1)[OF sz(2)] by simp
  then show ?thesis
    unfolding pglc_arena_alloc_def Let_def sz(1) find_class_eq[OF sz(2)] scan
    using arena_rel_counters[OF rel] arena_relD(2)[OF rel] sz(2) by (simp split: option.splits)
qed

lemma class_page_iff:
  assumes st: "arena_struct a" and p: "p < page_count a" "class_index (pages a ! p) \<noteq> 0" and ci: "ci < 7"
  shows "page_bytes (pages a ! p) = class_bytes ci \<and> free_blocks (pages a ! p) \<noteq> {} \<longleftrightarrow>
    class_index (pages a ! p) = ci + 1 \<and> free_head (pages a ! p) \<noteq> PGLC_ARENA_NO_BLOCK"
proof -
  have "page_bytes (pages a ! p) = class_bytes ci \<longleftrightarrow> class_index (pages a ! p) = ci + 1"
    using page_okD(2)[OF arena_structD(5)[OF st p(1)] p(2)] p(2) ci by (auto simp: class_bytes_inj)
  then show ?thesis using free_head_cases(3)[OF st p] by blast
qed

lemma unassigned_found:
  assumes rel: "arena_rel a M"
  shows "find_unassigned a [first_unassigned_page a..<page_count a] = None \<longleftrightarrow>
    (\<forall>p < page_count a. class_index (pages a ! p) \<noteq> 0)"
proof -
  have "find_unassigned a [first_unassigned_page a..<page_count a] = None \<longleftrightarrow>
      (\<forall>p < page_count a. first_unassigned_page a \<le> p \<longrightarrow> class_index (pages a ! p) \<noteq> 0)"
    by (auto simp: find_unassigned_eq find_None_iff)
  then show ?thesis using arena_relD(3)[OF rel] by (meson not_le)
qed

lemma alloc_Some:
  assumes rel: "arena_rel a M" and room: "pglc_arena_class_size n \<noteq> 0" "has_room a n"
  obtains a' r where "pglc_arena_alloc a n = (a', Some (r, pglc_arena_class_size n))" "M r = None"
    "arena_rel a' (M(r \<mapsto> n))" "ref_bytes a' r = pglc_arena_class_size n"
    "\<And>x. x \<in> dom M \<Longrightarrow> keeps_block a a' x" "no_idle_page a \<Longrightarrow> no_idle_page a'"
proof -
  obtain ci where ci: "ci < 7" "pglc_arena_class_size n = class_bytes ci"
    using class_size_class(1)[OF room(1)] by blast
  have n: "n \<le> class_bytes ci" using class_size_class(2)[OF room(1)] ci by simp
  note unf = alloc_unfold[OF rel ci(2,1)]
  let ?P = "\<lambda>p. class_index (pages a ! p) = ci + 1 \<and> free_head (pages a ! p) \<noteq> PGLC_ARENA_NO_BLOCK"
  show thesis
  proof (cases "find ?P [0..<page_count a]")
    case (Some p)
    then have p: "p < page_count a" "?P p" using find_SomeD[OF Some] by auto
    show thesis
    proof (rule take_found[OF rel p(1), of "class_bytes ci" n])
      fix a' r assume t: "take_block a p (class_bytes ci) n = (a', Some (r, class_bytes ci))" "M r = None"
        "arena_rel a' (M(r \<mapsto> n))" "ref_bytes a' r = class_bytes ci" "\<And>x. keeps_block a a' x"
        "(\<And>q. q < page_count a \<Longrightarrow> q \<noteq> p \<Longrightarrow> class_index (pages a ! q) \<noteq> 0 \<Longrightarrow> live_count (pages a ! q) \<noteq> 0)
          \<Longrightarrow> no_idle_page a'"
      show thesis using that[of a' r] t unf Some ci(2) by (simp add: no_idle_page_def)
    qed (use p(2) n in auto)
  next
    case None
    then have "\<not> ?P p" if "p < page_count a" for p
      using that by (auto simp: find_None_iff)
    then obtain p0 where "p0 < page_count a" "class_index (pages a ! p0) = 0"
      using room(2) class_page_iff[OF arena_relD(1)[OF rel] _ _ ci(1)] unfolding has_room_def ci(2) by metis
    then obtain p where fu: "find_unassigned a [first_unassigned_page a..<page_count a] = Some p"
      using unassigned_found[OF rel] by blast
    then have p: "p < page_count a" "class_index (pages a ! p) = 0"
      using find_SomeD by (fastforce simp: find_unassigned_eq)+
    show thesis
    proof (rule assign_take[OF rel p fu ci(1) n])
      fix a1 a' r assume t: "assign_page (advance_first_unassigned a) p ci = (a1, True)"
        "take_block a1 p (class_bytes ci) n = (a', Some (r, class_bytes ci))" "M r = None"
        "arena_rel a' (M(r \<mapsto> n))" "ref_bytes a' r = class_bytes ci"
        "\<And>x. x \<in> dom M \<Longrightarrow> keeps_block a a' x" "no_idle_page a \<Longrightarrow> no_idle_page a'"
      show thesis using that[of a' r] t unf None fu ci(2) by simp
    qed
  qed
qed

text \<open>An allocation touches one page at most.\<close>

lemma alloc_one_page:
  "page_count (fst (pglc_arena_alloc a n)) = page_count a \<and> (\<exists>p. \<forall>q. q \<noteq> p \<longrightarrow> pages (fst (pglc_arena_alloc a n)) ! q = pages a ! q)"
proof -
  have take: "page_count (fst (take_block a p b n)) = page_count a" "q \<noteq> p \<Longrightarrow> pages (fst (take_block a p b n)) ! q = pages a ! q" for a p b q
    by (auto simp: take_block_def Let_def split: option.splits)
  have assign: "page_count (fst (assign_page a p ci)) = page_count a" "q \<noteq> p \<Longrightarrow> pages (fst (assign_page a p ci)) ! q = pages a ! q" for a p ci q
    by (auto simp: assign_page_def Let_def)
  have adv: "page_count (advance_first_unassigned a) = page_count a" "pages (advance_first_unassigned a) = pages a"
    by (simp_all add: advance_first_unassigned_def)
  define touched where "touched = (\<lambda>a' :: PglcArena. page_count a' = page_count a \<and> (\<exists>p. \<forall>q. q \<noteq> p \<longrightarrow> pages a' ! q = pages a ! q))"
  have t: "touched a" "touched (fst (take_block a p b n))" "touched (fst (assign_page (advance_first_unassigned a) p ci))"
    "touched (fst (take_block (fst (assign_page (advance_first_unassigned a) p ci)) p b n))" for p b ci
    unfolding touched_def using take assign adv by (auto intro!: exI[of _ p])
  have t': "touched x" "touched (fst (take_block x p b n))" if "assign_page (advance_first_unassigned a) p ci = (x, r)" for x p ci r b
    using t(3,4)[of p ci] that by simp_all
  have "touched (fst (pglc_arena_alloc a n))"
    unfolding pglc_arena_alloc_def Let_def
    by (auto simp: t(1,2) t'(1,2) split: option.split scan_result.split prod.split bool.split)
  then show ?thesis by (simp add: touched_def)
qed

lemma alloc_None:
  assumes rel: "arena_rel a M" and room: "pglc_arena_class_size n = 0 \<or> \<not> has_room a n"
  shows "pglc_arena_alloc a n = (a, None)"
proof (cases "pglc_arena_class_size n = 0")
  case True
  then show ?thesis by (simp add: pglc_arena_alloc_def)
next
  case False
  then obtain ci where ci: "ci < 7" "pglc_arena_class_size n = class_bytes ci"
    using class_size_class(1) by blast
  have full: "\<not> has_room a n" using room False by simp
  then have un: "find_unassigned a [first_unassigned_page a..<page_count a] = None"
    using unassigned_found[OF rel] by (auto simp: has_room_def)
  have "find (\<lambda>p. class_index (pages a ! p) = ci + 1 \<and> free_head (pages a ! p) \<noteq> PGLC_ARENA_NO_BLOCK)
      [0..<page_count a] = None"
    unfolding find_None_iff
    using full class_page_iff[OF arena_relD(1)[OF rel] _ _ ci(1)]
    unfolding has_room_def ci(2) by (metis atLeastLessThan_iff set_upt)
  with un show ?thesis by (simp add: alloc_unfold[OF rel ci(2,1)])
qed

section \<open>Release\<close>

lemma map_sum_remove:
  fixes M :: "nat \<rightharpoonup> nat"
  assumes "finite (dom M)" "M r = Some n"
  shows "(\<Sum>x \<in> dom (M(r := None)). f x (the ((M(r := None)) x))) + f r n = (\<Sum>x \<in> dom M. (f x (the (M x)) :: nat))"
proof -
  have "(\<Sum>x \<in> dom M. f x (the (M x))) = f r n + (\<Sum>x \<in> dom M - {r}. f x (the (M x)))"
    using assms by (subst sum.remove[of _ r]) auto
  also have "(\<Sum>x \<in> dom M - {r}. f x (the (M x))) = (\<Sum>x \<in> dom M - {r}. f x (the ((M(r := None)) x)))"
    by (intro sum.cong) auto
  finally show ?thesis by simp
qed

lemma arena_rel_live:
  assumes "arena_rel a M" "M r = Some n"
  obtains p b where "block_at a True p b r" "p = r div 65536" "n \<le> page_bytes (pages a ! p)"
    "ref_bytes a r = page_bytes (pages a ! p)"
proof -
  have "r \<in> live_refs a" using assms arena_relD(4)[OF assms(1)] by blast
  then obtain p b where at: "block_at a True p b r" by (auto simp: live_refs_def)
  moreover have "p = r div 65536" using block_at_split(1)[OF arena_relD(1)[OF assms(1)] at] by simp
  ultimately show thesis using that arena_relD(5)[OF assms] by (simp add: ref_bytes_def)
qed

text \<open>How the counters follow the removal of one block, for either outcome of the release.\<close>

lemma arena_rel_remove:
  assumes rel: "arena_rel a M" and r: "M r = Some n" "r div 65536 = p" "p < page_count a"
    and st': "arena_struct a'" and pg': "pages a' = (pages a)[p := pg']" "page_count a' = page_count a"
    and refs: "page_refs p pg' = page_refs p (pages a ! p) - {r}"
    and used: "used_bytes a' = used_bytes a - n"
    and slack: "class_slack_bytes a' = class_slack_bytes a - (ref_bytes a r - n)"
    and load: "page_load pg' + ref_bytes a r = page_load (pages a ! p)"
    and ext: "assigned_bytes a' + page_extent (pages a ! p) = assigned_bytes a + page_extent pg'"
    and first: "first_unassigned_page a' \<le> first_unassigned_page a"
      "class_index pg' = class_index (pages a ! p) \<or> first_unassigned_page a' \<le> p"
    and bytes: "\<And>x. x \<in> dom M \<Longrightarrow> x \<noteq> r \<Longrightarrow> ref_bytes a' x = ref_bytes a x"
  shows "arena_rel a' (M(r := None))"
proof -
  note st = arena_relD(1)[OF rel]
  let ?M = "M(r := None)"
  have fin: "finite (dom M)" using finite_live_refs[OF st] arena_relD(4)[OF rel] by simp
  have refs': "dom ?M = live_refs a'"
    using live_refs_update[OF st st' r(3) pg'] live_refs_split[OF st r(3)] refs r(2) arena_relD(4)[OF rel]
    by auto
  have n: "n \<le> ref_bytes a r" by (rule arena_relD(5)[OF rel r(1)])
  have used': "used_bytes a' = (\<Sum>x \<in> dom ?M. the (?M x))" "n \<le> used_bytes a"
    using map_sum_remove[OF fin r(1), of "\<lambda>_ k. k"] arena_relD(6)[OF rel] used by linarith+
  have eq: "(\<Sum>x \<in> dom ?M. ref_bytes a x - the (?M x)) = (\<Sum>x \<in> dom ?M. ref_bytes a' x - the (?M x))"
    using bytes by (intro sum.cong) (auto split: if_splits)
  have slack': "class_slack_bytes a' = (\<Sum>x \<in> dom ?M. ref_bytes a' x - the (?M x))"
      "ref_bytes a r - n \<le> class_slack_bytes a"
    using map_sum_remove[OF fin r(1), of "\<lambda>x k. ref_bytes a x - k"] arena_relD(7)[OF rel] slack
    unfolding eq[symmetric] by linarith+
  have load': "used_bytes a' + class_slack_bytes a' = sum_list (map page_load (pages a'))"
    using page_sums_update(1)[OF st r(3) pg'(1)] arena_relD(8)[OF rel] load used slack used'(2) slack'(2) n
    by linarith
  have ext': "assigned_bytes a' = sum_list (map page_extent (pages a'))"
    using page_sums_update(2)[OF st r(3) pg'(1)] arena_relD(9)[OF rel] ext by linarith
  have first': "class_index (pages a' ! q) \<noteq> 0" if "q < first_unassigned_page a'" for q
    using arena_relD(3)[OF rel, of q] that first r(3) arena_structD(1)[OF st]
    by (cases "q = p") (auto simp: pg')
  have le: "k \<le> ref_bytes a' x" if "?M x = Some k" for x k
    using arena_relD(5)[OF rel, of x k] bytes[of x] that by (auto simp: domI split: if_splits)
  have "first_unassigned_page a' \<le> page_count a'" using first(1) arena_relD(2)[OF rel] pg'(2) by simp
  then show ?thesis
    unfolding arena_rel_def using st' refs' used'(1) slack'(1) load' ext' first' le by blast
qed

text \<open>Writing the free-list link into the released block touches no other block.\<close>

lemma store_link_other:
  assumes st: "arena_struct a" and at: "block_at a True p b r" and at': "block_at a l q c x" and "x \<noteq> r"
    and "k < page_bytes (pages a ! q)"
  shows "store_u32 m r v (x + k) = m (x + k)"
proof -
  have "256 \<le> page_bytes (pages a ! p)"
    using at arena_structD(5)[OF st, of p] page_okD(7) by (auto simp: block_at_def)
  then show ?thesis
    using block_at_disjoint[OF st at at' assms(4)[symmetric]] assms(5) by (intro store_u32_other) linarith
qed

lemma store_link_page_ok:
  assumes st: "arena_struct a" and at: "block_at a True p b r" and q: "q < page_count a"
  shows "page_ok (store_u32 (memory a) r v) q (pages a ! q)"
proof (rule page_ok_cong[OF arena_structD(5)[OF st q]])
  fix c k :: nat
  assume c: "class_index (pages a ! q) \<noteq> 0" "c \<in> free_blocks (pages a ! q)" "k < 4"
  then have at': "block_at a False q c (q * 65536 + c * page_bytes (pages a ! q))"
    using q by (simp add: block_at_def free_blocks_def)
  have "q * 65536 + c * page_bytes (pages a ! q) \<noteq> r"
    using block_at_unique(3)[OF st at, of False q c] at' by blast
  moreover have "k < page_bytes (pages a ! q)"
    using page_okD(7)[OF arena_structD(5)[OF st q] c(1)] c(3) by simp
  ultimately show "store_u32 (memory a) r v (q * 65536 + c * page_bytes (pages a ! q) + k)
      = memory a (q * 65536 + c * page_bytes (pages a ! q) + k)"
    by (rule store_link_other[OF st at at'])
qed

lemma assigned_ge:
  assumes rel: "arena_rel a M" and p: "p < page_count a" "class_index (pages a ! p) \<noteq> 0"
  shows "65536 \<le> assigned_bytes a"
proof -
  have "page_extent (pages a ! p) \<in> set (map page_extent (pages a))"
    using p(1) arena_structD(1)[OF arena_relD(1)[OF rel]] by simp
  then have "page_extent (pages a ! p) \<le> sum_list (map page_extent (pages a))" 
    by (rule member_le_sum_list) simp
  then show ?thesis using arena_relD(9)[OF rel] p(2) by (simp add: page_extent_def)
qed

lemma free_unfold:
  assumes rel: "arena_rel a M" and r: "M r = Some n" and at: "block_at a True p b r"
  defines "pg \<equiv> pages a ! p"
  shows "pglc_arena_free a r n =
     (let pg' = pg\<lparr>allocated := (allocated pg)
            [b div 8 := (allocated pg ! (b div 8)) AND NOT (block_mask b)],
            free_head := r, live_count := live_count pg - 1\<rparr>;
          a' = a\<lparr>memory := store_u32 (memory a) r (free_head pg),
            used_bytes := used_bytes a - n,
            class_slack_bytes := class_slack_bytes a - (page_bytes pg - n)\<rparr>
      in if live_count pg = 1
         then (a'\<lparr>pages := (pages a)[p := pg'\<lparr>class_index := 0, block_count := 0,
                  free_head := PGLC_ARENA_NO_BLOCK\<rparr>],
                assigned_bytes := assigned_bytes a - PGLC_ARENA_PAGE_SIZE,
                first_unassigned_page := min p (first_unassigned_page a)\<rparr>, True)
         else (a'\<lparr>pages := (pages a)[p := pg']\<rparr>, True))"
proof -
  note st = arena_relD(1)[OF rel]
  have p: "p < page_count a" "class_index pg \<noteq> 0" "b \<in> live_blocks pg"
    using at by (auto simp: block_at_def pg_def live_blocks_def)
  have ok: "page_ok (memory a) p pg" using arena_structD(5)[OF st p(1)] by (simp add: pg_def)
  have live: "live_count pg \<noteq> 0" using p(3) page_okD(5)[OF ok p(2)] by auto
  have info: "block_info a r True = Some (p, page_bytes pg, b)"
    using block_atI_info[OF st at] by (simp add: pg_def)
  have fin: "finite (dom M)" using finite_live_refs[OF st] arena_relD(4)[OF rel] by simp
  have rb: "ref_bytes a r = page_bytes pg" using block_at_split(1)[OF st at] by (simp add: ref_bytes_def pg_def)
  have n: "n \<le> page_bytes pg" using arena_relD(5)[OF rel r] rb by simp
  have "n \<le> used_bytes a" "page_bytes pg - n \<le> class_slack_bytes a"
    using map_sum_remove[OF fin r, of "\<lambda>_ k. k"] map_sum_remove[OF fin r, of "\<lambda>x k. ref_bytes a x - k"]
      arena_relD(6,7)[OF rel] rb by linarith+
  moreover have "65536 \<le> assigned_bytes a" using assigned_ge[OF rel p(1)] p(2) by (simp add: pg_def)
  moreover have "r mod 65536 mod page_bytes pg = 0" using block_at_split(3)[OF st at] by (simp add: pg_def)
  ultimately show ?thesis
    using live n arena_rel_counters[OF rel] free_head_cases(1)[OF st p(1)] p(2)
    unfolding pglc_arena_free_def info min_def
    by (simp add: Let_def pg_def)
qed

lemma freed_page:
  assumes ok: "page_ok m p pg" "class_index pg \<noteq> 0" and b: "b \<in> live_blocks pg"
    and r: "r = p * 65536 + b * page_bytes pg" and two: "live_count pg \<noteq> 1"
    and fr: "\<And>c k. c \<in> free_blocks pg \<Longrightarrow> k < 4 \<Longrightarrow>
      m' (p * 65536 + c * page_bytes pg + k) = m (p * 65536 + c * page_bytes pg + k)"
    and link: "load_u32 m' r = free_head pg"
    and pg': "pg' = pg\<lparr>allocated := (allocated pg)
            [b div 8 := (allocated pg ! (b div 8)) AND NOT (block_mask b)],
            free_head := r, live_count := live_count pg - 1\<rparr>"
  shows "page_ok m' p pg'" "live_blocks pg' = live_blocks pg - {b}" "live_count pg' \<noteq> 0"
    "live_count pg' + 1 = live_count pg"
proof -
  note d = page_okD[OF ok]
  have b': "b < block_count pg" "block_allocated pg b" "b < 256" using b d(11) by (auto simp: live_blocks_def)
  have alloc: "block_allocated pg' c \<longleftrightarrow> c \<noteq> b \<and> block_allocated pg c" if "c < 256" for c
    using block_allocated_clear[OF b'(3) that d(1)] by (simp add: pg' block_allocated_def)
  have same: "block_count pg' = block_count pg" "class_index pg' = class_index pg"
    "length (allocated pg') = 32" "free_head pg' = r" "live_count pg' = live_count pg - 1"
    using d(1) by (auto simp: pg')
  show live: "live_blocks pg' = live_blocks pg - {b}"
    using alloc d(11) by (auto simp: live_blocks_def same)
  have free: "free_blocks pg' = insert b (free_blocks pg)"
    using alloc d(11) b' by (auto simp: free_blocks_def same)
  have "live_count pg \<noteq> 0" using b d(5) by auto
  then show "live_count pg' \<noteq> 0" "live_count pg' + 1 = live_count pg" using two same(5) by linarith+
  from d(6) obtain fl where
    fl: "chain m (p * 65536) (page_bytes pg) (free_head pg) fl" "distinct fl" "set fl = free_blocks pg" by blast
  have "chain m' (p * 65536) (page_bytes pg) (free_head pg) fl"
    using fl(1) chain_cong[of fl m' "p * 65536" "page_bytes pg" m] fr unfolding fl(3) by blast
  then have "chain m' (p * 65536) (page_bytes pg') (free_head pg') (b # fl)"
    using r link by (simp add: same)
  moreover have "distinct (b # fl)" using fl(2,3) b'(2) by (auto simp: free_blocks_def)
  moreover have "set (b # fl) = free_blocks pg'" using free fl(3) by simp
  ultimately have "\<exists>fl. chain m' (p * 65536) (page_bytes pg') (free_head pg') fl \<and> distinct fl \<and> set fl = free_blocks pg'"
    by blast
  moreover have "live_count pg' = card (live_blocks pg')" using live d(5) b same(5) by simp
  ultimately show "page_ok m' p pg'" using d(3,4) ok(2) same by (simp add: page_ok_def)
qed

lemma keeps_store_link:
  assumes rel: "arena_rel a M" and at: "block_at a True p b r" and x: "x \<in> dom M" "x \<noteq> r"
    and "ref_bytes a' x = ref_bytes a x" "memory a' = store_u32 (memory a) r v"
  shows "keeps_block a a' x"
proof -
  note st = arena_relD(1)[OF rel]
  obtain q c where at': "block_at a True q c x" "ref_bytes a x = page_bytes (pages a ! q)"
    using x(1) arena_rel_live[OF rel] by (metis domD)
  have "store_u32 (memory a) r v (x + k) = memory a (x + k)" if "k < ref_bytes a x" for k
    using store_link_other[OF st at at'(1) x(2)] that at'(2) by simp
  then show ?thesis using assms(5,6) by (simp add: keeps_block_def)
qed

lemma free_last:
  assumes rel: "arena_rel a M" and r: "M r = Some n" and at: "block_at a True p b r"
    and last: "live_count (pages a ! p) = 1"
  obtains a' where "pglc_arena_free a r n = (a', True)" "arena_rel a' (M(r := None))"
    "\<And>x. x \<in> dom M \<Longrightarrow> x \<noteq> r \<Longrightarrow> keeps_block a a' x" "no_idle_page a \<Longrightarrow> no_idle_page a'"
proof -
  let ?pg = "pages a ! p" let ?m = "store_u32 (memory a) r (free_head ?pg)"
  note st = arena_relD(1)[OF rel]
  have p: "p < page_count a" "class_index ?pg \<noteq> 0" "b \<in> live_blocks ?pg" "r div 65536 = p"
    "r = p * 65536 + b * page_bytes ?pg"
    using at block_at_split(1)[OF st at] by (auto simp: block_at_def live_blocks_def)
  note d = page_okD[OF arena_structD(5)[OF st p(1)] p(2)]
  have one: "live_blocks ?pg = {b}" using d(5) last p(3) by (metis card_1_singletonE singletonD)
  define a' where "a' = fst (pglc_arena_free a r n)"
  define pg' where "pg' = ?pg\<lparr>allocated := (allocated ?pg)
      [b div 8 := (allocated ?pg ! (b div 8)) AND NOT (block_mask b)],
      free_head := r, live_count := live_count ?pg - 1\<rparr>
      \<lparr>class_index := 0, block_count := 0, free_head := PGLC_ARENA_NO_BLOCK\<rparr>"
  have a': "pglc_arena_free a r n = (a', True)" "pages a' = (pages a)[p := pg']"
    "page_count a' = page_count a" "memory a' = ?m" "used_bytes a' = used_bytes a - n"
    "class_slack_bytes a' = class_slack_bytes a - (page_bytes ?pg - n)"
    "assigned_bytes a' = assigned_bytes a - 65536"
    "first_unassigned_page a' = min p (first_unassigned_page a)"
    "class_index pg' = 0" "block_count pg' = 0" "live_count pg' = 0" "free_head pg' = PGLC_ARENA_NO_BLOCK"
    "length (allocated pg') = 32"
    using free_unfold[OF rel r at] last d(1) by (simp_all add: Let_def a'_def pg'_def)
  have rb: "ref_bytes a r = page_bytes ?pg" using p(4) by (simp add: ref_bytes_def)
  have "page_ok ?m p pg'" using a'(9-13) by (simp add: page_ok_def)
  then have st': "arena_struct a'"
    using a'(4) by (intro arena_struct_update[OF st p(1) a'(2,3)]) (simp_all add: store_link_page_ok[OF st at])
  have refs: "page_refs p ?pg = {r}" using one p(2,5) by (simp add: page_refs_def)
  have other: "x div 65536 \<noteq> p" if "x \<in> dom M" "x \<noteq> r" for x
    using that live_refs_split[OF st p(1)] refs arena_relD(4)[OF rel] by blast
  have bytes: "ref_bytes a' x = ref_bytes a x" if "x \<in> dom M" "x \<noteq> r" for x
    using that other[OF that] by (simp add: ref_bytes_def a'(2))
  have "65536 \<le> assigned_bytes a" by (rule assigned_ge[OF rel p(1,2)])
  then have "arena_rel a' (M(r := None))"
    using a'(5-9,11) p(2) rb refs last
    by (intro arena_rel_remove[OF rel r p(4,1) st' a'(2,3) _ _ _ _ _ _ _ bytes])
      (simp_all add: page_load_def page_extent_def page_refs_def)
  moreover have "no_idle_page a'" if "no_idle_page a"
    using that a'(2,3,9) p(1) arena_structD(1)[OF st] by (auto simp: no_idle_page_def nth_list_update)
  ultimately show thesis
    using that[OF a'(1)] keeps_store_link[OF rel at _ _ bytes a'(4)] by blast
qed

lemma free_more:
  assumes rel: "arena_rel a M" and r: "M r = Some n" and at: "block_at a True p b r"
    and more: "live_count (pages a ! p) \<noteq> 1"
  obtains a' where "pglc_arena_free a r n = (a', True)" "arena_rel a' (M(r := None))"
    "\<And>x. x \<in> dom M \<Longrightarrow> x \<noteq> r \<Longrightarrow> keeps_block a a' x" "no_idle_page a \<Longrightarrow> no_idle_page a'"
proof -
  let ?pg = "pages a ! p" let ?m = "store_u32 (memory a) r (free_head ?pg)"
  note st = arena_relD(1)[OF rel]
  have p: "p < page_count a" "class_index ?pg \<noteq> 0" "b \<in> live_blocks ?pg" "r div 65536 = p"
    "r = p * 65536 + b * page_bytes ?pg"
    using at block_at_split(1)[OF st at] by (auto simp: block_at_def live_blocks_def)
  note ok = arena_structD(5)[OF st p(1)] note d = page_okD[OF ok p(2)]
  obtain pg' where pg': "pg' = ?pg\<lparr>allocated := (allocated ?pg)
      [b div 8 := (allocated ?pg ! (b div 8)) AND NOT (block_mask b)],
      free_head := r, live_count := live_count ?pg - 1\<rparr>" by blast
  define a' where "a' = fst (pglc_arena_free a r n)"
  have a': "pglc_arena_free a r n = (a', True)" "pages a' = (pages a)[p := pg']"
    "page_count a' = page_count a" "memory a' = ?m" "used_bytes a' = used_bytes a - n"
    "class_slack_bytes a' = class_slack_bytes a - (page_bytes ?pg - n)"
    "assigned_bytes a' = assigned_bytes a" "first_unassigned_page a' = first_unassigned_page a"
    using free_unfold[OF rel r at] more pg' by (simp_all add: Let_def a'_def)
  have head: "free_head ?pg \<le> UINT32_MAX"
  proof (cases "free_head ?pg = PGLC_ARENA_NO_BLOCK")
    case False
    then obtain c where "block_at a False p c (free_head ?pg)" using free_head_cases(2)[OF st p(1,2)] by blast
    then show ?thesis using block_at_split(5)[OF st] by (simp add: less_imp_le)
  qed simp
  have keep: "?m (p * 65536 + c * page_bytes ?pg + k) = memory a (p * 65536 + c * page_bytes ?pg + k)"
    if c: "c \<in> free_blocks ?pg" "k < 4" for c k
  proof -
    let ?x = "p * 65536 + c * page_bytes ?pg"
    have at': "block_at a False p c ?x" using c p(1,2) by (simp add: block_at_def free_blocks_def)
    have "?x \<noteq> r" using block_at_unique(3)[OF st at, of False p c] at' by blast
    moreover have "k < page_bytes ?pg" using c(2) d(7) by linarith
    ultimately show ?thesis by (rule store_link_other[OF st at at'])
  qed
  have link: "load_u32 ?m r = free_head ?pg" by (rule load_store_u32[OF head])
  note fp = freed_page[of "memory a" p ?pg b r ?m pg', OF ok p(2,3,5) more keep link pg']
  have same: "class_index pg' = class_index ?pg" by (simp add: pg')
  have st': "arena_struct a'"
    using a'(4) fp(1) by (intro arena_struct_update[OF st p(1) a'(2,3)]) (simp_all add: store_link_page_ok[OF st at])
  have bytes: "ref_bytes a' x = ref_bytes a x" for x
    by (rule ref_bytes_update[OF st p(1) a'(2) same])
  have rb: "ref_bytes a r = page_bytes ?pg" using p(4) by (simp add: ref_bytes_def)
  have refs: "page_refs p pg' = page_refs p ?pg - {r}"
    using p(2) d(7) by (auto simp: page_refs_def same fp(2) p(5))
  have "page_load pg' + page_bytes ?pg = page_load ?pg"
    by (simp add: page_load_def same fp(4)[symmetric])
  then have "arena_rel a' (M(r := None))"
    using a' rb refs same
    by (intro arena_rel_remove[OF rel r p(4,1) st' a'(2,3)]) (simp_all add: page_extent_def bytes)
  moreover have "no_idle_page a'" if "no_idle_page a"
    using that a'(2,3) p(1) arena_structD(1)[OF st] fp(3) by (auto simp: no_idle_page_def nth_list_update)
  ultimately show thesis
    using that[OF a'(1)] keeps_store_link[OF rel at _ _ bytes a'(4)] by blast
qed

lemma free_spec:
  assumes rel: "arena_rel a M" and r: "M r = Some n"
  obtains a' where "pglc_arena_free a r n = (a', True)" "arena_rel a' (M(r := None))"
    "\<And>x. x \<in> dom M \<Longrightarrow> x \<noteq> r \<Longrightarrow> keeps_block a a' x" "no_idle_page a \<Longrightarrow> no_idle_page a'"
proof -
  obtain p b where at: "block_at a True p b r" using arena_rel_live[OF rel r] by blast
  show thesis
    by (cases "live_count (pages a ! p) = 1") (rule free_last[OF rel r at], assumption, rule that,
      assumption+, rule free_more[OF rel r at], assumption, rule that, assumption+)
qed

lemma block_info_dead:
  assumes "arena_rel a M" "r \<notin> dom M"
  shows "block_info a r True = None"
proof (rule ccontr)
  assume "block_info a r True \<noteq> None"
  then obtain p sz b where "block_info a r True = Some (p, sz, b)" by auto
  then have "r \<in> live_refs a"
    using block_info_Some[OF arena_relD(1)[OF assms(1)]] unfolding live_refs_def by blast
  then show False using assms(2) arena_relD(4)[OF assms(1)] by blast
qed

lemma free_refused: "arena_rel a M \<Longrightarrow> r \<notin> dom M \<Longrightarrow> pglc_arena_free a r n = (a, False)"
  using block_info_dead[of a M r] by (simp add: pglc_arena_free_def)

section \<open>Resizing, writing and initialising\<close>

lemma live_info:
  assumes rel: "arena_rel a M"
  shows "pglc_arena_block_class a r = (if r \<in> dom M then ref_bytes a r else 0)"
    "pglc_arena_block a r = (if r \<in> dom M then Some r else None)"
    "r \<in> dom M \<Longrightarrow> 256 \<le> ref_bytes a r \<and> r + ref_bytes a r \<le> page_count a * 65536"
proof -
  note st = arena_relD(1)[OF rel]
  have some: "\<exists>p b. block_info a r True = Some (p, ref_bytes a r, b)" if "r \<in> dom M"
    using that arena_rel_live[OF rel] block_atI_info[OF st] by (metis domD)
  have "\<exists>p b. block_info a r True = (if r \<in> dom M then Some (p, ref_bytes a r, b) else None)"
    using block_info_dead[OF rel] some by (cases "r \<in> dom M") auto
  then obtain p b where info: "block_info a r True = (if r \<in> dom M then Some (p, ref_bytes a r, b) else None)"
    by blast
  show "pglc_arena_block_class a r = (if r \<in> dom M then ref_bytes a r else 0)"
    unfolding pglc_arena_block_class_def info by simp
  show "pglc_arena_block a r = (if r \<in> dom M then Some r else None)"
    unfolding pglc_arena_block_def info by simp
  assume "r \<in> dom M"
  then obtain p b where at: "block_at a True p b r" and rb: "ref_bytes a r = page_bytes (pages a ! p)"
    using arena_rel_live[OF rel] by (metis domD)
  then have p: "p < page_count a" "class_index (pages a ! p) \<noteq> 0" "r = p * 65536 + b * page_bytes (pages a ! p)"
    by (auto simp: block_at_def)
  show "256 \<le> ref_bytes a r \<and> r + ref_bytes a r \<le> page_count a * 65536"
    using block_at_split(6)[OF st at] p rb page_okD(7)[OF arena_structD(5)[OF st p(1)] p(2)] by linarith
qed

lemma live_disjoint:
  assumes rel: "arena_rel a M" and "r \<in> dom M" "r' \<in> dom M" "r \<noteq> r'"
  shows "r + ref_bytes a r \<le> r' \<or> r' + ref_bytes a r' \<le> r"
  using assms arena_rel_live[OF rel] block_at_disjoint[OF arena_relD(1)[OF rel]]
  by (metis domD)

lemma arena_rel_frame:
  assumes "arena_rel a M" "pages a' = pages a" "page_count a' = page_count a"
    "first_unassigned_page a' = first_unassigned_page a" "assigned_bytes a' = assigned_bytes a"
    "arena_struct a'"
    "dom M' = dom M" "\<And>r n. M' r = Some n \<Longrightarrow> n \<le> ref_bytes a r"
    "used_bytes a' = (\<Sum>r \<in> dom M. the (M' r))"
    "class_slack_bytes a' = (\<Sum>r \<in> dom M. ref_bytes a r - the (M' r))"
    "used_bytes a' + class_slack_bytes a' = used_bytes a + class_slack_bytes a"
  shows "arena_rel a' M'"
proof -
  have "live_refs a' = live_refs a" "ref_bytes a' = ref_bytes a"
    using assms(2,3) by (simp_all add: live_refs_def block_at_def ref_bytes_def fun_eq_iff)
  then show ?thesis using arena_relD[OF assms(1)] assms unfolding arena_rel_def by simp
qed

lemma resize_spec:
  assumes rel: "arena_rel a M" and r: "M r = Some n" and n': "n' \<le> ref_bytes a r"
  obtains a' where "pglc_arena_resize a r n n' = (a', True)" "arena_rel a' (M(r \<mapsto> n'))"
    "pages a' = pages a" "memory a' = memory a" "page_count a' = page_count a"
proof -
  note st = arena_relD(1)[OF rel]
  define a' where "a' = fst (pglc_arena_resize a r n n')"
  have fin: "finite (dom M)" using finite_live_refs[OF st] arena_relD(4)[OF rel] by simp
  have n: "n \<le> ref_bytes a r" by (rule arena_relD(5)[OF rel r])
  have cls: "pglc_arena_block_class a r = ref_bytes a r" "ref_bytes a r \<noteq> 0"
    using live_info(1,3)[OF rel, of r] domI[of M r n, OF r] by auto
  note rem = map_sum_remove[OF fin r, of "\<lambda>_ k. k"] map_sum_remove[OF fin r, of "\<lambda>x k. ref_bytes a x - k"]
  have le: "n \<le> used_bytes a" "ref_bytes a r - n \<le> class_slack_bytes a"
    using rem arena_relD(6,7)[OF rel] by linarith+
  have a': "pglc_arena_resize a r n n' = (a', True)" "used_bytes a' = used_bytes a - n + n'"
    "class_slack_bytes a' = class_slack_bytes a - (ref_bytes a r - n) + (ref_bytes a r - n')"
    "pages a' = pages a" "memory a' = memory a" "page_count a' = page_count a"
    "first_unassigned_page a' = first_unassigned_page a" "assigned_bytes a' = assigned_bytes a"
    using cls le n n' arena_rel_counters[OF rel] by (simp_all add: a'_def pglc_arena_resize_def Let_def)
  have dom: "finite (dom (M(r := None)))" "r \<notin> dom (M(r := None))" "(M(r := None))(r \<mapsto> n') = M(r \<mapsto> n')"
    "insert r (dom M) = dom M"
    using fin r by auto
  note ins = map_sum_insert[OF dom(1,2), of "\<lambda>_ k. k" n'] map_sum_insert[OF dom(1,2), of "\<lambda>x k. ref_bytes a x - k" n']
  have "arena_rel a' (M(r \<mapsto> n'))"
  proof (rule arena_rel_frame[OF rel a'(4,6,7,8)])
    show "arena_struct a'" using st a'(4-6) by (simp add: arena_struct_def arena_ready_def)
    show "dom (M(r \<mapsto> n')) = dom M" using dom(4) by simp
    show "k \<le> ref_bytes a x" if "(M(r \<mapsto> n')) x = Some k" for x k
      using that n' arena_relD(5)[OF rel] by (auto split: if_splits)
    show "used_bytes a' = (\<Sum>x \<in> dom M. the ((M(r \<mapsto> n')) x))"
      using ins(1) rem(1) arena_relD(6)[OF rel] a'(2) unfolding dom(3) by (simp add: dom(4))
    show "class_slack_bytes a' = (\<Sum>x \<in> dom M. ref_bytes a x - the ((M(r \<mapsto> n')) x))"
      using ins(2) rem(2) arena_relD(7)[OF rel] a'(3) unfolding dom(3) by (simp add: dom(4))
    show "used_bytes a' + class_slack_bytes a' = used_bytes a + class_slack_bytes a"
      using a'(2,3) le n n' by linarith
  qed
  then show thesis using that a' by blast
qed

lemma resize_refused:
  assumes "arena_rel a M" "r \<notin> dom M \<or> ref_bytes a r < n'"
  shows "pglc_arena_resize a r n n' = (a, False)"
  using assms(2) live_info(1)[OF assms(1), of r] by (auto simp: pglc_arena_resize_def)

text \<open>The owner of a block may write anywhere inside it.\<close>

lemma write_spec:
  assumes rel: "arena_rel a M" and r: "r \<in> dom M"
    and m': "\<And>x. x < r \<or> r + ref_bytes a r \<le> x \<Longrightarrow> m' x = memory a x"
  shows "arena_rel (a\<lparr>memory := m'\<rparr>) M"
    "\<And>x. x \<in> dom M \<Longrightarrow> x \<noteq> r \<Longrightarrow> keeps_block a (a\<lparr>memory := m'\<rparr>) x"
proof -
  note st = arena_relD(1)[OF rel]
  obtain p b where at: "block_at a True p b r" and rb: "ref_bytes a r = page_bytes (pages a ! p)"
    using r arena_rel_live[OF rel] by (metis domD)
  have "page_ok m' q (pages a ! q)" if q: "q < page_count a" for q
  proof (rule page_ok_cong[OF arena_structD(5)[OF st q]])
    fix c k :: nat
    assume c: "class_index (pages a ! q) \<noteq> 0" "c \<in> free_blocks (pages a ! q)" "k < 4"
    let ?x = "q * 65536 + c * page_bytes (pages a ! q)"
    have at': "block_at a False q c ?x" using c q by (simp add: block_at_def free_blocks_def)
    have "?x \<noteq> r" using block_at_unique(3)[OF st at, of False q c] at' by blast
    moreover have "k < page_bytes (pages a ! q)" using page_okD(7)[OF arena_structD(5)[OF st q] c(1)] c(3) by simp
    ultimately have "?x + k < r \<or> r + ref_bytes a r \<le> ?x + k"
      using block_at_disjoint[OF st at at'] rb by linarith
    then show "m' (?x + k) = memory a (?x + k)" by (rule m')
  qed
  then have st': "arena_struct (a\<lparr>memory := m'\<rparr>)" using st by (simp add: arena_struct_def arena_ready_def)
  show "arena_rel (a\<lparr>memory := m'\<rparr>) M"
    using arena_relD(5-7)[OF rel] by (intro arena_rel_frame[OF rel _ _ _ _ st']) simp_all
  show "keeps_block a (a\<lparr>memory := m'\<rparr>) x" if "x \<in> dom M" "x \<noteq> r" for x
  proof -
    have "m' (x + k) = memory a (x + k)" if "k < ref_bytes a x" for k
      using live_disjoint[OF rel r \<open>x \<in> dom M\<close> \<open>x \<noteq> r\<close>[symmetric]] that by (intro m') linarith
    then show ?thesis by (simp add: keeps_block_def ref_bytes_def)
  qed
qed

lemma init_spec:
  assumes "0 < n" "n \<le> 65535"
  obtains a where "pglc_arena_init (Some m) (Some ps) n = Some a" "arena_rel a Map.empty"
    "no_idle_page a" "memory a = m" "page_count a = n"
proof -
  define a where "a = the (pglc_arena_init (Some m) (Some ps) n)"
  have a: "pglc_arena_init (Some m) (Some ps) n = Some a" "pages a = replicate n empty_page"
    "page_count a = n" "memory a = m" "first_unassigned_page a = 0" "used_bytes a = 0"
    "class_slack_bytes a = 0" "assigned_bytes a = 0"
    using assms by (simp_all add: pglc_arena_init_def a_def)
  have "arena_struct a" "live_refs a = {}" "no_idle_page a"
    using a assms by (auto simp: arena_struct_def arena_ready_def page_ok_def empty_page_def live_refs_def
        block_at_def no_idle_page_def)
  moreover have "sum_list (map page_load (pages a)) = 0" "sum_list (map page_extent (pages a)) = 0"
    by (simp_all add: a page_load_def page_extent_def empty_page_def)
  ultimately have "arena_rel a Map.empty" using a by (simp add: arena_rel_def)
  then show thesis using that a \<open>no_idle_page a\<close> by blast
qed

section \<open>The allocator interface\<close>

text \<open>
  The contract the cache partitions rely on. A state is described by the map of live
  references to requested sizes; each reference has a capacity and contents.
\<close>

locale block_allocator =
  fixes alloc :: "'s \<Rightarrow> nat \<Rightarrow> 's \<times> (nat \<times> nat) option"
    and release :: "'s \<Rightarrow> nat \<Rightarrow> nat \<Rightarrow> 's \<times> bool"
    and resize :: "'s \<Rightarrow> nat \<Rightarrow> nat \<Rightarrow> nat \<Rightarrow> 's \<times> bool"
    and rel :: "'s \<Rightarrow> (nat \<rightharpoonup> nat) \<Rightarrow> bool"
    and capacity :: "'s \<Rightarrow> nat \<Rightarrow> nat"
    and contents :: "'s \<Rightarrow> nat \<Rightarrow> char list"
  assumes alloc_fresh: "rel s M \<Longrightarrow> alloc s n = (s', Some (r, sz)) \<Longrightarrow>
      M r = None \<and> rel s' (M(r \<mapsto> n)) \<and> capacity s' r = sz \<and> n \<le> sz"
    and alloc_keeps: "rel s M \<Longrightarrow> alloc s n = (s', res) \<Longrightarrow> x \<in> dom M \<Longrightarrow>
      capacity s' x = capacity s x \<and> contents s' x = contents s x"
    and alloc_fails: "rel s M \<Longrightarrow> alloc s n = (s', None) \<Longrightarrow> s' = s"
    and release_live: "rel s M \<Longrightarrow> M r = Some n \<Longrightarrow> \<exists>s'. release s r n = (s', True) \<and> rel s' (M(r := None))"
    and release_keeps: "rel s M \<Longrightarrow> M r = Some n \<Longrightarrow> release s r n = (s', ok) \<Longrightarrow>
      x \<in> dom M \<Longrightarrow> x \<noteq> r \<Longrightarrow> capacity s' x = capacity s x \<and> contents s' x = contents s x"
    and release_dead: "rel s M \<Longrightarrow> r \<notin> dom M \<Longrightarrow> release s r n = (s, False)"
    and resize_live: "rel s M \<Longrightarrow> M r = Some n \<Longrightarrow> n' \<le> capacity s r \<Longrightarrow>
      \<exists>s'. resize s r n n' = (s', True) \<and> rel s' (M(r \<mapsto> n'))"
    and resize_keeps: "rel s M \<Longrightarrow> M r = Some n \<Longrightarrow> resize s r n n' = (s', ok) \<Longrightarrow> x \<in> dom M \<Longrightarrow>
      capacity s' x = capacity s x \<and> contents s' x = contents s x"
    and resize_refuses: "rel s M \<Longrightarrow> r \<notin> dom M \<or> capacity s r < n' \<Longrightarrow> resize s r n n' = (s, False)"

text \<open>A client's calls. A well-behaved client passes the size it last requested.\<close>

datatype arena_op = Op_Alloc nat | Op_Free nat nat | Op_Resize nat nat nat

fun op_ok :: "(nat \<rightharpoonup> nat) \<Rightarrow> arena_op \<Rightarrow> bool" where
  "op_ok M (Op_Alloc n) = True"
| "op_ok M (Op_Free r n) = (M r = None \<or> M r = Some n)"
| "op_ok M (Op_Resize r n n') = (M r = None \<or> M r = Some n)"

fun op_target :: "arena_op \<Rightarrow> nat option" where
  "op_target (Op_Free r n) = Some r"
| "op_target _ = None"

context block_allocator
begin

fun step :: "'s \<times> (nat \<rightharpoonup> nat) \<Rightarrow> arena_op \<Rightarrow> 's \<times> (nat \<rightharpoonup> nat)" where
  "step (s, M) (Op_Alloc n) =
     (case alloc s n of (s', None) \<Rightarrow> (s', M) | (s', Some (r, _)) \<Rightarrow> (s', M(r \<mapsto> n)))"
| "step (s, M) (Op_Free r n) =
     (case release s r n of (s', ok) \<Rightarrow> (s', if ok then M(r := None) else M))"
| "step (s, M) (Op_Resize r n n') =
     (case resize s r n n' of (s', ok) \<Rightarrow> (s', if ok then M(r \<mapsto> n') else M))"

fun run_ok :: "'s \<times> (nat \<rightharpoonup> nat) \<Rightarrow> arena_op list \<Rightarrow> bool" where
  "run_ok sM [] = True"
| "run_ok sM (op # ops) = (op_ok (snd sM) op \<and> run_ok (step sM op) ops)"

lemma step_rel:
  assumes "rel s M" "op_ok M op"
  shows "rel (fst (step (s, M) op)) (snd (step (s, M) op))"
proof (cases op)
  case (Op_Alloc n)
  obtain s' res where al: "alloc s n = (s', res)" by (cases "alloc s n")
  then show ?thesis
    using alloc_fresh[OF assms(1), of n s'] alloc_fails[OF assms(1), of n s'] assms(1) Op_Alloc
    by (cases res) auto
next
  case (Op_Free r n)
  then show ?thesis
    using assms release_live[OF assms(1), of r n] release_dead[OF assms(1), of r n] by (auto simp: domIff)
next
  case (Op_Resize r n n')
  then show ?thesis
    using assms resize_live[OF assms(1), of r n n'] resize_refuses[OF assms(1), of r n' n]
    by (cases "n' \<le> capacity s r") (auto simp: domIff)
qed

lemma step_keeps:
  assumes "rel s M" "op_ok M op" "x \<in> dom M" "op_target op \<noteq> Some x"
  shows "x \<in> dom (snd (step (s, M) op))" "contents (fst (step (s, M) op)) x = contents s x"
    "capacity (fst (step (s, M) op)) x = capacity s x"
proof -
  have "x \<in> dom (snd (step (s, M) op)) \<and> contents (fst (step (s, M) op)) x = contents s x \<and>
    capacity (fst (step (s, M) op)) x = capacity s x"
  proof (cases op)
    case (Op_Alloc n)
    obtain s' res where al: "alloc s n = (s', res)" by (cases "alloc s n")
    then show ?thesis using alloc_keeps[OF assms(1) al assms(3)] assms(3) Op_Alloc by (cases res) auto
  next
    case (Op_Free r n)
    obtain s' ok where fr: "release s r n = (s', ok)" by (cases "release s r n")
    show ?thesis
    proof (cases "M r")
      case None
      then show ?thesis using Op_Free release_dead[OF assms(1)] assms(3) by (simp add: domIff)
    next
      case (Some k)
      then show ?thesis using release_keeps[OF assms(1) _ fr assms(3)] assms Op_Free fr by auto
    qed
  next
    case (Op_Resize r n n')
    obtain s' ok where rs: "resize s r n n' = (s', ok)" by (cases "resize s r n n'")
    show ?thesis
    proof (cases "M r")
      case None
      then show ?thesis using Op_Resize resize_refuses[OF assms(1)] assms(3) by (simp add: domIff)
    next
      case (Some k)
      then show ?thesis using resize_keeps[OF assms(1) _ rs assms(3)] assms Op_Resize rs by auto
    qed
  qed
  then show "x \<in> dom (snd (step (s, M) op))" "contents (fst (step (s, M) op)) x = contents s x"
    "capacity (fst (step (s, M) op)) x = capacity s x" by simp_all
qed

lemma run_keeps:
  assumes "rel s M" "run_ok (s, M) ops"
  shows "rel (fst (foldl step (s, M) ops)) (snd (foldl step (s, M) ops))"
    "x \<in> dom M \<Longrightarrow> Some x \<notin> op_target ` set ops \<Longrightarrow> contents (fst (foldl step (s, M) ops)) x = contents s x"
  using assms
proof (induction ops arbitrary: s M)
  case Nil
  { case 1 then show ?case by simp }
  { case 2 then show ?case by simp }
next
  case (Cons op ops)
  { case 1 then show ?case
      using Cons(1)[of "fst (step (s, M) op)" "snd (step (s, M) op)"] step_rel[of s M op] by simp }
  { case 2 then show ?case
      using Cons(2)[of "snd (step (s, M) op)" "fst (step (s, M) op)"] step_rel[of s M op] step_keeps[of s M op x]
      by auto }
qed

end

text \<open>The arena implements the interface.\<close>

definition arena_contents :: "PglcArena \<Rightarrow> nat \<Rightarrow> char list" where
  "arena_contents a r = load_bytes (memory a) r (ref_bytes a r)"

lemma keeps_contents:
  "keeps_block a a' r \<Longrightarrow> ref_bytes a' r = ref_bytes a r \<and> arena_contents a' r = arena_contents a r"
  by (auto simp: keeps_block_def arena_contents_def intro!: load_bytes_cong)

interpretation arena: block_allocator pglc_arena_alloc pglc_arena_free pglc_arena_resize
  arena_rel ref_bytes arena_contents
proof
  fix s :: PglcArena and M n s' r sz res x n' ok
  assume rel: "arena_rel s M"
  have cases: "pglc_arena_alloc s n = (s, None) \<or>
    (\<exists>a' r. pglc_arena_alloc s n = (a', Some (r, pglc_arena_class_size n)) \<and> M r = None \<and>
      arena_rel a' (M(r \<mapsto> n)) \<and> ref_bytes a' r = pglc_arena_class_size n \<and> n \<le> pglc_arena_class_size n \<and>
      (\<forall>x \<in> dom M. keeps_block s a' x))"
    using alloc_Some[OF rel, of n] alloc_None[OF rel, of n] class_size_class(2)[of n] by metis
  show "M r = None \<and> arena_rel s' (M(r \<mapsto> n)) \<and> ref_bytes s' r = sz \<and> n \<le> sz"
    if "pglc_arena_alloc s n = (s', Some (r, sz))" using cases that by auto
  show "ref_bytes s' x = ref_bytes s x \<and> arena_contents s' x = arena_contents s x"
    if "pglc_arena_alloc s n = (s', res)" "x \<in> dom M"
    using cases that(1) bspec[OF _ that(2)] keeps_contents[of s s' x] by (metis Pair_inject)
  show "s' = s" if "pglc_arena_alloc s n = (s', None)" using cases that by auto
  show "\<exists>s'. pglc_arena_free s r n = (s', True) \<and> arena_rel s' (M(r := None))" if "M r = Some n"
    using free_spec[OF rel that] by metis
  show "ref_bytes s' x = ref_bytes s x \<and> arena_contents s' x = arena_contents s x"
    if "M r = Some n" "pglc_arena_free s r n = (s', ok)" "x \<in> dom M" "x \<noteq> r"
    using free_spec[OF rel that(1)] that keeps_contents by (metis fst_conv)
  show "pglc_arena_free s r n = (s, False)" if "r \<notin> dom M" by (rule free_refused[OF rel that])
  show "\<exists>s'. pglc_arena_resize s r n n' = (s', True) \<and> arena_rel s' (M(r \<mapsto> n'))"
    if "M r = Some n" "n' \<le> ref_bytes s r" using resize_spec[OF rel that] by metis
  show "ref_bytes s' x = ref_bytes s x \<and> arena_contents s' x = arena_contents s x"
    if "pglc_arena_resize s r n n' = (s', ok)"
    using that by (auto simp: pglc_arena_resize_def Let_def ref_bytes_def arena_contents_def split: if_splits)
  show "pglc_arena_resize s r n n' = (s, False)" if "r \<notin> dom M \<or> ref_bytes s r < n'"
    by (rule resize_refused[OF rel that])
qed

section \<open>Properties\<close>

text \<open>A two-page arena over zeroed memory, used by the examples.\<close>

definition demo_arena :: PglcArena where
  "demo_arena = the (pglc_arena_init (Some (\<lambda>_. CHR 0x00)) (Some []) 2)"

lemma demo_arena_rel: "arena_rel demo_arena Map.empty" "no_idle_page demo_arena"
proof -
  obtain a where "pglc_arena_init (Some (\<lambda>_. CHR 0x00)) (Some []) 2 = Some a"
    "arena_rel a Map.empty" "no_idle_page a"
    by (rule init_spec[of 2]) simp_all
  then show "arena_rel demo_arena Map.empty" "no_idle_page demo_arena" by (simp_all add: demo_arena_def)
qed

lemma demo_arena_page: "has_room demo_arena n" "page_count demo_arena = 2"
  by (auto simp: has_room_def demo_arena_def pglc_arena_init_def empty_page_def intro!: exI[of _ 0])

lemma demo_block:
  obtains a r where "pglc_arena_alloc demo_arena 300 = (a, Some (r, 512))" "arena_rel a [r \<mapsto> 300]"
    "ref_bytes a r = 512"
proof -
  have "pglc_arena_class_size 300 = 512" by (simp add: class_size_unfold)
  then show thesis
    using that alloc_Some[OF demo_arena_rel(1), of 300] demo_arena_page(1) by (metis zero_neq_numeral)
qed

text \<open>C11: \<open>pglc_arena_alloc\<close> implements insertion into the map of live blocks. It
  succeeds exactly when the request fits the largest class and the arena has a free
  block of its class or an unassigned page; then the reference was not live, its
  capacity is the class of the request, and all other live blocks keep their size and
  bytes. Otherwise the arena is unchanged. It never leaves an assigned page empty.\<close>

theorem arena_alloc_refines:
  assumes "arena_rel a M"
  shows "if pglc_arena_class_size n \<noteq> 0 \<and> has_room a n
    then \<exists>a' r. pglc_arena_alloc a n = (a', Some (r, pglc_arena_class_size n)) \<and>
      M r = None \<and> arena_rel a' (M(r \<mapsto> n)) \<and> ref_bytes a' r = pglc_arena_class_size n \<and>
      (\<forall>x \<in> dom M. keeps_block a a' x) \<and> (no_idle_page a \<longrightarrow> no_idle_page a')
    else pglc_arena_alloc a n = (a, None)"
  using alloc_Some[OF assms, of n] alloc_None[OF assms, of n] by (smt (verit))

theorem arena_alloc_refines_witness:
  "arena_rel demo_arena Map.empty \<and>
   (\<exists>a' r. pglc_arena_alloc demo_arena 300 = (a', Some (r, 512)) \<and> arena_rel a' [r \<mapsto> 300])"
  using arena_alloc_refines[OF demo_arena_rel(1), of 300] demo_arena_rel demo_arena_page
  by (auto simp: class_size_unfold)

text \<open>C12: \<open>pglc_arena_free\<close> implements deletion: given a live reference and its
  requested size it succeeds, removes exactly that block, keeps every other block and
  gives emptied pages back; a reference that is not live is refused without any change.\<close>

theorem arena_free_refines:
  assumes "arena_rel a M"
  shows "(M r = Some n \<longrightarrow> (\<exists>a'. pglc_arena_free a r n = (a', True) \<and> arena_rel a' (M(r := None)) \<and>
      (\<forall>x \<in> dom M - {r}. keeps_block a a' x) \<and> (no_idle_page a \<longrightarrow> no_idle_page a'))) \<and>
    (M r = None \<longrightarrow> pglc_arena_free a r n = (a, False))"
proof (intro conjI impI)
  assume "M r = Some n"
  then show "\<exists>a'. pglc_arena_free a r n = (a', True) \<and> arena_rel a' (M(r := None)) \<and>
      (\<forall>x \<in> dom M - {r}. keeps_block a a' x) \<and> (no_idle_page a \<longrightarrow> no_idle_page a')"
    by (rule free_spec[OF assms]) blast
qed (use free_refused[OF assms] in blast)

theorem arena_free_refines_witness:
  "\<exists>a r a'. pglc_arena_alloc demo_arena 300 = (a, Some (r, 512)) \<and> arena_rel a [r \<mapsto> 300] \<and>
     pglc_arena_free a r 300 = (a', True) \<and> arena_rel a' Map.empty"
proof -
  obtain a r where a: "pglc_arena_alloc demo_arena 300 = (a, Some (r, 512))" "arena_rel a [r \<mapsto> 300]"
    by (rule demo_block)
  have "[r \<mapsto> 300](r := None) = (Map.empty :: nat \<rightharpoonup> nat)" by auto
  then show ?thesis using arena_free_refines[OF a(2), of r 300] a by fastforce
qed

text \<open>C13: \<open>pglc_arena_resize\<close> changes the requested size of a live block within its
  class, and nothing else; a larger size or a dead reference is refused.\<close>

theorem arena_resize_refines:
  assumes "arena_rel a M"
  shows "(M r = Some n \<and> n' \<le> ref_bytes a r \<longrightarrow>
      (\<exists>a'. pglc_arena_resize a r n n' = (a', True) \<and> arena_rel a' (M(r \<mapsto> n')) \<and>
        pages a' = pages a \<and> memory a' = memory a)) \<and>
    (M r = None \<or> ref_bytes a r < n' \<longrightarrow> pglc_arena_resize a r n n' = (a, False))"
  using resize_spec[OF assms, of r n n'] resize_refused[OF assms, of r n' n] by (metis domIff)

theorem arena_resize_refines_witness:
  "\<exists>a r a'. arena_rel a [r \<mapsto> 300] \<and> pglc_arena_resize a r 300 512 = (a', True) \<and>
     arena_rel a' [r \<mapsto> 512] \<and> pglc_arena_resize a r 300 513 = (a, False)"
proof -
  obtain a r where a: "arena_rel a [r \<mapsto> 300]" "ref_bytes a r = 512"
    by (rule demo_block)
  then show ?thesis
    using arena_resize_refines[OF a(1), of r 300 512] arena_resize_refines[OF a(1), of r 300 513] by auto
qed

text \<open>C14: from a fresh arena, any sequence of allocations, releases and resizes by a
  client that passes the sizes it requested keeps the arena an exact image of the map of
  live blocks, with disjoint live blocks inside the region and counters in bounds.\<close>

theorem arena_run_safe:
  assumes "0 < n" "n \<le> 65535" "pglc_arena_init (Some m) (Some ps) n = Some a"
    and "arena.run_ok (a, Map.empty) ops"
    and "foldl arena.step (a, Map.empty) ops = (a', M)"
  shows "arena_rel a' M \<and>
    (\<forall>r \<in> dom M. r + ref_bytes a' r \<le> page_count a' * PGLC_ARENA_PAGE_SIZE \<and>
      (\<forall>r' \<in> dom M. r \<noteq> r' \<longrightarrow> r + ref_bytes a' r \<le> r' \<or> r' + ref_bytes a' r' \<le> r)) \<and>
    used_bytes a' + class_slack_bytes a' \<le> assigned_bytes a' \<and>
    assigned_bytes a' \<le> page_count a' * PGLC_ARENA_PAGE_SIZE"
proof -
  have "arena_rel a Map.empty" by (rule init_spec[OF assms(1,2), of m ps]) (use assms(3) in simp)
  then have rel: "arena_rel a' M" using arena.run_keeps(1)[OF _ assms(4)] assms(5) by simp
  then show ?thesis
    using live_disjoint[OF rel] live_info(3)[OF rel] arena_rel_bounds(1,2)[OF rel] by blast
qed

theorem arena_run_safe_witness:
  "\<exists>a' M. foldl arena.step (demo_arena, Map.empty) [Op_Alloc 300, Op_Alloc 20] = (a', M) \<and> arena_rel a' M"
proof -
  obtain a' M where run: "foldl arena.step (demo_arena, Map.empty) [Op_Alloc 300, Op_Alloc 20] = (a', M)"
    by (cases "foldl arena.step (demo_arena, Map.empty) [Op_Alloc 300, Op_Alloc 20]")
  have "pglc_arena_init (Some (\<lambda>_. CHR 0x00)) (Some []) 2 = Some demo_arena"
    by (simp add: demo_arena_def pglc_arena_init_def)
  from arena_run_safe[OF _ _ this _ run] run show ?thesis by simp
qed

text \<open>C15: the contents of a live block survive any sequence of arena operations that does
  not release it.\<close>

theorem arena_contents_stable:
  assumes "arena_rel a M" "arena.run_ok (a, M) ops" "r \<in> dom M" "Some r \<notin> op_target ` set ops"
  shows "arena_contents (fst (foldl arena.step (a, M) ops)) r = arena_contents a r"
  using arena.run_keeps(2)[OF assms(1,2)] assms(3,4) by blast

theorem arena_contents_stable_witness:
  "\<exists>a r. arena_rel a [r \<mapsto> 300] \<and>
     arena_contents (fst (foldl arena.step (a, [r \<mapsto> 300]) [Op_Alloc 7])) r = arena_contents a r"
proof -
  obtain a r where a: "arena_rel a [r \<mapsto> 300]"
    by (rule demo_block)
  then show ?thesis using arena_contents_stable[OF a, of "[Op_Alloc 7]" r] by (auto intro!: exI[of _ a] exI[of _ r])
qed

text \<open>C16: \<open>pglc_arena_class_size\<close> picks the smallest power-of-two class from 256 bytes to
  16 KiB that holds the request, and 0 exactly for requests over 16 KiB.\<close>

theorem arena_class_size_least:
  "pglc_arena_class_size n =
     (if 16384 < n then 0 else 256 * 2 ^ (LEAST k. n \<le> 256 * 2 ^ k))"
proof -
  have "(LEAST k. n \<le> 256 * 2 ^ k) = k"
    if "n \<le> 256 * 2 ^ k" "k = 0 \<or> 256 * 2 ^ (k - 1) < n" for k :: nat
  proof (rule Least_equality)
    fix y assume y: "n \<le> 256 * 2 ^ y"
    show "k \<le> y"
    proof (rule ccontr)
      assume "\<not> k \<le> y"
      then have "(2::nat) ^ y \<le> 2 ^ (k - 1)" by (intro power_increasing) auto
      then have "256 * (2::nat) ^ y \<le> 256 * 2 ^ (k - 1)" by simp
      moreover have "256 * 2 ^ (k - 1) < n" using that(2) \<open>\<not> k \<le> y\<close> by auto
      ultimately show False using y by linarith
    qed
  qed (rule that(1))
  note least = this[of 0] this[of 1] this[of 2] this[of 3] this[of 4] this[of 5] this[of 6]
  show ?thesis using least by (simp add: class_size_unfold)
qed

end
