(* ===== verification/Index.thy ===== *)
theory Index
  imports Prelude
begin

unbundle bit_operations_syntax

text \<open>
  The open-addressing index of \<open>src/src/cache_index.c\<close>: a power-of-two array of entry
  numbers with linear probing over at most 64 buckets, tombstones, and a rebuild through
  a scratch array. The hash and match callbacks of the C code take an opaque context they
  may write to; here they are state-passing functions.

  A locale states what the callbacks of the cache promise on healthy entries, and the
  lemmas show that lookup, insertion, removal and rebuild maintain the set of indexed
  entries: every indexed entry is found, no other entry is.
\<close>

section \<open>Data\<close>

abbreviation (input) PGLC_INDEX_EMPTY :: nat where "PGLC_INDEX_EMPTY \<equiv> 0"
abbreviation (input) PGLC_INDEX_TOMBSTONE :: nat where "PGLC_INDEX_TOMBSTONE \<equiv> UINT32_MAX"
abbreviation (input) PGLC_INDEX_MAX_PROBES :: nat where "PGLC_INDEX_MAX_PROBES \<equiv> 64"

record PglcCacheIndex =
  buckets :: "nat list"
  scratch :: "nat list"
  bucket_count :: nat
  allocated_bucket_count :: nat
  tombstones :: nat
  probe_rejections :: nat

datatype PglcIndexInsertResult =
  PGLC_INDEX_INSERTED | PGLC_INDEX_EXISTS | PGLC_INDEX_PROBE_LIMIT | PGLC_INDEX_CORRUPT

type_synonym 'c entry_hash = "nat \<Rightarrow> 'c \<Rightarrow> nat \<times> 'c"
type_synonym 'c entry_matches = "nat \<Rightarrow> 'c \<Rightarrow> bool \<times> 'c"

section \<open>Operations\<close>

definition index_start :: "PglcCacheIndex \<Rightarrow> nat \<Rightarrow> nat" where
  "index_start ix hash = u32 hash AND (bucket_count ix - 1)"

text \<open>The arrays are present in every index of the cache (they are carved out of the
  shared segment), so only the dimensions are tested.\<close>

definition pglc_index_valid :: "PglcCacheIndex \<Rightarrow> nat \<Rightarrow> bool" where
  "pglc_index_valid ix n \<longleftrightarrow>
     n \<noteq> 0 \<and> n AND (n - 1) = 0 \<and> allocated_bucket_count ix = n \<and> bucket_count ix = n"

definition index_dimensions_valid :: "PglcCacheIndex \<Rightarrow> bool" where
  "index_dimensions_valid ix \<longleftrightarrow> pglc_index_valid ix (allocated_bucket_count ix)"

definition pglc_index_init :: "nat list \<Rightarrow> nat list \<Rightarrow> nat \<Rightarrow> PglcCacheIndex" where
  "pglc_index_init bs sc n =
     (let clear = (n \<noteq> 0 \<and> n AND (n - 1) = 0) in
      \<lparr>buckets = (if clear then replicate n PGLC_INDEX_EMPTY else bs),
       scratch = (if clear then replicate n PGLC_INDEX_EMPTY else sc),
       bucket_count = n, allocated_bucket_count = n, tombstones = 0, probe_rejections = 0\<rparr>)"

text \<open>The buckets a probe sequence visits, in order.\<close>

definition probe_buckets :: "PglcCacheIndex \<Rightarrow> nat \<Rightarrow> nat list" where
  "probe_buckets ix hash =
     map (\<lambda>probe. u32 (index_start ix hash + probe) AND (bucket_count ix - 1))
       [0..<PGLC_INDEX_MAX_PROBES]"

fun find_loop ::
  "nat list \<Rightarrow> nat \<Rightarrow> 'c entry_hash \<Rightarrow> 'c entry_matches \<Rightarrow> nat list \<Rightarrow> 'c \<Rightarrow> nat \<times> nat \<times> 'c" where
  "find_loop bs hash eh mt [] c = (PGLC_INDEX_EMPTY, 0, c)"
| "find_loop bs hash eh mt (bucket # rest) c =
     (let entry_id = bs ! bucket in
      if entry_id = PGLC_INDEX_EMPTY then (PGLC_INDEX_EMPTY, 0, c)
      else if entry_id = PGLC_INDEX_TOMBSTONE then find_loop bs hash eh mt rest c
      else case eh entry_id c of (h, c1) \<Rightarrow>
        if h \<noteq> hash then find_loop bs hash eh mt rest c1
        else case mt entry_id c1 of (same, c2) \<Rightarrow>
          if same then (entry_id, bucket, c2) else find_loop bs hash eh mt rest c2)"

definition pglc_index_find ::
  "PglcCacheIndex \<Rightarrow> nat \<Rightarrow> 'c entry_hash \<Rightarrow> 'c entry_matches \<Rightarrow> 'c \<Rightarrow> nat \<times> 'c" where
  "pglc_index_find ix hash eh mt c =
     (if \<not> index_dimensions_valid ix then (PGLC_INDEX_TOMBSTONE, c)
      else case find_loop (buckets ix) hash eh mt (probe_buckets ix hash) c of
        (entry_id, _, c') \<Rightarrow> (entry_id, c'))"

text \<open>The loop of \<open>pglc_index_insert\<close>; the first argument is \<open>first_tombstone\<close>.\<close>

fun insert_loop ::
  "nat \<Rightarrow> PglcCacheIndex \<Rightarrow> nat \<Rightarrow> nat \<Rightarrow> 'c entry_hash \<Rightarrow> 'c entry_matches \<Rightarrow> nat list \<Rightarrow> 'c \<Rightarrow>
   PglcIndexInsertResult \<times> PglcCacheIndex \<times> 'c" where
  "insert_loop first_tombstone ix hash entry_id eh mt [] c =
     (if first_tombstone \<noteq> PGLC_INDEX_TOMBSTONE
      then (PGLC_INDEX_INSERTED,
            ix\<lparr>buckets := (buckets ix)[first_tombstone := entry_id],
               tombstones := u32_sub (tombstones ix) 1\<rparr>, c)
      else (PGLC_INDEX_PROBE_LIMIT, ix\<lparr>probe_rejections := u64 (probe_rejections ix + 1)\<rparr>, c))"
| "insert_loop first_tombstone ix hash entry_id eh mt (bucket # rest) c =
     (let candidate = buckets ix ! bucket in
      if candidate = PGLC_INDEX_TOMBSTONE then
        insert_loop (if first_tombstone = PGLC_INDEX_TOMBSTONE then bucket else first_tombstone)
          ix hash entry_id eh mt rest c
      else if candidate = PGLC_INDEX_EMPTY then
        (PGLC_INDEX_INSERTED,
         (if first_tombstone \<noteq> PGLC_INDEX_TOMBSTONE
          then ix\<lparr>buckets := (buckets ix)[first_tombstone := entry_id],
                  tombstones := u32_sub (tombstones ix) 1\<rparr>
          else ix\<lparr>buckets := (buckets ix)[bucket := entry_id]\<rparr>), c)
      else case eh candidate c of (h, c1) \<Rightarrow>
        if h \<noteq> hash then insert_loop first_tombstone ix hash entry_id eh mt rest c1
        else case mt candidate c1 of (same, c2) \<Rightarrow>
          if same then (PGLC_INDEX_EXISTS, ix, c2)
          else insert_loop first_tombstone ix hash entry_id eh mt rest c2)"

definition pglc_index_insert ::
  "PglcCacheIndex \<Rightarrow> nat \<Rightarrow> nat \<Rightarrow> 'c entry_hash \<Rightarrow> 'c entry_matches \<Rightarrow> 'c \<Rightarrow>
   PglcIndexInsertResult \<times> PglcCacheIndex \<times> 'c" where
  "pglc_index_insert ix hash entry_id eh mt c =
     (if \<not> index_dimensions_valid ix then (PGLC_INDEX_CORRUPT, ix, c)
      else insert_loop PGLC_INDEX_TOMBSTONE ix hash entry_id eh mt (probe_buckets ix hash) c)"

text \<open>Removal probes like \<open>pglc_index_find\<close> and turns the bucket it stops at into a tombstone.\<close>

definition pglc_index_remove ::
  "PglcCacheIndex \<Rightarrow> nat \<Rightarrow> 'c entry_hash \<Rightarrow> 'c entry_matches \<Rightarrow> 'c \<Rightarrow> nat \<times> PglcCacheIndex \<times> 'c" where
  "pglc_index_remove ix hash eh mt c =
     (if \<not> index_dimensions_valid ix then (PGLC_INDEX_TOMBSTONE, ix, c)
      else case find_loop (buckets ix) hash eh mt (probe_buckets ix hash) c of
        (entry_id, bucket, c') \<Rightarrow>
          if entry_id = PGLC_INDEX_EMPTY then (PGLC_INDEX_EMPTY, ix, c')
          else (entry_id, ix\<lparr>buckets := (buckets ix)[bucket := PGLC_INDEX_TOMBSTONE],
                  tombstones := u32 (tombstones ix + 1)\<rparr>, c'))"

text \<open>The placement loop of the two rebuild functions: the first empty scratch bucket.\<close>

fun place_loop :: "nat list \<Rightarrow> nat \<Rightarrow> nat list \<Rightarrow> nat list option" where
  "place_loop sc entry_id [] = None"
| "place_loop sc entry_id (bucket # rest) =
     (if sc ! bucket = PGLC_INDEX_EMPTY then Some (sc[bucket := entry_id])
      else place_loop sc entry_id rest)"

fun rebuild_loop ::
  "PglcCacheIndex \<Rightarrow> 'c entry_hash \<Rightarrow> nat list \<Rightarrow> nat list \<Rightarrow> 'c \<Rightarrow> bool \<times> nat list \<times> 'c" where
  "rebuild_loop ix eh [] sc c = (True, sc, c)"
| "rebuild_loop ix eh (entry_id # rest) sc c =
     (if entry_id = PGLC_INDEX_EMPTY \<or> entry_id = PGLC_INDEX_TOMBSTONE
      then rebuild_loop ix eh rest sc c
      else case eh entry_id c of (hash, c1) \<Rightarrow>
        case place_loop sc entry_id (probe_buckets ix hash) of
          None \<Rightarrow> (False, sc, c1)
        | Some sc' \<Rightarrow> rebuild_loop ix eh rest sc' c1)"

definition pglc_index_rebuild ::
  "PglcCacheIndex \<Rightarrow> nat list \<Rightarrow> 'c entry_hash \<Rightarrow> 'c \<Rightarrow> bool \<times> PglcCacheIndex \<times> 'c" where
  "pglc_index_rebuild ix entry_ids eh c =
     (if \<not> index_dimensions_valid ix then (False, ix, c)
      else case rebuild_loop ix eh entry_ids (replicate (bucket_count ix) PGLC_INDEX_EMPTY) c of
        (False, sc, c') \<Rightarrow> (False, ix\<lparr>scratch := sc\<rparr>, c')
      | (True, sc, c') \<Rightarrow> (True, ix\<lparr>scratch := sc, buckets := sc, tombstones := 0\<rparr>, c'))"

definition pglc_index_needs_rebuild :: "PglcCacheIndex \<Rightarrow> bool" where
  "pglc_index_needs_rebuild ix \<longleftrightarrow>
     \<not> index_dimensions_valid ix \<or> bucket_count ix div 8 < tombstones ix"

definition pglc_index_rebuild_existing ::
  "PglcCacheIndex \<Rightarrow> 'c entry_hash \<Rightarrow> 'c \<Rightarrow> bool \<times> PglcCacheIndex \<times> 'c" where
  "pglc_index_rebuild_existing ix eh c =
     (if \<not> index_dimensions_valid ix then (False, ix, c)
      else case rebuild_loop ix eh (map (\<lambda>b. buckets ix ! b) [0..<bucket_count ix])
          (replicate (bucket_count ix) PGLC_INDEX_EMPTY) c of
        (False, sc, c') \<Rightarrow> (False, ix\<lparr>scratch := sc\<rparr>, c')
      | (True, sc, c') \<Rightarrow> (True, ix\<lparr>scratch := sc, buckets := sc, tombstones := 0\<rparr>, c'))"

section \<open>Power-of-two arithmetic\<close>

lemma power_of_two_iff:
  fixes n :: nat
  assumes "n \<noteq> 0" "n AND (n - 1) = 0"
  shows "\<exists>k. n = 2 ^ k"
  using assms
proof (induction n rule: less_induct)
  case (less n)
  show ?case
  proof (cases "even n")
    case True
    then obtain m where m: "n = 2 * m" "m \<noteq> 0" using less.prems(1) by (auto elim: evenE)
    then have "m AND (m - 1) = 0"
      using less.prems(2) and_nat_unfold[of n "n - 1"] by (cases m) (auto split: if_splits)
    then obtain k where "m = 2 ^ k" using less.IH[of m] m by auto
    then show ?thesis using m by (intro exI[of _ "Suc k"]) simp
  next
    case False
    then obtain m where m: "n = 2 * m + 1" by (auto elim: oddE)
    have "m = 0"
    proof (rule ccontr)
      assume "m \<noteq> 0"
      have "n AND (n - 1) = 2 * (m AND m)"
        using and_nat_unfold[of n "n - 1"] m by (simp split: if_splits)
      then show False using less.prems(2) \<open>m \<noteq> 0\<close> by simp
    qed
    then show ?thesis using m by (intro exI[of _ 0]) simp
  qed
qed

lemma and_pred_power: "x AND (2 ^ k - 1) = x mod (2 ^ k :: nat)"
  using and_nat_def mask_eq_exp_minus_1[of k, where 'a = nat] take_bit_eq_mask[of k x] take_bit_eq_mod[of k x]
  by metis

lemma index_dimensions_power:
  assumes "index_dimensions_valid ix"
  obtains k where "bucket_count ix = 2 ^ k"
  using assms power_of_two_iff[of "bucket_count ix"]
  by (auto simp: index_dimensions_valid_def pglc_index_valid_def)

lemma probe_bucket_less:
  assumes "index_dimensions_valid ix" "b \<in> set (probe_buckets ix hash)"
  shows "b < bucket_count ix"
proof -
  obtain k where k: "bucket_count ix = 2 ^ k" using assms(1) by (rule index_dimensions_power)
  then obtain x where "b = x AND (2 ^ k - 1)" using assms(2) by (auto simp: probe_buckets_def)
  then show ?thesis using k by (simp only: and_pred_power) simp
qed

lemma bucket_count_power:
  assumes "index_dimensions_valid ix" "bucket_count ix \<le> UINT32_MAX"
  obtains k where "bucket_count ix = 2 ^ k" "k < 32"
proof -
  obtain k where k: "bucket_count ix = 2 ^ k" using assms(1) by (rule index_dimensions_power)
  have "k < 32"
  proof (rule ccontr)
    assume "\<not> k < 32"
    then have "(2::nat) ^ 32 \<le> 2 ^ k" by (intro power_increasing) auto
    then show False using assms(2) k by simp
  qed
  then show thesis using that k by blast
qed

text \<open>The probe sequence is the linear one: the 64 buckets from the hash on, modulo the
  table size.\<close>

lemma probe_buckets_linear:
  assumes "index_dimensions_valid ix" "bucket_count ix \<le> UINT32_MAX"
  shows "probe_buckets ix hash = map (\<lambda>i. (hash + i) mod bucket_count ix) [0..<64]"
proof -
  obtain k where k: "bucket_count ix = 2 ^ k" "k < 32" using assms by (rule bucket_count_power)
  then have dvd: "(2::nat) ^ k dvd 2 ^ 32" by (intro le_imp_power_dvd) simp
  have u: "u32 x mod 2 ^ k = x mod 2 ^ k" for x
    using mod_mod_cancel[OF dvd, of x] by (simp add: u32_def)
  show ?thesis
    unfolding probe_buckets_def index_start_def k(1) and_pred_power u by (simp add: mod_add_left_eq)
qed

section \<open>What a probe sequence sees\<close>

text \<open>The entry numbers met before the first empty bucket.\<close>

fun seen :: "nat list \<Rightarrow> nat list \<Rightarrow> nat list" where
  "seen bs [] = []"
| "seen bs (b # ps) =
     (if bs ! b = PGLC_INDEX_EMPTY then []
      else if bs ! b = PGLC_INDEX_TOMBSTONE then seen bs ps
      else bs ! b # seen bs ps)"

definition is_live :: "nat \<Rightarrow> bool" where
  "is_live e \<longleftrightarrow> e \<noteq> PGLC_INDEX_EMPTY \<and> e \<noteq> PGLC_INDEX_TOMBSTONE"

lemma seen_live: "e \<in> set (seen bs ps) \<Longrightarrow> is_live e \<and> (\<exists>b \<in> set ps. bs ! b = e)"
  by (induction ps) (auto simp: is_live_def split: if_splits)

lemma seen_put_mono:
  assumes "\<not> is_live (bs ! d)" "is_live e" "x \<in> set (seen bs ps)" "d < length bs"
  shows "x \<in> set (seen (bs[d := e]) ps)"
  using assms(3)
proof (induction ps)
  case (Cons b ps)
  then show ?case using assms(1,2,4)
    by (cases "b = d") (auto simp: is_live_def split: if_splits)
qed simp

lemma seen_put_new:
  assumes "find (\<lambda>b. \<not> is_live (bs ! b)) ps = Some d" "is_live e" "d < length bs"
  shows "e \<in> set (seen (bs[d := e]) ps)"
  using assms
proof (induction ps)
  case (Cons b ps)
  then show ?case by (cases "b = d") (auto simp: is_live_def split: if_splits)
qed simp

lemma seen_remove:
  assumes "x \<in> set (seen bs ps)" "x \<noteq> bs ! d" "d < length bs"
  shows "x \<in> set (seen (bs[d := PGLC_INDEX_TOMBSTONE]) ps)"
  using assms
proof (induction ps)
  case (Cons b ps)
  then show ?case
    by (cases "b = d") (auto split: if_splits)
qed simp

section \<open>The invariant\<close>

text \<open>
  The index holds exactly the entries \<open>ids\<close>, each once and each where the probe sequence
  of its hash sees it, and the tombstone counter is exact.
\<close>

definition index_ok :: "PglcCacheIndex \<Rightarrow> (nat \<Rightarrow> nat) \<Rightarrow> nat set \<Rightarrow> bool" where
  "index_ok ix H ids \<longleftrightarrow>
     index_dimensions_valid ix \<and> length (buckets ix) = bucket_count ix \<and> bucket_count ix \<le> UINT32_MAX \<and>
     filter is_live (buckets ix) \<in> {xs. distinct xs \<and> set xs = ids} \<and>
     (\<forall>e \<in> ids. e \<in> set (seen (buckets ix) (probe_buckets ix (H e)))) \<and>
     tombstones ix = count_list (buckets ix) PGLC_INDEX_TOMBSTONE"

lemma index_okD:
  assumes "index_ok ix H ids"
  shows "index_dimensions_valid ix" "length (buckets ix) = bucket_count ix" "bucket_count ix \<le> UINT32_MAX"
    "distinct (filter is_live (buckets ix))" "ids = {e \<in> set (buckets ix). is_live e}"
    "\<And>e. e \<in> ids \<Longrightarrow> e \<in> set (seen (buckets ix) (probe_buckets ix (H e)))"
    "tombstones ix = count_list (buckets ix) PGLC_INDEX_TOMBSTONE" "tombstones ix \<le> bucket_count ix"
  using assms count_le_length[of "buckets ix" PGLC_INDEX_TOMBSTONE] by (auto simp: index_ok_def)

lemma index_tombstone_room:
  assumes "index_ok ix H ids"
  shows "tombstones ix < UINT32_MAX"
proof -
  note D = index_okD[OF assms]
  obtain k where k: "bucket_count ix = 2 ^ k" "k < 32" using D(1,3) by (rule bucket_count_power)
  have "(2::nat) ^ k \<le> 2 ^ 31" using k(2) by (intro power_increasing) auto
  then show ?thesis using D(8) k(1) by simp
qed

lemma index_ok_cong: "index_ok ix H ids \<Longrightarrow> (\<And>e. e \<in> ids \<Longrightarrow> H' e = H e) \<Longrightarrow> index_ok ix H' ids"
  by (auto simp: index_ok_def)

lemma probe_buckets_cong: "bucket_count ix' = bucket_count ix \<Longrightarrow> probe_buckets ix' = probe_buckets ix"
  by (simp add: probe_buckets_def index_start_def fun_eq_iff)

text \<open>Overwriting one element of a list, seen through a filter and through a count.\<close>

lemma filter_update_in:
  assumes "d < length xs" "\<not> P (xs ! d)" "P e"
  shows "set (filter P (xs[d := e])) = insert e (set (filter P xs))"
    "distinct (filter P xs) \<Longrightarrow> e \<notin> set xs \<Longrightarrow> distinct (filter P (xs[d := e]))"
proof -
  have x: "xs = take d xs @ xs ! d # drop (Suc d) xs" by (rule id_take_nth_drop[OF assms(1)])
  have u: "xs[d := e] = take d xs @ e # drop (Suc d) xs" by (rule upd_conv_take_nth_drop[OF assms(1)])
  have f: "filter P xs = filter P (take d xs) @ filter P (drop (Suc d) xs)"
    by (subst x) (simp add: assms(2) del: append_take_drop_id)
  show "set (filter P (xs[d := e])) = insert e (set (filter P xs))"
    unfolding f u using assms(3) by auto
  assume "distinct (filter P xs)" "e \<notin> set xs"
  moreover have "e \<notin> set (take d xs)" "e \<notin> set (drop (Suc d) xs)"
    using \<open>e \<notin> set xs\<close> by (auto dest: in_set_takeD in_set_dropD)
  ultimately show "distinct (filter P (xs[d := e]))"
    unfolding f u using assms(3) by simp
qed

lemma filter_update_out:
  assumes "d < length xs" "P (xs ! d)" "\<not> P e" "distinct (filter P xs)"
  shows "set (filter P (xs[d := e])) = set (filter P xs) - {xs ! d}" "distinct (filter P (xs[d := e]))"
proof -
  have x: "xs = take d xs @ xs ! d # drop (Suc d) xs" by (rule id_take_nth_drop[OF assms(1)])
  have u: "xs[d := e] = take d xs @ e # drop (Suc d) xs" by (rule upd_conv_take_nth_drop[OF assms(1)])
  have f: "filter P xs = filter P (take d xs) @ xs ! d # filter P (drop (Suc d) xs)"
    by (subst x) (simp add: assms(2) del: append_take_drop_id)
  have g: "filter P (xs[d := e]) = filter P (take d xs) @ filter P (drop (Suc d) xs)"
    unfolding u using assms(3) by simp
  show "set (filter P (xs[d := e])) = set (filter P xs) - {xs ! d}" "distinct (filter P (xs[d := e]))"
    using assms(4) unfolding f g by auto
qed

lemma count_update:
  assumes "d < length xs"
  shows "count_list (xs[d := e]) t + (if xs ! d = t then 1 else 0) = count_list xs t + (if e = t then 1 else 0)"
  using assms
proof (induction xs arbitrary: d)
  case (Cons x xs)
  show ?case
  proof (cases d)
    case (Suc k)
    then show ?thesis using Cons.IH[of k] Cons.prems by (simp split: if_splits)
  qed auto
qed simp

lemma index_ok_put:
  assumes ok: "index_ok ix H ids" and e: "is_live e" "e \<notin> ids"
    and d: "find (\<lambda>b. \<not> is_live (buckets ix ! b)) (probe_buckets ix (H e)) = Some d"
  shows "index_ok (ix\<lparr>buckets := (buckets ix)[d := e], tombstones :=
      (if buckets ix ! d = PGLC_INDEX_TOMBSTONE then tombstones ix - 1 else tombstones ix)\<rparr>) H (insert e ids)"
    (is "index_ok ?ix' H _")
proof -
  note D = index_okD[OF ok]
  have dl: "d < length (buckets ix)" "\<not> is_live (buckets ix ! d)"
    using find_SomeD[OF d] probe_bucket_less[OF D(1)] D(2) by auto
  have pb: "probe_buckets ?ix' = probe_buckets ix" by (rule probe_buckets_cong) simp
  have fresh: "e \<notin> set (buckets ix)" using e D(5) by auto
  have "set (filter is_live ((buckets ix)[d := e])) = insert e ids"
    using filter_update_in(1)[of d "buckets ix" is_live, OF dl e(1)] D(5) by auto
  moreover have "distinct (filter is_live ((buckets ix)[d := e]))"
    by (rule filter_update_in(2)[of d "buckets ix" is_live, OF dl e(1) D(4) fresh])
  moreover have "x \<in> set (seen ((buckets ix)[d := e]) (probe_buckets ix (H x)))" if "x \<in> insert e ids" for x
    using that seen_put_new[OF d e(1) dl(1)] seen_put_mono[OF dl(2) e(1) D(6) dl(1)] by blast
  moreover have "(if buckets ix ! d = PGLC_INDEX_TOMBSTONE then tombstones ix - 1 else tombstones ix)
      = count_list ((buckets ix)[d := e]) PGLC_INDEX_TOMBSTONE"
    using count_update[OF dl(1), of e PGLC_INDEX_TOMBSTONE] D(7) e(1) by (auto simp: is_live_def)
  ultimately show ?thesis
    using D(1-3) unfolding index_ok_def pb by (simp add: index_dimensions_valid_def pglc_index_valid_def)
qed

lemma index_ok_remove:
  assumes ok: "index_ok ix H ids" and d: "d < bucket_count ix" "is_live (buckets ix ! d)"
  shows "index_ok (ix\<lparr>buckets := (buckets ix)[d := PGLC_INDEX_TOMBSTONE],
      tombstones := tombstones ix + 1\<rparr>) H (ids - {buckets ix ! d})" (is "index_ok ?ix' H _")
proof -
  note D = index_okD[OF ok]
  have dl: "d < length (buckets ix)" using d D(2) by simp
  have pb: "probe_buckets ?ix' = probe_buckets ix" by (rule probe_buckets_cong) simp
  have tomb: "\<not> is_live PGLC_INDEX_TOMBSTONE" by (simp add: is_live_def)
  note out = filter_update_out[of d "buckets ix" is_live, OF dl d(2) tomb D(4)]
  have "set (filter is_live ((buckets ix)[d := PGLC_INDEX_TOMBSTONE])) = ids - {buckets ix ! d}"
    using out(1) D(5) by auto
  moreover have "x \<in> set (seen ((buckets ix)[d := PGLC_INDEX_TOMBSTONE]) (probe_buckets ix (H x)))"
    if "x \<in> ids - {buckets ix ! d}" for x
    using that seen_remove[OF D(6) _ dl] by blast
  moreover have "tombstones ix + 1 = count_list ((buckets ix)[d := PGLC_INDEX_TOMBSTONE]) PGLC_INDEX_TOMBSTONE"
    using count_update[OF dl, of PGLC_INDEX_TOMBSTONE PGLC_INDEX_TOMBSTONE] D(7) d(2) by (auto simp: is_live_def)
  ultimately show ?thesis
    using D(1-3) out(2) unfolding index_ok_def pb by (simp add: index_dimensions_valid_def pglc_index_valid_def)
qed

lemma place_loop_eq:
  "place_loop sc e ps = map_option (\<lambda>d. sc[d := e]) (find (\<lambda>b. sc ! b = PGLC_INDEX_EMPTY) ps)"
  by (induction ps) auto

lemma index_init_ok:
  assumes "n \<noteq> 0" "n AND (n - 1) = 0" "n \<le> UINT32_MAX"
  shows "index_ok (pglc_index_init bs sc n) H {}"
  using assms by (auto simp: pglc_index_init_def index_ok_def index_dimensions_valid_def pglc_index_valid_def
      is_live_def count_list_0_iff Let_def)

section \<open>Crowding\<close>

text \<open>The other entries whose probe sequence meets that of \<open>e\<close>.\<close>

definition rivals :: "PglcCacheIndex \<Rightarrow> (nat \<Rightarrow> nat) \<Rightarrow> nat set \<Rightarrow> nat \<Rightarrow> nat set" where
  "rivals ix h ids e = {x \<in> ids - {e}. set (probe_buckets ix (h x)) \<inter> set (probe_buckets ix (h e)) \<noteq> {}}"

lemma card_probe_buckets:
  assumes "index_dimensions_valid ix" "bucket_count ix \<le> UINT32_MAX"
  shows "card (set (probe_buckets ix hash)) = min 64 (bucket_count ix)"
proof -
  let ?n = "bucket_count ix"
  have n: "0 < ?n" using assms(1) by (simp add: index_dimensions_valid_def pglc_index_valid_def)
  have "set (probe_buckets ix hash) = (\<lambda>i. (hash + i) mod ?n) ` {..<64}"
    unfolding probe_buckets_linear[OF assms] by auto
  also have "\<dots> = (\<lambda>i. (hash + i) mod ?n) ` {..<min 64 ?n}"
  proof -
    have "(hash + i) mod ?n \<in> (\<lambda>i. (hash + i) mod ?n) ` {..<min 64 ?n}" if "i < 64" for i
    proof -
      have "(hash + i) mod ?n = (hash + i mod ?n) mod ?n" by (simp add: mod_add_right_eq)
      moreover have "i mod ?n < min 64 ?n" using that n by (simp add: le_less_trans[OF mod_less_eq_dividend])
      ultimately show ?thesis by blast
    qed
    then show ?thesis by auto
  qed
  also have "card \<dots> = min 64 ?n"
  proof -
    have "inj_on (\<lambda>i. (hash + i) mod ?n) {..<min 64 ?n}"
    proof (rule inj_onI)
      have less: "i = j" if "i \<le> j" "j < ?n" "(hash + i) mod ?n = (hash + j) mod ?n" for i j
      proof -
        have "?n dvd j - i" using that mod_eq_dvd_iff_nat[of "hash + i" "hash + j" ?n] by simp
        then show ?thesis using that(1,2) dvd_imp_le[of ?n "j - i"] by force
      qed
      fix i j assume "i \<in> {..<min 64 ?n}" "j \<in> {..<min 64 ?n}" "(hash + i) mod ?n = (hash + j) mod ?n"
      then show "i = j" using less[of i j] less[of j i] by (cases "i \<le> j") auto
    qed
    then show ?thesis by (simp add: card_image)
  qed
  finally show ?thesis .
qed

lemma distinct_filter_nth:
  "distinct (filter P xs) \<Longrightarrow> i < length xs \<Longrightarrow> j < length xs \<Longrightarrow> P (xs ! i) \<Longrightarrow> xs ! i = xs ! j \<Longrightarrow> i = j"
proof (induction xs arbitrary: i j)
  case (Cons x xs)
  then show ?case by (cases i; cases j) (auto simp: nth_Cons' split: if_splits)
qed simp

text \<open>An entry for which no bucket is free is crowded out by as many rivals as it has buckets.\<close>

lemma crowded_out:
  assumes ok: "index_ok jx h placed" and e: "e \<notin> placed" and sub: "placed \<subseteq> ids" and fin: "finite ids"
    and full: "\<And>b. b \<in> set (probe_buckets jx (h e)) \<Longrightarrow> is_live (buckets jx ! b)"
  shows "min 64 (bucket_count jx) \<le> card (rivals jx h ids e)"
proof -
  let ?w = "set (probe_buckets jx (h e))"
  note D = index_okD[OF ok]
  have less: "b < length (buckets jx)" if "b \<in> ?w" for b using probe_bucket_less[OF D(1) that] D(2) by simp
  have inj: "inj_on (\<lambda>b. buckets jx ! b) {b. b < length (buckets jx) \<and> is_live (buckets jx ! b)}"
    using D(4) by (auto simp: inj_on_def distinct_filter_nth)
  have "buckets jx ! b \<in> rivals jx h ids e" if b: "b \<in> ?w" for b
  proof -
    have x: "buckets jx ! b \<in> placed" using D(5) less[OF b] full[OF b] by simp
    then obtain b' where "b' \<in> set (probe_buckets jx (h (buckets jx ! b)))" "buckets jx ! b' = buckets jx ! b"
      using seen_live[OF D(6)[OF x]] by blast
    moreover from this have "b' = b"
      using inj_onD[OF inj, of b' b] less[OF b] full[OF b] probe_bucket_less[OF D(1)] D(2) by simp
    ultimately show ?thesis using b x e sub by (auto simp: rivals_def)
  qed
  then have "card ?w \<le> card (rivals jx h ids e)"
    using card_inj_on_le[of "\<lambda>b. buckets jx ! b" ?w "rivals jx h ids e"] inj_on_subset[OF inj] less full fin
    by (auto simp: rivals_def)
  then show ?thesis using card_probe_buckets[OF D(1,3)] by simp
qed

lemma crowded_out_of:
  assumes "index_ok (ix\<lparr>buckets := sc, tombstones := 0\<rparr>) h placed" "e \<notin> placed" "placed \<subseteq> ids" "finite ids"
    "\<And>b. b \<in> set (probe_buckets ix (h e)) \<Longrightarrow> is_live (sc ! b)"
  shows "min 64 (bucket_count ix) \<le> card (rivals ix h ids e)"
proof -
  have "probe_buckets (ix\<lparr>buckets := sc, tombstones := 0\<rparr>) = probe_buckets ix" by (rule probe_buckets_cong) simp
  then show ?thesis using crowded_out[OF assms(1-4)] assms(5) by (simp add: rivals_def)
qed

text \<open>
  How the placement loop ends: with all entries placed, or at an entry for which all probed buckets
  are taken by the ones already placed.
\<close>

definition rebuild_end :: "PglcCacheIndex \<Rightarrow> (nat \<Rightarrow> nat) \<Rightarrow> nat set \<Rightarrow> bool \<Rightarrow> nat list \<Rightarrow> bool" where
  "rebuild_end ix h ids good sc \<longleftrightarrow>
     (if good then index_ok (ix\<lparr>buckets := sc, tombstones := 0\<rparr>) h ids
      else \<exists>e placed. e \<in> ids \<and> e \<notin> placed \<and> placed \<subseteq> ids \<and> index_ok (ix\<lparr>buckets := sc, tombstones := 0\<rparr>) h placed \<and>
        (\<forall>b \<in> set (probe_buckets ix (h e)). is_live (sc ! b)))"

section \<open>The callback interface\<close>

text \<open>
  What the index relies on: on a healthy entry the hash callback returns the stored hash,
  the match callback answers a fixed question about the entry, and neither changes the
  context (on a damaged entry they may, and the callers then discard the result).
\<close>

locale index_callbacks =
  fixes eh :: "nat \<Rightarrow> 'c \<Rightarrow> nat \<times> 'c" and mt :: "nat \<Rightarrow> 'c \<Rightarrow> bool \<times> 'c"
    and healthy :: "'c \<Rightarrow> nat \<Rightarrow> bool" and H :: "'c \<Rightarrow> nat \<Rightarrow> nat" and P :: "'c \<Rightarrow> nat \<Rightarrow> bool"
  assumes eh_healthy: "healthy c e \<Longrightarrow> eh e c = (H c e, c)"
    and mt_healthy: "healthy c e \<Longrightarrow> mt e c = (P c e, c)"
begin

lemma find_loop_eq:
  assumes "\<forall>e \<in> set (seen bs ps). healthy c e"
  shows "case find (\<lambda>e. H c e = hash \<and> P c e) (seen bs ps) of
      None \<Rightarrow> find_loop bs hash eh mt ps c = (PGLC_INDEX_EMPTY, 0, c)
    | Some e \<Rightarrow> \<exists>b \<in> set ps. bs ! b = e \<and> find_loop bs hash eh mt ps c = (e, b, c)"
  using assms
proof (induction ps)
  case (Cons b ps)
  consider "bs ! b = PGLC_INDEX_EMPTY" | "bs ! b = PGLC_INDEX_TOMBSTONE" | "is_live (bs ! b)"
    by (auto simp: is_live_def)
  then show ?case
  proof cases
    case 3
    then have h: "healthy c (bs ! b)" using Cons.prems by (simp add: is_live_def)
    show ?thesis
    proof (cases "H c (bs ! b) = hash \<and> P c (bs ! b)")
      case True
      then show ?thesis using 3 eh_healthy[OF h] mt_healthy[OF h] by (simp add: is_live_def Let_def)
    next
      case False
      then have "find_loop bs hash eh mt (b # ps) c = find_loop bs hash eh mt ps c"
        using 3 eh_healthy[OF h] mt_healthy[OF h] by (auto simp: is_live_def Let_def)
      then show ?thesis using 3 False Cons by (auto simp: is_live_def split: option.splits)
    qed
  qed (use Cons in \<open>auto split: option.splits\<close>)
qed simp

lemma insert_loop_tomb:
  assumes "\<forall>e \<in> set (seen (buckets ix) ps). healthy c e" "ft \<noteq> PGLC_INDEX_TOMBSTONE"
  shows "insert_loop ft ix hash e eh mt ps c =
    (case find (\<lambda>e. H c e = hash \<and> P c e) (seen (buckets ix) ps) of
       Some _ \<Rightarrow> (PGLC_INDEX_EXISTS, ix, c)
     | None \<Rightarrow> (PGLC_INDEX_INSERTED, ix\<lparr>buckets := (buckets ix)[ft := e],
         tombstones := u32_sub (tombstones ix) 1\<rparr>, c))"
  using assms(1)
proof (induction ps)
  case (Cons b ps)
  show ?case
  proof (cases "is_live (buckets ix ! b)")
    case True
    then have h: "healthy c (buckets ix ! b)" using Cons.prems by (simp add: is_live_def)
    show ?thesis using True Cons assms(2) eh_healthy[OF h] mt_healthy[OF h] by (auto simp: is_live_def Let_def)
  next
    case False
    then show ?thesis using Cons assms(2) by (auto simp: is_live_def Let_def)
  qed
qed (simp add: assms(2))

lemma insert_loop_eq:
  assumes "\<forall>e \<in> set (seen (buckets ix) ps). healthy c e" "PGLC_INDEX_TOMBSTONE \<notin> set ps"
  shows "insert_loop PGLC_INDEX_TOMBSTONE ix hash e eh mt ps c =
    (case find (\<lambda>e. H c e = hash \<and> P c e) (seen (buckets ix) ps) of
       Some _ \<Rightarrow> (PGLC_INDEX_EXISTS, ix, c)
     | None \<Rightarrow> (case find (\<lambda>b. \<not> is_live (buckets ix ! b)) ps of
         None \<Rightarrow> (PGLC_INDEX_PROBE_LIMIT, ix\<lparr>probe_rejections := u64 (probe_rejections ix + 1)\<rparr>, c)
       | Some d \<Rightarrow> (PGLC_INDEX_INSERTED, ix\<lparr>buckets := (buckets ix)[d := e],
           tombstones := (if buckets ix ! d = PGLC_INDEX_TOMBSTONE then u32_sub (tombstones ix) 1
                          else tombstones ix)\<rparr>, c)))"
  using assms
proof (induction ps)
  case (Cons b ps)
  consider "buckets ix ! b = PGLC_INDEX_EMPTY" | "buckets ix ! b = PGLC_INDEX_TOMBSTONE" | "is_live (buckets ix ! b)"
    by (auto simp: is_live_def)
  then show ?case
  proof cases
    case 1
    then show ?thesis by (simp add: is_live_def)
  next
    case 2
    then show ?thesis using Cons.prems insert_loop_tomb[of ix ps c b hash e]
      by (auto simp: is_live_def split: option.splits)
  next
    case 3
    then have h: "healthy c (buckets ix ! b)" using Cons.prems by (simp add: is_live_def)
    show ?thesis
    proof (cases "H c (buckets ix ! b) = hash \<and> P c (buckets ix ! b)")
      case True
      then show ?thesis using 3 eh_healthy[OF h] mt_healthy[OF h] by (simp add: is_live_def Let_def)
    next
      case False
      then have "insert_loop PGLC_INDEX_TOMBSTONE ix hash e eh mt (b # ps) c =
          insert_loop PGLC_INDEX_TOMBSTONE ix hash e eh mt ps c"
        using 3 eh_healthy[OF h] mt_healthy[OF h] by (auto simp: is_live_def Let_def)
      then show ?thesis using 3 False Cons by (auto simp: is_live_def split: option.splits)
    qed
  qed
qed simp

text \<open>All entries an index holds are healthy in this context.\<close>

definition served :: "PglcCacheIndex \<Rightarrow> nat set \<Rightarrow> 'c \<Rightarrow> bool" where
  "served ix ids c \<longleftrightarrow> index_ok ix (H c) ids \<and> (\<forall>e \<in> ids. healthy c e)"

lemma served_seen:
  assumes "served ix ids c"
  shows "set (seen (buckets ix) (probe_buckets ix hash)) \<subseteq> ids"
    "\<forall>e \<in> set (seen (buckets ix) (probe_buckets ix hash)). healthy c e"
    "\<forall>e \<in> ids. H c e = hash \<longrightarrow> e \<in> set (seen (buckets ix) (probe_buckets ix hash))"
proof -
  have ok: "index_ok ix (H c) ids" and hl: "\<forall>e \<in> ids. healthy c e" using assms by (auto simp: served_def)
  note D = index_okD[OF ok]
  show sub: "set (seen (buckets ix) (probe_buckets ix hash)) \<subseteq> ids"
    using seen_live probe_bucket_less[OF D(1), of _ hash] D(2,5) by fastforce
  then show "\<forall>e \<in> set (seen (buckets ix) (probe_buckets ix hash)). healthy c e" using hl by blast
  show "\<forall>e \<in> ids. H c e = hash \<longrightarrow> e \<in> set (seen (buckets ix) (probe_buckets ix hash))"
    using D(6) by blast
qed

lemma find_served:
  assumes "served ix ids c"
  shows "if \<exists>e \<in> ids. H c e = hash \<and> P c e
    then \<exists>e \<in> ids. H c e = hash \<and> P c e \<and> pglc_index_find ix hash eh mt c = (e, c)
    else pglc_index_find ix hash eh mt c = (PGLC_INDEX_EMPTY, c)"
proof -
  let ?s = "seen (buckets ix) (probe_buckets ix hash)"
  note sv = served_seen[OF assms, of hash]
  have dim: "index_dimensions_valid ix" using assms by (auto simp: served_def index_ok_def)
  note fl = find_loop_eq[OF sv(2), of hash]
  show ?thesis
  proof (cases "find (\<lambda>e. H c e = hash \<and> P c e) ?s")
    case None
    then have n: "\<not> (\<exists>e \<in> ids. H c e = hash \<and> P c e)" using sv(3) by (auto simp: find_None_iff)
    show ?thesis unfolding if_not_P[OF n] using fl None dim by (simp add: pglc_index_find_def)
  next
    case (Some e)
    then have "e \<in> ids" "H c e = hash" "P c e" using find_SomeD[OF Some] sv(1) by auto
    moreover have "pglc_index_find ix hash eh mt c = (e, c)"
      using fl Some dim by (auto simp: pglc_index_find_def)
    ultimately show ?thesis by auto
  qed
qed

lemma insert_served:
  assumes sv: "served ix ids c" and e: "is_live e" "e \<notin> ids"
  shows "if \<exists>x \<in> ids. H c x = hash \<and> P c x
    then pglc_index_insert ix hash e eh mt c = (PGLC_INDEX_EXISTS, ix, c)
    else if \<forall>b \<in> set (probe_buckets ix hash). is_live (buckets ix ! b)
    then pglc_index_insert ix hash e eh mt c =
      (PGLC_INDEX_PROBE_LIMIT, ix\<lparr>probe_rejections := u64 (probe_rejections ix + 1)\<rparr>, c)
    else \<exists>ix'. pglc_index_insert ix hash e eh mt c = (PGLC_INDEX_INSERTED, ix', c) \<and>
      index_ok ix' ((H c)(e := hash)) (insert e ids) \<and> bucket_count ix' = bucket_count ix \<and>
      tombstones ix' \<le> tombstones ix"
proof -
  note ss = served_seen[OF sv, of hash]
  have ok: "index_ok ix (H c) ids" using sv by (simp add: served_def)
  note D = index_okD[OF ok]
  have "PGLC_INDEX_TOMBSTONE \<notin> set (probe_buckets ix hash)"
    using probe_bucket_less[OF D(1), of PGLC_INDEX_TOMBSTONE hash] D(3) by auto
  note il = insert_loop_eq[OF ss(2) this, of hash e]
  have ins: "pglc_index_insert ix hash e eh mt c =
      insert_loop PGLC_INDEX_TOMBSTONE ix hash e eh mt (probe_buckets ix hash) c"
    using D(1) by (simp add: pglc_index_insert_def)
  have match: "find (\<lambda>e. H c e = hash \<and> P c e) (seen (buckets ix) (probe_buckets ix hash)) = None \<longleftrightarrow>
      \<not> (\<exists>x \<in> ids. H c x = hash \<and> P c x)"
    using ss(1,3) by (auto simp: find_None_iff)
  show ?thesis
  proof (cases "find (\<lambda>b. \<not> is_live (buckets ix ! b)) (probe_buckets ix hash)")
    case None
    then have "\<forall>b \<in> set (probe_buckets ix hash). is_live (buckets ix ! b)" by (simp add: find_None_iff)
    then show ?thesis using None match unfolding ins il by (auto split: option.splits)
  next
    case (Some d)
    then have "\<not> (\<forall>b \<in> set (probe_buckets ix hash). is_live (buckets ix ! b))" using find_SomeD[OF Some] by auto
    moreover have "index_ok ix ((H c)(e := hash)) ids" using e(2) by (intro index_ok_cong[OF ok]) auto
    then have "index_ok (ix\<lparr>buckets := (buckets ix)[d := e], tombstones :=
        (if buckets ix ! d = PGLC_INDEX_TOMBSTONE then tombstones ix - 1 else tombstones ix)\<rparr>)
        ((H c)(e := hash)) (insert e ids)"
      using index_ok_put[OF _ e, of ix "(H c)(e := hash)" d] Some by simp
    moreover have "u32_sub (tombstones ix) 1 = tombstones ix - 1" if "buckets ix ! d = PGLC_INDEX_TOMBSTONE"
    proof -
      have "PGLC_INDEX_TOMBSTONE \<in> set (buckets ix)"
        using that find_SomeD[OF Some] probe_bucket_less[OF D(1)] D(2) by (metis nth_mem)
      then have "0 < tombstones ix"
        using D(7) count_list_0_iff[of "buckets ix" PGLC_INDEX_TOMBSTONE] by simp
      then show ?thesis using D(3,8) by (intro u32_sub_exact) auto
    qed
    ultimately show ?thesis using match Some unfolding ins il by (auto split: option.splits)
  qed
qed

lemma remove_served:
  assumes sv: "served ix ids c"
  shows "if \<exists>e \<in> ids. H c e = hash \<and> P c e
    then \<exists>e ix'. e \<in> ids \<and> H c e = hash \<and> P c e \<and> pglc_index_remove ix hash eh mt c = (e, ix', c) \<and>
      index_ok ix' (H c) (ids - {e}) \<and> bucket_count ix' = bucket_count ix \<and> tombstones ix' = tombstones ix + 1
    else pglc_index_remove ix hash eh mt c = (PGLC_INDEX_EMPTY, ix, c)"
proof -
  let ?s = "seen (buckets ix) (probe_buckets ix hash)"
  note ss = served_seen[OF sv, of hash]
  have ok: "index_ok ix (H c) ids" using sv by (simp add: served_def)
  note D = index_okD[OF ok] and fl = find_loop_eq[OF ss(2), of hash]
  show ?thesis
  proof (cases "find (\<lambda>e. H c e = hash \<and> P c e) ?s")
    case None
    then have n: "\<not> (\<exists>e \<in> ids. H c e = hash \<and> P c e)" using ss(3) by (auto simp: find_None_iff)
    show ?thesis unfolding if_not_P[OF n] using fl None D(1) by (simp add: pglc_index_remove_def)
  next
    case (Some e)
    then have e: "e \<in> ids" "H c e = hash" "P c e" "is_live e"
      using find_SomeD[OF Some] ss(1) seen_live by auto
    obtain b where b: "b \<in> set (probe_buckets ix hash)" "buckets ix ! b = e"
      "find_loop (buckets ix) hash eh mt (probe_buckets ix hash) c = (e, b, c)"
      using fl Some by auto
    have "index_ok (ix\<lparr>buckets := (buckets ix)[b := PGLC_INDEX_TOMBSTONE], tombstones := tombstones ix + 1\<rparr>)
        (H c) (ids - {e})"
      using index_ok_remove[OF ok probe_bucket_less[OF D(1) b(1)]] b(2) e(4) by simp
    moreover have "pglc_index_remove ix hash eh mt c = (e, ix\<lparr>buckets := (buckets ix)[b := PGLC_INDEX_TOMBSTONE],
        tombstones := tombstones ix + 1\<rparr>, c)"
      using b(3) D(1) e(4) index_tombstone_room[OF ok] by (simp add: pglc_index_remove_def is_live_def)
    ultimately show ?thesis using e by auto
  qed
qed

lemma rebuild_loop_spec:
  assumes "index_ok (ix\<lparr>buckets := sc, tombstones := 0\<rparr>) (H c) placed"
    and "\<forall>e \<in> set (filter is_live es). healthy c e \<and> e \<notin> placed" "distinct (filter is_live es)"
  shows "\<exists>good sc'. rebuild_loop ix eh es sc c = (good, sc', c) \<and> rebuild_end ix (H c) (placed \<union> set (filter is_live es)) good sc'"
  using assms
proof (induction es arbitrary: sc placed)
  case (Cons e es)
  let ?jx = "ix\<lparr>buckets := sc, tombstones := 0\<rparr>"
  note D = index_okD[OF Cons.prems(1)]
  show ?case
  proof (cases "is_live e")
    case False
    then show ?thesis using Cons.IH[OF Cons.prems(1)] Cons.prems(2,3) by (auto simp: is_live_def)
  next
    case True
    then have e: "healthy c e" "e \<notin> placed" using Cons.prems(2) by auto
    have no_tomb: "PGLC_INDEX_TOMBSTONE \<notin> set sc"
      using D(7) count_list_0_iff[of sc PGLC_INDEX_TOMBSTONE] by simp
    have pb: "probe_buckets ?jx = probe_buckets ix" by (rule probe_buckets_cong) simp
    have "sc ! b = PGLC_INDEX_EMPTY \<longleftrightarrow> \<not> is_live (sc ! b)" if "b \<in> set (probe_buckets ix (H c e))" for b
      using that probe_bucket_less[OF D(1), of b "H c e"] D(2) no_tomb
      by (auto simp: is_live_def pb in_set_conv_nth)
    then have slot: "find (\<lambda>b. sc ! b = PGLC_INDEX_EMPTY) (probe_buckets ix (H c e)) =
        find (\<lambda>b. \<not> is_live (sc ! b)) (probe_buckets ix (H c e))"
      by (intro find_cong) auto
    show ?thesis
    proof (cases "find (\<lambda>b. \<not> is_live (sc ! b)) (probe_buckets ix (H c e))")
      case None
      then have "\<forall>b \<in> set (probe_buckets ix (H c e)). is_live (sc ! b)" by (simp add: find_None_iff)
      then have "rebuild_end ix (H c) (placed \<union> set (filter is_live (e # es))) False sc"
        using Cons.prems(1) True e(2) by (auto simp: rebuild_end_def)
      moreover have "rebuild_loop ix eh (e # es) sc c = (False, sc, c)"
        using True None eh_healthy[OF e(1)] slot by (simp add: is_live_def place_loop_eq)
      ultimately show ?thesis by blast
    next
      case (Some d)
      have "sc ! d \<noteq> PGLC_INDEX_TOMBSTONE"
        using find_SomeD[OF Some] probe_bucket_less[OF D(1), of d "H c e"] D(2) no_tomb
        by (auto simp: pb in_set_conv_nth)
      then have ok': "index_ok (ix\<lparr>buckets := sc[d := e], tombstones := 0\<rparr>) (H c) (insert e placed)"
        using index_ok_put[OF Cons.prems(1) True e(2), of d] Some by (simp add: pb)
      have "\<forall>x \<in> set (filter is_live es). healthy c x \<and> x \<notin> insert e placed" "distinct (filter is_live es)"
        using Cons.prems(2,3) True by auto
      from Cons.IH[OF ok' this] show ?thesis
        using True eh_healthy[OF e(1)] slot Some by (simp add: is_live_def place_loop_eq)
    qed
  qed
qed (auto simp: rebuild_end_def)

lemma rebuild_existing_served:
  assumes sv: "served ix ids c"
  shows "\<exists>good ix'. pglc_index_rebuild_existing ix eh c = (good, ix', c) \<and>
    (good \<longrightarrow> served ix' ids c \<and> tombstones ix' = 0 \<and> bucket_count ix' = bucket_count ix) \<and>
    (\<not> good \<longrightarrow> (\<exists>sc. ix' = ix\<lparr>scratch := sc\<rparr> \<and> (\<exists>e \<in> ids. \<forall>b \<in> set (probe_buckets ix (H c e)). sc ! b \<in> ids - {e}) \<and>
       (\<exists>e \<in> ids. min 64 (bucket_count ix) \<le> card (rivals ix (H c) ids e))))"
proof -
  have ok: "index_ok ix (H c) ids" and hl: "\<forall>e \<in> ids. healthy c e" using sv by (auto simp: served_def)
  note D = index_okD[OF ok]
  let ?n = "bucket_count ix"
  have list: "map (\<lambda>b. buckets ix ! b) [0..<?n] = buckets ix" using D(2) by (metis map_nth)
  have "index_ok (ix\<lparr>buckets := replicate ?n PGLC_INDEX_EMPTY, tombstones := 0\<rparr>) (H c) {}"
    using D(1,3) by (simp add: index_ok_def index_dimensions_valid_def pglc_index_valid_def is_live_def
        count_list_0_iff)
  moreover have live: "set (filter is_live (buckets ix)) = ids" using D(5) by auto
  ultimately obtain good sc where
    rl: "rebuild_loop ix eh (buckets ix) (replicate ?n PGLC_INDEX_EMPTY) c = (good, sc, c)" "rebuild_end ix (H c) ids good sc"
    using rebuild_loop_spec[where ix = ix and es = "buckets ix" and sc = "replicate ?n PGLC_INDEX_EMPTY" and placed = "{}" and c = c] hl D(4) by auto
  show ?thesis
  proof (cases good)
    case True
    then have "index_ok (ix\<lparr>scratch := sc, buckets := sc, tombstones := 0\<rparr>) (H c) ids"
      using rl(2) probe_buckets_cong[of "ix\<lparr>buckets := sc, tombstones := 0\<rparr>"
        "ix\<lparr>scratch := sc, buckets := sc, tombstones := 0\<rparr>"]
      by (simp add: rebuild_end_def index_ok_def index_dimensions_valid_def pglc_index_valid_def)
    then show ?thesis using rl(1) True D(1) hl by (auto simp: pglc_index_rebuild_existing_def list served_def)
  next
    case False
    then obtain e placed where p: "e \<in> ids" "e \<notin> placed" "placed \<subseteq> ids"
      "index_ok (ix\<lparr>buckets := sc, tombstones := 0\<rparr>) (H c) placed" "\<forall>b \<in> set (probe_buckets ix (H c e)). is_live (sc ! b)"
      using rl(2) by (auto simp: rebuild_end_def)
    have "finite ids" using D(5) by simp
    then have "min 64 ?n \<le> card (rivals ix (H c) ids e)" using crowded_out_of[OF p(4,2,3)] p(5) by simp
    moreover have "sc ! b \<in> ids - {e}" if "b \<in> set (probe_buckets ix (H c e))" for b
      using that probe_bucket_less[OF D(1) that] p(2,3,5) index_okD(2,5)[OF p(4)] by auto
    ultimately show ?thesis using rl(1) D(1) False p(1) by (auto simp: pglc_index_rebuild_existing_def list)
  qed
qed

end

section \<open>Properties\<close>

text \<open>Callbacks that only read: an instance of the interface for every hash and every
  match predicate.\<close>

abbreviation reads :: "(nat \<Rightarrow> 'a) \<Rightarrow> nat \<Rightarrow> 'c \<Rightarrow> 'a \<times> 'c" where
  "reads f e c \<equiv> (f e, c)"

interpretation reading: index_callbacks "reads h" "reads p" "\<lambda>_ _. True" "\<lambda>_. h" "\<lambda>_. p"
  for h :: "nat \<Rightarrow> nat" and p :: "nat \<Rightarrow> bool"
  by unfold_locales auto

lemma reading_served: "index_ok ix h ids \<Longrightarrow> reading.served h ix ids c"
  by (simp add: reading.served_def)

text \<open>An index of 8 buckets that holds the entries 5 and 9.\<close>

definition demo_index :: PglcCacheIndex where
  "demo_index = \<lparr>buckets = [0, 5, 4294967295, 9, 0, 0, 0, 0], scratch = replicate 8 0,
     bucket_count = 8, allocated_bucket_count = 8, tombstones = 1, probe_rejections = 0\<rparr>"

lemma demo_index_ok: "index_ok demo_index (\<lambda>_. 1) {5, 9}"
proof -
  have dim: "index_dimensions_valid demo_index"
    by (simp add: demo_index_def index_dimensions_valid_def pglc_index_valid_def)
  have "probe_buckets demo_index 1 = map (\<lambda>i. (1 + i) mod 8) [0..<64]"
    using probe_buckets_linear[OF dim, of 1] by (simp add: demo_index_def)
  also have "[0..<64] = 0 # 1 # 2 # [3..<64]" by (simp add: upt_conv_Cons)
  finally have "{5, 9} \<subseteq> set (seen (buckets demo_index) (probe_buckets demo_index 1))"
    by (simp add: demo_index_def)
  then show ?thesis using dim by (auto simp: index_ok_def is_live_def demo_index_def)
qed

text \<open>C17: \<open>pglc_index_find\<close> is exact: it returns an indexed entry with the given hash that
  satisfies the match callback whenever one exists, and \<open>PGLC_INDEX_EMPTY\<close> otherwise. The
  64-probe limit never hides an indexed entry.\<close>

theorem index_find_exact:
  assumes "index_ok ix h ids"
  shows "if \<exists>e \<in> ids. h e = hash \<and> p e
    then \<exists>e \<in> ids. h e = hash \<and> p e \<and> pglc_index_find ix hash (reads h) (reads p) c = (e, c)
    else pglc_index_find ix hash (reads h) (reads p) c = (PGLC_INDEX_EMPTY, c)"
  by (rule reading.find_served[OF reading_served[OF assms]])

theorem index_find_exact_witness:
  "index_ok demo_index (\<lambda>_. 1) {5, 9} \<and>
   pglc_index_find demo_index 1 (reads (\<lambda>_. 1)) (reads (\<lambda>e. e = 9)) () = (9, ())"
  using index_find_exact[OF demo_index_ok, of 1 "\<lambda>e. e = 9" "()"] demo_index_ok by auto

text \<open>C18: \<open>pglc_index_insert\<close> adds the new entry to the indexed set, unless a matching entry
  is indexed (then it reports it and changes nothing) or all 64 probed buckets hold live
  entries (then it only counts the rejection). Tombstones are reused and their counter
  stays exact.\<close>

theorem index_insert_refines:
  assumes "index_ok ix h ids" "is_live e" "e \<notin> ids"
  shows "if \<exists>x \<in> ids. h x = hash \<and> p x
    then pglc_index_insert ix hash e (reads h) (reads p) c = (PGLC_INDEX_EXISTS, ix, c)
    else if \<forall>b \<in> set (probe_buckets ix hash). is_live (buckets ix ! b)
    then pglc_index_insert ix hash e (reads h) (reads p) c =
      (PGLC_INDEX_PROBE_LIMIT, ix\<lparr>probe_rejections := u64 (probe_rejections ix + 1)\<rparr>, c)
    else \<exists>ix'. pglc_index_insert ix hash e (reads h) (reads p) c = (PGLC_INDEX_INSERTED, ix', c) \<and>
      index_ok ix' (h(e := hash)) (insert e ids) \<and> bucket_count ix' = bucket_count ix \<and>
      tombstones ix' \<le> tombstones ix"
  by (rule reading.insert_served[OF reading_served[OF assms(1)] assms(2,3)])

theorem index_insert_refines_witness:
  "is_live 7 \<and> pglc_index_insert demo_index 1 7 (reads (\<lambda>_. 1)) (reads (\<lambda>e. e = 9)) () =
     (PGLC_INDEX_EXISTS, demo_index, ())"
  using index_insert_refines[OF demo_index_ok, of 7 1 "\<lambda>e. e = 9" "()"] by (auto simp: is_live_def)

text \<open>C19: \<open>pglc_index_remove\<close> takes exactly one matching entry out of the indexed set, leaves
  a tombstone so that every other entry is still found, and changes nothing when there is
  no match.\<close>

theorem index_remove_refines:
  assumes "index_ok ix h ids"
  shows "if \<exists>e \<in> ids. h e = hash \<and> p e
    then \<exists>e ix'. e \<in> ids \<and> h e = hash \<and> p e \<and>
      pglc_index_remove ix hash (reads h) (reads p) c = (e, ix', c) \<and>
      index_ok ix' h (ids - {e}) \<and> bucket_count ix' = bucket_count ix \<and> tombstones ix' = tombstones ix + 1
    else pglc_index_remove ix hash (reads h) (reads p) c = (PGLC_INDEX_EMPTY, ix, c)"
  by (rule reading.remove_served[OF reading_served[OF assms]])

theorem index_remove_refines_witness:
  "\<exists>ix'. pglc_index_remove demo_index 1 (reads (\<lambda>_. 1)) (reads (\<lambda>e. e = 9)) () = (9, ix', ()) \<and>
     index_ok ix' (\<lambda>_. 1) {5}"
proof -
  have "{5, 9} - {9} = {5 :: nat}" by auto
  then show ?thesis
    using index_remove_refines[OF demo_index_ok, of 1 "\<lambda>e. e = 9" "()"] by auto
qed

text \<open>C20: \<open>pglc_index_rebuild_existing\<close> re-indexes exactly the same entries without tombstones and
  reports success, unless it meets an entry of which all probed buckets of the new table already hold other
  entries; then it reports failure and leaves the live bucket array untouched. It succeeds whenever, for
  every entry, fewer other entries than the probe sequence has buckets can reach a bucket of that sequence.\<close>

theorem index_rebuild_refines:
  assumes "index_ok ix h ids"
  shows "\<exists>good ix'. pglc_index_rebuild_existing ix (reads h) c = (good, ix', c) \<and>
    (good \<longrightarrow> index_ok ix' h ids \<and> tombstones ix' = 0 \<and> \<not> pglc_index_needs_rebuild ix') \<and>
    (\<not> good \<longrightarrow> (\<exists>sc. ix' = ix\<lparr>scratch := sc\<rparr> \<and> (\<exists>e \<in> ids. \<forall>b \<in> set (probe_buckets ix (h e)). sc ! b \<in> ids - {e}))) \<and>
    ((\<forall>e \<in> ids. card (rivals ix h ids e) < min 64 (bucket_count ix)) \<longrightarrow> good)"
proof -
  obtain good ix' where r: "pglc_index_rebuild_existing ix (reads h) c = (good, ix', c)"
    "good \<Longrightarrow> index_ok ix' h ids \<and> tombstones ix' = 0"
    "\<not> good \<Longrightarrow> \<exists>sc. ix' = ix\<lparr>scratch := sc\<rparr> \<and> (\<exists>e \<in> ids. \<forall>b \<in> set (probe_buckets ix (h e)). sc ! b \<in> ids - {e}) \<and>
       (\<exists>e \<in> ids. min 64 (bucket_count ix) \<le> card (rivals ix h ids e))"
    using reading.rebuild_existing_served[OF reading_served[OF assms], of c] unfolding reading.served_def by blast
  moreover have "\<not> pglc_index_needs_rebuild ix'" if good
    using r(2)[OF that] index_okD(1)[of ix' h ids] by (simp add: pglc_index_needs_rebuild_def)
  ultimately show ?thesis by (metis not_le)
qed

theorem index_rebuild_refines_witness:
  "\<exists>ix'. pglc_index_rebuild_existing demo_index (reads (\<lambda>_. 1)) () = (True, ix', ()) \<and>
     index_ok ix' (\<lambda>_. 1) {5, 9} \<and> tombstones ix' = 0"
proof -
  have "card (rivals demo_index (\<lambda>_. 1) {5, 9} e) < min 64 (bucket_count demo_index)" for e
  proof -
    have "card (rivals demo_index (\<lambda>_. 1) {5, 9} e) \<le> card {5, 9 :: nat}" by (rule card_mono) (auto simp: rivals_def)
    then show ?thesis by (simp add: demo_index_def)
  qed
  then have few: "\<forall>e \<in> {5, 9}. card (rivals demo_index (\<lambda>_. 1) {5, 9} e) < min 64 (bucket_count demo_index)" by blast
  show ?thesis using index_rebuild_refines[OF demo_index_ok, of "()"] few by fastforce
qed

end
