(* ===== verification/KeyCodec.thy ===== *)
theory KeyCodec
  imports Prelude "HOL-Library.Monad_Syntax"
begin

text \<open>
  The key codec of \<open>src/src/key_codec.c\<close>. A cache key is the concatenation of the rendered
  primary-key columns, each written as \<open>length:bytes;\<close>. There are two producers: the typed
  encoder used by triggers and by the row loader, and a fast scanner that turns a JSON
  object with one column directly into a key.

  The lemmas show that the encoding is injective (no two composite keys share a cache
  entry), that both producers agree, that the UTF-8 check accepts exactly the encodings
  of sequences of non-zero Unicode scalar values, and that no buffer is overrun.

  PostgreSQL's datum accessors, integer formatting and output functions are parameters.
\<close>

section \<open>Data\<close>

abbreviation (input) PGLC_KEY_SCAN_INT2OID :: nat where "PGLC_KEY_SCAN_INT2OID \<equiv> 21"
abbreviation (input) PGLC_KEY_SCAN_INT4OID :: nat where "PGLC_KEY_SCAN_INT4OID \<equiv> 23"
abbreviation (input) PGLC_KEY_SCAN_TEXTOID :: nat where "PGLC_KEY_SCAN_TEXTOID \<equiv> 25"
abbreviation (input) PGLC_KEY_SCAN_INT8OID :: nat where "PGLC_KEY_SCAN_INT8OID \<equiv> 20"
abbreviation (input) PGLC_KEY_SCAN_VARCHAROID :: nat where "PGLC_KEY_SCAN_VARCHAROID \<equiv> 1043"
abbreviation (input) PGLC_KEY_MAX :: nat where "PGLC_KEY_MAX \<equiv> 1024"
abbreviation (input) PGLC_MAX_KEY_COLUMNS :: int where "PGLC_MAX_KEY_COLUMNS \<equiv> 16"

text \<open>The value of a byte as an unsigned char.\<close>

abbreviation uchar :: "char \<Rightarrow> nat" where "uchar c \<equiv> of_char c"

text \<open>PostgreSQL's side of the typed encoder: the accessors of integer datums, the integer
  formatters, and per column the output function with its function OID.\<close>

record 'd pg_types =
  DatumGetInt16 :: "'d \<Rightarrow> int"
  DatumGetInt32 :: "'d \<Rightarrow> int"
  DatumGetInt64 :: "'d \<Rightarrow> int"
  pg_ltoa :: "int \<Rightarrow> string"
  pg_lltoa :: "int \<Rightarrow> string"
  F_BPCHAROUT :: nat

record 'd FmgrInfo =
  fn_oid :: nat
  fn_call :: "'d \<Rightarrow> string"

section \<open>Scanning\<close>

definition is_json_space :: "char \<Rightarrow> bool" where
  "is_json_space c \<longleftrightarrow> c = CHR '' '' \<or> c = CHR 0x09 \<or> c = CHR 0x0A \<or> c = CHR 0x0D"

function skip_json_space :: "string \<Rightarrow> nat \<Rightarrow> nat" where
  "skip_json_space input position =
     (if position < length input \<and> is_json_space (input ! position)
      then skip_json_space input (position + 1) else position)"
  by pat_completeness auto
termination by (relation "measure (\<lambda>(i, p). length i - p)") auto

declare skip_json_space.simps [simp del]

definition is_continuation :: "char \<Rightarrow> bool" where
  "is_continuation c \<longleftrightarrow> 0x80 \<le> uchar c \<and> uchar c \<le> 0xbf"

text \<open>\<open>remaining\<close>, \<open>second_min\<close> and \<open>second_max\<close> for a lead byte; \<open>None\<close> is the \<open>false\<close> return.\<close>

definition utf8_lead :: "nat \<Rightarrow> (nat \<times> nat \<times> nat) option" where
  "utf8_lead c =
     (if 0xc2 \<le> c \<and> c \<le> 0xdf then Some (1, 0x80, 0xbf)
      else if 0xe0 \<le> c \<and> c \<le> 0xef then
        Some (2, if c = 0xe0 then 0xa0 else 0x80, if c = 0xed then 0x9f else 0xbf)
      else if 0xf0 \<le> c \<and> c \<le> 0xf4 then
        Some (3, if c = 0xf0 then 0x90 else 0x80, if c = 0xf4 then 0x8f else 0xbf)
      else None)"

text \<open>The argument is the part of the value that the loop has not consumed.\<close>

function valid_utf8 :: "char list \<Rightarrow> bool" where
  "valid_utf8 [] = True"
| "valid_utf8 (b # rest) =
     (let c = uchar b in
      if c = 0 then False
      else if c < 0x80 then valid_utf8 rest
      else case utf8_lead c of None \<Rightarrow> False
        | Some (remaining, second_min, second_max) \<Rightarrow>
          if length rest < remaining \<or> uchar (rest ! 0) < second_min \<or> second_max < uchar (rest ! 0)
          then False
          else if \<not> list_all is_continuation (take (remaining - 1) (drop 1 rest)) then False
          else valid_utf8 (drop remaining rest))"
  by pat_completeness auto
termination by (relation "measure length") auto

declare valid_utf8.simps(2) [simp del]

section \<open>Decimal numbers\<close>

function decimal_length_loop :: "nat \<Rightarrow> nat \<Rightarrow> nat" where
  "decimal_length_loop value digits =
     (if 10 \<le> value then decimal_length_loop (value div 10) (digits + 1) else digits)"
  by pat_completeness auto
termination by (relation "measure fst") auto

declare decimal_length_loop.simps [simp del]

definition decimal_length :: "nat \<Rightarrow> nat" where
  "decimal_length value = decimal_length_loop value 1"

definition digit_char :: "nat \<Rightarrow> char" where
  "digit_char d = char_of (48 + d)"

text \<open>The \<open>do ... while\<close> loop that fills the array \<open>reversed\<close>.\<close>

function reversed_digits :: "nat \<Rightarrow> char list" where
  "reversed_digits value =
     digit_char (value mod 10) # (if value div 10 \<noteq> 0 then reversed_digits (value div 10) else [])"
  by pat_completeness auto
termination by (relation "measure id") auto

declare reversed_digits.simps [simp del]

definition write_decimal :: "nat \<Rightarrow> char list" where
  "write_decimal value =
     (let reversed = reversed_digits value; count = length reversed
      in map (\<lambda>i. reversed ! (count - i - 1)) [0..<count])"

definition is_digit :: "char \<Rightarrow> bool" where
  "is_digit c \<longleftrightarrow> 48 \<le> uchar c \<and> uchar c \<le> 57"

text \<open>The accumulation loop: the new position, the magnitude and the number of digits.\<close>

function magnitude_loop :: "string \<Rightarrow> nat \<Rightarrow> nat \<Rightarrow> nat \<Rightarrow> (nat \<times> nat \<times> nat) option" where
  "magnitude_loop input start magnitude digits =
     (if start < length input \<and> is_digit (input ! start) then
        let digit = uchar (input ! start) - 48 in
        if (UINT64_MAX - digit) div 10 < magnitude then None
        else magnitude_loop input (start + 1) (u64 (magnitude * 10 + digit)) (digits + 1)
      else Some (start, magnitude, digits))"
  by pat_completeness auto
termination by (relation "measure (\<lambda>(i, s, m, d). length i - s)") auto

declare magnitude_loop.simps [simp del]

definition integer_limit :: "nat \<Rightarrow> bool \<Rightarrow> nat" where
  "integer_limit key_type negative =
     (let max = (if key_type = PGLC_KEY_SCAN_INT2OID then 32767
                 else if key_type = PGLC_KEY_SCAN_INT4OID then 2147483647
                 else 9223372036854775807)
      in if negative then max + 1 else max)"

text \<open>The rendering at the end of \<open>parse_json_integer\<close>: sign and decimal magnitude.\<close>

definition render_integer :: "int \<Rightarrow> string" where
  "render_integer value =
     (if value < 0 then CHR ''-'' # rev (reversed_digits (nat (- (value + 1)) + 1))
      else rev (reversed_digits (nat value)))"

definition parse_json_integer :: "string \<Rightarrow> nat \<Rightarrow> nat \<Rightarrow> (nat \<times> string) option" where
  "parse_json_integer input position key_type =
     (let negative = (position < length input \<and> input ! position = CHR ''-'');
          start = (if negative then position + 1 else position)
      in if length input \<le> start \<or> \<not> is_digit (input ! start) then None
      else if input ! start = CHR ''0'' \<and> negative then None
      else if input ! start = CHR ''0'' \<and> start + 1 < length input \<and> is_digit (input ! (start + 1)) then None
      else case magnitude_loop input start 0 0 of None \<Rightarrow> None
        | Some (end_pos, magnitude, digits) \<Rightarrow>
          if digits = 0 then None
          else if integer_limit key_type negative < magnitude then None
          else
            let value = (if negative then - int (magnitude - 1) - 1 else int magnitude)
            in Some (end_pos, render_integer value))"

section \<open>The single-column JSON scanner\<close>

text \<open>\<open>position >= input_length || input[position++] != c\<close> as a step that may fail.\<close>

definition expect_char :: "string \<Rightarrow> char \<Rightarrow> nat \<Rightarrow> nat option" where
  "expect_char input c position =
     (if length input \<le> position \<or> input ! position \<noteq> c then None else Some (position + 1))"

definition guard :: "bool \<Rightarrow> unit option" where
  "guard b = (if b then Some () else None)"

text \<open>The loops over a quoted name and over a quoted string: the position of the closing
  quote, or \<open>None\<close> for a byte the loop rejects.\<close>

function scan_quoted :: "(nat \<Rightarrow> bool) \<Rightarrow> string \<Rightarrow> nat \<Rightarrow> nat option" where
  "scan_quoted bad input position =
     (if position < length input \<and> input ! position \<noteq> CHR 0x22 then
        if bad (uchar (input ! position)) then None else scan_quoted bad input (position + 1)
      else if length input \<le> position then None else Some position)"
  by pat_completeness auto
termination by (relation "measure (\<lambda>(b, i, p). length i - p)") auto

declare scan_quoted.simps [simp del]

definition bad_name_byte :: "nat \<Rightarrow> bool" where
  "bad_name_byte ch \<longleftrightarrow> ch < 0x20 \<or> 0x80 \<le> ch \<or> ch = 0x5c \<or> ch = 0"

definition bad_string_byte :: "nat \<Rightarrow> bool" where
  "bad_string_byte ch \<longleftrightarrow> ch < 0x20 \<or> ch = 0x5c \<or> ch = 0"

definition scan_type_supported :: "nat \<Rightarrow> int \<Rightarrow> bool" where
  "scan_type_supported key_type typmod \<longleftrightarrow>
     ((key_type = PGLC_KEY_SCAN_INT2OID \<or> key_type = PGLC_KEY_SCAN_INT4OID \<or>
       key_type = PGLC_KEY_SCAN_INT8OID) \<and> typmod = -1) \<or>
     ((key_type = PGLC_KEY_SCAN_TEXTOID \<or> key_type = PGLC_KEY_SCAN_VARCHAROID) \<and> typmod = -1)"

definition plain_column :: "string \<Rightarrow> bool" where
  "plain_column column \<longleftrightarrow>
     list_all (\<lambda>c. \<not> (uchar c < 0x21 \<or> 0x7e < uchar c \<or> c = CHR 0x22 \<or> c = CHR 0x5c)) column"

definition is_integer_type :: "nat \<Rightarrow> bool" where
  "is_integer_type key_type \<longleftrightarrow> key_type = PGLC_KEY_SCAN_INT2OID \<or>
     key_type = PGLC_KEY_SCAN_INT4OID \<or> key_type = PGLC_KEY_SCAN_INT8OID"

text \<open>The two branches that read the value: the position after it and its rendering.\<close>

definition scan_integer_value :: "string \<Rightarrow> nat \<Rightarrow> nat \<Rightarrow> (nat \<times> string) option" where
  "scan_integer_value input position key_type =
     (let quoted = (position < length input \<and> input ! position = CHR 0x22) in
      do {
        (after, rendered) \<leftarrow> parse_json_integer input (if quoted then position + 1 else position) key_type;
        after' \<leftarrow> (if quoted then expect_char input (CHR 0x22) after else Some after);
        Some (after', rendered)
      })"

definition scan_string_value :: "string \<Rightarrow> nat \<Rightarrow> (nat \<times> string) option" where
  "scan_string_value input position =
     do {
       string_start \<leftarrow> expect_char input (CHR 0x22) position;
       string_end \<leftarrow> scan_quoted bad_string_byte input string_start;
       let rendered = take (string_end - string_start) (drop string_start input);
       guard (valid_utf8 rendered);
       Some (string_end + 1, rendered)
     }"

text \<open>The bytes written to the destination, without the terminating NUL.\<close>

definition write_component :: "string \<Rightarrow> string" where
  "write_component rendered =
     write_decimal (length rendered) @ CHR '':'' # rendered @ [CHR '';'']"

text \<open>\<open>Some key\<close> is a \<open>true\<close> return with \<open>key\<close> in the destination and its length in
  \<open>key_length\<close>. The pointers are never \<open>NULL\<close> in the callers.\<close>

definition pglc_key_scan_json_single ::
  "string \<Rightarrow> string \<Rightarrow> nat \<Rightarrow> int \<Rightarrow> bool \<Rightarrow> nat \<Rightarrow> string option" where
  "pglc_key_scan_json_single input column key_type typmod database_is_utf8 destination_capacity =
     do {
       guard (column \<noteq> [] \<and> destination_capacity \<noteq> 0);
       guard (scan_type_supported key_type typmod);
       guard (plain_column column);
       p1 \<leftarrow> expect_char input (CHR ''{'') (skip_json_space input 0);
       name_start \<leftarrow> expect_char input (CHR 0x22) (skip_json_space input p1);
       name_end \<leftarrow> scan_quoted bad_name_byte input name_start;
       guard (name_end - name_start = length column \<and>
         take (length column) (drop name_start input) = column);
       p2 \<leftarrow> expect_char input (CHR '':'') (skip_json_space input (name_end + 1));
       let p3 = skip_json_space input p2;
       guard (database_is_utf8 \<or> is_integer_type key_type);
       (p4, rendered) \<leftarrow> (if is_integer_type key_type then scan_integer_value input p3 key_type
                         else scan_string_value input p3);
       p5 \<leftarrow> expect_char input (CHR ''}'') (skip_json_space input p4);
       guard (skip_json_space input p5 = length input);
       let prefix_length = decimal_length (length rendered);
       let used = prefix_length + 1 + length rendered + 1;
       guard (\<not> (1024 \<le> used \<or> destination_capacity \<le> used));
       Some (write_component rendered)
     }"

section \<open>The typed encoder\<close>

definition strlen :: "string \<Rightarrow> nat" where
  "strlen s = length (takeWhile (\<lambda>c. c \<noteq> CHR 0x00) s)"

text \<open>The loop that drops the padding of \<open>character(n)\<close> output.\<close>

fun strip_spaces :: "string \<Rightarrow> nat \<Rightarrow> nat" where
  "strip_spaces rendered 0 = 0"
| "strip_spaces rendered (Suc n) =
     (if rendered ! n = CHR '' '' then strip_spaces rendered n else Suc n)"

definition render_datum ::
  "'d pg_types \<Rightarrow> nat list option \<Rightarrow> 'd FmgrInfo list \<Rightarrow> nat \<Rightarrow> 'd \<Rightarrow> string" where
  "render_datum pg key_types outs component value =
     (case key_types of
        Some ts \<Rightarrow>
          if ts ! component = PGLC_KEY_SCAN_INT2OID then pg_ltoa pg (DatumGetInt16 pg value)
          else if ts ! component = PGLC_KEY_SCAN_INT4OID then pg_ltoa pg (DatumGetInt32 pg value)
          else if ts ! component = PGLC_KEY_SCAN_INT8OID then pg_lltoa pg (DatumGetInt64 pg value)
          else fn_call (outs ! component) value
      | None \<Rightarrow> fn_call (outs ! component) value)"

definition component_bytes ::
  "'d pg_types \<Rightarrow> nat list option \<Rightarrow> 'd FmgrInfo list \<Rightarrow> nat \<Rightarrow> 'd \<Rightarrow> string" where
  "component_bytes pg key_types outs component value =
     (let rendered = render_datum pg key_types outs component value;
          rendered_len = strlen rendered;
          stripped = (if fn_oid (outs ! component) = F_BPCHAROUT pg
                      then strip_spaces rendered rendered_len else rendered_len)
      in take stripped rendered)"

definition pglc_key_length_digits :: "nat \<Rightarrow> char list" where
  "pglc_key_length_digits value =
     (let reversed = reversed_digits value; count = length reversed
      in map (\<lambda>i. reversed ! (count - i - 1)) [0..<count])"

text \<open>The loop over the components; the last argument is what has been written so far.\<close>

fun encode_loop ::
  "'d pg_types \<Rightarrow> nat list option \<Rightarrow> 'd FmgrInfo list \<Rightarrow> 'd list \<Rightarrow> bool list \<Rightarrow> nat \<Rightarrow> nat list \<Rightarrow>
   string \<Rightarrow> string option" where
  "encode_loop pg key_types outs values nulls capacity [] written = Some written"
| "encode_loop pg key_types outs values nulls capacity (component # rest) written =
     (if nulls ! component then None
      else
        let rendered = component_bytes pg key_types outs component (values ! component);
            digits = pglc_key_length_digits (length rendered);
            part_len = length digits + 1 + length rendered + 1;
            used = length written
        in if PGLC_KEY_MAX \<le> part_len \<or> PGLC_KEY_MAX - part_len \<le> used \<or>
              capacity \<le> part_len \<or> capacity - part_len \<le> used then None
        else encode_loop pg key_types outs values nulls capacity rest
               (written @ digits @ CHR '':'' # rendered @ [CHR '';'']))"

definition pglc_canonical_key_typed ::
  "'d pg_types \<Rightarrow> 'd list \<Rightarrow> bool list \<Rightarrow> int \<Rightarrow> nat list option \<Rightarrow> 'd FmgrInfo list \<Rightarrow> nat \<Rightarrow> string option" where
  "pglc_canonical_key_typed pg values nulls key_count key_types outs destination_capacity =
     (if key_count \<le> 0 \<or> PGLC_MAX_KEY_COLUMNS < key_count \<or> destination_capacity = 0 then None
      else encode_loop pg key_types outs values nulls destination_capacity [0..<nat key_count] [])"

definition pglc_canonical_key ::
  "'d pg_types \<Rightarrow> 'd list \<Rightarrow> bool list \<Rightarrow> int \<Rightarrow> 'd FmgrInfo list \<Rightarrow> nat \<Rightarrow> string option" where
  "pglc_canonical_key pg values nulls key_count outs destination_capacity =
     pglc_canonical_key_typed pg values nulls key_count None outs destination_capacity"

section \<open>Decimal lemmas\<close>

lemma rev_by_index: "map (\<lambda>i. xs ! (length xs - i - 1)) [0..<length xs] = rev xs"
  by (intro nth_equalityI) (auto simp: rev_nth)

lemma write_decimal_rev: "write_decimal v = rev (reversed_digits v)"
  using rev_by_index[of "reversed_digits v"] by (simp add: write_decimal_def Let_def)

lemma key_length_digits_eq: "pglc_key_length_digits v = write_decimal v"
  by (simp add: pglc_key_length_digits_def write_decimal_def)

lemma decimal_length_loop_eq: "decimal_length_loop v d = d + length (reversed_digits v) - 1"
proof (induction v d rule: decimal_length_loop.induct)
  case (1 v d)
  show ?case
  proof (cases "10 \<le> v")
    case True
    then show ?thesis using 1 by (subst decimal_length_loop.simps, subst reversed_digits.simps) (auto simp: div_greater_zero_iff)
  next
    case False
    then show ?thesis by (subst decimal_length_loop.simps, subst reversed_digits.simps) simp
  qed
qed

lemma decimal_length_eq: "decimal_length v = length (write_decimal v)"
  by (simp add: decimal_length_def decimal_length_loop_eq write_decimal_rev)

lemma uchar_digit_char [simp]: "d < 10 \<Longrightarrow> uchar (digit_char d) = 48 + d"
  by (simp add: digit_char_def)

lemma is_digit_digit_char [simp]: "d < 10 \<Longrightarrow> is_digit (digit_char d)"
  by (simp add: is_digit_def)

lemma digit_char_uchar: "is_digit c \<Longrightarrow> digit_char (uchar c - 48) = c"
  by (simp add: is_digit_def digit_char_def)

definition dec_value :: "string \<Rightarrow> nat" where
  "dec_value ds = foldl (\<lambda>a c. a * 10 + (uchar c - 48)) 0 ds"

lemma dec_value_snoc: "dec_value (ds @ [c]) = dec_value ds * 10 + (uchar c - 48)"
  by (simp add: dec_value_def)

lemma dec_value_Nil [simp]: "dec_value [] = 0"
  by (simp add: dec_value_def)

lemma write_decimal_rec:
  "write_decimal v = (if v div 10 \<noteq> 0 then write_decimal (v div 10) else []) @ [digit_char (v mod 10)]"
  unfolding write_decimal_rev by (subst reversed_digits.simps) simp

lemma write_decimal_nonempty [simp]: "write_decimal v \<noteq> []"
  by (subst write_decimal_rec) simp

lemma write_decimal_digits: "c \<in> set (write_decimal v) \<Longrightarrow> is_digit c"
proof (induction v rule: less_induct)
  case (less v)
  show ?case
  proof (cases "v div 10 = 0")
    case True
    then show ?thesis using less.prems write_decimal_rec[of v] by simp
  next
    case False
    then have "v div 10 < v" by auto
    then show ?thesis using less.prems less.IH[of "v div 10"] write_decimal_rec[of v] False by auto
  qed
qed

lemma dec_value_write [simp]: "dec_value (write_decimal v) = v"
proof (induction v rule: less_induct)
  case (less v)
  have "v < 10 \<or> v div 10 < v" by auto
  then show ?case
    using less[of "v div 10"] by (subst write_decimal_rec) (auto simp: dec_value_snoc div_eq_0_iff)
qed

lemma write_decimal_lead: "v \<noteq> 0 \<Longrightarrow> hd (write_decimal v) \<noteq> CHR ''0''"
proof (induction v rule: less_induct)
  case (less v)
  show ?case
  proof (cases "v < 10")
    case True
    then have "write_decimal v = [digit_char v]" by (subst write_decimal_rec) simp
    moreover have "uchar (digit_char v) \<noteq> uchar (CHR ''0'')" using True less.prems by simp
    ultimately show ?thesis by auto
  next
    case False
    then have "v div 10 \<noteq> 0" "v div 10 < v" by (auto simp: div_eq_0_iff)
    then show ?thesis using less.IH[of "v div 10"] by (subst write_decimal_rec) simp
  qed
qed

lemma write_decimal_0: "write_decimal 0 = ''0''"
proof -
  have "char_of (uchar (CHR ''0'')) = CHR ''0''" by (rule char_of_char)
  then show ?thesis by (subst write_decimal_rec) (simp add: digit_char_def)
qed

lemma length_write_decimal: "v < 10 ^ n \<Longrightarrow> 0 < n \<Longrightarrow> length (write_decimal v) \<le> n"
proof (induction n arbitrary: v)
  case (Suc n)
  show ?case
  proof (cases "v div 10 = 0")
    case True
    then show ?thesis by (subst write_decimal_rec) simp
  next
    case False
    then have "v div 10 < 10 ^ n" "0 < n" using Suc.prems by (auto intro: Nat.gr0I simp: div_less_iff_less_mult)
    then show ?thesis using Suc.IH[of "v div 10"] False by (subst write_decimal_rec) simp
  qed
qed simp

text \<open>The canonical spelling is unique: a digit string without a leading zero is the
  rendering of its value.\<close>

lemma write_decimal_unique:
  assumes "\<forall>c \<in> set ds. is_digit c" "ds \<noteq> []" "hd ds = CHR ''0'' \<Longrightarrow> ds = ''0''"
  shows "write_decimal (dec_value ds) = ds"
  using assms
proof (induction ds rule: rev_induct)
  case (snoc c ds)
  have c: "is_digit c" "uchar c - 48 < 10" using snoc.prems by (auto simp: is_digit_def)
  show ?case
  proof (cases ds)
    case Nil
    then show ?thesis using c by (subst write_decimal_rec) (simp add: dec_value_def digit_char_uchar)
  next
    case (Cons b bs)
    then have lead: "hd ds \<noteq> CHR ''0''" using snoc.prems(3) by auto
    have IH: "write_decimal (dec_value ds) = ds" using snoc.IH snoc.prems Cons by auto
    have "dec_value ds \<noteq> 0"
    proof
      assume "dec_value ds = 0"
      then have "ds = ''0''" using IH write_decimal_0 by simp
      then show False using lead by simp
    qed
    then show ?thesis using c IH
      by (subst write_decimal_rec) (simp add: dec_value_snoc digit_char_uchar)
  qed
qed simp

section \<open>The encoding of a composite key\<close>

definition encode_key :: "string list \<Rightarrow> string" where
  "encode_key rs = concat (map write_component rs)"

lemma encode_key_simps [simp]:
  "encode_key [] = []" "encode_key (r # rs) = write_component r @ encode_key rs"
  "encode_key (rs @ rs') = encode_key rs @ encode_key rs'"
  by (simp_all add: encode_key_def)

lemma write_component_nonempty [simp]: "write_component r \<noteq> []"
  by (simp add: write_component_def)

lemma colon_not_digit [simp]: "\<not> is_digit (CHR '':'')"
  by (simp add: is_digit_def)

text \<open>A component is read back from the front of any text: the digits give the length.\<close>

lemma component_split:
  assumes "write_component r @ x = write_component r' @ x'"
  shows "r = r' \<and> x = x'"
proof -
  have tw: "takeWhile is_digit (write_decimal n @ CHR '':'' # y) = write_decimal n" for n y
    using write_decimal_digits by (subst takeWhile_append2) auto
  have "write_decimal (length r) @ CHR '':'' # r @ CHR '';'' # x =
      write_decimal (length r') @ CHR '':'' # r' @ CHR '';'' # x'"
    using assms by (simp add: write_component_def)
  then have eq: "write_decimal (length r) = write_decimal (length r')" "r @ CHR '';'' # x = r' @ CHR '';'' # x'"
    using tw by (metis, metis append_eq_append_conv list.inject tw)
  then have "length r = length r'" using dec_value_write by metis
  then show ?thesis using eq(2) by simp
qed

lemma encode_key_inj: "encode_key rs = encode_key rs' \<Longrightarrow> rs = rs'"
proof (induction rs arbitrary: rs')
  case Nil
  then show ?case by (cases rs') auto
next
  case (Cons r rs)
  then obtain r' rest where rs': "rs' = r' # rest" by (cases rs') auto
  then show ?case using Cons component_split[of r "encode_key rs" r' "encode_key rest"] by auto
qed

text \<open>The encoder loop writes this encoding, and stops exactly when a column is null or
  the result does not fit the key limit and the destination.\<close>

lemma length_write_component:
  "length (write_component r) = length (pglc_key_length_digits (length r)) + 1 + length r + 1"
  by (simp add: write_component_def key_length_digits_eq)

lemma encode_loop_eq:
  assumes "length written < PGLC_KEY_MAX" "length written < capacity"
  shows "encode_loop pg kts outs vals nulls capacity cs written =
    (let key = written @ encode_key (map (\<lambda>c. component_bytes pg kts outs c (vals ! c)) cs)
     in if (\<exists>c \<in> set cs. nulls ! c) \<or> PGLC_KEY_MAX \<le> length key \<or> capacity \<le> length key
        then None else Some key)"
  using assms
proof (induction cs arbitrary: written)
  case Nil
  then show ?case by simp
next
  case (Cons c cs)
  let ?r = "component_bytes pg kts outs c (vals ! c)"
  let ?w = "written @ write_component ?r"
  have wc: "pglc_key_length_digits (length ?r) @ CHR '':'' # ?r @ [CHR '';''] = write_component ?r"
    by (simp add: write_component_def key_length_digits_eq)
  have part: "length (pglc_key_length_digits (length ?r)) + 1 + length ?r + 1 = length (write_component ?r)"
    by (simp add: length_write_component)
  have full: "PGLC_KEY_MAX \<le> length (write_component ?r) \<or>
      PGLC_KEY_MAX - length (write_component ?r) \<le> length written \<or>
      capacity \<le> length (write_component ?r) \<or> capacity - length (write_component ?r) \<le> length written
    \<longleftrightarrow> PGLC_KEY_MAX \<le> length ?w \<or> capacity \<le> length ?w"
    by auto
  have step: "encode_loop pg kts outs vals nulls capacity (c # cs) written =
    (if nulls ! c then None else if PGLC_KEY_MAX \<le> length ?w \<or> capacity \<le> length ?w then None
     else encode_loop pg kts outs vals nulls capacity cs ?w)"
    unfolding encode_loop.simps Let_def part wc full by (rule refl)
  show ?case
  proof (cases "PGLC_KEY_MAX \<le> length ?w \<or> capacity \<le> length ?w")
    case True
    then show ?thesis unfolding step by (auto simp: Let_def)
  next
    case False
    then show ?thesis unfolding step using Cons.IH[of ?w] by (auto simp: Let_def)
  qed
qed

lemma canonical_key_eq:
  "pglc_canonical_key_typed pg vals nulls n kts outs capacity =
    (let key = encode_key (map (\<lambda>c. component_bytes pg kts outs c (vals ! c)) [0..<nat n])
     in if n \<le> 0 \<or> 16 < n \<or> (\<exists>c < nat n. nulls ! c) \<or> PGLC_KEY_MAX \<le> length key \<or> capacity \<le> length key
        then None else Some key)"
proof (cases "n \<le> 0 \<or> 16 < n \<or> capacity = 0")
  case True
  then show ?thesis by (auto simp: pglc_canonical_key_typed_def Let_def)
next
  case False
  then show ?thesis
    using encode_loop_eq[of "[]" capacity pg kts outs vals nulls "[0..<nat n]"]
    by (auto simp: pglc_canonical_key_typed_def Let_def)
qed

section \<open>UTF-8\<close>

text \<open>The reference: the encoding of one code point, and the non-zero scalar values.\<close>

definition scalar_value :: "nat \<Rightarrow> bool" where
  "scalar_value cp \<longleftrightarrow> 0 < cp \<and> cp < 0x110000 \<and> \<not> (0xD800 \<le> cp \<and> cp \<le> 0xDFFF)"

definition utf8_encode :: "nat \<Rightarrow> char list" where
  "utf8_encode cp =
     (if cp < 0x80 then [char_of cp]
      else if cp < 0x800 then [char_of (0xC0 + cp div 64), char_of (0x80 + cp mod 64)]
      else if cp < 0x10000 then
        [char_of (0xE0 + cp div 64 div 64), char_of (0x80 + cp div 64 mod 64), char_of (0x80 + cp mod 64)]
      else [char_of (0xF0 + cp div 64 div 64 div 64), char_of (0x80 + cp div 64 div 64 mod 64),
        char_of (0x80 + cp div 64 mod 64), char_of (0x80 + cp mod 64)])"

lemma uchar_less [simp]: "uchar c < 256"
  by simp

lemma uchar_char_of: "n < 256 \<Longrightarrow> uchar (char_of n) = n"
  by simp

lemma char_of_uchar: "uchar c = n \<Longrightarrow> c = char_of n"
  by auto

lemma valid_utf8_encode:
  assumes "scalar_value cp"
  shows "valid_utf8 (utf8_encode cp @ rest) = valid_utf8 rest"
proof -
  consider "cp < 0x80" | "0x80 \<le> cp" "cp < 0x800" | "0x800 \<le> cp" "cp < 0x10000" | "0x10000 \<le> cp" by linarith
  then show ?thesis
  proof cases
    case 1
    then show ?thesis using assms by (simp add: utf8_encode_def valid_utf8.simps(2) scalar_value_def)
  next
    case 2
    then have "cp div 64 < 32" "2 \<le> cp div 64" by (simp_all add: div_less_iff_less_mult less_eq_div_iff_mult_less_eq)
    moreover define b where "b = cp mod 64"
    moreover have "b < 64" by (simp add: b_def)
    ultimately show ?thesis using 2
      by (simp add: utf8_encode_def b_def[symmetric] valid_utf8.simps(2) utf8_lead_def Let_def uchar_char_of del: of_char_of)
  next
    case 3
    define a where "a = cp div 64 div 64"
    define b where "b = cp div 64 mod 64"
    have ab: "cp div 64 = a * 64 + b" "b < 64" by (simp_all add: a_def b_def)
    define d where "d = cp mod 64"
    have cp: "cp = a * 4096 + b * 64 + d" "d < 64" using ab(1) div_mult_mod_eq[of cp 64] by (simp_all add: d_def)
    have sv: "cp < 0xD800 \<or> 0xDFFF < cp" using assms by (auto simp: scalar_value_def)
    have r: "a < 16" using cp(1) 3 by linarith
    have r0: "32 \<le> b" if "a = 0" using cp ab(2) 3 that by linarith
    have r13: "b < 32" if "a = 13" using cp ab(2) sv that by linarith
    show ?thesis using 3 r r0 r13 ab(2) cp(2)
      by (auto simp: utf8_encode_def a_def[symmetric] b_def[symmetric] d_def[symmetric] valid_utf8.simps(2) utf8_lead_def
          Let_def uchar_char_of is_continuation_def simp del: of_char_of)
  next
    case 4
    define a where "a = cp div 64 div 64 div 64"
    define b where "b = cp div 64 div 64 mod 64"
    define d where "d = cp div 64 mod 64"
    have ab: "cp div 64 div 64 = a * 64 + b" "b < 64" by (simp_all add: a_def b_def)
    have bd: "cp div 64 = (a * 64 + b) * 64 + d" "d < 64" using ab(1) div_mult_mod_eq[of "cp div 64" 64] by (simp_all add: d_def)
    define e where "e = cp mod 64"
    have cp: "cp = a * 262144 + b * 4096 + d * 64 + e" "e < 64"
      using bd(1) div_mult_mod_eq[of cp 64] by (simp_all add: e_def)
    have sv: "cp < 0x110000" using assms by (auto simp: scalar_value_def)
    have r: "a < 5" using cp(1) sv by linarith
    have r0: "16 \<le> b" if "a = 0" using cp bd(2) 4 that by linarith
    have r4: "b < 16" if "a = 4" using cp sv that by linarith
    show ?thesis using 4 r r0 r4 ab(2) bd(2) cp(2)
      by (auto simp: utf8_encode_def a_def[symmetric] b_def[symmetric] d_def[symmetric] e_def[symmetric] valid_utf8.simps(2)
          utf8_lead_def Let_def uchar_char_of is_continuation_def simp del: of_char_of)
  qed
qed

lemma utf8_encode_2:
  assumes "2 \<le> a" "a < 32" "b < 64"
  shows "scalar_value (a * 64 + b)" "utf8_encode (a * 64 + b) = [char_of (0xC0 + a), char_of (0x80 + b)]"
  using assms by (auto simp: scalar_value_def utf8_encode_def)

lemma split_64: "b < 64 \<Longrightarrow> (a * 64 + b) div 64 = (a :: nat)" "b < 64 \<Longrightarrow> (a * 64 + b) mod 64 = (b :: nat)"
  by simp_all

lemma utf8_encode_3:
  assumes "a < 16" "b < 64" "d < 64" "a = 0 \<Longrightarrow> 32 \<le> b" "a = 13 \<Longrightarrow> b < 32"
  shows "scalar_value ((a * 64 + b) * 64 + d)"
    "utf8_encode ((a * 64 + b) * 64 + d) = [char_of (0xE0 + a), char_of (0x80 + b), char_of (0x80 + d)]"
proof -
  let ?x = "(a * 64 + b) * 64 + d"
  have lo: "0x800 \<le> ?x" using assms(4) by (cases "a = 0") auto
  have hi: "?x < 0x10000" using assms(1-3) by simp
  have "\<not> (0xD800 \<le> ?x \<and> ?x \<le> 0xDFFF)"
  proof (cases "a = 13")
    case True
    then show ?thesis using assms by simp
  next
    case False
    then have "a \<le> 12 \<or> 14 \<le> a" by linarith
    then show ?thesis using assms(2,3) by auto
  qed
  then show "scalar_value ?x" using lo hi by (auto simp: scalar_value_def)
  show "utf8_encode ?x = [char_of (0xE0 + a), char_of (0x80 + b), char_of (0x80 + d)]"
    using lo hi unfolding utf8_encode_def split_64[OF assms(3)] split_64[OF assms(2)] by simp
qed

lemma utf8_encode_4:
  assumes "a < 5" "b < 64" "d < 64" "e < 64" "a = 0 \<Longrightarrow> 16 \<le> b" "a = 4 \<Longrightarrow> b < 16"
  shows "scalar_value (((a * 64 + b) * 64 + d) * 64 + e)"
    "utf8_encode (((a * 64 + b) * 64 + d) * 64 + e) =
      [char_of (0xF0 + a), char_of (0x80 + b), char_of (0x80 + d), char_of (0x80 + e)]"
proof -
  let ?x = "((a * 64 + b) * 64 + d) * 64 + e"
  have lo: "0x10000 \<le> ?x" using assms(5) by (cases "a = 0") auto
  have hi: "?x < 0x110000"
  proof (cases "a = 4")
    case True
    then show ?thesis using assms by simp
  next
    case False
    then have "a \<le> 3" using assms(1) by linarith
    then show ?thesis using assms(2-4) by simp
  qed
  show "scalar_value ?x" using lo hi by (auto simp: scalar_value_def)
  show "utf8_encode ?x = [char_of (0xF0 + a), char_of (0x80 + b), char_of (0x80 + d), char_of (0x80 + e)]"
    using lo unfolding utf8_encode_def split_64[OF assms(4)] split_64[OF assms(3)] split_64[OF assms(2)] by simp
qed

text \<open>One step of the loop consumes the encoding of one scalar value.\<close>

lemma valid_utf8_step:
  assumes "valid_utf8 (b # rest)"
  obtains cp rest' where "scalar_value cp" "b # rest = utf8_encode cp @ rest'" "valid_utf8 rest'"
proof (cases "uchar b < 0x80")
  case True
  then show ?thesis
    using that[of "uchar b" rest] assms
    by (auto simp: valid_utf8.simps(2) Let_def scalar_value_def utf8_encode_def split: if_splits)
next
  case False
  then obtain k lo hi where lead: "utf8_lead (uchar b) = Some (k, lo, hi)" and len: "k \<le> length rest"
    and second: "lo \<le> uchar (rest ! 0)" "uchar (rest ! 0) \<le> hi"
    and conts: "list_all is_continuation (take (k - 1) (drop 1 rest))" and ok: "valid_utf8 (drop k rest)"
    using assms by (auto simp: valid_utf8.simps(2) Let_def not_less split: if_splits option.splits)
  have "k = 1 \<or> k = 2 \<or> k = 3" using lead by (auto simp: utf8_lead_def split: if_splits)
  then consider s where "k = 1" "rest = s # drop 1 rest" | s t where "k = 2" "rest = s # t # drop 2 rest"
    | s t u where "k = 3" "rest = s # t # u # drop 3 rest"
    using len by (auto simp: Suc_le_length_iff numeral_eq_Suc)
  then show ?thesis
  proof cases
    case 1
    have "0xC2 \<le> uchar b" "uchar b \<le> 0xDF" "0x80 \<le> uchar s" "uchar s \<le> 0xBF"
      using lead second 1 by (auto simp: utf8_lead_def split: if_splits) (metis nth_Cons_0)+
    then show ?thesis
      using that[of "(uchar b - 0xC0) * 64 + (uchar s - 0x80)" "drop 1 rest"] ok 1
        utf8_encode_2[of "uchar b - 0xC0" "uchar s - 0x80"] by simp
  next
    case 2
    have hd: "rest ! 0 = s" "take 1 (drop 1 rest) = [t]" using 2(2) by (metis nth_Cons_0, metis One_nat_def drop_Suc_Cons drop0 take_Suc_Cons take0)
    have "0x80 \<le> uchar t" "uchar t \<le> 0xBF" using conts 2(1) hd(2) by (simp_all add: is_continuation_def)
    moreover have "0xE0 \<le> uchar b" "uchar b \<le> 0xEF" "0x80 \<le> uchar s" "uchar s \<le> 0xBF"
      "uchar b = 0xE0 \<longrightarrow> 0xA0 \<le> uchar s" "uchar b = 0xED \<longrightarrow> uchar s \<le> 0x9F"
      using lead second 2(1) hd(1) by (auto simp: utf8_lead_def split: if_splits)
    moreover define x y z where "x = uchar b - 0xE0" and "y = uchar s - 0x80" and "z = uchar t - 0x80"
    ultimately have e: "x < 16" "y < 64" "z < 64" "x = 0 \<Longrightarrow> 32 \<le> y" "x = 13 \<Longrightarrow> y < 32"
      "b = char_of (0xE0 + x)" "s = char_of (0x80 + y)" "t = char_of (0x80 + z)" by auto
    show ?thesis
      using that[OF utf8_encode_3(1)[OF e(1-5)], of "drop 2 rest"] utf8_encode_3(2)[OF e(1-5)] e(6-8) ok 2 by simp
  next
    case 3
    have hd: "rest ! 0 = s" "take 2 (drop 1 rest) = [t, u]"
      using 3(2) by (metis nth_Cons_0, metis One_nat_def Suc_1 drop_Suc_Cons drop0 take_Suc_Cons take0)
    have "0x80 \<le> uchar t" "uchar t \<le> 0xBF" "0x80 \<le> uchar u" "uchar u \<le> 0xBF"
      using conts 3(1) hd(2) by (simp_all add: is_continuation_def)
    moreover have "0xF0 \<le> uchar b" "uchar b \<le> 0xF4" "0x80 \<le> uchar s" "uchar s \<le> 0xBF"
      "uchar b = 0xF0 \<longrightarrow> 0x90 \<le> uchar s" "uchar b = 0xF4 \<longrightarrow> uchar s \<le> 0x8F"
      using lead second 3(1) hd(1) by (auto simp: utf8_lead_def split: if_splits)
    moreover define x y z w where "x = uchar b - 0xF0" and "y = uchar s - 0x80" and "z = uchar t - 0x80"
      and "w = uchar u - 0x80"
    ultimately have e: "x < 5" "y < 64" "z < 64" "w < 64" "x = 0 \<Longrightarrow> 16 \<le> y" "x = 4 \<Longrightarrow> y < 16"
      "b = char_of (0xF0 + x)" "s = char_of (0x80 + y)" "t = char_of (0x80 + z)" "u = char_of (0x80 + w)" by auto
    show ?thesis
      using that[OF utf8_encode_4(1)[OF e(1-6)], of "drop 3 rest"] utf8_encode_4(2)[OF e(1-6)] e(7-10) ok 3 by simp
  qed
qed

lemma valid_utf8_iff:
  "valid_utf8 s \<longleftrightarrow> (\<exists>cps. (\<forall>cp \<in> set cps. scalar_value cp) \<and> s = concat (map utf8_encode cps))"
proof
  show "valid_utf8 s \<Longrightarrow> \<exists>cps. (\<forall>cp \<in> set cps. scalar_value cp) \<and> s = concat (map utf8_encode cps)"
  proof (induction s rule: length_induct)
    case (1 s)
    show ?case
    proof (cases s)
      case Nil
      then show ?thesis by (intro exI[of _ "[]"]) simp
    next
      case (Cons b rest)
      then obtain cp rest' where cp: "scalar_value cp" "s = utf8_encode cp @ rest'" "valid_utf8 rest'"
        using valid_utf8_step "1.prems" by metis
      moreover have "utf8_encode cp \<noteq> []" by (simp add: utf8_encode_def)
      then have "length rest' < length s" using cp(2) by simp
      ultimately obtain cps where "\<forall>cp \<in> set cps. scalar_value cp" "rest' = concat (map utf8_encode cps)"
        using "1.IH" by blast
      then show ?thesis using cp by (intro exI[of _ "cp # cps"]) simp
    qed
  qed
next
  assume "\<exists>cps. (\<forall>cp \<in> set cps. scalar_value cp) \<and> s = concat (map utf8_encode cps)"
  then obtain cps where "\<forall>cp \<in> set cps. scalar_value cp" "s = concat (map utf8_encode cps)" by blast
  then show "valid_utf8 s"
    by (induction cps arbitrary: s) (simp_all add: valid_utf8_encode)
qed

section \<open>Integer literals\<close>

abbreviation dec_from :: "nat \<Rightarrow> string \<Rightarrow> nat" where
  "dec_from m ds \<equiv> foldl (\<lambda>a c. a * 10 + (uchar c - 48)) m ds"

lemma dec_from_ge: "m \<le> dec_from m ds"
proof (induction ds arbitrary: m)
  case (Cons c ds)
  have "m \<le> m * 10 + (uchar c - 48)" by simp
  also have "\<dots> \<le> dec_from (m * 10 + (uchar c - 48)) ds" by (rule Cons)
  finally show ?case by simp
qed simp

text \<open>Facts about the text at a position, for an input split there.\<close>

lemma nth_after [simp]: "(pre @ c # rest) ! length pre = c"
  by simp

lemma magnitude_loop_eq:
  assumes "\<forall>c \<in> set ds. is_digit c" "rest = [] \<or> \<not> is_digit (hd rest)" "m \<le> UINT64_MAX"
  shows "magnitude_loop (pre @ ds @ rest) (length pre) m d =
    (if UINT64_MAX < dec_from m ds then None
     else Some (length pre + length ds, dec_from m ds, d + length ds))"
  using assms
proof (induction ds arbitrary: pre m d)
  case Nil
  then have "\<not> (length pre < length (pre @ rest) \<and> is_digit ((pre @ rest) ! length pre))"
    by (cases rest) auto
  then show ?case using Nil by (subst magnitude_loop.simps) auto
next
  case (Cons c ds)
  let ?d = "uchar c - 48" let ?m = "m * 10 + ?d"
  have c: "is_digit c" "?d < 10" using Cons.prems(1) by (auto simp: is_digit_def)
  have over: "(UINT64_MAX - ?d) div 10 < m \<longleftrightarrow> UINT64_MAX < ?m"
    using c(2) by (subst div_less_iff_less_mult) auto
  have step: "magnitude_loop (pre @ (c # ds) @ rest) (length pre) m d =
      (if UINT64_MAX < ?m then None
       else magnitude_loop ((pre @ [c]) @ ds @ rest) (length (pre @ [c])) (u64 ?m) (d + 1))"
    using c(1) by (subst magnitude_loop.simps) (simp add: Let_def over)
  show ?case
  proof (cases "UINT64_MAX < ?m")
    case True
    then show ?thesis using dec_from_ge[of ?m ds] unfolding step by simp
  next
    case False
    then show ?thesis unfolding step using Cons.IH[of ?m "pre @ [c]" "d + 1"] Cons.prems by simp
  qed
qed

lemma parse_integer_split:
  assumes "\<forall>c \<in> set ds. is_digit c" "rest = [] \<or> \<not> is_digit (hd rest)"
    and "input = pre @ (if neg then CHR ''-'' # ds else ds) @ rest"
    and "neg \<or> ds @ rest = [] \<or> hd (ds @ rest) \<noteq> CHR ''-''"
  shows "parse_json_integer input (length pre) key_type =
    (if ds = [] \<or> (hd ds = CHR ''0'' \<and> (neg \<or> length ds \<noteq> 1)) \<or> integer_limit key_type neg < dec_value ds
     then None
     else Some (length pre + (if neg then 1 else 0) + length ds, render_integer (if neg then - int (dec_value ds) else int (dec_value ds))))"
proof -
  define pre' where "pre' = pre @ (if neg then [CHR ''-''] else [])"
  define start where "start = length pre'"
  have input: "input = pre' @ ds @ rest" using assms(3) by (simp add: pre'_def)
  have neg: "(length pre < length input \<and> input ! length pre = CHR ''-'') = neg"
  proof (cases neg)
    case False
    then show ?thesis using assms(3,4) by (cases "ds @ rest") (auto simp: nth_append)
  qed (use assms(3) in simp)
  have start: "(if neg then length pre + 1 else length pre) = start" by (simp add: start_def pre'_def)
  have first: "(length input \<le> start \<or> \<not> is_digit (input ! start)) = (ds = [])"
    using assms(1,2) unfolding input start_def by (cases ds; cases rest) auto
  have second: "start + 1 < length input \<and> is_digit (input ! (start + 1)) \<longleftrightarrow> length ds \<noteq> 1" if "ds \<noteq> []"
    using that assms(1,2) unfolding input start_def by (cases ds; cases "tl ds"; cases rest) (auto simp: nth_append)
  have hd: "input ! start = hd ds" if "ds \<noteq> []"
    using that unfolding input start_def by (cases ds) auto
  have mag: "magnitude_loop input start 0 0 = (if UINT64_MAX < dec_value ds then None
      else Some (start + length ds, dec_value ds, length ds))"
    using magnitude_loop_eq[OF assms(1,2), of 0 pre' 0] by (simp add: input start_def dec_value_def)
  have lim: "integer_limit key_type neg \<le> UINT64_MAX" by (simp add: integer_limit_def Let_def)
  have val: "(if neg then - int (dec_value ds - 1) - 1 else int (dec_value ds)) =
      (if neg then - int (dec_value ds) else int (dec_value ds))"
    if "ds \<noteq> []" "\<not> (hd ds = CHR ''0'' \<and> neg)"
  proof -
    have "dec_value ds \<noteq> 0" if neg
    proof
      assume "dec_value ds = 0"
      then have "write_decimal 0 = ds" using write_decimal_unique[of ds] assms(1) \<open>ds \<noteq> []\<close> \<open>\<not> (hd ds = _ \<and> neg)\<close> that by auto
      then show False using \<open>\<not> (hd ds = _ \<and> neg)\<close> that write_decimal_0 by auto
    qed
    then show ?thesis by auto
  qed
  show ?thesis
    unfolding parse_json_integer_def neg Let_def start first
    using hd second mag lim val by (auto simp: start_def pre'_def)
qed

definition integer_in_range :: "nat \<Rightarrow> int \<Rightarrow> bool" where
  "integer_in_range key_type v \<longleftrightarrow>
     - int (integer_limit key_type True) \<le> v \<and> v \<le> int (integer_limit key_type False)"

lemma render_integer_eq:
  "render_integer v = (if v < 0 then CHR ''-'' # write_decimal (nat (- v)) else write_decimal (nat v))"
proof -
  have "nat (- (v + 1)) + 1 = nat (- v)" if "v < 0" using that by linarith
  then show ?thesis by (simp add: render_integer_def write_decimal_rev)
qed

lemma digit_not_minus: "is_digit c \<Longrightarrow> c \<noteq> CHR ''-''"
  by (auto simp: is_digit_def)

lemma parse_integer_sound:
  assumes "parse_json_integer (pre @ suf) (length pre) key_type = Some (q, r)"
  obtains v rest where "suf = r @ rest" "r = render_integer v" "q = length pre + length r"
    "integer_in_range key_type v" "rest = [] \<or> \<not> is_digit (hd rest)"
proof -
  define neg where "neg = (suf \<noteq> [] \<and> hd suf = CHR ''-'')"
  define t where "t = (if neg then tl suf else suf)"
  define ds where "ds = takeWhile is_digit t"
  define rest where "rest = dropWhile is_digit t"
  have digits: "\<forall>c \<in> set ds. is_digit c" by (auto simp: ds_def dest: set_takeWhileD)
  have stop: "rest = [] \<or> \<not> is_digit (hd rest)" unfolding rest_def using hd_dropWhile by blast
  have suf: "suf = (if neg then CHR ''-'' # ds else ds) @ rest"
  proof (cases neg)
    case True
    then have "suf = CHR ''-'' # t" by (cases suf) (auto simp: neg_def t_def)
    then show ?thesis using True by (simp add: ds_def rest_def)
  qed (simp add: ds_def rest_def t_def)
  have nominus: "neg \<or> ds @ rest = [] \<or> hd (ds @ rest) \<noteq> CHR ''-''"
    by (cases neg) (simp_all add: ds_def rest_def t_def, simp add: neg_def)
  have "pre @ suf = pre @ (if neg then CHR ''-'' # ds else ds) @ rest" using suf by simp
  note parse = parse_integer_split[OF digits stop this nominus, of key_type]
  define v where "v = (if neg then - int (dec_value ds) else int (dec_value ds))"
  have ok: "ds \<noteq> []" "hd ds = CHR ''0'' \<Longrightarrow> \<not> neg \<and> length ds = 1"
    "dec_value ds \<le> integer_limit key_type neg" "r = render_integer v" "q = length pre + (if neg then 1 else 0) + length ds"
    using assms parse by (auto simp: v_def split: if_splits)
  have canon: "write_decimal (dec_value ds) = ds"
    using write_decimal_unique[OF digits ok(1)] ok(2) by (cases ds) auto
  have nz: "dec_value ds \<noteq> 0" if neg
  proof
    assume "dec_value ds = 0"
    then have "ds = ''0''" using canon write_decimal_0 by simp
    then show False using ok(2) that by simp
  qed
  have r: "r = (if neg then CHR ''-'' # ds else ds)"
  proof (cases neg)
    case True
    then have "v < 0" "nat (- v) = dec_value ds" using nz by (simp_all add: v_def)
    then show ?thesis unfolding ok(4) render_integer_eq using canon True by simp
  next
    case False
    then have "\<not> v < 0" "nat v = dec_value ds" by (simp_all add: v_def)
    then show ?thesis unfolding ok(4) render_integer_eq using canon False by simp
  qed
  have "integer_in_range key_type v"
    using ok(3) by (auto simp: integer_in_range_def v_def)
  moreover have "suf = r @ rest" "q = length pre + length r" using suf r ok(5) by simp_all
  ultimately show thesis using that ok(4) stop by blast
qed

lemma parse_integer_complete:
  assumes "integer_in_range key_type v" "rest = [] \<or> \<not> is_digit (hd rest)"
  shows "parse_json_integer (pre @ render_integer v @ rest) (length pre) key_type =
    Some (length pre + length (render_integer v), render_integer v)"
proof -
  define neg where "neg = (v < 0)"
  define n where "n = nat (if neg then - v else v)"
  have ren: "render_integer v = (if neg then CHR ''-'' # write_decimal n else write_decimal n)"
    by (simp add: render_integer_eq neg_def n_def)
  have dv: "(if neg then - int (dec_value (write_decimal n)) else int (dec_value (write_decimal n))) = v"
    by (simp add: neg_def n_def)
  have digits: "\<forall>c \<in> set (write_decimal n). is_digit c" using write_decimal_digits by blast
  have "neg \<or> write_decimal n @ rest = [] \<or> hd (write_decimal n @ rest) \<noteq> CHR ''-''"
    using digits digit_not_minus by (metis hd_append2 hd_in_set write_decimal_nonempty)
  note parse = parse_integer_split[OF digits assms(2) _ this, of "pre @ render_integer v @ rest" pre key_type]
  have lim: "n \<le> integer_limit key_type neg"
    using assms(1) by (auto simp: integer_in_range_def n_def neg_def)
  have "\<not> (hd (write_decimal n) = CHR ''0'' \<and> (neg \<or> length (write_decimal n) \<noteq> 1))"
  proof
    assume z: "hd (write_decimal n) = CHR ''0'' \<and> (neg \<or> length (write_decimal n) \<noteq> 1)"
    then have "n = 0" using write_decimal_lead by blast
    then show False using z write_decimal_0 by (auto simp: neg_def n_def)
  qed
  then show ?thesis using parse lim ren dv by simp
qed

section \<open>The scanner's grammar\<close>

lemma skip_json_space_eq:
  "skip_json_space (pre @ suf) (length pre) = length pre + length (takeWhile is_json_space suf)"
proof (induction suf arbitrary: pre)
  case Nil
  then show ?case by (subst skip_json_space.simps) simp
next
  case (Cons c suf)
  then show ?case using Cons[of "pre @ [c]"] by (subst skip_json_space.simps) simp
qed

lemma skip_split:
  obtains w suf' where "suf = w @ suf'" "skip_json_space (pre @ suf) (length pre) = length (pre @ w)"
    "\<forall>c \<in> set w. is_json_space c" "suf' = [] \<or> \<not> is_json_space (hd suf')"
proof
  show "suf = takeWhile is_json_space suf @ dropWhile is_json_space suf" by simp
  show "skip_json_space (pre @ suf) (length pre) = length (pre @ takeWhile is_json_space suf)"
    by (simp add: skip_json_space_eq)
  show "\<forall>c \<in> set (takeWhile is_json_space suf). is_json_space c" by (auto dest: set_takeWhileD)
  show "dropWhile is_json_space suf = [] \<or> \<not> is_json_space (hd (dropWhile is_json_space suf))"
    using hd_dropWhile by blast
qed

lemma skip_at:
  assumes "\<forall>c \<in> set w. is_json_space c" "suf = [] \<or> \<not> is_json_space (hd suf)"
  shows "skip_json_space (pre @ w @ suf) (length pre) = length (pre @ w)"
proof -
  have "takeWhile is_json_space (w @ suf) = w"
    using assms by (cases suf) (auto simp: takeWhile_append)
  then show ?thesis by (simp add: skip_json_space_eq)
qed

lemma expect_iff:
  "expect_char (pre @ suf) c (length pre) = Some q \<longleftrightarrow> q = Suc (length pre) \<and> suf \<noteq> [] \<and> hd suf = c"
  by (cases suf) (auto simp: expect_char_def)

lemma scan_quoted_iff:
  "scan_quoted bad (pre @ suf) (length pre) = Some q \<longleftrightarrow>
    (\<exists>s rest. suf = s @ CHR 0x22 # rest \<and> q = length (pre @ s) \<and> (\<forall>c \<in> set s. \<not> bad (uchar c) \<and> c \<noteq> CHR 0x22))"
proof (induction suf arbitrary: pre)
  case Nil
  then show ?case by (subst scan_quoted.simps) simp
next
  case (Cons c suf)
  show ?case
  proof (cases "c = CHR 0x22")
    case True
    have "scan_quoted bad (pre @ c # suf) (length pre) = Some (length pre)"
      using True by (subst scan_quoted.simps) simp
    moreover have "s = []" if "c # suf = s @ CHR 0x22 # rest" "\<forall>c \<in> set s. \<not> bad (uchar c) \<and> c \<noteq> CHR 0x22" for s rest
      using that True by (cases s) auto
    moreover have "c # suf = [] @ CHR 0x22 # suf" using True by simp
    ultimately show ?thesis by (metis append_Nil2 empty_iff list.set(1) option.inject)
  next
    case False
    have "scan_quoted bad (pre @ c # suf) (length pre) =
        (if bad (uchar c) then None else scan_quoted bad ((pre @ [c]) @ suf) (length (pre @ [c])))"
      using False by (subst scan_quoted.simps) simp
    moreover have "(\<exists>s rest. c # suf = s @ CHR 0x22 # rest \<and> q = length (pre @ s) \<and>
        (\<forall>c \<in> set s. \<not> bad (uchar c) \<and> c \<noteq> CHR 0x22)) \<longleftrightarrow> \<not> bad (uchar c) \<and>
      (\<exists>s rest. suf = s @ CHR 0x22 # rest \<and> q = length ((pre @ [c]) @ s) \<and>
        (\<forall>c \<in> set s. \<not> bad (uchar c) \<and> c \<noteq> CHR 0x22))" (is "?L \<longleftrightarrow> ?R")
    proof
      assume ?L
      then obtain s rest where s: "c # suf = s @ CHR 0x22 # rest" "q = length (pre @ s)"
        "\<forall>c \<in> set s. \<not> bad (uchar c) \<and> c \<noteq> CHR 0x22" by blast
      then obtain s' where "s = c # s'" using False by (cases s) auto
      then show ?R using s by auto
    next
      assume ?R
      then obtain s rest where "suf = s @ CHR 0x22 # rest" "q = length ((pre @ [c]) @ s)" "\<not> bad (uchar c)"
        "\<forall>c \<in> set s. \<not> bad (uchar c) \<and> c \<noteq> CHR 0x22" by blast
      then show ?L using False by (intro exI[of _ "c # s"] exI[of _ rest]) simp
    qed
    ultimately show ?thesis using Cons[of "pre @ [c]"] by simp
  qed
qed

text \<open>The texts the scanner accepts as a value, with the rendering they stand for.\<close>

definition value_text :: "nat \<Rightarrow> bool \<Rightarrow> string \<Rightarrow> string \<Rightarrow> bool" where
  "value_text key_type utf8 t r \<longleftrightarrow>
     (if is_integer_type key_type
      then (\<exists>v. integer_in_range key_type v \<and> r = render_integer v) \<and> (t = r \<or> t = CHR 0x22 # r @ [CHR 0x22])
      else utf8 \<and> t = CHR 0x22 # r @ [CHR 0x22] \<and> valid_utf8 r \<and>
        (\<forall>c \<in> set r. \<not> bad_string_byte (uchar c) \<and> c \<noteq> CHR 0x22))"

lemma guard_Some [simp]: "guard b = Some u \<longleftrightarrow> b" "guard True = Some ()"
  by (auto simp: guard_def)

lemma render_integer_head: "render_integer v \<noteq> []" "hd (render_integer v) \<noteq> CHR 0x22" "\<not> is_json_space (hd (render_integer v))"
proof -
  have "is_digit c \<Longrightarrow> c \<noteq> CHR 0x22 \<and> \<not> is_json_space c" for c by (auto simp: is_digit_def is_json_space_def)
  then have "hd (write_decimal n) \<noteq> CHR 0x22 \<and> \<not> is_json_space (hd (write_decimal n))" for n
    using write_decimal_digits[of "hd (write_decimal n)" n] by auto
  then show "render_integer v \<noteq> []" "hd (render_integer v) \<noteq> CHR 0x22" "\<not> is_json_space (hd (render_integer v))"
    by (auto simp: render_integer_eq is_json_space_def)
qed

lemma scan_integer_sound:
  assumes "scan_integer_value (pre @ suf) (length pre) kt = Some (p, r)" "is_integer_type kt"
  obtains t rest where "suf = t @ rest" "p = length (pre @ t)" "value_text kt u t r"
proof (cases "suf \<noteq> [] \<and> hd suf = CHR 0x22")
  case True
  then obtain suf' where suf: "suf = CHR 0x22 # suf'" by (cases suf) auto
  then obtain q where q: "parse_json_integer ((pre @ [CHR 0x22]) @ suf') (length (pre @ [CHR 0x22])) kt = Some (q, r)"
    "expect_char (pre @ suf) (CHR 0x22) q = Some p"
    using assms(1) by (auto simp: scan_integer_value_def Let_def bind_eq_Some_conv)
  obtain v rest where v: "suf' = r @ rest" "r = render_integer v" "q = length (pre @ [CHR 0x22]) + length r"
    "integer_in_range kt v" by (rule parse_integer_sound[OF q(1)])
  have "expect_char ((pre @ CHR 0x22 # r) @ rest) (CHR 0x22) (length (pre @ CHR 0x22 # r)) = Some p"
    using q(2) suf v(1,3) by simp
  then obtain rest' where "rest = CHR 0x22 # rest'" "p = Suc (length (pre @ CHR 0x22 # r))"
    unfolding expect_iff by (cases rest) auto
  then show thesis
    using that[of "CHR 0x22 # r @ [CHR 0x22]" rest'] suf v assms(2) by (auto simp: value_text_def)
next
  case False
  then have nq: "\<not> (length pre < length (pre @ suf) \<and> (pre @ suf) ! length pre = CHR 0x22)"
    by (cases suf) auto
  then have "parse_json_integer (pre @ suf) (length pre) kt = Some (p, r)"
    using assms(1) unfolding scan_integer_value_def Let_def by (auto simp: bind_eq_Some_conv)
  then obtain v rest where v: "suf = r @ rest" "r = render_integer v" "p = length pre + length r" "integer_in_range kt v"
    by (rule parse_integer_sound)
  then show thesis using that[of r rest] assms(2) by (auto simp: value_text_def)
qed

lemma scan_integer_complete:
  assumes "value_text kt u t r" "is_integer_type kt" "rest = [] \<or> \<not> is_digit (hd rest)"
  shows "scan_integer_value (pre @ t @ rest) (length pre) kt = Some (length (pre @ t), r)"
proof -
  obtain v where v: "integer_in_range kt v" "r = render_integer v" "t = r \<or> t = CHR 0x22 # r @ [CHR 0x22]"
    using assms(1,2) by (auto simp: value_text_def)
  show ?thesis
  proof (cases "t = r")
    case True
    then obtain c r' where "r = c # r'" "c \<noteq> CHR 0x22" using render_integer_head(1,2)[of v] v(2) by (metis list.sel(1) neq_Nil_conv)
    then have nq: "\<not> (length pre < length (pre @ t @ rest) \<and> (pre @ t @ rest) ! length pre = CHR 0x22)"
      using True by simp
    then show ?thesis using parse_integer_complete[OF v(1) assms(3), of pre] True v(2)
      by (auto simp: scan_integer_value_def Let_def)
  next
    case False
    then have t: "t = CHR 0x22 # r @ [CHR 0x22]" using v(3) by simp
    have "parse_json_integer ((pre @ [CHR 0x22]) @ render_integer v @ CHR 0x22 # rest) (length (pre @ [CHR 0x22])) kt
        = Some (length (pre @ [CHR 0x22]) + length (render_integer v), render_integer v)"
      by (rule parse_integer_complete[OF v(1)]) (simp add: is_digit_def)
    moreover have "expect_char ((pre @ CHR 0x22 # r) @ CHR 0x22 # rest) (CHR 0x22) (length (pre @ CHR 0x22 # r))
        = Some (Suc (length (pre @ CHR 0x22 # r)))" unfolding expect_iff by simp
    ultimately show ?thesis using t v(2) by (simp add: scan_integer_value_def Let_def)
  qed
qed

lemma scan_string_iff:
  assumes "\<not> is_integer_type kt"
  shows "scan_string_value (pre @ suf) (length pre) = Some (p, r) \<longleftrightarrow>
    (\<exists>t rest. suf = t @ rest \<and> p = length (pre @ t) \<and> value_text kt True t r)"
proof
  assume "scan_string_value (pre @ suf) (length pre) = Some (p, r)"
  then obtain st en where st: "expect_char (pre @ suf) (CHR 0x22) (length pre) = Some st"
    and en: "scan_quoted bad_string_byte (pre @ suf) st = Some en"
    and r: "r = take (en - st) (drop st (pre @ suf))" "valid_utf8 r" "p = en + 1"
    by (auto simp: scan_string_value_def bind_eq_Some_conv Let_def)
  obtain suf' where suf: "suf = CHR 0x22 # suf'" "st = length (pre @ [CHR 0x22])"
    using st unfolding expect_iff by (cases suf) auto
  have "scan_quoted bad_string_byte ((pre @ [CHR 0x22]) @ suf') (length (pre @ [CHR 0x22])) = Some en"
    using en suf by simp
  then obtain s rest where s: "suf' = s @ CHR 0x22 # rest" "en = length ((pre @ [CHR 0x22]) @ s)"
    "\<forall>c \<in> set s. \<not> bad_string_byte (uchar c) \<and> c \<noteq> CHR 0x22" unfolding scan_quoted_iff by blast
  have "r = s" using r(1) s suf by simp
  then have "value_text kt True (CHR 0x22 # s @ [CHR 0x22]) r" using assms s(3) r(2) by (simp add: value_text_def)
  moreover have "suf = (CHR 0x22 # s @ [CHR 0x22]) @ rest" "p = length (pre @ CHR 0x22 # s @ [CHR 0x22])"
    using s(1,2) suf(1) r(3) by simp_all
  ultimately show "\<exists>t rest. suf = t @ rest \<and> p = length (pre @ t) \<and> value_text kt True t r" by blast
next
  assume "\<exists>t rest. suf = t @ rest \<and> p = length (pre @ t) \<and> value_text kt True t r"
  then obtain rest where suf: "suf = CHR 0x22 # r @ CHR 0x22 # rest" "p = length pre + length r + 2"
    and r: "valid_utf8 r" "\<forall>c \<in> set r. \<not> bad_string_byte (uchar c) \<and> c \<noteq> CHR 0x22"
    using assms by (auto simp: value_text_def)
  have "scan_quoted bad_string_byte ((pre @ [CHR 0x22]) @ r @ CHR 0x22 # rest) (length (pre @ [CHR 0x22])) =
      Some (length ((pre @ [CHR 0x22]) @ r))"
    unfolding scan_quoted_iff using r(2) by blast
  then show "scan_string_value (pre @ suf) (length pre) = Some (p, r)"
    using suf r(1) by (simp add: scan_string_value_def expect_char_def)
qed

text \<open>Both value branches as one step of the scanner.\<close>

definition scan_value :: "nat \<Rightarrow> bool \<Rightarrow> string \<Rightarrow> nat \<Rightarrow> (nat \<times> string) option" where
  "scan_value kt utf8 input p =
     (if is_integer_type kt then scan_integer_value input p kt
      else if utf8 then scan_string_value input p else None)"

lemma scan_value_sound:
  assumes "scan_value kt u (pre @ suf) (length pre) = Some (p, r)"
  obtains t rest where "suf = t @ rest" "p = length (pre @ t)" "value_text kt u t r"
  using assms scan_integer_sound[of pre suf kt p r u] scan_string_iff[of kt pre suf p r]
  by (auto simp: scan_value_def split: if_splits)

lemma scan_value_complete:
  assumes "value_text kt u t r" "rest = [] \<or> \<not> is_digit (hd rest)"
  shows "scan_value kt u (pre @ t @ rest) (length pre) = Some (length (pre @ t), r)"
proof (cases "is_integer_type kt")
  case True
  then show ?thesis using scan_integer_complete[OF assms(1) True assms(2), of pre] by (simp add: scan_value_def)
next
  case False
  then have "u" using assms(1) by (simp add: value_text_def)
  then show ?thesis using False scan_string_iff[OF False, of pre "t @ rest" "length (pre @ t)" r] assms(1)
    by (auto simp: scan_value_def)
qed

lemma value_text_head: "value_text kt u t r \<Longrightarrow> t \<noteq> [] \<and> \<not> is_json_space (hd t)"
  using render_integer_head by (auto simp: value_text_def is_json_space_def split: if_splits)

lemma scan_unfold:
  "pglc_key_scan_json_single input column kt typmod u cap = Some key \<longleftrightarrow>
    column \<noteq> [] \<and> cap \<noteq> 0 \<and> scan_type_supported kt typmod \<and> plain_column column \<and>
    (\<exists>p1 p2 p3 p4 p5 p6 r. expect_char input (CHR ''{'') (skip_json_space input 0) = Some p1 \<and>
      expect_char input (CHR 0x22) (skip_json_space input p1) = Some p2 \<and>
      scan_quoted bad_name_byte input p2 = Some p3 \<and> p3 - p2 = length column \<and>
      take (length column) (drop p2 input) = column \<and>
      expect_char input (CHR '':'') (skip_json_space input (p3 + 1)) = Some p4 \<and>
      scan_value kt u input (skip_json_space input p4) = Some (p5, r) \<and>
      expect_char input (CHR ''}'') (skip_json_space input p5) = Some p6 \<and>
      skip_json_space input p6 = length input \<and>
      length (write_component r) < 1024 \<and> length (write_component r) < cap \<and> key = write_component r)"
proof -
  have len: "decimal_length (length r) + 1 + length r + 1 = length (write_component r)" for r
    by (simp add: decimal_length_eq write_component_def)
  have val: "guard (u \<or> is_integer_type kt) \<bind> (\<lambda>_. (if is_integer_type kt then scan_integer_value input p kt
      else scan_string_value input p) \<bind> f) = scan_value kt u input p \<bind> f" for p and f :: "nat \<times> string \<Rightarrow> string option"
    by (auto simp: scan_value_def guard_def)
  show ?thesis
    unfolding pglc_key_scan_json_single_def Let_def len val
    by (auto simp: bind_eq_Some_conv not_le)
qed

text \<open>An accepted input is one JSON object with the column as its only name, and the key
  is the encoding of the rendering of its value.\<close>

definition single_object :: "string \<Rightarrow> string \<Rightarrow> string \<Rightarrow> bool" where
  "single_object input column t \<longleftrightarrow> (\<exists>w1 w2 w3 w4 w5 w6.
     (\<forall>c \<in> set (w1 @ w2 @ w3 @ w4 @ w5 @ w6). is_json_space c) \<and>
     input = w1 @ ''{'' @ w2 @ [CHR 0x22] @ column @ [CHR 0x22] @ w3 @ '':'' @ w4 @ t @ w5 @ ''}'' @ w6)"

lemma token_split:
  assumes "expect_char input c (skip_json_space input p) = Some q" "input = pre @ suf" "p = length pre"
  obtains w suf' where "input = (pre @ w @ [c]) @ suf'" "q = length (pre @ w @ [c])" "\<forall>x \<in> set w. is_json_space x"
proof -
  obtain w suf' where w: "suf = w @ suf'" "skip_json_space (pre @ suf) (length pre) = length (pre @ w)"
    "\<forall>c \<in> set w. is_json_space c" by (rule skip_split[of suf pre])
  have e: "expect_char ((pre @ w) @ suf') c (length (pre @ w)) = Some q" using assms w(1,2) by simp
  show thesis
  proof (cases suf')
    case Nil
    then show ?thesis using e unfolding expect_iff by simp
  next
    case (Cons d rest)
    then have "d = c" "q = Suc (length (pre @ w))" using e unfolding expect_iff by simp_all
    then show ?thesis using that[of w rest] w Cons assms(2) by simp
  qed
qed

lemma scan_sound:
  assumes "pglc_key_scan_json_single input column kt typmod u cap = Some key"
  obtains t r where "single_object input column t" "value_text kt u t r" "key = write_component r"
    "length key < 1024" "length key < cap"
proof -
  obtain p1 p2 p3 p4 p5 p6 r where
    s: "expect_char input (CHR ''{'') (skip_json_space input 0) = Some p1"
      "expect_char input (CHR 0x22) (skip_json_space input p1) = Some p2"
      "scan_quoted bad_name_byte input p2 = Some p3" "p3 - p2 = length column"
      "take (length column) (drop p2 input) = column"
      "expect_char input (CHR '':'') (skip_json_space input (p3 + 1)) = Some p4"
      "scan_value kt u input (skip_json_space input p4) = Some (p5, r)"
      "expect_char input (CHR ''}'') (skip_json_space input p5) = Some p6"
      "skip_json_space input p6 = length input"
    and key: "key = write_component r" "length key < 1024" "length key < cap"
    using assms unfolding scan_unfold by blast
  obtain w1 s1 where 1: "input = (w1 @ ''{'') @ s1" "p1 = length (w1 @ ''{'')" "\<forall>x \<in> set w1. is_json_space x"
    by (rule token_split[OF s(1), of "[]" input]) simp_all
  define pre1 where "pre1 = w1 @ ''{''"
  obtain w2 s2 where 2: "input = (pre1 @ w2 @ [CHR 0x22]) @ s2" "p2 = length (pre1 @ w2 @ [CHR 0x22])"
    "\<forall>x \<in> set w2. is_json_space x"
    by (rule token_split[OF s(2), of pre1 s1]) (simp_all add: 1 pre1_def)
  define pre2 where "pre2 = pre1 @ w2 @ [CHR 0x22]"
  have "scan_quoted bad_name_byte (pre2 @ s2) (length pre2) = Some p3"
    using s(3) 2(1,2) by (simp add: pre2_def)
  then obtain nm s3 where 3: "s2 = nm @ CHR 0x22 # s3" "p3 = length (pre2 @ nm)" unfolding scan_quoted_iff by blast
  have "nm = column" using s(4,5) 2(1,2) 3 by (simp add: pre2_def)
  define pre3 where "pre3 = pre2 @ column @ [CHR 0x22]"
  have in3: "input = pre3 @ s3" "p3 + 1 = length pre3" using 2(1) 3 \<open>nm = column\<close> by (simp_all add: pre2_def pre3_def)
  obtain w3 s4 where 4: "input = (pre3 @ w3 @ '':'') @ s4" "p4 = length (pre3 @ w3 @ '':'')" "\<forall>x \<in> set w3. is_json_space x"
    by (rule token_split[OF s(6) in3]) simp_all
  define pre4 where "pre4 = pre3 @ w3 @ '':''"
  obtain w4 s5 where 5: "s4 = w4 @ s5" "skip_json_space (pre4 @ s4) (length pre4) = length (pre4 @ w4)"
    "\<forall>c \<in> set w4. is_json_space c" by (rule skip_split[of s4 pre4])
  have "scan_value kt u ((pre4 @ w4) @ s5) (length (pre4 @ w4)) = Some (p5, r)"
    using s(7) 4(1,2) 5(1,2) by (simp add: pre4_def)
  then obtain t s6 where 6: "s5 = t @ s6" "p5 = length ((pre4 @ w4) @ t)" "value_text kt u t r"
    by (rule scan_value_sound)
  define pre5 where "pre5 = (pre4 @ w4) @ t"
  have in5: "input = pre5 @ s6" "p5 = length pre5" using 4(1) 5(1) 6(1,2) by (simp_all add: pre4_def pre5_def)
  obtain w5 s7 where 7: "input = (pre5 @ w5 @ ''}'') @ s7" "p6 = length (pre5 @ w5 @ ''}'')" "\<forall>x \<in> set w5. is_json_space x"
    by (rule token_split[OF s(8) in5]) simp_all
  define pre6 where "pre6 = pre5 @ w5 @ ''}''"
  obtain w6 s8 where 8: "s7 = w6 @ s8" "skip_json_space (pre6 @ s7) (length pre6) = length (pre6 @ w6)"
    "\<forall>c \<in> set w6. is_json_space c" by (rule skip_split[of s7 pre6])
  have "s8 = []" using 8(1,2) s(9) 7(1,2) by (simp add: pre6_def)
  then have whole: "input = w1 @ ''{'' @ w2 @ [CHR 0x22] @ column @ [CHR 0x22] @ w3 @ '':'' @ w4 @ t @ w5 @ ''}'' @ w6"
    using 7(1) 8(1) by (simp add: pre5_def pre4_def pre3_def pre2_def pre1_def)
  have "\<forall>c \<in> set (w1 @ w2 @ w3 @ w4 @ w5 @ w6). is_json_space c"
    unfolding set_append ball_Un using 1(3) 2(3) 4(3) 5(3) 7(3) 8(3) by blast
  then have "single_object input column t" unfolding single_object_def using whole by blast
  then show thesis using that 6(3) key by blast
qed

text \<open>Conversely every such text is accepted, whatever its white space.\<close>

lemma token_at:
  assumes "\<forall>x \<in> set w. is_json_space x" "\<not> is_json_space c"
  shows "expect_char (pre @ w @ c # suf) c (skip_json_space (pre @ w @ c # suf) (length pre)) = Some (length (pre @ w @ [c]))"
proof -
  have "skip_json_space (pre @ w @ c # suf) (length pre) = length (pre @ w)"
    by (rule skip_at[OF assms(1)]) (simp add: assms(2))
  moreover have "expect_char ((pre @ w) @ c # suf) c (length (pre @ w)) = Some (Suc (length (pre @ w)))"
    unfolding expect_iff by simp
  ultimately show ?thesis by simp
qed

lemma space_not_digit: "is_json_space c \<Longrightarrow> \<not> is_digit c"
  by (auto simp: is_digit_def is_json_space_def)

lemma plain_column_bytes:
  assumes "plain_column column" "c \<in> set column"
  shows "\<not> bad_name_byte (uchar c) \<and> c \<noteq> CHR 0x22"
proof -
  have c: "\<not> uchar c < 0x21" "\<not> 0x7e < uchar c" "c \<noteq> CHR 0x22" "c \<noteq> CHR 0x5c"
    using assms unfolding plain_column_def list_all_iff by blast+
  have "uchar c \<noteq> uchar (CHR 0x5c)" using c(4) by (metis char_of_char)
  then have "uchar c \<noteq> 0x5c" by simp
  then show ?thesis using c(1-3) unfolding bad_name_byte_def by linarith
qed

lemma scan_complete:
  assumes obj: "single_object input column t" and val: "value_text kt u t r"
    and col: "column \<noteq> []" "plain_column column" and ty: "scan_type_supported kt typmod"
    and fits: "length (write_component r) < 1024" "length (write_component r) < cap"
  shows "pglc_key_scan_json_single input column kt typmod u cap = Some (write_component r)"
proof -
  obtain w1 w2 w3 w4 w5 w6 where sp: "\<forall>c \<in> set w1. is_json_space c" "\<forall>c \<in> set w2. is_json_space c"
      "\<forall>c \<in> set w3. is_json_space c" "\<forall>c \<in> set w4. is_json_space c" "\<forall>c \<in> set w5. is_json_space c"
      "\<forall>c \<in> set w6. is_json_space c"
    and input: "input = w1 @ ''{'' @ w2 @ [CHR 0x22] @ column @ [CHR 0x22] @ w3 @ '':'' @ w4 @ t @ w5 @ ''}'' @ w6"
    using obj unfolding single_object_def set_append ball_Un by blast
  have punct: "\<not> is_json_space (CHR ''{'')" "\<not> is_json_space (CHR 0x22)" "\<not> is_json_space (CHR '':'')"
    "\<not> is_json_space (CHR ''}'')" by (simp_all add: is_json_space_def)
  define pre1 where "pre1 = w1 @ ''{''"
  define pre2 where "pre2 = pre1 @ w2 @ [CHR 0x22]"
  define pre3 where "pre3 = pre2 @ column @ [CHR 0x22]"
  define pre4 where "pre4 = pre3 @ w3 @ '':''"
  define pre5 where "pre5 = (pre4 @ w4) @ t"
  define pre6 where "pre6 = pre5 @ w5 @ ''}''"
  define s5 where "s5 = w5 @ CHR ''}'' # w6"
  define s4 where "s4 = w4 @ t @ s5"
  define s3 where "s3 = w3 @ CHR '':'' # s4"
  define s2 where "s2 = column @ CHR 0x22 # s3"
  define s1 where "s1 = w2 @ CHR 0x22 # s2"
  have i: "input = [] @ w1 @ CHR ''{'' # s1" "input = pre1 @ w2 @ CHR 0x22 # s2"
    "input = pre2 @ column @ CHR 0x22 # s3" "input = pre3 @ w3 @ CHR '':'' # s4"
    "input = pre4 @ w4 @ t @ s5" "input = (pre4 @ w4) @ t @ s5"
    "input = pre5 @ w5 @ CHR ''}'' # w6" "input = pre6 @ w6"
    unfolding input pre6_def pre5_def pre4_def pre3_def pre2_def pre1_def
      s1_def s2_def s3_def s4_def s5_def by simp_all
  have "expect_char input (CHR ''{'') (skip_json_space input 0) = Some (length pre1)"
    using token_at[OF sp(1) punct(1), of "[]" "s1"] unfolding i(1)[symmetric] by (simp add: pre1_def)
  moreover have "expect_char input (CHR 0x22) (skip_json_space input (length pre1)) = Some (length pre2)"
    using token_at[OF sp(2) punct(2), of pre1 "s2"] unfolding i(2)[symmetric] by (simp add: pre2_def)
  moreover have "scan_quoted bad_name_byte input (length pre2) = Some (length (pre2 @ column))"
  proof -
    have "\<forall>c \<in> set column. \<not> bad_name_byte (uchar c) \<and> c \<noteq> CHR 0x22"
      using plain_column_bytes[OF col(2)] by blast
    then show ?thesis
      using scan_quoted_iff[of bad_name_byte pre2 "column @ CHR 0x22 # s3" "length (pre2 @ column)"]
      unfolding i(3)[symmetric] by blast
  qed
  moreover have "take (length column) (drop (length pre2) input) = column" by (subst i(3)) simp
  moreover have "expect_char input (CHR '':'') (skip_json_space input (length (pre2 @ column) + 1)) = Some (length pre4)"
    using token_at[OF sp(3) punct(3), of pre3 "s4"] unfolding i(4)[symmetric]
    by (simp add: pre4_def pre3_def)
  moreover have "scan_value kt u input (skip_json_space input (length pre4)) = Some (length pre5, r)"
  proof -
    have "skip_json_space input (length pre4) = length (pre4 @ w4)"
      using skip_at[OF sp(4), of "t @ s5" pre4] value_text_head[OF val] unfolding i(5)[symmetric] by simp
    moreover have "\<not> is_digit (hd s5)"
    proof (cases w5)
      case Nil
      then show ?thesis by (simp add: s5_def is_digit_def)
    next
      case (Cons c cs)
      then show ?thesis using sp(5) space_not_digit[of c] by (simp add: s5_def)
    qed
    then have "scan_value kt u input (length (pre4 @ w4)) = Some (length pre5, r)"
      using scan_value_complete[OF val, of "s5" "pre4 @ w4"] unfolding i(6)[symmetric]
      by (simp add: pre5_def)
    ultimately show ?thesis by simp
  qed
  moreover have "expect_char input (CHR ''}'') (skip_json_space input (length pre5)) = Some (length pre6)"
    using token_at[OF sp(5) punct(4), of pre5 w6] unfolding i(7)[symmetric] by (simp add: pre6_def)
  moreover have "skip_json_space input (length pre6) = length input"
    using skip_at[OF sp(6), of "[]" pre6] i(8) by simp
  moreover have "length (pre2 @ column) - length pre2 = length column" "cap \<noteq> 0" using fits(2) by simp_all
  ultimately show ?thesis unfolding scan_unfold using col ty fits by blast
qed

section \<open>Properties\<close>

lemma strlen_clean: "CHR 0x00 \<notin> set s \<Longrightarrow> strlen s = length s"
proof -
  assume "CHR 0x00 \<notin> set s"
  then have "takeWhile (\<lambda>c. c \<noteq> CHR 0x00) s = s" unfolding takeWhile_eq_all_conv by blast
  then show ?thesis unfolding strlen_def by (simp only:)
qed

lemma render_integer_clean: "CHR 0x00 \<notin> set (render_integer v)"
  using write_decimal_digits[of "CHR 0x00"] by (auto simp: render_integer_eq is_digit_def)

lemma value_text_clean:
  assumes "value_text kt u t r"
  shows "CHR 0x00 \<notin> set r"
proof (cases "is_integer_type kt")
  case True
  then show ?thesis using assms render_integer_clean unfolding value_text_def by auto
next
  case False
  then have "\<forall>c \<in> set r. \<not> bad_string_byte (uchar c)" using assms unfolding value_text_def by simp
  moreover have "bad_string_byte (uchar (CHR 0x00))" by (simp add: bad_string_byte_def)
  ultimately show ?thesis by blast
qed

text \<open>The integer a datum of an integer key column holds.\<close>

definition int_of_datum :: "'d pg_types \<Rightarrow> nat \<Rightarrow> 'd \<Rightarrow> int" where
  "int_of_datum pg kt d =
     (if kt = PGLC_KEY_SCAN_INT2OID then DatumGetInt16 pg d
      else if kt = PGLC_KEY_SCAN_INT4OID then DatumGetInt32 pg d else DatumGetInt64 pg d)"

lemma component_bytes_plain:
  assumes "render_datum pg kts outs c d = r" "CHR 0x00 \<notin> set r" "fn_oid (outs ! c) \<noteq> F_BPCHAROUT pg"
  shows "component_bytes pg kts outs c d = r"
  using assms by (simp add: component_bytes_def strlen_clean Let_def)

text \<open>The values used in the examples: integer datums, and output functions that return
  the text of a string datum.\<close>

definition demo_pg :: "int pg_types" where
  "demo_pg = \<lparr>DatumGetInt16 = id, DatumGetInt32 = id, DatumGetInt64 = id,
     pg_ltoa = render_integer, pg_lltoa = render_integer, F_BPCHAROUT = 1045\<rparr>"

definition demo_out :: "int FmgrInfo" where
  "demo_out = \<lparr>fn_oid = 43, fn_call = render_integer\<rparr>"

lemma render_integer_7: "render_integer 7 = ''7''"
proof -
  have "digit_char 7 = CHR ''7''" using digit_char_uchar[of "CHR ''7''"] by (simp add: is_digit_def)
  then show ?thesis by (simp add: render_integer_def reversed_digits.simps)
qed

lemma write_component_7: "write_component ''7'' = ''1:7;''"
proof -
  have "digit_char 1 = CHR ''1''" using digit_char_uchar[of "CHR ''1''"] by (simp add: is_digit_def)
  then show ?thesis by (simp add: write_component_def write_decimal_rev reversed_digits.simps)
qed

text \<open>C21: composite keys never alias. If two calls of the typed encoder produce the same key,
  they encoded the same number of columns and the same bytes in every column, whatever
  separators the rendered values contain.\<close>

theorem canonical_key_injective:
  assumes "pglc_canonical_key_typed pg vals nulls n kts outs cap = Some key"
    and "pglc_canonical_key_typed pg' vals' nulls' n' kts' outs' cap' = Some key"
  shows "n = n' \<and> (\<forall>c < nat n. component_bytes pg kts outs c (vals ! c) = component_bytes pg' kts' outs' c (vals' ! c))"
proof -
  let ?f = "\<lambda>c. component_bytes pg kts outs c (vals ! c)"
  let ?g = "\<lambda>c. component_bytes pg' kts' outs' c (vals' ! c)"
  have "encode_key (map ?f [0..<nat n]) = encode_key (map ?g [0..<nat n'])" "0 < n" "0 < n'"
    using assms unfolding canonical_key_eq by (auto simp: Let_def split: if_splits)
  then have eq: "map ?f [0..<nat n] = map ?g [0..<nat n']" and pos: "0 < n" "0 < n'"
    using encode_key_inj by blast+
  have "nat n = nat n'" using arg_cong[OF eq, of length] by simp
  moreover have "?f c = ?g c" if "c < nat n" for c
    using arg_cong[OF eq, of "\<lambda>l. l ! c"] that \<open>nat n = nat n'\<close> by simp
  ultimately show ?thesis using pos by simp
qed

theorem canonical_key_injective_witness:
  "pglc_canonical_key_typed demo_pg [7] [False] 1 (Some [23]) [demo_out] 1024 = Some ''1:7;'' \<and>
   (1 :: int) = 1 \<and> component_bytes demo_pg (Some [23]) [demo_out] 0 7 = component_bytes demo_pg (Some [20]) [demo_out] 0 7"
proof -
  have r: "component_bytes demo_pg (Some [t]) [demo_out] 0 7 = ''7''" if "t = 20 \<or> t = 23" for t
    using that render_integer_7 by (intro component_bytes_plain) (auto simp: demo_pg_def demo_out_def render_datum_def)
  have k: "pglc_canonical_key_typed demo_pg [7] [False] 1 (Some [t]) [demo_out] 1024 = Some ''1:7;''" if "t = 20 \<or> t = 23" for t
    using r[OF that] by (simp add: canonical_key_eq write_component_7 Let_def)
  show ?thesis using canonical_key_injective[OF k[of 23] k[of 20]] k[of 23] by simp
qed

text \<open>C22: the typed encoder succeeds exactly when the column count is 1 to 16, no column is
  null, and the encoded key is shorter than the key limit and the destination; then it
  writes the length-prefixed columns in order and nothing else.\<close>

theorem canonical_key_exact:
  "pglc_canonical_key_typed pg vals nulls n kts outs capacity =
    (let key = concat (map (\<lambda>c. write_component (component_bytes pg kts outs c (vals ! c))) [0..<nat n])
     in if 1 \<le> n \<and> n \<le> 16 \<and> \<not> (\<exists>c < nat n. nulls ! c) \<and> length key < PGLC_KEY_MAX \<and> length key < capacity
        then Some key else None)"
  unfolding canonical_key_eq by (auto simp: encode_key_def comp_def Let_def)

text \<open>C23: the fast scanner accepts exactly the JSON objects with the mapped column as their
  only member, arbitrary white space, and a value that is an integer in the column's
  range (bare or quoted, in its only canonical spelling) or an unescaped UTF-8 string;
  its result is the length-prefixed rendering of that value, within the key limit.\<close>

theorem key_scan_exact:
  "pglc_key_scan_json_single input column kt typmod u cap = Some key \<longleftrightarrow>
    column \<noteq> [] \<and> plain_column column \<and> scan_type_supported kt typmod \<and>
    (\<exists>t r. single_object input column t \<and> value_text kt u t r \<and> key = write_component r \<and>
      length key < 1024 \<and> length key < cap)"
  (is "?L \<longleftrightarrow> ?R")
proof
  assume L: ?L
  then have "column \<noteq> []" "plain_column column" "scan_type_supported kt typmod" unfolding scan_unfold by blast+
  moreover obtain t r where "single_object input column t" "value_text kt u t r" "key = write_component r"
    "length key < 1024" "length key < cap" by (rule scan_sound[OF L])
  ultimately show ?R by blast
next
  assume ?R
  then show ?L using scan_complete by blast
qed

text \<open>C24: the fast scanner and the typed encoder agree. When the scanner accepts an integer
  key, the key is the one the typed encoder gives for any datum of the scanned value,
  provided PostgreSQL formats integers in decimal; for text keys, for any datum whose
  output function returns the scanned string.\<close>

theorem key_scan_agrees:
  assumes "pglc_key_scan_json_single input column kt typmod u cap = Some key"
    and "pg_ltoa pg = render_integer" "pg_lltoa pg = render_integer" "fn_oid out \<noteq> F_BPCHAROUT pg"
  shows "\<exists>t. single_object input column t \<and>
    (if is_integer_type kt
     then \<exists>v. integer_in_range kt v \<and> (t = render_integer v \<or> t = CHR 0x22 # render_integer v @ [CHR 0x22]) \<and>
       (\<forall>d. int_of_datum pg kt d = v \<longrightarrow>
         pglc_canonical_key_typed pg [d] [False] 1 (Some [kt]) [out] cap = Some key)
     else \<exists>r. t = CHR 0x22 # r @ [CHR 0x22] \<and>
       (\<forall>d. fn_call out d = r \<longrightarrow>
         pglc_canonical_key_typed pg [d] [False] 1 (Some [kt]) [out] cap = Some key))"
proof -
  obtain t r where s: "single_object input column t" "value_text kt u t r" "key = write_component r"
    "length key < 1024" "length key < cap" by (rule scan_sound[OF assms(1)])
  have typed: "pglc_canonical_key_typed pg [d] [False] 1 (Some [kt]) [out] cap = Some key"
    if "render_datum pg (Some [kt]) [out] 0 d = r" for d
    using component_bytes_plain[OF that value_text_clean[OF s(2)]] assms(4) s(3-5)
    by (simp add: canonical_key_eq Let_def)
  show ?thesis
  proof (cases "is_integer_type kt")
    case True
    then obtain v where v: "integer_in_range kt v" "r = render_integer v" "t = r \<or> t = CHR 0x22 # r @ [CHR 0x22]"
      using s(2) unfolding value_text_def by auto
    have "render_datum pg (Some [kt]) [out] 0 d = r" if "int_of_datum pg kt d = v" for d
      using that True v(2) assms(2,3) by (auto simp: render_datum_def int_of_datum_def is_integer_type_def)
    then have "\<forall>d. int_of_datum pg kt d = v \<longrightarrow>
        pglc_canonical_key_typed pg [d] [False] 1 (Some [kt]) [out] cap = Some key" using typed by blast
    then show ?thesis unfolding if_P[OF True] using s(1) v by blast
  next
    case False
    then have t: "t = CHR 0x22 # r @ [CHR 0x22]" using s(2) unfolding value_text_def by simp
    have "render_datum pg (Some [kt]) [out] 0 d = r" if "fn_call out d = r" for d
      using that False by (simp add: render_datum_def is_integer_type_def)
    then show ?thesis unfolding if_not_P[OF False] using typed s(1) t by blast
  qed
qed

theorem key_scan_agrees_witness:
  "pglc_key_scan_json_single (''{'' @ [CHR 0x22] @ ''a'' @ [CHR 0x22] @ '':7}'') ''a'' 23 (-1) True 1024 = Some ''1:7;'' \<and>
   (\<exists>v. \<forall>d. d = v \<longrightarrow> pglc_canonical_key_typed demo_pg [d] [False] 1 (Some [23]) [demo_out] 1024 = Some ''1:7;'')"
proof -
  let ?in = "''{'' @ [CHR 0x22] @ ''a'' @ [CHR 0x22] @ '':7}''"
  have "single_object ?in ''a'' ''7''"
    unfolding single_object_def by (intro exI[of _ "[]"]) simp
  moreover have "value_text 23 True ''7'' ''7''"
    using render_integer_7 by (auto simp: value_text_def is_integer_type_def integer_in_range_def integer_limit_def intro!: exI[of _ 7])
  ultimately have scan: "pglc_key_scan_json_single ?in ''a'' 23 (-1) True 1024 = Some ''1:7;''"
    using scan_complete[of ?in "''a''" "''7''" 23 True "''7''" "-1" 1024] write_component_7
    by (simp add: plain_column_def scan_type_supported_def)
  have pg: "pg_ltoa demo_pg = render_integer" "pg_lltoa demo_pg = render_integer" "fn_oid demo_out \<noteq> F_BPCHAROUT demo_pg"
    "int_of_datum demo_pg 23 d = d" "is_integer_type 23" for d
    by (simp_all add: demo_pg_def demo_out_def int_of_datum_def is_integer_type_def)
  show ?thesis using key_scan_agrees[OF scan pg(1-3)] scan unfolding if_P[OF pg(5)] pg(4) by blast
qed

text \<open>C25: \<open>valid_utf8\<close> accepts exactly the UTF-8 encodings of sequences of Unicode scalar
  values other than U+0000: no overlong forms, no surrogates, nothing above U+10FFFF.\<close>

theorem valid_utf8_exact:
  "valid_utf8 s \<longleftrightarrow> (\<exists>cps. list_all scalar_value cps \<and> s = concat (map utf8_encode cps))"
  unfolding valid_utf8_iff list_all_iff by (rule refl)

end
