(* ===== verification/Resp.thy ===== *)
theory Resp
  imports KeyCodec
begin

text \<open>
  The RESP2 codec of \<open>src/src/resp.c\<close>: the request parser of the socket worker and the
  response printers. The lemmas show that parsing inverts printing, that the verdict on a
  prefix of the input never changes when more bytes arrive (so the worker may parse
  after every read), that argument slices lie inside the consumed bytes, that printed
  lines cannot be split, and that the bounded writers never pass their limits.

  The decimal formats of \<open>snprintf\<close> are the digits of \<open>write_decimal\<close> and
  \<open>render_integer\<close>. PostgreSQL's case-insensitive comparison is a parameter.
\<close>

section \<open>Parser\<close>

abbreviation (input) PGLC_REQUEST_MAX :: nat where "PGLC_REQUEST_MAX \<equiv> 65536"
abbreviation (input) PGLC_MGET_MAX_KEYS :: nat where "PGLC_MGET_MAX_KEYS \<equiv> 1024"
abbreviation (input) PGLC_RESP_MAX_ARGS :: nat where "PGLC_RESP_MAX_ARGS \<equiv> 1026"
abbreviation (input) PG_INT64_MAX :: nat where "PG_INT64_MAX \<equiv> 9223372036854775807"

abbreviation CR :: char where "CR \<equiv> CHR 0x0D"
abbreviation LF :: char where "LF \<equiv> CHR 0x0A"

text \<open>The return values 0, -1 (with the message in \<open>*error\<close>) and 1.\<close>

datatype 'a resp_status = Incomplete | Failed string | Complete 'a

text \<open>An argument is a slice of the input buffer: its offset and its length.\<close>

record PgLocalCacheRespArg =
  arg_data :: nat
  arg_len :: nat

text \<open>The digit loop: the final position, the value and \<open>have_digit\<close>.\<close>

function decimal_line_loop :: "string \<Rightarrow> nat \<Rightarrow> nat \<Rightarrow> bool \<Rightarrow> string + nat \<times> nat \<times> bool" where
  "decimal_line_loop buffer i value have_digit =
     (if i < length buffer \<and> buffer ! i \<noteq> CR then
        if \<not> is_digit (buffer ! i) then Inl ''invalid decimal length''
        else let d = uchar (buffer ! i) - 48 in
          if (PG_INT64_MAX - d) div 10 < value then Inl ''decimal length overflow''
          else decimal_line_loop buffer (i + 1) (value * 10 + d) True
      else Inr (i, value, have_digit))"
  by pat_completeness auto
termination by (relation "measure (\<lambda>(b, i, v, h). length b - i)") auto

declare decimal_line_loop.simps [simp del]

definition parse_decimal_line :: "string \<Rightarrow> nat \<Rightarrow> (int \<times> nat) resp_status" where
  "parse_decimal_line buffer position =
     (if length buffer \<le> position then Incomplete
      else
        let negative = (buffer ! position = CHR ''-'');
            i = (if negative then position + 1 else position)
        in if negative \<and> length buffer \<le> i then Incomplete
        else case decimal_line_loop buffer i 0 False of
            Inl message \<Rightarrow> Failed message
          | Inr (j, value, have_digit) \<Rightarrow>
            if \<not> have_digit then Failed ''empty decimal length''
            else if length buffer \<le> j + 1 then Incomplete
            else if buffer ! j \<noteq> CR \<or> buffer ! (j + 1) \<noteq> LF then Failed ''expected CRLF''
            else Complete (if negative then - int value else int value, j + 2))"

text \<open>The loop over the arguments; \<open>n\<close> counts those still to read.\<close>

fun parse_args :: "string \<Rightarrow> nat \<Rightarrow> nat \<Rightarrow> PgLocalCacheRespArg list \<Rightarrow>
    (PgLocalCacheRespArg list \<times> nat) resp_status" where
  "parse_args buffer 0 position args = Complete (args, position)"
| "parse_args buffer (Suc n) position args =
     (if length buffer \<le> position then Incomplete
      else if buffer ! position \<noteq> CHR ''$'' then Failed ''command arguments must be bulk strings''
      else case parse_decimal_line buffer (position + 1) of
          Incomplete \<Rightarrow> Incomplete
        | Failed message \<Rightarrow> Failed message
        | Complete (argument_length, p) \<Rightarrow>
          if argument_length < 0 \<or> int PGLC_REQUEST_MAX < argument_length
          then Failed ''invalid bulk string length''
          else
            let len = nat argument_length in
            if length buffer < p + len + 2 then Incomplete
            else if buffer ! (p + len) \<noteq> CR \<or> buffer ! (p + len + 1) \<noteq> LF
            then Failed ''bulk string is not terminated by CRLF''
            else parse_args buffer n (p + len + 2) (args @ [\<lparr>arg_data = p, arg_len = len\<rparr>]))"

definition pglc_resp_parse :: "string \<Rightarrow> (PgLocalCacheRespArg list \<times> nat) resp_status" where
  "pglc_resp_parse buffer =
     (if buffer = [] then Incomplete
      else if buffer ! 0 \<noteq> CHR ''*'' then Failed ''only RESP2 arrays are accepted''
      else case parse_decimal_line buffer 1 of
          Incomplete \<Rightarrow> Incomplete
        | Failed message \<Rightarrow> Failed message
        | Complete (nargs, position) \<Rightarrow>
          if nargs \<le> 0 \<or> int PGLC_RESP_MAX_ARGS < nargs then Failed ''invalid argument count''
          else parse_args buffer (nat nargs) position [])"

definition arg_bytes :: "string \<Rightarrow> PgLocalCacheRespArg \<Rightarrow> string" where
  "arg_bytes buffer arg = take (arg_len arg) (drop (arg_data arg) buffer)"

definition pglc_resp_arg_equals ::
  "(string \<Rightarrow> string \<Rightarrow> bool) \<Rightarrow> string \<Rightarrow> PgLocalCacheRespArg \<Rightarrow> string \<Rightarrow> bool" where
  "pglc_resp_arg_equals strncasecmp_equal buffer arg literal \<longleftrightarrow>
     arg_len arg = strlen literal \<and>
     strncasecmp_equal (arg_bytes buffer arg) (take (strlen literal) literal)"

section \<open>Printers\<close>

definition line_response :: "char \<Rightarrow> string \<Rightarrow> string" where
  "line_response prefix message =
     prefix # map (\<lambda>ch. if ch = CR \<or> ch = LF then CHR '' '' else ch) (take (strlen message) message)
       @ [CR, LF]"

definition pglc_resp_simple :: "string \<Rightarrow> string" where
  "pglc_resp_simple message = line_response (CHR ''+'') message"

definition pglc_resp_error :: "string \<Rightarrow> string" where
  "pglc_resp_error message = line_response (CHR ''-'') message"

definition pglc_resp_integer :: "int \<Rightarrow> string" where
  "pglc_resp_integer value = CHR '':'' # render_integer value @ [CR, LF]"

definition bulk_header :: "nat \<Rightarrow> string" where
  "bulk_header n = CHR ''$'' # write_decimal n @ [CR, LF]"

definition array_header :: "nat \<Rightarrow> string" where
  "array_header n = CHR ''*'' # write_decimal n @ [CR, LF]"

definition pglc_resp_bulk :: "string \<Rightarrow> string" where
  "pglc_resp_bulk value = bulk_header (length value) @ value @ [CR, LF]"

definition pglc_resp_null :: string where
  "pglc_resp_null = ''$-1'' @ [CR, LF]"

text \<open>The writers append at \<open>*length\<close>: the new destination, the new length, the result.\<close>

definition pglc_resp_write_array :: "mem \<Rightarrow> nat \<Rightarrow> nat \<Rightarrow> nat \<Rightarrow> nat \<Rightarrow> mem \<times> nat \<times> bool" where
  "pglc_resp_write_array destination capacity len count response_max =
     (if capacity < len \<or> response_max < len then (destination, len, False)
      else let header = array_header count in
        if capacity - len < length header \<or> response_max - len < length header
        then (destination, len, False)
        else (store_bytes destination len header, len + length header, True))"

definition pglc_resp_write_bulk :: "mem \<Rightarrow> nat \<Rightarrow> nat \<Rightarrow> string \<Rightarrow> nat \<Rightarrow> mem \<times> nat \<times> bool" where
  "pglc_resp_write_bulk destination capacity len value response_max =
     (if capacity < len \<or> response_max < len then (destination, len, False)
      else
        let header = bulk_header (length value);
            header_length = length header;
            remaining = (if response_max - len < capacity - len then response_max - len
                         else capacity - len)
        in if remaining < header_length \<or> remaining - header_length < 2 \<or>
              remaining - header_length - 2 < length value
        then (destination, len, False)
        else
          let d1 = store_bytes destination len header;
              d2 = store_bytes d1 (len + header_length) value;
              d3 = d2(len + header_length + length value := CR,
                      len + header_length + length value + 1 := LF)
          in (d3, len + (header_length + length value + 2), True))"

definition pglc_resp_write_null :: "mem \<Rightarrow> nat \<Rightarrow> nat \<Rightarrow> nat \<Rightarrow> mem \<times> nat \<times> bool" where
  "pglc_resp_write_null destination capacity len response_max =
     (if capacity < len \<or> response_max < len then (destination, len, False)
      else
        let remaining = (if response_max - len < capacity - len then response_max - len
                         else capacity - len)
        in if remaining < length pglc_resp_null then (destination, len, False)
        else (store_bytes destination len pglc_resp_null, len + length pglc_resp_null, True))"

section \<open>Parsing a printed number\<close>

lemma decimal_line_loop_eq:
  assumes "\<forall>c \<in> set ds. is_digit c" "dec_from v ds \<le> PG_INT64_MAX"
  shows "decimal_line_loop (pre @ ds @ CR # rest) (length pre) v h =
    Inr (length pre + length ds, dec_from v ds, h \<or> ds \<noteq> [])"
  using assms
proof (induction ds arbitrary: pre v h)
  case Nil
  then show ?case by (subst decimal_line_loop.simps) simp
next
  case (Cons c ds)
  let ?d = "uchar c - 48" let ?v = "v * 10 + ?d"
  have c: "is_digit c" "?d < 10" using Cons.prems(1) by (auto simp: is_digit_def)
  then have cr: "c \<noteq> CR" by (auto simp: is_digit_def)
  have "?v \<le> PG_INT64_MAX" using Cons.prems(2) dec_from_ge[of ?v ds] by simp
  then have "\<not> (PG_INT64_MAX - ?d) div 10 < v" using c(2) by (subst div_less_iff_less_mult) auto
  then have "decimal_line_loop (pre @ (c # ds) @ CR # rest) (length pre) v h =
      decimal_line_loop ((pre @ [c]) @ ds @ CR # rest) (length (pre @ [c])) ?v True"
    using c(1) cr by (subst decimal_line_loop.simps) (simp add: Let_def)
  then show ?case using Cons.IH[of ?v "pre @ [c]" True] Cons.prems by simp
qed

lemma parse_decimal_printed:
  assumes "n \<le> PG_INT64_MAX"
  shows "parse_decimal_line (pre @ write_decimal n @ CR # LF # rest) (length pre) =
    Complete (int n, length pre + length (write_decimal n) + 2)"
proof -
  let ?b = "pre @ write_decimal n @ CR # LF # rest"
  have digits: "\<forall>c \<in> set (write_decimal n). is_digit c" using write_decimal_digits by blast
  have val: "dec_from 0 (write_decimal n) = n" using dec_value_write[of n] by (simp add: dec_value_def)
  obtain c cs where w: "write_decimal n = c # cs" by (cases "write_decimal n") auto
  then have "c \<noteq> CHR ''-''" using digits digit_not_minus[of c] by simp
  then have neg: "?b ! length pre \<noteq> CHR ''-''" using w by simp
  have "decimal_line_loop ?b (length pre) 0 False = Inr (length pre + length (write_decimal n), n, True)"
    using decimal_line_loop_eq[OF digits, of 0 pre "LF # rest" False] assms val by simp
  moreover have "?b ! (length pre + length (write_decimal n)) = CR"
    "?b ! (length pre + length (write_decimal n) + 1) = LF"
    by (simp_all add: nth_append)
  moreover have "length pre < length ?b" by simp
  ultimately show ?thesis using neg by (simp add: parse_decimal_line_def Let_def)
qed

section \<open>Requests\<close>

definition print_request :: "string list \<Rightarrow> string" where
  "print_request xs = array_header (length xs) @ concat (map pglc_resp_bulk xs)"

lemma parse_arg_printed:
  assumes b: "b = pre @ pglc_resp_bulk x @ rest" and x: "length x \<le> PGLC_REQUEST_MAX"
  obtains a where "parse_args b (Suc n) (length pre) args = parse_args b n (length (pre @ pglc_resp_bulk x)) (args @ [a])"
    "arg_bytes b a = x"
proof -
  define h where "h = pre @ bulk_header (length x)"
  have b1: "b = (pre @ ''$'') @ write_decimal (length x) @ CR # LF # x @ CR # LF # rest"
    and b2: "b = h @ x @ CR # LF # rest" and lh: "length (pre @ pglc_resp_bulk x) = length h + length x + 2"
    by (simp_all add: b h_def pglc_resp_bulk_def bulk_header_def)
  have len: "length x \<le> PG_INT64_MAX" using x by simp
  have dec: "parse_decimal_line b (length pre + 1) = Complete (int (length x), length h)"
    using parse_decimal_printed[OF len, of "pre @ ''$''" "x @ CR # LF # rest"] unfolding b1[symmetric]
    by (simp add: h_def bulk_header_def)
  have first: "length pre < length b" "b ! length pre = CHR ''$''" unfolding b1 by simp_all
  have crlf: "b ! (length h + length x) = CR" "b ! (length h + length x + 1) = LF"
    "\<not> length b < length h + length x + 2" unfolding b2 by (simp_all add: nth_append)
  have "parse_args b (Suc n) (length pre) args =
      parse_args b n (length h + length x + 2) (args @ [\<lparr>arg_data = length h, arg_len = length x\<rparr>])"
    using first dec crlf x by (simp add: Let_def)
  moreover have "arg_bytes b \<lparr>arg_data = length h, arg_len = length x\<rparr> = x"
    unfolding b2 by (simp add: arg_bytes_def)
  ultimately show thesis using that lh by simp
qed

lemma parse_args_printed:
  assumes "\<forall>x \<in> set xs. length x \<le> PGLC_REQUEST_MAX" "b = pre @ concat (map pglc_resp_bulk xs) @ rest"
  shows "\<exists>new. parse_args b (length xs) (length pre) args =
    Complete (args @ new, length (pre @ concat (map pglc_resp_bulk xs))) \<and> map (arg_bytes b) new = xs"
  using assms
proof (induction xs arbitrary: pre args)
  case Nil
  then show ?case by simp
next
  case (Cons x xs)
  obtain a where a: "parse_args b (length (x # xs)) (length pre) args =
      parse_args b (length xs) (length (pre @ pglc_resp_bulk x)) (args @ [a])" "arg_bytes b a = x"
    using parse_arg_printed[of b pre x "concat (map pglc_resp_bulk xs) @ rest" "length xs" args] Cons.prems by auto
  obtain new where "parse_args b (length xs) (length (pre @ pglc_resp_bulk x)) (args @ [a]) =
      Complete ((args @ [a]) @ new, length ((pre @ pglc_resp_bulk x) @ concat (map pglc_resp_bulk xs)))"
    "map (arg_bytes b) new = xs"
    using Cons.IH[of "pre @ pglc_resp_bulk x" "args @ [a]"] Cons.prems by auto
  then show ?case using a by (intro exI[of _ "a # new"]) simp
qed

section \<open>Verdicts are stable\<close>

lemma decimal_loop_stable:
  "decimal_line_loop b i v h = Inl e \<Longrightarrow> decimal_line_loop (b @ suffix) i v h = Inl e"
  "decimal_line_loop b i v h = Inr (j, w, g) \<Longrightarrow> j < length b \<Longrightarrow>
    decimal_line_loop (b @ suffix) i v h = Inr (j, w, g)"
proof (induction b i v h rule: decimal_line_loop.induct)
  case (1 b i v h)
  { case 1
    then show ?case using "1.IH"(1) by (subst (asm) decimal_line_loop.simps, subst decimal_line_loop.simps)
        (auto simp: nth_append Let_def split: if_splits) }
  { case 2
    then show ?case using "1.IH"(2) by (subst (asm) decimal_line_loop.simps, subst decimal_line_loop.simps)
        (auto simp: nth_append Let_def split: if_splits) }
qed

lemma decimal_loop_progress:
  "decimal_line_loop b i v h = Inr (j, w, g) \<Longrightarrow> i \<le> length b \<Longrightarrow>
    i \<le> j \<and> j \<le> length b \<and> (\<not> g \<longrightarrow> j = i \<and> \<not> h) \<and> (j < length b \<longrightarrow> b ! j = CR)"
proof (induction b i v h rule: decimal_line_loop.induct)
  case (1 b i v h)
  then show ?case
    by (subst (asm) (2) decimal_line_loop.simps) (auto simp: Let_def split: if_splits)
qed

lemma decimal_line_stable:
  assumes "parse_decimal_line b p = r" "r \<noteq> Incomplete"
  shows "parse_decimal_line (b @ suffix) p = r"
proof -
  define neg where "neg = (b ! p = CHR ''-'')"
  define i where "i = (if neg then p + 1 else p)"
  have p: "p < length b" "i < length b"
    using assms by (auto simp: parse_decimal_line_def Let_def neg_def i_def split: if_splits)
  have step: "parse_decimal_line c p = (case decimal_line_loop c i 0 False of
        Inl message \<Rightarrow> Failed message
      | Inr (j, value, have_digit) \<Rightarrow>
        if \<not> have_digit then Failed ''empty decimal length''
        else if length c \<le> j + 1 then Incomplete
        else if c ! j \<noteq> CR \<or> c ! (j + 1) \<noteq> LF then Failed ''expected CRLF''
        else Complete (if neg then - int value else int value, j + 2))"
    if "c = b \<or> c = b @ suffix" for c
  proof -
    have n: "(c ! p = CHR ''-'') = neg" using that p(1) by (auto simp: neg_def nth_append)
    have "\<not> length c \<le> p" "\<not> (neg \<and> length c \<le> i)" using that p by auto
    then show ?thesis unfolding parse_decimal_line_def n i_def[symmetric] Let_def by auto
  qed
  show ?thesis
  proof (cases "decimal_line_loop b i 0 False")
    case (Inl e)
    then show ?thesis using step[of b] step[of "b @ suffix"] decimal_loop_stable(1)[OF Inl, of suffix] assms(1) by simp
  next
    case (Inr t)
    obtain j v g where t: "t = (j, v, g)" by (cases t)
    note prog = decimal_loop_progress[OF Inr[unfolded t]]
    have j: "j < length b"
      using step[of b] Inr t assms prog p(2) by (cases g) (auto split: if_splits)
    then have "decimal_line_loop (b @ suffix) i 0 False = Inr (j, v, g)"
      using decimal_loop_stable(2)[OF Inr[unfolded t]] by blast
    then show ?thesis
      using step[of b] step[of "b @ suffix"] Inr t assms j by (auto simp: nth_append split: if_splits)
  qed
qed

lemma parse_args_stable:
  "parse_args b n p args = r \<Longrightarrow> r \<noteq> Incomplete \<Longrightarrow> parse_args (b @ suffix) n p args = r"
proof (induction n arbitrary: p args)
  case 0
  then show ?case by simp
next
  case (Suc n)
  have p: "p < length b" using Suc.prems by (auto split: if_splits)
  then have first: "(b @ suffix) ! p = b ! p" "p < length (b @ suffix)" by (simp_all add: nth_append)
  show ?case
  proof (cases "b ! p = CHR ''$''")
    case False
    then show ?thesis using Suc.prems p first by simp
  next
    case True
    then have "parse_decimal_line b (p + 1) \<noteq> Incomplete" using Suc.prems p by auto
    then have dec: "parse_decimal_line (b @ suffix) (p + 1) = parse_decimal_line b (p + 1)"
      using decimal_line_stable by blast
    show ?thesis
    proof (cases "parse_decimal_line b (p + 1)")
      case (Complete t)
      obtain len q where t: "t = (len, q)" by (cases t)
      show ?thesis
      proof (cases "len < 0 \<or> int PGLC_REQUEST_MAX < len")
        case False
        then have fit: "q + nat len + 2 \<le> length b"
          using Suc.prems p True Complete t by (auto simp: Let_def not_less split: if_splits)
        then have same: "(b @ suffix) ! (q + nat len) = b ! (q + nat len)"
          "(b @ suffix) ! (q + nat len + 1) = b ! (q + nat len + 1)" by (simp_all add: nth_append)
        show ?thesis
          using Suc p first True Complete t dec False fit same by (auto simp: Let_def not_less split: if_splits)
      qed (use Suc.prems p first True Complete t dec in simp)
    qed (use Suc.prems p first True dec in auto)
  qed
qed

lemma parse_stable:
  assumes "pglc_resp_parse b = r" "r \<noteq> Incomplete"
  shows "pglc_resp_parse (b @ suffix) = r"
proof -
  have ne: "b \<noteq> []" using assms by (auto simp: pglc_resp_parse_def)
  then have first: "(b @ suffix) ! 0 = b ! 0" by (simp add: nth_append)
  show ?thesis
  proof (cases "b ! 0 = CHR ''*''")
    case True
    then have "parse_decimal_line b 1 \<noteq> Incomplete" using assms ne by (auto simp: pglc_resp_parse_def)
    then have dec: "parse_decimal_line (b @ suffix) 1 = parse_decimal_line b 1" using decimal_line_stable by blast
    show ?thesis
    proof (cases "parse_decimal_line b 1")
      case (Complete t)
      obtain nargs q where t: "t = (nargs, q)" by (cases t)
      show ?thesis
        using assms ne first True dec Complete t parse_args_stable[of b "nat nargs" q "[]" r suffix]
        by (auto simp: pglc_resp_parse_def split: if_splits)
    qed (use assms ne first True dec in \<open>auto simp: pglc_resp_parse_def\<close>)
  qed (use assms ne first in \<open>auto simp: pglc_resp_parse_def\<close>)
qed

text \<open>The slices of a parsed request.\<close>

lemma decimal_line_end: "parse_decimal_line b p = Complete (v, q) \<Longrightarrow> p < q \<and> q \<le> length b"
proof -
  assume parse: "parse_decimal_line b p = Complete (v, q)"
  define i where "i = (if b ! p = CHR ''-'' then p + 1 else p)"
  have i: "i < length b" "p \<le> i" using parse by (auto simp: parse_decimal_line_def i_def Let_def split: if_splits)
  obtain j w g where loop: "decimal_line_loop b i 0 False = Inr (j, w, g)" "q = j + 2" "j + 1 < length b"
    using parse unfolding parse_decimal_line_def Let_def i_def[symmetric]
    by (auto split: if_splits sum.splits prod.splits)
  then show ?thesis using decimal_loop_progress[OF loop(1)] i by simp
qed

lemma parse_args_slices:
  assumes "parse_args b n p args = Complete (args', q)" "p \<le> length b"
  shows "\<exists>new. args' = args @ new \<and> length new = n \<and> p \<le> q \<and> q \<le> length b \<and>
    (\<forall>a \<in> set new. p \<le> arg_data a \<and> arg_data a + arg_len a + 2 \<le> q \<and> arg_len a \<le> PGLC_REQUEST_MAX)"
  using assms
proof (induction n arbitrary: p args)
  case 0
  then show ?case by simp
next
  case (Suc n)
  then obtain len d where dec: "parse_decimal_line b (p + 1) = Complete (len, d)"
    and len: "0 \<le> len" "len \<le> int PGLC_REQUEST_MAX" "d + nat len + 2 \<le> length b"
    and rec: "parse_args b n (d + nat len + 2) (args @ [\<lparr>arg_data = d, arg_len = nat len\<rparr>]) = Complete (args', q)"
    by (auto simp: Let_def not_less split: if_splits resp_status.splits)
  obtain new where new: "args' = (args @ [\<lparr>arg_data = d, arg_len = nat len\<rparr>]) @ new" "length new = n"
    "d + nat len + 2 \<le> q" "q \<le> length b"
    "\<forall>a \<in> set new. d + nat len + 2 \<le> arg_data a \<and> arg_data a + arg_len a + 2 \<le> q \<and> arg_len a \<le> PGLC_REQUEST_MAX"
    using Suc.IH[OF rec len(3)] by blast
  have "p + 1 < d" using decimal_line_end[OF dec] by simp
  then show ?case using new len by (intro exI[of _ "\<lparr>arg_data = d, arg_len = nat len\<rparr> # new"]) auto
qed

lemma request_slices:
  assumes "pglc_resp_parse buffer = Complete (args, consumed)"
  shows "0 < consumed" "consumed \<le> length buffer" "1 \<le> length args \<and> length args \<le> PGLC_RESP_MAX_ARGS"
    "list_all (\<lambda>a. arg_data a + arg_len a + 2 \<le> consumed \<and> arg_len a \<le> PGLC_REQUEST_MAX) args"
proof -
  obtain nargs p where dec: "parse_decimal_line buffer 1 = Complete (nargs, p)"
    and n: "0 < nargs" "nargs \<le> int PGLC_RESP_MAX_ARGS"
    and parse: "parse_args buffer (nat nargs) p [] = Complete (args, consumed)"
    using assms by (auto simp: pglc_resp_parse_def split: if_splits resp_status.splits)
  have p: "1 < p" "p \<le> length buffer" using decimal_line_end[OF dec] by simp_all
  from parse_args_slices[OF parse p(2)] n p(1)
  show "0 < consumed" "consumed \<le> length buffer" "1 \<le> length args \<and> length args \<le> PGLC_RESP_MAX_ARGS"
    "list_all (\<lambda>a. arg_data a + arg_len a + 2 \<le> consumed \<and> arg_len a \<le> PGLC_REQUEST_MAX) args"
    by (auto simp: list_all_iff)
qed

section \<open>Bounded writers\<close>

lemma store_bytes_append: "store_bytes (store_bytes m i xs) (i + length xs) ys = store_bytes m i (xs @ ys)"
  by (auto simp: store_bytes_def fun_eq_iff nth_append)

lemma write_bulk_eq:
  "pglc_resp_write_bulk d cap len value mx =
     (if len + length (pglc_resp_bulk value) \<le> min cap mx
      then (store_bytes d len (pglc_resp_bulk value), len + length (pglc_resp_bulk value), True)
      else (d, len, False))"
proof -
  let ?h = "bulk_header (length value)"
  have bytes: "(store_bytes (store_bytes d len ?h) (len + length ?h) value)
      (len + length ?h + length value := CR, len + length ?h + length value + 1 := LF) =
      store_bytes d len (pglc_resp_bulk value)"
  proof -
    have "d'(i := CR, Suc i := LF) = store_bytes d' i [CR, LF]" for d' i
      by (auto simp: store_bytes_def fun_eq_iff nth_Cons')
    then show ?thesis
      using store_bytes_append[of "store_bytes d len ?h" "len + length ?h" "value" "[CR, LF]"]
        store_bytes_append[of d len ?h "value @ [CR, LF]"]
      by (simp add: pglc_resp_bulk_def)
  qed
  have len: "length (pglc_resp_bulk value) = length ?h + length value + 2" by (simp add: pglc_resp_bulk_def)
  show ?thesis unfolding pglc_resp_write_bulk_def Let_def bytes len by auto
qed

lemma request_parsed:
  assumes "xs \<noteq> []" "length xs \<le> PGLC_RESP_MAX_ARGS" "list_all (\<lambda>x. length x \<le> PGLC_REQUEST_MAX) xs"
  shows "\<exists>args. pglc_resp_parse (print_request xs @ rest) = Complete (args, length (print_request xs)) \<and>
    map (arg_bytes (print_request xs @ rest)) args = xs"
proof -
  define b where "b = print_request xs @ rest"
  have b: "b = ''*'' @ write_decimal (length xs) @ CR # LF # concat (map pglc_resp_bulk xs) @ rest"
    "b = array_header (length xs) @ concat (map pglc_resp_bulk xs) @ rest"
    by (simp_all add: b_def print_request_def array_header_def)
  have "length xs \<le> PG_INT64_MAX" using assms(2) by simp
  from parse_decimal_printed[OF this, of "''*''" "concat (map pglc_resp_bulk xs) @ rest"]
  have dec: "parse_decimal_line b 1 = Complete (int (length xs), length (array_header (length xs)))"
    unfolding b(1)[symmetric] by (simp add: array_header_def)
  have "\<forall>x \<in> set xs. length x \<le> PGLC_REQUEST_MAX" using assms(3) by (simp add: list_all_iff)
  from parse_args_printed[OF this b(2), of "[]"] obtain args where
    "parse_args b (length xs) (length (array_header (length xs))) [] = Complete (args, length (print_request xs))"
    "map (arg_bytes b) args = xs" by (auto simp: print_request_def)
  moreover have "b \<noteq> []" "b ! 0 = CHR ''*''" by (simp_all add: b(1))
  ultimately show ?thesis
    using dec assms(1,2) unfolding b_def[symmetric] by (simp add: pglc_resp_parse_def)
qed

text \<open>
  What a bounded writer does: the reply \<open>bs\<close> in the bytes from \<open>len\<close> on when it fits both
  limits, and nothing else.
\<close>

definition append_reply :: "mem \<Rightarrow> nat \<Rightarrow> nat \<Rightarrow> char list \<Rightarrow> nat \<Rightarrow> mem \<times> nat \<times> bool" where
  "append_reply d capacity len bs response_max =
     (if len + length bs \<le> min capacity response_max
      then (\<lambda>j. if len \<le> j \<and> j < len + length bs then bs ! (j - len) else d j, len + length bs, True)
      else (d, len, False))"

lemma append_reply_store:
  "append_reply d cap len bs mx =
     (if len + length bs \<le> min cap mx then (store_bytes d len bs, len + length bs, True) else (d, len, False))"
  by (simp add: append_reply_def store_bytes_def)

lemma append_reply_inside: "fst (append_reply d cap len bs mx) (cap + i) = d (cap + i)"
  by (simp add: append_reply_def)

lemma write_bulk_append: "pglc_resp_write_bulk d cap len value mx = append_reply d cap len (pglc_resp_bulk value) mx"
  unfolding append_reply_store by (rule write_bulk_eq)

lemma write_array_append: "pglc_resp_write_array d cap len count mx = append_reply d cap len (array_header count) mx"
  by (auto simp: append_reply_store pglc_resp_write_array_def Let_def)

lemma write_null_append: "pglc_resp_write_null d cap len mx = append_reply d cap len pglc_resp_null mx"
  by (auto simp: append_reply_store pglc_resp_write_null_def Let_def)

section \<open>Properties\<close>

text \<open>C26: parsing inverts printing. A printed request of 1 to 1026 arguments of at most
  65536 bytes, followed by anything, is parsed completely: the slices hold the arguments
  and exactly the printed bytes are consumed.\<close>

theorem resp_parse_print:
  assumes "xs \<noteq> []" "length xs \<le> PGLC_RESP_MAX_ARGS" "list_all (\<lambda>x. length x \<le> PGLC_REQUEST_MAX) xs"
  shows "\<exists>args. pglc_resp_parse (print_request xs @ rest) = Complete (args, length (print_request xs)) \<and>
    map (arg_bytes (print_request xs @ rest)) args = xs"
  by (rule request_parsed[OF assms])

theorem resp_parse_print_witness:
  "\<exists>args. pglc_resp_parse (print_request [''GET'', ''k'']) = Complete (args, length (print_request [''GET'', ''k''])) \<and>
     map (arg_bytes (print_request [''GET'', ''k''])) args = [''GET'', ''k'']"
  using resp_parse_print[of "[''GET'', ''k'']" "[]"] by simp

text \<open>C27: the parser is safe to run on every prefix of the stream: a complete or failed
  verdict is never changed by bytes that arrive later.\<close>

theorem resp_parse_prefix_stable:
  assumes "pglc_resp_parse buffer \<noteq> Incomplete"
  shows "pglc_resp_parse (buffer @ later) = pglc_resp_parse buffer"
  using parse_stable assms by blast

theorem resp_parse_prefix_stable_witness:
  "pglc_resp_parse ''PING'' = Failed ''only RESP2 arrays are accepted'' \<and>
   pglc_resp_parse (''PING'' @ ''*1'') = Failed ''only RESP2 arrays are accepted''"
proof -
  have "pglc_resp_parse ''PING'' = Failed ''only RESP2 arrays are accepted''"
    by (simp add: pglc_resp_parse_def)
  then show ?thesis using resp_parse_prefix_stable[of "''PING''" "''*1''"] by simp
qed

text \<open>C28: every argument slice of a parsed request, with its CRLF, lies inside the consumed
  bytes of the buffer, and there are at most 1026 arguments, so neither the buffer nor the
  argument array is accessed out of bounds.\<close>

theorem resp_parse_slices:
  assumes "pglc_resp_parse buffer = Complete (args, consumed)"
  shows "consumed \<le> length buffer \<and> 1 \<le> length args \<and> length args \<le> PGLC_RESP_MAX_ARGS \<and>
    list_all (\<lambda>a. arg_data a + arg_len a + 2 \<le> consumed \<and> arg_len a \<le> PGLC_REQUEST_MAX) args"
  using request_slices[OF assms] by simp

theorem resp_parse_slices_witness:
  "\<exists>args. pglc_resp_parse (print_request [''GET'', ''k'']) = Complete (args, length (print_request [''GET'', ''k''])) \<and>
     list_all (\<lambda>a. arg_data a + arg_len a + 2 \<le> length (print_request [''GET'', ''k''])) args"
proof -
  let ?b = "print_request [''GET'', ''k'']"
  obtain args where "pglc_resp_parse ?b = Complete (args, length ?b)"
    using request_parsed[of "[''GET'', ''k'']" "[]"] by auto
  then show ?thesis using resp_parse_slices[of ?b args "length ?b"] by (auto simp: list_all_iff)
qed

text \<open>C29: a status or error line cannot be split: whatever the message, the response has its
  prefix, no CR or LF in its body, and one CRLF at its end.\<close>

theorem resp_line_unsplit:
  "\<exists>body. line_response prefix message = prefix # body @ [CR, LF] \<and>
     CR \<notin> set body \<and> LF \<notin> set body \<and> length body = strlen message"
proof -
  have "strlen message \<le> length message" by (simp add: strlen_def length_takeWhile_le)
  then show ?thesis unfolding line_response_def by (auto simp: min_def)
qed

text \<open>C30: the bounded writers of a bulk string, an array header and a null append exactly the bytes of
  the corresponding reply when they fit the buffer capacity and the response limit, and otherwise
  change nothing and report failure. Every other byte of the memory, before the old length and
  after the new one, keeps its value; so no byte at or past the capacity is written.\<close>

theorem resp_write_bulk_exact:
  "pglc_resp_write_bulk d cap len value mx = append_reply d cap len (pglc_resp_bulk value) mx \<and>
   pglc_resp_write_array d cap len count mx = append_reply d cap len (array_header count) mx \<and>
   pglc_resp_write_null d cap len mx = append_reply d cap len pglc_resp_null mx \<and>
   fst (append_reply d cap len bs mx) (cap + i) = d (cap + i)"
  using write_bulk_append write_array_append write_null_append append_reply_inside by blast

end
