(* ===== verification/RowPayload.thy ===== *)
theory RowPayload
  imports Prelude
begin

unbundle bit_operations_syntax

text \<open>
  The cached row format of \<open>src/src/row_payload.c\<close>: a 36-byte big-endian header, with a
  fingerprint of the row descriptor and a CRC32C, followed by the rendered JSON of the row.
  The lemmas show that the checked decoder accepts exactly what the encoder writes for
  the same descriptor, so a row cached under another row type, type modifier, column
  count or column layout is never returned.

  PostgreSQL's CRC32C steps are parameters (\<open>INIT_CRC32C\<close>, \<open>COMP_CRC32C\<close>,
  \<open>FIN_CRC32C\<close>), and a tuple descriptor is a record of the fields the code reads.
\<close>

section \<open>Data\<close>

abbreviation (input) PGLC_VALUE_MAX :: nat where "PGLC_VALUE_MAX \<equiv> 8192"
abbreviation (input) PGLC_ROW_PAYLOAD_MAGIC :: nat where "PGLC_ROW_PAYLOAD_MAGIC \<equiv> 0x50474c43"
abbreviation (input) PGLC_ROW_PAYLOAD_VERSION :: nat where "PGLC_ROW_PAYLOAD_VERSION \<equiv> 2"
abbreviation (input) PGLC_ROW_PAYLOAD_HEADER_SIZE :: nat where "PGLC_ROW_PAYLOAD_HEADER_SIZE \<equiv> 36"
abbreviation (input) PGLC_ROW_PAYLOAD_FLAG_HAS_JSON :: nat where "PGLC_ROW_PAYLOAD_FLAG_HAS_JSON \<equiv> 1"
abbreviation (input) MaxTupleAttributeNumber :: nat where "MaxTupleAttributeNumber \<equiv> 1664"

record 'c crc32c =
  INIT_CRC32C :: 'c
  COMP_CRC32C :: "'c \<Rightarrow> string \<Rightarrow> 'c"
  FIN_CRC32C :: "'c \<Rightarrow> nat"

record pg_attribute =
  attnum :: int
  attname :: string
  atttypid :: nat
  atttypmod :: int
  attcollation :: nat
  attlen :: int
  attndims :: int
  attbyval :: bool
  attalign :: char
  attstorage :: char
  attcompression :: char
  attisdropped :: bool
  atthasmissing :: bool
  attgenerated :: char
  attidentity :: char

record TupleDesc =
  tdtypeid :: nat
  tdtypmod :: int
  attrs :: "pg_attribute list"

section \<open>Big-endian integers\<close>

definition pglc_row_put_u16 :: "nat \<Rightarrow> string" where
  "pglc_row_put_u16 v = [char_of (v div 256), char_of v]"

definition pglc_row_put_u32 :: "nat \<Rightarrow> string" where
  "pglc_row_put_u32 v =
     [char_of (v div 16777216), char_of (v div 65536), char_of (v div 256), char_of v]"

text \<open>The loop that fills the eight bytes from the last to the first.\<close>

fun put_u64_loop :: "nat \<Rightarrow> nat \<Rightarrow> string" where
  "put_u64_loop 0 v = []"
| "put_u64_loop (Suc n) v = put_u64_loop n (v div 256) @ [char_of v]"

definition pglc_row_put_u64 :: "nat \<Rightarrow> string" where
  "pglc_row_put_u64 v = put_u64_loop 8 v"

definition pglc_row_get_u16 :: "string \<Rightarrow> nat" where
  "pglc_row_get_u16 bytes = (of_char (bytes ! 0) * 256) OR of_char (bytes ! 1)"

definition pglc_row_get_u32 :: "string \<Rightarrow> nat" where
  "pglc_row_get_u32 bytes =
     (of_char (bytes ! 0) * 16777216) OR (of_char (bytes ! 1) * 65536) OR
     (of_char (bytes ! 2) * 256) OR of_char (bytes ! 3)"

definition pglc_row_get_u64 :: "string \<Rightarrow> nat" where
  "pglc_row_get_u64 bytes = fold (\<lambda>byte v. u64 (v * 256) OR of_char (bytes ! byte)) [0..<8] 0"

text \<open>Casts between \<open>int32\<close> and \<open>uint32\<close>.\<close>

definition uint32_of_int :: "int \<Rightarrow> nat" where
  "uint32_of_int x = nat (x mod 4294967296)"

definition int32_of_uint :: "nat \<Rightarrow> int" where
  "int32_of_uint u = (if u < 2147483648 then int u else int u - 4294967296)"

definition uint16_of_int :: "int \<Rightarrow> nat" where
  "uint16_of_int x = nat (x mod 65536)"

section \<open>Descriptor fingerprint\<close>

definition pglc_fingerprint_byte :: "64 word \<Rightarrow> nat \<Rightarrow> 64 word" where
  "pglc_fingerprint_byte hash v = (hash XOR of_nat (v mod 256)) * 1099511628211"

fun pglc_fingerprint_uint :: "64 word \<Rightarrow> nat \<Rightarrow> nat \<Rightarrow> 64 word" where
  "pglc_fingerprint_uint hash v 0 = hash"
| "pglc_fingerprint_uint hash v (Suc width) =
     pglc_fingerprint_uint (pglc_fingerprint_byte hash v) (v div 256) width"

definition pglc_fingerprint_name :: "64 word \<Rightarrow> string \<Rightarrow> 64 word" where
  "pglc_fingerprint_name hash name =
     (let bytes = takeWhile (\<lambda>c. c \<noteq> CHR 0x00) name
      in foldl (\<lambda>h c. pglc_fingerprint_byte h (of_char c))
           (pglc_fingerprint_uint hash (length bytes) 2) bytes)"

definition pglc_row_descriptor_supported :: "TupleDesc \<Rightarrow> bool" where
  "pglc_row_descriptor_supported d \<longleftrightarrow>
     tdtypeid d \<noteq> 0 \<and> length (attrs d) \<le> MaxTupleAttributeNumber \<and>
     list_all (\<lambda>i. attnum (attrs d ! i) = int i + 1) [0..<length (attrs d)]"

definition fingerprint_attribute :: "64 word \<Rightarrow> pg_attribute \<Rightarrow> 64 word" where
  "fingerprint_attribute h0 a =
     (let h1 = pglc_fingerprint_uint h0 (uint16_of_int (attnum a)) 2;
          h2 = pglc_fingerprint_name h1 (attname a);
          h3 = pglc_fingerprint_uint h2 (atttypid a) 4;
          h4 = pglc_fingerprint_uint h3 (uint32_of_int (atttypmod a)) 4;
          h5 = pglc_fingerprint_uint h4 (attcollation a) 4;
          h6 = pglc_fingerprint_uint h5 (uint16_of_int (attlen a)) 2;
          h7 = pglc_fingerprint_uint h6 (uint16_of_int (attndims a)) 2;
          h8 = pglc_fingerprint_byte h7 (if attbyval a then 1 else 0);
          h9 = pglc_fingerprint_byte h8 (of_char (attalign a));
          h10 = pglc_fingerprint_byte h9 (of_char (attstorage a));
          h11 = pglc_fingerprint_byte h10 (of_char (attcompression a));
          h12 = pglc_fingerprint_byte h11 (if attisdropped a then 1 else 0);
          h13 = pglc_fingerprint_byte h12 (if atthasmissing a then 1 else 0);
          h14 = pglc_fingerprint_byte h13 (of_char (attgenerated a))
      in pglc_fingerprint_byte h14 (of_char (attidentity a)))"

definition pglc_row_payload_tupledesc_fingerprint :: "TupleDesc \<Rightarrow> 64 word" where
  "pglc_row_payload_tupledesc_fingerprint d =
     (if \<not> pglc_row_descriptor_supported d then 0
      else
        let h0 = 14695981039346656037;
            h1 = pglc_fingerprint_uint h0 (tdtypeid d) 4;
            h2 = pglc_fingerprint_uint h1 (uint32_of_int (tdtypmod d)) 4;
            h3 = pglc_fingerprint_uint h2 (length (attrs d)) 4
        in foldl fingerprint_attribute h3 (attrs d))"

section \<open>Encoder and checked decoder\<close>

definition pglc_row_payload_checksum :: "'c crc32c \<Rightarrow> string \<Rightarrow> nat" where
  "pglc_row_payload_checksum crc payload =
     (let c0 = INIT_CRC32C crc;
          c1 = COMP_CRC32C crc c0 (take 32 payload);
          c2 = COMP_CRC32C crc c1 (replicate 4 (CHR 0x00));
          c3 = COMP_CRC32C crc c2 (drop 36 payload)
      in FIN_CRC32C crc c3)"

text \<open>The header without its checksum field.\<close>

definition row_header :: "nat \<Rightarrow> int \<Rightarrow> nat \<Rightarrow> nat \<Rightarrow> nat \<Rightarrow> string" where
  "row_header row_type_oid row_typmod natts fingerprint json_len =
     pglc_row_put_u32 PGLC_ROW_PAYLOAD_MAGIC @ pglc_row_put_u16 PGLC_ROW_PAYLOAD_VERSION @
     pglc_row_put_u16 PGLC_ROW_PAYLOAD_FLAG_HAS_JSON @ pglc_row_put_u32 row_type_oid @
     pglc_row_put_u32 (uint32_of_int row_typmod) @ pglc_row_put_u32 natts @
     pglc_row_put_u64 fingerprint @ pglc_row_put_u32 json_len"

text \<open>The destination is cleared, the header fields and the JSON are stored, and the
  checksum of the result is stored last. \<open>Some\<close> carries the payload.\<close>

definition pglc_row_payload_encode ::
  "'c crc32c \<Rightarrow> nat \<Rightarrow> int \<Rightarrow> nat \<Rightarrow> nat \<Rightarrow> string \<Rightarrow> nat \<Rightarrow> string option" where
  "pglc_row_payload_encode crc row_type_oid row_typmod natts fingerprint json destination_capacity =
     (let capacity = min destination_capacity PGLC_VALUE_MAX; json_len = length json in
      if row_type_oid = 0 \<or> MaxTupleAttributeNumber < natts \<or> fingerprint = 0 \<or>
         capacity < PGLC_ROW_PAYLOAD_HEADER_SIZE \<or> json_len < 2 \<or>
         capacity - PGLC_ROW_PAYLOAD_HEADER_SIZE < json_len then None
      else if json ! 0 \<noteq> CHR ''{'' \<or> json ! (json_len - 1) \<noteq> CHR ''}'' then None
      else
        let header = row_header row_type_oid row_typmod natts fingerprint json_len;
            cleared = header @ replicate 4 (CHR 0x00) @ json;
            checksum = pglc_row_payload_checksum crc cleared
        in Some (header @ pglc_row_put_u32 checksum @ json))"

text \<open>\<open>Some json\<close> is a \<open>true\<close> return with the JSON slice of the payload.\<close>

definition pglc_row_payload_get_json_checked ::
  "'c crc32c \<Rightarrow> string \<Rightarrow> nat \<Rightarrow> int \<Rightarrow> nat \<Rightarrow> nat \<Rightarrow> string option" where
  "pglc_row_payload_get_json_checked crc payload oid typmod natts fingerprint =
     (let payload_len = length payload in
      if payload_len < PGLC_ROW_PAYLOAD_HEADER_SIZE \<or> PGLC_VALUE_MAX < payload_len \<or>
         fingerprint = 0 \<or> pglc_row_get_u32 payload \<noteq> PGLC_ROW_PAYLOAD_MAGIC \<or>
         pglc_row_get_u16 (drop 4 payload) \<noteq> PGLC_ROW_PAYLOAD_VERSION then None
      else
        let flags = pglc_row_get_u16 (drop 6 payload) in
        if flags \<noteq> PGLC_ROW_PAYLOAD_FLAG_HAS_JSON \<or> pglc_row_get_u32 (drop 8 payload) \<noteq> oid \<or>
           int32_of_uint (pglc_row_get_u32 (drop 12 payload)) \<noteq> typmod \<or>
           pglc_row_get_u32 (drop 16 payload) \<noteq> natts \<or>
           pglc_row_get_u64 (drop 20 payload) \<noteq> fingerprint then None
        else
          let stored_json_len = pglc_row_get_u32 (drop 28 payload) in
          if stored_json_len < 2 \<or> stored_json_len \<noteq> payload_len - PGLC_ROW_PAYLOAD_HEADER_SIZE \<or>
             payload ! PGLC_ROW_PAYLOAD_HEADER_SIZE \<noteq> CHR ''{'' \<or>
             payload ! (payload_len - 1) \<noteq> CHR ''}'' \<or>
             pglc_row_get_u32 (drop 32 payload) \<noteq> pglc_row_payload_checksum crc payload then None
          else Some (drop PGLC_ROW_PAYLOAD_HEADER_SIZE payload))"

section \<open>Big-endian round trips\<close>

lemma nat_bit_less: "bit (b :: nat) k \<Longrightarrow> b < 2 ^ n \<Longrightarrow> k < n"
  by (metis bit_take_bit_iff take_bit_nat_eq_self)

lemma or_low_add:
  assumes "b < 2 ^ n"
  shows "a * 2 ^ n OR b = a * 2 ^ n + (b :: nat)"
proof -
  have "\<not> bit (push_bit n a) k \<or> \<not> bit b k" for k
    using nat_bit_less[of b k n] assms by (auto simp: bit_push_bit_iff)
  then show ?thesis using disjunctive_add[of "push_bit n a" b] by (simp add: push_bit_eq_mult)
qed

definition be :: "string \<Rightarrow> nat" where
  "be bs = foldl (\<lambda>a c. a * 256 + of_char c) 0 bs"

lemma be_snoc [simp]: "be (bs @ [c]) = be bs * 256 + of_char c"
  by (simp add: be_def)

lemma be_Nil [simp]: "be [] = 0"
  by (simp add: be_def)

lemma be_less: "be bs < 256 ^ length bs"
proof (induction bs rule: rev_induct)
  case (snoc c bs)
  have "of_char c < (256 :: nat)" by simp
  moreover have "(be bs + 1) * 256 \<le> 256 ^ length bs * 256" using snoc by (intro mult_le_mono1) simp
  ultimately have "be bs * 256 + of_char c < 256 ^ length bs * 256" unfolding distrib_right mult_1 by linarith
  then show ?case by (simp add: mult.commute)
qed simp

lemma length_put_loop [simp]: "length (put_u64_loop n v) = n"
  by (induction n arbitrary: v) auto

lemma be_put: "be (put_u64_loop n v) = v mod 256 ^ n"
proof (induction n arbitrary: v)
  case (Suc n)
  have "v mod 256 ^ Suc n = v div 256 mod 256 ^ n * 256 + v mod 256"
    by (simp add: mod_mult2_eq mult.commute)
  then show ?case using Suc by simp
qed simp

lemma put_be: "put_u64_loop (length bs) (be bs) = bs"
proof (induction bs rule: rev_induct)
  case (snoc c bs)
  have "of_char c < (256 :: nat)" by simp
  then have "(be bs * 256 + of_char c) div 256 = be bs" by simp
  moreover have "char_of (be bs * 256 + of_char c :: nat) = c"
    by (simp add: char_of_eq_iff take_bit_eq_mod)
  ultimately show ?case using snoc by simp
qed simp

lemma put_u16_loop: "pglc_row_put_u16 v = put_u64_loop 2 v"
  unfolding pglc_row_put_u16_def numeral_2_eq_2 by simp

lemma put_u32_loop: "pglc_row_put_u32 v = put_u64_loop 4 v"
proof -
  have "v div 256 div 256 = v div 65536" "v div 65536 div 256 = v div 16777216" by (simp_all flip: div_mult2_eq)
  moreover have "put_u64_loop 4 v = put_u64_loop (Suc (Suc (Suc (Suc 0)))) v" by (rule arg_cong[of _ _ "\<lambda>n. put_u64_loop n v"]) simp
  ultimately show ?thesis by (simp add: pglc_row_put_u32_def)
qed

lemma get_u16_be: "2 \<le> length bs \<Longrightarrow> pglc_row_get_u16 bs = be (take 2 bs)"
proof -
  assume "2 \<le> length bs"
  then obtain a b r where bs: "bs = a # b # r" by (auto simp: Suc_le_length_iff numeral_eq_Suc)
  have "of_char b < (2 :: nat) ^ 8" by simp
  from or_low_add[OF this, of "of_char a"] show ?thesis
    unfolding bs pglc_row_get_u16_def by (simp add: be_def)
qed

lemma get_u32_be: "4 \<le> length bs \<Longrightarrow> pglc_row_get_u32 bs = be (take 4 bs)"
proof -
  assume "4 \<le> length bs"
  then obtain a b c d r where bs: "bs = a # b # c # d # r" by (auto simp: Suc_le_length_iff numeral_eq_Suc)
  have lt: "of_char x < (256 :: nat)" for x by simp
  define A B C D where "A = (of_char a :: nat)" and "B = (of_char b :: nat)" and "C = (of_char c :: nat)"
    and "D = (of_char d :: nat)"
  have bounds: "B < 256" "C < 256" "D < 256" by (simp_all add: B_def C_def D_def lt)
  have 1: "C * 256 OR D = C * 256 + D" using or_low_add[of D 8 C] bounds by simp
  have 2: "B * 65536 OR (C * 256 + D) = B * 65536 + (C * 256 + D)" using or_low_add[of "C * 256 + D" 16 B] bounds by simp
  have 3: "A * 16777216 OR (B * 65536 + (C * 256 + D)) = A * 16777216 + (B * 65536 + (C * 256 + D))"
    using or_low_add[of "B * 65536 + (C * 256 + D)" 24 A] bounds by simp
  have "pglc_row_get_u32 bs = A * 16777216 + (B * 65536 + (C * 256 + D))"
    unfolding bs pglc_row_get_u32_def using 1 2 3 by (simp add: A_def B_def C_def D_def or.assoc)
  moreover have "be (take 4 bs) = A * 16777216 + (B * 65536 + (C * 256 + D))"
    by (simp add: bs be_def A_def B_def C_def D_def)
  ultimately show ?thesis by simp
qed

lemma get_u64_loop:
  assumes "n \<le> 8" "n \<le> length bs"
  shows "fold (\<lambda>byte v. u64 (v * 256) OR of_char (bs ! byte)) [0..<n] 0 = be (take n bs)"
  using assms
proof (induction n)
  case (Suc n)
  define V where "V = be (take n bs)"
  have "V < 256 ^ n" using be_less[of "take n bs"] Suc.prems by (simp add: V_def)
  also have "(256 :: nat) ^ n \<le> 256 ^ 7" using Suc.prems by (intro power_increasing) auto
  finally have V: "V * 256 \<le> UINT64_MAX" by simp
  have "of_char (bs ! n) < (2 :: nat) ^ 8" by simp
  from or_low_add[OF this, of V] have "V * 256 OR of_char (bs ! n) = V * 256 + of_char (bs ! n)" by simp
  then show ?case using Suc V by (simp add: V_def take_Suc_conv_app_nth)
qed simp

lemma get_u64_be: "8 \<le> length bs \<Longrightarrow> pglc_row_get_u64 bs = be (take 8 bs)"
  unfolding pglc_row_get_u64_def by (rule get_u64_loop) simp_all

lemma be_eq_iff: "v < 256 ^ length bs \<Longrightarrow> be bs = v \<longleftrightarrow> bs = put_u64_loop (length bs) v"
  using put_be[of bs] be_put[of "length bs" v] by auto

lemma int32_cast: "-2147483648 \<le> t \<Longrightarrow> t < 2147483648 \<Longrightarrow> u < 4294967296 \<Longrightarrow>
    int32_of_uint u = t \<longleftrightarrow> u = uint32_of_int t"
proof -
  assume t: "-2147483648 \<le> t" "t < 2147483648" and u: "u < 4294967296"
  have "t mod 4294967296 = t + 4294967296" if "t < 0"
  proof -
    have "t mod 4294967296 = (t + 4294967296) mod 4294967296" by simp
    also have "\<dots> = t + 4294967296" using t that by (intro mod_pos_pos_trivial) simp_all
    finally show ?thesis .
  qed
  moreover have "t mod 4294967296 = t" if "\<not> t < 0" using t that by (intro mod_pos_pos_trivial) simp_all
  ultimately show ?thesis using t u by (cases "t < 0") (auto simp: int32_of_uint_def uint32_of_int_def)
qed

section \<open>Decoding inverts encoding\<close>

lemma be_field_iff:
  assumes "k + n \<le> length p" "v < 256 ^ n"
  shows "be (take n (drop k p)) = v \<longleftrightarrow> take n (drop k p) = put_u64_loop n v"
proof -
  have "length (take n (drop k p)) = n" using assms(1) by simp
  then show ?thesis using be_eq_iff[of v "take n (drop k p)"] assms(2) by simp
qed

lemma get_u16_iff: "k + 2 \<le> length p \<Longrightarrow> v < 65536 \<Longrightarrow>
    pglc_row_get_u16 (drop k p) = v \<longleftrightarrow> take 2 (drop k p) = pglc_row_put_u16 v"
  using be_field_iff[of k 2 p v] by (simp add: get_u16_be put_u16_loop)

lemma get_u32_iff: "k + 4 \<le> length p \<Longrightarrow> v < 4294967296 \<Longrightarrow>
    pglc_row_get_u32 (drop k p) = v \<longleftrightarrow> take 4 (drop k p) = pglc_row_put_u32 v"
  using be_field_iff[of k 4 p v] by (simp add: get_u32_be put_u32_loop)

lemma get_u64_iff: "k + 8 \<le> length p \<Longrightarrow> v < 18446744073709551616 \<Longrightarrow>
    pglc_row_get_u64 (drop k p) = v \<longleftrightarrow> take 8 (drop k p) = pglc_row_put_u64 v"
  using be_field_iff[of k 8 p v] by (simp add: get_u64_be pglc_row_put_u64_def)

lemma get_u32_less: "k + 4 \<le> length p \<Longrightarrow> pglc_row_get_u32 (drop k p) < 4294967296"
  using be_less[of "take 4 (drop k p)"] by (simp add: get_u32_be)

lemma length_put [simp]: "length (pglc_row_put_u16 v) = 2" "length (pglc_row_put_u32 v) = 4"
  "length (pglc_row_put_u64 v) = 8"
  by (simp_all add: put_u16_loop put_u32_loop pglc_row_put_u64_def)

lemma length_row_header [simp]: "length (row_header oid t n fp l) = 32"
  by (simp add: row_header_def)

lemma take_split: "take (i + j) (drop k p) = take i (drop k p) @ take j (drop (k + i) p)"
  by (simp add: take_add add.commute)

lemma header_split:
  "take 32 p = take 4 (drop 0 p) @ take 2 (drop 4 p) @ take 2 (drop 6 p) @ take 4 (drop 8 p) @
     take 4 (drop 12 p) @ take 4 (drop 16 p) @ take 8 (drop 20 p) @ take 4 (drop 28 p)"
  using take_split[of 4 28 0 p] take_split[of 2 26 4 p] take_split[of 2 24 6 p] take_split[of 4 20 8 p]
    take_split[of 4 16 12 p] take_split[of 4 12 16 p] take_split[of 8 4 20 p]
  by simp

text \<open>The values a descriptor has in PostgreSQL: a valid OID, an \<open>int32\<close> modifier, an
  attribute count in range and a non-zero 64-bit fingerprint.\<close>

definition row_meta_ok :: "nat \<Rightarrow> int \<Rightarrow> nat \<Rightarrow> nat \<Rightarrow> bool" where
  "row_meta_ok oid typmod natts fp \<longleftrightarrow> 0 < oid \<and> oid < 4294967296 \<and>
     -2147483648 \<le> typmod \<and> typmod < 2147483648 \<and> natts \<le> MaxTupleAttributeNumber \<and>
     0 < fp \<and> fp < 18446744073709551616"

lemma header_fields:
  assumes len: "36 \<le> length p" and meta: "row_meta_ok oid typmod natts fp" and l: "l < 4294967296"
  shows "pglc_row_get_u32 p = PGLC_ROW_PAYLOAD_MAGIC \<and> pglc_row_get_u16 (drop 4 p) = PGLC_ROW_PAYLOAD_VERSION \<and>
    pglc_row_get_u16 (drop 6 p) = PGLC_ROW_PAYLOAD_FLAG_HAS_JSON \<and> pglc_row_get_u32 (drop 8 p) = oid \<and>
    int32_of_uint (pglc_row_get_u32 (drop 12 p)) = typmod \<and> pglc_row_get_u32 (drop 16 p) = natts \<and>
    pglc_row_get_u64 (drop 20 p) = fp \<and> pglc_row_get_u32 (drop 28 p) = l \<longleftrightarrow>
    take 32 p = row_header oid typmod natts fp l"
proof -
  have m: "oid < 4294967296" "natts < 4294967296" "fp < 18446744073709551616" "uint32_of_int typmod < 4294967296"
    using meta by (auto simp: row_meta_ok_def uint32_of_int_def)
  have tm: "int32_of_uint (pglc_row_get_u32 (drop 12 p)) = typmod \<longleftrightarrow>
      pglc_row_get_u32 (drop 12 p) = uint32_of_int typmod"
    using meta get_u32_less[of 12 p] len by (intro int32_cast) (auto simp: row_meta_ok_def)
  have len': "length (take i (drop k p)) = i" if "k + i \<le> 36" for i k using that len by simp
  show ?thesis
    unfolding tm header_split row_header_def
    using get_u32_iff[of 0 p PGLC_ROW_PAYLOAD_MAGIC] get_u16_iff[of 4 p PGLC_ROW_PAYLOAD_VERSION]
      get_u16_iff[of 6 p PGLC_ROW_PAYLOAD_FLAG_HAS_JSON] get_u32_iff[of 8 p, OF _ m(1)]
      get_u32_iff[of 12 p, OF _ m(4)] get_u32_iff[of 16 p, OF _ m(2)] get_u64_iff[of 20 p, OF _ m(3)]
      get_u32_iff[of 28 p, OF _ l] len
    by (simp add: len' append_eq_append_conv)
qed

lemma decode_iff:
  assumes meta: "row_meta_ok oid typmod natts fp" and crc: "\<And>c. FIN_CRC32C crc c < 4294967296"
  shows "pglc_row_payload_get_json_checked crc p oid typmod natts fp = Some json \<longleftrightarrow>
    38 \<le> length p \<and> length p \<le> PGLC_VALUE_MAX \<and> take 32 p = row_header oid typmod natts fp (length p - 36) \<and>
    take 4 (drop 32 p) = pglc_row_put_u32 (pglc_row_payload_checksum crc p) \<and>
    p ! 36 = CHR ''{'' \<and> p ! (length p - 1) = CHR ''}'' \<and> json = drop 36 p"
proof (cases "36 \<le> length p \<and> length p \<le> PGLC_VALUE_MAX")
  case True
  have ck: "pglc_row_get_u32 (drop 32 p) = pglc_row_payload_checksum crc p \<longleftrightarrow>
      take 4 (drop 32 p) = pglc_row_put_u32 (pglc_row_payload_checksum crc p)"
    using True crc by (intro get_u32_iff) (auto simp: pglc_row_payload_checksum_def Let_def)
  have l: "length p - 36 < 4294967296" using True by linarith
  have fp: "fp \<noteq> 0" using meta by (simp add: row_meta_ok_def)
  show ?thesis
    unfolding header_fields[OF conjunct1[OF True] meta l, symmetric] ck[symmetric]
      pglc_row_payload_get_json_checked_def
    using True fp by (auto simp: Let_def)
next
  case False
  then show ?thesis by (auto simp: pglc_row_payload_get_json_checked_def Let_def)
qed

lemma encode_iff:
  assumes "row_meta_ok oid typmod natts fp"
  shows "pglc_row_payload_encode crc oid typmod natts fp json cap = Some p \<longleftrightarrow>
    2 \<le> length json \<and> 36 + length json \<le> min cap PGLC_VALUE_MAX \<and> json ! 0 = CHR ''{'' \<and>
    json ! (length json - 1) = CHR ''}'' \<and>
    p = row_header oid typmod natts fp (length json) @
      pglc_row_put_u32 (pglc_row_payload_checksum crc p) @ json"
proof -
  let ?h = "row_header oid typmod natts fp (length json)"
  have ck: "pglc_row_payload_checksum crc (?h @ x @ json) = pglc_row_payload_checksum crc (?h @ y @ json)"
    if "length x = 4" "length y = 4" for x y
    using that by (simp add: pglc_row_payload_checksum_def)
  let ?c = "pglc_row_payload_checksum crc (?h @ replicate 4 (CHR 0x00) @ json)"
  have self: "p = ?h @ pglc_row_put_u32 ?c @ json \<longleftrightarrow>
      p = ?h @ pglc_row_put_u32 (pglc_row_payload_checksum crc p) @ json" (is "?A \<longleftrightarrow> ?B")
  proof
    assume A: ?A
    then have "pglc_row_payload_checksum crc p = ?c" by (simp only:) (rule ck; simp)
    then show ?B using A by simp
  next
    assume B: ?B
    then have "pglc_row_payload_checksum crc p = ?c" by (subst B) (rule ck; simp)
    then show ?A using B by simp
  qed
  show ?thesis
    unfolding self[symmetric] pglc_row_payload_encode_def
    using assms by (auto simp: Let_def row_meta_ok_def)
qed

lemma payload_iff:
  assumes meta: "row_meta_ok oid typmod natts fp" and crc: "\<And>c. FIN_CRC32C crc c < 4294967296"
  shows "pglc_row_payload_get_json_checked crc p oid typmod natts fp = Some json \<longleftrightarrow>
    pglc_row_payload_encode crc oid typmod natts fp json PGLC_VALUE_MAX = Some p" (is "?D \<longleftrightarrow> ?E")
proof
  assume D: ?D
  note d = D[unfolded decode_iff[OF meta crc]]
  have "p = take 32 p @ take 4 (drop 32 p) @ drop 36 p"
    using append_take_drop_id[of 32 p] append_take_drop_id[of 4 "drop 32 p"] by simp
  then have "p = row_header oid typmod natts fp (length json) @
      pglc_row_put_u32 (pglc_row_payload_checksum crc p) @ json" using d by simp
  moreover have "json ! 0 = CHR ''{''" "json ! (length json - 1) = CHR ''}''" using d by (auto simp: nth_append)
  ultimately show ?E unfolding encode_iff[OF meta] using d by auto
next
  assume E: ?E
  note e = E[unfolded encode_iff[OF meta]]
  define h where "h = row_header oid typmod natts fp (length json)"
  define k where "k = pglc_row_put_u32 (pglc_row_payload_checksum crc p)"
  have p: "p = h @ k @ json" and lh: "length h = 32" and lk: "length k = 4"
    using e by (auto simp: h_def k_def)
  have "length p - 36 = length json" "take 32 p = h" "take 4 (drop 32 p) = k" "drop 36 p = json" "length p = 36 + length json"
    using p lh lk by simp_all
  moreover have "p ! 36 = json ! 0" "p ! (length p - 1) = json ! (length json - 1)"
    using p lh lk e by (auto simp: nth_append)
  ultimately show ?D unfolding decode_iff[OF meta crc] using e by (simp add: h_def k_def)
qed

section \<open>Properties\<close>

text \<open>A checksum of 32 bits for the examples: the number of bytes seen.\<close>

definition demo_crc :: "nat crc32c" where
  "demo_crc = \<lparr>INIT_CRC32C = 0, COMP_CRC32C = (\<lambda>c s. c + length s), FIN_CRC32C = (\<lambda>c. c mod 4294967296)\<rparr>"

text \<open>C31: the checked decoder accepts a payload and returns \<open>json\<close> exactly when the encoder
  writes that payload for \<open>json\<close> under the same row type, type modifier, attribute count
  and descriptor fingerprint. In particular encoding and decoding are inverse, and
  truncated, padded or altered payloads that change any header field are rejected.\<close>

theorem row_payload_inverse:
  assumes "row_meta_ok oid typmod natts fp" "\<And>c. FIN_CRC32C crc c < 4294967296"
  shows "pglc_row_payload_get_json_checked crc payload oid typmod natts fp = Some json \<longleftrightarrow>
    pglc_row_payload_encode crc oid typmod natts fp json PGLC_VALUE_MAX = Some payload"
  by (rule payload_iff[OF assms])

theorem row_payload_inverse_witness:
  "\<exists>p. pglc_row_payload_encode demo_crc 16384 (-1) 3 77 ''{}'' 8192 = Some p \<and>
     pglc_row_payload_get_json_checked demo_crc p 16384 (-1) 3 77 = Some ''{}''"
proof -
  obtain p where "pglc_row_payload_encode demo_crc 16384 (-1) 3 77 ''{}'' 8192 = Some p"
    by (simp add: pglc_row_payload_encode_def Let_def)
  then show ?thesis
    using row_payload_inverse[of 16384 "-1" 3 77 demo_crc p "''{}''"] by (simp add: row_meta_ok_def demo_crc_def)
qed

text \<open>C32: a row cached under one descriptor is never returned under another: if the row
  type, the type modifier, the attribute count or the fingerprint differ, the checked
  decoder rejects the payload.\<close>

theorem row_payload_descriptor_bound:
  assumes "row_meta_ok oid typmod natts fp" "row_meta_ok oid' typmod' natts' fp'"
    and "\<And>c. FIN_CRC32C crc c < 4294967296"
    and "pglc_row_payload_encode crc oid typmod natts fp json cap = Some payload"
    and "(oid, typmod, natts, fp) \<noteq> (oid', typmod', natts', fp')"
  shows "pglc_row_payload_get_json_checked crc payload oid' typmod' natts' fp' = None"
proof (rule ccontr)
  assume "pglc_row_payload_get_json_checked crc payload oid' typmod' natts' fp' \<noteq> None"
  then obtain json' where "pglc_row_payload_get_json_checked crc payload oid' typmod' natts' fp' = Some json'"
    by blast
  note d = this[unfolded decode_iff[OF assms(2,3)]]
  have l: "36 \<le> length payload" "length payload - 36 < 4294967296" using d by auto
  have "take 32 payload = row_header oid typmod natts fp (length json)" "length payload = 36 + length json"
    using assms(4) unfolding encode_iff[OF assms(1)] by (metis append_eq_conv_conj length_row_header, auto dest: arg_cong[of _ _ length])
  then have "take 32 payload = row_header oid typmod natts fp (length payload - 36)" by simp
  from this[folded header_fields[OF l(1) assms(1) l(2)]] d[folded header_fields[OF l(1) assms(2) l(2)]]
  show False using assms(5) by simp
qed

theorem row_payload_descriptor_bound_witness:
  "\<exists>p. pglc_row_payload_encode demo_crc 16384 (-1) 3 77 ''{}'' 8192 = Some p \<and>
     pglc_row_payload_get_json_checked demo_crc p 16384 (-1) 4 77 = None"
proof -
  obtain p where "pglc_row_payload_encode demo_crc 16384 (-1) 3 77 ''{}'' 8192 = Some p"
    by (simp add: pglc_row_payload_encode_def Let_def)
  then show ?thesis
    using row_payload_descriptor_bound[of 16384 "-1" 3 77 16384 "-1" 4 77 demo_crc "''{}''" 8192 p]
    by (simp add: row_meta_ok_def demo_crc_def)
qed

end
