(* ===== verification/Sizing.thy ===== *)
theory Sizing
  imports Index Arena KeyCodec Resp "HOL-Library.Monad_Syntax"
begin

text \<open>
  Configuration-dependent sizes of the shared segment: the sizing functions of
  src/src/pg_local_cache.c (lines 838 to 1310), the worker memory estimate of
  src/src/pg_local_cache_worker.c and the storage layout that \<open>pglc_shmem_startup\<close>
  carves out of one allocation.

  \<^item> \<open>settings\<close> holds the configuration variables and the values derived from them.
    \<open>platform\<close> holds what the compiler and PostgreSQL decide: the \<open>sizeof\<close> constants
    and \<open>hash_estimate_size\<close>.
  \<^item> \<open>add_size\<close> and \<open>mul_size\<close> are PostgreSQL's checked operations: they raise an error
    instead of wrapping, so every computation built on them returns an option.
  \<^item> \<open>next_power_of_two_loop\<close> shifts a \<open>uint32\<close>; for a request above \<open>2 ^ 31\<close> the C loop
    never ends, and the model returns \<open>None\<close>.
\<close>

section \<open>Settings\<close>

record settings =
  pglc_port :: nat
  pglc_worker_count :: nat
  pglc_cache_entries :: nat
  pglc_dirty_marker_entries :: int
  pglc_dirty_marker_memory_mb :: int
  pglc_lock_partitions :: nat
  pglc_relation_states :: nat
  pglc_max_clients :: nat
  pglc_max_clients_per_worker :: nat
  pglc_max_deferred_misses :: nat
  pglc_memory_budget_mb :: nat
  pglc_statement_timeout_ms :: nat
  pglc_max_dirty_keys :: nat
  pglc_effective_dirty_marker_entries :: nat
  pglc_effective_dirty_marker_memory_mb :: nat
  pglc_active_lock_partitions :: nat

record platform =
  sizeof_entry :: nat
  sizeof_marker :: nat
  sizeof_shared_state :: nat
  sizeof_relation_state :: nat
  sizeof_relation_slot :: nat
  sizeof_lwlock_padded :: nat
  sizeof_arena_page :: nat
  sizeof_client :: nat
  sizeof_deferred_miss :: nat
  sizeof_pollfd :: nat
  sizeof_tuple_desc :: nat
  sizeof_attribute :: nat
  sizeof_mapping :: nat
  hash_estimate_size :: "nat \<Rightarrow> nat \<Rightarrow> nat"

abbreviation (input) PGLC_MAX_LOCK_PARTITIONS :: nat where "PGLC_MAX_LOCK_PARTITIONS \<equiv> 256"
abbreviation (input) PGLC_OUTPUT_BUFFER_MAX :: nat where
  "PGLC_OUTPUT_BUFFER_MAX \<equiv> 64 * 1024 + 1024 + 16 * 1024"
abbreviation (input) PGLC_MAX_MAPPINGS :: nat where "PGLC_MAX_MAPPINGS \<equiv> 128"
abbreviation (input) MaxTupleAttributeNumber :: nat where "MaxTupleAttributeNumber \<equiv> 1664"
abbreviation (input) megabyte :: nat where "megabyte \<equiv> 1048576"

definition pglc_check_dirty_marker_entries :: "int \<Rightarrow> bool" where
  "pglc_check_dirty_marker_entries newval \<longleftrightarrow> newval = -1 \<or> 128 \<le> newval \<and> newval \<le> 1048576"

definition pglc_check_dirty_marker_memory_mb :: "int \<Rightarrow> bool" where
  "pglc_check_dirty_marker_memory_mb newval \<longleftrightarrow> newval = -1 \<or> 1 \<le> newval \<and> newval \<le> 1024"

definition pglc_resolve_dirty_marker_settings :: "settings \<Rightarrow> settings" where
  "pglc_resolve_dirty_marker_settings s =
     s\<lparr>pglc_effective_dirty_marker_entries :=
         (if pglc_dirty_marker_entries s = -1
          then min 16384 (max 1024 (pglc_cache_entries s div 4))
          else nat (pglc_dirty_marker_entries s)),
       pglc_effective_dirty_marker_memory_mb :=
         (if pglc_dirty_marker_memory_mb s = -1
          then min 16 (max 1 (pglc_memory_budget_mb s div 25))
          else nat (pglc_dirty_marker_memory_mb s))\<rparr>"

section \<open>Checked sizes and the append-only layout\<close>

definition add_size :: "nat \<Rightarrow> nat \<Rightarrow> nat option" where
  "add_size a b = (if a + b \<le> UINT64_MAX then Some (a + b) else None)"

definition mul_size :: "nat \<Rightarrow> nat \<Rightarrow> nat option" where
  "mul_size a b = (if a * b \<le> UINT64_MAX then Some (a * b) else None)"

definition MAXALIGN :: "nat \<Rightarrow> nat" where
  "MAXALIGN n = u64 (n + 7) div 8 * 8"

text \<open>The result is the start of the region and the new offset.\<close>

definition pglc_align_append :: "nat \<Rightarrow> nat \<Rightarrow> (nat \<times> nat) option" where
  "pglc_align_append offset bytes =
     do {
       let start = MAXALIGN offset;
       end \<leftarrow> add_size start (MAXALIGN bytes);
       Some (start, end)
     }"

definition append_array :: "nat \<Rightarrow> nat \<Rightarrow> nat \<Rightarrow> (nat \<times> nat) option" where
  "append_array offset n item =
     do {
       bytes \<leftarrow> mul_size n item;
       pglc_align_append offset bytes
     }"

section \<open>Partition and index dimensions\<close>

partial_function (option) next_power_of_two_loop :: "nat \<Rightarrow> nat \<Rightarrow> nat option" where
  "next_power_of_two_loop requested result =
     (if result < requested then next_power_of_two_loop requested (u32 (result * 2)) else Some result)"

definition pglc_next_power_of_two :: "nat \<Rightarrow> nat option" where
  "pglc_next_power_of_two requested = next_power_of_two_loop requested 1"

definition pglc_partition_capacity :: "nat \<Rightarrow> nat \<Rightarrow> nat \<Rightarrow> nat" where
  "pglc_partition_capacity tot p partitions =
     tot div partitions + (if p < tot mod partitions then 1 else 0)"

definition pglc_index_buckets_for :: "nat \<Rightarrow> nat option" where
  "pglc_index_buckets_for capacity = pglc_next_power_of_two (max 16 (u32 (capacity * 2)))"

text \<open>\<open>add_size\<close> is exact here: both operands are non-negative \<open>int\<close> values.\<close>

definition pglc_cache_entries_per_partition :: "settings \<Rightarrow> nat \<Rightarrow> nat" where
  "pglc_cache_entries_per_partition s partitions =
     (pglc_cache_entries s + (partitions - 1)) div partitions"

function halve_partitions :: "settings \<Rightarrow> nat \<Rightarrow> nat" where
  "halve_partitions s partitions =
     (if 16 < partitions \<and> pglc_cache_entries_per_partition s partitions < 32
      then halve_partitions s (partitions div 2) else partitions)"
  by auto
termination by (relation "measure snd") auto

declare halve_partitions.simps [simp del]

text \<open>
  The C function also stores its result in \<open>pglc_active_lock_partitions\<close>;
  \<open>settle_partition_count\<close> is that store.
\<close>

definition pglc_cache_partition_count :: "settings \<Rightarrow> nat" where
  "pglc_cache_partition_count s =
     (if pglc_active_lock_partitions s \<noteq> 0 then pglc_active_lock_partitions s
      else halve_partitions s (pglc_lock_partitions s))"

definition settle_partition_count :: "settings \<Rightarrow> settings" where
  "settle_partition_count s = s\<lparr>pglc_active_lock_partitions := pglc_cache_partition_count s\<rparr>"

section \<open>Byte counts\<close>

definition marker_key_slots :: "settings \<Rightarrow> nat option" where
  "marker_key_slots s =
     do {
       bytes \<leftarrow> mul_size (pglc_effective_dirty_marker_memory_mb s) megabyte;
       Some (u32 (min (pglc_effective_dirty_marker_entries s) (bytes div PGLC_KEY_MAX)))
     }"

text \<open>One iteration of the loop over the partitions: eight arrays are appended.\<close>

definition fixed_bytes_step :: "settings \<Rightarrow> platform \<Rightarrow> nat \<Rightarrow> nat \<Rightarrow> nat \<Rightarrow> nat option" where
  "fixed_bytes_step s pf slots offset p =
     do {
       let partitions = pglc_cache_partition_count s;
       let capacity = pglc_partition_capacity (pglc_cache_entries s) p partitions;
       nb \<leftarrow> pglc_index_buckets_for capacity;
       let marker_capacity =
         pglc_partition_capacity (pglc_effective_dirty_marker_entries s) p partitions;
       marker_buckets \<leftarrow> pglc_index_buckets_for marker_capacity;
       let key_slots = pglc_partition_capacity slots p partitions;
       (_, o1) \<leftarrow> append_array offset capacity (sizeof_entry pf);
       (_, o2) \<leftarrow> append_array o1 nb 4;
       (_, o3) \<leftarrow> append_array o2 nb 4;
       (_, o4) \<leftarrow> append_array o3 marker_capacity (sizeof_marker pf);
       (_, o5) \<leftarrow> append_array o4 marker_buckets 4;
       (_, o6) \<leftarrow> append_array o5 marker_buckets 4;
       (_, o7) \<leftarrow> append_array o6 key_slots PGLC_KEY_MAX;
       (_, o8) \<leftarrow> append_array o7 key_slots 4;
       Some o8
     }"

fun fixed_bytes_loop :: "settings \<Rightarrow> platform \<Rightarrow> nat \<Rightarrow> nat \<Rightarrow> nat list \<Rightarrow> nat option" where
  "fixed_bytes_loop s pf slots offset [] = Some offset"
| "fixed_bytes_loop s pf slots offset (p # ps) =
     do {
       offset' \<leftarrow> fixed_bytes_step s pf slots offset p;
       fixed_bytes_loop s pf slots offset' ps
     }"

definition pglc_cache_storage_fixed_bytes :: "settings \<Rightarrow> platform \<Rightarrow> nat option" where
  "pglc_cache_storage_fixed_bytes s pf =
     do {
       slots \<leftarrow> marker_key_slots s;
       offset \<leftarrow> fixed_bytes_loop s pf slots 0 [0..<pglc_cache_partition_count s];
       add_size offset (MAXALIGN 64)
     }"

definition pglc_common_memory_bytes :: "settings \<Rightarrow> platform \<Rightarrow> nat option" where
  "pglc_common_memory_bytes s pf =
     do {
       let size = MAXALIGN (sizeof_shared_state pf);
       size \<leftarrow> add_size size (hash_estimate_size pf (pglc_relation_states s) (sizeof_relation_state pf));
       slots \<leftarrow> mul_size (pglc_relation_states s) (sizeof_relation_slot pf);
       size \<leftarrow> add_size size slots;
       locks \<leftarrow> mul_size (pglc_cache_partition_count s + 1) (sizeof_lwlock_padded pf);
       add_size size locks
     }"

definition pglc_cache_storage_bytes :: "settings \<Rightarrow> platform \<Rightarrow> nat \<Rightarrow> nat option" where
  "pglc_cache_storage_bytes s pf pages_per_partition =
     do {
       offset \<leftarrow> pglc_cache_storage_fixed_bytes s pf;
       page_count \<leftarrow> mul_size pages_per_partition (pglc_cache_partition_count s);
       (_, offset) \<leftarrow> append_array offset page_count (sizeof_arena_page pf);
       (_, offset) \<leftarrow> append_array offset page_count PGLC_ARENA_PAGE_SIZE;
       Some offset
     }"

definition pglc_worker_memory_bytes_per_worker :: "settings \<Rightarrow> platform \<Rightarrow> nat option" where
  "pglc_worker_memory_bytes_per_worker s pf =
     (if pglc_port s = 0 then Some 0
      else do {
        let slots = pglc_max_clients_per_worker s;
        bytes \<leftarrow> mul_size slots (sizeof_client pf);
        misses \<leftarrow> mul_size (pglc_max_deferred_misses s) (MAXALIGN (sizeof_deferred_miss pf));
        bytes \<leftarrow> add_size bytes misses;
        polls \<leftarrow> mul_size (slots + 1) (sizeof_pollfd pf);
        bytes \<leftarrow> add_size bytes polls;
        ints \<leftarrow> mul_size (slots + 1) 4;
        bytes \<leftarrow> add_size bytes ints;
        attributes \<leftarrow> mul_size MaxTupleAttributeNumber (sizeof_attribute pf);
        descriptor_bytes \<leftarrow> add_size (sizeof_tuple_desc pf) attributes;
        mapping_bytes \<leftarrow> add_size (sizeof_mapping pf) descriptor_bytes;
        mappings \<leftarrow> mul_size PGLC_MAX_MAPPINGS mapping_bytes;
        add_size bytes mappings
      })"

definition pglc_worker_memory_bytes :: "settings \<Rightarrow> platform \<Rightarrow> nat option" where
  "pglc_worker_memory_bytes s pf =
     (if pglc_port s = 0 then Some 0
      else do {
        total_slots \<leftarrow> mul_size (pglc_worker_count s) (pglc_max_clients_per_worker s);
        let active_clients = min (pglc_max_clients s) total_slots;
        per_worker \<leftarrow> pglc_worker_memory_bytes_per_worker s pf;
        worker_bytes \<leftarrow> mul_size (pglc_worker_count s) per_worker;
        client_buffer_bytes \<leftarrow> mul_size active_clients (PGLC_REQUEST_MAX + PGLC_OUTPUT_BUFFER_MAX);
        add_size worker_bytes client_buffer_bytes
      })"

text \<open>The loop that lowers the page count until the estimate fits the budget.\<close>

fun fit_pages :: "settings \<Rightarrow> platform \<Rightarrow> nat \<Rightarrow> nat \<Rightarrow> nat \<Rightarrow> nat option" where
  "fit_pages s pf non_cache budget 0 = Some 0"
| "fit_pages s pf non_cache budget (Suc n) =
     do {
       storage \<leftarrow> pglc_cache_storage_bytes s pf (Suc n);
       need \<leftarrow> add_size non_cache storage;
       if budget < need then fit_pages s pf non_cache budget n else Some (Suc n)
     }"

definition pglc_arena_pages_per_partition :: "settings \<Rightarrow> platform \<Rightarrow> nat option" where
  "pglc_arena_pages_per_partition s pf =
     do {
       budget \<leftarrow> mul_size (pglc_memory_budget_mb s) megabyte;
       common \<leftarrow> pglc_common_memory_bytes s pf;
       workers \<leftarrow> pglc_worker_memory_bytes s pf;
       non_cache \<leftarrow> add_size common workers;
       per_page \<leftarrow> add_size PGLC_ARENA_PAGE_SIZE (MAXALIGN (sizeof_arena_page pf));
       storage \<leftarrow> pglc_cache_storage_fixed_bytes s pf;
       fixed \<leftarrow> add_size non_cache storage;
       if budget \<le> fixed then Some 0
       else fit_pages s pf non_cache budget
              (u32 ((budget - fixed) div (pglc_cache_partition_count s * per_page)))
     }"

definition pglc_addin_shmem_bytes :: "settings \<Rightarrow> platform \<Rightarrow> nat option" where
  "pglc_addin_shmem_bytes s pf =
     do {
       pages \<leftarrow> pglc_arena_pages_per_partition s pf;
       storage \<leftarrow> pglc_cache_storage_bytes s pf pages;
       slots \<leftarrow> mul_size (pglc_relation_states s) (sizeof_relation_slot pf);
       n \<leftarrow> add_size slots storage;
       n \<leftarrow> add_size (hash_estimate_size pf (pglc_relation_states s) (sizeof_relation_state pf)) n;
       add_size (MAXALIGN (sizeof_shared_state pf)) n
     }"

definition pglc_shared_memory_bytes :: "settings \<Rightarrow> platform \<Rightarrow> nat option" where
  "pglc_shared_memory_bytes s pf =
     do {
       addin \<leftarrow> pglc_addin_shmem_bytes s pf;
       locks \<leftarrow> mul_size (pglc_cache_partition_count s + 1) (sizeof_lwlock_padded pf);
       add_size addin locks
     }"

definition pglc_estimated_memory_bytes :: "settings \<Rightarrow> platform \<Rightarrow> nat option" where
  "pglc_estimated_memory_bytes s pf =
     do {
       shared_bytes \<leftarrow> pglc_shared_memory_bytes s pf;
       workers \<leftarrow> pglc_worker_memory_bytes s pf;
       add_size shared_bytes workers
     }"

section \<open>Memory breakdown\<close>

record memory_breakdown =
  mb_workers :: nat
  mb_descriptors :: nat
  mb_buckets :: nat
  mb_scratch :: nat
  mb_markers :: nat
  mb_marker_buckets :: nat
  mb_marker_scratch :: nat
  mb_marker_keys :: nat
  mb_marker_key_free_list :: nat
  mb_registry :: nat
  mb_shared_state_and_locks :: nat
  mb_page_descriptors :: nat
  mb_arena :: nat
  mb_layout_overhead :: nat
  mb_total :: nat

text \<open>
  The loop accumulates, in this order, the totals of the cache buckets, the marker
  buckets, the marker descriptors, the marker keys and the key free list.
\<close>

definition add_array :: "nat \<Rightarrow> nat \<Rightarrow> nat \<Rightarrow> nat option" where
  "add_array acc n item =
     do {
       bytes \<leftarrow> mul_size n item;
       add_size acc bytes
     }"

fun breakdown_loop ::
  "settings \<Rightarrow> platform \<Rightarrow> nat \<Rightarrow> nat \<times> nat \<times> nat \<times> nat \<times> nat \<Rightarrow> nat list \<Rightarrow>
   (nat \<times> nat \<times> nat \<times> nat \<times> nat) option" where
  "breakdown_loop s pf slots acc [] = Some acc"
| "breakdown_loop s pf slots (cb, mb, md, mk, mf) (p # ps) =
     do {
       let partitions = pglc_cache_partition_count s;
       let capacity = pglc_partition_capacity (pglc_cache_entries s) p partitions;
       nb \<leftarrow> pglc_index_buckets_for capacity;
       let marker_capacity =
         pglc_partition_capacity (pglc_effective_dirty_marker_entries s) p partitions;
       marker_buckets \<leftarrow> pglc_index_buckets_for marker_capacity;
       let key_slots = pglc_partition_capacity slots p partitions;
       cb \<leftarrow> add_array cb nb 4;
       mb \<leftarrow> add_array mb marker_buckets 4;
       md \<leftarrow> add_array md marker_capacity (sizeof_marker pf);
       mk \<leftarrow> add_array mk key_slots PGLC_KEY_MAX;
       mf \<leftarrow> add_array mf key_slots 4;
       breakdown_loop s pf slots (cb, mb, md, mk, mf) ps
     }"

definition breakdown_parts :: "memory_breakdown \<Rightarrow> nat list" where
  "breakdown_parts b =
     [mb_workers b, mb_descriptors b, mb_buckets b, mb_scratch b, mb_markers b, mb_marker_buckets b,
      mb_marker_scratch b, mb_marker_keys b, mb_marker_key_free_list b, mb_registry b,
      mb_shared_state_and_locks b, mb_page_descriptors b, mb_arena b]"

fun add_sizes :: "nat \<Rightarrow> nat list \<Rightarrow> nat option" where
  "add_sizes acc [] = Some acc"
| "add_sizes acc (n # ns) =
     do {
       acc' \<leftarrow> add_size acc n;
       add_sizes acc' ns
     }"

definition pglc_memory_breakdown :: "settings \<Rightarrow> platform \<Rightarrow> memory_breakdown option" where
  "pglc_memory_breakdown s pf =
     do {
       let partitions = pglc_cache_partition_count s;
       pages \<leftarrow> pglc_arena_pages_per_partition s pf;
       slots \<leftarrow> marker_key_slots s;
       workers \<leftarrow> pglc_worker_memory_bytes s pf;
       descriptors \<leftarrow> mul_size (pglc_cache_entries s) (sizeof_entry pf);
       (cb, mb, md, mk, mf) \<leftarrow> breakdown_loop s pf slots (0, 0, 0, 0, 0) [0..<partitions];
       slot_bytes \<leftarrow> mul_size (pglc_relation_states s) (sizeof_relation_slot pf);
       registry \<leftarrow> add_size
         (hash_estimate_size pf (pglc_relation_states s) (sizeof_relation_state pf)) slot_bytes;
       locks \<leftarrow> mul_size (partitions + 1) (sizeof_lwlock_padded pf);
       state_and_locks \<leftarrow> add_size (MAXALIGN (sizeof_shared_state pf)) locks;
       all_pages \<leftarrow> mul_size pages partitions;
       page_descriptors \<leftarrow> mul_size all_pages (sizeof_arena_page pf);
       arena_bytes \<leftarrow> mul_size all_pages PGLC_ARENA_PAGE_SIZE;
       estimated \<leftarrow> pglc_estimated_memory_bytes s pf;
       let b = \<lparr>mb_workers = workers, mb_descriptors = descriptors, mb_buckets = cb, mb_scratch = cb,
         mb_markers = md, mb_marker_buckets = mb, mb_marker_scratch = mb, mb_marker_keys = mk,
         mb_marker_key_free_list = mf, mb_registry = registry,
         mb_shared_state_and_locks = state_and_locks, mb_page_descriptors = page_descriptors,
         mb_arena = arena_bytes, mb_layout_overhead = 0, mb_total = estimated\<rparr>;
       components \<leftarrow> add_sizes 0 (breakdown_parts b);
       Some (b\<lparr>mb_layout_overhead := u64_sub estimated components\<rparr>)
     }"

section \<open>Default capacity and startup validation\<close>

fun derive_loop :: "settings \<Rightarrow> platform \<Rightarrow> nat \<Rightarrow> nat \<Rightarrow> nat \<Rightarrow> nat list \<Rightarrow> nat option" where
  "derive_loop s pf budget minimum_pages best [] = Some best"
| "derive_loop s pf budget minimum_pages best (candidate # rest) =
     do {
       let trial = pglc_resolve_dirty_marker_settings
         (s\<lparr>pglc_cache_entries := candidate, pglc_active_lock_partitions := 0\<rparr>);
       common \<leftarrow> pglc_common_memory_bytes trial pf;
       workers \<leftarrow> pglc_worker_memory_bytes trial pf;
       need \<leftarrow> add_size common workers;
       storage \<leftarrow> pglc_cache_storage_bytes trial pf minimum_pages;
       need \<leftarrow> add_size need storage;
       all_pages \<leftarrow> mul_size minimum_pages (pglc_lock_partitions s);
       arena_bytes \<leftarrow> mul_size all_pages PGLC_ARENA_PAGE_SIZE;
       if budget < need \<or> arena_bytes < budget div 2 then Some best
       else derive_loop s pf budget minimum_pages candidate rest
     }"

definition pglc_derive_default_cache_entries :: "settings \<Rightarrow> platform \<Rightarrow> nat option" where
  "pglc_derive_default_cache_entries s pf =
     (let budget = 384 * megabyte;
          stride = pglc_lock_partitions s * PGLC_ARENA_PAGE_SIZE;
          minimum_pages = u32 ((budget div 2 + stride - 1) div stride)
      in derive_loop s pf budget minimum_pages 128 (map (\<lambda>k. 128 * 2 ^ k) [0..<18]))"

datatype startup_error =
  Client_Slots_Exceeded | Capacity_Out_Of_Bounds | Bad_Lock_Partitions | Budget_Exceeded | Size_Overflow

definition budget_check :: "settings \<Rightarrow> platform \<Rightarrow> startup_error option option" where
  "budget_check s pf =
     do {
       budget_bytes \<leftarrow> mul_size (pglc_memory_budget_mb s) megabyte;
       estimated_bytes \<leftarrow> pglc_estimated_memory_bytes s pf;
       breakdown \<leftarrow> pglc_memory_breakdown s pf;
       pages \<leftarrow> pglc_arena_pages_per_partition s pf;
       Some (if budget_bytes < estimated_bytes \<or> pages = 0 then Some Budget_Exceeded else None)
     }"

definition pglc_validate_startup_limits :: "settings \<Rightarrow> platform \<Rightarrow> startup_error option" where
  "pglc_validate_startup_limits s pf =
     (if pglc_port s \<noteq> 0 \<and> u64 (pglc_worker_count s * pglc_max_clients_per_worker s) < pglc_max_clients s
      then Some Client_Slots_Exceeded
      else if pglc_cache_entries s < 128 \<or> 16777216 < pglc_cache_entries s \<or>
              pglc_effective_dirty_marker_entries s < 128 \<or> pglc_effective_dirty_marker_memory_mb s < 1
      then Some Capacity_Out_Of_Bounds
      else if pglc_lock_partitions s < 16 \<or> PGLC_MAX_LOCK_PARTITIONS < pglc_lock_partitions s \<or>
              pglc_lock_partitions s AND (pglc_lock_partitions s - 1) \<noteq> 0
      then Some Bad_Lock_Partitions
      else case budget_check s pf of None \<Rightarrow> Some Size_Overflow | Some r \<Rightarrow> r)"

section \<open>The storage layout of \<open>pglc_shmem_startup\<close>\<close>

text \<open>A region is its start and its length in bytes; the arrays of a partition in order.\<close>

definition pglc_storage_take :: "nat \<Rightarrow> nat \<Rightarrow> nat \<Rightarrow> ((nat \<times> nat) \<times> nat) option" where
  "pglc_storage_take offset n item =
     do {
       bytes \<leftarrow> mul_size n item;
       (start, end) \<leftarrow> pglc_align_append offset bytes;
       Some ((start, bytes), end)
     }"

definition take_partition ::
  "settings \<Rightarrow> platform \<Rightarrow> nat \<Rightarrow> nat \<Rightarrow> nat \<Rightarrow> ((nat \<times> nat) list \<times> nat) option" where
  "take_partition s pf slots offset p =
     do {
       let partitions = pglc_cache_partition_count s;
       let capacity = pglc_partition_capacity (pglc_cache_entries s) p partitions;
       nb \<leftarrow> pglc_index_buckets_for capacity;
       let marker_capacity =
         pglc_partition_capacity (pglc_effective_dirty_marker_entries s) p partitions;
       marker_buckets \<leftarrow> pglc_index_buckets_for marker_capacity;
       let key_capacity = pglc_partition_capacity slots p partitions;
       (entries, offset) \<leftarrow> pglc_storage_take offset capacity (sizeof_entry pf);
       (index_buckets, offset) \<leftarrow> pglc_storage_take offset nb 4;
       (index_scratch, offset) \<leftarrow> pglc_storage_take offset nb 4;
       (markers, offset) \<leftarrow> pglc_storage_take offset marker_capacity (sizeof_marker pf);
       (marker_index_buckets, offset) \<leftarrow> pglc_storage_take offset marker_buckets 4;
       (marker_index_scratch, offset) \<leftarrow> pglc_storage_take offset marker_buckets 4;
       (marker_key_arena, offset) \<leftarrow> pglc_storage_take offset key_capacity PGLC_KEY_MAX;
       (marker_key_free_next, offset) \<leftarrow> pglc_storage_take offset key_capacity 4;
       Some ([entries, index_buckets, index_scratch, markers, marker_index_buckets,
              marker_index_scratch, marker_key_arena, marker_key_free_next], offset)
     }"

fun take_partitions ::
  "settings \<Rightarrow> platform \<Rightarrow> nat \<Rightarrow> nat \<Rightarrow> nat list \<Rightarrow> ((nat \<times> nat) list \<times> nat) option" where
  "take_partitions s pf slots offset [] = Some ([], offset)"
| "take_partitions s pf slots offset (p # ps) =
     do {
       (regions, offset) \<leftarrow> take_partition s pf slots offset p;
       (rest, offset) \<leftarrow> take_partitions s pf slots offset ps;
       Some (regions @ rest, offset)
     }"

definition startup_layout :: "settings \<Rightarrow> platform \<Rightarrow> nat \<Rightarrow> ((nat \<times> nat) list \<times> nat) option" where
  "startup_layout s pf pages_per_partition =
     do {
       slots \<leftarrow> marker_key_slots s;
       let partitions = pglc_cache_partition_count s;
       (regions, offset) \<leftarrow> take_partitions s pf slots 0 [0..<partitions];
       (guard_zone, offset) \<leftarrow> pglc_storage_take offset (MAXALIGN 64) 1;
       page_count \<leftarrow> mul_size pages_per_partition partitions;
       (all_pages, offset) \<leftarrow> pglc_storage_take offset page_count (sizeof_arena_page pf);
       (all_arena_memory, offset) \<leftarrow> pglc_storage_take offset page_count PGLC_ARENA_PAGE_SIZE;
       Some (regions @ [guard_zone, all_pages, all_arena_memory], offset)
     }"

section \<open>Powers of two\<close>

lemma power_two_loop:
  assumes "requested \<le> 2 ^ 31" "j \<le> 31"
  shows "\<exists>k \<ge> j. k \<le> 31 \<and> next_power_of_two_loop requested (2 ^ j) = Some (2 ^ k) \<and> requested \<le> 2 ^ k \<and>
    (k = j \<or> 2 ^ k < 2 * requested)"
  using assms(2)
proof (induction "31 - j" arbitrary: j)
  case 0
  then have "j = 31" by simp
  then show ?case using assms(1)
    by (intro exI[of _ 31]) (simp add: next_power_of_two_loop.simps[of requested])
next
  case (Suc d)
  show ?case
  proof (cases "(2::nat) ^ j < requested")
    case True
    have j: "j < 31" and d: "d = 31 - Suc j" using Suc(2) by simp_all
    have "(2::nat) ^ Suc j \<le> 2 ^ 31" using j by (intro power_increasing) auto
    then have "u32 (2 ^ j * 2) = 2 ^ Suc j" by simp
    then have eq: "next_power_of_two_loop requested (2 ^ j) = next_power_of_two_loop requested (2 ^ Suc j)"
      using True next_power_of_two_loop.simps[of requested "2 ^ j"] by simp
    obtain k where k: "Suc j \<le> k" "k \<le> 31" "next_power_of_two_loop requested (2 ^ Suc j) = Some (2 ^ k)"
      "requested \<le> 2 ^ k" "k = Suc j \<or> 2 ^ k < 2 * requested"
      using Suc(1)[OF d Suc_leI[OF j]] by blast
    have "2 ^ k < 2 * requested" using k(5) True by auto
    then show ?thesis using k eq by (intro exI[of _ k]) simp
  next
    case False
    then show ?thesis using Suc
      by (intro exI[of _ j]) (simp add: next_power_of_two_loop.simps[of requested])
  qed
qed

definition small_power :: "nat \<Rightarrow> bool" where
  "small_power r \<longleftrightarrow> r = 0 \<or> (\<exists>k \<le> 31. r = 2 ^ k)"

lemma small_power_step: "small_power r \<Longrightarrow> small_power (u32 (r * 2))"
proof -
  assume "small_power r"
  then consider "r = 0" | k where "k < 31" "r = 2 ^ k" | "r = 2 ^ 31"
    unfolding small_power_def by (metis le_neq_implies_less)
  then show ?thesis
  proof cases
    case (2 k)
    then have "(2::nat) ^ Suc k \<le> 2 ^ 31" by (intro power_increasing) auto
    then have "u32 (r * 2) = 2 ^ Suc k" using 2 by simp
    then show ?thesis using 2 unfolding small_power_def by (metis Suc_leI)
  qed (simp_all add: small_power_def u32_def)
qed

lemma small_power_le: "small_power r \<Longrightarrow> r \<le> 2 ^ 31"
proof -
  have "(2::nat) ^ k \<le> 2 ^ 31" if "k \<le> 31" for k using that by (intro power_increasing) auto
  then show "small_power r \<Longrightarrow> r \<le> 2 ^ 31" unfolding small_power_def by auto
qed

lemma power_two_values:
  assumes "next_power_of_two_loop requested r = Some y"
  shows "small_power r \<longrightarrow> requested \<le> y \<and> y \<le> 2 ^ 31"
proof (rule next_power_of_two_loop.raw_induct[where P = "\<lambda>requested r y. small_power r \<longrightarrow> requested \<le> y \<and> y \<le> 2 ^ 31",
      OF _ assms])
  fix f requested r y
  assume IH: "\<And>requested r y. f requested r = Some y \<Longrightarrow> small_power r \<longrightarrow> requested \<le> y \<and> y \<le> 2 ^ 31"
    and step: "(if r < requested then f requested (u32 (r * 2)) else Some r) = Some y"
  show "small_power r \<longrightarrow> requested \<le> y \<and> y \<le> 2 ^ 31"
  proof (cases "r < requested")
    case True
    then show ?thesis using IH[of requested "u32 (r * 2)" y] step small_power_step by simp
  next
    case False
    then show ?thesis using step small_power_le by auto
  qed
qed

text \<open>The least power of two, where a 32-bit one exists; no result at all above that.\<close>

lemma next_power_of_two_spec:
  "(\<exists>k. pglc_next_power_of_two requested = Some (2 ^ k) \<and> requested \<le> 2 ^ k \<and>
        (k = 0 \<or> 2 ^ (k - 1) < requested)) \<longleftrightarrow> requested \<le> 2 ^ 31"
  "2 ^ 31 < requested \<Longrightarrow> pglc_next_power_of_two requested = None"
proof -
  have none: "pglc_next_power_of_two requested = None" if "2 ^ 31 < requested"
  proof (cases "pglc_next_power_of_two requested")
    case (Some y)
    moreover have "small_power 1" unfolding small_power_def by (auto intro: exI[of _ 0])
    ultimately show ?thesis using that power_two_values[of requested 1 y] unfolding pglc_next_power_of_two_def by simp
  qed simp
  have "\<exists>k. pglc_next_power_of_two requested = Some (2 ^ k) \<and> requested \<le> 2 ^ k \<and>
      (k = 0 \<or> 2 ^ (k - 1) < requested)" if r: "requested \<le> 2 ^ 31"
  proof -
    obtain k where k: "pglc_next_power_of_two requested = Some (2 ^ k)" "requested \<le> 2 ^ k"
      "k = 0 \<or> 2 ^ k < 2 * requested"
      using power_two_loop[OF r, of 0] unfolding pglc_next_power_of_two_def power_0 by blast
    moreover have "k = 0 \<or> 2 ^ (k - 1) < requested" using k(3) by (cases k) auto
    ultimately show ?thesis by blast
  qed
  then show "(\<exists>k. pglc_next_power_of_two requested = Some (2 ^ k) \<and> requested \<le> 2 ^ k \<and>
        (k = 0 \<or> 2 ^ (k - 1) < requested)) \<longleftrightarrow> requested \<le> 2 ^ 31"
    using none by (cases "requested \<le> 2 ^ 31") (blast, simp)
  show "2 ^ 31 < requested \<Longrightarrow> pglc_next_power_of_two requested = None" by (rule none)
qed

lemma index_buckets_power:
  assumes "capacity \<le> 2 ^ 30"
  shows "\<exists>k. pglc_index_buckets_for capacity = Some (2 ^ k) \<and> 4 \<le> k \<and> k \<le> 31 \<and> 2 * capacity \<le> 2 ^ k"
proof -
  have u: "u32 (capacity * 2) = 2 * capacity" using assms by simp
  have r: "max 16 (2 * capacity) \<le> 2 ^ 31" using assms by simp
  obtain k where k: "k \<le> 31" "pglc_next_power_of_two (max 16 (2 * capacity)) = Some (2 ^ k)"
    "max 16 (2 * capacity) \<le> 2 ^ k"
    using power_two_loop[OF r, of 0] unfolding pglc_next_power_of_two_def power_0 by blast
  have "(16::nat) \<le> 2 ^ k" using k(3) by linarith
  then have "(2::nat) ^ 4 \<le> 2 ^ k" by simp
  then have "4 \<le> k" by (rule power_le_imp_le_exp[rotated]) simp
  moreover have "2 * capacity \<le> 2 ^ k" using k(3) by linarith
  ultimately show ?thesis using k(1,2) u unfolding pglc_index_buckets_for_def by auto
qed

lemma sum_partition_capacity:
  assumes "0 < partitions"
  shows "(\<Sum>p < partitions. pglc_partition_capacity n p partitions) = n"
proof -
  let ?r = "n mod partitions"
  have r: "?r \<le> partitions" using assms by (simp add: less_imp_le)
  have "(\<Sum>p < partitions. if p < ?r then 1 else 0 :: nat) = card {p. p < partitions \<and> p < ?r}"
    by (simp add: sum.If_cases Int_def conj_commute)
  also have "{p. p < partitions \<and> p < ?r} = {..< ?r}" using r by auto
  finally have "(\<Sum>p < partitions. if p < ?r then 1 else 0 :: nat) = ?r" by simp
  then have "(\<Sum>p < partitions. pglc_partition_capacity n p partitions) = partitions * (n div partitions) + ?r"
    unfolding pglc_partition_capacity_def by (simp add: sum.distrib)
  then show ?thesis by simp
qed

lemma partition_capacity_le: "0 < partitions \<Longrightarrow> p < partitions \<Longrightarrow> pglc_partition_capacity n p partitions \<le> n"
  using sum_partition_capacity[of partitions n] member_le_sum[of p "{..<partitions}" "\<lambda>p. pglc_partition_capacity n p partitions"]
  by simp

lemma halve_partitions_spec:
  assumes "n = 2 ^ k" "4 \<le> k"
  shows "\<exists>j. 4 \<le> j \<and> j \<le> k \<and> halve_partitions s n = 2 ^ j \<and>
    (j = 4 \<or> 32 \<le> pglc_cache_entries_per_partition s (2 ^ j))"
  using assms
proof (induction s n arbitrary: k rule: halve_partitions.induct)
  case (1 s n)
  show ?case
  proof (cases "16 < n \<and> pglc_cache_entries_per_partition s n < 32")
    case True
    have "4 < k"
    proof (rule ccontr)
      assume "\<not> 4 < k"
      then have "n \<le> 2 ^ 4" using 1 by simp
      then show False using True by simp
    qed
    then have d: "n div 2 = 2 ^ (k - 1)" "4 \<le> k - 1" using 1 by (cases k; simp)+
    show ?thesis using 1(1)[OF True d] True halve_partitions.simps[of s n] by auto
  next
    case False
    then have h: "halve_partitions s n = n" using halve_partitions.simps[of s n] by auto
    have "k = 4 \<or> 16 < n"
    proof (cases "k = 4")
      case False
      then have "(2::nat) ^ 5 \<le> 2 ^ k" using 1 by (intro power_increasing) auto
      then show ?thesis using 1 by simp
    qed simp
    then show ?thesis using False h 1 by (intro exI[of _ k]) auto
  qed
qed

lemma halve_partitions_settled:
  "halve_partitions (s\<lparr>pglc_active_lock_partitions := c\<rparr>) n = halve_partitions s n"
proof (induction s n rule: halve_partitions.induct)
  case (1 s n)
  have "pglc_cache_entries_per_partition (s\<lparr>pglc_active_lock_partitions := c\<rparr>) n = pglc_cache_entries_per_partition s n"
    by (simp add: pglc_cache_entries_per_partition_def)
  then show ?case using 1 halve_partitions.simps[of s n] halve_partitions.simps[of "s\<lparr>pglc_active_lock_partitions := c\<rparr>" n]
    by auto
qed

lemma partition_count_settled: "pglc_cache_partition_count (settle_partition_count s) = pglc_cache_partition_count s"
  by (simp add: settle_partition_count_def pglc_cache_partition_count_def halve_partitions_settled)

section \<open>Layout\<close>

text \<open>Regions in increasing order between two offsets, none overlapping the next.\<close>

fun spread :: "nat \<Rightarrow> (nat \<times> nat) list \<Rightarrow> nat \<Rightarrow> bool" where
  "spread a [] b \<longleftrightarrow> a \<le> b"
| "spread a ((start, bytes) # rs) b \<longleftrightarrow> a \<le> start \<and> spread (start + bytes) rs b"

lemma spread_le: "spread a rs b \<Longrightarrow> a \<le> b"
  by (induction a rs b rule: spread.induct) auto

lemma spread_append: "spread a rs b \<Longrightarrow> spread b rs' c \<Longrightarrow> spread a (rs @ rs') c"
proof (induction a rs b rule: spread.induct)
  case (1 a b)
  then show ?case by (cases rs') auto
qed auto

lemma maxalign_small:
  assumes "n \<le> 18446744073709551608"
  shows "n \<le> MAXALIGN n" "MAXALIGN n mod 8 = 0"
proof -
  have "u64 (n + 7) = n + 7" using assms by simp
  then show "n \<le> MAXALIGN n" unfolding MAXALIGN_def by simp
  show "MAXALIGN n mod 8 = 0" unfolding MAXALIGN_def by simp
qed

lemma maxalign_aligned: "n mod 8 = 0 \<Longrightarrow> n \<le> UINT64_MAX \<Longrightarrow> MAXALIGN n = n"
proof -
  assume a: "n mod 8 = 0" "n \<le> UINT64_MAX"
  have "n \<noteq> 18446744073709551609" "n \<noteq> 18446744073709551610" "n \<noteq> 18446744073709551611"
    "n \<noteq> 18446744073709551612" "n \<noteq> 18446744073709551613" "n \<noteq> 18446744073709551614"
    "n \<noteq> 18446744073709551615" using a(1) by auto
  then have "n \<le> 18446744073709551608" using a(2) by linarith
  then have "u64 (n + 7) = n + 7" by simp
  moreover have "(n + 7) div 8 * 8 = n" using a(1) by presburger
  ultimately show ?thesis unfolding MAXALIGN_def by simp
qed

text \<open>One append to an aligned offset.\<close>

lemma storage_take_spec:
  assumes "offset mod 8 = 0" "offset \<le> UINT64_MAX" "n * item \<le> 18446744073709551608"
    and "append_array offset n item = Some (x, e)"
  shows "pglc_storage_take offset n item = Some ((offset, n * item), e) \<and> offset + n * item \<le> e \<and>
    e mod 8 = 0 \<and> e \<le> UINT64_MAX"
proof -
  note al = maxalign_aligned[OF assms(1,2)] maxalign_small[OF assms(3)]
  have "mul_size n item = Some (n * item)" using assms(3) by (simp add: mul_size_def)
  then have e: "e = offset + MAXALIGN (n * item)" "e \<le> UINT64_MAX"
    using assms(4) al(1) by (auto simp: append_array_def pglc_align_append_def add_size_def split: if_splits)
  moreover have "e mod 8 = 0" using e(1) al(3) assms(1) by (simp add: mod_add_eq[symmetric])
  moreover have "pglc_storage_take offset n item = Some ((offset, n * item), e)"
    using e al(1) \<open>mul_size n item = Some (n * item)\<close>
    by (simp add: pglc_storage_take_def pglc_align_append_def add_size_def)
  ultimately show ?thesis using al(2) by simp
qed

text \<open>The bounds the startup checks and the platform give.\<close>

definition sizes_ok :: "settings \<Rightarrow> platform \<Rightarrow> bool" where
  "sizes_ok s pf \<longleftrightarrow>
     pglc_cache_entries s \<le> 16777216 \<and> pglc_effective_dirty_marker_entries s \<le> 1048576 \<and>
     0 < pglc_cache_partition_count s \<and> pglc_cache_partition_count s \<le> 256 \<and>
     sizeof_entry pf \<le> 65536 \<and> sizeof_marker pf \<le> 65536 \<and> sizeof_arena_page pf \<le> 65536"

lemma product_bound: "a \<le> A \<Longrightarrow> b \<le> B \<Longrightarrow> A * B \<le> C \<Longrightarrow> a * b \<le> (C::nat)"
  using mult_le_mono[of a A b B] by linarith

lemma sizes_ok_products:
  assumes "sizes_ok s pf" "p < pglc_cache_partition_count s" "slots \<le> 1048576"
  defines "c \<equiv> pglc_partition_capacity (pglc_cache_entries s) p (pglc_cache_partition_count s)"
    and "m \<equiv> pglc_partition_capacity (pglc_effective_dirty_marker_entries s) p (pglc_cache_partition_count s)"
    and "k \<equiv> pglc_partition_capacity slots p (pglc_cache_partition_count s)"
  shows "c * sizeof_entry pf \<le> 18446744073709551608" "m * sizeof_marker pf \<le> 18446744073709551608"
    "k * 1024 \<le> 18446744073709551608" "k * 4 \<le> 18446744073709551608"
    "pglc_index_buckets_for c = Some nb \<Longrightarrow> nb * 4 \<le> 18446744073709551608"
    "pglc_index_buckets_for m = Some nb \<Longrightarrow> nb * 4 \<le> 18446744073709551608"
proof -
  have pc: "0 < pglc_cache_partition_count s" using assms(1) by (simp add: sizes_ok_def)
  have c: "c \<le> 16777216" and m: "m \<le> 1048576" and k: "k \<le> 1048576"
    using partition_capacity_le[OF pc assms(2)] assms(1,3) unfolding c_def m_def k_def sizes_ok_def
    by (meson le_trans)+
  have "sizeof_entry pf \<le> 65536" "sizeof_marker pf \<le> 65536" using assms(1) by (auto simp: sizes_ok_def)
  then show "c * sizeof_entry pf \<le> 18446744073709551608" "m * sizeof_marker pf \<le> 18446744073709551608"
    using product_bound[OF c] product_bound[OF m] by simp_all
  show "k * 1024 \<le> 18446744073709551608" "k * 4 \<le> 18446744073709551608" using k by simp_all
  have nb: "nb * 4 \<le> 18446744073709551608" if n: "pglc_index_buckets_for n = Some nb" "n \<le> 16777216" for n
  proof -
    obtain j where "pglc_index_buckets_for n = Some (2 ^ j)" "j \<le> 31"
      using index_buckets_power[of n] n(2) by auto
    moreover have "(2::nat) ^ j \<le> 2 ^ 31" using \<open>j \<le> 31\<close> by (intro power_increasing) auto
    ultimately show ?thesis using n(1) by simp
  qed
  show "pglc_index_buckets_for c = Some nb \<Longrightarrow> nb * 4 \<le> 18446744073709551608" using nb c by blast
  show "pglc_index_buckets_for m = Some nb \<Longrightarrow> nb * 4 \<le> 18446744073709551608" using nb[of m] m by simp
qed

definition aligned :: "nat \<Rightarrow> bool" where
  "aligned n \<longleftrightarrow> n mod 8 = 0 \<and> n \<le> UINT64_MAX"

lemma take_aligned:
  assumes "aligned offset" "n * item \<le> 18446744073709551608" "append_array offset n item = Some (x, e)"
  shows "aligned e" "offset + n * item \<le> e" "pglc_storage_take offset n item = Some ((offset, n * item), e)"
  using storage_take_spec[OF _ _ assms(2,3)] assms(1) unfolding aligned_def by auto

lemma take_partition_spec:
  assumes "sizes_ok s pf" "p < pglc_cache_partition_count s" "slots \<le> 1048576" "aligned offset"
    and "fixed_bytes_step s pf slots offset p = Some e"
  shows "\<exists>rs. take_partition s pf slots offset p = Some (rs, e) \<and> spread offset rs e \<and> aligned e"
proof -
  define n where "n = pglc_cache_partition_count s"
  define c where "c = pglc_partition_capacity (pglc_cache_entries s) p n"
  define m where "m = pglc_partition_capacity (pglc_effective_dirty_marker_entries s) p n"
  define k where "k = pglc_partition_capacity slots p n"
  note B = sizes_ok_products[OF assms(1-3), folded n_def, folded c_def m_def k_def]
  obtain nb mb x1 o1 x2 o2 x3 o3 x4 o4 x5 o5 x6 o6 x7 o7 x8 where A:
    "pglc_index_buckets_for c = Some nb" "pglc_index_buckets_for m = Some mb"
    "append_array offset c (sizeof_entry pf) = Some (x1, o1)" "append_array o1 nb 4 = Some (x2, o2)"
    "append_array o2 nb 4 = Some (x3, o3)" "append_array o3 m (sizeof_marker pf) = Some (x4, o4)"
    "append_array o4 mb 4 = Some (x5, o5)" "append_array o5 mb 4 = Some (x6, o6)"
    "append_array o6 k 1024 = Some (x7, o7)" "append_array o7 k 4 = Some (x8, e)"
    using assms(5) unfolding fixed_bytes_step_def Let_def n_def[symmetric] c_def[symmetric] m_def[symmetric] k_def[symmetric]
    by (auto simp: bind_eq_Some_conv)
  note t1 = take_aligned[OF assms(4) B(1) A(3)]
  note t2 = take_aligned[OF t1(1) B(5)[OF A(1)] A(4)]
  note t3 = take_aligned[OF t2(1) B(5)[OF A(1)] A(5)]
  note t4 = take_aligned[OF t3(1) B(2) A(6)]
  note t5 = take_aligned[OF t4(1) B(6)[OF A(2)] A(7)]
  note t6 = take_aligned[OF t5(1) B(6)[OF A(2)] A(8)]
  note t7 = take_aligned[OF t6(1) B(3) A(9)]
  note t8 = take_aligned[OF t7(1) B(4) A(10)]
  note t = t1 t2 t3 t4 t5 t6 t7 t8
  have "take_partition s pf slots offset p = Some ([(offset, c * sizeof_entry pf), (o1, nb * 4), (o2, nb * 4),
      (o3, m * sizeof_marker pf), (o4, mb * 4), (o5, mb * 4), (o6, k * 1024), (o7, k * 4)], e)"
    unfolding take_partition_def Let_def n_def[symmetric] c_def[symmetric] m_def[symmetric] k_def[symmetric]
    using A(1,2) t by simp
  moreover have "spread offset [(offset, c * sizeof_entry pf), (o1, nb * 4), (o2, nb * 4),
      (o3, m * sizeof_marker pf), (o4, mb * 4), (o5, mb * 4), (o6, k * 1024), (o7, k * 4)] e"
    using t by simp
  ultimately show ?thesis using t8(1) by blast
qed

lemma take_partitions_spec:
  assumes "sizes_ok s pf" "\<forall>p \<in> set ps. p < pglc_cache_partition_count s" "slots \<le> 1048576" "aligned offset"
    and "fixed_bytes_loop s pf slots offset ps = Some e"
  shows "\<exists>rs. take_partitions s pf slots offset ps = Some (rs, e) \<and> spread offset rs e \<and> aligned e"
  using assms(2,4,5)
proof (induction ps arbitrary: offset)
  case (Cons p ps)
  obtain o1 where o1: "fixed_bytes_step s pf slots offset p = Some o1" "fixed_bytes_loop s pf slots o1 ps = Some e"
    using Cons.prems(3) by (auto simp: bind_eq_Some_conv)
  obtain rs1 where rs1: "take_partition s pf slots offset p = Some (rs1, o1)" "spread offset rs1 o1" "aligned o1"
    using take_partition_spec[OF assms(1) _ assms(3) Cons.prems(2) o1(1)] Cons.prems(1) by auto
  obtain rs2 where rs2: "take_partitions s pf slots o1 ps = Some (rs2, e)" "spread o1 rs2 e" "aligned e"
    using Cons.IH[OF _ rs1(3) o1(2)] Cons.prems(1) by auto
  show ?case using rs1 rs2 spread_append[OF rs1(2) rs2(2)] by simp
qed auto

lemma marker_key_slots_le:
  assumes "sizes_ok s pf" "marker_key_slots s = Some slots"
  shows "slots \<le> 1048576"
proof -
  have m: "pglc_effective_dirty_marker_entries s \<le> 1048576" using assms(1) by (simp add: sizes_ok_def)
  obtain b where "slots = u32 (min (pglc_effective_dirty_marker_entries s) (b div 1024))"
    using assms(2) unfolding marker_key_slots_def by (auto simp: bind_eq_Some_conv)
  moreover have "min (pglc_effective_dirty_marker_entries s) (b div 1024) \<le> 1048576" using m by simp
  ultimately show ?thesis by simp
qed

text \<open>
  Startup carves exactly the bytes that were reserved: the walk succeeds whenever the
  reservation could be computed, ends at the reserved size, and no two arrays overlap.
\<close>

lemma startup_layout_spec:
  assumes "sizes_ok s pf" "np \<le> UINT32_MAX" "pglc_cache_storage_bytes s pf np = Some n"
  shows "\<exists>regions. startup_layout s pf np = Some (regions, n) \<and> spread 0 regions n"
proof -
  obtain slots o1 o2 x3 o3 x4 pc where S: "marker_key_slots s = Some slots"
    "fixed_bytes_loop s pf slots 0 [0..<pglc_cache_partition_count s] = Some o1"
    "add_size o1 (MAXALIGN 64) = Some o2" "mul_size np (pglc_cache_partition_count s) = Some pc"
    "append_array o2 pc (sizeof_arena_page pf) = Some (x3, o3)" "append_array o3 pc 65536 = Some (x4, n)"
    using assms(3) unfolding pglc_cache_storage_bytes_def pglc_cache_storage_fixed_bytes_def
    by (auto simp: bind_eq_Some_conv)
  have sl: "slots \<le> 1048576" by (rule marker_key_slots_le[OF assms(1) S(1)])
  obtain rs where rs: "take_partitions s pf slots 0 [0..<pglc_cache_partition_count s] = Some (rs, o1)"
    "spread 0 rs o1" "aligned o1"
    using take_partitions_spec[OF assms(1) _ sl _ S(2)] by (auto simp: aligned_def)
  have m64: "MAXALIGN 64 = 64" by (simp add: MAXALIGN_def)
  have "append_array o1 64 1 = Some (o1, o2)"
    using S(3) rs(3) m64 maxalign_aligned[of o1] unfolding append_array_def pglc_align_append_def aligned_def
    by (simp add: mul_size_def add_size_def split: if_splits)
  note t1 = take_aligned[OF rs(3) _ this]
  have pc: "pc \<le> 4294967295 * 256"
  proof -
    have "pglc_cache_partition_count s \<le> 256" using assms(1) by (simp add: sizes_ok_def)
    then have "np * pglc_cache_partition_count s \<le> 4294967295 * 256" by (intro mult_le_mono assms(2))
    then show ?thesis using S(4) by (simp add: mul_size_def split: if_splits)
  qed
  have "sizeof_arena_page pf \<le> 65536" using assms(1) by (simp add: sizes_ok_def)
  then have b1: "pc * sizeof_arena_page pf \<le> 18446744073709551608" by (rule product_bound[OF pc]) simp
  have b2: "pc * 65536 \<le> 18446744073709551608" using pc by simp
  have o2: "aligned o2" using t1(1) by simp
  note t2 = take_aligned[OF o2 b1 S(5)]
  note t3 = take_aligned[OF t2(1) b2 S(6)]
  have "startup_layout s pf np =
      Some (rs @ [(o1, 64), (o2, pc * sizeof_arena_page pf), (o3, pc * 65536)], n)"
    unfolding startup_layout_def Let_def using S(1,4) rs(1) t1(3) t2(3) t3(3) m64 by simp
  moreover have "spread o1 [(o1, 64), (o2, pc * sizeof_arena_page pf), (o3, pc * 65536)] n"
    using t1(2) t2(2) t3(2) by simp
  ultimately show ?thesis using spread_append[OF rs(2)] by blast
qed

lemma spread_bytes: "spread a rs b \<Longrightarrow> a + sum_list (map snd rs) \<le> b"
  by (induction a rs b rule: spread.induct) auto

lemma spread_nth:
  "spread a rs b \<Longrightarrow> i < length rs \<Longrightarrow> a \<le> fst (rs ! i) \<and> fst (rs ! i) + snd (rs ! i) \<le> b"
proof (induction a rs b arbitrary: i rule: spread.induct)
  case (2 a start bytes rs b)
  then have st: "a \<le> start" "start + bytes \<le> b" using spread_le by fastforce+
  show ?case
  proof (cases i)
    case 0
    then show ?thesis using st by simp
  next
    case (Suc k)
    then have "start + bytes \<le> fst (rs ! k) \<and> fst (rs ! k) + snd (rs ! k) \<le> b" using 2 by auto
    then show ?thesis using Suc st by simp
  qed
qed simp

lemma spread_disjoint:
  "spread a rs b \<Longrightarrow> i < j \<Longrightarrow> j < length rs \<Longrightarrow> fst (rs ! i) + snd (rs ! i) \<le> fst (rs ! j)"
proof (induction a rs b arbitrary: i j rule: spread.induct)
  case (2 a start bytes rs b)
  then obtain k where k: "j = Suc k" by (cases j) auto
  show ?case
  proof (cases i)
    case 0
    then show ?thesis using 2 k spread_nth[of "start + bytes" rs b k] by simp
  next
    case (Suc l)
    then show ?thesis using 2 k by simp
  qed
qed simp

section \<open>The budget\<close>

definition fits :: "nat \<Rightarrow> bool" where
  "fits n \<longleftrightarrow> n \<le> UINT64_MAX"

lemma size_Some:
  "add_size a b = Some c \<longleftrightarrow> fits c \<and> c = a + b" "mul_size a b = Some c \<longleftrightarrow> fits c \<and> c = a * b"
  by (auto simp: add_size_def mul_size_def fits_def)

lemma fit_pages_spec:
  assumes "fit_pages s pf non_cache budget n = Some p" "0 < p"
  shows "\<exists>storage. pglc_cache_storage_bytes s pf p = Some storage \<and> non_cache + storage \<le> budget"
  using assms(1)
proof (induction n)
  case (Suc n)
  then show ?case by (auto simp: bind_eq_Some_conv size_Some split: if_splits)
qed (use assms(2) in simp)

lemma estimate_eq:
  assumes "pglc_estimated_memory_bytes s pf = Some est" "pglc_arena_pages_per_partition s pf = Some p"
  shows "\<exists>storage common workers. pglc_cache_storage_bytes s pf p = Some storage \<and>
    pglc_common_memory_bytes s pf = Some common \<and> pglc_worker_memory_bytes s pf = Some workers \<and>
    est = common + workers + storage"
proof -
  have "\<exists>common. pglc_common_memory_bytes s pf = Some common"
    using assms(2) unfolding pglc_arena_pages_per_partition_def by (auto simp: bind_eq_Some_conv)
  then obtain common where c: "pglc_common_memory_bytes s pf = Some common" by blast
  have c': "common = MAXALIGN (sizeof_shared_state pf) +
      hash_estimate_size pf (pglc_relation_states s) (sizeof_relation_state pf) +
      pglc_relation_states s * sizeof_relation_slot pf + (pglc_cache_partition_count s + 1) * sizeof_lwlock_padded pf"
    using c unfolding pglc_common_memory_bytes_def Let_def
    by (auto simp: bind_eq_Some_conv size_Some)
  show ?thesis using assms c
    unfolding pglc_estimated_memory_bytes_def pglc_shared_memory_bytes_def pglc_addin_shmem_bytes_def
    by (auto simp: bind_eq_Some_conv size_Some c')
qed

lemma pages_fit_budget:
  assumes "pglc_arena_pages_per_partition s pf = Some p" "0 < p" "pglc_estimated_memory_bytes s pf = Some est"
  shows "est \<le> pglc_memory_budget_mb s * 1048576"
proof -
  obtain storage common workers where e: "pglc_cache_storage_bytes s pf p = Some storage"
    "pglc_common_memory_bytes s pf = Some common" "pglc_worker_memory_bytes s pf = Some workers"
    "est = common + workers + storage"
    using estimate_eq[OF assms(3,1)] by blast
  obtain n where "fit_pages s pf (common + workers) (pglc_memory_budget_mb s * 1048576) n = Some p"
    using assms(1,2) e(2,3) unfolding pglc_arena_pages_per_partition_def
    by (auto simp: bind_eq_Some_conv size_Some split: if_splits)
  from fit_pages_spec[OF this assms(2)] show ?thesis using e by auto
qed

lemma add_sizes_sum: "add_sizes acc ns = Some n \<Longrightarrow> n = acc + sum_list ns"
proof (induction ns arbitrary: acc)
  case (Cons k ns)
  then have "add_sizes (acc + k) ns = Some n" by (auto simp: bind_eq_Some_conv size_Some)
  from Cons.IH[OF this] show ?case by simp
qed simp

lemma breakdown_loop_sum:
  assumes "take_partitions s pf slots offset ps = Some (rs, e)"
    and "breakdown_loop s pf slots (cb, mb, md, mk, mf) ps = Some (cb', mb', md', mk', mf')"
  shows "sum_list (map snd rs) + 2 * cb + 2 * mb + md + mk + mf =
    (\<Sum>p \<leftarrow> ps. pglc_partition_capacity (pglc_cache_entries s) p (pglc_cache_partition_count s)) * sizeof_entry pf
      + 2 * cb' + 2 * mb' + md' + mk' + mf'"
  using assms
proof (induction ps arbitrary: offset rs cb mb md mk mf)
  case (Cons p ps)
  define c where "c = pglc_partition_capacity (pglc_cache_entries s) p (pglc_cache_partition_count s)"
  define m where "m = pglc_partition_capacity (pglc_effective_dirty_marker_entries s) p (pglc_cache_partition_count s)"
  define k where "k = pglc_partition_capacity slots p (pglc_cache_partition_count s)"
  obtain rs1 o1 rs2 where T: "take_partition s pf slots offset p = Some (rs1, o1)"
    "take_partitions s pf slots o1 ps = Some (rs2, e)" "rs = rs1 @ rs2"
    using Cons.prems(1) by (auto simp: bind_eq_Some_conv)
  obtain nb mbk where nb: "pglc_index_buckets_for c = Some nb" "pglc_index_buckets_for m = Some mbk"
    and B: "breakdown_loop s pf slots (cb + nb * 4, mb + mbk * 4, md + m * sizeof_marker pf, mk + k * 1024, mf + k * 4) ps
      = Some (cb', mb', md', mk', mf')"
    using Cons.prems(2)
    unfolding breakdown_loop.simps Let_def c_def[symmetric] m_def[symmetric] k_def[symmetric] add_array_def
    by (auto simp: bind_eq_Some_conv size_Some)
  have "sum_list (map snd rs1) = c * sizeof_entry pf + nb * 4 + nb * 4 + m * sizeof_marker pf + mbk * 4 + mbk * 4 + k * 1024 + k * 4"
    using T(1) nb unfolding take_partition_def Let_def c_def[symmetric] m_def[symmetric] k_def[symmetric] pglc_storage_take_def
    by (auto simp: bind_eq_Some_conv size_Some)
  then show ?case using Cons.IH[OF T(2) B] T(3) unfolding c_def[symmetric]
    by (simp add: c_def[symmetric] algebra_simps)
qed auto

lemma breakdown_parts_overhead: "breakdown_parts (b\<lparr>mb_layout_overhead := x\<rparr>) = breakdown_parts b"
  by (simp add: breakdown_parts_def)

lemma memory_breakdown_sum:
  assumes "sizes_ok s pf" "pglc_memory_breakdown s pf = Some b"
    and "pglc_arena_pages_per_partition s pf = Some p" "p \<le> UINT32_MAX"
  shows "sum_list (breakdown_parts b) + mb_layout_overhead b = mb_total b"
proof -
  define n where "n = pglc_cache_partition_count s"
  define est where "est = mb_total b"
  obtain slots cb mb md mk mf workers locks reg c where D:
    "marker_key_slots s = Some slots" "breakdown_loop s pf slots (0, 0, 0, 0, 0) [0..<n] = Some (cb, mb, md, mk, mf)"
    "pglc_worker_memory_bytes s pf = Some workers"
    "reg = hash_estimate_size pf (pglc_relation_states s) (sizeof_relation_state pf) +
      pglc_relation_states s * sizeof_relation_slot pf"
    "locks = MAXALIGN (sizeof_shared_state pf) + (n + 1) * sizeof_lwlock_padded pf"
    "mb_workers b = workers" "mb_descriptors b = pglc_cache_entries s * sizeof_entry pf" "mb_buckets b = cb"
    "mb_scratch b = cb" "mb_markers b = md" "mb_marker_buckets b = mb" "mb_marker_scratch b = mb"
    "mb_marker_keys b = mk" "mb_marker_key_free_list b = mf" "mb_registry b = reg"
    "mb_shared_state_and_locks b = locks" "mb_page_descriptors b = p * n * sizeof_arena_page pf"
    "mb_arena b = p * n * 65536" "add_sizes 0 (breakdown_parts (b\<lparr>mb_layout_overhead := 0\<rparr>)) = Some c"
    "mb_layout_overhead b = u64_sub est c" "pglc_estimated_memory_bytes s pf = Some est"
    using assms(2,3) unfolding pglc_memory_breakdown_def Let_def n_def[symmetric] est_def
    by (auto simp: bind_eq_Some_conv size_Some)
  have parts: "breakdown_parts b = [workers, pglc_cache_entries s * sizeof_entry pf, cb, cb, md, mb, mb, mk, mf, reg, locks,
      p * n * sizeof_arena_page pf, p * n * 65536]"
    unfolding breakdown_parts_def D(6-18) ..
  obtain storage common where E: "pglc_cache_storage_bytes s pf p = Some storage"
    "pglc_common_memory_bytes s pf = Some common" "est = common + workers + storage"
    using estimate_eq[OF D(21) assms(3)] D(3) by auto
  have cm: "common = reg + locks"
    using E(2) D(4,5) unfolding pglc_common_memory_bytes_def Let_def n_def[symmetric]
    by (auto simp: bind_eq_Some_conv size_Some)
  have n: "0 < n" using assms(1) by (simp add: sizes_ok_def n_def)
  obtain rs where L: "startup_layout s pf p = Some (rs, storage)" "spread 0 rs storage"
    using startup_layout_spec[OF assms(1,4) E(1)] by blast
  obtain rs' o1 g where R: "take_partitions s pf slots 0 [0..<n] = Some (rs', o1)"
    "sum_list (map snd rs) = sum_list (map snd rs') + g + p * n * sizeof_arena_page pf + p * n * 65536"
    using L(1) D(1) unfolding startup_layout_def Let_def n_def[symmetric] pglc_storage_take_def
    by (auto simp: bind_eq_Some_conv size_Some)
  have "(\<Sum>p \<leftarrow> [0..<n]. pglc_partition_capacity (pglc_cache_entries s) p n) = pglc_cache_entries s"
    using sum_partition_capacity[OF n] by (simp add: sum_list_distinct_conv_sum_set lessThan_atLeast0)
  then have "sum_list (map snd rs') = pglc_cache_entries s * sizeof_entry pf + 2 * cb + 2 * mb + md + mk + mf"
    using breakdown_loop_sum[OF R(1) D(2)] unfolding n_def[symmetric] by simp
  then have le: "sum_list (breakdown_parts b) \<le> est"
    using spread_bytes[OF L(2)] R(2) parts E(3) cm by simp
  moreover have "est \<le> UINT64_MAX" using D(21) unfolding pglc_estimated_memory_bytes_def
    by (auto simp: bind_eq_Some_conv add_size_def split: if_splits)
  ultimately show ?thesis using D(20) add_sizes_sum[OF D(19)[unfolded breakdown_parts_overhead]] u64_sub_exact unfolding est_def by simp
qed

lemma pages_u32:
  assumes "pglc_arena_pages_per_partition s pf = Some p"
  shows "p \<le> UINT32_MAX"
proof -
  have le: "p \<le> n" if "fit_pages s pf a b n = Some p" for a b n
    using that by (induction n) (auto simp: bind_eq_Some_conv split: if_splits)
  show ?thesis
    using assms unfolding pglc_arena_pages_per_partition_def
    by (auto simp: bind_eq_Some_conv split: if_splits dest!: le intro: le_trans[OF _ u32_le])
qed

lemma lock_partitions_power:
  assumes "16 \<le> (n::nat)" "n \<le> 256" "n AND (n - 1) = 0"
  shows "\<exists>k. n = 2 ^ k \<and> 4 \<le> k \<and> k \<le> 8"
proof -
  obtain k where k: "n = 2 ^ k" using power_of_two_iff[of n] assms by auto
  have "(2::nat) ^ 4 \<le> 2 ^ k" "(2::nat) ^ k \<le> 2 ^ 8" using assms k by simp_all
  then have "4 \<le> k" "k \<le> 8" using power_le_imp_le_exp[of "2::nat"] by (metis one_less_numeral_iff semiring_norm(76))+
  then show ?thesis using k by blast
qed

section \<open>An accepted configuration\<close>

definition demo_settings :: settings where
  "demo_settings = \<lparr>pglc_port = 0, pglc_worker_count = 1, pglc_cache_entries = 128,
     pglc_dirty_marker_entries = 128, pglc_dirty_marker_memory_mb = 1, pglc_lock_partitions = 16,
     pglc_relation_states = 1, pglc_max_clients = 1, pglc_max_clients_per_worker = 1,
     pglc_max_deferred_misses = 1, pglc_memory_budget_mb = 64,
     pglc_statement_timeout_ms = 1000, pglc_max_dirty_keys = 100,
     pglc_effective_dirty_marker_entries = 128, pglc_effective_dirty_marker_memory_mb = 1,
     pglc_active_lock_partitions = 0\<rparr>"

definition demo_platform :: platform where
  "demo_platform = \<lparr>sizeof_entry = 128, sizeof_marker = 64, sizeof_shared_state = 8,
     sizeof_relation_state = 8, sizeof_relation_slot = 8, sizeof_lwlock_padded = 8,
     sizeof_arena_page = 44, sizeof_client = 8, sizeof_deferred_miss = 8, sizeof_pollfd = 8,
     sizeof_tuple_desc = 8, sizeof_attribute = 8, sizeof_mapping = 8,
     hash_estimate_size = (\<lambda>n item. n * item)\<rparr>"

lemma demo_fields:
  "pglc_port demo_settings = 0" "pglc_cache_entries demo_settings = 128"
  "pglc_lock_partitions demo_settings = 16" "pglc_relation_states demo_settings = 1"
  "pglc_memory_budget_mb demo_settings = 64" "pglc_effective_dirty_marker_entries demo_settings = 128"
  "pglc_effective_dirty_marker_memory_mb demo_settings = 1" "pglc_active_lock_partitions demo_settings = 0"
  "sizeof_entry demo_platform = 128" "sizeof_marker demo_platform = 64" "sizeof_shared_state demo_platform = 8"
  "sizeof_relation_state demo_platform = 8" "sizeof_relation_slot demo_platform = 8"
  "sizeof_lwlock_padded demo_platform = 8" "sizeof_arena_page demo_platform = 44"
  "hash_estimate_size demo_platform n item = n * item"
  by (simp_all add: demo_settings_def demo_platform_def)

lemma demo_count: "pglc_cache_partition_count demo_settings = 16"
  by (simp add: pglc_cache_partition_count_def demo_fields halve_partitions.simps)

lemma demo_buckets: "pglc_index_buckets_for 8 = Some 16"
  by (simp add: pglc_index_buckets_for_def pglc_next_power_of_two_def next_power_of_two_loop.simps)

lemma demo_slots: "marker_key_slots demo_settings = Some 128"
  by (simp add: marker_key_slots_def demo_fields mul_size_def)

lemma demo_capacity: "p < 16 \<Longrightarrow> pglc_partition_capacity 128 p 16 = 8"
  by (simp add: pglc_partition_capacity_def)

lemma demo_append:
  assumes "x mod 8 = 0" "x \<le> 2000000" "n * item \<le> 100000"
  shows "append_array x n item = Some (x, x + MAXALIGN (n * item))"
proof -
  have "MAXALIGN (n * item) \<le> 100007" using assms(3) unfolding MAXALIGN_def by simp
  then show ?thesis using assms maxalign_aligned[of x]
    by (simp add: append_array_def pglc_align_append_def mul_size_def add_size_def)
qed

lemma demo_step:
  assumes "offset mod 8 = 0" "offset \<le> 1000000" "p < 16"
  shows "fixed_bytes_step demo_settings demo_platform 128 offset p = Some (offset + 10016)"
proof -
  have 1: "append_array offset 8 128 = Some (offset, offset + 1024)"
    using assms by (simp add: demo_append MAXALIGN_def)
  have 2: "append_array (offset + 1024) 16 4 = Some (offset + 1024, offset + 1088)"
    using assms by (simp add: demo_append MAXALIGN_def mod_add_eq[symmetric, of offset])
  have 3: "append_array (offset + 1088) 16 4 = Some (offset + 1088, offset + 1152)"
    using assms by (simp add: demo_append MAXALIGN_def mod_add_eq[symmetric, of offset])
  have 4: "append_array (offset + 1152) 8 64 = Some (offset + 1152, offset + 1664)"
    using assms by (simp add: demo_append MAXALIGN_def mod_add_eq[symmetric, of offset])
  have 5: "append_array (offset + 1664) 16 4 = Some (offset + 1664, offset + 1728)"
    using assms by (simp add: demo_append MAXALIGN_def mod_add_eq[symmetric, of offset])
  have 6: "append_array (offset + 1728) 16 4 = Some (offset + 1728, offset + 1792)"
    using assms by (simp add: demo_append MAXALIGN_def mod_add_eq[symmetric, of offset])
  have 7: "append_array (offset + 1792) 8 1024 = Some (offset + 1792, offset + 9984)"
    using assms by (simp add: demo_append MAXALIGN_def mod_add_eq[symmetric, of offset])
  have 8: "append_array (offset + 9984) 8 4 = Some (offset + 9984, offset + 10016)"
    using assms by (simp add: demo_append MAXALIGN_def mod_add_eq[symmetric, of offset])
  show ?thesis unfolding fixed_bytes_step_def demo_count Let_def demo_fields demo_capacity[OF assms(3)] demo_buckets
    by (simp add: 1 2 3 4 5 6 7 8 del: add_Suc_right)
qed

lemma demo_fixed: "pglc_cache_storage_fixed_bytes demo_settings demo_platform = Some 160320"
  by (simp add: pglc_cache_storage_fixed_bytes_def demo_slots demo_count demo_step upt_conv_Cons
      add_size_def MAXALIGN_def)

lemma demo_common: "pglc_common_memory_bytes demo_settings demo_platform = Some 160"
  "pglc_worker_memory_bytes demo_settings demo_platform = Some 0"
  by (simp_all add: pglc_common_memory_bytes_def demo_count demo_fields add_size_def
      mul_size_def MAXALIGN_def pglc_worker_memory_bytes_def)

lemma demo_storage: "pglc_cache_storage_bytes demo_settings demo_platform 63 = Some 66264960"
  by (simp add: pglc_cache_storage_bytes_def demo_fixed demo_count append_array_def pglc_align_append_def
      mul_size_def add_size_def MAXALIGN_def demo_fields)

lemma demo_pages: "pglc_arena_pages_per_partition demo_settings demo_platform = Some 63"
proof -
  have "fit_pages demo_settings demo_platform 160 67108864 (Suc 62) = Some 63"
    unfolding fit_pages.simps by (simp add: demo_storage add_size_def)
  then show ?thesis
    by (simp add: pglc_arena_pages_per_partition_def demo_fields demo_common demo_fixed demo_count
        add_size_def mul_size_def MAXALIGN_def)
qed

lemma demo_estimate: "pglc_estimated_memory_bytes demo_settings demo_platform = Some 66265120"
  by (simp add: pglc_estimated_memory_bytes_def pglc_shared_memory_bytes_def pglc_addin_shmem_bytes_def
      demo_pages demo_storage demo_common demo_count demo_fields add_size_def mul_size_def MAXALIGN_def)

lemma demo_breakdown: "\<exists>b. pglc_memory_breakdown demo_settings demo_platform = Some b"
  by (simp add: pglc_memory_breakdown_def demo_pages demo_slots demo_common demo_estimate demo_count demo_fields
      upt_conv_Cons demo_capacity demo_buckets add_array_def add_size_def mul_size_def MAXALIGN_def breakdown_parts_def)

lemma demo_accepted: "pglc_validate_startup_limits demo_settings demo_platform = None"
  using demo_breakdown
  by (auto simp: pglc_validate_startup_limits_def budget_check_def demo_pages demo_estimate demo_fields mul_size_def)

lemma demo_sizes: "sizes_ok demo_settings demo_platform"
  by (simp add: sizes_ok_def demo_fields demo_count)

section \<open>Properties\<close>

text \<open>C35: the loop of pglc_next_power_of_two returns the least power of two that is at least
  the request whenever a 32-bit one exists, and never returns for a larger request (the shifted
  value wraps to zero and stays there).\<close>

theorem next_power_of_two_exact:
  "pglc_next_power_of_two requested =
     (if requested \<le> 2 ^ 31 then Some (LEAST n. requested \<le> n \<and> (\<exists>k. n = 2 ^ k)) else None)"
proof (cases "requested \<le> 2 ^ 31")
  case True
  then obtain k where k: "pglc_next_power_of_two requested = Some (2 ^ k)" "requested \<le> 2 ^ k"
    "k = 0 \<or> 2 ^ (k - 1) < requested"
    using next_power_of_two_spec(1)[of requested] by blast
  have "(LEAST n. requested \<le> n \<and> (\<exists>k. n = 2 ^ k)) = 2 ^ k"
  proof (rule Least_equality)
    fix n assume "requested \<le> n \<and> (\<exists>j. n = 2 ^ j)"
    then obtain j where j: "requested \<le> 2 ^ j" "n = 2 ^ j" by blast
    have "k \<le> j"
    proof (rule ccontr)
      assume "\<not> k \<le> j"
      then have "(2::nat) ^ j \<le> 2 ^ (k - 1)" "k \<noteq> 0" by (auto intro: power_increasing)
      then show False using k(3) j(1) by linarith
    qed
    then show "2 ^ k \<le> n" using j by (simp add: power_increasing)
  qed (use k in blast)
  then show ?thesis using k True by simp
next
  case False
  then show ?thesis using next_power_of_two_spec(2)[of requested] by simp
qed

text \<open>C33: the shared storage is carved without overlap: whenever the size of the reservation can
  be computed, the walk of pglc_shmem_startup over the partitions, the guard zone, the page
  descriptors and the arena memory succeeds, ends exactly at the reserved size, keeps every array
  inside the reservation, and gives two different arrays disjoint byte ranges.\<close>

theorem startup_layout_disjoint:
  assumes "sizes_ok s pf" "np \<le> UINT32_MAX" "pglc_cache_storage_bytes s pf np = Some n"
  shows "\<exists>regions. startup_layout s pf np = Some (regions, n) \<and>
    list_all (\<lambda>r. fst r + snd r \<le> n) regions \<and> sorted_wrt (\<lambda>r r'. fst r + snd r \<le> fst r') regions"
  using startup_layout_spec[OF assms] spread_nth spread_disjoint
  unfolding list_all_length sorted_wrt_iff_nth_less by blast

theorem startup_layout_disjoint_witness:
  "\<exists>regions. startup_layout demo_settings demo_platform 63 = Some (regions, 66264960) \<and>
    list_all (\<lambda>r. fst r + snd r \<le> 66264960) regions \<and> sorted_wrt (\<lambda>r r'. fst r + snd r \<le> fst r') regions"
  by (rule startup_layout_disjoint[OF demo_sizes _ demo_storage]) simp

text \<open>C34: a configuration that pglc_validate_startup_limits lets through has a power of two
  between 16 and 256 partitions (halved from the configured number only while partitions would
  have fewer than 32 entries), at least one arena page per partition, and an estimated footprint
  within the memory budget.\<close>

theorem startup_limits_sound:
  assumes "pglc_validate_startup_limits s pf = None" "pglc_active_lock_partitions s = 0"
  shows "\<exists>k np est. 4 \<le> k \<and> k \<le> 8 \<and> pglc_cache_partition_count s = 2 ^ k \<and>
    (k = 4 \<or> 32 \<le> pglc_cache_entries_per_partition s (2 ^ k)) \<and>
    pglc_arena_pages_per_partition s pf = Some np \<and> 0 < np \<and>
    pglc_estimated_memory_bytes s pf = Some est \<and> est \<le> pglc_memory_budget_mb s * 1048576"
proof -
  have lp: "16 \<le> pglc_lock_partitions s" "pglc_lock_partitions s \<le> 256"
    "pglc_lock_partitions s AND (pglc_lock_partitions s - 1) = 0" "budget_check s pf = Some None"
    using assms(1) unfolding pglc_validate_startup_limits_def by (auto split: if_splits option.splits)
  obtain k where k: "pglc_lock_partitions s = 2 ^ k" "4 \<le> k" "k \<le> 8" using lock_partitions_power[OF lp(1-3)] by blast
  obtain j where j: "4 \<le> j" "j \<le> k" "pglc_cache_partition_count s = 2 ^ j"
    "j = 4 \<or> 32 \<le> pglc_cache_entries_per_partition s (2 ^ j)"
    using halve_partitions_spec[OF k(1,2), of s] assms(2) by (auto simp: pglc_cache_partition_count_def)
  obtain np est where e: "pglc_arena_pages_per_partition s pf = Some np" "0 < np"
    "pglc_estimated_memory_bytes s pf = Some est"
    using lp(4) unfolding budget_check_def by (auto simp: bind_eq_Some_conv split: if_splits)
  show ?thesis using j k(3) e pages_fit_budget[OF e(1,2,3)] by (intro exI[of _ j] exI) auto
qed

theorem startup_limits_sound_witness:
  "\<exists>k np est. 4 \<le> k \<and> k \<le> 8 \<and> pglc_cache_partition_count demo_settings = 2 ^ k \<and>
    (k = 4 \<or> 32 \<le> pglc_cache_entries_per_partition demo_settings (2 ^ k)) \<and>
    pglc_arena_pages_per_partition demo_settings demo_platform = Some np \<and> 0 < np \<and>
    pglc_estimated_memory_bytes demo_settings demo_platform = Some est \<and>
    est \<le> pglc_memory_budget_mb demo_settings * 1048576"
  by (rule startup_limits_sound[OF demo_accepted]) (simp add: demo_fields)

text \<open>The reported memory breakdown is exact: its thirteen components and the layout
  overhead add up to the total, so the assertion that the components never exceed the total
  holds and the subtraction never wraps.\<close>

theorem memory_breakdown_exact:
  assumes "sizes_ok s pf" "pglc_memory_breakdown s pf = Some b"
  shows "sum_list (breakdown_parts b) + mb_layout_overhead b = mb_total b"
proof -
  obtain np where np: "pglc_arena_pages_per_partition s pf = Some np"
    using assms(2) unfolding pglc_memory_breakdown_def Let_def by (auto simp: bind_eq_Some_conv)
  show ?thesis by (rule memory_breakdown_sum[OF assms np pages_u32[OF np]])
qed

theorem memory_breakdown_exact_witness:
  "\<exists>b. pglc_memory_breakdown demo_settings demo_platform = Some b \<and>
    sum_list (breakdown_parts b) + mb_layout_overhead b = mb_total b"
  using demo_breakdown memory_breakdown_exact[OF demo_sizes] by blast

end
