(* ===== verification/Registry.thy ===== *)
theory Registry
  imports Sizing
begin

text \<open>
  The shared counters of src/src/pg_local_cache.c: sharded statistics, checked atomic
  counters, key hashing and partition routing, the relation registry with its reusable
  slots, and the fence snapshots that readers and writers compare.

  \<^item> \<open>fences\<close> are the atomics a reader samples: the global version, epoch and writer count,
    the configuration generation and the array of relation slots. \<open>registry\<close> is what the
    registry lock protects: the relation hash and the incarnation counter.
  \<^item> A compare-and-exchange loop is modelled by its effect at the successful exchange.
    \<open>ereport(ERROR)\<close> is an \<open>Inl\<close> result; the state changed before the error is kept.
  \<^item> The reads of a fence snapshot are not atomic together. A snapshot takes an observation
    function: \<open>obs i\<close> is the state of the fences at the moment of the i-th read, so every
    interleaving with concurrent writers is covered.
\<close>

section \<open>Process context and statistics\<close>

text \<open>
  What a process brings: its worker slot, whether it has a \<open>PGPROC\<close>, its database, and
  PostgreSQL's functions it calls (the byte hash, whether the shared hash table can
  allocate another element, and the order in which \<open>qsort\<close> leaves elements with the given
  sort keys).
\<close>

record process =
  pglc_worker_slot :: int
  has_my_proc :: bool
  my_database_id :: nat
  hash_bytes_extended :: "char list \<Rightarrow> 64 word \<Rightarrow> 64 word"
  hash_enter_ok :: bool
  qsort_order :: "nat list \<Rightarrow> nat list"

datatype counter =
    cache_hits | cache_misses | negative_hits | negative_writes | database_reads | database_writes
  | cache_admission_rejections | invalidations | key_invalidations | table_invalidations | evictions
  | singleflight_leaders | singleflight_waiters | singleflight_reuses | singleflight_timeouts
  | client_requests | client_request_errors | client_mget_keys | client_sets | client_dels
  | fast_path_hits | fast_path_fallback_key_form | fast_path_fallback_mapping_shape
  | fast_path_fallback_multi_key | fast_path_fallback_cache_state | pass_to_main | sql_sets | sql_dels
  | arena_admission_rejections_total | dirty_marker_fallbacks_total
  | relation_state_admission_rejections | dirty_key_limit_fallbacks
  | protocol_errors | authentication_failures | output_backpressure_events | client_disconnects

record stats =
  plain_counters :: "counter \<Rightarrow> nat"
  stats_shards :: "nat \<Rightarrow> counter \<Rightarrow> nat"

abbreviation (input) PGLC_MAX_WORKERS :: nat where "PGLC_MAX_WORKERS \<equiv> 32"
abbreviation (input) PGLC_MAX_STATS_SHARDS :: nat where "PGLC_MAX_STATS_SHARDS \<equiv> 33"

definition pg_atomic_fetch_add_u64 :: "counter \<Rightarrow> nat \<Rightarrow> stats \<Rightarrow> stats" where
  "pg_atomic_fetch_add_u64 c amount st =
     st\<lparr>plain_counters := (plain_counters st)(c := u64 (plain_counters st c + amount))\<rparr>"

definition pglc_worker_stat_add :: "process \<Rightarrow> counter \<Rightarrow> nat \<Rightarrow> stats \<Rightarrow> stats" where
  "pglc_worker_stat_add pr c amount st =
     (if (0 \<le> pglc_worker_slot pr \<and> pglc_worker_slot pr < int PGLC_MAX_WORKERS) \<or> has_my_proc pr
      then let shard = (if 0 \<le> pglc_worker_slot pr \<and> pglc_worker_slot pr < int PGLC_MAX_WORKERS
                        then nat (pglc_worker_slot pr) else PGLC_MAX_WORKERS)
           in st\<lparr>stats_shards := (stats_shards st)(shard := (stats_shards st shard)
                  (c := u64 (stats_shards st shard c + amount)))\<rparr>
      else pg_atomic_fetch_add_u64 c amount st)"

definition pglc_set_worker_slot :: "int \<Rightarrow> process \<Rightarrow> process" where
  "pglc_set_worker_slot worker_slot pr =
     pr\<lparr>pglc_worker_slot :=
          (if 0 \<le> worker_slot \<and> worker_slot < int PGLC_MAX_WORKERS then worker_slot else -1)\<rparr>"

definition pglc_worker_stat_total :: "counter \<Rightarrow> stats \<Rightarrow> nat" where
  "pglc_worker_stat_total c st =
     fold (\<lambda>shard acc. u64 (acc + stats_shards st shard c)) [0..<PGLC_MAX_STATS_SHARDS] (plain_counters st c)"

section \<open>Key hashing and partition routing\<close>

abbreviation (input) PGLC_NAMESPACE_MAX :: nat where "PGLC_NAMESPACE_MAX \<equiv> 64"

text \<open>C strings are modelled by their bytes before the terminator.\<close>

definition strnlen :: "char list \<Rightarrow> nat \<Rightarrow> nat" where
  "strnlen s n = min (length s) n"

definition strlcpy :: "char list \<Rightarrow> nat \<Rightarrow> char list" where
  "strlcpy s n = take (n - 1) s"

definition oid_bytes :: "nat \<Rightarrow> char list" where
  "oid_bytes oid = load_bytes (store_u32 (\<lambda>_. CHR 0x00) 0 oid) 0 4"

definition cache_key_hash64 :: "process \<Rightarrow> nat \<Rightarrow> char list \<Rightarrow> char list \<Rightarrow> nat \<Rightarrow> nat" where
  "cache_key_hash64 pr database_oid nspace key key_len =
     (let h = hash_bytes_extended pr (oid_bytes database_oid) 0;
          h = hash_bytes_extended pr (take (strnlen nspace PGLC_NAMESPACE_MAX) nspace) h
      in unat (hash_bytes_extended pr (take key_len key) h))"

fun partition_bits :: "nat \<Rightarrow> nat" where
  "partition_bits n = (if 1 < n then Suc (partition_bits (n div 2)) else 0)"

declare partition_bits.simps [simp del]

definition pglc_cache_partition_for_hash :: "settings \<Rightarrow> nat \<Rightarrow> nat" where
  "pglc_cache_partition_for_hash s hash =
     u32 (drop_bit (64 - partition_bits (pglc_cache_partition_count s)) hash)"

record cache_key =
  ck_database_oid :: nat
  ck_nspace :: "char list"
  ck_key :: "char list"

definition make_cache_key :: "nat \<Rightarrow> char list \<Rightarrow> char list \<Rightarrow> cache_key" where
  "make_cache_key database_oid nspace key =
     \<lparr>ck_database_oid = database_oid, ck_nspace = strlcpy nspace PGLC_NAMESPACE_MAX,
      ck_key = strlcpy key PGLC_KEY_MAX\<rparr>"

definition pglc_cache_partition :: "process \<Rightarrow> settings \<Rightarrow> cache_key \<Rightarrow> nat" where
  "pglc_cache_partition pr s k =
     pglc_cache_partition_for_hash s
       (cache_key_hash64 pr (ck_database_oid k) (ck_nspace k) (ck_key k)
          (u16 (strnlen (ck_key k) PGLC_KEY_MAX)))"

definition cache_partition_for :: "process \<Rightarrow> settings \<Rightarrow> nat \<Rightarrow> char list \<Rightarrow> char list \<Rightarrow> nat" where
  "cache_partition_for pr s database_oid nspace key =
     pglc_cache_partition pr s (make_cache_key database_oid nspace key)"

section \<open>Checked counters\<close>

datatype cache_error =
    Fence_Counter_Overflow | Fence_Counter_Underflow | Incarnation_Overflow | Identity_Pin_Underflow
  | Identity_Pin_Overflow | Generation_Overflow | Descriptor_Missing | Block_Inconsistent
  | Key_Block_Not_Released | Marker_Missing | Invalid_Forget_Slot | Forget_Identity_Lost
  | Dirty_Reset_Lost | Prepare_Unsupported

text \<open>The result is the value before the change.\<close>

definition pglc_atomic_fetch_add_checked :: "nat \<Rightarrow> nat \<Rightarrow> (cache_error + nat) \<times> nat" where
  "pglc_atomic_fetch_add_checked counter amount =
     (if UINT64_MAX - amount < counter then (Inl Fence_Counter_Overflow, counter)
      else (Inr counter, counter + amount))"

definition pglc_atomic_fetch_sub_checked :: "nat \<Rightarrow> nat \<Rightarrow> (cache_error + nat) \<times> nat" where
  "pglc_atomic_fetch_sub_checked counter amount =
     (if counter < amount then (Inl Fence_Counter_Underflow, counter)
      else (Inr counter, counter - amount))"

section \<open>Relation slots and the registry\<close>

record relation_slot =
  rs_generation :: nat
  rs_incarnation :: nat
  rs_version :: nat
  rs_dirty_writers :: nat
  rs_in_use :: bool

record fences =
  global_version :: nat
  global_epoch :: nat
  global_dirty_writers :: nat
  config_generation :: nat
  relation_slots :: "relation_slot list"

record relation_key =
  rk_database_oid :: nat
  rk_nspace :: "char list"

record relation_state =
  rst_key :: relation_key
  rst_relation_oid :: nat
  rst_identity_pins :: nat
  rst_slot :: nat
  rst_slot_generation :: nat
  rst_pending_forget :: bool

record registry =
  relation_hash :: "relation_state list"
  relation_incarnation_counter :: nat

abbreviation (input) InvalidOid :: nat where "InvalidOid \<equiv> 0"

definition make_relation_key :: "nat \<Rightarrow> char list \<Rightarrow> relation_key" where
  "make_relation_key database_oid nspace =
     \<lparr>rk_database_oid = database_oid, rk_nspace = strlcpy nspace PGLC_NAMESPACE_MAX\<rparr>"

text \<open>The shared hash table: at most one element per key.\<close>

definition hash_find :: "registry \<Rightarrow> relation_key \<Rightarrow> relation_state option" where
  "hash_find rg key = find (\<lambda>st. rst_key st = key) (relation_hash rg)"

definition hash_remove :: "relation_key \<Rightarrow> registry \<Rightarrow> registry" where
  "hash_remove key rg = rg\<lparr>relation_hash := filter (\<lambda>st. rst_key st \<noteq> key) (relation_hash rg)\<rparr>"

definition hash_enter :: "relation_state \<Rightarrow> registry \<Rightarrow> registry" where
  "hash_enter st rg = rg\<lparr>relation_hash := st # relation_hash rg\<rparr>"

definition hash_update :: "relation_state \<Rightarrow> registry \<Rightarrow> registry" where
  "hash_update st rg =
     rg\<lparr>relation_hash := map (\<lambda>st'. if rst_key st' = rst_key st then st else st') (relation_hash rg)\<rparr>"

abbreviation slot_at :: "fences \<Rightarrow> nat \<Rightarrow> relation_slot" where
  "slot_at fs i \<equiv> relation_slots fs ! i"

definition set_slot :: "nat \<Rightarrow> relation_slot \<Rightarrow> fences \<Rightarrow> fences" where
  "set_slot i slot fs = fs\<lparr>relation_slots := (relation_slots fs)[i := slot]\<rparr>"

definition find_free_slot :: "settings \<Rightarrow> fences \<Rightarrow> nat option" where
  "find_free_slot s fs = find (\<lambda>i. \<not> rs_in_use (slot_at fs i)) [0..<pglc_relation_states s]"

text \<open>The rest of \<open>initialize_relation_slot\<close> once a slot is chosen.\<close>

definition tag_relation_slot ::
  "relation_state \<Rightarrow> bool \<Rightarrow> nat \<Rightarrow> fences \<Rightarrow> registry \<Rightarrow>
   (cache_error + relation_state option) \<times> fences \<times> registry" where
  "tag_relation_slot state reuse slot_index fs rg =
     (let slot = slot_at fs slot_index in
      case pglc_atomic_fetch_add_checked (rs_generation slot) 1 of
        (Inl e, _) \<Rightarrow> (Inl e, fs, rg)
      | (Inr g, g') \<Rightarrow>
        let slot = slot\<lparr>rs_generation := g'\<rparr> in
        case pglc_atomic_fetch_add_checked (relation_incarnation_counter rg) 1 of
          (Inl e, _) \<Rightarrow> (Inl e, set_slot slot_index slot fs, rg)
        | (Inr i, i') \<Rightarrow>
          let rg = rg\<lparr>relation_incarnation_counter := i'\<rparr>;
              generation = g + 1; incarnation = i + 1; previous = rs_incarnation slot in
          if incarnation \<le> previous then (Inl Incarnation_Overflow, set_slot slot_index slot fs, rg)
          else case pglc_atomic_fetch_add_checked previous (incarnation - previous) of
            (Inl e, _) \<Rightarrow> (Inl e, set_slot slot_index slot fs, rg)
          | (Inr _, inc') \<Rightarrow>
            let slot = slot\<lparr>rs_incarnation := inc', rs_in_use := (if reuse then rs_in_use slot else True)\<rparr> in
            if generation = 0 \<or> incarnation = 0 \<or> rs_dirty_writers slot \<noteq> 0
            then (Inr None, set_slot slot_index (slot\<lparr>rs_in_use := True\<rparr>) fs, rg)
            else let slot = (if rs_version slot \<noteq> 0
                   then slot\<lparr>rs_version := snd (pglc_atomic_fetch_sub_checked (rs_version slot) (rs_version slot))\<rparr>
                   else slot)
                 in (Inr (Some (state\<lparr>rst_slot := slot_index, rst_slot_generation := generation\<rparr>)),
                     set_slot slot_index slot fs, rg))"

definition initialize_relation_slot ::
  "settings \<Rightarrow> relation_state \<Rightarrow> bool \<Rightarrow> fences \<Rightarrow> registry \<Rightarrow>
   (cache_error + relation_state option) \<times> fences \<times> registry" where
  "initialize_relation_slot s state reuse fs rg =
     (if reuse then tag_relation_slot state reuse (rst_slot state) fs rg
      else case find_free_slot s fs of
        None \<Rightarrow> (Inr None, fs, rg)
      | Some i \<Rightarrow> tag_relation_slot state reuse i fs rg)"

definition release_relation_slot :: "settings \<Rightarrow> relation_state \<Rightarrow> fences \<Rightarrow> (cache_error + unit) \<times> fences" where
  "release_relation_slot s state fs =
     (if rst_slot state < pglc_relation_states s
      then let slot = slot_at fs (rst_slot state) in
        case pglc_atomic_fetch_add_checked (rs_generation slot) 1 of
          (Inl e, _) \<Rightarrow> (Inl e, fs)
        | (Inr previous, g') \<Rightarrow>
          (Inr (), set_slot (rst_slot state)
             (slot\<lparr>rs_generation := g', rs_in_use := (previous = UINT64_MAX)\<rparr>) fs)
      else (Inr (), fs))"

text \<open>
  \<open>get_relation_state\<close> in three parts, as in the source: retire a forgotten identity that
  nobody holds, enter a new element unless the table is full, and give the element a slot
  (a fresh one, or the same slot retagged when the namespace now names another relation).
\<close>

type_synonym 'a registry_result = "(cache_error + 'a) \<times> fences \<times> registry \<times> stats"

definition retire_forgotten ::
  "settings \<Rightarrow> relation_key \<Rightarrow> relation_state option \<Rightarrow> fences \<Rightarrow> registry \<Rightarrow> stats \<Rightarrow>
   (relation_state option) option registry_result" where
  "retire_forgotten s key found fs rg st =
     (case found of
        None \<Rightarrow> (Inr (Some None), fs, rg, st)
      | Some state \<Rightarrow>
        if rst_pending_forget state
        then (if rst_identity_pins state \<noteq> 0 \<or> rs_dirty_writers (slot_at fs (rst_slot state)) \<noteq> 0
              then (Inr None, fs, rg, st)
              else case release_relation_slot s state fs of
                (Inl e, fs) \<Rightarrow> (Inl e, fs, rg, st)
              | (Inr _, fs) \<Rightarrow> (Inr (Some None), fs, hash_remove key rg, st))
        else (Inr (Some (Some state)), fs, rg, st))"

definition fresh_state :: "relation_key \<Rightarrow> nat \<Rightarrow> relation_state" where
  "fresh_state key relation_oid =
     \<lparr>rst_key = key, rst_relation_oid = relation_oid, rst_identity_pins = 0, rst_slot = 0,
      rst_slot_generation = 0, rst_pending_forget = False\<rparr>"

definition enter_relation_state ::
  "process \<Rightarrow> settings \<Rightarrow> relation_key \<Rightarrow> nat \<Rightarrow> fences \<Rightarrow> registry \<Rightarrow> stats \<Rightarrow>
   relation_state option registry_result" where
  "enter_relation_state pr s key relation_oid fs rg st =
     (if pglc_relation_states s \<le> length (relation_hash rg) \<or> \<not> hash_enter_ok pr
      then (Inr None, fs, rg, pg_atomic_fetch_add_u64 relation_state_admission_rejections 1 st)
      else
        let state = fresh_state key relation_oid;
            rg = hash_enter state rg
        in case initialize_relation_slot s state False fs rg of
             (Inl e, fs, rg) \<Rightarrow> (Inl e, fs, rg, st)
           | (Inr None, fs, rg) \<Rightarrow> (Inr None, fs, hash_remove key rg, st)
           | (Inr (Some state), fs, rg) \<Rightarrow> (Inr (Some state), fs, hash_update state rg, st))"

definition retarget_relation_state ::
  "settings \<Rightarrow> relation_state \<Rightarrow> nat \<Rightarrow> fences \<Rightarrow> registry \<Rightarrow> stats \<Rightarrow> relation_state option registry_result" where
  "retarget_relation_state s state relation_oid fs rg st =
     (if rst_identity_pins state \<noteq> 0 then (Inr None, fs, rg, st)
      else case initialize_relation_slot s state True fs rg of
        (Inl e, fs, rg) \<Rightarrow> (Inl e, fs, rg, st)
      | (Inr None, fs, rg) \<Rightarrow> (Inr None, fs, rg, st)
      | (Inr (Some state), fs, rg) \<Rightarrow>
        let state = state\<lparr>rst_relation_oid := relation_oid, rst_pending_forget := False\<rparr>
        in (Inr (Some state), fs, hash_update state rg, st))"

definition get_relation_state ::
  "process \<Rightarrow> settings \<Rightarrow> nat \<Rightarrow> nat \<Rightarrow> char list \<Rightarrow> bool \<Rightarrow> fences \<Rightarrow> registry \<Rightarrow> stats \<Rightarrow>
   relation_state option registry_result" where
  "get_relation_state pr s database_oid relation_oid nspace create fs rg st =
     (let key = make_relation_key database_oid nspace;
          found = hash_find rg key
      in if \<not> create then (Inr found, fs, rg, st)
         else case retire_forgotten s key found fs rg st of
           (Inl e, fs, rg, st) \<Rightarrow> (Inl e, fs, rg, st)
         | (Inr None, fs, rg, st) \<Rightarrow> (Inr None, fs, rg, st)
         | (Inr (Some None), fs, rg, st) \<Rightarrow> enter_relation_state pr s key relation_oid fs rg st
         | (Inr (Some (Some state)), fs, rg, st) \<Rightarrow>
             if relation_oid \<noteq> InvalidOid \<and> rst_relation_oid state \<noteq> relation_oid
             then retarget_relation_state s state relation_oid fs rg st
             else (Inr (Some state), fs, rg, st))"

definition release_relation_identity_pin :: "relation_state \<Rightarrow> cache_error + relation_state" where
  "release_relation_identity_pin state =
     (if rst_identity_pins state = 0 then Inl Identity_Pin_Underflow
      else Inr (state\<lparr>rst_identity_pins := rst_identity_pins state - 1\<rparr>))"

section \<open>Mappings\<close>

text \<open>The fields of \<open>PgLocalCacheMapping\<close> that the shared cache reads.\<close>

record mapping =
  mp_nspace :: "char list"
  mp_relation_oid :: nat
  mp_config_generation :: nat
  mp_relation_slot :: nat
  mp_relation_slot_generation :: nat

definition pglc_resolve_mapping_slot ::
  "process \<Rightarrow> settings \<Rightarrow> mapping \<Rightarrow> fences \<Rightarrow> registry \<Rightarrow> stats \<Rightarrow> (bool \<times> mapping) registry_result" where
  "pglc_resolve_mapping_slot pr s mp fs rg st =
     (let mp = mp\<lparr>mp_relation_slot := UINT32_MAX, mp_relation_slot_generation := 0\<rparr> in
      case get_relation_state pr s (my_database_id pr) (mp_relation_oid mp) (mp_nspace mp) True fs rg st of
        (Inl e, fs, rg, st) \<Rightarrow> (Inl e, fs, rg, st)
      | (Inr (Some state), fs, rg, st) \<Rightarrow>
          if rst_relation_oid state = mp_relation_oid mp \<and> \<not> rst_pending_forget state
          then (Inr (True, mp\<lparr>mp_relation_slot := rst_slot state,
                  mp_relation_slot_generation := rst_slot_generation state\<rparr>), fs, rg, st)
          else (Inr (False, mp), fs, rg, st)
      | (Inr None, fs, rg, st) \<Rightarrow> (Inr (False, mp), fs, rg, st))"

definition pglc_mapping_slot_is_current :: "settings \<Rightarrow> mapping \<Rightarrow> fences \<Rightarrow> bool" where
  "pglc_mapping_slot_is_current s mp fs \<longleftrightarrow>
     mp_relation_slot mp < pglc_relation_states s \<and>
     mp_relation_slot_generation mp = rs_generation (slot_at fs (mp_relation_slot mp))"

section \<open>Statistics\<close>

lemma fold_u64: "a \<le> UINT64_MAX \<Longrightarrow> fold (\<lambda>k acc. u64 (acc + f k)) ks a = u64 (a + (\<Sum>k \<leftarrow> ks. f k))"
proof (induction ks arbitrary: a)
  case (Cons k ks)
  have "u64 (u64 (a + f k) + (\<Sum>k \<leftarrow> ks. f k)) = u64 (a + f k + (\<Sum>k \<leftarrow> ks. f k))"
    by (simp add: u64_def mod_add_left_eq)
  then show ?case using Cons.IH[OF u64_le] by (simp add: add.assoc)
qed simp

lemma stat_total_sum:
  "plain_counters st c \<le> UINT64_MAX \<Longrightarrow>
   pglc_worker_stat_total c st = u64 (plain_counters st c + (\<Sum>k < 33. stats_shards st k c))"
  unfolding pglc_worker_stat_total_def
  by (simp add: fold_u64 sum_list_distinct_conv_sum_set lessThan_atLeast0)

lemma u64_add: "u64 (u64 a + b) = u64 (a + b)" "u64 (a + u64 b) = u64 (a + b)"
  by (simp_all add: u64_def mod_add_left_eq mod_add_right_eq)

text \<open>Whatever process adds to a counter, the reported total grows by the amount.\<close>

lemma stat_total_add:
  assumes "plain_counters st c \<le> UINT64_MAX"
  shows "pglc_worker_stat_total c (pglc_worker_stat_add pr c n st) = u64 (pglc_worker_stat_total c st + n)"
proof (cases "(0 \<le> pglc_worker_slot pr \<and> pglc_worker_slot pr < 32) \<or> has_my_proc pr")
  case True
  define k where "k = (if 0 \<le> pglc_worker_slot pr \<and> pglc_worker_slot pr < 32 then nat (pglc_worker_slot pr) else 32)"
  define st' where "st' = pglc_worker_stat_add pr c n st"
  have st': "plain_counters st' = plain_counters st"
    "stats_shards st' i c = (if i = k then u64 (stats_shards st k c + n) else stats_shards st i c)" for i
    using True unfolding st'_def pglc_worker_stat_add_def k_def Let_def by auto
  have k: "k < 33" unfolding k_def by auto
  have "(\<Sum>i < 33. stats_shards st' i c) = u64 (stats_shards st k c + n) + (\<Sum>i \<in> {..<33} - {k}. stats_shards st i c)"
    using k st'(2) by (subst sum.remove[of _ k]) (auto intro!: sum.cong)
  moreover have "(\<Sum>i < 33. stats_shards st i c) = stats_shards st k c + (\<Sum>i \<in> {..<33} - {k}. stats_shards st i c)"
    using k by (subst sum.remove[of _ k]) auto
  ultimately have "u64 (plain_counters st c + (\<Sum>i < 33. stats_shards st' i c)) =
      u64 (plain_counters st c + (\<Sum>i < 33. stats_shards st i c) + n)"
    by (metis (no_types, lifting) u64_add add.assoc add.commute add.left_commute)
  then show ?thesis using assms st'(1) unfolding st'_def[symmetric] by (simp add: stat_total_sum u64_add)
next
  case False
  then have "pglc_worker_stat_add pr c n st = pg_atomic_fetch_add_u64 c n st"
    unfolding pglc_worker_stat_add_def by auto
  then show ?thesis using assms unfolding pg_atomic_fetch_add_u64_def
    by (simp add: stat_total_sum u64_le u64_add ac_simps)
qed

section \<open>The registry invariant\<close>

text \<open>
  Every element of the hash owns one slot, carries its current generation, and is pinned
  while a writer fence is open on the slot; free slots have no open fence.
\<close>

definition reg_ok :: "settings \<Rightarrow> fences \<Rightarrow> registry \<Rightarrow> bool" where
  "reg_ok s fs rg \<longleftrightarrow>
     length (relation_slots fs) = pglc_relation_states s \<and>
     distinct (map rst_key (relation_hash rg)) \<and> distinct (map rst_slot (relation_hash rg)) \<and>
     (\<forall>st \<in> set (relation_hash rg).
        rst_slot st < pglc_relation_states s \<and> rs_in_use (slot_at fs (rst_slot st)) \<and>
        rst_slot_generation st = rs_generation (slot_at fs (rst_slot st)) \<and>
        rs_incarnation (slot_at fs (rst_slot st)) \<noteq> 0 \<and>
        (rst_identity_pins st = 0 \<longrightarrow> rs_dirty_writers (slot_at fs (rst_slot st)) = 0)) \<and>
     (\<forall>i < pglc_relation_states s. \<not> rs_in_use (slot_at fs i) \<longrightarrow> rs_dirty_writers (slot_at fs i) = 0) \<and>
     (\<forall>i < pglc_relation_states s. rs_incarnation (slot_at fs i) \<le> relation_incarnation_counter rg)"

lemma reg_okD:
  assumes "reg_ok s fs rg"
  shows "length (relation_slots fs) = pglc_relation_states s" "distinct (map rst_key (relation_hash rg))"
    "distinct (map rst_slot (relation_hash rg))"
    "st \<in> set (relation_hash rg) \<Longrightarrow> rst_slot st < pglc_relation_states s"
    "st \<in> set (relation_hash rg) \<Longrightarrow> rs_in_use (slot_at fs (rst_slot st))"
    "st \<in> set (relation_hash rg) \<Longrightarrow> rst_slot_generation st = rs_generation (slot_at fs (rst_slot st))"
    "st \<in> set (relation_hash rg) \<Longrightarrow> rs_incarnation (slot_at fs (rst_slot st)) \<noteq> 0"
    "st \<in> set (relation_hash rg) \<Longrightarrow> rst_identity_pins st = 0 \<Longrightarrow> rs_dirty_writers (slot_at fs (rst_slot st)) = 0"
    "i < pglc_relation_states s \<Longrightarrow> \<not> rs_in_use (slot_at fs i) \<Longrightarrow> rs_dirty_writers (slot_at fs i) = 0"
    "i < pglc_relation_states s \<Longrightarrow> rs_incarnation (slot_at fs i) \<le> relation_incarnation_counter rg"
  using assms unfolding reg_ok_def by blast+

lemma hash_key_unique:
  assumes "distinct (map rst_key xs)" "a \<in> set xs" "b \<in> set xs" "rst_key a = rst_key b"
  shows "a = b"
  using assms by (meson distinct_map inj_onD)

lemma hash_slot_unique:
  assumes "distinct (map rst_slot xs)" "a \<in> set xs" "b \<in> set xs" "rst_slot a = rst_slot b"
  shows "a = b"
  using assms by (meson distinct_map inj_onD)

lemma hash_find_Some: "hash_find rg key = Some st \<Longrightarrow> st \<in> set (relation_hash rg) \<and> rst_key st = key"
  unfolding hash_find_def by (rule find_SomeD)

lemma hash_find_None: "hash_find rg key = None \<longleftrightarrow> (\<forall>st \<in> set (relation_hash rg). rst_key st \<noteq> key)"
  unfolding hash_find_def by (auto simp: find_None_iff)

lemma slot_at_set:
  assumes "i < length (relation_slots fs)"
  shows "slot_at (set_slot i slot fs) j = (if j = i then slot else slot_at fs j)"
  using assms unfolding set_slot_def by (cases "i = j") auto

lemma set_slot_length [simp]: "length (relation_slots (set_slot i slot fs)) = length (relation_slots fs)"
  by (simp add: set_slot_def)

text \<open>A successful tagging: the next generation, a fresh incarnation, version zero.\<close>

definition retagged :: "relation_slot \<Rightarrow> registry \<Rightarrow> relation_slot" where
  "retagged slot rg = slot\<lparr>rs_generation := rs_generation slot + 1,
     rs_incarnation := relation_incarnation_counter rg + 1, rs_version := 0, rs_in_use := True\<rparr>"

lemma tag_relation_slot_eq:
  assumes "rs_dirty_writers (slot_at fs i) = 0" "reuse \<longrightarrow> rs_in_use (slot_at fs i)"
    and "rs_incarnation (slot_at fs i) \<le> relation_incarnation_counter rg"
    and "tag_relation_slot state reuse i fs rg = (Inr r, fs', rg')"
  shows "r = Some (state\<lparr>rst_slot := i, rst_slot_generation := rs_generation (slot_at fs i) + 1\<rparr>) \<and>
    fs' = set_slot i (retagged (slot_at fs i) rg) fs \<and>
    rg' = rg\<lparr>relation_incarnation_counter := relation_incarnation_counter rg + 1\<rparr>"
proof -
  obtain g inc v d u where slot: "slot_at fs i = \<lparr>rs_generation = g, rs_incarnation = inc, rs_version = v,
      rs_dirty_writers = d, rs_in_use = u\<rparr>"
    by (cases "slot_at fs i") auto
  show ?thesis using assms
    unfolding tag_relation_slot_def pglc_atomic_fetch_add_checked_def pglc_atomic_fetch_sub_checked_def
      retagged_def Let_def slot
    by (auto split: if_splits)
qed

text \<open>How an operation may change the registry without disturbing what others hold.\<close>

definition reg_step :: "settings \<Rightarrow> fences \<Rightarrow> registry \<Rightarrow> fences \<Rightarrow> registry \<Rightarrow> bool" where
  "reg_step s fs rg fs' rg' \<longleftrightarrow>
     reg_ok s fs' rg' \<and>
     (\<forall>i < pglc_relation_states s. rs_generation (slot_at fs i) \<le> rs_generation (slot_at fs' i)) \<and>
     (\<forall>st \<in> set (relation_hash rg). 0 < rst_identity_pins st \<longrightarrow> st \<in> set (relation_hash rg')) \<and>
     (\<forall>st' \<in> set (relation_hash rg').
        rst_slot_generation st' = rs_generation (slot_at fs (rst_slot st')) \<longrightarrow> st' \<in> set (relation_hash rg))"

lemma reg_step_refl: "reg_ok s fs rg \<Longrightarrow> reg_step s fs rg fs rg"
  by (simp add: reg_step_def)

lemma find_free_slot_Some:
  assumes "find_free_slot s fs = Some i"
  shows "i < pglc_relation_states s" "\<not> rs_in_use (slot_at fs i)"
  using find_SomeD[OF assms[unfolded find_free_slot_def]] by auto

lemma release_relation_slot_eq:
  assumes "rst_slot state < pglc_relation_states s" "release_relation_slot s state fs = (Inr u, fs')"
  shows "fs' = set_slot (rst_slot state) ((slot_at fs (rst_slot state))
    \<lparr>rs_generation := rs_generation (slot_at fs (rst_slot state)) + 1, rs_in_use := False\<rparr>) fs"
  using assms unfolding release_relation_slot_def pglc_atomic_fetch_add_checked_def Let_def
  by (auto split: if_splits)

text \<open>Removing an unpinned element together with its slot.\<close>

lemma reg_ok_remove:
  assumes ok: "reg_ok s fs rg" and st: "state \<in> set (relation_hash rg)" "rst_identity_pins state = 0"
    and rel: "release_relation_slot s state fs = (Inr u, fs')"
  shows "reg_step s fs rg fs' (hash_remove (rst_key state) rg)"
    "\<forall>x \<in> set (relation_hash (hash_remove (rst_key state) rg)). rst_key x \<noteq> rst_key state"
proof -
  note D = reg_okD[OF ok]
  define i where "i = rst_slot state"
  have i: "i < pglc_relation_states s" using D(4)[OF st(1)] by (simp add: i_def)
  have fs': "slot_at fs' j = (if j = i then (slot_at fs i)\<lparr>rs_generation := rs_generation (slot_at fs i) + 1, rs_in_use := False\<rparr>
      else slot_at fs j)" for j
    using release_relation_slot_eq[OF _ rel] i D(1) slot_at_set[of i fs] unfolding i_def by simp
  have len: "length (relation_slots fs') = pglc_relation_states s"
    using release_relation_slot_eq[OF _ rel] i D(1) unfolding i_def by simp
  define hs where "hs = filter (\<lambda>st. rst_key st \<noteq> rst_key state) (relation_hash rg)"
  have hs: "relation_hash (hash_remove (rst_key state) rg) = hs"
    "relation_incarnation_counter (hash_remove (rst_key state) rg) = relation_incarnation_counter rg"
    by (simp_all add: hash_remove_def hs_def)
  have sub: "x \<in> set hs \<longleftrightarrow> x \<in> set (relation_hash rg) \<and> rst_key x \<noteq> rst_key state" for x
    by (auto simp: hs_def)
  have other: "rst_slot x \<noteq> i" if "x \<in> set hs" for x
    using that sub hash_slot_unique[OF D(3) _ st(1)] unfolding i_def by blast
  have ok': "reg_ok s fs' (hash_remove (rst_key state) rg)"
    unfolding reg_ok_def hs
  proof (intro conjI ballI allI impI)
    show "length (relation_slots fs') = pglc_relation_states s" by (rule len)
    show "distinct (map rst_key hs)" "distinct (map rst_slot hs)"
      using D(2,3) unfolding hs_def by (simp_all add: distinct_map_filter)
    fix x assume x: "x \<in> set hs"
    then have x': "x \<in> set (relation_hash rg)" using sub by blast
    show "rst_slot x < pglc_relation_states s" by (rule D(4)[OF x'])
    show "rs_in_use (slot_at fs' (rst_slot x))" "rst_slot_generation x = rs_generation (slot_at fs' (rst_slot x))"
      "rs_incarnation (slot_at fs' (rst_slot x)) \<noteq> 0"
      using D(5,6,7)[OF x'] other[OF x] fs' by simp_all
    show "rst_identity_pins x = 0 \<Longrightarrow> rs_dirty_writers (slot_at fs' (rst_slot x)) = 0"
      using D(8)[OF x'] other[OF x] fs' by simp
  next
    fix j assume j: "j < pglc_relation_states s"
    show "\<not> rs_in_use (slot_at fs' j) \<Longrightarrow> rs_dirty_writers (slot_at fs' j) = 0"
      using D(9)[OF j] D(8)[OF st(1)] st(2) fs' unfolding i_def by (auto split: if_splits)
    show "rs_incarnation (slot_at fs' j) \<le> relation_incarnation_counter rg" using D(10)[OF j] fs' i D(10)[OF i] by simp
  qed
  have keep: "x \<in> set hs" if "x \<in> set (relation_hash rg)" "0 < rst_identity_pins x" for x
    using that sub hash_key_unique[OF D(2) that(1) st(1)] st(2) by fastforce
  show "reg_step s fs rg fs' (hash_remove (rst_key state) rg)"
    unfolding reg_step_def hs using ok' fs' sub keep by auto
  show "\<forall>x \<in> set (relation_hash (hash_remove (rst_key state) rg)). rst_key x \<noteq> rst_key state"
    using hs sub by simp
qed

text \<open>Giving an element a freshly tagged slot that no other element owns.\<close>

lemma reg_ok_tag:
  assumes ok: "reg_ok s fs rg" and i: "i < pglc_relation_states s"
    and slot: "rs_dirty_writers (slot_at fs i) = 0"
    and hs: "distinct (map rst_key hs)" "x \<in> set hs" "rst_slot x = i" "rst_slot_generation x = rs_generation (slot_at fs i) + 1"
    and others: "\<And>y. y \<in> set hs \<Longrightarrow> y \<noteq> x \<Longrightarrow> y \<in> set (relation_hash rg) \<and> rst_slot y \<noteq> i"
    and d: "distinct hs" and keep: "\<And>y. y \<in> set (relation_hash rg) \<Longrightarrow> 0 < rst_identity_pins y \<Longrightarrow> y \<in> set hs"
  shows "reg_step s fs rg (set_slot i (retagged (slot_at fs i) rg) fs)
    (rg\<lparr>relation_hash := hs, relation_incarnation_counter := relation_incarnation_counter rg + 1\<rparr>)"
proof -
  note D = reg_okD[OF ok]
  define fs' where "fs' = set_slot i (retagged (slot_at fs i) rg) fs"
  have fs': "slot_at fs' j = (if j = i then retagged (slot_at fs i) rg else slot_at fs j)" for j
    unfolding fs'_def using slot_at_set[of i fs] i D(1) by simp
  have "inj_on rst_slot (set hs)"
  proof (rule inj_onI)
    fix a b assume ab: "a \<in> set hs" "b \<in> set hs" "rst_slot a = rst_slot b"
    show "a = b"
      using ab others[of a] others[of b] hs(3) hash_slot_unique[OF D(3), of a b] by (cases "a = x"; cases "b = x") auto
  qed
  then have ds: "distinct (map rst_slot hs)" using d by (simp add: distinct_map)
  have ok': "reg_ok s fs' (rg\<lparr>relation_hash := hs, relation_incarnation_counter := relation_incarnation_counter rg + 1\<rparr>)"
    unfolding reg_ok_def
  proof (intro conjI ballI allI impI; simp?)
    show "length (relation_slots fs') = pglc_relation_states s" unfolding fs'_def using D(1) by simp
    show "distinct (map rst_key hs)" by (rule hs(1))
    show "distinct (map rst_slot hs)" by (rule ds)
  next
    fix y assume y: "y \<in> set hs"
    show "rst_slot y < pglc_relation_states s" using others[OF y] hs(3) i D(4) by (cases "y = x") auto
    show "rs_in_use (slot_at fs' (rst_slot y))" "rst_slot_generation y = rs_generation (slot_at fs' (rst_slot y))"
      "0 < rs_incarnation (slot_at fs' (rst_slot y))"
      using others[OF y] hs(3,4) D(5-7)[of y] fs' by (cases "y = x"; simp add: retagged_def)+
    show "rst_identity_pins y = 0 \<Longrightarrow> rs_dirty_writers (slot_at fs' (rst_slot y)) = 0"
      using others[OF y] hs(3) D(8)[of y] fs' slot by (cases "y = x") (auto simp: retagged_def)
  next
    fix j assume j: "j < pglc_relation_states s"
    show "\<not> rs_in_use (slot_at fs' j) \<Longrightarrow> rs_dirty_writers (slot_at fs' j) = 0"
      using D(9)[OF j] fs' by (auto simp: retagged_def split: if_splits)
    show "rs_incarnation (slot_at fs' j) \<le> Suc (relation_incarnation_counter rg)"
      using D(10)[OF j] fs' by (simp add: retagged_def le_SucI)
  qed
  have "y \<in> set (relation_hash rg)" if "y \<in> set hs" "rst_slot_generation y = rs_generation (slot_at fs (rst_slot y))" for y
    using that others[of y] hs(3,4) by (cases "y = x") auto
  then show ?thesis unfolding reg_step_def fs'_def[symmetric] using ok' keep fs'
    by (auto simp: retagged_def)
qed

lemma reg_step_trans:
  assumes "reg_step s fs rg fs1 rg1" "reg_step s fs1 rg1 fs2 rg2"
  shows "reg_step s fs rg fs2 rg2"
proof -
  have "st \<in> set (relation_hash rg)"
    if st: "st \<in> set (relation_hash rg2)" "rst_slot_generation st = rs_generation (slot_at fs (rst_slot st))" for st
  proof -
    have ok: "reg_ok s fs2 rg2" using assms(2) by (simp add: reg_step_def)
    have i: "rst_slot st < pglc_relation_states s" using reg_okD(4)[OF ok st(1)] .
    have "rs_generation (slot_at fs (rst_slot st)) \<le> rs_generation (slot_at fs1 (rst_slot st))"
      "rs_generation (slot_at fs1 (rst_slot st)) \<le> rs_generation (slot_at fs2 (rst_slot st))"
      using assms i unfolding reg_step_def by blast+
    moreover have "rst_slot_generation st = rs_generation (slot_at fs2 (rst_slot st))" by (rule reg_okD(6)[OF ok st(1)])
    ultimately have "rst_slot_generation st = rs_generation (slot_at fs1 (rst_slot st))" using st(2) by simp
    then have "st \<in> set (relation_hash rg1)" using assms(2) st(1) unfolding reg_step_def by blast
    then show ?thesis using assms(1) st(2) unfolding reg_step_def by blast
  qed
  moreover have "rs_generation (slot_at fs i) \<le> rs_generation (slot_at fs2 i)" if "i < pglc_relation_states s" for i
    using assms that unfolding reg_step_def by (meson le_trans)
  ultimately show ?thesis using assms unfolding reg_step_def by blast
qed

lemma enter_relation_state_spec:
  assumes ok: "reg_ok s fs rg" and new: "\<forall>x \<in> set (relation_hash rg). rst_key x \<noteq> key"
    and run: "enter_relation_state pr s key relation_oid fs rg st = (Inr r, fs', rg', st')"
  shows "reg_step s fs rg fs' rg' \<and>
    (\<forall>state. r = Some state \<longrightarrow> state \<in> set (relation_hash rg') \<and> rst_key state = key \<and>
       rst_relation_oid state = relation_oid \<and> rst_identity_pins state = 0 \<and> \<not> rst_pending_forget state)"
proof (cases "pglc_relation_states s \<le> length (relation_hash rg) \<or> \<not> hash_enter_ok pr")
  case True
  then show ?thesis using run reg_step_refl[OF ok] unfolding enter_relation_state_def by auto
next
  case False
  note D = reg_okD[OF ok]
  define x0 where "x0 = fresh_state key relation_oid"
  have x0: "rst_key x0 = key" "rst_relation_oid x0 = relation_oid" "rst_identity_pins x0 = 0" "\<not> rst_pending_forget x0"
    by (simp_all add: x0_def fresh_state_def)
  have rm: "hash_remove key (hash_enter x0 rg) = rg"
    using new x0(1) by (simp add: hash_remove_def hash_enter_def)
  show ?thesis
  proof (cases "find_free_slot s fs")
    case None
    then have "r = None \<and> fs' = fs \<and> rg' = rg" using run False rm
      unfolding enter_relation_state_def x0_def[symmetric] by (auto simp: initialize_relation_slot_def)
    then show ?thesis using reg_step_refl[OF ok] by simp
  next
    case (Some i)
    note i = find_free_slot_Some[OF Some]
    have dw: "rs_dirty_writers (slot_at fs i) = 0" using D(9)[OF i] .
    have inc: "rs_incarnation (slot_at fs i) \<le> relation_incarnation_counter (hash_enter x0 rg)"
      using D(10)[OF i(1)] by (simp add: hash_enter_def)
    define x where "x = x0\<lparr>rst_slot := i, rst_slot_generation := rs_generation (slot_at fs i) + 1\<rparr>"
    have kx: "rst_key x = key" using x0(1) by (simp add: x_def)
    obtain v fs1 rg1 where run1: "tag_relation_slot x0 False i fs (hash_enter x0 rg) = (Inr v, fs1, rg1)"
      using run False Some unfolding enter_relation_state_def x0_def[symmetric]
      by (auto simp: initialize_relation_slot_def Let_def split: sum.splits prod.splits)
    have v: "v = Some x" "fs1 = set_slot i (retagged (slot_at fs i) rg) fs"
      "rg1 = (hash_enter x0 rg)\<lparr>relation_incarnation_counter := relation_incarnation_counter rg + 1\<rparr>"
      using tag_relation_slot_eq[OF dw _ inc run1] by (simp_all add: x_def hash_enter_def retagged_def)
    have res: "r = Some x" "fs' = fs1" "rg' = hash_update x rg1"
      using run False Some run1 v(1) unfolding enter_relation_state_def x0_def[symmetric]
      by (auto simp: initialize_relation_slot_def Let_def)
    have rg': "rg' = rg\<lparr>relation_hash := x # relation_hash rg,
        relation_incarnation_counter := relation_incarnation_counter rg + 1\<rparr>"
    proof -
      have "map (\<lambda>st'. if rst_key st' = key then x else st') (relation_hash rg) = relation_hash rg"
        using new by (intro map_idI) auto
      then show ?thesis unfolding res(3) v(3) hash_update_def hash_enter_def using x0(1) kx by (cases rg) simp
    qed
    have d: "distinct (relation_hash rg)" using D(2) by (simp add: distinct_map)
    have "reg_step s fs rg fs' rg'"
      unfolding rg' res(2) v(2)
    proof (rule reg_ok_tag[OF ok i(1) dw, where x = x])
      show "distinct (map rst_key (x # relation_hash rg))" using D(2) new kx by auto
      show "distinct (x # relation_hash rg)" using d new kx by auto
      show "y \<in> set (relation_hash rg) \<and> rst_slot y \<noteq> i" if "y \<in> set (x # relation_hash rg)" "y \<noteq> x" for y
        using that D(5)[of y] i(2) by auto
    qed (auto simp: x_def)
    then show ?thesis using res(1) rg' x0 by (simp add: x_def)
  qed
qed

lemma retarget_relation_state_spec:
  assumes ok: "reg_ok s fs rg" and st: "state \<in> set (relation_hash rg)"
    and run: "retarget_relation_state s state relation_oid fs rg stt = (Inr r, fs', rg', stt')"
  shows "reg_step s fs rg fs' rg' \<and>
    (\<forall>x. r = Some x \<longrightarrow> x \<in> set (relation_hash rg') \<and> rst_key x = rst_key state \<and>
       rst_relation_oid x = relation_oid \<and> rst_identity_pins x = 0 \<and> \<not> rst_pending_forget x)"
proof (cases "rst_identity_pins state \<noteq> 0")
  case True
  then show ?thesis using run reg_step_refl[OF ok] unfolding retarget_relation_state_def by auto
next
  case False
  note D = reg_okD[OF ok]
  define i where "i = rst_slot state"
  have i: "i < pglc_relation_states s" using D(4)[OF st] by (simp add: i_def)
  have dw: "rs_dirty_writers (slot_at fs i) = 0" using D(8)[OF st] False by (simp add: i_def)
  have use: "rs_in_use (slot_at fs i)" using D(5)[OF st] by (simp add: i_def)
  define x where "x = state\<lparr>rst_slot := i, rst_slot_generation := rs_generation (slot_at fs i) + 1,
    rst_relation_oid := relation_oid, rst_pending_forget := False\<rparr>"
  have kx: "rst_key x = rst_key state" "rst_slot x = i" "rst_slot_generation x = rs_generation (slot_at fs i) + 1"
    by (simp_all add: x_def)
  obtain v fs1 rg1 where run1: "tag_relation_slot state True i fs rg = (Inr v, fs1, rg1)"
    using run False unfolding retarget_relation_state_def i_def
    by (auto simp: initialize_relation_slot_def Let_def split: sum.splits prod.splits)
  note v = tag_relation_slot_eq[OF dw _ D(10)[OF i] run1]
  have res: "r = Some x" "fs' = set_slot i (retagged (slot_at fs i) rg) fs"
    "rg' = hash_update x (rg\<lparr>relation_incarnation_counter := relation_incarnation_counter rg + 1\<rparr>)"
    using run False run1 v use unfolding retarget_relation_state_def i_def x_def
    by (auto simp: initialize_relation_slot_def Let_def)
  define hs where "hs = map (\<lambda>y. if rst_key y = rst_key x then x else y) (relation_hash rg)"
  have rg': "rg' = rg\<lparr>relation_hash := hs, relation_incarnation_counter := relation_incarnation_counter rg + 1\<rparr>"
    unfolding res(3) hs_def hash_update_def by (cases rg) simp
  have keys: "map rst_key hs = map rst_key (relation_hash rg)" unfolding hs_def by simp
  have uniq: "y = state" if "y \<in> set (relation_hash rg)" "rst_key y = rst_key x" for y
    using hash_key_unique[OF D(2) that(1) st] that(2) kx(1) by simp
  have set_hs: "y \<in> set hs \<longleftrightarrow> y = x \<or> y \<in> set (relation_hash rg) \<and> y \<noteq> state" for y
    using st uniq kx(1) unfolding hs_def by (auto simp: image_iff)
  have step: "reg_step s fs rg fs' rg'"
    unfolding rg' res(2)
  proof (rule reg_ok_tag[OF ok i dw, where x = x])
    show "distinct (map rst_key hs)" using D(2) keys by simp
    then show "distinct hs" by (simp add: distinct_map)
    show "x \<in> set hs" using set_hs by simp
    show "y \<in> set (relation_hash rg) \<and> rst_slot y \<noteq> i" if y: "y \<in> set hs" "y \<noteq> x" for y
    proof -
      have "y \<in> set (relation_hash rg)" "y \<noteq> state" using y set_hs by auto
      then show ?thesis using hash_slot_unique[OF D(3) _ st, of y] unfolding i_def by blast
    qed
    show "y \<in> set hs" if "y \<in> set (relation_hash rg)" "0 < rst_identity_pins y" for y
    proof -
      have "y \<noteq> state" using that(2) False by auto
      then show ?thesis using that(1) set_hs[of y] by simp
    qed
  qed (use kx in auto)
  have "x \<in> set (relation_hash rg')" using set_hs[of x] rg' by simp
  then show ?thesis using step res(1) False by (simp add: x_def)
qed

lemma get_relation_state_spec:
  assumes ok: "reg_ok s fs rg"
    and run: "get_relation_state pr s db rel nspace create fs rg st = (Inr r, fs', rg', st')"
  shows "reg_step s fs rg fs' rg' \<and>
    (\<forall>state. r = Some state \<longrightarrow> state \<in> set (relation_hash rg') \<and> rst_key state = make_relation_key db nspace \<and>
       (create \<longrightarrow> rel \<noteq> InvalidOid \<longrightarrow> rst_relation_oid state = rel \<and> \<not> rst_pending_forget state))"
proof -
  define key where "key = make_relation_key db nspace"
  note run = run[unfolded get_relation_state_def Let_def, folded key_def]
  show ?thesis
  proof (cases "create")
    case False
    then show ?thesis using run reg_step_refl[OF ok] hash_find_Some[of rg key] by (auto simp: key_def)
  next
    case True
    show ?thesis
    proof (cases "hash_find rg key")
      case None
      then have "enter_relation_state pr s key rel fs rg st = (Inr r, fs', rg', st')"
        using run True by (simp add: retire_forgotten_def)
      from enter_relation_state_spec[OF ok _ this] None show ?thesis
        unfolding hash_find_None by (auto simp: key_def)
    next
      case (Some state)
      note fd = hash_find_Some[OF Some]
      consider (pinned) "rst_pending_forget state" "rst_identity_pins state \<noteq> 0 \<or> rs_dirty_writers (slot_at fs (rst_slot state)) \<noteq> 0"
        | (gone) "rst_pending_forget state" "rst_identity_pins state = 0" "rs_dirty_writers (slot_at fs (rst_slot state)) = 0"
        | (live) "\<not> rst_pending_forget state" by blast
      then show ?thesis
      proof cases
        case pinned
        then show ?thesis using run True Some reg_step_refl[OF ok] by (auto simp: retire_forgotten_def)
      next
        case gone
        obtain u fs1 where rel1: "release_relation_slot s state fs = (Inr u, fs1)"
          using run True Some gone by (auto simp: retire_forgotten_def split: sum.splits prod.splits)
        have run2: "enter_relation_state pr s key rel fs1 (hash_remove key rg) st = (Inr r, fs', rg', st')"
          using run True Some gone rel1 by (auto simp: retire_forgotten_def)
        have kk: "rst_key state = key" using fd by simp
        note rm = reg_ok_remove[OF ok _ gone(2) rel1, unfolded kk]
        have ok1: "reg_ok s fs1 (hash_remove key rg)" using rm(1) fd unfolding reg_step_def by blast
        note e = enter_relation_state_spec[OF ok1 _ run2]
        show ?thesis using e rm fd reg_step_trans by (auto simp: key_def)
      next
        case live
        show ?thesis
        proof (cases "rel \<noteq> InvalidOid \<and> rst_relation_oid state \<noteq> rel")
          case True
          then have "retarget_relation_state s state rel fs rg st = (Inr r, fs', rg', st')"
            using run \<open>create\<close> Some live by (auto simp: retire_forgotten_def)
          from retarget_relation_state_spec[OF ok _ this] fd show ?thesis by (auto simp: key_def)
        next
          case False
          then have "r = Some state" "fs' = fs" "rg' = rg"
            using run \<open>create\<close> Some live by (auto simp: retire_forgotten_def)
          then show ?thesis using False reg_step_refl[OF ok] fd live by (auto simp: key_def)
        qed
      qed
    qed
  qed
qed

section \<open>A registry with one free slot\<close>

definition demo_process :: process where
  "demo_process = \<lparr>pglc_worker_slot = 0, has_my_proc = True, my_database_id = 5,
     hash_bytes_extended = (\<lambda>bs h. push_bit 8 h + of_nat (length bs)), hash_enter_ok = True,
     qsort_order = (\<lambda>ks. map snd (sort_key fst (zip ks [0..<length ks])))\<rparr>"

definition blank_slot :: relation_slot where
  "blank_slot = \<lparr>rs_generation = 0, rs_incarnation = 0, rs_version = 0, rs_dirty_writers = 0, rs_in_use = False\<rparr>"

definition demo_fences :: fences where
  "demo_fences = \<lparr>global_version = 0, global_epoch = 0, global_dirty_writers = 0, config_generation = 1,
     relation_slots = [blank_slot]\<rparr>"

definition demo_registry :: registry where
  "demo_registry = \<lparr>relation_hash = [], relation_incarnation_counter = 0\<rparr>"

definition demo_stats :: stats where
  "demo_stats = \<lparr>plain_counters = (\<lambda>_. 0), stats_shards = (\<lambda>_ _. 0)\<rparr>"

definition demo_mapping :: mapping where
  "demo_mapping = \<lparr>mp_nspace = ''t'', mp_relation_oid = 7, mp_config_generation = 1,
     mp_relation_slot = 0, mp_relation_slot_generation = 0\<rparr>"

definition demo_tagged :: fences where
  "demo_tagged = demo_fences\<lparr>relation_slots := [blank_slot\<lparr>rs_generation := 1, rs_incarnation := 1, rs_in_use := True\<rparr>]\<rparr>"

definition demo_state :: relation_state where
  "demo_state = \<lparr>rst_key = \<lparr>rk_database_oid = 5, rk_nspace = ''t''\<rparr>, rst_relation_oid = 7, rst_identity_pins = 0,
     rst_slot = 0, rst_slot_generation = 1, rst_pending_forget = False\<rparr>"

lemma demo_reg_ok: "reg_ok demo_settings demo_fences demo_registry"
  by (simp add: reg_ok_def demo_fences_def demo_registry_def demo_fields blank_slot_def)

lemma demo_resolve:
  "pglc_resolve_mapping_slot demo_process demo_settings demo_mapping demo_fences demo_registry demo_stats =
     (Inr (True, demo_mapping\<lparr>mp_relation_slot_generation := 1\<rparr>), demo_tagged,
      \<lparr>relation_hash = [demo_state], relation_incarnation_counter = 1\<rparr>, demo_stats)"
  by (simp add: pglc_resolve_mapping_slot_def get_relation_state_def retire_forgotten_def hash_find_def
      enter_relation_state_def initialize_relation_slot_def find_free_slot_def tag_relation_slot_def
      pglc_atomic_fetch_add_checked_def set_slot_def hash_enter_def hash_update_def fresh_state_def
      make_relation_key_def strlcpy_def demo_process_def demo_mapping_def demo_fences_def demo_registry_def
      demo_fields blank_slot_def demo_tagged_def demo_state_def Let_def)

section \<open>Properties\<close>

text \<open>C36: resolving a mapping never disturbs an identity somebody else relies on. The registry
  invariant is kept, slot generations only grow, a pinned relation state survives unchanged, and a
  state that still carries a slot's old generation was there before (\<open>reg_step\<close>); so a slot number
  with its generation names one relation for ever. When the mapping is resolved, it is current and
  names an unforgotten state of its own namespace and relation.\<close>

theorem resolve_mapping_identity:
  assumes "reg_ok s fs rg"
    and "pglc_resolve_mapping_slot pr s mp fs rg st = (Inr (resolved, mp'), fs', rg', st')"
  shows "reg_step s fs rg fs' rg' \<and>
    (resolved \<longrightarrow> pglc_mapping_slot_is_current s mp' fs' \<and>
       (\<exists>state \<in> set (relation_hash rg'). rst_key state = make_relation_key (my_database_id pr) (mp_nspace mp) \<and>
          rst_relation_oid state = mp_relation_oid mp \<and> \<not> rst_pending_forget state \<and>
          rst_slot state = mp_relation_slot mp' \<and> rst_slot_generation state = mp_relation_slot_generation mp'))"
proof -
  obtain r where run: "get_relation_state pr s (my_database_id pr) (mp_relation_oid mp) (mp_nspace mp) True fs rg st =
      (Inr r, fs', rg', st')"
    using assms(2) unfolding pglc_resolve_mapping_slot_def Let_def by (auto split: sum.splits prod.splits option.splits if_splits)
  note g = get_relation_state_spec[OF assms(1) run]
  have ok: "reg_ok s fs' rg'" using g unfolding reg_step_def by blast
  show ?thesis
  proof (cases "\<exists>state. r = Some state \<and> rst_relation_oid state = mp_relation_oid mp \<and> \<not> rst_pending_forget state")
    case True
    then obtain state where r: "r = Some state" "rst_relation_oid state = mp_relation_oid mp" "\<not> rst_pending_forget state"
      by blast
    have h: "state \<in> set (relation_hash rg')" using g r(1) by blast
    have "mp_relation_slot mp' = rst_slot state" "mp_relation_slot_generation mp' = rst_slot_generation state"
      using assms(2) run r unfolding pglc_resolve_mapping_slot_def by auto
    then show ?thesis using g r h reg_okD(4,6)[OF ok h] unfolding pglc_mapping_slot_is_current_def by auto
  next
    case False
    then have "\<not> resolved" using assms(2) run unfolding pglc_resolve_mapping_slot_def
      by (cases r) (auto split: if_splits)
    then show ?thesis using g by blast
  qed
qed

theorem resolve_mapping_identity_witness:
  "reg_step demo_settings demo_fences demo_registry demo_tagged
     \<lparr>relation_hash = [demo_state], relation_incarnation_counter = 1\<rparr> \<and>
   pglc_mapping_slot_is_current demo_settings (demo_mapping\<lparr>mp_relation_slot_generation := 1\<rparr>) demo_tagged"
  using resolve_mapping_identity[OF demo_reg_ok demo_resolve] by simp

text \<open>C37: sharding never loses a count: whichever process adds to a statistics counter (a worker,
  another backend, or a process without a PGPROC), the reported total grows by exactly the amount,
  modulo 2^64.\<close>

theorem stat_total_exact:
  assumes "plain_counters st c \<le> UINT64_MAX"
  shows "pglc_worker_stat_total c (pglc_worker_stat_add pr c n st) = u64 (pglc_worker_stat_total c st + n)"
  by (rule stat_total_add[OF assms])

theorem stat_total_exact_witness:
  "pglc_worker_stat_total evictions (pglc_worker_stat_add demo_process evictions 3 demo_stats) =
     u64 (pglc_worker_stat_total evictions demo_stats + 3)"
  by (rule stat_total_exact) (simp add: demo_stats_def)

end
