(* ===== verification/Fences.thy ===== *)
theory Fences
  imports Registry
begin

text \<open>
  Cache entries, read tokens and the fence snapshots of src/src/pg_local_cache.c
  (lines 1943 to 2118 and 2997 to 3002).

  A reader never holds a lock that excludes writers from the fence counters. It reads the
  counters one by one, checks that no writer is open, reads the versions again, and
  accepts only if nothing moved. \<open>obs i\<close> is the fence state at the i-th of those reads.
\<close>

section \<open>Entries, tokens and snapshots\<close>

record cache_entry =
  ce_key_hash :: nat
  ce_slot_generation :: nat
  ce_global_epoch :: nat
  ce_relation_version :: nat
  ce_relation_incarnation :: nat
  ce_version :: nat
  ce_load_id :: nat
  ce_load_started :: int
  ce_last_access :: nat
  ce_source_observed_full_xid :: nat
  ce_database_oid :: nat
  ce_relation_oid :: nat
  ce_relation_slot :: nat
  ce_dirty_writers :: nat
  ce_block_ref :: nat
  ce_key_len :: nat
  ce_value_len :: nat
  ce_block_len :: nat
  ce_source_xmin :: nat
  ce_valid :: bool
  ce_negative :: bool
  ce_loading :: bool
  ce_in_use :: bool
  ce_free_next :: nat

record read_token =
  tk_config_generation :: nat
  tk_global_version :: nat
  tk_global_epoch :: nat
  tk_relation_version :: nat
  tk_relation_incarnation :: nat
  tk_slot_generation :: nat
  tk_relation_slot :: nat
  tk_key_version :: nat
  tk_source_observed_full_xid :: nat
  tk_cacheable :: bool
  tk_has_entry :: bool

record fence_snapshot =
  sn_global_version :: nat
  sn_global_epoch :: nat
  sn_global_dirty_writers :: nat
  sn_relation_version :: nat
  sn_relation_incarnation :: nat
  sn_relation_dirty_writers :: nat
  sn_config_generation :: nat
  sn_slot_generation :: nat
  sn_key_version :: nat
  sn_key_dirty_writers :: nat
  sn_entry_global_epoch :: nat
  sn_entry_relation_version :: nat
  sn_entry_relation_incarnation :: nat
  sn_entry_slot_generation :: nat
  sn_relation_slot :: nat

type_synonym observations = "nat \<Rightarrow> fences"

text \<open>Four reads: slot generation, global epoch, slot incarnation, slot version.\<close>

definition cache_entry_is_current_slot_locked :: "settings \<Rightarrow> observations \<Rightarrow> cache_entry \<Rightarrow> bool" where
  "cache_entry_is_current_slot_locked s obs e \<longleftrightarrow>
     ce_relation_slot e < pglc_relation_states s \<and> ce_valid e \<and>
     ce_slot_generation e = rs_generation (slot_at (obs 0) (ce_relation_slot e)) \<and>
     ce_global_epoch e = global_epoch (obs 1) \<and>
     ce_relation_incarnation e = rs_incarnation (slot_at (obs 2) (ce_relation_slot e)) \<and>
     ce_relation_version e = rs_version (slot_at (obs 3) (ce_relation_slot e))"

text \<open>
  Thirteen reads: the five versions, the two writer counts and the epoch, then the five
  versions again. \<open>None\<close> is the early return that leaves the snapshot unset.
\<close>

definition read_fence_snapshot ::
  "settings \<Rightarrow> observations \<Rightarrow> mapping \<Rightarrow> cache_entry option \<Rightarrow> (fence_snapshot \<times> bool) option" where
  "read_fence_snapshot s obs mp entry =
     (if pglc_relation_states s \<le> mp_relation_slot mp then None
      else
        let slot = (\<lambda>i. slot_at (obs i) (mp_relation_slot mp));
            sn = \<lparr>sn_global_version = global_version (obs 0),
              sn_global_epoch = global_epoch (obs 7),
              sn_global_dirty_writers = global_dirty_writers (obs 5),
              sn_relation_version = rs_version (slot 1),
              sn_relation_incarnation = rs_incarnation (slot 4),
              sn_relation_dirty_writers = rs_dirty_writers (slot 6),
              sn_config_generation = config_generation (obs 2),
              sn_slot_generation = rs_generation (slot 3),
              sn_key_version = (case entry of None \<Rightarrow> 0 | Some e \<Rightarrow> ce_version e),
              sn_key_dirty_writers = (case entry of None \<Rightarrow> 0 | Some e \<Rightarrow> ce_dirty_writers e),
              sn_entry_global_epoch = (case entry of None \<Rightarrow> 0 | Some e \<Rightarrow> ce_global_epoch e),
              sn_entry_relation_version = (case entry of None \<Rightarrow> 0 | Some e \<Rightarrow> ce_relation_version e),
              sn_entry_relation_incarnation = (case entry of None \<Rightarrow> 0 | Some e \<Rightarrow> ce_relation_incarnation e),
              sn_entry_slot_generation = (case entry of None \<Rightarrow> 0 | Some e \<Rightarrow> ce_slot_generation e),
              sn_relation_slot = mp_relation_slot mp\<rparr>
        in Some (sn,
             sn_global_version sn = global_version (obs 8) \<and>
             sn_relation_version sn = rs_version (slot 9) \<and>
             sn_config_generation sn = config_generation (obs 10) \<and>
             sn_slot_generation sn = rs_generation (slot 11) \<and>
             sn_relation_incarnation sn = rs_incarnation (slot 12) \<and>
             sn_config_generation sn = mp_config_generation mp \<and>
             sn_slot_generation sn = mp_relation_slot_generation mp \<and>
             sn_relation_incarnation sn \<noteq> 0 \<and>
             sn_global_dirty_writers sn = 0 \<and>
             sn_relation_dirty_writers sn = 0 \<and>
             sn_key_dirty_writers sn = 0))"

definition fence_snapshots_equal :: "fence_snapshot \<Rightarrow> fence_snapshot \<Rightarrow> bool" where
  "fence_snapshots_equal left right \<longleftrightarrow> left = right"

definition fence_snapshot_fences_match_token :: "fence_snapshot \<Rightarrow> read_token \<Rightarrow> bool" where
  "fence_snapshot_fences_match_token sn tok \<longleftrightarrow>
     sn_config_generation sn = tk_config_generation tok \<and>
     sn_global_version sn = tk_global_version tok \<and>
     sn_global_epoch sn = tk_global_epoch tok \<and>
     sn_relation_version sn = tk_relation_version tok \<and>
     sn_relation_incarnation sn = tk_relation_incarnation tok \<and>
     sn_slot_generation sn = tk_slot_generation tok \<and>
     sn_relation_slot sn = tk_relation_slot tok"

definition fence_snapshot_matches_token :: "fence_snapshot \<Rightarrow> read_token \<Rightarrow> bool" where
  "fence_snapshot_matches_token sn tok \<longleftrightarrow>
     sn_config_generation sn = tk_config_generation tok \<and>
     sn_global_version sn = tk_global_version tok \<and>
     sn_global_epoch sn = tk_global_epoch tok \<and>
     sn_relation_version sn = tk_relation_version tok \<and>
     sn_relation_incarnation sn = tk_relation_incarnation tok \<and>
     sn_slot_generation sn = tk_slot_generation tok \<and>
     sn_relation_slot sn = tk_relation_slot tok \<and>
     sn_key_version sn = tk_key_version tok"

section \<open>Writers\<close>

definition advance_global_version_locked :: "fences \<Rightarrow> (cache_error + unit) \<times> fences" where
  "advance_global_version_locked fs =
     (case pglc_atomic_fetch_add_checked (global_version fs) 1 of
        (Inl e, _) \<Rightarrow> (Inl e, fs)
      | (Inr _, v) \<Rightarrow> (Inr (), fs\<lparr>global_version := v\<rparr>))"

definition invalidate_all_locked :: "fences \<Rightarrow> (cache_error + nat) \<times> fences" where
  "invalidate_all_locked fs =
     (case pglc_atomic_fetch_add_checked (global_epoch fs) 1 of
        (Inl e, _) \<Rightarrow> (Inl e, fs)
      | (Inr _, v) \<Rightarrow> (Inr 1, fs\<lparr>global_epoch := v\<rparr>))"

text \<open>The single atomic steps on the counters of a relation slot and on the global counters.\<close>

definition add_slot_dirty_writers :: "nat \<Rightarrow> fences \<Rightarrow> (cache_error + unit) \<times> fences" where
  "add_slot_dirty_writers i fs =
     (case pglc_atomic_fetch_add_checked (rs_dirty_writers (slot_at fs i)) 1 of
        (Inl e, _) \<Rightarrow> (Inl e, fs)
      | (Inr _, v) \<Rightarrow> (Inr (), set_slot i ((slot_at fs i)\<lparr>rs_dirty_writers := v\<rparr>) fs))"

definition sub_slot_dirty_writers :: "nat \<Rightarrow> fences \<Rightarrow> (cache_error + unit) \<times> fences" where
  "sub_slot_dirty_writers i fs =
     (case pglc_atomic_fetch_sub_checked (rs_dirty_writers (slot_at fs i)) 1 of
        (Inl e, _) \<Rightarrow> (Inl e, fs)
      | (Inr _, v) \<Rightarrow> (Inr (), set_slot i ((slot_at fs i)\<lparr>rs_dirty_writers := v\<rparr>) fs))"

text \<open>The result is the version before the step.\<close>

definition advance_slot_version :: "nat \<Rightarrow> fences \<Rightarrow> (cache_error + nat) \<times> fences" where
  "advance_slot_version i fs =
     (case pglc_atomic_fetch_add_checked (rs_version (slot_at fs i)) 1 of
        (Inl e, _) \<Rightarrow> (Inl e, fs)
      | (Inr old, v) \<Rightarrow> (Inr old, set_slot i ((slot_at fs i)\<lparr>rs_version := v\<rparr>) fs))"

definition add_global_dirty_writers :: "fences \<Rightarrow> (cache_error + unit) \<times> fences" where
  "add_global_dirty_writers fs =
     (case pglc_atomic_fetch_add_checked (global_dirty_writers fs) 1 of
        (Inl e, _) \<Rightarrow> (Inl e, fs)
      | (Inr _, v) \<Rightarrow> (Inr (), fs\<lparr>global_dirty_writers := v\<rparr>))"

definition sub_global_dirty_writers :: "fences \<Rightarrow> (cache_error + unit) \<times> fences" where
  "sub_global_dirty_writers fs =
     (case pglc_atomic_fetch_sub_checked (global_dirty_writers fs) 1 of
        (Inl e, _) \<Rightarrow> (Inl e, fs)
      | (Inr _, v) \<Rightarrow> (Inr (), fs\<lparr>global_dirty_writers := v\<rparr>))"

end
