(* ===== verification/LocalDirty.thy ===== *)
theory LocalDirty
  imports Registry "HOL-Library.Multiset"
begin

text \<open>
  What one transaction remembers of its own writes: the dirty-key set of
  src/src/pg_local_cache.c (lines 4104 to 4331 and 4564 to 4666) with the limit of
  src/src/dirty_key_limit.h.

  The C code keeps a hash table of dirty records and a vector of pointers to its elements.
  Here \<open>dirty_hash\<close> is the list of keys in the table and \<open>dirty_ordered\<close> the vector with
  the elements themselves. A lookup compares keys with \<open>pglc_local_dirty_key_matches\<close>;
  that the table's hash function agrees with it is proved below.
\<close>

section \<open>Dirty records\<close>

datatype dirty_kind = PGLC_DIRTY_KEY | PGLC_DIRTY_RELATION | PGLC_DIRTY_FORGET_RELATION | PGLC_DIRTY_GLOBAL

text \<open>The name and key arrays hold their first \<open>nspace_len\<close> and \<open>key_len\<close> bytes here.\<close>

record local_dirty_key =
  dk_kind :: dirty_kind
  dk_database_oid :: nat
  dk_relation_oid :: nat
  dk_nspace :: "char list"
  dk_key :: "char list"

abbreviation dk_nspace_len :: "local_dirty_key \<Rightarrow> nat" where "dk_nspace_len k \<equiv> length (dk_nspace k)"
abbreviation dk_key_len :: "local_dirty_key \<Rightarrow> nat" where "dk_key_len k \<equiv> length (dk_key k)"

record local_dirty_entry =
  de_key :: local_dirty_key
  de_cache_key_hash :: nat
  de_dirty_hash :: nat
  de_partition :: nat
  de_relation_oid :: nat
  shared_marker_reserved :: bool
  shared_entry_reserved :: bool
  shared_relation_reserved :: bool
  shared_relation_fence_published :: bool
  shared_identity_pin :: bool
  shared_slot :: nat
  shared_slot_generation :: nat
  shared_relation_incarnation :: nat
  target_relation_incarnation :: nat
  shared_marker_id :: nat
  shared_marker_generation :: nat

record local_dirty =
  dirty_hash :: "local_dirty_key list"
  dirty_ordered :: "local_dirty_entry list"
  dirty_ordered_capacity :: nat
  dirty_ordered_sorted :: bool
  dirty_count :: nat
  dirty_key_count :: nat
  dirty_published :: bool
  dirty_global_fallback :: bool
  dirty_bump_config :: bool
  attached_table_touched :: bool
  has_global_dirty_record :: bool

section \<open>Hashing and matching\<close>

fun kind_code :: "dirty_kind \<Rightarrow> nat" where
  "kind_code PGLC_DIRTY_KEY = 1"
| "kind_code PGLC_DIRTY_RELATION = 2"
| "kind_code PGLC_DIRTY_GLOBAL = 3"
| "kind_code PGLC_DIRTY_FORGET_RELATION = 4"

definition u16_bytes :: "nat \<Rightarrow> char list" where
  "u16_bytes n = [char_of n, char_of (n div 256)]"

definition hash_header :: "local_dirty_key \<Rightarrow> char list" where
  "hash_header k =
     oid_bytes (dk_database_oid k) @ oid_bytes (dk_relation_oid k) @ u16_bytes (dk_nspace_len k) @
     u16_bytes (dk_key_len k) @ [char_of (kind_code (dk_kind k)), CHR 0x00, CHR 0x00, CHR 0x00]"

definition pglc_local_dirty_hash_value :: "process \<Rightarrow> local_dirty_key \<Rightarrow> nat" where
  "pglc_local_dirty_hash_value pr k =
     (let h = hash_bytes_extended pr (hash_header k) 0;
          h = (if 0 < dk_nspace_len k then hash_bytes_extended pr (dk_nspace k) h else h);
          h = (if 0 < dk_key_len k then hash_bytes_extended pr (dk_key k) h else h)
      in u32 (unat (h XOR drop_bit 32 h)))"

text \<open>The C function returns zero for equal keys, as \<open>memcmp\<close> does; here it is a predicate.\<close>

definition pglc_local_dirty_key_matches :: "local_dirty_key \<Rightarrow> local_dirty_key \<Rightarrow> bool" where
  "pglc_local_dirty_key_matches l r \<longleftrightarrow>
     \<not> (dk_kind l \<noteq> dk_kind r \<or> dk_database_oid l \<noteq> dk_database_oid r \<or>
        dk_relation_oid l \<noteq> dk_relation_oid r \<or> dk_nspace_len l \<noteq> dk_nspace_len r \<or>
        dk_key_len l \<noteq> dk_key_len r \<or>
        (0 < dk_nspace_len l \<and> dk_nspace l \<noteq> take (dk_nspace_len l) (dk_nspace r)) \<or>
        (0 < dk_key_len l \<and> dk_key l \<noteq> take (dk_key_len l) (dk_key r)))"

definition make_local_dirty_key ::
  "dirty_kind \<Rightarrow> nat \<Rightarrow> nat \<Rightarrow> char list option \<Rightarrow> char list option \<Rightarrow> local_dirty_key" where
  "make_local_dirty_key kind database_oid relation_oid nspace key =
     \<lparr>dk_kind = kind, dk_database_oid = database_oid, dk_relation_oid = relation_oid,
      dk_nspace = (case nspace of None \<Rightarrow> [] | Some n \<Rightarrow> strlcpy n PGLC_NAMESPACE_MAX),
      dk_key = (case key of None \<Rightarrow> [] | Some k \<Rightarrow> strlcpy k PGLC_KEY_MAX)\<rparr>"

definition dirty_find :: "local_dirty \<Rightarrow> local_dirty_key \<Rightarrow> bool" where
  "dirty_find ld k \<longleftrightarrow> list_ex (pglc_local_dirty_key_matches k) (dirty_hash ld)"

section \<open>Collection\<close>

function grow_capacity :: "nat \<Rightarrow> nat \<Rightarrow> nat" where
  "grow_capacity required capacity =
     (if capacity < required \<and> 0 < capacity then grow_capacity required (capacity * 2) else capacity)"
  by auto
termination by (relation "measure (\<lambda>(required, capacity). required - capacity)") auto

declare grow_capacity.simps [simp del]

definition ensure_local_dirty_vector_capacity :: "nat \<Rightarrow> local_dirty \<Rightarrow> local_dirty" where
  "ensure_local_dirty_vector_capacity required ld =
     (if required \<le> dirty_ordered_capacity ld then ld
      else ld\<lparr>dirty_ordered_capacity := grow_capacity required (max (dirty_ordered_capacity ld) 64)\<rparr>)"

definition pglc_dirty_key_limit_requires_fallback :: "bool \<Rightarrow> nat \<Rightarrow> nat \<Rightarrow> bool" where
  "pglc_dirty_key_limit_requires_fallback key_already_collected n max_dirty_keys \<longleftrightarrow>
     \<not> key_already_collected \<and> max_dirty_keys \<le> n"

definition pglc_dirty_key_count_after_entry :: "nat \<Rightarrow> bool \<Rightarrow> nat" where
  "pglc_dirty_key_count_after_entry n is_key_entry = n + (if is_key_entry then 1 else 0)"

definition new_dirty_entry :: "process \<Rightarrow> settings \<Rightarrow> local_dirty_key \<Rightarrow> local_dirty_entry" where
  "new_dirty_entry pr s k =
     (let hash = (if dk_kind k = PGLC_DIRTY_KEY
                  then cache_key_hash64 pr (dk_database_oid k) (dk_nspace k) (dk_key k) (dk_key_len k) else 0)
      in \<lparr>de_key = k, de_cache_key_hash = hash, de_dirty_hash = pglc_local_dirty_hash_value pr k,
          de_partition = (if dk_kind k = PGLC_DIRTY_KEY then pglc_cache_partition_for_hash s hash
                          else UINT32_MAX),
          de_relation_oid = dk_relation_oid k, shared_marker_reserved = False,
          shared_entry_reserved = False, shared_relation_reserved = False,
          shared_relation_fence_published = False, shared_identity_pin = False,
          shared_slot = UINT32_MAX, shared_slot_generation = 0, shared_relation_incarnation = 0,
          target_relation_incarnation = 0, shared_marker_id = 0, shared_marker_generation = 0\<rparr>)"

definition collect_dirty ::
  "process \<Rightarrow> settings \<Rightarrow> dirty_kind \<Rightarrow> nat \<Rightarrow> nat \<Rightarrow> char list option \<Rightarrow> char list option \<Rightarrow>
   local_dirty \<Rightarrow> local_dirty" where
  "collect_dirty pr s kind database_oid relation_oid nspace key ld =
     (let k = make_local_dirty_key kind database_oid relation_oid nspace key;
          ld = ensure_local_dirty_vector_capacity (dirty_count ld + 1) ld
      in if dirty_find ld k then ld
         else ld\<lparr>dirty_hash := k # dirty_hash ld,
                 dirty_count := dirty_count ld + 1,
                 dirty_ordered := dirty_ordered ld @ [new_dirty_entry pr s k],
                 dirty_ordered_sorted := False,
                 dirty_key_count :=
                   pglc_dirty_key_count_after_entry (dirty_key_count ld) (kind = PGLC_DIRTY_KEY),
                 has_global_dirty_record :=
                   (if kind = PGLC_DIRTY_GLOBAL then True else has_global_dirty_record ld)\<rparr>)"

definition pglc_collect_relation ::
  "process \<Rightarrow> settings \<Rightarrow> nat \<Rightarrow> nat \<Rightarrow> char list \<Rightarrow> local_dirty \<Rightarrow> local_dirty" where
  "pglc_collect_relation pr s database_oid relation_oid nspace =
     collect_dirty pr s PGLC_DIRTY_RELATION database_oid relation_oid (Some nspace) None"

definition pglc_collect_forget_relation ::
  "process \<Rightarrow> settings \<Rightarrow> nat \<Rightarrow> nat \<Rightarrow> char list \<Rightarrow> local_dirty \<Rightarrow> local_dirty" where
  "pglc_collect_forget_relation pr s database_oid relation_oid nspace =
     collect_dirty pr s PGLC_DIRTY_FORGET_RELATION database_oid relation_oid (Some nspace) None"

definition pglc_collect_global :: "process \<Rightarrow> settings \<Rightarrow> bool \<Rightarrow> local_dirty \<Rightarrow> local_dirty" where
  "pglc_collect_global pr s bump_config ld =
     (let ld = collect_dirty pr s PGLC_DIRTY_GLOBAL (my_database_id pr) InvalidOid None None ld
      in if bump_config then ld\<lparr>dirty_bump_config := True\<rparr> else ld)"

definition pglc_collect_key ::
  "process \<Rightarrow> settings \<Rightarrow> nat \<Rightarrow> nat \<Rightarrow> char list \<Rightarrow> char list \<Rightarrow> local_dirty \<times> stats \<Rightarrow> local_dirty \<times> stats" where
  "pglc_collect_key pr s database_oid relation_oid nspace key ls =
     (let (ld, st) = ls;
          rel = (\<lambda>kind. make_local_dirty_key kind database_oid relation_oid (Some nspace) None)
      in if dirty_find ld (rel PGLC_DIRTY_RELATION) then (ld, st)
         else if dirty_find ld (rel PGLC_DIRTY_FORGET_RELATION) then (ld, st)
         else
           let k = make_local_dirty_key PGLC_DIRTY_KEY database_oid relation_oid (Some nspace) (Some key);
               key_already_collected = dirty_find ld k
           in if pglc_dirty_key_limit_requires_fallback key_already_collected (dirty_key_count ld)
                   (pglc_max_dirty_keys s)
              then (pglc_collect_relation pr s database_oid relation_oid nspace ld,
                    pg_atomic_fetch_add_u64 dirty_key_limit_fallbacks 1 st)
              else if \<not> key_already_collected
              then (collect_dirty pr s PGLC_DIRTY_KEY database_oid relation_oid (Some nspace) (Some key) ld, st)
              else (ld, st))"

section \<open>Ordering and reset\<close>

definition ordered_local_dirty_entries :: "process \<Rightarrow> local_dirty \<Rightarrow> local_dirty" where
  "ordered_local_dirty_entries pr ld =
     (if dirty_ordered_sorted ld then ld
      else ld\<lparr>dirty_ordered := map (nth (dirty_ordered ld)) (qsort_order pr (map de_partition (dirty_ordered ld))),
              dirty_ordered_sorted := True\<rparr>)"

fun remove_dirty_keys :: "local_dirty_entry list \<Rightarrow> local_dirty_key list \<Rightarrow> local_dirty_key list option" where
  "remove_dirty_keys [] hs = Some hs"
| "remove_dirty_keys (e # es) hs =
     (if list_ex (pglc_local_dirty_key_matches (de_key e)) hs
      then remove_dirty_keys es (filter (\<lambda>k. \<not> pglc_local_dirty_key_matches (de_key e) k) hs)
      else None)"

definition empty_dirty_flags :: "local_dirty \<Rightarrow> local_dirty" where
  "empty_dirty_flags ld =
     ld\<lparr>dirty_ordered := [], dirty_count := 0, dirty_key_count := 0, dirty_ordered_sorted := True,
        dirty_published := False, dirty_global_fallback := False, dirty_bump_config := False,
        attached_table_touched := False, has_global_dirty_record := False\<rparr>"

definition reset_local_dirty :: "local_dirty \<Rightarrow> cache_error + local_dirty" where
  "reset_local_dirty ld =
     (if 0 < dirty_count ld
      then (case remove_dirty_keys (dirty_ordered ld) (dirty_hash ld) of
              None \<Rightarrow> Inl Dirty_Reset_Lost
            | Some hs \<Rightarrow> Inr (empty_dirty_flags (ld\<lparr>dirty_hash := hs\<rparr>)))
      else Inr (empty_dirty_flags ld))"

definition pglc_current_transaction_is_dirty :: "local_dirty \<Rightarrow> bool" where
  "pglc_current_transaction_is_dirty ld \<longleftrightarrow>
     attached_table_touched ld \<or> 0 < dirty_count ld \<or> dirty_global_fallback ld"

section \<open>Invariant\<close>

lemma dirty_key_matches_iff: "pglc_local_dirty_key_matches l r \<longleftrightarrow> l = r"
  unfolding pglc_local_dirty_key_matches_def by (cases l; cases r) auto

lemma dirty_find_iff: "dirty_find ld k \<longleftrightarrow> k \<in> set (dirty_hash ld)"
  by (simp add: dirty_find_def dirty_key_matches_iff list_ex_iff)

lemma grow_capacity_ge: "0 < capacity \<Longrightarrow> required \<le> grow_capacity required capacity"
proof (induction required capacity rule: grow_capacity.induct)
  case (1 required capacity)
  then show ?case by (subst grow_capacity.simps) simp
qed

text \<open>
  The table and the vector hold the same distinct records, the vector has room for them, the
  counters count them, and a key record carries the hash and partition of its key.
\<close>

definition dirty_entry_ok :: "process \<Rightarrow> settings \<Rightarrow> local_dirty_entry \<Rightarrow> bool" where
  "dirty_entry_ok pr s e \<longleftrightarrow>
     de_relation_oid e = dk_relation_oid (de_key e) \<and>
     de_cache_key_hash e = de_cache_key_hash (new_dirty_entry pr s (de_key e)) \<and>
     de_partition e = de_partition (new_dirty_entry pr s (de_key e))"

definition dirty_ok :: "process \<Rightarrow> settings \<Rightarrow> local_dirty \<Rightarrow> bool" where
  "dirty_ok pr s ld \<longleftrightarrow>
     distinct (dirty_hash ld) \<and> mset (map de_key (dirty_ordered ld)) = mset (dirty_hash ld) \<and>
     dirty_count ld = length (dirty_ordered ld) \<and> dirty_count ld \<le> dirty_ordered_capacity ld \<and>
     dirty_key_count ld = length (filter (\<lambda>k. dk_kind k = PGLC_DIRTY_KEY) (dirty_hash ld)) \<and>
     dirty_key_count ld \<le> pglc_max_dirty_keys s \<and>
     (has_global_dirty_record ld \<longleftrightarrow> (\<exists>k \<in> set (dirty_hash ld). dk_kind k = PGLC_DIRTY_GLOBAL)) \<and>
     (\<forall>e \<in> set (dirty_ordered ld). dirty_entry_ok pr s e)"

lemma dirty_okD:
  assumes "dirty_ok pr s ld"
  shows "set (dirty_hash ld) = de_key ` set (dirty_ordered ld)"
  using assms unfolding dirty_ok_def by (metis set_map set_mset_mset)

lemma dirty_ok_capacity:
  assumes "dirty_ok pr s ld"
  shows "dirty_ok pr s (ensure_local_dirty_vector_capacity n ld)"
    "n \<le> dirty_ordered_capacity (ensure_local_dirty_vector_capacity n ld)"
proof -
  have g: "n \<le> grow_capacity n (max (dirty_ordered_capacity ld) 64)" by (rule grow_capacity_ge) simp
  show "dirty_ok pr s (ensure_local_dirty_vector_capacity n ld)"
    using assms g unfolding ensure_local_dirty_vector_capacity_def dirty_ok_def by auto
  show "n \<le> dirty_ordered_capacity (ensure_local_dirty_vector_capacity n ld)"
    using g unfolding ensure_local_dirty_vector_capacity_def by simp
qed

lemma new_dirty_entry_ok: "dirty_entry_ok pr s (new_dirty_entry pr s k)" "de_key (new_dirty_entry pr s k) = k"
  by (simp_all add: dirty_entry_ok_def new_dirty_entry_def Let_def)

lemma collect_dirty_spec:
  fixes db rel :: nat and ns key :: "char list option"
  assumes ok: "dirty_ok pr s ld" and room: "kind = PGLC_DIRTY_KEY \<longrightarrow> dirty_key_count ld < pglc_max_dirty_keys s"
  defines "ld' \<equiv> collect_dirty pr s kind db rel ns key ld"
  shows "dirty_ok pr s ld' \<and> set (dirty_hash ld') = insert (make_local_dirty_key kind db rel ns key) (set (dirty_hash ld))"
proof -
  define k where "k = make_local_dirty_key kind db rel ns key"
  define l1 where "l1 = ensure_local_dirty_vector_capacity (dirty_count ld + 1) ld"
  have kk: "dk_kind k = kind" by (simp add: k_def make_local_dirty_key_def)
  have l1: "dirty_ok pr s l1" "dirty_count ld + 1 \<le> dirty_ordered_capacity l1"
    using dirty_ok_capacity[OF ok] unfolding l1_def by auto
  have same: "dirty_hash l1 = dirty_hash ld" "dirty_count l1 = dirty_count ld" "dirty_key_count l1 = dirty_key_count ld"
    by (simp_all add: l1_def ensure_local_dirty_vector_capacity_def)
  show ?thesis
  proof (cases "k \<in> set (dirty_hash ld)")
    case True
    then have "ld' = l1" unfolding ld'_def collect_dirty_def Let_def k_def[symmetric] l1_def[symmetric] dirty_find_iff same
      by simp
    then show ?thesis using l1 True same unfolding k_def[symmetric] by auto
  next
    case False
    then have ld': "ld' = l1\<lparr>dirty_hash := k # dirty_hash l1, dirty_count := dirty_count l1 + 1,
        dirty_ordered := dirty_ordered l1 @ [new_dirty_entry pr s k], dirty_ordered_sorted := False,
        dirty_key_count := pglc_dirty_key_count_after_entry (dirty_key_count l1) (kind = PGLC_DIRTY_KEY),
        has_global_dirty_record := (if kind = PGLC_DIRTY_GLOBAL then True else has_global_dirty_record l1)\<rparr>"
      unfolding ld'_def collect_dirty_def Let_def k_def[symmetric] l1_def[symmetric] dirty_find_iff same by simp
    have "dirty_ok pr s ld'"
      using l1 False room same kk new_dirty_entry_ok[where pr = pr and s = s and k = k]
      unfolding ld' dirty_ok_def pglc_dirty_key_count_after_entry_def by auto
    then show ?thesis using ld' same unfolding k_def[symmetric] by simp
  qed
qed

text \<open>A key is covered by its own record or by a record of its whole relation.\<close>

definition covered :: "local_dirty \<Rightarrow> nat \<Rightarrow> nat \<Rightarrow> char list \<Rightarrow> char list \<Rightarrow> bool" where
  "covered ld db rel ns key \<longleftrightarrow>
     make_local_dirty_key PGLC_DIRTY_RELATION db rel (Some ns) None \<in> set (dirty_hash ld) \<or>
     make_local_dirty_key PGLC_DIRTY_FORGET_RELATION db rel (Some ns) None \<in> set (dirty_hash ld) \<or>
     make_local_dirty_key PGLC_DIRTY_KEY db rel (Some ns) (Some key) \<in> set (dirty_hash ld)"

lemma collect_key_spec:
  assumes ok: "dirty_ok pr s ld" and run: "pglc_collect_key pr s db rel ns key (ld, st) = (ld', st')"
  shows "dirty_ok pr s ld' \<and> set (dirty_hash ld) \<subseteq> set (dirty_hash ld') \<and> covered ld' db rel ns key"
proof -
  define k where "k = make_local_dirty_key PGLC_DIRTY_KEY db rel (Some ns) (Some key)"
  define R where "R = make_local_dirty_key PGLC_DIRTY_RELATION db rel (Some ns) None"
  define F where "F = make_local_dirty_key PGLC_DIRTY_FORGET_RELATION db rel (Some ns) None"
  note run = run[unfolded pglc_collect_key_def Let_def prod.case dirty_find_iff pglc_dirty_key_limit_requires_fallback_def,
      folded k_def R_def F_def]
  consider (present) "R \<in> set (dirty_hash ld) \<or> F \<in> set (dirty_hash ld) \<or> k \<in> set (dirty_hash ld)" "ld' = ld"
    | (fallback) "ld' = pglc_collect_relation pr s db rel ns ld"
    | (fresh) "dirty_key_count ld < pglc_max_dirty_keys s"
        "ld' = collect_dirty pr s PGLC_DIRTY_KEY db rel (Some ns) (Some key) ld"
  proof (cases "R \<in> set (dirty_hash ld) \<or> F \<in> set (dirty_hash ld)")
    case True
    then have "ld' = ld" using run by (metis prod.inject)
    then show ?thesis using present True by blast
  next
    case False
    then show ?thesis
    proof (cases "k \<in> set (dirty_hash ld)")
      case True
      then have "ld' = ld" using run False by simp
      then show ?thesis using present True by blast
    next
      case new: False
      show ?thesis
      proof (cases "pglc_max_dirty_keys s \<le> dirty_key_count ld")
        case True
        then show ?thesis using run False new fallback by simp
      next
        case low: False
        then show ?thesis using run False new fresh by simp
      qed
    qed
  qed
  then show ?thesis
  proof cases
    case present
    then show ?thesis using ok unfolding covered_def R_def F_def k_def by auto
  next
    case fallback
    then show ?thesis using collect_dirty_spec[OF ok, of PGLC_DIRTY_RELATION db rel "Some ns" None]
      unfolding pglc_collect_relation_def covered_def by auto
  next
    case fresh
    then show ?thesis using collect_dirty_spec[OF ok, of PGLC_DIRTY_KEY db rel "Some ns" "Some key"]
      unfolding covered_def by auto
  qed
qed

lemma remove_dirty_keys_all:
  "distinct (map de_key es) \<Longrightarrow> distinct hs \<Longrightarrow> set (map de_key es) \<subseteq> set hs \<Longrightarrow>
   \<exists>hs'. remove_dirty_keys es hs = Some hs' \<and> set hs' = set hs - set (map de_key es)"
proof (induction es arbitrary: hs)
  case (Cons e es)
  define h1 where "h1 = filter (\<lambda>k. \<not> pglc_local_dirty_key_matches (de_key e) k) hs"
  have "set h1 = set hs - {de_key e}" unfolding h1_def dirty_key_matches_iff by auto
  moreover have "distinct h1" using Cons.prems unfolding h1_def by simp
  ultimately obtain hs' where "remove_dirty_keys es h1 = Some hs'" "set hs' = set hs - {de_key e} - set (map de_key es)"
    using Cons.IH[of h1] Cons.prems by (auto simp: subset_Diff_insert)
  moreover have "list_ex (pglc_local_dirty_key_matches (de_key e)) hs"
    using Cons.prems by (auto simp: list_ex_iff dirty_key_matches_iff)
  ultimately show ?case unfolding remove_dirty_keys.simps h1_def[symmetric] by auto
qed simp

lemma reset_spec:
  assumes "dirty_ok pr s ld"
  shows "\<exists>ld'. reset_local_dirty ld = Inr ld' \<and> dirty_ok pr s ld' \<and> dirty_hash ld' = [] \<and> dirty_ordered ld' = [] \<and>
    \<not> pglc_current_transaction_is_dirty ld' \<and> \<not> dirty_published ld' \<and> \<not> dirty_bump_config ld'"
proof -
  have eq: "set (dirty_hash ld) = set (map de_key (dirty_ordered ld))" using dirty_okD[OF assms] by simp
  have d: "distinct (map de_key (dirty_ordered ld))"
    using assms unfolding dirty_ok_def by (metis mset_eq_imp_distinct_iff)
  have dh: "distinct (dirty_hash ld)" using assms by (simp add: dirty_ok_def)
  obtain hs where hs: "remove_dirty_keys (dirty_ordered ld) (dirty_hash ld) = Some hs" "set hs = {}"
    using remove_dirty_keys_all[OF d dh] eq by auto
  have "dirty_count ld = 0 \<Longrightarrow> dirty_hash ld = []" using assms unfolding dirty_ok_def by auto
  then show ?thesis using hs
    by (auto simp: reset_local_dirty_def empty_dirty_flags_def dirty_ok_def pglc_current_transaction_is_dirty_def)
qed

text \<open>What the sort must deliver: a permutation of the vector, by non-decreasing partition.\<close>

definition qsort_ok :: "process \<Rightarrow> bool" where
  "qsort_ok pr \<longleftrightarrow> (\<forall>ks. mset (qsort_order pr ks) = mset [0..<length ks] \<and> sorted (map (nth ks) (qsort_order pr ks)))"

lemma ordered_spec:
  assumes "qsort_ok pr" "dirty_ok pr s ld" "dirty_ordered_sorted ld \<longrightarrow> sorted (map de_partition (dirty_ordered ld))"
  defines "ld' \<equiv> ordered_local_dirty_entries pr ld"
  shows "mset (dirty_ordered ld') = mset (dirty_ordered ld)" "sorted (map de_partition (dirty_ordered ld'))"
    "dirty_ordered_sorted ld'" "dirty_ok pr s ld'"
proof -
  define xs where "xs = dirty_ordered ld"
  define p where "p = qsort_order pr (map de_partition xs)"
  have p: "mset p = mset [0..<length xs]" "sorted (map (nth (map de_partition xs)) p)"
    using assms(1) unfolding qsort_ok_def p_def by (metis length_map)+
  have ps: "set p = {0..<length xs}" using p(1) by (metis set_mset_mset set_upt)
  have m: "mset (map (nth xs) p) = mset xs"
    using p(1) by (metis map_nth mset_map)
  have "map (nth (map de_partition xs)) p = map de_partition (map (nth xs) p)" using ps by simp
  then have so: "sorted (map de_partition (map (nth xs) p))" using p(2) by (simp only:)
  have eq: "dirty_ordered ld' = (if dirty_ordered_sorted ld then xs else map (nth xs) p)"
    "dirty_hash ld' = dirty_hash ld" "dirty_count ld' = dirty_count ld" "dirty_ordered_capacity ld' = dirty_ordered_capacity ld"
    "dirty_key_count ld' = dirty_key_count ld" "has_global_dirty_record ld' = has_global_dirty_record ld"
    by (simp_all add: ld'_def ordered_local_dirty_entries_def xs_def p_def)
  show mm: "mset (dirty_ordered ld') = mset (dirty_ordered ld)" using eq(1) m by (simp add: xs_def)
  show "sorted (map de_partition (dirty_ordered ld'))" using eq(1) so assms(3) by (simp add: xs_def)
  show "dirty_ordered_sorted ld'" by (simp add: ld'_def ordered_local_dirty_entries_def)
  have "set (dirty_ordered ld') = set (dirty_ordered ld)" "length (dirty_ordered ld') = length (dirty_ordered ld)"
    using mm mset_eq_setD mset_eq_length by blast+
  then show "dirty_ok pr s ld'" using assms(2) mm unfolding dirty_ok_def eq(2-) by simp
qed

section \<open>Properties\<close>

definition collect_keys ::
  "process \<Rightarrow> settings \<Rightarrow> (nat \<times> nat \<times> char list \<times> char list) list \<Rightarrow> local_dirty \<times> stats \<Rightarrow> local_dirty \<times> stats" where
  "collect_keys pr s ks = fold (\<lambda>(db, rel, ns, key). pglc_collect_key pr s db rel ns key) ks"

lemma covered_mono: "covered ld db rel ns key \<Longrightarrow> set (dirty_hash ld) \<subseteq> set (dirty_hash ld') \<Longrightarrow> covered ld' db rel ns key"
  unfolding covered_def by blast

lemma collect_keys_spec:
  assumes "dirty_ok pr s ld" "collect_keys pr s ks (ld, st) = (ld', st')"
  shows "dirty_ok pr s ld' \<and> set (dirty_hash ld) \<subseteq> set (dirty_hash ld') \<and>
    list_all (\<lambda>(db, rel, ns, key). covered ld' db rel ns key) ks"
  using assms
proof (induction ks arbitrary: ld st)
  case (Cons k ks)
  obtain db rel ns key where k: "k = (db, rel, ns, key)" by (cases k) auto
  obtain l1 st1 where run: "pglc_collect_key pr s db rel ns key (ld, st) = (l1, st1)" by fastforce
  note c = collect_key_spec[OF Cons.prems(1) run]
  have "collect_keys pr s ks (l1, st1) = (ld', st')" using Cons.prems(2) k run by (simp add: collect_keys_def)
  then have i: "dirty_ok pr s ld'" "set (dirty_hash l1) \<subseteq> set (dirty_hash ld')"
    "list_all (\<lambda>(db, rel, ns, key). covered ld' db rel ns key) ks" using Cons.IH c by blast+
  have "covered ld' db rel ns key" by (rule covered_mono[OF _ i(2)]) (use c in blast)
  then show ?case using i c k by auto
qed (simp add: collect_keys_def)

definition no_dirty :: local_dirty where
  "no_dirty = \<lparr>dirty_hash = [], dirty_ordered = [], dirty_ordered_capacity = 0, dirty_ordered_sorted = True,
     dirty_count = 0, dirty_key_count = 0, dirty_published = False, dirty_global_fallback = False,
     dirty_bump_config = False, attached_table_touched = False, has_global_dirty_record = False\<rparr>"

lemma no_dirty_ok: "dirty_ok pr s no_dirty"
  by (simp add: dirty_ok_def no_dirty_def)

text \<open>C38: no write of a transaction is forgotten, however many keys it touches. After any sequence
  of pglc_collect_key calls every collected key is covered, by its own record or (once the
  configured limit of key records is reached) by a record of its whole relation; earlier records
  stay; and the bookkeeping invariant holds, which bounds the number of key records by the limit
  and the number of records by the capacity of the vector.\<close>

theorem collect_keys_covered:
  assumes "dirty_ok pr s ld"
  shows "dirty_ok pr s (fst (collect_keys pr s ks (ld, st))) \<and>
    set (dirty_hash ld) \<subseteq> set (dirty_hash (fst (collect_keys pr s ks (ld, st)))) \<and>
    list_all (\<lambda>(db, rel, ns, key). covered (fst (collect_keys pr s ks (ld, st))) db rel ns key) ks"
  using collect_keys_spec[OF assms, of ks st] by (metis prod.collapse)

theorem collect_keys_covered_witness:
  "dirty_key_count (fst (collect_keys demo_process (demo_settings\<lparr>pglc_max_dirty_keys := 1\<rparr>)
      [(5, 7, ''t'', ''1:a''), (5, 7, ''t'', ''1:b'')] (no_dirty, demo_stats))) \<le> 1 \<and>
   covered (fst (collect_keys demo_process (demo_settings\<lparr>pglc_max_dirty_keys := 1\<rparr>)
      [(5, 7, ''t'', ''1:a''), (5, 7, ''t'', ''1:b'')] (no_dirty, demo_stats))) 5 7 ''t'' ''1:b''"
  using collect_keys_covered[OF no_dirty_ok, of demo_process "demo_settings\<lparr>pglc_max_dirty_keys := 1\<rparr>"
      "[(5, 7, ''t'', ''1:a''), (5, 7, ''t'', ''1:b'')]" demo_stats]
  unfolding dirty_ok_def by simp

text \<open>C39: clearing the dirty set at transaction end never fails and leaves nothing behind: every
  record of the vector is found in the table, and afterwards the transaction is clean.\<close>

theorem reset_dirty_total:
  assumes "dirty_ok pr s ld"
  shows "\<exists>ld'. reset_local_dirty ld = Inr ld' \<and> dirty_ok pr s ld' \<and> dirty_hash ld' = [] \<and>
    dirty_ordered ld' = [] \<and> \<not> pglc_current_transaction_is_dirty ld' \<and> \<not> dirty_published ld' \<and>
    \<not> dirty_bump_config ld'"
  by (rule reset_spec[OF assms])

theorem reset_dirty_total_witness:
  "\<exists>ld'. reset_local_dirty (fst (collect_keys demo_process demo_settings [(5, 7, ''t'', ''1:a'')] (no_dirty, demo_stats)))
      = Inr ld' \<and> \<not> pglc_current_transaction_is_dirty ld'"
  using reset_dirty_total[of demo_process demo_settings
      "fst (collect_keys demo_process demo_settings [(5, 7, ''t'', ''1:a'')] (no_dirty, demo_stats))"]
    collect_keys_spec[OF no_dirty_ok, of demo_process demo_settings _ demo_stats, OF prod.collapse[symmetric]] by blast

end
