(* ===== verification/Partition.thy ===== *)
theory Partition
  imports Fences LocalDirty
begin

text \<open>
  One lock partition of the shared cache: entry descriptors, dirty markers, their indexes
  and the value arena, with the operations of src/src/pg_local_cache.c (lines 2079 to 2995)
  that run under the partition lock.

  \<^item> \<open>partition\<close> is what the lock protects. \<open>globals\<close> are the counters outside of it.
  \<^item> Descriptors are addressed by their one-based number; a pointer to an entry is its number.
  \<^item> The index callbacks receive a query with a pointer to the partition; here the query
    carries the descriptors and the arena the callbacks read.
  \<^item> An operation that can raise an error returns \<open>Inl\<close> with the state reached so far.
  \<^item> \<open>GetCurrentTimestamp\<close> is an argument: \<open>nows k\<close> is the time of the k-th eviction of a call.
\<close>

section \<open>State\<close>

record dirty_marker =
  dm_key_hash :: nat
  dm_relation_slot_generation :: nat
  dm_relation_incarnation :: nat
  dm_generation :: nat
  dm_relation_slot :: nat
  dm_writer_count :: nat
  dm_key_slot :: nat
  dm_key_len :: nat
  dm_free_next :: nat
  dm_in_use :: bool

record partition =
  pt_entries :: "cache_entry list"
  pt_markers :: "dirty_marker list"
  pt_index :: PglcCacheIndex
  pt_marker_index :: PglcCacheIndex
  pt_arena :: PglcArena
  pt_marker_key_arena :: mem
  pt_marker_key_free_next :: "nat list"
  pt_entry_generation :: nat
  pt_marker_generation :: nat
  pt_eviction_bucket_cursor :: nat
  pt_entry_count :: nat
  pt_free_entry_head :: nat
  pt_marker_free_head :: nat
  pt_marker_key_free_head :: nat
  pt_marker_count :: nat

record globals =
  gl_clock :: nat
  gl_cache_entry_count :: nat
  gl_dirty_marker_entries :: nat
  gl_dirty_marker_highwater :: nat
  gl_stats :: stats

abbreviation (input) PGLC_EVICTION_SAMPLE :: nat where "PGLC_EVICTION_SAMPLE \<equiv> 64"
abbreviation (input) PGLC_EVICTION_BATCH :: nat where "PGLC_EVICTION_BATCH \<equiv> 8"
abbreviation (input) PGLC_VALUE_MAX :: nat where "PGLC_VALUE_MAX \<equiv> 8192"

text \<open>The capacity fields never change after startup; they are the lengths of the arrays.\<close>

abbreviation pt_capacity :: "partition \<Rightarrow> nat" where
  "pt_capacity pt \<equiv> length (pt_entries pt)"

abbreviation pt_marker_capacity :: "partition \<Rightarrow> nat" where
  "pt_marker_capacity pt \<equiv> length (pt_markers pt)"

abbreviation pt_marker_key_capacity :: "partition \<Rightarrow> nat" where
  "pt_marker_key_capacity pt \<equiv> length (pt_marker_key_free_next pt)"

abbreviation entry_at :: "partition \<Rightarrow> nat \<Rightarrow> cache_entry" where
  "entry_at pt eid \<equiv> pt_entries pt ! (eid - 1)"

abbreviation marker_at :: "partition \<Rightarrow> nat \<Rightarrow> dirty_marker" where
  "marker_at pt eid \<equiv> pt_markers pt ! (eid - 1)"

definition set_entry :: "nat \<Rightarrow> cache_entry \<Rightarrow> partition \<Rightarrow> partition" where
  "set_entry eid e pt = pt\<lparr>pt_entries := (pt_entries pt)[eid - 1 := e]\<rparr>"

definition set_marker :: "nat \<Rightarrow> dirty_marker \<Rightarrow> partition \<Rightarrow> partition" where
  "set_marker eid m pt = pt\<lparr>pt_markers := (pt_markers pt)[eid - 1 := m]\<rparr>"

definition add_stat :: "process \<Rightarrow> counter \<Rightarrow> globals \<Rightarrow> globals" where
  "add_stat pr c gl = gl\<lparr>gl_stats := pglc_worker_stat_add pr c 1 (gl_stats gl)\<rparr>"

definition pglc_partition_index_valid :: "partition \<Rightarrow> bool \<Rightarrow> bool" where
  "pglc_partition_index_valid pt markers =
     (case pglc_index_buckets_for (if markers then pt_marker_capacity pt else pt_capacity pt) of
        None \<Rightarrow> False
      | Some n \<Rightarrow> pglc_index_valid (if markers then pt_marker_index pt else pt_index pt) n)"

section \<open>Entry generations and load leases\<close>

definition next_entry_generation :: "partition \<Rightarrow> (cache_error + nat) \<times> partition" where
  "next_entry_generation pt =
     (if pt_entry_generation pt = UINT64_MAX then (Inl Generation_Overflow, pt)
      else (Inr (pt_entry_generation pt + 1), pt\<lparr>pt_entry_generation := pt_entry_generation pt + 1\<rparr>))"

definition cache_load_lease_ms :: "settings \<Rightarrow> nat" where
  "cache_load_lease_ms s = max 1000 (pglc_statement_timeout_ms s * 2)"

definition TimestampDifferenceExceeds :: "int \<Rightarrow> int \<Rightarrow> nat \<Rightarrow> bool" where
  "TimestampDifferenceExceeds start stop msec \<longleftrightarrow> int msec * 1000 \<le> stop - start"

definition cache_load_is_active_locked ::
  "settings \<Rightarrow> int \<Rightarrow> nat \<Rightarrow> partition \<Rightarrow> (cache_error + bool) \<times> partition" where
  "cache_load_is_active_locked s now eid pt =
     (let e = entry_at pt eid in
      if \<not> ce_loading e then (Inr False, pt)
      else if \<not> TimestampDifferenceExceeds (ce_load_started e) now (cache_load_lease_ms s) then (Inr True, pt)
      else
        let e = e\<lparr>ce_loading := False, ce_load_id := u64 (ce_load_id e + 1)\<rparr>;
            pt = set_entry eid e pt
        in case next_entry_generation pt of
             (Inl err, pt) \<Rightarrow> (Inl err, pt)
           | (Inr g, pt) \<Rightarrow> (Inr False, set_entry eid (e\<lparr>ce_version := g\<rparr>) pt))"

section \<open>Entry queries\<close>

record entry_query =
  eq_partition :: partition
  eq_hash :: nat
  eq_key :: "char list"
  eq_key_len :: nat
  eq_database_oid :: nat
  eq_relation_oid :: nat
  eq_relation_slot :: nat
  eq_slot_generation :: nat
  eq_expected_id :: nat
  eq_corrupt_entry_id :: nat
  eq_corrupt :: bool

definition blank_entry_query :: "partition \<Rightarrow> entry_query" where
  "blank_entry_query pt =
     \<lparr>eq_partition = pt, eq_hash = 0, eq_key = [], eq_key_len = 0, eq_database_oid = 0, eq_relation_oid = 0,
      eq_relation_slot = 0, eq_slot_generation = 0, eq_expected_id = 0, eq_corrupt_entry_id = 0,
      eq_corrupt = False\<rparr>"

text \<open>The block of an entry, or \<open>None\<close> when the descriptor is not well formed.\<close>

definition cache_entry_block :: "partition \<Rightarrow> cache_entry \<Rightarrow> nat option" where
  "cache_entry_block pt e =
     (if \<not> ce_in_use e \<or> PGLC_KEY_MAX < ce_key_len e \<or> PGLC_VALUE_MAX < ce_value_len e \<or>
         (ce_negative e \<and> ce_value_len e \<noteq> 0) then None
      else if UINT32_MAX - ce_key_len e < ce_value_len e then None
      else if ce_key_len e + ce_value_len e \<noteq> ce_block_len e then None
      else
        let class_size = pglc_arena_block_class (pt_arena pt) (ce_block_ref e) in
        if class_size = 0 \<or> class_size < ce_block_len e then None
        else pglc_arena_block (pt_arena pt) (ce_block_ref e))"

definition cache_entry_hash_by_id :: "nat \<Rightarrow> entry_query \<Rightarrow> nat \<times> entry_query" where
  "cache_entry_hash_by_id eid q =
     (if eid = 0 \<or> pt_capacity (eq_partition q) < eid \<or> \<not> ce_in_use (entry_at (eq_partition q) eid)
      then (0, q\<lparr>eq_corrupt := True\<rparr>)
      else (ce_key_hash (entry_at (eq_partition q) eid), q))"

definition cache_entry_matches_query :: "nat \<Rightarrow> entry_query \<Rightarrow> bool \<times> entry_query" where
  "cache_entry_matches_query eid q =
     (let pt = eq_partition q; e = entry_at pt eid in
      if eid = 0 \<or> pt_capacity pt < eid then (False, q\<lparr>eq_corrupt := True\<rparr>)
      else if \<not> ce_in_use e then (False, q\<lparr>eq_corrupt := True\<rparr>)
      else case cache_entry_block pt e of
        None \<Rightarrow> (False, q\<lparr>eq_corrupt := True, eq_corrupt_entry_id := eid\<rparr>)
      | Some block \<Rightarrow>
        if ce_database_oid e \<noteq> eq_database_oid q \<or> ce_relation_oid e \<noteq> eq_relation_oid q \<or>
           ce_relation_slot e \<noteq> eq_relation_slot q \<or> ce_slot_generation e \<noteq> eq_slot_generation q \<or>
           ce_key_len e \<noteq> eq_key_len q
        then (False, q)
        else (load_bytes (memory (pt_arena pt)) block (eq_key_len q) = take (eq_key_len q) (eq_key q), q))"

definition cache_entry_matches_id :: "nat \<Rightarrow> entry_query \<Rightarrow> bool \<times> entry_query" where
  "cache_entry_matches_id eid q =
     (if eid = 0 \<or> pt_capacity (eq_partition q) < eid then (False, q\<lparr>eq_corrupt := True\<rparr>)
      else (eid = eq_expected_id q, q))"

definition rebuild_cache_index :: "partition \<Rightarrow> bool \<times> partition" where
  "rebuild_cache_index pt =
     (if \<not> pglc_partition_index_valid pt False then (False, pt)
      else case pglc_index_rebuild_existing (pt_index pt) cache_entry_hash_by_id (blank_entry_query pt) of
        (ok, ix, q) \<Rightarrow> (ok \<and> \<not> eq_corrupt q, pt\<lparr>pt_index := ix\<rparr>))"

section \<open>Removal and eviction\<close>

definition cache_admission_rejected :: "process \<Rightarrow> bool \<Rightarrow> globals \<Rightarrow> globals" where
  "cache_admission_rejected pr arena gl =
     (let gl = add_stat pr cache_admission_rejections gl in
      if arena then gl\<lparr>gl_stats := pg_atomic_fetch_add_u64 arena_admission_rejections_total 1 (gl_stats gl)\<rparr>
      else gl)"

definition reserve_cache_entry :: "settings \<Rightarrow> globals \<Rightarrow> bool \<times> globals" where
  "reserve_cache_entry s gl =
     (let previous = gl_cache_entry_count gl;
          gl = gl\<lparr>gl_cache_entry_count := u64 (previous + 1)\<rparr>
      in if previous < pglc_cache_entries s then (True, gl)
         else (False, gl\<lparr>gl_cache_entry_count := u64_sub (gl_cache_entry_count gl) 1\<rparr>))"

definition release_cache_entry :: "globals \<Rightarrow> globals" where
  "release_cache_entry gl = gl\<lparr>gl_cache_entry_count := u64_sub (gl_cache_entry_count gl) 1\<rparr>"

definition cache_entry_remove_locked ::
  "nat \<Rightarrow> partition \<Rightarrow> globals \<Rightarrow> (cache_error + bool) \<times> partition \<times> globals" where
  "cache_entry_remove_locked eid pt gl =
     (let e = entry_at pt eid in
      if eid = 0 \<or> pt_capacity pt < eid \<or> \<not> ce_in_use e then (Inr False, pt, gl)
      else if \<not> pglc_partition_index_valid pt False \<or> pt_capacity pt < pt_free_entry_head pt \<or>
              cache_entry_block pt e = None then (Inr False, pt, gl)
      else
        let q = (blank_entry_query pt)\<lparr>eq_hash := ce_key_hash e, eq_expected_id := eid\<rparr> in
        case pglc_index_remove (pt_index pt) (ce_key_hash e) cache_entry_hash_by_id cache_entry_matches_id q of
          (removed, ix, _) \<Rightarrow>
            let pt = pt\<lparr>pt_index := ix\<rparr> in
            if removed \<noteq> eid then (Inl Descriptor_Missing, pt, gl)
            else case pglc_arena_free (pt_arena pt) (ce_block_ref e) (ce_block_len e) of
              (a, ok) \<Rightarrow>
                let pt = pt\<lparr>pt_arena := a\<rparr> in
                if \<not> ok then (Inl Block_Inconsistent, pt, gl)
                else
                  let e = e\<lparr>ce_in_use := False, ce_valid := False, ce_loading := False, ce_dirty_writers := 0,
                        ce_key_len := 0, ce_value_len := 0, ce_block_len := 0, ce_block_ref := PGLC_ARENA_NO_BLOCK,
                        ce_free_next := pt_free_entry_head pt\<rparr>;
                      pt = (set_entry eid e pt)\<lparr>pt_free_entry_head := eid,
                        pt_entry_count := u32_sub (pt_entry_count pt) 1\<rparr>;
                      gl = release_cache_entry gl;
                      pt = (if pglc_index_needs_rebuild (pt_index pt) then snd (rebuild_cache_index pt) else pt)
                  in (Inr True, pt, gl))"

text \<open>
  The candidate arrays of the eviction scan, as a list of (last access, entry) pairs. The
  shift loop moves younger candidates one place up until the place of the new one is found.
\<close>

fun shift_candidates :: "(nat \<times> nat) list \<Rightarrow> nat \<Rightarrow> nat \<times> nat \<Rightarrow> (nat \<times> nat) list" where
  "shift_candidates cs 0 c = cs[0 := c]"
| "shift_candidates cs (Suc p) c =
     (if fst c < fst (cs ! p) then shift_candidates (cs[Suc p := cs ! p]) p c else cs[Suc p := c])"

definition add_candidate :: "(nat \<times> nat) list \<Rightarrow> nat \<times> nat \<Rightarrow> (nat \<times> nat) list" where
  "add_candidate cs c =
     (if length cs = PGLC_EVICTION_BATCH \<and> fst (last cs) \<le> fst c then cs
      else if length cs < PGLC_EVICTION_BATCH then shift_candidates (cs @ [c]) (length cs) c
      else shift_candidates cs (PGLC_EVICTION_BATCH - 1) c)"

fun evict_scan ::
  "settings \<Rightarrow> fences \<Rightarrow> int \<Rightarrow> nat \<Rightarrow> nat \<Rightarrow> nat list \<Rightarrow> nat list \<Rightarrow> (nat \<times> nat) list \<Rightarrow> partition \<Rightarrow>
   (cache_error + nat list \<times> (nat \<times> nat) list) \<times> partition" where
  "evict_scan s fs now required_class excluded [] victims cs pt = (Inr (victims, cs), pt)"
| "evict_scan s fs now required_class excluded (i # is) victims cs pt =
     (let eid = i + 1; e = pt_entries pt ! i in
      if \<not> ce_in_use e \<or> eid = excluded \<or> ce_dirty_writers e \<noteq> 0
      then evict_scan s fs now required_class excluded is victims cs pt
      else case cache_load_is_active_locked s now eid pt of
        (Inl err, pt) \<Rightarrow> (Inl err, pt)
      | (Inr True, pt) \<Rightarrow> evict_scan s fs now required_class excluded is victims cs pt
      | (Inr False, pt) \<Rightarrow>
          if required_class \<noteq> 0 \<and> pglc_arena_block_class (pt_arena pt) (ce_block_ref e) \<noteq> required_class
          then evict_scan s fs now required_class excluded is victims cs pt
          else if \<not> cache_entry_is_current_slot_locked s (\<lambda>_. fs) (pt_entries pt ! i)
          then evict_scan s fs now required_class excluded is
                 (if length victims < PGLC_EVICTION_BATCH then victims @ [eid] else victims) cs pt
          else evict_scan s fs now required_class excluded is victims
                 (add_candidate cs (ce_last_access e, eid)) pt)"

fun remove_victims ::
  "process \<Rightarrow> nat list \<Rightarrow> nat \<Rightarrow> partition \<Rightarrow> globals \<Rightarrow> (cache_error + nat) \<times> partition \<times> globals" where
  "remove_victims pr [] removed pt gl = (Inr removed, pt, gl)"
| "remove_victims pr (eid # eids) removed pt gl =
     (case cache_entry_remove_locked eid pt gl of
        (Inl err, pt, gl) \<Rightarrow> (Inl err, pt, gl)
      | (Inr True, pt, gl) \<Rightarrow> remove_victims pr eids (removed + 1) pt (add_stat pr evictions gl)
      | (Inr False, pt, gl) \<Rightarrow> remove_victims pr eids removed pt gl)"

definition evict_cache_entries ::
  "process \<Rightarrow> settings \<Rightarrow> fences \<Rightarrow> int \<Rightarrow> nat \<Rightarrow> nat \<Rightarrow> partition \<Rightarrow> globals \<Rightarrow>
   (cache_error + nat) \<times> partition \<times> globals" where
  "evict_cache_entries pr s fs now required_class excluded pt gl =
     (let scan_count = min (pt_capacity pt) PGLC_EVICTION_SAMPLE;
          start = pt_eviction_bucket_cursor pt;
          indices = map (\<lambda>scanned. u32 (start + scanned) mod pt_capacity pt) [0..<scan_count]
      in case evict_scan s fs now required_class excluded indices [] [] pt of
           (Inl err, pt) \<Rightarrow> (Inl err, pt, gl)
         | (Inr (victims, cs), pt) \<Rightarrow>
             let pt = pt\<lparr>pt_eviction_bucket_cursor :=
                   (if pt_capacity pt = 0 then 0 else u32 (start + scan_count) mod pt_capacity pt)\<rparr>;
                 victims = victims @ take (PGLC_EVICTION_BATCH - length victims) (map snd cs)
             in remove_victims pr victims 0 pt gl)"

subsection \<open>Every eviction that counts shrinks the population\<close>

definition in_use_count :: "partition \<Rightarrow> nat" where
  "in_use_count pt = length (filter ce_in_use (pt_entries pt))"

lemma in_use_count_update:
  assumes "i < length es"
  shows "length (filter ce_in_use (es[i := e])) + (if ce_in_use (es ! i) then 1 else 0) =
    length (filter ce_in_use es) + (if ce_in_use e then 1 else 0)"
  using assms
proof (induction es arbitrary: i)
  case (Cons x es)
  then show ?case by (cases i) auto
qed simp

lemma rebuild_cache_index_frame:
  "pt_entries (snd (rebuild_cache_index pt)) = pt_entries pt"
  by (simp add: rebuild_cache_index_def split: prod.splits)

lemma in_use_count_remove:
  assumes "cache_entry_remove_locked eid pt gl = (Inr b, pt', gl')"
  shows "in_use_count pt' + (if b then 1 else 0) = in_use_count pt"
proof (cases b)
  case False
  then have "pt' = pt" using assms unfolding cache_entry_remove_locked_def Let_def
    by (auto split: if_splits prod.splits)
  then show ?thesis using False by simp
next
  case True
  obtain e where e: "pt_entries pt' = (pt_entries pt)[eid - 1 := e]" "\<not> ce_in_use e"
    and id: "eid \<noteq> 0" "eid \<le> pt_capacity pt" "ce_in_use (entry_at pt eid)"
    using assms True unfolding cache_entry_remove_locked_def Let_def
    by (auto simp: set_entry_def rebuild_cache_index_frame split: if_splits prod.splits)
  show ?thesis using in_use_count_update[of "eid - 1" "pt_entries pt" e] e id True
    unfolding in_use_count_def by auto
qed

lemma map_in_use_update:
  "ce_in_use e = ce_in_use (es ! i) \<Longrightarrow> map ce_in_use (es[i := e]) = map ce_in_use es"
  by (cases "i < length es") (simp_all add: map_update list_update_same_conv list_update_beyond)

lemma load_is_active_in_use:
  assumes "cache_load_is_active_locked s now eid pt = (r, pt')"
  shows "map ce_in_use (pt_entries pt') = map ce_in_use (pt_entries pt)"
proof -
  define e where "e = entry_at pt eid"
  obtain e' where "pt_entries pt' = (pt_entries pt)[eid - 1 := e']" "ce_in_use e' = ce_in_use e"
  proof (cases "ce_loading e \<and> TimestampDifferenceExceeds (ce_load_started e) now (cache_load_lease_ms s)")
    case True
    then show ?thesis using assms that
      unfolding cache_load_is_active_locked_def next_entry_generation_def Let_def set_entry_def e_def[symmetric]
      by (simp split: if_splits) (auto dest: sym)
  next
    case False
    then have "pt' = pt" using assms unfolding cache_load_is_active_locked_def Let_def e_def[symmetric]
      by (auto split: if_splits)
    then show ?thesis using that[of e] by (simp add: e_def)
  qed
  then show ?thesis using map_in_use_update unfolding e_def by simp
qed

lemma in_use_count_map: "map ce_in_use (pt_entries pt') = map ce_in_use (pt_entries pt) \<Longrightarrow> in_use_count pt' = in_use_count pt"
proof -
  have "in_use_count p = length (filter (\<lambda>b. b) (map ce_in_use (pt_entries p)))" for p
    by (simp add: in_use_count_def filter_map comp_def)
  then show "map ce_in_use (pt_entries pt') = map ce_in_use (pt_entries pt) \<Longrightarrow> in_use_count pt' = in_use_count pt"
    by (simp only:)
qed

lemma evict_scan_in_use:
  "evict_scan s fs now rc ex is vs cs pt = (r, pt') \<Longrightarrow> map ce_in_use (pt_entries pt') = map ce_in_use (pt_entries pt)"
proof (induction s fs now rc ex "is" vs cs pt rule: evict_scan.induct)
  case (2 s fs now rc ex i "is" vs cs pt)
  show ?case
  proof (cases "\<not> ce_in_use (pt_entries pt ! i) \<or> i + 1 = ex \<or> ce_dirty_writers (pt_entries pt ! i) \<noteq> 0")
    case True
    then show ?thesis using 2 by simp
  next
    case False
    obtain a pt1 where a: "cache_load_is_active_locked s now (i + 1) pt = (a, pt1)" by fastforce
    note m = load_is_active_in_use[OF a]
    show ?thesis
    proof (cases a)
      case (Inl err)
      then show ?thesis using 2(6) a m False by simp
    next
      case (Inr b)
      show ?thesis using 2 a m False Inr
        by (cases b) (auto simp: Let_def split: if_splits)
    qed
  qed
qed simp

lemma remove_victims_in_use:
  "remove_victims pr vs n pt gl = (Inr m, pt', gl') \<Longrightarrow> in_use_count pt' + m = in_use_count pt + n"
proof (induction pr vs n pt gl rule: remove_victims.induct)
  case (2 pr eid eids n pt gl)
  obtain r pt1 gl1 where r: "cache_entry_remove_locked eid pt gl = (r, pt1, gl1)" by (cases "cache_entry_remove_locked eid pt gl") auto
  show ?case
  proof (cases r)
    case (Inr b)
    then show ?thesis using 2 r in_use_count_remove[of eid pt gl b pt1 gl1] by (cases b) fastforce+
  qed (use 2 r in simp)
qed simp

lemma evict_in_use:
  assumes "evict_cache_entries pr s fs now rc ex pt gl = (Inr n, pt', gl')"
  shows "in_use_count pt' + n = in_use_count pt"
proof -
  define idx where "idx = map (\<lambda>scanned. u32 (pt_eviction_bucket_cursor pt + scanned) mod pt_capacity pt) [0..<min (pt_capacity pt) 64]"
  obtain vs cs pt1 where sc: "evict_scan s fs now rc ex idx [] [] pt = (Inr (vs, cs), pt1)"
    using assms unfolding evict_cache_entries_def Let_def idx_def by (auto split: sum.splits prod.splits)
  obtain c where "remove_victims pr (vs @ take (8 - length vs) (map snd cs)) 0 (pt1\<lparr>pt_eviction_bucket_cursor := c\<rparr>) gl = (Inr n, pt', gl')"
    using assms sc unfolding evict_cache_entries_def Let_def idx_def[symmetric] by auto
  from remove_victims_in_use[OF this] in_use_count_map[OF evict_scan_in_use[OF sc]] show ?thesis
    by (simp add: in_use_count_def)
qed

section \<open>Dirty markers\<close>

record marker_query =
  mq_partition :: partition
  mq_hash :: nat
  mq_key :: "char list"
  mq_key_len :: nat
  mq_relation_slot_generation :: nat
  mq_relation_slot :: nat
  mq_expected_id :: nat
  mq_corrupt :: bool

definition blank_marker_query :: "partition \<Rightarrow> marker_query" where
  "blank_marker_query pt =
     \<lparr>mq_partition = pt, mq_hash = 0, mq_key = [], mq_key_len = 0, mq_relation_slot_generation = 0,
      mq_relation_slot = 0, mq_expected_id = 0, mq_corrupt = False\<rparr>"

text \<open>On a 64-bit host the last comparison of the C function holds for every slot in range.\<close>

definition marker_key_offset :: "partition \<Rightarrow> nat \<Rightarrow> nat option" where
  "marker_key_offset pt key_slot =
     (if key_slot = 0 \<or> pt_marker_key_capacity pt < key_slot then None
      else if UINT64_MAX - PGLC_KEY_MAX < (key_slot - 1) * PGLC_KEY_MAX then None
      else Some ((key_slot - 1) * PGLC_KEY_MAX))"

definition marker_hash_by_id :: "nat \<Rightarrow> marker_query \<Rightarrow> nat \<times> marker_query" where
  "marker_hash_by_id mid q =
     (if mid = 0 \<or> pt_marker_capacity (mq_partition q) < mid \<or> \<not> dm_in_use (marker_at (mq_partition q) mid)
      then (0, q\<lparr>mq_corrupt := True\<rparr>)
      else (dm_key_hash (marker_at (mq_partition q) mid), q))"

definition marker_matches_query :: "nat \<Rightarrow> marker_query \<Rightarrow> bool \<times> marker_query" where
  "marker_matches_query mid q =
     (let pt = mq_partition q; m = marker_at pt mid in
      if mid = 0 \<or> pt_marker_capacity pt < mid then (False, q\<lparr>mq_corrupt := True\<rparr>)
      else if \<not> dm_in_use m then (False, q\<lparr>mq_corrupt := True\<rparr>)
      else if PGLC_KEY_MAX < dm_key_len m \<or> PGLC_KEY_MAX < mq_key_len q then (False, q\<lparr>mq_corrupt := True\<rparr>)
      else case marker_key_offset pt (dm_key_slot m) of
        None \<Rightarrow> (False, q\<lparr>mq_corrupt := True\<rparr>)
      | Some offset \<Rightarrow>
        if dm_key_hash m \<noteq> mq_hash q \<or> dm_relation_slot m \<noteq> mq_relation_slot q \<or>
           dm_relation_slot_generation m \<noteq> mq_relation_slot_generation q \<or> dm_key_len m \<noteq> mq_key_len q
        then (False, q)
        else (load_bytes (pt_marker_key_arena pt) offset (mq_key_len q) = take (mq_key_len q) (mq_key q), q))"

definition marker_matches_id :: "nat \<Rightarrow> marker_query \<Rightarrow> bool \<times> marker_query" where
  "marker_matches_id mid q =
     (if mid = 0 \<or> pt_marker_capacity (mq_partition q) < mid then (False, q\<lparr>mq_corrupt := True\<rparr>)
      else (mid = mq_expected_id q, q))"

definition rebuild_marker_index :: "partition \<Rightarrow> bool \<times> partition" where
  "rebuild_marker_index pt =
     (if \<not> pglc_partition_index_valid pt True then (False, pt)
      else case pglc_index_rebuild_existing (pt_marker_index pt) marker_hash_by_id (blank_marker_query pt) of
        (ok, ix, q) \<Rightarrow> (ok \<and> \<not> mq_corrupt q, pt\<lparr>pt_marker_index := ix\<rparr>))"

definition cache_marker_find :: "partition \<Rightarrow> nat \<Rightarrow> char list \<Rightarrow> nat \<Rightarrow> nat \<Rightarrow> nat \<Rightarrow> nat" where
  "cache_marker_find pt hash key key_len relation_slot relation_slot_generation =
     (if \<not> pglc_partition_index_valid pt True then PGLC_INDEX_TOMBSTONE
      else
        let q = (blank_marker_query pt)\<lparr>mq_hash := hash, mq_key := key, mq_key_len := key_len,
              mq_relation_slot := relation_slot, mq_relation_slot_generation := relation_slot_generation\<rparr>
        in case pglc_index_find (pt_marker_index pt) hash marker_hash_by_id marker_matches_query q of
             (marker_id, q) \<Rightarrow> if mq_corrupt q then PGLC_INDEX_TOMBSTONE else marker_id)"

text \<open>
  Insert a new marker into the index, with the one retry after a rebuild that the probe
  limit allows. The query keeps pointing at the partition, so it is refreshed with it.
\<close>

definition insert_marker :: "nat \<Rightarrow> nat \<Rightarrow> marker_query \<Rightarrow> partition \<Rightarrow> PglcIndexInsertResult \<times> partition" where
  "insert_marker hash mid q pt =
     (case pglc_index_insert (pt_marker_index pt) hash mid marker_hash_by_id marker_matches_id
             (q\<lparr>mq_partition := pt\<rparr>) of
        (r, ix, q) \<Rightarrow> (r, pt\<lparr>pt_marker_index := ix\<rparr>))"

definition count_marker :: "globals \<Rightarrow> globals" where
  "count_marker gl =
     (let n = u64 (gl_dirty_marker_entries gl + 1)
      in gl\<lparr>gl_dirty_marker_entries := n,
            gl_dirty_marker_highwater := max (gl_dirty_marker_highwater gl) n\<rparr>)"

text \<open>The result carries the out parameters: marker number and generation.\<close>

definition reserve_cache_marker ::
  "local_dirty_entry \<Rightarrow> partition \<Rightarrow> globals \<Rightarrow> (nat \<times> nat) option \<times> partition \<times> globals" where
  "reserve_cache_marker local pt gl =
     (let key_len = dk_key_len (de_key local);
          hash = de_cache_key_hash local;
          q = (blank_marker_query pt)\<lparr>mq_hash := hash, mq_key := dk_key (de_key local), mq_key_len := key_len,
                mq_relation_slot := shared_slot local,
                mq_relation_slot_generation := shared_slot_generation local\<rparr>
      in if dk_kind (de_key local) \<noteq> PGLC_DIRTY_KEY \<or> PGLC_KEY_MAX \<le> key_len then (None, pt, gl)
         else if \<not> pglc_partition_index_valid pt True then (None, pt, gl)
         else case pglc_index_find (pt_marker_index pt) hash marker_hash_by_id marker_matches_query q of
           (found_id, q) \<Rightarrow>
             if mq_corrupt q \<or> pt_marker_capacity pt < found_id then (None, pt, gl)
             else if found_id \<noteq> 0 then
               let m = marker_at pt found_id in
               if dm_writer_count m = UINT32_MAX then (None, pt, gl)
               else (Some (found_id, dm_generation m),
                     set_marker found_id (m\<lparr>dm_writer_count := dm_writer_count m + 1\<rparr>) pt, gl)
             else if pt_marker_free_head pt = 0 \<or> pt_marker_capacity pt < pt_marker_free_head pt \<or>
                     pt_marker_key_free_head pt = 0 \<or> pt_marker_key_capacity pt < pt_marker_key_free_head pt \<or>
                     pt_marker_generation pt = UINT64_MAX
             then (None, pt, gl)
             else
               let (rebuilt, pt) = (if pglc_index_needs_rebuild (pt_marker_index pt)
                                    then rebuild_marker_index pt else (True, pt))
               in if \<not> rebuilt then (None, pt, gl)
               else
                 let mid = pt_marker_free_head pt; m = marker_at pt mid; key_slot = pt_marker_key_free_head pt in
                 if dm_in_use m \<or> pt_marker_capacity pt < dm_free_next m then (None, pt, gl)
                 else case marker_key_offset pt key_slot of
                   None \<Rightarrow> (None, pt, gl)
                 | Some key_offset \<Rightarrow>
                   if pt_marker_key_capacity pt < pt_marker_key_free_next pt ! (key_slot - 1) then (None, pt, gl)
                   else
                     let generation = pt_marker_generation pt + 1;
                         m' = \<lparr>dm_key_hash = hash, dm_relation_slot_generation = shared_slot_generation local,
                           dm_relation_incarnation = shared_relation_incarnation local, dm_generation = generation,
                           dm_relation_slot = shared_slot local, dm_writer_count = 1, dm_key_slot = key_slot,
                           dm_key_len = key_len, dm_free_next = 0, dm_in_use = True\<rparr>;
                         pt = (set_marker mid m' pt)\<lparr>pt_marker_free_head := dm_free_next m,
                           pt_marker_key_free_head := pt_marker_key_free_next pt ! (key_slot - 1),
                           pt_marker_generation := generation,
                           pt_marker_key_arena :=
                             store_bytes (pt_marker_key_arena pt) key_offset (take key_len (dk_key (de_key local)))\<rparr>;
                         q = q\<lparr>mq_expected_id := mid\<rparr>;
                         (r, pt) = insert_marker hash mid q pt;
                         (r, pt) = (if r = PGLC_INDEX_PROBE_LIMIT
                           then let (ok, pt) = rebuild_marker_index pt
                                in if ok then insert_marker hash mid q pt else (r, pt)
                           else (r, pt))
                     in if r \<noteq> PGLC_INDEX_INSERTED
                        then (None, (set_marker mid (m'\<lparr>dm_in_use := False, dm_free_next := pt_marker_free_head pt\<rparr>) pt)
                               \<lparr>pt_marker_free_head := mid,
                                pt_marker_key_free_next :=
                                  (pt_marker_key_free_next pt)[key_slot - 1 := pt_marker_key_free_head pt],
                                pt_marker_key_free_head := key_slot\<rparr>, gl)
                        else (Some (mid, generation), pt\<lparr>pt_marker_count := u32 (pt_marker_count pt + 1)\<rparr>,
                              count_marker gl))"

definition release_cache_marker ::
  "nat \<Rightarrow> nat \<Rightarrow> partition \<Rightarrow> globals \<Rightarrow> (cache_error + unit) \<times> partition \<times> globals" where
  "release_cache_marker marker_id generation pt gl =
     (let m = marker_at pt marker_id in
      if marker_id = 0 \<or> pt_marker_capacity pt < marker_id then (Inr (), pt, gl)
      else if \<not> dm_in_use m \<or> dm_generation m \<noteq> generation \<or> dm_writer_count m = 0 \<or> dm_key_slot m = 0 \<or>
              pt_marker_key_capacity pt < dm_key_slot m \<or> PGLC_KEY_MAX < dm_key_len m \<or>
              \<not> pglc_partition_index_valid pt True \<or> pt_marker_capacity pt < pt_marker_free_head pt \<or>
              pt_marker_key_capacity pt < pt_marker_key_free_head pt
      then (Inr (), pt, gl)
      else
        let m = m\<lparr>dm_writer_count := dm_writer_count m - 1\<rparr>;
            pt = set_marker marker_id m pt
        in if dm_writer_count m \<noteq> 0 then (Inr (), pt, gl)
           else case pglc_index_remove (pt_marker_index pt) (dm_key_hash m) marker_hash_by_id marker_matches_id
                       ((blank_marker_query pt)\<lparr>mq_expected_id := marker_id\<rparr>) of
             (removed, ix, _) \<Rightarrow>
               let pt = pt\<lparr>pt_marker_index := ix\<rparr> in
               if removed \<noteq> marker_id then (Inl Marker_Missing, pt, gl)
               else
                 let key_slot = dm_key_slot m;
                     pt = (set_marker marker_id (m\<lparr>dm_in_use := False, dm_key_len := 0, dm_key_slot := 0,
                             dm_free_next := pt_marker_free_head pt\<rparr>) pt)
                       \<lparr>pt_marker_free_head := marker_id,
                        pt_marker_key_free_next :=
                          (pt_marker_key_free_next pt)[key_slot - 1 := pt_marker_key_free_head pt],
                        pt_marker_key_free_head := key_slot,
                        pt_marker_count := u32_sub (pt_marker_count pt) 1\<rparr>;
                     gl = gl\<lparr>gl_dirty_marker_entries := u64_sub (gl_dirty_marker_entries gl) 1\<rparr>;
                     pt = (if pglc_index_needs_rebuild (pt_marker_index pt)
                           then snd (rebuild_marker_index pt) else pt)
                 in (Inr (), pt, gl))"

section \<open>Finding and creating entries\<close>

text \<open>
  The two eviction loops. Each pass that continues has removed at least one entry, so they
  end; \<open>k\<close> counts the evictions and selects the time of the next one.
\<close>

function alloc_with_eviction ::
  "process \<Rightarrow> settings \<Rightarrow> fences \<Rightarrow> (nat \<Rightarrow> int) \<Rightarrow> nat \<Rightarrow> nat \<Rightarrow> nat \<Rightarrow> partition \<Rightarrow> globals \<Rightarrow>
   (cache_error + (nat \<times> nat) option) \<times> nat \<times> partition \<times> globals" where
  "alloc_with_eviction pr s fs nows request excluded k pt gl =
     (case pglc_arena_alloc (pt_arena pt) request of
        (a, Some r) \<Rightarrow> (Inr (Some r), k, pt\<lparr>pt_arena := a\<rparr>, gl)
      | (a, None) \<Rightarrow>
        case evict_cache_entries pr s fs (nows k) (pglc_arena_class_size request) excluded
               (pt\<lparr>pt_arena := a\<rparr>) gl of
          (Inl e, pt, gl) \<Rightarrow> (Inl e, k + 1, pt, gl)
        | (Inr removed, pt, gl) \<Rightarrow>
            if removed = 0 then (Inr None, k + 1, pt, gl)
            else alloc_with_eviction pr s fs nows request excluded (k + 1) pt gl)"
  by pat_completeness auto
termination
proof (relation "measure (\<lambda>(pr, s, fs, nows, request, excluded, k, pt, gl). in_use_count pt)", simp, goal_cases)
  case (1 pr s fs nows request excluded k pt gl a y r ya removed pt' gl')
  then have "evict_cache_entries pr s fs (nows k) (pglc_arena_class_size request) excluded (pt\<lparr>pt_arena := a\<rparr>) gl =
      (Inr removed, pt', gl')" by simp
  from evict_in_use[OF this] show ?case using 1(6) by (simp add: in_use_count_def)
qed

declare alloc_with_eviction.simps [simp del]

function reserve_with_eviction ::
  "process \<Rightarrow> settings \<Rightarrow> fences \<Rightarrow> (nat \<Rightarrow> int) \<Rightarrow> nat \<Rightarrow> partition \<Rightarrow> globals \<Rightarrow>
   (cache_error + bool) \<times> nat \<times> partition \<times> globals" where
  "reserve_with_eviction pr s fs nows k pt gl =
     (case reserve_cache_entry s gl of
        (True, gl) \<Rightarrow> (Inr True, k, pt, gl)
      | (False, gl) \<Rightarrow>
        case evict_cache_entries pr s fs (nows k) 0 0 pt gl of
          (Inl e, pt, gl) \<Rightarrow> (Inl e, k + 1, pt, gl)
        | (Inr removed, pt, gl) \<Rightarrow>
            if removed = 0 then (Inr False, k + 1, pt, gl)
            else reserve_with_eviction pr s fs nows (k + 1) pt gl)"
  by pat_completeness auto
termination
proof (relation "measure (\<lambda>(pr, s, fs, nows, k, pt, gl). in_use_count pt)", simp, goal_cases)
  case (1 pr s fs nows k pt gl y gl1 r ya removed pt' gl')
  then have "evict_cache_entries pr s fs (nows k) 0 0 pt gl1 = (Inr removed, pt', gl')" by simp
  from evict_in_use[OF this] show ?case using 1(6) by simp
qed

declare reserve_with_eviction.simps [simp del]

text \<open>Insert a new entry: rebuild first when the index asks for it, retry once at the probe limit.\<close>

definition insert_entry_once :: "nat \<Rightarrow> nat \<Rightarrow> entry_query \<Rightarrow> partition \<Rightarrow> PglcIndexInsertResult \<times> entry_query \<times> partition" where
  "insert_entry_once hash eid q pt =
     (case pglc_index_insert (pt_index pt) hash eid cache_entry_hash_by_id cache_entry_matches_query
             (q\<lparr>eq_partition := pt\<rparr>) of
        (r, ix, q) \<Rightarrow> (r, q, pt\<lparr>pt_index := ix\<rparr>))"

definition insert_entry :: "nat \<Rightarrow> nat \<Rightarrow> entry_query \<Rightarrow> partition \<Rightarrow> PglcIndexInsertResult \<times> entry_query \<times> partition" where
  "insert_entry hash eid q pt =
     (let (r, q, pt) =
        (if pglc_index_needs_rebuild (pt_index pt)
         then case rebuild_cache_index pt of
                (True, pt) \<Rightarrow> insert_entry_once hash eid q pt
              | (False, pt) \<Rightarrow> (PGLC_INDEX_PROBE_LIMIT, q, pt)
         else insert_entry_once hash eid q pt)
      in if r = PGLC_INDEX_PROBE_LIMIT
         then case rebuild_cache_index pt of
                (True, pt) \<Rightarrow> insert_entry_once hash eid q pt
              | (False, pt) \<Rightarrow> (r, q, pt)
         else (r, q, pt))"

text \<open>A failed admission gives the key block back.\<close>

definition abandon_admission ::
  "process \<Rightarrow> nat \<Rightarrow> nat \<Rightarrow> partition \<Rightarrow> globals \<Rightarrow> (cache_error + nat option) \<times> partition \<times> globals" where
  "abandon_admission pr block_ref key_len pt gl =
     (case pglc_arena_free (pt_arena pt) block_ref key_len of
        (a, True) \<Rightarrow> (Inr None, pt\<lparr>pt_arena := a\<rparr>, cache_admission_rejected pr False gl)
      | (a, False) \<Rightarrow> (Inl Key_Block_Not_Released, pt\<lparr>pt_arena := a\<rparr>, gl))"

definition fresh_entry :: "nat \<Rightarrow> nat \<Rightarrow> nat \<Rightarrow> nat \<Rightarrow> nat \<Rightarrow> nat \<Rightarrow> nat \<Rightarrow> cache_entry" where
  "fresh_entry hash database_oid block_ref key_len relation_oid relation_slot slot_generation =
     \<lparr>ce_key_hash = hash, ce_slot_generation = slot_generation, ce_global_epoch = 0, ce_relation_version = 0,
      ce_relation_incarnation = 0, ce_version = 0, ce_load_id = 0, ce_load_started = 0, ce_last_access = 0,
      ce_source_observed_full_xid = 0, ce_database_oid = database_oid, ce_relation_oid = relation_oid,
      ce_relation_slot = relation_slot, ce_dirty_writers = 0, ce_block_ref = block_ref, ce_key_len = key_len,
      ce_value_len = 0, ce_block_len = key_len, ce_source_xmin = 0, ce_valid = False, ce_negative = False,
      ce_loading = False, ce_in_use = True, ce_free_next = 0\<rparr>"

text \<open>
  The end of an admission, once a block, a free descriptor and a place in the global count
  are secured: initialise the descriptor, copy the key and index it. Every failure from
  here on takes all of it back.
\<close>

definition admit_entry ::
  "process \<Rightarrow> entry_query \<Rightarrow> nat \<Rightarrow> partition \<Rightarrow> globals \<Rightarrow>
   (cache_error + nat option) \<times> partition \<times> globals" where
  "admit_entry pr q block_ref pt gl =
     (let eid = pt_free_entry_head pt; key_len = eq_key_len q; hash = eq_hash q; old = entry_at pt eid in
      if eid = 0 \<or> pt_capacity pt < eid \<or> ce_in_use old \<or> pt_capacity pt < ce_free_next old
      then (Inr None, pt\<lparr>pt_arena := fst (pglc_arena_free (pt_arena pt) block_ref key_len)\<rparr>,
            cache_admission_rejected pr False (release_cache_entry gl))
      else
        let e = fresh_entry hash (eq_database_oid q) block_ref key_len (eq_relation_oid q)
                  (eq_relation_slot q) (eq_slot_generation q);
            pt = (set_entry eid e pt)\<lparr>pt_free_entry_head := ce_free_next old\<rparr>
        in case next_entry_generation pt of
             (Inl err, pt) \<Rightarrow> (Inl err, pt, gl)
           | (Inr g, pt) \<Rightarrow>
             let e = e\<lparr>ce_version := g\<rparr>; pt = set_entry eid e pt in
             case pglc_arena_block (pt_arena pt) block_ref of
               None \<Rightarrow>
                 (Inr None,
                  (set_entry eid (e\<lparr>ce_in_use := False, ce_free_next := pt_free_entry_head pt\<rparr>) pt)
                    \<lparr>pt_free_entry_head := eid, pt_entry_count := u32_sub (pt_entry_count pt) 1\<rparr>,
                  cache_admission_rejected pr True (release_cache_entry gl))
             | Some block \<Rightarrow>
               let pt = pt\<lparr>pt_arena := (pt_arena pt)
                     \<lparr>memory := store_bytes (memory (pt_arena pt)) block (take key_len (eq_key q))\<rparr>,
                     pt_entry_count := u32 (pt_entry_count pt + 1)\<rparr>;
                   (r, q, pt) = insert_entry hash eid (q\<lparr>eq_expected_id := eid\<rparr>) pt
               in if r \<noteq> PGLC_INDEX_INSERTED \<or> eq_corrupt q
                  then (case pglc_arena_free (pt_arena pt) block_ref key_len of
                          (a, False) \<Rightarrow> (Inl Key_Block_Not_Released, pt\<lparr>pt_arena := a\<rparr>, gl)
                        | (a, True) \<Rightarrow>
                          (Inr None,
                           (set_entry eid ((entry_at pt eid)\<lparr>ce_in_use := False, ce_key_len := 0, ce_block_len := 0,
                              ce_block_ref := PGLC_ARENA_NO_BLOCK, ce_free_next := pt_free_entry_head pt\<rparr>)
                              (pt\<lparr>pt_arena := a\<rparr>))
                             \<lparr>pt_free_entry_head := eid, pt_entry_count := u32_sub (pt_entry_count pt) 1\<rparr>,
                           cache_admission_rejected pr False (release_cache_entry gl)))
                  else (Inr (Some eid), pt, gl))"

definition create_entry ::
  "process \<Rightarrow> settings \<Rightarrow> fences \<Rightarrow> (nat \<Rightarrow> int) \<Rightarrow> entry_query \<Rightarrow> partition \<Rightarrow> globals \<Rightarrow>
   (cache_error + nat option) \<times> partition \<times> globals" where
  "create_entry pr s fs nows q pt gl =
     (let (rebuilt, pt) = (if pglc_index_needs_rebuild (pt_index pt) then rebuild_cache_index pt else (True, pt)) in
      if \<not> rebuilt then (Inr None, pt, gl)
      else if cache_marker_find pt (eq_hash q) (eq_key q) (eq_key_len q) (eq_relation_slot q)
                (eq_slot_generation q) \<noteq> 0 then (Inr None, pt, gl)
      else case alloc_with_eviction pr s fs nows (eq_key_len q) 0 0 pt gl of
        (Inl e, k, pt, gl) \<Rightarrow> (Inl e, pt, gl)
      | (Inr None, k, pt, gl) \<Rightarrow> (Inr None, pt, cache_admission_rejected pr True gl)
      | (Inr (Some (block_ref, class_size)), k, pt, gl) \<Rightarrow>
        let (freed, k, pt, gl) =
          (if pt_free_entry_head pt = 0
           then (case evict_cache_entries pr s fs (nows k) 0 0 pt gl of
                   (Inl e, pt, gl) \<Rightarrow> (Inl e, k + 1, pt, gl)
                 | (Inr removed, pt, gl) \<Rightarrow> (Inr (removed \<noteq> 0), k + 1, pt, gl))
           else (Inr True, k, pt, gl))
        in case freed of
             Inl e \<Rightarrow> (Inl e, pt, gl)
           | Inr False \<Rightarrow> abandon_admission pr block_ref (eq_key_len q) pt gl
           | Inr True \<Rightarrow>
             case reserve_with_eviction pr s fs nows k pt gl of
               (Inl e, k, pt, gl) \<Rightarrow> (Inl e, pt, gl)
             | (Inr False, k, pt, gl) \<Rightarrow> abandon_admission pr block_ref (eq_key_len q) pt gl
             | (Inr True, k, pt, gl) \<Rightarrow> admit_entry pr q block_ref pt gl)"

text \<open>
  The body of \<open>get_cache_entry_internal\<close> once the partition is known. The result is the
  entry number or none, and the value left in \<open>corrupt_entry_id\<close>.
\<close>

definition get_cache_entry_in ::
  "process \<Rightarrow> settings \<Rightarrow> fences \<Rightarrow> (nat \<Rightarrow> int) \<Rightarrow> nat \<Rightarrow> nat \<Rightarrow> char list \<Rightarrow> nat \<Rightarrow> nat \<Rightarrow> bool \<Rightarrow> nat \<Rightarrow> nat \<Rightarrow>
   partition \<Rightarrow> globals \<Rightarrow> (cache_error + nat option \<times> nat) \<times> partition \<times> globals" where
  "get_cache_entry_in pr s fs nows database_oid relation_oid key relation_slot slot_generation create key_len hash pt gl =
     (let q = (blank_entry_query pt)\<lparr>eq_hash := hash, eq_key := key, eq_key_len := key_len,
            eq_database_oid := database_oid, eq_relation_oid := relation_oid,
            eq_relation_slot := relation_slot, eq_slot_generation := slot_generation\<rparr>;
          (entry_id, q) =
            (if \<not> pglc_partition_index_valid pt False then (PGLC_INDEX_TOMBSTONE, q\<lparr>eq_corrupt := True\<rparr>)
             else pglc_index_find (pt_index pt) hash cache_entry_hash_by_id cache_entry_matches_query q)
      in if eq_corrupt q \<or> pt_capacity pt < entry_id
         then (Inr (None, if eq_corrupt_entry_id q \<noteq> 0 then eq_corrupt_entry_id q else PGLC_INDEX_TOMBSTONE), pt, gl)
         else if entry_id \<noteq> 0 then (Inr (Some entry_id, 0), pt, gl)
         else if \<not> create then (Inr (None, 0), pt, gl)
         else case create_entry pr s fs nows q pt gl of
           (Inl e, pt, gl) \<Rightarrow> (Inl e, pt, gl)
         | (Inr r, pt, gl) \<Rightarrow> (Inr (r, 0), pt, gl))"

end
