(* ===== verification/Entries.thy ===== *)
theory Entries
  imports Partition
begin

text \<open>
  What holds of the entry side of a partition: the descriptors in use own disjoint arena
  blocks, carry pairwise different identities, and are exactly what the index serves; the
  other descriptors form the free list.

  \<^item> \<open>part_ok hf X pt\<close> is the invariant. \<open>hf\<close> is the hash of an identity and \<open>X\<close> the arena
    blocks that the running operation holds besides those of the entries.
  \<^item> \<open>sheds\<close> is what eviction and removal do: some unprotected entries go, the others keep
    their identity and bytes, and at most lose an expired load lease.
  \<^item> \<open>created\<close> is what a successful admission does.
\<close>

section \<open>Partition invariant: entries\<close>

type_synonym ident = "nat \<times> nat \<times> nat \<times> nat \<times> char list"

definition live :: "partition \<Rightarrow> nat \<Rightarrow> bool" where
  "live pt eid \<longleftrightarrow> eid \<noteq> 0 \<and> eid \<le> pt_capacity pt \<and> ce_in_use (entry_at pt eid)"

definition entry_ids :: "partition \<Rightarrow> nat set" where
  "entry_ids pt = {eid. live pt eid}"

text \<open>The bytes of an entry's block, and the identity an entry is looked up by.\<close>

definition block_bytes :: "partition \<Rightarrow> cache_entry \<Rightarrow> char list" where
  "block_bytes pt e = load_bytes (memory (pt_arena pt)) (ce_block_ref e) (ce_block_len e)"

definition ident :: "partition \<Rightarrow> cache_entry \<Rightarrow> ident" where
  "ident pt e = (ce_database_oid e, ce_relation_oid e, ce_relation_slot e, ce_slot_generation e,
     load_bytes (memory (pt_arena pt)) (ce_block_ref e) (ce_key_len e))"

definition entry_shape :: "cache_entry \<Rightarrow> bool" where
  "entry_shape e \<longleftrightarrow> ce_key_len e < PGLC_KEY_MAX \<and> ce_value_len e \<le> PGLC_VALUE_MAX \<and>
     (ce_negative e \<longrightarrow> ce_value_len e = 0) \<and> ce_block_len e = ce_key_len e + ce_value_len e"

text \<open>Every live entry owns a block of its own; \<open>X\<close> are blocks an operation holds besides.\<close>

definition blocks_ok :: "(nat \<rightharpoonup> nat) \<Rightarrow> (nat \<rightharpoonup> nat) \<Rightarrow> partition \<Rightarrow> bool" where
  "blocks_ok X M pt \<longleftrightarrow> arena_rel (pt_arena pt) M \<and>
     (\<forall>eid. live pt eid \<longrightarrow> M (ce_block_ref (entry_at pt eid)) = Some (ce_block_len (entry_at pt eid))) \<and>
     inj_on (\<lambda>eid. ce_block_ref (entry_at pt eid)) (entry_ids pt) \<and>
     dom M = (\<lambda>eid. ce_block_ref (entry_at pt eid)) ` entry_ids pt \<union> dom X \<and>
     (\<lambda>eid. ce_block_ref (entry_at pt eid)) ` entry_ids pt \<inter> dom X = {} \<and> (\<forall>r n. X r = Some n \<longrightarrow> M r = Some n)"

definition entries_ok :: "(ident \<Rightarrow> nat) \<Rightarrow> partition \<Rightarrow> bool" where
  "entries_ok hf pt \<longleftrightarrow>
     (\<forall>eid. live pt eid \<longrightarrow> entry_shape (entry_at pt eid) \<and>
        ce_key_hash (entry_at pt eid) = hf (ident pt (entry_at pt eid))) \<and>
     inj_on (\<lambda>eid. ident pt (entry_at pt eid)) (entry_ids pt)"

definition indexed :: "nat set \<Rightarrow> partition \<Rightarrow> bool" where
  "indexed ids pt \<longleftrightarrow> pt_capacity pt \<le> 16777216 \<and> pglc_partition_index_valid pt False \<and>
     index_ok (pt_index pt) (\<lambda>eid. ce_key_hash (entry_at pt eid)) ids"

fun free_chain :: "(nat \<Rightarrow> nat) \<Rightarrow> nat \<Rightarrow> nat list \<Rightarrow> bool" where
  "free_chain nxt h [] \<longleftrightarrow> h = 0"
| "free_chain nxt h (x # xs) \<longleftrightarrow> h = x \<and> free_chain nxt (nxt x) xs"

text \<open>A free list that links exactly the numbers of a set.\<close>

definition chain_ok :: "(nat \<Rightarrow> nat) \<Rightarrow> nat \<Rightarrow> nat set \<Rightarrow> bool" where
  "chain_ok nxt h S \<longleftrightarrow> (\<exists>fl. free_chain nxt h fl \<and> distinct fl \<and> set fl = S) \<and> 0 \<notin> S"

lemma free_chain_cong: "(\<And>x. x \<in> set fl \<Longrightarrow> nxt x = nxt' x) \<Longrightarrow> free_chain nxt h fl \<longleftrightarrow> free_chain nxt' h fl"
  by (induction fl arbitrary: h) auto

lemma chain_ok_cong: "chain_ok nxt h S \<Longrightarrow> (\<And>x. x \<in> S \<Longrightarrow> nxt' x = nxt x) \<Longrightarrow> chain_ok nxt' h S"
  using free_chain_cong[of _ nxt nxt' h] unfolding chain_ok_def by (metis (no_types, lifting))

lemma chain_push:
  assumes "chain_ok nxt h S" "x \<notin> S" "x \<noteq> 0" "nxt' x = h" "\<And>y. y \<in> S \<Longrightarrow> nxt' y = nxt y"
  shows "chain_ok nxt' x (insert x S)"
proof -
  obtain fl where fl: "free_chain nxt' h fl" "distinct fl" "set fl = S" "0 \<notin> S"
    using chain_ok_cong[OF assms(1,5)] by (auto simp: chain_ok_def)
  then have "free_chain nxt' x (x # fl) \<and> distinct (x # fl) \<and> set (x # fl) = insert x S" using assms by simp
  then show ?thesis unfolding chain_ok_def using fl(4) assms(3) by blast
qed

lemma chain_pop:
  assumes "chain_ok nxt h S" "h \<noteq> 0" "\<And>y. y \<in> S \<Longrightarrow> y \<noteq> h \<Longrightarrow> nxt' y = nxt y"
  shows "h \<in> S" "chain_ok nxt' (nxt h) (S - {h})"
proof -
  obtain fl where fl: "free_chain nxt h fl" "distinct fl" "set fl = S" "0 \<notin> S" using assms(1) by (auto simp: chain_ok_def)
  obtain gl where gl: "fl = h # gl" using fl(1) assms(2) by (cases fl) auto
  show "h \<in> S" using gl fl(3) by auto
  have "chain_ok nxt (nxt h) (S - {h})" unfolding chain_ok_def using fl gl by auto
  then show "chain_ok nxt' (nxt h) (S - {h})" by (rule chain_ok_cong) (use assms(3) in auto)
qed

lemma chain_head: "chain_ok nxt h S \<Longrightarrow> h = 0 \<or> h \<in> S"
  using chain_pop(1) by blast

definition freelist_ok :: "partition \<Rightarrow> bool" where
  "freelist_ok pt \<longleftrightarrow>
     chain_ok (\<lambda>eid. ce_free_next (entry_at pt eid)) (pt_free_entry_head pt) ({1..pt_capacity pt} - entry_ids pt) \<and>
     pt_entry_count pt = card (entry_ids pt)"

definition part_ok :: "(ident \<Rightarrow> nat) \<Rightarrow> (nat \<rightharpoonup> nat) \<Rightarrow> partition \<Rightarrow> bool" where
  "part_ok hf X pt \<longleftrightarrow>
     (\<exists>M. blocks_ok X M pt) \<and> entries_ok hf pt \<and> indexed (entry_ids pt) pt \<and> freelist_ok pt"

text \<open>During an admission the index serves the entries \<open>ids\<close> only.\<close>

definition linked :: "(ident \<Rightarrow> nat) \<Rightarrow> (nat \<rightharpoonup> nat) \<Rightarrow> nat set \<Rightarrow> partition \<Rightarrow> bool" where
  "linked hf X ids pt \<longleftrightarrow>
     (\<exists>M. blocks_ok X M pt) \<and> entries_ok hf pt \<and> indexed ids pt \<and> ids \<subseteq> entry_ids pt"

lemma part_linked: "part_ok hf X pt \<longleftrightarrow> linked hf X (entry_ids pt) pt \<and> freelist_ok pt"
  by (auto simp: part_ok_def linked_def)

lemma finite_entry_ids: "finite (entry_ids pt)"
  by (rule finite_subset[of _ "{..pt_capacity pt}"]) (auto simp: entry_ids_def live_def)

lemma entry_ids_subset: "entry_ids pt \<subseteq> {1..pt_capacity pt}"
  by (auto simp: entry_ids_def live_def)

subsection \<open>The index callbacks of entries\<close>

definition healthy_entry :: "entry_query \<Rightarrow> nat \<Rightarrow> bool" where
  "healthy_entry q eid \<longleftrightarrow> live (eq_partition q) eid \<and>
     cache_entry_block (eq_partition q) (entry_at (eq_partition q) eid) =
       Some (ce_block_ref (entry_at (eq_partition q) eid))"

definition entry_hash_of :: "entry_query \<Rightarrow> nat \<Rightarrow> nat" where
  "entry_hash_of q eid = ce_key_hash (entry_at (eq_partition q) eid)"

definition entry_asked :: "entry_query \<Rightarrow> nat \<Rightarrow> bool" where
  "entry_asked q eid \<longleftrightarrow> (let pt = eq_partition q; e = entry_at pt eid in
     ce_database_oid e = eq_database_oid q \<and> ce_relation_oid e = eq_relation_oid q \<and>
     ce_relation_slot e = eq_relation_slot q \<and> ce_slot_generation e = eq_slot_generation q \<and>
     ce_key_len e = eq_key_len q \<and>
     load_bytes (memory (pt_arena pt)) (ce_block_ref e) (eq_key_len q) = take (eq_key_len q) (eq_key q))"

interpretation entry_lookup: index_callbacks cache_entry_hash_by_id cache_entry_matches_query healthy_entry
  entry_hash_of entry_asked
  by unfold_locales
    (auto simp: cache_entry_hash_by_id_def cache_entry_matches_query_def healthy_entry_def entry_hash_of_def
      entry_asked_def live_def Let_def)

interpretation entry_by_id: index_callbacks cache_entry_hash_by_id cache_entry_matches_id healthy_entry
  entry_hash_of "\<lambda>q eid. eid = eq_expected_id q"
  by unfold_locales
    (auto simp: cache_entry_hash_by_id_def cache_entry_matches_id_def healthy_entry_def entry_hash_of_def live_def)

lemma block_of_live:
  assumes "blocks_ok X M pt" "entries_ok hf pt" "live pt eid"
  shows "cache_entry_block pt (entry_at pt eid) = Some (ce_block_ref (entry_at pt eid))"
    "ce_block_len (entry_at pt eid) \<le> ref_bytes (pt_arena pt) (ce_block_ref (entry_at pt eid))"
proof -
  define e where "e = entry_at pt eid"
  have rel: "arena_rel (pt_arena pt) M" and M: "M (ce_block_ref e) = Some (ce_block_len e)"
    using assms unfolding blocks_ok_def e_def by auto
  have sh: "entry_shape e" using assms(2,3) unfolding entries_ok_def e_def by auto
  show len: "ce_block_len (entry_at pt eid) \<le> ref_bytes (pt_arena pt) (ce_block_ref (entry_at pt eid))"
    using rel M unfolding arena_rel_def e_def by auto
  have "pglc_arena_block_class (pt_arena pt) (ce_block_ref e) = ref_bytes (pt_arena pt) (ce_block_ref e)"
    "pglc_arena_block (pt_arena pt) (ce_block_ref e) = Some (ce_block_ref e)"
    "256 \<le> ref_bytes (pt_arena pt) (ce_block_ref e)"
    using live_info[OF rel] M by auto
  then show "cache_entry_block pt (entry_at pt eid) = Some (ce_block_ref (entry_at pt eid))"
    using sh len assms(3) unfolding cache_entry_block_def live_def e_def[symmetric] entry_shape_def Let_def by auto
qed

lemma linked_served:
  assumes "linked hf X ids pt" "eq_partition q = pt"
  shows "entry_lookup.served (pt_index pt) ids q" "entry_by_id.served (pt_index pt) ids q"
proof -
  have "index_ok (pt_index pt) (entry_hash_of q) ids"
    using assms unfolding linked_def indexed_def entry_hash_of_def by auto
  moreover have "\<forall>eid \<in> ids. healthy_entry q eid"
    using assms block_of_live unfolding linked_def healthy_entry_def entry_ids_def by auto
  ultimately show "entry_lookup.served (pt_index pt) ids q" "entry_by_id.served (pt_index pt) ids q"
    unfolding entry_lookup.served_def entry_by_id.served_def by blast+
qed

lemma part_served:
  assumes "part_ok hf X pt" "eq_partition q = pt"
  shows "entry_lookup.served (pt_index pt) (entry_ids pt) q" "entry_by_id.served (pt_index pt) (entry_ids pt) q"
  using linked_served assms part_linked by blast+

text \<open>Looking an identity up.\<close>

lemma entry_asked_iff:
  assumes "eq_partition q = pt" "eq_key_len q = length (eq_key q)"
  shows "entry_asked q eid \<longleftrightarrow> ident pt (entry_at pt eid) =
    (eq_database_oid q, eq_relation_oid q, eq_relation_slot q, eq_slot_generation q, eq_key q)"
proof -
  define e where "e = entry_at pt eid"
  have L: "ce_key_len e = length (eq_key q)"
    if "load_bytes (memory (pt_arena pt)) (ce_block_ref e) (ce_key_len e) = eq_key q"
    using arg_cong[OF that, of length] by simp
  show ?thesis using assms L unfolding entry_asked_def ident_def Let_def assms(1) e_def[symmetric]
    by (auto simp: assms(2))
qed

lemma get_found:
  assumes ok: "part_ok hf X pt" and id: "live pt eid" "ident pt (entry_at pt eid) = (db, rel, slot, gen, key)"
  shows "get_cache_entry_in pr s fs nows db rel key slot gen create (length key) (hf (db, rel, slot, gen, key)) pt gl =
    (Inr (Some eid, 0), pt, gl)"
proof -
  define q where "q = (blank_entry_query pt)\<lparr>eq_hash := hf (db, rel, slot, gen, key), eq_key := key, eq_key_len := length key,
    eq_database_oid := db, eq_relation_oid := rel, eq_relation_slot := slot, eq_slot_generation := gen\<rparr>"
  have q: "eq_partition q = pt" "eq_key_len q = length (eq_key q)" "eq_corrupt q = False"
    "(eq_database_oid q, eq_relation_oid q, eq_relation_slot q, eq_slot_generation q, eq_key q) = (db, rel, slot, gen, key)"
    by (simp_all add: q_def blank_entry_query_def)
  have e: "entries_ok hf pt" "pglc_partition_index_valid pt False" using ok by (auto simp: part_ok_def indexed_def)
  have h: "entry_hash_of q eid = hf (db, rel, slot, gen, key)" using e(1) id q(1) unfolding entries_ok_def entry_hash_of_def by auto
  have a: "entry_asked q x \<longleftrightarrow> x = eid" if "x \<in> entry_ids pt" for x
    using that id e(1) entry_asked_iff[OF q(1,2), of x] q(4) unfolding entries_ok_def
    by (auto simp: entry_ids_def inj_on_def)
  have ex: "\<exists>x \<in> entry_ids pt. entry_hash_of q x = hf (db, rel, slot, gen, key) \<and> entry_asked q x"
    using h a[of eid] id(1) by (auto simp: entry_ids_def)
  note f = entry_lookup.find_served[OF part_served(1)[OF ok q(1)], of "hf (db, rel, slot, gen, key)", unfolded if_P[OF ex]]
  then have "pglc_index_find (pt_index pt) (hf (db, rel, slot, gen, key)) cache_entry_hash_by_id cache_entry_matches_query q = (eid, q)"
    using a by auto
  then show ?thesis using e(2) q(3) id(1) unfolding get_cache_entry_in_def Let_def q_def[symmetric] live_def by simp
qed

lemma get_missing:
  assumes ok: "part_ok hf X pt" and no: "\<And>eid. live pt eid \<Longrightarrow> ident pt (entry_at pt eid) \<noteq> (db, rel, slot, gen, key)"
  shows "get_cache_entry_in pr s fs nows db rel key slot gen create (length key) hash pt gl =
    (if \<not> create then (Inr (None, 0), pt, gl)
     else case create_entry pr s fs nows ((blank_entry_query pt)\<lparr>eq_hash := hash, eq_key := key, eq_key_len := length key,
         eq_database_oid := db, eq_relation_oid := rel, eq_relation_slot := slot, eq_slot_generation := gen\<rparr>) pt gl of
       (Inl e, pt, gl) \<Rightarrow> (Inl e, pt, gl) | (Inr r, pt, gl) \<Rightarrow> (Inr (r, 0), pt, gl))"
proof -
  define q where "q = (blank_entry_query pt)\<lparr>eq_hash := hash, eq_key := key, eq_key_len := length key,
    eq_database_oid := db, eq_relation_oid := rel, eq_relation_slot := slot, eq_slot_generation := gen\<rparr>"
  have q: "eq_partition q = pt" "eq_key_len q = length (eq_key q)" "eq_corrupt q = False"
    "(eq_database_oid q, eq_relation_oid q, eq_relation_slot q, eq_slot_generation q, eq_key q) = (db, rel, slot, gen, key)"
    by (simp_all add: q_def blank_entry_query_def)
  have v: "pglc_partition_index_valid pt False" using ok by (auto simp: part_ok_def indexed_def)
  have ex: "\<not> (\<exists>x \<in> entry_ids pt. entry_hash_of q x = hash \<and> entry_asked q x)"
    using no entry_asked_iff[OF q(1,2)] q(4) by (auto simp: entry_ids_def)
  have "pglc_index_find (pt_index pt) hash cache_entry_hash_by_id cache_entry_matches_query q = (0, q)"
    using entry_lookup.find_served[OF part_served(1)[OF ok q(1)], of hash, unfolded if_not_P[OF ex]] .
  then show ?thesis using v q(3) unfolding get_cache_entry_in_def Let_def q_def[symmetric] by simp
qed

subsection \<open>Frame facts\<close>

lemma keeps_load: "keeps_block a a' r \<Longrightarrow> n \<le> ref_bytes a r \<Longrightarrow> load_bytes (memory a') r n = load_bytes (memory a) r n"
  by (rule load_bytes_cong) (simp add: keeps_block_def)

lemma entry_at_set:
  "eid \<noteq> 0 \<Longrightarrow> eid \<le> pt_capacity pt \<Longrightarrow> x \<noteq> 0 \<Longrightarrow>
   entry_at (set_entry eid e pt) x = (if x = eid then e else entry_at pt x)"
  by (auto simp: set_entry_def nth_list_update)

lemma set_entry_frame [simp]:
  "pt_capacity (set_entry eid e pt) = pt_capacity pt" "pt_arena (set_entry eid e pt) = pt_arena pt"
  "pt_index (set_entry eid e pt) = pt_index pt" "pt_markers (set_entry eid e pt) = pt_markers pt"
  "pt_free_entry_head (set_entry eid e pt) = pt_free_entry_head pt"
  "pt_entry_count (set_entry eid e pt) = pt_entry_count pt"
  "pt_entry_generation (set_entry eid e pt) = pt_entry_generation pt"
  "pt_eviction_bucket_cursor (set_entry eid e pt) = pt_eviction_bucket_cursor pt"
  by (simp_all add: set_entry_def)

text \<open>The marker side of a partition, which entry operations never touch.\<close>

definition marker_side where
  "marker_side pt = (pt_markers pt, pt_marker_index pt, pt_marker_key_arena pt, pt_marker_key_free_next pt,
     pt_marker_generation pt, pt_marker_free_head pt, pt_marker_key_free_head pt, pt_marker_count pt)"

lemma marker_side_simps [simp]:
  "marker_side (set_entry eid e pt) = marker_side pt" "marker_side (pt\<lparr>pt_index := ix\<rparr>) = marker_side pt"
  "marker_side (pt\<lparr>pt_arena := a\<rparr>) = marker_side pt" "marker_side (pt\<lparr>pt_free_entry_head := h\<rparr>) = marker_side pt"
  "marker_side (pt\<lparr>pt_entry_count := c\<rparr>) = marker_side pt"
  "marker_side (pt\<lparr>pt_entry_generation := g\<rparr>) = marker_side pt"
  "marker_side (pt\<lparr>pt_eviction_bucket_cursor := c\<rparr>) = marker_side pt"
  by (simp_all add: marker_side_def set_entry_def)

text \<open>Only the entries, the arena, the index, the free list and the count matter to the invariant.\<close>

lemma part_ok_cong:
  assumes "part_ok hf X pt" "pt_entries pt' = pt_entries pt" "pt_arena pt' = pt_arena pt" "pt_index pt' = pt_index pt"
    "pt_free_entry_head pt' = pt_free_entry_head pt" "pt_entry_count pt' = pt_entry_count pt"
  shows "part_ok hf X pt'"
proof -
  have ids: "entry_ids pt' = entry_ids pt" "live pt' = live pt"
    using assms(2) unfolding entry_ids_def live_def by (auto simp: fun_eq_iff)
  show ?thesis
    using assms unfolding part_ok_def blocks_ok_def entries_ok_def indexed_def freelist_ok_def ids
      ident_def pglc_partition_index_valid_def by (simp cong: option.case_cong if_cong)
qed

lemma index_valid_iff:
  assumes "index_ok ix H ids" "index_ok ix' H' ids'" "bucket_count ix' = bucket_count ix"
  shows "pglc_index_valid ix' n \<longleftrightarrow> pglc_index_valid ix n"
  using index_okD(1)[OF assms(1)] index_okD(1)[OF assms(2)] assms(3)
  unfolding index_dimensions_valid_def pglc_index_valid_def by auto

lemma index_ok_scratch: "index_ok (ix\<lparr>scratch := sc\<rparr>) H ids = index_ok ix H ids"
  by (simp add: index_ok_def index_dimensions_valid_def pglc_index_valid_def probe_buckets_def index_start_def)

lemma linked_index:
  assumes L: "linked hf X ids pt" and ix: "index_ok ix (\<lambda>x. ce_key_hash (entry_at pt x)) ids'"
    "bucket_count ix = bucket_count (pt_index pt)" and sub: "ids' \<subseteq> entry_ids pt"
  shows "linked hf X ids' (pt\<lparr>pt_index := ix\<rparr>)"
proof -
  have v: "pglc_partition_index_valid pt False" and io: "index_ok (pt_index pt) (\<lambda>x. ce_key_hash (entry_at pt x)) ids"
    using L by (auto simp: linked_def indexed_def)
  show ?thesis using L ix(1) index_valid_iff[OF io ix] v sub
    unfolding linked_def blocks_ok_def entries_ok_def indexed_def ident_def entry_ids_def live_def pglc_partition_index_valid_def
    by (auto split: option.splits)
qed

lemma rebuild_linked:
  assumes "linked hf X ids pt"
  shows "\<exists>b ix. rebuild_cache_index pt = (b, pt\<lparr>pt_index := ix\<rparr>) \<and> linked hf X ids (pt\<lparr>pt_index := ix\<rparr>) \<and>
    (b \<longrightarrow> tombstones ix = 0)"
proof -
  define q where "q = blank_entry_query pt"
  have q: "eq_partition q = pt" "eq_corrupt q = False" by (simp_all add: q_def blank_entry_query_def)
  have v: "pglc_partition_index_valid pt False" and io: "index_ok (pt_index pt) (\<lambda>x. ce_key_hash (entry_at pt x)) (ids)"
    using assms by (auto simp: linked_def indexed_def)
  obtain good ix where r: "pglc_index_rebuild_existing (pt_index pt) cache_entry_hash_by_id q = (good, ix, q)"
    "good \<longrightarrow> entry_by_id.served ix (ids) q \<and> tombstones ix = 0 \<and> bucket_count ix = bucket_count (pt_index pt)"
    "\<not> good \<longrightarrow> (\<exists>sc. ix = (pt_index pt)\<lparr>scratch := sc\<rparr>)"
    using entry_by_id.rebuild_existing_served[OF linked_served(2)[OF assms q(1)]] by blast
  have ix: "index_ok ix (\<lambda>x. ce_key_hash (entry_at pt x)) (ids)" "bucket_count ix = bucket_count (pt_index pt)"
  proof -
    show "index_ok ix (\<lambda>x. ce_key_hash (entry_at pt x)) (ids)"
    proof (cases good)
      case True
      then show ?thesis using r(2) q(1) unfolding entry_by_id.served_def entry_hash_of_def by auto
    next
      case False
      then obtain sc where "ix = (pt_index pt)\<lparr>scratch := sc\<rparr>" using r(3) by blast
      then show ?thesis using io by (simp add: index_ok_scratch)
    qed
    show "bucket_count ix = bucket_count (pt_index pt)" using r(2,3) by auto
  qed
  have "linked hf X ids (pt\<lparr>pt_index := ix\<rparr>)"
    by (rule linked_index[OF assms ix]) (use assms in \<open>simp add: linked_def\<close>)
  moreover have "rebuild_cache_index pt = (good, pt\<lparr>pt_index := ix\<rparr>)"
    using r(1) q(2) v unfolding rebuild_cache_index_def q_def[symmetric] by simp
  ultimately show ?thesis using r(2) by blast
qed

lemma rebuild_part:
  assumes "part_ok hf X pt"
  shows "\<exists>b ix. rebuild_cache_index pt = (b, pt\<lparr>pt_index := ix\<rparr>) \<and> part_ok hf X (pt\<lparr>pt_index := ix\<rparr>) \<and>
    (b \<longrightarrow> tombstones ix = 0)"
proof -
  have ids: "entry_ids (pt\<lparr>pt_index := ix\<rparr>) = entry_ids pt" for ix by (simp add: entry_ids_def live_def)
  have "freelist_ok (pt\<lparr>pt_index := ix\<rparr>) = freelist_ok pt" for ix by (simp add: freelist_ok_def ids)
  then show ?thesis using rebuild_linked[of hf X "entry_ids pt" pt] assms part_linked ids by metis
qed

subsection \<open>Changing one entry\<close>

text \<open>All other entries stay as they are and keep the bytes of their blocks.\<close>

definition only_entry :: "nat \<Rightarrow> partition \<Rightarrow> partition \<Rightarrow> bool" where
  "only_entry eid pt pt' \<longleftrightarrow> pt_capacity pt' = pt_capacity pt \<and>
     (\<forall>x. x \<noteq> eid \<longrightarrow> x \<noteq> 0 \<longrightarrow> entry_at pt' x = entry_at pt x) \<and>
     (\<forall>x. x \<noteq> eid \<longrightarrow> live pt x \<longrightarrow> keeps_block (pt_arena pt) (pt_arena pt') (ce_block_ref (entry_at pt x)))"

lemma only_entryD:
  assumes "only_entry eid pt pt'" "x \<noteq> eid"
  shows "live pt' x \<longleftrightarrow> live pt x" "x \<noteq> 0 \<Longrightarrow> entry_at pt' x = entry_at pt x" "live pt x \<Longrightarrow> entry_at pt' x = entry_at pt x"
    "live pt x \<Longrightarrow> keeps_block (pt_arena pt) (pt_arena pt') (ce_block_ref (entry_at pt x))"
  using assms unfolding only_entry_def live_def by auto

lemma only_entry_ids: "only_entry eid pt pt' \<Longrightarrow> entry_ids pt' - {eid} = entry_ids pt - {eid}"
  using only_entryD(1) unfolding entry_ids_def by auto

lemma only_entry_ident:
  assumes "only_entry eid pt pt'" "x \<noteq> eid" "live pt x" "blocks_ok X M pt" "entries_ok hf pt"
  shows "ident pt' (entry_at pt' x) = ident pt (entry_at pt x)" "block_bytes pt' (entry_at pt' x) = block_bytes pt (entry_at pt x)"
proof -
  define e where "e = entry_at pt x"
  have le: "ce_key_len e \<le> ref_bytes (pt_arena pt) (ce_block_ref e)" "ce_block_len e \<le> ref_bytes (pt_arena pt) (ce_block_ref e)"
    using block_of_live(2)[OF assms(4,5,3)] assms(3,5) unfolding entries_ok_def entry_shape_def e_def by force+
  note k = only_entryD(4)[OF assms(1-3), folded e_def]
  show "ident pt' (entry_at pt' x) = ident pt (entry_at pt x)" "block_bytes pt' (entry_at pt' x) = block_bytes pt (entry_at pt x)"
    using keeps_load[OF k le(1)] keeps_load[OF k le(2)]
    unfolding only_entryD(3)[OF assms(1-3)] ident_def block_bytes_def e_def by auto
qed

lemma entries_ok_step:
  assumes O: "only_entry eid pt pt'" and ok: "blocks_ok X M pt" "entries_ok hf pt"
    and e: "live pt' eid \<Longrightarrow> entry_shape (entry_at pt' eid) \<and> ce_key_hash (entry_at pt' eid) = hf (ident pt' (entry_at pt' eid))"
    and new: "\<And>x. live pt' eid \<Longrightarrow> live pt x \<Longrightarrow> x \<noteq> eid \<Longrightarrow> ident pt' (entry_at pt' eid) \<noteq> ident pt (entry_at pt x)"
  shows "entries_ok hf pt'"
proof -
  have id: "ident pt' (entry_at pt' x) = ident pt (entry_at pt x)" if "live pt x" "x \<noteq> eid" for x
    using only_entry_ident(1)[OF O that(2,1) ok] .
  have old: "entry_shape (entry_at pt' x) \<and> ce_key_hash (entry_at pt' x) = hf (ident pt' (entry_at pt' x))"
    if "live pt x" "x \<noteq> eid" for x
    using ok(2) that id[OF that] only_entryD(3)[OF O that(2,1)] unfolding entries_ok_def by simp
  have "x = y" if xy: "live pt' x" "live pt' y" and eq: "ident pt' (entry_at pt' x) = ident pt' (entry_at pt' y)" for x y
  proof (rule ccontr)
    assume ne: "x \<noteq> y"
    consider "x = eid" | "y = eid" | "x \<noteq> eid" "y \<noteq> eid" by blast
    then show False
    proof cases
      case 1
      then show ?thesis using new[of y] id[of y] ne eq xy only_entryD(1)[OF O, of y] by auto
    next
      case 2
      then show ?thesis using new[of x] id[of x] ne eq xy only_entryD(1)[OF O, of x] by auto
    next
      case 3
      then have l: "live pt x" "live pt y" using xy only_entryD(1)[OF O] by auto
      then have "ident pt (entry_at pt x) = ident pt (entry_at pt y)" using eq id 3 by auto
      moreover have "inj_on (\<lambda>z. ident pt (entry_at pt z)) (entry_ids pt)" using ok(2) by (simp add: entries_ok_def)
      ultimately show ?thesis using l ne inj_onD[of "\<lambda>z. ident pt (entry_at pt z)" "entry_ids pt" x y]
        by (simp add: entry_ids_def)
    qed
  qed
  then have "inj_on (\<lambda>x. ident pt' (entry_at pt' x)) (entry_ids pt')" by (auto simp: inj_on_def entry_ids_def)
  moreover have "entry_shape (entry_at pt' x) \<and> ce_key_hash (entry_at pt' x) = hf (ident pt' (entry_at pt' x))" if "live pt' x" for x
    using e old[of x] only_entryD(1)[OF O, of x] that by (cases "x = eid") blast+
  ultimately show ?thesis unfolding entries_ok_def by blast
qed

lemma blocks_ok_step:
  assumes O: "only_entry eid pt pt'" and ok: "blocks_ok X M pt"
    and rel: "arena_rel (pt_arena pt') M'"
    and same: "\<And>x. live pt x \<Longrightarrow> x \<noteq> eid \<Longrightarrow> M' (ce_block_ref (entry_at pt x)) = M (ce_block_ref (entry_at pt x))"
    and e: "live pt' eid \<Longrightarrow> M' (ce_block_ref (entry_at pt' eid)) = Some (ce_block_len (entry_at pt' eid)) \<and>
      ce_block_ref (entry_at pt' eid) \<notin> dom X' \<and> ce_block_ref (entry_at pt' eid) \<notin> (\<lambda>x. ce_block_ref (entry_at pt x)) ` (entry_ids pt - {eid})"
    and X': "\<And>r n. X' r = Some n \<Longrightarrow> M' r = Some n" "(\<lambda>x. ce_block_ref (entry_at pt x)) ` (entry_ids pt - {eid}) \<inter> dom X' = {}"
    and dom: "dom M' = (\<lambda>x. ce_block_ref (entry_at pt x)) ` (entry_ids pt - {eid}) \<union>
      (if live pt' eid then {ce_block_ref (entry_at pt' eid)} else {}) \<union> dom X'"
  shows "blocks_ok X' M' pt'"
proof -
  define b where "b x = ce_block_ref (entry_at pt x)" for x
  define b' where "b' x = ce_block_ref (entry_at pt' x)" for x
  define S where "S = entry_ids pt - {eid}"
  have bb: "b' x = b x" if "x \<in> S" for x
    using that only_entryD(3)[OF O, of x] unfolding S_def b_def b'_def entry_ids_def by auto
  have ids: "entry_ids pt' = (if live pt' eid then insert eid S else S)"
    using only_entry_ids[OF O] unfolding S_def entry_ids_def by auto
  have inj: "inj_on b S" using ok unfolding blocks_ok_def b_def S_def inj_on_def by blast
  have img: "b' ` S = b ` S" using bb by (rule image_cong[OF refl])
  have e': "live pt' eid \<Longrightarrow> b' eid \<notin> b ` S \<and> b' eid \<notin> dom X'" using e unfolding b_def b'_def S_def by auto
  have "inj_on b' (entry_ids pt')"
  proof -
    have "inj_on b' S" using inj bb by (simp add: inj_on_def)
    moreover have "eid \<notin> S" by (simp add: S_def)
    ultimately show ?thesis using e' img unfolding ids by (simp add: inj_on_insert)
  qed
  moreover have "dom M' = b' ` entry_ids pt' \<union> dom X'" "b' ` entry_ids pt' \<inter> dom X' = {}"
    using dom X'(2) e' img unfolding ids b_def[symmetric] b'_def[symmetric] S_def[symmetric] by auto
  moreover have "M' (b' x) = Some (ce_block_len (entry_at pt' x))" if "live pt' x" for x
  proof (cases "x = eid")
    case False
    then have x: "live pt x" using that only_entryD(1)[OF O] by blast
    then show ?thesis using same[OF x False] ok only_entryD(3)[OF O False x] unfolding blocks_ok_def b'_def by simp
  qed (use e that b'_def in simp)
  ultimately show ?thesis using rel X'(1) unfolding blocks_ok_def b'_def by blast
qed

lemma indexed_step:
  assumes O: "only_entry eid pt pt'" and ok: "indexed ids pt" and ix: "bucket_count (pt_index pt') = bucket_count (pt_index pt)"
    "index_ok (pt_index pt') H ids'"
    and H: "\<And>x. x \<in> ids' \<Longrightarrow> H x = ce_key_hash (entry_at pt' x)"
  shows "indexed ids' pt'"
proof -
  have I: "pglc_partition_index_valid pt False" "index_ok (pt_index pt) (\<lambda>x. ce_key_hash (entry_at pt x)) ids"
    using ok by (auto simp: indexed_def)
  have c: "pt_capacity pt' = pt_capacity pt" using O by (simp add: only_entry_def)
  have "index_ok (pt_index pt') (\<lambda>x. ce_key_hash (entry_at pt' x)) ids'"
    by (rule index_ok_cong[OF ix(2)]) (use H in simp)
  moreover have "pglc_partition_index_valid pt' False"
    using I(1) index_valid_iff[OF I(2) ix(2,1)] c unfolding pglc_partition_index_valid_def by (auto split: option.splits)
  ultimately show ?thesis using ok c unfolding indexed_def by simp
qed

lemma freelist_push:
  assumes O: "only_entry eid pt pt'" and ok: "freelist_ok pt" and e: "live pt eid" "\<not> live pt' eid"
    and h: "pt_free_entry_head pt' = eid" "ce_free_next (entry_at pt' eid) = pt_free_entry_head pt"
    and c: "pt_entry_count pt' = pt_entry_count pt - 1"
  shows "freelist_ok pt'"
proof -
  have ids: "entry_ids pt' = entry_ids pt - {eid}" using only_entry_ids[OF O] e(2) by (auto simp: entry_ids_def)
  have rng: "eid \<noteq> 0" "eid \<le> pt_capacity pt" "pt_capacity pt' = pt_capacity pt" using e(1) O by (auto simp: live_def only_entry_def)
  have S: "{1..pt_capacity pt'} - entry_ids pt' = insert eid ({1..pt_capacity pt} - entry_ids pt)"
    unfolding ids rng(3) using rng e(1) by auto
  have "chain_ok (\<lambda>x. ce_free_next (entry_at pt' x)) eid (insert eid ({1..pt_capacity pt} - entry_ids pt))"
  proof (rule chain_push)
    show "chain_ok (\<lambda>x. ce_free_next (entry_at pt x)) (pt_free_entry_head pt) ({1..pt_capacity pt} - entry_ids pt)"
      using ok by (simp add: freelist_ok_def)
    show "ce_free_next (entry_at pt' y) = ce_free_next (entry_at pt y)" if "y \<in> {1..pt_capacity pt} - entry_ids pt" for y
    proof -
      have "y \<noteq> 0" "y \<noteq> eid" using that e(1) by (auto simp: entry_ids_def)
      then show ?thesis using only_entryD(2)[OF O] by simp
    qed
  qed (use e(1) rng h in \<open>simp_all add: entry_ids_def\<close>)
  moreover have "pt_entry_count pt' = card (entry_ids pt')"
    using ok c ids e finite_entry_ids[of pt] by (simp add: entry_ids_def card_Diff_singleton freelist_ok_def)
  ultimately show ?thesis unfolding freelist_ok_def S h(1) by blast
qed

subsection \<open>Removing an entry\<close>

lemma remove_part_ok:
  assumes P: "entries_ok hf pt" "indexed ids pt" "freelist_ok pt" and eid: "live pt eid" and bl: "blocks_ok X M pt"
    and O: "only_entry eid pt pt'" "\<not> live pt' eid"
    and h: "pt_free_entry_head pt' = eid" "ce_free_next (entry_at pt' eid) = pt_free_entry_head pt"
      "pt_entry_count pt' = pt_entry_count pt - 1"
    and a: "arena_rel (pt_arena pt') (M(ce_block_ref (entry_at pt eid) := None))"
    and ix: "index_ok (pt_index pt') (\<lambda>x. ce_key_hash (entry_at pt x)) (entry_ids pt - {eid})" "bucket_count (pt_index pt') = bucket_count (pt_index pt)"
  shows "part_ok hf X pt'" "entry_ids pt' = entry_ids pt - {eid}"
proof -
  define r where "r = ce_block_ref (entry_at pt eid)"
  have B: "inj_on (\<lambda>x. ce_block_ref (entry_at pt x)) (entry_ids pt)"
    "dom M = (\<lambda>x. ce_block_ref (entry_at pt x)) ` entry_ids pt \<union> dom X"
    "(\<lambda>x. ce_block_ref (entry_at pt x)) ` entry_ids pt \<inter> dom X = {}" "\<And>r n. X r = Some n \<Longrightarrow> M r = Some n"
    using bl by (auto simp: blocks_ok_def)
  show ids: "entry_ids pt' = entry_ids pt - {eid}" using only_entry_ids[OF O(1)] O(2) by (auto simp: entry_ids_def)
  have ref: "ce_block_ref (entry_at pt x) \<noteq> r" if "live pt x" "x \<noteq> eid" for x
    using that B(1) eid unfolding r_def inj_on_def entry_ids_def by blast
  have img: "(\<lambda>x. ce_block_ref (entry_at pt x)) ` (entry_ids pt - {eid}) = (\<lambda>x. ce_block_ref (entry_at pt x)) ` entry_ids pt - {r}"
    using ref unfolding r_def entry_ids_def by auto
  have rX: "r \<notin> dom X" using B(3) eid unfolding r_def entry_ids_def by auto
  have "blocks_ok X (M(r := None)) pt'"
  proof (rule blocks_ok_step[OF O(1) bl])
    show "arena_rel (pt_arena pt') (M(r := None))" using a by (simp add: r_def)
    show "(M(r := None)) x = Some n" if "X x = Some n" for x n using B(4)[OF that] rX that by auto
    show "dom (M(r := None)) = (\<lambda>x. ce_block_ref (entry_at pt x)) ` (entry_ids pt - {eid}) \<union>
        (if live pt' eid then {ce_block_ref (entry_at pt' eid)} else {}) \<union> dom X"
      unfolding img using B(2) rX O(2) by auto
  qed (use ref O(2) B(3) in auto)
  moreover have "entries_ok hf pt'" by (rule entries_ok_step[OF O(1) bl P(1)]) (use O(2) in auto)
  moreover have "indexed (entry_ids pt') pt'"
  proof (rule indexed_step[OF O(1) P(2) ix(2)])
    show "index_ok (pt_index pt') (\<lambda>x. ce_key_hash (entry_at pt x)) (entry_ids pt')" using ix(1) ids by simp
    show "ce_key_hash (entry_at pt x) = ce_key_hash (entry_at pt' x)" if "x \<in> entry_ids pt'" for x
    proof -
      have "live pt' x" "x \<noteq> eid" using that O(2) by (auto simp: entry_ids_def)
      then show ?thesis using only_entryD[OF O(1), of x] by simp
    qed
  qed
  moreover have "freelist_ok pt'" by (rule freelist_push[OF O(1) P(3) eid O(2) h])
  ultimately show "part_ok hf X pt'" unfolding part_ok_def by blast
qed

subsection \<open>What operations that drop entries leave alone\<close>

text \<open>
  \<open>revoked e e'\<close>: the entry is as before, or lost its load lease. \<open>renewed\<close>: a version that
  changes becomes one the generation counter had not given out before. \<open>K\<close> protects entries:
  a protected entry stays and is not changed. \<open>counted rest\<close> is the share of the global
  entry counter that this partition accounts for.
\<close>

definition revoked :: "cache_entry \<Rightarrow> cache_entry \<Rightarrow> bool" where
  "revoked e e' \<longleftrightarrow> e' = e \<or> ce_loading e \<and>
     (\<exists>v. e' = e\<lparr>ce_loading := False, ce_load_id := u64 (ce_load_id e + 1), ce_version := v\<rparr>)"

definition renewed :: "partition \<Rightarrow> partition \<Rightarrow> nat \<Rightarrow> bool" where
  "renewed pt pt' x \<longleftrightarrow> ce_version (entry_at pt' x) = ce_version (entry_at pt x) \<or>
     pt_entry_generation pt < ce_version (entry_at pt' x) \<and> ce_version (entry_at pt' x) \<le> pt_entry_generation pt'"

definition counted :: "nat \<Rightarrow> partition \<Rightarrow> globals \<Rightarrow> bool" where
  "counted rest pt gl \<longleftrightarrow> gl_cache_entry_count gl = rest + pt_entry_count pt \<and> rest + pt_entry_count pt < 2 ^ 64"

definition sheds ::
  "(ident \<Rightarrow> nat) \<Rightarrow> (nat \<rightharpoonup> nat) \<Rightarrow> (nat \<Rightarrow> cache_entry \<Rightarrow> bool) \<Rightarrow> partition \<Rightarrow> globals \<Rightarrow> partition \<Rightarrow> globals \<Rightarrow> bool" where
  "sheds hf X K pt gl pt' gl' \<longleftrightarrow> part_ok hf X pt' \<and> pt_capacity pt' = pt_capacity pt \<and> marker_side pt' = marker_side pt \<and>
     (\<forall>x. live pt' x \<longrightarrow> live pt x \<and> revoked (entry_at pt x) (entry_at pt' x) \<and>
        keeps_block (pt_arena pt) (pt_arena pt') (ce_block_ref (entry_at pt x)) \<and> renewed pt pt' x) \<and>
     (\<forall>x. live pt x \<longrightarrow> K x (entry_at pt x) \<longrightarrow> live pt' x \<and> entry_at pt' x = entry_at pt x) \<and>
     pt_entry_generation pt \<le> pt_entry_generation pt' \<and>
     (\<forall>rest. counted rest pt gl \<longrightarrow> counted rest pt' gl') \<and>
     gl_clock gl' = gl_clock gl \<and> gl_dirty_marker_entries gl' = gl_dirty_marker_entries gl \<and>
     gl_dirty_marker_highwater gl' = gl_dirty_marker_highwater gl"

lemma revoked_refl [simp]: "revoked e e"
  by (simp add: revoked_def)

lemma revoked_trans: "revoked a b \<Longrightarrow> revoked b c \<Longrightarrow> revoked a c"
  by (auto simp: revoked_def)

lemma revoked_same:
  "revoked e e' \<Longrightarrow> ce_block_ref e' = ce_block_ref e" "revoked e e' \<Longrightarrow> ce_key_len e' = ce_key_len e"
  "revoked e e' \<Longrightarrow> ce_block_len e' = ce_block_len e" "revoked e e' \<Longrightarrow> ce_value_len e' = ce_value_len e"
  "revoked e e' \<Longrightarrow> ce_dirty_writers e' = ce_dirty_writers e" "revoked e e' \<Longrightarrow> ce_last_access e' = ce_last_access e"
  "revoked e e' \<Longrightarrow> ce_in_use e' = ce_in_use e" "revoked e e' \<Longrightarrow> ce_valid e' = ce_valid e"
  by (auto simp: revoked_def)

lemma renewed_same: "entry_at pt' x = entry_at pt x \<Longrightarrow> renewed pt pt' x"
  by (simp add: renewed_def)

lemma renewed_trans:
  assumes "renewed a b x" "renewed b c x" "pt_entry_generation a \<le> pt_entry_generation b" "pt_entry_generation b \<le> pt_entry_generation c"
  shows "renewed a c x"
  using assms unfolding renewed_def by linarith

lemma sheds_refl: "part_ok hf X pt \<Longrightarrow> sheds hf X K pt gl pt gl"
  by (simp add: sheds_def renewed_def)

lemma shedsD:
  assumes "sheds hf X K pt gl pt' gl'"
  shows "part_ok hf X pt'" "pt_capacity pt' = pt_capacity pt" "marker_side pt' = marker_side pt"
    "live pt' x \<Longrightarrow> live pt x" "live pt' x \<Longrightarrow> revoked (entry_at pt x) (entry_at pt' x)"
    "live pt' x \<Longrightarrow> keeps_block (pt_arena pt) (pt_arena pt') (ce_block_ref (entry_at pt x))"
    "live pt x \<Longrightarrow> K x (entry_at pt x) \<Longrightarrow> live pt' x" "live pt x \<Longrightarrow> K x (entry_at pt x) \<Longrightarrow> entry_at pt' x = entry_at pt x"
    "pt_entry_generation pt \<le> pt_entry_generation pt'"
    "counted rest pt gl \<Longrightarrow> counted rest pt' gl'" "gl_clock gl' = gl_clock gl"
    "gl_dirty_marker_entries gl' = gl_dirty_marker_entries gl" "gl_dirty_marker_highwater gl' = gl_dirty_marker_highwater gl"
    "live pt' x \<Longrightarrow> renewed pt pt' x"
  using assms unfolding sheds_def by simp_all

lemma sheds_trans:
  assumes a: "sheds hf X K pt gl pt1 gl1" and b: "sheds hf X' K pt1 gl1 pt2 gl2"
  shows "sheds hf X' K pt gl pt2 gl2"
  unfolding sheds_def
proof (intro conjI allI impI ballI)
  fix x assume 2: "live pt2 x"
  note 1 = shedsD(4)[OF b 2]
  show "live pt x" by (rule shedsD(4)[OF a 1])
  show "revoked (entry_at pt x) (entry_at pt2 x)" by (rule revoked_trans[OF shedsD(5)[OF a 1] shedsD(5)[OF b 2]])
  show "keeps_block (pt_arena pt) (pt_arena pt2) (ce_block_ref (entry_at pt x))"
    by (rule keeps_block_trans[OF shedsD(6)[OF a 1] shedsD(6)[OF b 2, unfolded revoked_same(1)[OF shedsD(5)[OF a 1]]]])
  show "renewed pt pt2 x" by (rule renewed_trans[OF shedsD(14)[OF a 1] shedsD(14)[OF b 2] shedsD(9)[OF a] shedsD(9)[OF b]])
next
  fix x assume x: "live pt x" "K x (entry_at pt x)"
  note 1 = shedsD(7)[OF a x] shedsD(8)[OF a x]
  have k: "K x (entry_at pt1 x)" using x(2) 1(2) by simp
  show "live pt2 x" by (rule shedsD(7)[OF b 1(1) k])
  show "entry_at pt2 x = entry_at pt x" using shedsD(8)[OF b 1(1) k] 1(2) by simp
next
  fix rest assume "counted rest pt gl"
  then show "counted rest pt2 gl2" by (rule shedsD(10)[OF b, OF shedsD(10)[OF a]])
qed (use shedsD(1-3,9,11-13)[OF a] shedsD(1-3,9,11-13)[OF b] in simp_all)

lemma sheds_weaken:
  assumes "sheds hf X K pt gl pt' gl'" "\<And>x. live pt x \<Longrightarrow> K' x (entry_at pt x) \<Longrightarrow> K x (entry_at pt x)"
  shows "sheds hf X K' pt gl pt' gl'"
  using assms unfolding sheds_def by blast

text \<open>Survivors keep identity and bytes.\<close>

lemma sheds_keeps:
  assumes "sheds hf X' K pt gl pt' gl'" "part_ok hf X pt" "live pt' x"
  shows "ident pt' (entry_at pt' x) = ident pt (entry_at pt x)" "block_bytes pt' (entry_at pt' x) = block_bytes pt (entry_at pt x)"
    "live pt x"
proof -
  have s: "live pt x" "revoked (entry_at pt x) (entry_at pt' x)"
    "keeps_block (pt_arena pt) (pt_arena pt') (ce_block_ref (entry_at pt x))"
    using assms(1,3) unfolding sheds_def by blast+
  show "live pt x" by (rule s(1))
  obtain M where M: "blocks_ok X M pt" "entries_ok hf pt" using assms(2) by (auto simp: part_ok_def)
  define e where "e = entry_at pt x"
  have le: "ce_key_len e \<le> ref_bytes (pt_arena pt) (ce_block_ref e)" "ce_block_len e \<le> ref_bytes (pt_arena pt) (ce_block_ref e)"
    using block_of_live(2)[OF M s(1)] M(2) s(1) unfolding entries_ok_def entry_shape_def e_def by force+
  note k = s(3)[folded e_def]
  have i: "ident pt' e' = ident pt' e" "block_bytes pt' e' = block_bytes pt' e" if "revoked e e'" for e'
    using that by (auto simp: revoked_def ident_def block_bytes_def)
  show "ident pt' (entry_at pt' x) = ident pt (entry_at pt x)" "block_bytes pt' (entry_at pt' x) = block_bytes pt (entry_at pt x)"
    using i[OF s(2)[folded e_def]] keeps_load[OF k le(1)] keeps_load[OF k le(2)]
    unfolding ident_def block_bytes_def e_def by auto
qed

subsection \<open>Removal\<close>

lemma sheds_gone:
  assumes ok: "part_ok hf X pt'" and O: "only_entry eid pt pt'" "\<not> live pt' eid"
    and f: "marker_side pt' = marker_side pt" "pt_entry_generation pt' = pt_entry_generation pt"
      "pt_entry_count pt' = pt_entry_count pt - 1" "0 < pt_entry_count pt"
  shows "sheds hf X (\<lambda>x e. x \<noteq> eid) pt gl pt' (release_cache_entry gl)"
  unfolding sheds_def
proof (intro conjI allI impI ballI)
  fix x assume x: "live pt' x"
  then have ne: "x \<noteq> eid" using O(2) by blast
  note D = only_entryD[OF O(1) ne]
  show "live pt x" using D(1) x by blast
  then show "revoked (entry_at pt x) (entry_at pt' x)" "keeps_block (pt_arena pt) (pt_arena pt') (ce_block_ref (entry_at pt x))"
    "renewed pt pt' x"
    using D(3,4) by (simp_all add: renewed_same)
next
  fix rest assume "counted rest pt gl"
  then have "gl_cache_entry_count gl = rest + pt_entry_count pt" "rest + pt_entry_count pt < 2 ^ 64" by (auto simp: counted_def)
  moreover from this have "u64_sub (gl_cache_entry_count gl) 1 = gl_cache_entry_count gl - 1"
    using f(4) by (intro u64_sub_exact) simp_all
  ultimately show "counted rest pt' (release_cache_entry gl)"
    using f(3,4) unfolding counted_def release_cache_entry_def by simp
next
  fix x assume "live pt x" "x \<noteq> eid"
  then show "live pt' x" "entry_at pt' x = entry_at pt x" using only_entryD(1,3)[OF O(1), of x] by blast+
next
  show "pt_capacity pt' = pt_capacity pt" using O(1) by (simp add: only_entry_def)
qed (use ok f(1,2) in \<open>simp_all add: release_cache_entry_def\<close>)

lemma remove_spec:
  assumes ok: "part_ok hf X pt" and eid: "live pt eid"
  obtains pt' where "cache_entry_remove_locked eid pt gl = (Inr True, pt', release_cache_entry gl)"
    "sheds hf X (\<lambda>x e. x \<noteq> eid) pt gl pt' (release_cache_entry gl)" "entry_ids pt' = entry_ids pt - {eid}"
    "pt_eviction_bucket_cursor pt' = pt_eviction_bucket_cursor pt"
proof -
  define e where "e = entry_at pt eid"
  define q where "q = (blank_entry_query pt)\<lparr>eq_hash := ce_key_hash e, eq_expected_id := eid\<rparr>"
  obtain M where M: "blocks_ok X M pt" "entries_ok hf pt" "indexed (entry_ids pt) pt" "freelist_ok pt" using ok by (auto simp: part_ok_def)
  have rng: "eid \<noteq> 0" "eid \<le> pt_capacity pt" "ce_in_use e" using eid by (auto simp: live_def e_def)
  have v: "pglc_partition_index_valid pt False" "pt_capacity pt \<le> 16777216" using M(3) by (auto simp: indexed_def)
  have blk: "cache_entry_block pt e \<noteq> None" using block_of_live(1)[OF M(1,2) eid] by (simp add: e_def)
  have hd: "pt_free_entry_head pt \<le> pt_capacity pt"
    using M(4) chain_head by (fastforce simp: freelist_ok_def)
  have q: "eq_partition q = pt" "eq_expected_id q = eid" by (simp_all add: q_def blank_entry_query_def)
  have hq: "entry_hash_of q eid = ce_key_hash e" by (simp add: entry_hash_of_def q e_def)
  have ex: "\<exists>x \<in> entry_ids pt. entry_hash_of q x = ce_key_hash e \<and> x = eq_expected_id q"
    using eid hq q(2) by (auto simp: entry_ids_def)
  obtain ix where ix: "pglc_index_remove (pt_index pt) (ce_key_hash e) cache_entry_hash_by_id cache_entry_matches_id q = (eid, ix, q)"
    "index_ok ix (entry_hash_of q) (entry_ids pt - {eid})" "bucket_count ix = bucket_count (pt_index pt)"
    using entry_by_id.remove_served[OF part_served(2)[OF ok q(1)], of "ce_key_hash e", unfolded if_P[OF ex]] q(2) by auto
  have Me: "M (ce_block_ref e) = Some (ce_block_len e)" and rel: "arena_rel (pt_arena pt) M"
    using M(1) eid by (auto simp: blocks_ok_def e_def)
  obtain a where a: "pglc_arena_free (pt_arena pt) (ce_block_ref e) (ce_block_len e) = (a, True)"
    "arena_rel a (M(ce_block_ref e := None))" "\<And>x. x \<in> dom M \<Longrightarrow> x \<noteq> ce_block_ref e \<Longrightarrow> keeps_block (pt_arena pt) a x"
    using free_spec[OF rel Me] by metis
  define e' where "e' = e\<lparr>ce_in_use := False, ce_valid := False, ce_loading := False, ce_dirty_writers := 0,
    ce_key_len := 0, ce_value_len := 0, ce_block_len := 0, ce_block_ref := PGLC_ARENA_NO_BLOCK,
    ce_free_next := pt_free_entry_head pt\<rparr>"
  define p where "p = (set_entry eid e' (pt\<lparr>pt_index := ix, pt_arena := a\<rparr>))\<lparr>pt_free_entry_head := eid,
    pt_entry_count := u32_sub (pt_entry_count pt) 1\<rparr>"
  have p: "pt_capacity p = pt_capacity pt" "pt_arena p = a" "pt_index p = ix" "pt_free_entry_head p = eid"
    "marker_side p = marker_side pt" "pt_entry_generation p = pt_entry_generation pt"
    "pt_entries p = (pt_entries pt)[eid - 1 := e']" "pt_eviction_bucket_cursor p = pt_eviction_bucket_cursor pt"
    by (simp_all add: p_def set_entry_def marker_side_def)
  have cnt: "pt_entry_count pt = card (entry_ids pt)" "0 < card (entry_ids pt)" "card (entry_ids pt) \<le> pt_capacity pt"
    using M(4) eid finite_entry_ids[of pt] card_mono[OF _ entry_ids_subset[of pt]] by (auto simp: freelist_ok_def card_gt_0_iff entry_ids_def)
  have pc: "pt_entry_count p = pt_entry_count pt - 1" using cnt v(2) by (simp add: p_def width_simps)
  have at: "entry_at p eid = e'" "x \<noteq> 0 \<Longrightarrow> x \<noteq> eid \<Longrightarrow> entry_at p x = entry_at pt x" for x
    using rng unfolding p(7) by (auto simp: nth_list_update)
  have dead: "\<not> live p eid" using at(1) by (simp add: live_def e'_def)
  have others: "ce_block_ref (entry_at pt x) \<noteq> ce_block_ref e \<and> ce_block_ref (entry_at pt x) \<in> dom M" if "live pt x" "x \<noteq> eid" for x
    using M(1) that eid unfolding blocks_ok_def inj_on_def e_def entry_ids_def by blast
  have O: "only_entry eid pt p" unfolding only_entry_def using p(1,2) at(2) a(3) others by simp
  have H: "entry_hash_of q = (\<lambda>x. ce_key_hash (entry_at pt x))" by (simp add: entry_hash_of_def q fun_eq_iff)
  have pok: "part_ok hf X p" "entry_ids p = entry_ids pt - {eid}"
    using remove_part_ok[OF M(2-4) eid M(1) O dead p(4) _ pc, folded e_def, unfolded p(2,3), OF _ a(2) ix(2)[unfolded H] ix(3)] at(1)
    by (auto simp: e'_def)
  obtain p' where p': "p' = (if pglc_index_needs_rebuild (pt_index p) then snd (rebuild_cache_index p) else p)" by blast
  obtain ix' where ix': "p' = p\<lparr>pt_index := ix'\<rparr>" "part_ok hf X p'"
  proof (cases "pglc_index_needs_rebuild (pt_index p)")
    case True
    then show ?thesis using that rebuild_part[OF pok(1)] unfolding p' by auto
  next
    case False
    then show ?thesis using that[of "pt_index p"] pok(1) unfolding p' by simp
  qed
  have f: "pt_entries p' = pt_entries p" "pt_arena p' = a" "live p' = live p" "entry_ids p' = entry_ids p" "pt_entry_count p' = pt_entry_count p"
    using ix'(1) p(2) by (auto simp: live_def entry_ids_def fun_eq_iff)
  have "cache_entry_remove_locked eid pt gl = (Inr True, p', release_cache_entry gl)"
    using rng v(1) hd blk ix(1) a(1) unfolding cache_entry_remove_locked_def Let_def e_def[symmetric] q_def[symmetric] p' p_def
    by (simp add: e'_def)
  moreover have "sheds hf X (\<lambda>x e. x \<noteq> eid) pt gl p' (release_cache_entry gl)"
  proof (rule sheds_gone[OF ix'(2)])
    show "only_entry eid pt p'" using O f(1-3) p(2) unfolding only_entry_def by simp
    show "\<not> live p' eid" using dead f(3) by simp
  qed (use ix'(1) p pc cnt f in simp_all)
  moreover have "pt_eviction_bucket_cursor p' = pt_eviction_bucket_cursor pt" using ix'(1) p(8) by simp
  ultimately show thesis using that pok(2) f(4) by simp
qed

subsection \<open>Changes the invariant does not see\<close>

definition core where
  "core e = (ce_in_use e, ce_key_hash e, ce_database_oid e, ce_relation_oid e, ce_relation_slot e, ce_slot_generation e,
     ce_block_ref e, ce_block_len e, ce_key_len e, ce_value_len e, ce_negative e, ce_free_next e)"

lemma core_fields:
  assumes "core e' = core e"
  shows "ce_in_use e' = ce_in_use e" "ce_key_hash e' = ce_key_hash e" "ce_block_ref e' = ce_block_ref e"
    "ce_block_len e' = ce_block_len e" "entry_shape e' = entry_shape e" "ident pt e' = ident pt e" "ce_free_next e' = ce_free_next e"
  using assms by (simp_all add: core_def entry_shape_def ident_def)

lemma part_ok_core:
  assumes ok: "part_ok hf X pt" and core: "map core (pt_entries pt') = map core (pt_entries pt)"
    and f: "pt_arena pt' = pt_arena pt" "pt_index pt' = pt_index pt"
      "pt_free_entry_head pt' = pt_free_entry_head pt" "pt_entry_count pt' = pt_entry_count pt"
  shows "part_ok hf X pt'" "live pt' = live pt" "entry_ids pt' = entry_ids pt"
proof -
  have cap: "pt_capacity pt' = pt_capacity pt" using arg_cong[OF core, of length] by simp
  have c: "core (entry_at pt' x) = core (entry_at pt x)" if "x \<noteq> 0" "x \<le> pt_capacity pt" for x
    using arg_cong[OF core, of "\<lambda>l. l ! (x - 1)"] that cap by simp
  show lv: "live pt' = live pt" unfolding fun_eq_iff live_def using core_fields(1)[OF c] cap by auto
  then show ids: "entry_ids pt' = entry_ids pt" by (simp add: entry_ids_def)
  have c': "core (entry_at pt' x) = core (entry_at pt x)" if "live pt x" for x using c that by (auto simp: live_def)
  have c'': "core (entry_at pt' x) = core (entry_at pt x)" if "x \<in> entry_ids pt" for x using c' that by (auto simp: entry_ids_def)
  have id: "ident pt' = ident pt" using f(1) by (simp add: ident_def fun_eq_iff)
  obtain M where M: "blocks_ok X M pt" "entries_ok hf pt" "indexed (entry_ids pt) pt" "freelist_ok pt" using ok by (auto simp: part_ok_def)
  have "blocks_ok X M pt'"
  proof -
    define b where "b x = ce_block_ref (entry_at pt x)" for x
    define b' where "b' x = ce_block_ref (entry_at pt' x)" for x
    have b: "b' x = b x" if "x \<in> entry_ids pt" for x using core_fields(3)[OF c''[OF that]] by (simp add: b_def b'_def)
    have l: "ce_block_len (entry_at pt' x) = ce_block_len (entry_at pt x)" "b' x = b x" if "live pt x" for x
      using core_fields(4)[OF c'[OF that]] b that by (simp_all add: entry_ids_def)
    have "b' ` entry_ids pt = b ` entry_ids pt" "inj_on b' (entry_ids pt) = inj_on b (entry_ids pt)"
      using b by (auto cong: image_cong inj_on_cong)
    then show ?thesis using M(1) l
      unfolding blocks_ok_def lv ids f(1) b_def[symmetric] b'_def[symmetric] by simp
  qed
  moreover have "entries_ok hf pt'"
  proof -
    define i where "i x = ident pt (entry_at pt x)" for x
    define i' where "i' x = ident pt (entry_at pt' x)" for x
    have "i' x = i x" if "x \<in> entry_ids pt" for x using core_fields(6)[OF c''[OF that]] by (simp add: i_def i'_def)
    then have "inj_on i' (entry_ids pt) = inj_on i (entry_ids pt)" by (rule inj_on_cong)
    moreover have "entry_shape (entry_at pt' x) = entry_shape (entry_at pt x)" "ce_key_hash (entry_at pt' x) = ce_key_hash (entry_at pt x)"
      "i' x = i x" if "live pt x" for x using core_fields(2,5,6)[OF c'[OF that]] by (simp_all add: i_def i'_def)
    ultimately show ?thesis using M(2) unfolding entries_ok_def lv ids id i_def[symmetric] i'_def[symmetric] by simp
  qed
  moreover have "indexed (entry_ids pt') pt'"
  proof -
    have "index_ok (pt_index pt) (\<lambda>x. ce_key_hash (entry_at pt' x)) (entry_ids pt)"
      by (rule index_ok_cong[of _ "\<lambda>x. ce_key_hash (entry_at pt x)"]) (use M(3) core_fields(2)[OF c''] in \<open>simp_all add: indexed_def\<close>)
    then show ?thesis using M(3) cap f(2) unfolding indexed_def ids pglc_partition_index_valid_def
      by (auto split: option.splits)
  qed
  moreover have "freelist_ok pt'"
  proof -
    have "chain_ok (\<lambda>x. ce_free_next (entry_at pt x)) (pt_free_entry_head pt) ({1..pt_capacity pt} - entry_ids pt)"
      using M(4) by (simp add: freelist_ok_def)
    then have "chain_ok (\<lambda>x. ce_free_next (entry_at pt' x)) (pt_free_entry_head pt) ({1..pt_capacity pt} - entry_ids pt)"
      by (rule chain_ok_cong) (rule core_fields(7)[OF c], auto)
    then show ?thesis using M(4) unfolding freelist_ok_def ids cap f by blast
  qed
  ultimately show "part_ok hf X pt'" unfolding part_ok_def by blast
qed

text \<open>A change of one entry that keeps its core.\<close>

lemma part_ok_set:
  assumes "part_ok hf X pt" "core e = core (entry_at pt eid)"
  shows "part_ok hf X (set_entry eid e pt)" "live (set_entry eid e pt) = live pt" "entry_ids (set_entry eid e pt) = entry_ids pt"
proof -
  have "map core (pt_entries (set_entry eid e pt)) = map core (pt_entries pt)"
    using assms(2) by (cases "eid - 1 < pt_capacity pt") (simp_all add: set_entry_def map_update list_update_same_conv list_update_beyond)
  from part_ok_core[OF assms(1) this]
  show "part_ok hf X (set_entry eid e pt)" "live (set_entry eid e pt) = live pt" "entry_ids (set_entry eid e pt) = entry_ids pt"
    by simp_all
qed

subsection \<open>Eviction\<close>

definition protected :: "settings \<Rightarrow> int \<Rightarrow> nat \<Rightarrow> nat \<Rightarrow> cache_entry \<Rightarrow> bool" where
  "protected s now ex x e \<longleftrightarrow> x = ex \<or> ce_dirty_writers e \<noteq> 0 \<or>
     ce_loading e \<and> \<not> TimestampDifferenceExceeds (ce_load_started e) now (cache_load_lease_ms s)"

lemma load_is_active_spec:
  assumes ok: "part_ok hf X pt" and eid: "live pt eid" and run: "cache_load_is_active_locked s now eid pt = (r, pt')"
    and K: "K eid (entry_at pt eid) \<longrightarrow> \<not> ce_loading (entry_at pt eid) \<or>
      \<not> TimestampDifferenceExceeds (ce_load_started (entry_at pt eid)) now (cache_load_lease_ms s)"
  shows "sheds hf X K pt gl pt' gl" "live pt' = live pt"
    "pt_eviction_bucket_cursor pt' = pt_eviction_bucket_cursor pt"
    "case r of Inl err \<Rightarrow> err = Generation_Overflow
     | Inr b \<Rightarrow> b = ce_loading (entry_at pt' eid) \<and> (b \<longrightarrow> protected s now ex eid (entry_at pt eid)) \<and>
         (\<not> b \<longrightarrow> protected s now ex eid (entry_at pt eid) \<longrightarrow> eid = ex \<or> ce_dirty_writers (entry_at pt eid) \<noteq> 0)"
proof -
  define e where "e = entry_at pt eid"
  have rng: "eid \<noteq> 0" "eid \<le> pt_capacity pt" using eid by (auto simp: live_def)
  obtain e' g where e': "pt' = (set_entry eid e' pt)\<lparr>pt_entry_generation := g\<rparr>" "revoked e e'"
    "pt_entry_generation pt \<le> g \<and> (ce_version e' = ce_version e \<or> pt_entry_generation pt < ce_version e' \<and> ce_version e' \<le> g)"
    "K eid e \<longrightarrow> e' = e"
    "case r of Inl err \<Rightarrow> err = Generation_Overflow
     | Inr b \<Rightarrow> b = ce_loading e' \<and> (b \<longrightarrow> protected s now ex eid e) \<and>
         (\<not> b \<longrightarrow> protected s now ex eid e \<longrightarrow> eid = ex \<or> ce_dirty_writers e \<noteq> 0)"
  proof (cases "ce_loading e \<and> TimestampDifferenceExceeds (ce_load_started e) now (cache_load_lease_ms s)")
    case True
    define e1 where "e1 = e\<lparr>ce_loading := False, ce_load_id := u64 (ce_load_id e + 1)\<rparr>"
    show ?thesis
    proof (cases "pt_entry_generation pt = UINT64_MAX")
      case ov: True
      have "e1 = e\<lparr>ce_loading := False, ce_load_id := u64 (ce_load_id e + 1), ce_version := ce_version e\<rparr>"
        by (simp add: e1_def)
      then have "revoked e e1" using True unfolding revoked_def by blast
      then show ?thesis using that[of "pt_entry_generation pt" e1] run True ov K
        unfolding cache_load_is_active_locked_def next_entry_generation_def Let_def e_def[symmetric] e1_def[symmetric]
        by (auto simp: e1_def set_entry_def)
    next
      case ng: False
      define v where "v = pt_entry_generation pt + 1"
      have "revoked e (e1\<lparr>ce_version := v\<rparr>)" using True unfolding revoked_def e1_def by auto
      then show ?thesis using that[of v "e1\<lparr>ce_version := v\<rparr>"] run True ng K
        unfolding cache_load_is_active_locked_def next_entry_generation_def Let_def e_def[symmetric] e1_def[symmetric] v_def[symmetric]
        by (auto simp: e1_def set_entry_def v_def protected_def)
    qed
  next
    case False
    have s: "pt = (set_entry eid e pt)\<lparr>pt_entry_generation := pt_entry_generation pt\<rparr>" by (simp add: e_def set_entry_def)
    show ?thesis using that[of "pt_entry_generation pt" e] s run False
      unfolding cache_load_is_active_locked_def Let_def e_def[symmetric] by (auto simp: protected_def split: if_splits)
  qed
  have ce: "core e' = core (entry_at pt eid)" using e'(2) by (auto simp: revoked_def core_def e_def)
  note po = part_ok_set[OF ok ce]
  have ok': "part_ok hf X pt'" by (rule part_ok_cong[OF po(1)]) (simp_all add: e'(1))
  show lv: "live pt' = live pt" using po(2) unfolding e'(1) by (simp add: live_def fun_eq_iff)
  have at: "entry_at pt' eid = e'" "x \<noteq> eid \<Longrightarrow> x \<noteq> 0 \<Longrightarrow> entry_at pt' x = entry_at pt x" for x
    using rng by (auto simp: e'(1) set_entry_def nth_list_update)
  have fr: "pt_arena pt' = pt_arena pt" "pt_entry_count pt' = pt_entry_count pt" by (simp_all add: e'(1))
  have same: "revoked (entry_at pt x) (entry_at pt' x) \<and> (K x (entry_at pt x) \<longrightarrow> entry_at pt' x = entry_at pt x) \<and> renewed pt pt' x"
    if "live pt x" for x
    using at e'(2,4) e'(3) that unfolding renewed_def e'(1) by (cases "x = eid") (auto simp: e_def live_def)
  show "sheds hf X K pt gl pt' gl"
    unfolding sheds_def lv counted_def fr using ok' same e'(3) by (simp add: e'(1))
  show "pt_eviction_bucket_cursor pt' = pt_eviction_bucket_cursor pt" by (simp add: e'(1))
  show "case r of Inl err \<Rightarrow> err = Generation_Overflow
     | Inr b \<Rightarrow> b = ce_loading (entry_at pt' eid) \<and> (b \<longrightarrow> protected s now ex eid (entry_at pt eid)) \<and>
         (\<not> b \<longrightarrow> protected s now ex eid (entry_at pt eid) \<longrightarrow> eid = ex \<or> ce_dirty_writers (entry_at pt eid) \<noteq> 0)"
    using e'(5) unfolding at(1) e_def .
qed

lemma sheds_globals:
  assumes "sheds hf X K pt gl pt' gl'" "gl_cache_entry_count gl'' = gl_cache_entry_count gl'" "gl_clock gl'' = gl_clock gl'"
    "gl_dirty_marker_entries gl'' = gl_dirty_marker_entries gl'" "gl_dirty_marker_highwater gl'' = gl_dirty_marker_highwater gl'"
  shows "sheds hf X K pt gl pt' gl''"
  using assms unfolding sheds_def counted_def by simp

lemma sheds_globals':
  assumes "sheds hf X K pt gl'' pt' gl'" "gl_cache_entry_count gl'' = gl_cache_entry_count gl" "gl_clock gl'' = gl_clock gl"
    "gl_dirty_marker_entries gl'' = gl_dirty_marker_entries gl" "gl_dirty_marker_highwater gl'' = gl_dirty_marker_highwater gl"
  shows "sheds hf X K pt gl pt' gl'"
  using assms unfolding sheds_def counted_def by simp

lemma add_stat_frame [simp]:
  "gl_cache_entry_count (add_stat pr c gl) = gl_cache_entry_count gl" "gl_clock (add_stat pr c gl) = gl_clock gl"
  "gl_dirty_marker_entries (add_stat pr c gl) = gl_dirty_marker_entries gl"
  "gl_dirty_marker_highwater (add_stat pr c gl) = gl_dirty_marker_highwater gl"
  by (simp_all add: add_stat_def)

lemma remove_victims_spec:
  assumes "part_ok hf X pt"
  shows "\<exists>n pt' gl'. remove_victims pr vs k pt gl = (Inr n, pt', gl') \<and>
    sheds hf X (\<lambda>x e. x \<notin> set vs) pt gl pt' gl' \<and> entry_ids pt' = entry_ids pt - set vs"
  using assms
proof (induction vs arbitrary: k pt gl)
  case Nil
  then show ?case using sheds_refl by auto
next
  case (Cons eid vs)
  show ?case
  proof (cases "live pt eid")
    case True
    obtain pt1 where r: "cache_entry_remove_locked eid pt gl = (Inr True, pt1, release_cache_entry gl)"
      "sheds hf X (\<lambda>x e. x \<noteq> eid) pt gl pt1 (release_cache_entry gl)" "entry_ids pt1 = entry_ids pt - {eid}"
      using remove_spec[OF Cons.prems True] by metis
    obtain n pt' gl' where i: "remove_victims pr vs (k + 1) pt1 (add_stat pr evictions (release_cache_entry gl)) = (Inr n, pt', gl')"
      "sheds hf X (\<lambda>x e. x \<notin> set vs) pt1 (add_stat pr evictions (release_cache_entry gl)) pt' gl'"
      "entry_ids pt' = entry_ids pt1 - set vs"
      using Cons.IH[OF shedsD(1)[OF r(2)]] by blast
    have "sheds hf X (\<lambda>x e. x \<notin> set (eid # vs)) pt gl pt' gl'"
    proof (rule sheds_trans)
      show "sheds hf X (\<lambda>x e. x \<notin> set (eid # vs)) pt gl pt1 (release_cache_entry gl)" by (rule sheds_weaken[OF r(2)]) simp
      show "sheds hf X (\<lambda>x e. x \<notin> set (eid # vs)) pt1 (release_cache_entry gl) pt' gl'"
        by (rule sheds_globals', rule sheds_weaken[OF i(2)]) simp_all
    qed
    then show ?thesis using r i by auto
  next
    case False
    then have "cache_entry_remove_locked eid pt gl = (Inr False, pt, gl)"
      unfolding cache_entry_remove_locked_def live_def Let_def by auto
    moreover obtain n pt' gl' where i: "remove_victims pr vs k pt gl = (Inr n, pt', gl')"
      "sheds hf X (\<lambda>x e. x \<notin> set vs) pt gl pt' gl'" "entry_ids pt' = entry_ids pt - set vs"
      using Cons.IH[OF Cons.prems] by blast
    moreover have "sheds hf X (\<lambda>x e. x \<notin> set (eid # vs)) pt gl pt' gl'" by (rule sheds_weaken[OF i(2)]) simp
    moreover have "eid \<notin> entry_ids pt" using False by (simp add: entry_ids_def)
    ultimately show ?thesis by auto
  qed
qed

lemma shift_candidates_set: "p < length cs \<Longrightarrow> set (shift_candidates cs p c) \<subseteq> insert c (set cs)"
proof (induction cs p c rule: shift_candidates.induct)
  case (1 cs c)
  then show ?case by (simp add: set_update_subset_insert)
next
  case (2 cs p c)
  have "set (cs[Suc p := cs ! p]) \<subseteq> set cs" using set_update_subset_insert[of cs "Suc p" "cs ! p"] 2(2) by auto
  then show ?case using 2 set_update_subset_insert[of cs "Suc p" c] by auto
qed

lemma add_candidate_set: "length cs \<le> 8 \<Longrightarrow> set (add_candidate cs c) \<subseteq> insert c (set cs)"
  using shift_candidates_set[of "length cs" "cs @ [c]" c] shift_candidates_set[of 7 cs c]
  unfolding add_candidate_def by auto

lemma shift_candidates_length [simp]: "length (shift_candidates cs p c) = length cs"
  by (induction cs p c rule: shift_candidates.induct) auto

lemma add_candidate_length: "length cs \<le> 8 \<Longrightarrow> length (add_candidate cs c) \<le> 8"
  by (simp add: add_candidate_def)

definition evictable :: "settings \<Rightarrow> int \<Rightarrow> nat \<Rightarrow> partition \<Rightarrow> nat \<Rightarrow> bool" where
  "evictable s now ex pt x \<longleftrightarrow> live pt x \<and> \<not> protected s now ex x (entry_at pt x)"

definition picked :: "nat list \<Rightarrow> (nat \<times> nat) list \<Rightarrow> nat set" where
  "picked vs cs = set vs \<union> snd ` set cs"

definition scanned where
  "scanned hf X s now ex pt gl pt' \<longleftrightarrow> sheds hf X (protected s now ex) pt gl pt' gl \<and> live pt' = live pt \<and>
     pt_eviction_bucket_cursor pt' = pt_eviction_bucket_cursor pt"

lemma scanned_trans: "scanned hf X s now ex pt gl pt1 \<Longrightarrow> scanned hf X s now ex pt1 gl pt2 \<Longrightarrow> scanned hf X s now ex pt gl pt2"
  unfolding scanned_def using sheds_trans by metis

lemma scanned_evictable: "scanned hf X s now ex pt gl pt1 \<Longrightarrow> evictable s now ex pt1 x \<Longrightarrow> evictable s now ex pt x"
  using shedsD(8)[of hf X "protected s now ex" pt gl pt1 gl x] unfolding scanned_def evictable_def by auto

lemma evict_scan_step:
  assumes ok: "part_ok hf X pt" and i: "i < pt_capacity pt" and cs: "length cs \<le> 8"
  obtains pt1 where "evict_scan s fs now rc ex (i # todo) vs cs pt = (Inl Generation_Overflow, pt1)" "scanned hf X s now ex pt gl pt1"
  | vs1 cs1 pt1 where "evict_scan s fs now rc ex (i # todo) vs cs pt = evict_scan s fs now rc ex todo vs1 cs1 pt1"
    "scanned hf X s now ex pt gl pt1" "length cs1 \<le> 8" "picked vs1 cs1 \<subseteq> picked vs cs \<union> {x. evictable s now ex pt x}"
proof (cases "\<not> ce_in_use (pt_entries pt ! i) \<or> i + 1 = ex \<or> ce_dirty_writers (pt_entries pt ! i) \<noteq> 0")
  case True
  then show thesis using that(2)[of vs cs pt] cs sheds_refl[OF ok] by (auto simp: scanned_def)
next
  case False
  define e where "e = pt_entries pt ! i"
  have lv: "live pt (i + 1)" "entry_at pt (i + 1) = e" using False i by (auto simp: live_def e_def)
  obtain a pt1 where a: "cache_load_is_active_locked s now (i + 1) pt = (a, pt1)" by fastforce
  have K: "protected s now ex (i + 1) (entry_at pt (i + 1)) \<longrightarrow> \<not> ce_loading (entry_at pt (i + 1)) \<or>
      \<not> TimestampDifferenceExceeds (ce_load_started (entry_at pt (i + 1))) now (cache_load_lease_ms s)"
    using False unfolding lv(2) e_def[symmetric] protected_def by auto
  note L = load_is_active_spec(1)[OF ok lv(1) a, where K = "protected s now ex" and gl = gl, OF K]
    load_is_active_spec(2,3)[OF ok lv(1) a, where K = "protected s now ex", OF K]
    load_is_active_spec(4)[OF ok lv(1) a, where K = "protected s now ex" and ex = ex, OF K]
  have sc: "scanned hf X s now ex pt gl pt1" using L(1-3) by (simp add: scanned_def)
  consider "a = Inl Generation_Overflow" | "a = Inr True" | "a = Inr False" using L(4) by (cases a) auto
  then show thesis
  proof cases
    case 1
    then show thesis using that(1)[of pt1] sc a False by (simp add: Let_def)
  next
    case 2
    then show thesis using that(2)[of vs cs pt1] sc cs a False by (auto simp: Let_def)
  next
    case 3
    have ev: "evictable s now ex pt (i + 1)"
      using L(4) lv 3 False unfolding evictable_def lv(2) e_def[symmetric] by auto
    let ?skip = "rc \<noteq> 0 \<and> pglc_arena_block_class (pt_arena pt1) (ce_block_ref e) \<noteq> rc"
    let ?stale = "\<not> cache_entry_is_current_slot_locked s (\<lambda>_. fs) (pt_entries pt1 ! i)"
    have run: "evict_scan s fs now rc ex (i # todo) vs cs pt =
      (if ?skip then evict_scan s fs now rc ex todo vs cs pt1
       else if ?stale then evict_scan s fs now rc ex todo (if length vs < 8 then vs @ [i + 1] else vs) cs pt1
       else evict_scan s fs now rc ex todo vs (add_candidate cs (ce_last_access e, i + 1)) pt1)"
      using False a 3 unfolding e_def by (simp add: Let_def)
    have stale: "picked (if length vs < 8 then vs @ [i + 1] else vs) cs \<subseteq> picked vs cs \<union> {x. evictable s now ex pt x}"
      using ev by (auto simp: picked_def)
    have lru: "picked vs (add_candidate cs (ce_last_access e, i + 1)) \<subseteq> picked vs cs \<union> {x. evictable s now ex pt x}"
      using ev add_candidate_set[OF cs, of "(ce_last_access e, i + 1)"] by (fastforce simp: picked_def)
    consider ?skip | "\<not> ?skip" ?stale | "\<not> ?skip" "\<not> ?stale" by blast
    then show thesis
    proof cases
      case 1
      show ?thesis by (rule that(2)[OF run[unfolded if_P[OF 1]] sc cs]) simp
    next
      case 2
      show ?thesis by (rule that(2)[OF run[unfolded if_not_P[OF 2(1)] if_P[OF 2(2)]] sc cs stale])
    next
      case 3
      show ?thesis
        by (rule that(2)[OF run[unfolded if_not_P[OF 3(1)] if_not_P[OF 3(2)]] sc add_candidate_length[OF cs] lru])
    qed
  qed
qed

lemma evict_scan_spec:
  assumes "evict_scan s fs now rc ex is vs cs pt = (r, pt')" "part_ok hf X pt" "\<forall>i \<in> set is. i < pt_capacity pt" "length cs \<le> 8"
  shows "scanned hf X s now ex pt gl pt' \<and> (case r of Inl err \<Rightarrow> err = Generation_Overflow
     | Inr (vs', cs') \<Rightarrow> picked vs' cs' \<subseteq> picked vs cs \<union> {x. evictable s now ex pt x})"
  using assms
proof (induction "is" arbitrary: vs cs pt)
  case Nil
  then show ?case using sheds_refl by (auto simp: scanned_def)
next
  case (Cons i "is")
  have i: "i < pt_capacity pt" using Cons.prems(3) by simp
  show ?case
  proof (rule evict_scan_step[OF Cons.prems(2) i Cons.prems(4), where s = s and fs = fs and now = now and rc = rc and ex = ex
      and todo = "is" and vs = vs and gl = gl])
    fix pt1 assume "evict_scan s fs now rc ex (i # is) vs cs pt = (Inl Generation_Overflow, pt1)" "scanned hf X s now ex pt gl pt1"
    then show ?thesis using Cons.prems(1) by auto
  next
    fix vs1 cs1 pt1
    assume st: "evict_scan s fs now rc ex (i # is) vs cs pt = evict_scan s fs now rc ex is vs1 cs1 pt1"
      "scanned hf X s now ex pt gl pt1" "length cs1 \<le> 8" "picked vs1 cs1 \<subseteq> picked vs cs \<union> {x. evictable s now ex pt x}"
    have ok1: "part_ok hf X pt1" "\<forall>i \<in> set is. i < pt_capacity pt1"
      using st(2) shedsD(1,2)[of hf X "protected s now ex" pt gl pt1 gl] Cons.prems(3) by (auto simp: scanned_def)
    note IH = Cons.IH[OF _ ok1 st(3)]
    have run: "evict_scan s fs now rc ex is vs1 cs1 pt1 = (r, pt')" using Cons.prems(1) st(1) by (simp only:)
    have sub: "{x. evictable s now ex pt1 x} \<subseteq> {x. evictable s now ex pt x}" using scanned_evictable[OF st(2)] by blast
    show ?thesis
    proof (cases r)
      case (Inl err)
      then show ?thesis using IH[OF run] scanned_trans[OF st(2)] by auto
    next
      case (Inr c)
      then obtain vs' cs' where c: "r = Inr (vs', cs')" by (cases c) auto
      have "picked vs' cs' \<subseteq> picked vs1 cs1 \<union> {x. evictable s now ex pt1 x}" using IH[OF run] c by auto
      then have "picked vs' cs' \<subseteq> picked vs cs \<union> {x. evictable s now ex pt x}" using sub st(4) by blast
      then show ?thesis using IH[OF run] scanned_trans[OF st(2)] c by auto
    qed
  qed
qed

lemma evict_spec:
  assumes ok: "part_ok hf X pt" and run: "evict_cache_entries pr s fs now rc ex pt gl = (r, pt', gl')"
  shows "sheds hf X (protected s now ex) pt gl pt' gl'" "case r of Inl err \<Rightarrow> err = Generation_Overflow | Inr n \<Rightarrow> True"
proof -
  define idx where "idx = map (\<lambda>scanned. u32 (pt_eviction_bucket_cursor pt + scanned) mod pt_capacity pt) [0..<min (pt_capacity pt) 64]"
  have idx: "\<forall>i \<in> set idx. i < pt_capacity pt" by (auto simp: idx_def intro!: mod_less_divisor)
  obtain a pt1 where sc: "evict_scan s fs now rc ex idx [] [] pt = (a, pt1)" by fastforce
  note S = evict_scan_spec[OF sc ok idx, of gl, simplified]
  have sh: "sheds hf X (protected s now ex) pt gl pt1 gl" using S by (simp add: scanned_def)
  have "sheds hf X (protected s now ex) pt gl pt' gl' \<and> (case r of Inl err \<Rightarrow> err = Generation_Overflow | Inr n \<Rightarrow> True)"
  proof (cases a)
    case (Inl err)
    then show ?thesis using run sc S sh unfolding evict_cache_entries_def Let_def idx_def[symmetric] by auto
  next
    case (Inr c)
    then obtain vs cs where c: "a = Inr (vs, cs)" by (cases c) auto
    define vics where "vics = vs @ take (8 - length vs) (map snd cs)"
    obtain cur where rv: "remove_victims pr vics 0 (pt1\<lparr>pt_eviction_bucket_cursor := cur\<rparr>) gl = (r, pt', gl')"
      using run sc c unfolding evict_cache_entries_def Let_def idx_def[symmetric] vics_def by auto
    define pt2 where "pt2 = pt1\<lparr>pt_eviction_bucket_cursor := cur\<rparr>"
    have lv2: "live pt2 = live pt1" by (simp add: pt2_def live_def fun_eq_iff)
    have ok2: "part_ok hf X pt2" by (rule part_ok_cong[OF shedsD(1)[OF sh]]) (simp_all add: pt2_def)
    have s2: "sheds hf X (protected s now ex) pt gl pt2 gl"
    proof -
      have c: "counted rest pt2 gl = counted rest pt1 gl" for rest by (simp add: pt2_def counted_def)
      show ?thesis using sh ok2 unfolding sheds_def lv2 c renewed_def by (simp add: pt2_def)
    qed
    have vic: "evictable s now ex pt x" if "x \<in> set vics" for x
      using S c that in_set_takeD unfolding picked_def vics_def by fastforce
    obtain n where n: "r = Inr n" "sheds hf X (\<lambda>x e. x \<notin> set vics) pt2 gl pt' gl'"
      using remove_victims_spec[OF ok2, of pr vics 0 gl] rv unfolding pt2_def[symmetric] by auto
    define K where "K x e \<longleftrightarrow> protected s now ex x e \<and> x \<notin> set vics" for x e
    have "sheds hf X K pt gl pt' gl'"
      by (rule sheds_trans[OF sheds_weaken[OF s2] sheds_weaken[OF n(2)]]) (simp_all add: K_def)
    then have "sheds hf X (protected s now ex) pt gl pt' gl'"
      by (rule sheds_weaken) (use vic in \<open>auto simp: K_def evictable_def\<close>)
    then show ?thesis using n(1) by simp
  qed
  then show "sheds hf X (protected s now ex) pt gl pt' gl'" "case r of Inl err \<Rightarrow> err = Generation_Overflow | Inr n \<Rightarrow> True" by auto
qed

subsection \<open>Allocation with eviction\<close>

text \<open>What every eviction of an operation protects: the excluded entry and dirty entries.\<close>

definition spared :: "nat \<Rightarrow> nat \<Rightarrow> cache_entry \<Rightarrow> bool" where
  "spared ex x e \<longleftrightarrow> x = ex \<or> ce_dirty_writers e \<noteq> 0"

lemma evict_spared:
  assumes "part_ok hf X pt" "evict_cache_entries pr s fs now rc ex pt gl = (r, pt', gl')"
  shows "sheds hf X (spared ex) pt gl pt' gl'" "case r of Inl err \<Rightarrow> err = Generation_Overflow | Inr n \<Rightarrow> True"
  using sheds_weaken[OF evict_spec(1)[OF assms], of "spared ex"] evict_spec(2)[OF assms] by (auto simp: spared_def protected_def)

lemma sheds_arena:
  assumes ok: "part_ok hf X' (pt\<lparr>pt_arena := a\<rparr>)" and k: "\<And>x. live pt x \<Longrightarrow> keeps_block (pt_arena pt) a (ce_block_ref (entry_at pt x))"
  shows "sheds hf X' K pt gl (pt\<lparr>pt_arena := a\<rparr>) gl"
  using assms unfolding sheds_def counted_def by (simp add: live_def renewed_same)

lemma arena_part_ok:
  assumes ok: "part_ok hf X pt" "blocks_ok X M pt" and a: "arena_rel a M'" "dom M' = dom M - dom X \<union> dom X'"
    "\<And>x. x \<in> dom M \<Longrightarrow> x \<notin> dom X \<Longrightarrow> M' x = M x \<and> keeps_block (pt_arena pt) a x"
    "\<And>r n. X' r = Some n \<Longrightarrow> M' r = Some n" "dom X' \<inter> (dom M - dom X) = {}"
  shows "part_ok hf X' (pt\<lparr>pt_arena := a\<rparr>)" "sheds hf X' K pt gl (pt\<lparr>pt_arena := a\<rparr>) gl"
proof -
  define pt' where "pt' = pt\<lparr>pt_arena := a\<rparr>"
  have P: "entries_ok hf pt" "indexed (entry_ids pt) pt" "freelist_ok pt" using ok by (auto simp: part_ok_def)
  have lv: "live pt' = live pt" "entry_ids pt' = entry_ids pt" by (auto simp: pt'_def live_def entry_ids_def fun_eq_iff)
  have refs: "dom M - dom X = (\<lambda>x. ce_block_ref (entry_at pt x)) ` entry_ids pt" using ok(2) unfolding blocks_ok_def by auto
  have ref: "ce_block_ref (entry_at pt x) \<in> dom M \<and> ce_block_ref (entry_at pt x) \<notin> dom X" if "live pt x" for x
    using that refs unfolding entry_ids_def by blast
  have O: "only_entry 0 pt pt'" unfolding only_entry_def using a(3) ref by (simp add: pt'_def)
  have d0: "\<not> live pt' 0" "entry_ids pt - {0} = entry_ids pt" by (auto simp: live_def entry_ids_def)
  have "blocks_ok X' M' pt'"
  proof (rule blocks_ok_step[OF O ok(2)])
    show "arena_rel (pt_arena pt') M'" using a(1) by (simp add: pt'_def)
    show "M' (ce_block_ref (entry_at pt x)) = M (ce_block_ref (entry_at pt x))" if "live pt x" "x \<noteq> 0" for x
      using a(3) ref[OF that(1)] by blast
  qed (use a(2,4,5) refs d0 in auto)
  moreover have "entries_ok hf pt'" by (rule entries_ok_step[OF O ok(2) P(1)]) (use d0 in auto)
  moreover have "indexed (entry_ids pt') pt'" using P(2) unfolding lv indexed_def pglc_partition_index_valid_def
    by (simp add: pt'_def split: option.splits)
  moreover have "freelist_ok pt'" using P(3) unfolding freelist_ok_def lv by (simp add: pt'_def)
  ultimately show "part_ok hf X' (pt\<lparr>pt_arena := a\<rparr>)" unfolding part_ok_def pt'_def by blast
  then show "sheds hf X' K pt gl (pt\<lparr>pt_arena := a\<rparr>) gl" by (rule sheds_arena) (use a(3) ref in blast)
qed

lemma alloc_part:
  assumes ok: "part_ok hf X pt" and run: "pglc_arena_alloc (pt_arena pt) n = (a, res)"
  shows "case res of None \<Rightarrow> a = pt_arena pt
    | Some (r, sz) \<Rightarrow> sz = pglc_arena_class_size n \<and> ref_bytes a r = sz \<and> n \<le> sz \<and> r \<notin> dom X \<and>
        sheds hf (X(r \<mapsto> n)) K pt gl (pt\<lparr>pt_arena := a\<rparr>) gl"
proof -
  obtain M where M: "blocks_ok X M pt" using ok by (auto simp: part_ok_def)
  have rel: "arena_rel (pt_arena pt) M" and X: "dom X \<subseteq> dom M" "\<And>r n. X r = Some n \<Longrightarrow> M r = Some n"
    using M by (auto simp: blocks_ok_def)
  show ?thesis
  proof (cases "pglc_arena_class_size n = 0 \<or> \<not> has_room (pt_arena pt) n")
    case True
    then show ?thesis using alloc_None[OF rel True] run by simp
  next
    case False
    obtain a' r where a': "pglc_arena_alloc (pt_arena pt) n = (a', Some (r, pglc_arena_class_size n))" "M r = None"
      "arena_rel a' (M(r \<mapsto> n))" "ref_bytes a' r = pglc_arena_class_size n" "\<And>x. x \<in> dom M \<Longrightarrow> keeps_block (pt_arena pt) a' x"
      using alloc_Some[OF rel, of n] False by metis
    have "sheds hf (X(r \<mapsto> n)) K pt gl (pt\<lparr>pt_arena := a'\<rparr>) gl"
    proof (rule arena_part_ok(2)[OF ok M a'(3)])
      show "(M(r \<mapsto> n)) x = Some m" if "(X(r \<mapsto> n)) x = Some m" for x m using that X(2)[of x m] by (auto split: if_splits)
      show "(M(r \<mapsto> n)) x = M x \<and> keeps_block (pt_arena pt) a' x" if "x \<in> dom M" "x \<notin> dom X" for x
        using a'(2,5) that by auto
    qed (use X(1) a'(2) in auto)
    moreover have "n \<le> pglc_arena_class_size n" using class_size_class(2)[of n] False by simp
    ultimately show ?thesis using a' run X by auto
  qed
qed

lemma alloc_loop_spec:
  assumes "part_ok hf X pt" "alloc_with_eviction pr s fs nows n ex k pt gl = (res, k', pt', gl')"
  shows "case res of Inl err \<Rightarrow> err = Generation_Overflow
    | Inr None \<Rightarrow> sheds hf X (spared ex) pt gl pt' gl'
    | Inr (Some (r, sz)) \<Rightarrow> sz = pglc_arena_class_size n \<and> ref_bytes (pt_arena pt') r = sz \<and> n \<le> sz \<and> r \<notin> dom X \<and>
        sheds hf (X(r \<mapsto> n)) (spared ex) pt gl pt' gl'"
  using assms
proof (induction pr s fs nows n ex k pt gl rule: alloc_with_eviction.induct)
  case (1 pr s fs nows n ex k pt gl)
  obtain a o1 where a: "pglc_arena_alloc (pt_arena pt) n = (a, o1)" by fastforce
  note A = alloc_part[OF 1(2) a, of "spared ex" gl]
  show ?case
  proof (cases o1)
    case (Some c)
    then show ?thesis using A a 1(3) by (cases c) (auto simp: alloc_with_eviction.simps)
  next
    case None
    then have pa: "pt\<lparr>pt_arena := a\<rparr> = pt" using A by simp
    obtain r2 pt2 gl2 where e: "evict_cache_entries pr s fs (nows k) (pglc_arena_class_size n) ex pt gl = (r2, pt2, gl2)"
      using prod_cases3 by blast
    note E = evict_spared[OF 1(2) e]
    have e': "evict_cache_entries pr s fs (nows k) (pglc_arena_class_size n) ex (pt\<lparr>pt_arena := a\<rparr>) gl = (r2, pt2, gl2)"
      using e by (simp only: pa)
    have run: "alloc_with_eviction pr s fs nows n ex k pt gl =
        (case r2 of Inl err \<Rightarrow> (Inl err, k + 1, pt2, gl2)
         | Inr removed \<Rightarrow> if removed = 0 then (Inr None, k + 1, pt2, gl2) else alloc_with_eviction pr s fs nows n ex (k + 1) pt2 gl2)"
      using a None e pa by (subst alloc_with_eviction.simps) (simp split: sum.splits)
    show ?thesis
    proof (cases r2)
      case (Inl err)
      then show ?thesis using run E 1(3) by auto
    next
      case (Inr removed)
      show ?thesis
      proof (cases "removed = 0")
        case True
        then show ?thesis using run Inr E 1(3) by auto
      next
        case False
        then have "alloc_with_eviction pr s fs nows n ex (k + 1) pt2 gl2 = (res, k', pt', gl')" using run Inr 1(3) by simp
        note IH = 1(1)[OF a[symmetric] None e'[symmetric] Inr refl False shedsD(1)[OF E(1)] this]
        note tr = sheds_trans[OF E(1)]
        consider err where "res = Inl err" | "res = Inr None" | r sz where "res = Inr (Some (r, sz))"
          by (metis option.exhaust sumE surj_pair)
        then show ?thesis using IH tr by cases (simp_all only: sum.case option.case prod.case, blast+)
      qed
    qed
  qed
qed

lemma reserve_cache_entry_cases:
  "reserve_cache_entry s gl =
    (if gl_cache_entry_count gl < pglc_cache_entries s then (True, gl\<lparr>gl_cache_entry_count := u64 (gl_cache_entry_count gl + 1)\<rparr>)
     else (False, gl\<lparr>gl_cache_entry_count := u64_sub (u64 (gl_cache_entry_count gl + 1)) 1\<rparr>))"
  by (simp add: reserve_cache_entry_def Let_def)

lemma u64_up_down: "c < 2 ^ 64 \<Longrightarrow> u64_sub (u64 (c + 1)) 1 = c"
  by (cases "c = UINT64_MAX") (simp_all add: u64_sub_def u64_def)

lemma reserve_loop_spec:
  assumes "part_ok hf X pt" "reserve_with_eviction pr s fs nows k pt gl = (res, k', pt', gl')" "counted rest pt gl"
  shows "case res of Inl err \<Rightarrow> err = Generation_Overflow
    | Inr False \<Rightarrow> sheds hf X (spared 0) pt gl pt' gl'
    | Inr True \<Rightarrow> \<exists>gl0. sheds hf X (spared 0) pt gl pt' gl0 \<and> gl_cache_entry_count gl0 < pglc_cache_entries s \<and>
        gl' = gl0\<lparr>gl_cache_entry_count := u64 (gl_cache_entry_count gl0 + 1)\<rparr>"
  using assms
proof (induction pr s fs nows k pt gl rule: reserve_with_eviction.induct)
  case (1 pr s fs nows k pt gl)
  show ?case
  proof (cases "gl_cache_entry_count gl < pglc_cache_entries s")
    case True
    then have "res = Inr True" "pt' = pt" "gl' = gl\<lparr>gl_cache_entry_count := u64 (gl_cache_entry_count gl + 1)\<rparr>"
      using 1(3) by (simp_all add: reserve_with_eviction.simps reserve_cache_entry_cases)
    then show ?thesis using True sheds_refl[OF 1(2)] by auto
  next
    case False
    have g: "reserve_cache_entry s gl = (False, gl)"
      using False u64_up_down 1(4) by (simp add: reserve_cache_entry_cases counted_def)
    obtain r2 pt2 gl2 where e: "evict_cache_entries pr s fs (nows k) 0 0 pt gl = (r2, pt2, gl2)"
      using prod_cases3 by blast
    note E = evict_spared[OF 1(2) e]
    have run: "reserve_with_eviction pr s fs nows k pt gl =
        (case r2 of Inl err \<Rightarrow> (Inl err, k + 1, pt2, gl2)
         | Inr removed \<Rightarrow> if removed = 0 then (Inr False, k + 1, pt2, gl2) else reserve_with_eviction pr s fs nows (k + 1) pt2 gl2)"
      using g e by (subst reserve_with_eviction.simps) (simp split: sum.splits)
    show ?thesis
    proof (cases r2)
      case (Inl err)
      then show ?thesis using run E 1(3) by auto
    next
      case (Inr removed)
      show ?thesis
      proof (cases "removed = 0")
        case True
        then show ?thesis using run Inr E 1(3) by auto
      next
        case False
        then have "reserve_with_eviction pr s fs nows (k + 1) pt2 gl2 = (res, k', pt', gl')" using run Inr 1(3) by simp
        note IH = 1(1)[OF g[symmetric] refl e[symmetric] Inr refl False shedsD(1)[OF E(1)] this shedsD(10)[OF E(1) 1(4)]]
        then show ?thesis using sheds_trans[OF E(1)] by (auto split: sum.splits bool.splits)
      qed
    qed
  qed
qed

subsection \<open>Admission\<close>

text \<open>The query of an admission asks for the identity of the new entry.\<close>

definition asks_for :: "entry_query \<Rightarrow> ident \<Rightarrow> bool" where
  "asks_for q i \<longleftrightarrow> (eq_database_oid q, eq_relation_oid q, eq_relation_slot q, eq_slot_generation q, eq_key q) = i \<and>
     eq_key_len q = length (eq_key q) \<and> \<not> eq_corrupt q"

lemma index_ok_rejections: "index_ok (ix\<lparr>probe_rejections := n\<rparr>) H ids = index_ok ix H ids"
  by (simp add: index_ok_def index_dimensions_valid_def pglc_index_valid_def probe_buckets_def index_start_def)

text \<open>Some bucket on the probe path of a hash has no entry.\<close>

definition open_bucket :: "partition \<Rightarrow> nat \<Rightarrow> bool" where
  "open_bucket pt hash \<longleftrightarrow> list_ex (\<lambda>b. \<not> is_live (buckets (pt_index pt) ! b)) (probe_buckets (pt_index pt) hash)"

lemma insert_once_linked:
  assumes L: "linked hf X ids pt" and e: "live pt eid" "eid \<notin> ids"
    and q: "asks_for q (ident pt (entry_at pt eid))" "hash = ce_key_hash (entry_at pt eid)"
  obtains r ix where "insert_entry_once hash eid q pt = (r, q\<lparr>eq_partition := pt\<rparr>, pt\<lparr>pt_index := ix\<rparr>)"
    "r = PGLC_INDEX_INSERTED \<and> linked hf X (insert eid ids) (pt\<lparr>pt_index := ix\<rparr>) \<or>
     r = PGLC_INDEX_PROBE_LIMIT \<and> linked hf X ids (pt\<lparr>pt_index := ix\<rparr>)"
    "open_bucket pt hash \<Longrightarrow> r = PGLC_INDEX_INSERTED"
proof -
  define q' where "q' = q\<lparr>eq_partition := pt\<rparr>"
  have q': "eq_partition q' = pt" "eq_key_len q' = length (eq_key q')"
    "(eq_database_oid q', eq_relation_oid q', eq_relation_slot q', eq_slot_generation q', eq_key q') = ident pt (entry_at pt eid)"
    using q(1) by (simp_all add: q'_def asks_for_def)
  have sv: "entry_lookup.served (pt_index pt) ids q'" by (rule linked_served(1)[OF L q'(1)])
  have D: "entries_ok hf pt" "ids \<subseteq> entry_ids pt" "pt_capacity pt \<le> 16777216"
    and io: "index_ok (pt_index pt) (\<lambda>x. ce_key_hash (entry_at pt x)) ids"
    using L by (auto simp: linked_def indexed_def)
  have lv: "is_live eid" using e(1) D(3) by (simp add: is_live_def live_def)
  have ex: "\<not> (\<exists>x \<in> ids. entry_hash_of q' x = hash \<and> entry_asked q' x)"
  proof
    assume "\<exists>x \<in> ids. entry_hash_of q' x = hash \<and> entry_asked q' x"
    then obtain x where x: "x \<in> ids" "ident pt (entry_at pt x) = ident pt (entry_at pt eid)"
      using entry_asked_iff[OF q'(1,2)] q'(3) by auto
    then have "x = eid" using D(1,2) e(1) unfolding entries_ok_def inj_on_def entry_ids_def by blast
    then show False using x(1) e(2) by simp
  qed
  have H: "(entry_hash_of q')(eid := hash) = (\<lambda>x. ce_key_hash (entry_at pt x))"
    using q(2) by (simp add: fun_eq_iff entry_hash_of_def q'(1))
  note I = entry_lookup.insert_served[OF sv lv e(2), of hash, unfolded if_not_P[OF ex] H]
  show thesis
  proof (cases "\<forall>b \<in> set (probe_buckets (pt_index pt) hash). is_live (buckets (pt_index pt) ! b)")
    case True
    define ix where "ix = (pt_index pt)\<lparr>probe_rejections := u64 (probe_rejections (pt_index pt) + 1)\<rparr>"
    have "linked hf X ids (pt\<lparr>pt_index := ix\<rparr>)"
      by (rule linked_index[OF L]) (use io D(2) index_ok_rejections in \<open>simp_all add: ix_def\<close>)
    moreover have "\<not> open_bucket pt hash" using True by (auto simp: open_bucket_def list_ex_iff)
    ultimately show ?thesis using that[of PGLC_INDEX_PROBE_LIMIT ix] I[unfolded if_P[OF True], folded ix_def]
      unfolding insert_entry_once_def q'_def[symmetric] by simp
  next
    case False
    then obtain ix where ix: "pglc_index_insert (pt_index pt) hash eid cache_entry_hash_by_id cache_entry_matches_query q' =
        (PGLC_INDEX_INSERTED, ix, q')" "index_ok ix (\<lambda>x. ce_key_hash (entry_at pt x)) (insert eid ids)"
      "bucket_count ix = bucket_count (pt_index pt)"
      using I[unfolded if_not_P[OF False]] by blast
    have "linked hf X (insert eid ids) (pt\<lparr>pt_index := ix\<rparr>)"
      by (rule linked_index[OF L ix(2,3)]) (use D(2) e(1) in \<open>simp add: entry_ids_def\<close>)
    then show ?thesis using that[of PGLC_INDEX_INSERTED ix] ix(1) unfolding insert_entry_once_def q'_def[symmetric] by simp
  qed
qed

lemma reindexed:
  "live (pt\<lparr>pt_index := ix\<rparr>) = live pt" "entry_ids (pt\<lparr>pt_index := ix\<rparr>) = entry_ids pt" "ident (pt\<lparr>pt_index := ix\<rparr>) = ident pt"
  by (auto simp: live_def entry_ids_def ident_def fun_eq_iff)

text \<open>One attempt, with or without a rebuild before it.\<close>

lemma rebuilt_insert:
  assumes L: "linked hf X ids pt" and e: "live pt eid" "eid \<notin> ids"
    and q: "asks_for q (ident pt (entry_at pt eid))" "hash = ce_key_hash (entry_at pt eid)"
  obtains r p ix where "(case rebuild_cache_index pt of (True, pt) \<Rightarrow> insert_entry_once hash eid q pt
      | (False, pt) \<Rightarrow> (PGLC_INDEX_PROBE_LIMIT, q, pt)) = (r, q\<lparr>eq_partition := p\<rparr>, pt\<lparr>pt_index := ix\<rparr>)"
    "r = PGLC_INDEX_INSERTED \<and> linked hf X (insert eid ids) (pt\<lparr>pt_index := ix\<rparr>) \<or>
     r = PGLC_INDEX_PROBE_LIMIT \<and> linked hf X ids (pt\<lparr>pt_index := ix\<rparr>)"
proof -
  obtain b ix0 where rb: "rebuild_cache_index pt = (b, pt\<lparr>pt_index := ix0\<rparr>)" "linked hf X ids (pt\<lparr>pt_index := ix0\<rparr>)"
    using rebuild_linked[OF L] by blast
  define pt0 where "pt0 = pt\<lparr>pt_index := ix0\<rparr>"
  show thesis
  proof (cases b)
    case True
    have "live pt0 eid" "ident pt0 (entry_at pt0 eid) = ident pt (entry_at pt eid)" "entry_at pt0 eid = entry_at pt eid"
      using e(1) reindexed by (simp_all add: pt0_def)
    then obtain r ix where i: "insert_entry_once hash eid q pt0 = (r, q\<lparr>eq_partition := pt0\<rparr>, pt0\<lparr>pt_index := ix\<rparr>)"
      "r = PGLC_INDEX_INSERTED \<and> linked hf X (insert eid ids) (pt0\<lparr>pt_index := ix\<rparr>) \<or>
       r = PGLC_INDEX_PROBE_LIMIT \<and> linked hf X ids (pt0\<lparr>pt_index := ix\<rparr>)"
      using insert_once_linked[OF rb(2)[folded pt0_def] _ e(2), of q hash] q by metis
    then show ?thesis using that[of r pt0 ix] rb True by (simp add: pt0_def)
  next
    case False
    then show ?thesis using that[of PGLC_INDEX_PROBE_LIMIT "eq_partition q" ix0] rb by simp
  qed
qed

lemma insert_entry_linked:
  assumes L: "linked hf X ids pt" and e: "live pt eid" "eid \<notin> ids"
    and q: "asks_for q (ident pt (entry_at pt eid))" "hash = ce_key_hash (entry_at pt eid)"
  obtains r q' ix where "insert_entry hash eid q pt = (r, q', pt\<lparr>pt_index := ix\<rparr>)" "\<not> eq_corrupt q'"
    "r = PGLC_INDEX_INSERTED \<and> linked hf X (insert eid ids) (pt\<lparr>pt_index := ix\<rparr>) \<or>
     r = PGLC_INDEX_PROBE_LIMIT \<and> linked hf X ids (pt\<lparr>pt_index := ix\<rparr>)"
    "open_bucket pt hash \<Longrightarrow> \<not> pglc_index_needs_rebuild (pt_index pt) \<Longrightarrow> r = PGLC_INDEX_INSERTED"
proof -
  define first where "first = (if pglc_index_needs_rebuild (pt_index pt)
     then case rebuild_cache_index pt of (True, pt) \<Rightarrow> insert_entry_once hash eid q pt
       | (False, pt) \<Rightarrow> (PGLC_INDEX_PROBE_LIMIT, q, pt)
     else insert_entry_once hash eid q pt)"
  obtain r1 p1 ix1 where f: "first = (r1, q\<lparr>eq_partition := p1\<rparr>, pt\<lparr>pt_index := ix1\<rparr>)"
    "r1 = PGLC_INDEX_INSERTED \<and> linked hf X (insert eid ids) (pt\<lparr>pt_index := ix1\<rparr>) \<or>
     r1 = PGLC_INDEX_PROBE_LIMIT \<and> linked hf X ids (pt\<lparr>pt_index := ix1\<rparr>)"
    "open_bucket pt hash \<Longrightarrow> \<not> pglc_index_needs_rebuild (pt_index pt) \<Longrightarrow> r1 = PGLC_INDEX_INSERTED"
  proof (cases "pglc_index_needs_rebuild (pt_index pt)")
    case True
    note eq = first_def[unfolded if_P[OF True]]
    obtain r p ix where r: "(case rebuild_cache_index pt of (True, pt) \<Rightarrow> insert_entry_once hash eid q pt
        | (False, pt) \<Rightarrow> (PGLC_INDEX_PROBE_LIMIT, q, pt)) = (r, q\<lparr>eq_partition := p\<rparr>, pt\<lparr>pt_index := ix\<rparr>)"
      "r = PGLC_INDEX_INSERTED \<and> linked hf X (insert eid ids) (pt\<lparr>pt_index := ix\<rparr>) \<or>
       r = PGLC_INDEX_PROBE_LIMIT \<and> linked hf X ids (pt\<lparr>pt_index := ix\<rparr>)"
      using rebuilt_insert[OF L e q] by blast
    show ?thesis by (rule that[OF trans[OF eq r(1)] r(2)]) (simp add: True)
  next
    case False
    note eq = first_def[unfolded if_not_P[OF False]]
    obtain r ix where r: "insert_entry_once hash eid q pt = (r, q\<lparr>eq_partition := pt\<rparr>, pt\<lparr>pt_index := ix\<rparr>)"
      "r = PGLC_INDEX_INSERTED \<and> linked hf X (insert eid ids) (pt\<lparr>pt_index := ix\<rparr>) \<or>
       r = PGLC_INDEX_PROBE_LIMIT \<and> linked hf X ids (pt\<lparr>pt_index := ix\<rparr>)"
      "open_bucket pt hash \<Longrightarrow> r = PGLC_INDEX_INSERTED"
      using insert_once_linked[OF L e q] by blast
    show ?thesis by (rule that[OF trans[OF eq r(1)] r(2,3)])
  qed
  have nc: "\<not> eq_corrupt q" using q(1) by (simp add: asks_for_def)
  show thesis
  proof (cases "r1 = PGLC_INDEX_PROBE_LIMIT")
    case False
    then show ?thesis using that[of r1 "q\<lparr>eq_partition := p1\<rparr>" ix1] f nc
      unfolding insert_entry_def first_def[symmetric] by simp
  next
    case True
    define pt1 where "pt1 = pt\<lparr>pt_index := ix1\<rparr>"
    define q1 where "q1 = q\<lparr>eq_partition := p1\<rparr>"
    have L1: "linked hf X ids pt1" using f True by (simp add: pt1_def)
    have s: "live pt1 eid" "asks_for q1 (ident pt1 (entry_at pt1 eid))" "hash = ce_key_hash (entry_at pt1 eid)"
      using e(1) q reindexed by (simp_all add: pt1_def q1_def asks_for_def)
    obtain r p ix where r: "(case rebuild_cache_index pt1 of (True, pt) \<Rightarrow> insert_entry_once hash eid q1 pt
        | (False, pt) \<Rightarrow> (PGLC_INDEX_PROBE_LIMIT, q1, pt)) = (r, q1\<lparr>eq_partition := p\<rparr>, pt1\<lparr>pt_index := ix\<rparr>)"
      "r = PGLC_INDEX_INSERTED \<and> linked hf X (insert eid ids) (pt1\<lparr>pt_index := ix\<rparr>) \<or>
       r = PGLC_INDEX_PROBE_LIMIT \<and> linked hf X ids (pt1\<lparr>pt_index := ix\<rparr>)"
      using rebuilt_insert[OF L1 s(1) e(2) s(2,3)] by blast
    have "insert_entry hash eid q pt = (r, q1\<lparr>eq_partition := p\<rparr>, pt1\<lparr>pt_index := ix\<rparr>)"
      using r(1) True unfolding insert_entry_def first_def[symmetric] f(1) pt1_def q1_def Let_def by simp
    then show ?thesis using that[of r "q1\<lparr>eq_partition := p\<rparr>" ix] r(2) nc f(3) True by (auto simp: pt1_def q1_def)
  qed
qed

lemma freelist_pop:
  assumes O: "only_entry eid pt pt'" and ok: "freelist_ok pt" and e: "live pt' eid" "pt_free_entry_head pt = eid"
    and h: "pt_free_entry_head pt' = ce_free_next (entry_at pt eid)" "pt_entry_count pt' = pt_entry_count pt + 1"
  shows "freelist_ok pt'" "\<not> live pt eid" "ce_free_next (entry_at pt eid) \<le> pt_capacity pt"
proof -
  have rng: "eid \<noteq> 0" "eid \<le> pt_capacity pt" "pt_capacity pt' = pt_capacity pt" using e(1) O by (auto simp: live_def only_entry_def)
  let ?S = "{1..pt_capacity pt} - entry_ids pt"
  have ch: "chain_ok (\<lambda>x. ce_free_next (entry_at pt x)) eid ?S" using ok e(2) by (simp add: freelist_ok_def)
  have same: "ce_free_next (entry_at pt' y) = ce_free_next (entry_at pt y)" if "y \<in> ?S" "y \<noteq> eid" for y
    using that only_entryD(2)[OF O that(2)] by auto
  note pop = chain_pop[OF ch rng(1), of "\<lambda>x. ce_free_next (entry_at pt' x)", OF same]
  show dead: "\<not> live pt eid" using pop(1) by (simp add: entry_ids_def)
  show "ce_free_next (entry_at pt eid) \<le> pt_capacity pt" using chain_head[OF pop(2)] by auto
  have ids: "entry_ids pt' = insert eid (entry_ids pt)" using only_entry_ids[OF O] e(1) dead by (auto simp: entry_ids_def)
  have S: "{1..pt_capacity pt'} - entry_ids pt' = ?S - {eid}" unfolding ids rng(3) by auto
  have "pt_entry_count pt' = card (entry_ids pt')"
    using h(2) ok ids dead finite_entry_ids[of pt] by (simp add: entry_ids_def freelist_ok_def)
  then show "freelist_ok pt'" unfolding freelist_ok_def S h(1) using pop(2) by blast
qed

text \<open>The partition with the new descriptor and the key written, before it is indexed.\<close>

definition placed :: "nat \<Rightarrow> cache_entry \<Rightarrow> nat \<Rightarrow> char list \<Rightarrow> partition \<Rightarrow> partition" where
  "placed eid e g key pt = (set_entry eid e pt)\<lparr>pt_free_entry_head := ce_free_next (entry_at pt eid), pt_entry_generation := g,
     pt_arena := (pt_arena pt)\<lparr>memory := store_bytes (memory (pt_arena pt)) (ce_block_ref e) key\<rparr>,
     pt_entry_count := pt_entry_count pt + 1\<rparr>"

lemma placed_ok:
  fixes g :: nat
  assumes ok: "part_ok hf [r \<mapsto> n] pt" and eid: "pt_free_entry_head pt = eid" "eid \<noteq> 0"
    and e: "ce_in_use e" "ce_block_ref e = r" "ce_block_len e = n" "ce_key_len e = n" "ce_value_len e = 0" "ce_key_hash e = hf i"
      "(ce_database_oid e, ce_relation_oid e, ce_relation_slot e, ce_slot_generation e, key) = i" "n = length key" "n < PGLC_KEY_MAX"
    and new: "\<And>x. live pt x \<Longrightarrow> ident pt (entry_at pt x) \<noteq> i"
  defines "pt2 \<equiv> placed eid e g key pt"
  shows "linked hf Map.empty (entry_ids pt) pt2" "freelist_ok pt2" "only_entry eid pt pt2" "live pt2 eid"
    "ident pt2 e = i" "entry_at pt2 eid = e" "\<not> live pt eid" "ce_free_next (entry_at pt eid) \<le> pt_capacity pt"
    "eid \<le> pt_capacity pt"
proof -
  obtain M where M: "blocks_ok [r \<mapsto> n] M pt" "entries_ok hf pt" "indexed (entry_ids pt) pt" "freelist_ok pt"
    using ok by (auto simp: part_ok_def)
  have rel: "arena_rel (pt_arena pt) M" and Mr: "M r = Some n" and refs: "dom M = (\<lambda>x. ce_block_ref (entry_at pt x)) ` entry_ids pt \<union> {r}"
    "r \<notin> (\<lambda>x. ce_block_ref (entry_at pt x)) ` entry_ids pt"
    using M(1) by (auto simp: blocks_ok_def)
  show cap: "eid \<le> pt_capacity pt"
    using M(4) eid chain_head by (fastforce simp: freelist_ok_def)
  define a where "a = (pt_arena pt)\<lparr>memory := store_bytes (memory (pt_arena pt)) r key\<rparr>"
  have room: "length key \<le> ref_bytes (pt_arena pt) r" using rel Mr e(8) unfolding arena_rel_def by auto
  have W: "arena_rel a M" "\<And>x. x \<in> dom M \<Longrightarrow> x \<noteq> r \<Longrightarrow> keeps_block (pt_arena pt) a x"
    unfolding a_def using Mr room
    by (auto intro!: write_spec[OF rel] simp: frame_simps)
  have p: "pt_capacity pt2 = pt_capacity pt" "pt_arena pt2 = a" "pt_entries pt2 = (pt_entries pt)[eid - 1 := e]"
    "pt_index pt2 = pt_index pt" "pt_free_entry_head pt2 = ce_free_next (entry_at pt eid)" "pt_entry_count pt2 = pt_entry_count pt + 1"
    by (simp_all add: pt2_def placed_def a_def set_entry_def e(2))
  show at: "entry_at pt2 eid = e" using cap eid(2) p(3) by simp
  have at': "entry_at pt2 x = entry_at pt x" if "x \<noteq> eid" "x \<noteq> 0" for x
    using cap eid(2) that unfolding p(3) by (auto simp: nth_list_update)
  show lv: "live pt2 eid" using cap eid(2) at e(1) p(1) by (simp add: live_def)
  have ref: "ce_block_ref (entry_at pt x) \<in> dom M \<and> ce_block_ref (entry_at pt x) \<noteq> r" if "live pt x" for x
    using that refs by (auto simp: entry_ids_def)
  show O: "only_entry eid pt pt2" unfolding only_entry_def using at' p(1,2) W(2) ref by simp
  note fr = freelist_pop[OF O M(4) lv eid(1) p(5,6)]
  show "freelist_ok pt2" "\<not> live pt eid" "ce_free_next (entry_at pt eid) \<le> pt_capacity pt" by (rule fr)+
  show idn: "ident pt2 e = i" using e(2,4,7,8) unfolding ident_def p(2) a_def by simp
  have ne: "x \<noteq> eid" if "live pt x" for x using that fr(2) by blast
  have ids: "entry_ids pt - {eid} = entry_ids pt" using fr(2) by (auto simp: entry_ids_def)
  have "blocks_ok Map.empty M pt2"
  proof (rule blocks_ok_step[OF O M(1)])
    show "arena_rel (pt_arena pt2) M" using W(1) p(2) by simp
    show "dom M = (\<lambda>x. ce_block_ref (entry_at pt x)) ` (entry_ids pt - {eid}) \<union>
        (if live pt2 eid then {ce_block_ref (entry_at pt2 eid)} else {}) \<union> dom Map.empty"
      unfolding ids at e(2) using refs(1) lv by simp
    show "M (ce_block_ref (entry_at pt2 eid)) = Some (ce_block_len (entry_at pt2 eid)) \<and>
        ce_block_ref (entry_at pt2 eid) \<notin> dom Map.empty \<and>
        ce_block_ref (entry_at pt2 eid) \<notin> (\<lambda>x. ce_block_ref (entry_at pt x)) ` (entry_ids pt - {eid})"
      unfolding ids at e(2,3) using Mr refs(2) by simp
  qed simp_all
  moreover have "entries_ok hf pt2"
  proof (rule entries_ok_step[OF O M(1,2)])
    show "entry_shape (entry_at pt2 eid) \<and> ce_key_hash (entry_at pt2 eid) = hf (ident pt2 (entry_at pt2 eid))"
      unfolding at idn using e by (simp add: entry_shape_def)
    show "ident pt2 (entry_at pt2 eid) \<noteq> ident pt (entry_at pt x)" if "live pt x" for x
      unfolding at idn using new[OF that] by metis
  qed
  moreover have "indexed (entry_ids pt) pt2"
  proof (rule indexed_step[OF O M(3)])
    show "index_ok (pt_index pt2) (\<lambda>x. ce_key_hash (entry_at pt x)) (entry_ids pt)"
      using M(3) p(4) by (simp add: indexed_def)
    show "ce_key_hash (entry_at pt x) = ce_key_hash (entry_at pt2 x)" if "x \<in> entry_ids pt" for x
      using that at'[of x] ne[of x] by (simp add: entry_ids_def live_def)
  qed (simp add: p(4))
  moreover have "entry_ids pt \<subseteq> entry_ids pt2" using only_entryD(1)[OF O ne] by (auto simp: entry_ids_def)
  ultimately show "linked hf Map.empty (entry_ids pt) pt2" unfolding linked_def by blast
qed

lemma free_held:
  assumes ok: "part_ok hf [r \<mapsto> n] pt"
  obtains a where "pglc_arena_free (pt_arena pt) r n = (a, True)" "sheds hf Map.empty K pt gl (pt\<lparr>pt_arena := a\<rparr>) gl"
proof -
  obtain M where M: "blocks_ok [r \<mapsto> n] M pt" using ok by (auto simp: part_ok_def)
  have rel: "arena_rel (pt_arena pt) M" "M r = Some n" using M by (auto simp: blocks_ok_def)
  obtain a where a: "pglc_arena_free (pt_arena pt) r n = (a, True)" "arena_rel a (M(r := None))"
    "\<And>x. x \<in> dom M \<Longrightarrow> x \<noteq> r \<Longrightarrow> keeps_block (pt_arena pt) a x"
    using free_spec[OF rel] by metis
  have "sheds hf Map.empty K pt gl (pt\<lparr>pt_arena := a\<rparr>) gl"
    by (rule arena_part_ok(2)[OF ok M a(2)]) (use a(3) in auto)
  then show thesis using that a(1) by blast
qed

definition admitted :: "(ident \<Rightarrow> nat) \<Rightarrow> ident \<Rightarrow> nat \<Rightarrow> partition \<Rightarrow> partition \<Rightarrow> bool" where
  "admitted hf i eid pt pt' \<longleftrightarrow> part_ok hf Map.empty pt' \<and> only_entry eid pt pt' \<and> \<not> live pt eid \<and> live pt' eid \<and>
     ident pt' (entry_at pt' eid) = i \<and> \<not> ce_valid (entry_at pt' eid) \<and> \<not> ce_loading (entry_at pt' eid) \<and>
     ce_dirty_writers (entry_at pt' eid) = 0 \<and> ce_version (entry_at pt' eid) = pt_entry_generation pt + 1 \<and>
     pt_entry_generation pt' = pt_entry_generation pt + 1 \<and> marker_side pt' = marker_side pt \<and>
     pt_entry_count pt' = pt_entry_count pt + 1"

lemma only_entry_trans: "only_entry eid a b \<Longrightarrow> only_entry eid b c \<Longrightarrow> only_entry eid a c"
  unfolding only_entry_def using keeps_block_trans by (auto simp: live_def)

lemma undo_admission:
  assumes L: "linked hf Map.empty ids pt3" "ids = entry_ids pt" "freelist_ok pt3"
    and O: "only_entry eid pt pt3" "live pt3 eid" "\<not> live pt eid"
    and c: "pt_entry_count pt3 = pt_entry_count pt + 1" "pt_entry_count pt3 \<le> 16777217"
    and fr: "marker_side pt3 = marker_side pt" "pt_entry_generation pt \<le> pt_entry_generation pt3"
  obtains a where "pglc_arena_free (pt_arena pt3) (ce_block_ref (entry_at pt3 eid)) (ce_block_len (entry_at pt3 eid)) = (a, True)"
    "\<And>e'. \<not> ce_in_use e' \<Longrightarrow> ce_free_next e' = pt_free_entry_head pt3 \<Longrightarrow>
      sheds hf Map.empty (\<lambda>x e. True) pt gl ((set_entry eid e' (pt3\<lparr>pt_arena := a\<rparr>))
        \<lparr>pt_free_entry_head := eid, pt_entry_count := u32_sub (pt_entry_count pt3) 1\<rparr>) gl"
proof -
  define e where "e = entry_at pt3 eid"
  obtain M where M: "blocks_ok Map.empty M pt3" "entries_ok hf pt3" "indexed ids pt3" using L by (auto simp: linked_def)
  have rng: "eid \<noteq> 0" "eid \<le> pt_capacity pt3" using O(2) by (auto simp: live_def)
  have rel: "arena_rel (pt_arena pt3) M" "M (ce_block_ref e) = Some (ce_block_len e)"
    using M(1) O(2) by (auto simp: blocks_ok_def e_def)
  obtain a where a: "pglc_arena_free (pt_arena pt3) (ce_block_ref e) (ce_block_len e) = (a, True)" "arena_rel a (M(ce_block_ref e := None))"
    "\<And>x. x \<in> dom M \<Longrightarrow> x \<noteq> ce_block_ref e \<Longrightarrow> keeps_block (pt_arena pt3) a x"
    using free_spec[OF rel] by metis
  have others: "ce_block_ref (entry_at pt3 x) \<noteq> ce_block_ref e \<and> ce_block_ref (entry_at pt3 x) \<in> dom M" if "live pt3 x" "x \<noteq> eid" for x
    using M(1) that O(2) unfolding blocks_ok_def inj_on_def e_def entry_ids_def by blast
  show thesis
  proof (rule that[OF a(1)[unfolded e_def]])
    fix e' :: cache_entry assume e': "\<not> ce_in_use e'" "ce_free_next e' = pt_free_entry_head pt3"
    define pt4 where "pt4 = (set_entry eid e' (pt3\<lparr>pt_arena := a\<rparr>))
        \<lparr>pt_free_entry_head := eid, pt_entry_count := u32_sub (pt_entry_count pt3) 1\<rparr>"
    have p: "pt_capacity pt4 = pt_capacity pt3" "pt_arena pt4 = a" "pt_index pt4 = pt_index pt3" "pt_free_entry_head pt4 = eid"
      "pt_entries pt4 = (pt_entries pt3)[eid - 1 := e']" "marker_side pt4 = marker_side pt3" "pt_entry_generation pt4 = pt_entry_generation pt3"
      "pt_entry_count pt4 = pt_entry_count pt3 - 1" "pt_entry_count pt4 = pt_entry_count pt"
      using c by (simp_all add: pt4_def set_entry_def marker_side_def width_simps)
    have at: "entry_at pt4 eid = e'" "x \<noteq> 0 \<Longrightarrow> x \<noteq> eid \<Longrightarrow> entry_at pt4 x = entry_at pt3 x" for x
      using rng unfolding p(5) by (auto simp: nth_list_update)
    have dead: "\<not> live pt4 eid" using at(1) e'(1) by (simp add: live_def)
    have O4: "only_entry eid pt3 pt4" unfolding only_entry_def using p(1,2) at(2) a(3) others by simp
    have ids: "entry_ids pt3 - {eid} = ids" using only_entry_ids[OF O(1)] O(3) L(2) by (auto simp: entry_ids_def)
    have ix: "index_ok (pt_index pt4) (\<lambda>x. ce_key_hash (entry_at pt3 x)) (entry_ids pt3 - {eid})"
      unfolding p(3) ids using M(3) by (simp add: indexed_def)
    have ok4: "part_ok hf Map.empty pt4"
      using remove_part_ok(1)[OF M(2,3) L(3) O(2) M(1) O4 dead p(4) _ p(8) _ ix] a(2) at(1) e'(2) p(2,3) by (simp add: e_def)
    note O' = only_entry_trans[OF O(1) O4]
    have same: "live pt4 x \<longleftrightarrow> live pt x" "live pt x \<Longrightarrow> entry_at pt4 x = entry_at pt x"
      "live pt x \<Longrightarrow> keeps_block (pt_arena pt) (pt_arena pt4) (ce_block_ref (entry_at pt x))" for x
      using only_entryD[OF O', of x] dead O(3) by (cases "x = eid"; simp)+
    have "sheds hf Map.empty (\<lambda>x e. True) pt gl pt4 gl"
      unfolding sheds_def counted_def p(9) using ok4 same p(6,7) fr O' by (simp add: only_entry_def renewed_same)
    then show "sheds hf Map.empty (\<lambda>x e. True) pt gl ((set_entry eid e' (pt3\<lparr>pt_arena := a\<rparr>))
        \<lparr>pt_free_entry_head := eid, pt_entry_count := u32_sub (pt_entry_count pt3) 1\<rparr>) gl" unfolding pt4_def .
  qed
qed

lemma admission_rejected_frame [simp]:
  "gl_cache_entry_count (cache_admission_rejected pr b gl) = gl_cache_entry_count gl"
  "gl_clock (cache_admission_rejected pr b gl) = gl_clock gl"
  "gl_dirty_marker_entries (cache_admission_rejected pr b gl) = gl_dirty_marker_entries gl"
  "gl_dirty_marker_highwater (cache_admission_rejected pr b gl) = gl_dirty_marker_highwater gl"
  by (simp_all add: cache_admission_rejected_def Let_def)

text \<open>The partition with the new entry in place, before it is indexed.\<close>

definition candidate :: "entry_query \<Rightarrow> nat \<Rightarrow> partition \<Rightarrow> partition" where
  "candidate q r pt = placed (pt_free_entry_head pt) ((fresh_entry (eq_hash q) (eq_database_oid q) r (eq_key_len q)
     (eq_relation_oid q) (eq_relation_slot q) (eq_slot_generation q))\<lparr>ce_version := pt_entry_generation pt + 1\<rparr>)
     (pt_entry_generation pt + 1) (eq_key q) pt"

lemma candidate_ok:
  assumes ok: "part_ok hf [r \<mapsto> n] pt" and q: "asks_for q i" "eq_hash q = hf i" "eq_key_len q = n" "n < PGLC_KEY_MAX"
    and new: "\<forall>x. live pt x \<longrightarrow> ident pt (entry_at pt x) \<noteq> i" and h: "pt_free_entry_head pt \<noteq> 0"
  defines "eid \<equiv> pt_free_entry_head pt" and "pt2 \<equiv> candidate q r pt"
  shows "linked hf Map.empty (entry_ids pt) pt2" "freelist_ok pt2" "only_entry eid pt pt2" "live pt2 eid" "ident pt2 (entry_at pt2 eid) = i"
    "entry_at pt2 eid = (fresh_entry (eq_hash q) (eq_database_oid q) r n (eq_relation_oid q) (eq_relation_slot q)
       (eq_slot_generation q))\<lparr>ce_version := pt_entry_generation pt + 1\<rparr>"
    "\<not> live pt eid" "ce_free_next (entry_at pt eid) \<le> pt_capacity pt" "eid \<le> pt_capacity pt"
    "marker_side pt2 = marker_side pt" "pt_entry_generation pt2 = pt_entry_generation pt + 1" "pt_entry_count pt2 = pt_entry_count pt + 1"
    "pt_index pt2 = pt_index pt"
proof -
  define e where "e = (fresh_entry (eq_hash q) (eq_database_oid q) r n (eq_relation_oid q) (eq_relation_slot q)
    (eq_slot_generation q))\<lparr>ce_version := pt_entry_generation pt + 1\<rparr>"
  have key: "n = length (eq_key q)" "(eq_database_oid q, eq_relation_oid q, eq_relation_slot q, eq_slot_generation q, eq_key q) = i"
    using q(1,3) by (auto simp: asks_for_def)
  have ef: "ce_in_use e" "ce_block_ref e = r" "ce_block_len e = n" "ce_key_len e = n" "ce_value_len e = 0" "ce_key_hash e = hf i"
    "(ce_database_oid e, ce_relation_oid e, ce_relation_slot e, ce_slot_generation e, eq_key q) = i"
    using q(2) key(2) by (simp_all add: e_def fresh_entry_def)
  have p2: "pt2 = placed eid e (pt_entry_generation pt + 1) (eq_key q) pt" by (simp add: pt2_def candidate_def e_def eid_def q(3))
  note P = placed_ok(1-6)[where g = "pt_entry_generation pt + 1", OF ok refl h ef key(1) q(4) new[rule_format], folded eid_def, folded p2]
    placed_ok(7-9)[OF ok refl h ef key(1) q(4) new[rule_format], folded eid_def]
  show "linked hf Map.empty (entry_ids pt) pt2" "freelist_ok pt2" "only_entry eid pt pt2" "live pt2 eid" by (rule P, assumption)+
  have at: "entry_at pt2 eid = e" by (rule P(6), assumption)
  show "ident pt2 (entry_at pt2 eid) = i" unfolding at by (rule P(5), assumption)
  show "entry_at pt2 eid = (fresh_entry (eq_hash q) (eq_database_oid q) r n (eq_relation_oid q) (eq_relation_slot q)
       (eq_slot_generation q))\<lparr>ce_version := pt_entry_generation pt + 1\<rparr>" unfolding at e_def by (rule refl)
  show "\<not> live pt eid" "ce_free_next (entry_at pt eid) \<le> pt_capacity pt" "eid \<le> pt_capacity pt" by (rule P, assumption)+
  show "marker_side pt2 = marker_side pt" "pt_entry_generation pt2 = pt_entry_generation pt + 1" "pt_entry_count pt2 = pt_entry_count pt + 1"
    "pt_index pt2 = pt_index pt" unfolding p2 by (simp_all add: placed_def set_entry_def marker_side_def)
qed

text \<open>An admission that has a descriptor and a version stands or falls with the index.\<close>

definition unlinked :: "nat \<Rightarrow> partition \<Rightarrow> PglcArena \<Rightarrow> partition" where
  "unlinked eid pt a = (set_entry eid ((entry_at pt eid)\<lparr>ce_in_use := False, ce_key_len := 0, ce_block_len := 0,
     ce_block_ref := PGLC_ARENA_NO_BLOCK, ce_free_next := pt_free_entry_head pt\<rparr>) (pt\<lparr>pt_arena := a\<rparr>))
     \<lparr>pt_free_entry_head := eid, pt_entry_count := u32_sub (pt_entry_count pt) 1\<rparr>"

lemma admit_body:
  assumes ok: "part_ok hf [r \<mapsto> n] pt" and q: "asks_for q i" "eq_hash q = hf i" "eq_key_len q = n" "n < PGLC_KEY_MAX"
    and new: "\<forall>x. live pt x \<longrightarrow> ident pt (entry_at pt x) \<noteq> i"
    and h: "pt_free_entry_head pt \<noteq> 0" "pt_entry_generation pt \<noteq> UINT64_MAX"
    and ins: "insert_entry (eq_hash q) (pt_free_entry_head pt) (q\<lparr>eq_expected_id := pt_free_entry_head pt\<rparr>) (candidate q r pt) = (ri, q', pt3)"
      "\<not> eq_corrupt q'"
  shows "admit_entry pr q r pt gl =
    (if ri = PGLC_INDEX_INSERTED then (Inr (Some (pt_free_entry_head pt)), pt3, gl)
     else case pglc_arena_free (pt_arena pt3) r n of
       (a, False) \<Rightarrow> (Inl Key_Block_Not_Released, pt3\<lparr>pt_arena := a\<rparr>, gl)
     | (a, True) \<Rightarrow> (Inr None, unlinked (pt_free_entry_head pt) pt3 a, cache_admission_rejected pr False (release_cache_entry gl)))"
proof -
  define eid where "eid = pt_free_entry_head pt"
  define e0 where "e0 = fresh_entry (eq_hash q) (eq_database_oid q) r n (eq_relation_oid q) (eq_relation_slot q) (eq_slot_generation q)"
  note P = candidate_ok(7-9)[OF ok q new h(1), folded eid_def]
  obtain M where M: "blocks_ok [r \<mapsto> n] M pt" using ok by (auto simp: part_ok_def)
  have rM: "arena_rel (pt_arena pt) M" "r \<in> dom M" using M by (auto simp: blocks_ok_def)
  have blk: "pglc_arena_block (pt_arena pt) r = Some r" using live_info(2)[OF rM(1)] rM(2) by simp
  have "freelist_ok pt" "pt_capacity pt \<le> 16777216" using ok by (auto simp: part_ok_def indexed_def)
  then have cnt: "pt_entry_count pt \<le> 16777216"
    using card_mono[OF _ entry_ids_subset[of pt]] by (simp add: freelist_ok_def)
  have st: "(set_entry eid (e0\<lparr>ce_version := pt_entry_generation pt + 1\<rparr>) ((set_entry eid e0 pt)\<lparr>pt_free_entry_head := ce_free_next (entry_at pt eid),
        pt_entry_generation := pt_entry_generation pt + 1\<rparr>))
      \<lparr>pt_arena := (pt_arena pt)\<lparr>memory := store_bytes (memory (pt_arena pt)) r (take n (eq_key q))\<rparr>,
        pt_entry_count := u32 (pt_entry_count pt + 1)\<rparr> = candidate q r pt"
    using cnt q(1,3) by (simp add: candidate_def placed_def set_entry_def u32_def e0_def eid_def fresh_entry_def asks_for_def)
  show ?thesis
    using h P blk ins st
    unfolding admit_entry_def next_entry_generation_def Let_def eid_def[symmetric] q(3) e0_def[symmetric] unlinked_def
    by (simp add: live_def cong: if_cong split: prod.splits bool.splits)
qed

lemma candidate_inserted:
  assumes ok: "part_ok hf [r \<mapsto> n] pt" and q: "asks_for q i" "eq_hash q = hf i" "eq_key_len q = n" "n < PGLC_KEY_MAX"
    and new: "\<forall>x. live pt x \<longrightarrow> ident pt (entry_at pt x) \<noteq> i" and h: "pt_free_entry_head pt \<noteq> 0"
  defines "eid \<equiv> pt_free_entry_head pt" and "pt2 \<equiv> candidate q r pt"
  obtains ri q' ix where "insert_entry (eq_hash q) eid (q\<lparr>eq_expected_id := eid\<rparr>) pt2 = (ri, q', pt2\<lparr>pt_index := ix\<rparr>)" "\<not> eq_corrupt q'"
    "ri = PGLC_INDEX_INSERTED \<and> admitted hf i eid pt (pt2\<lparr>pt_index := ix\<rparr>) \<or>
     ri = PGLC_INDEX_PROBE_LIMIT \<and> linked hf Map.empty (entry_ids pt) (pt2\<lparr>pt_index := ix\<rparr>)"
    "open_bucket pt (eq_hash q) \<Longrightarrow> \<not> pglc_index_needs_rebuild (pt_index pt) \<Longrightarrow> ri = PGLC_INDEX_INSERTED"
proof -
  note P = candidate_ok[OF ok q new h, folded eid_def, folded pt2_def]
  obtain ri q' ix where ins: "insert_entry (eq_hash q) eid (q\<lparr>eq_expected_id := eid\<rparr>) pt2 = (ri, q', pt2\<lparr>pt_index := ix\<rparr>)" "\<not> eq_corrupt q'"
    "ri = PGLC_INDEX_INSERTED \<and> linked hf Map.empty (insert eid (entry_ids pt)) (pt2\<lparr>pt_index := ix\<rparr>) \<or>
     ri = PGLC_INDEX_PROBE_LIMIT \<and> linked hf Map.empty (entry_ids pt) (pt2\<lparr>pt_index := ix\<rparr>)"
    "open_bucket pt2 (eq_hash q) \<Longrightarrow> \<not> pglc_index_needs_rebuild (pt_index pt2) \<Longrightarrow> ri = PGLC_INDEX_INSERTED"
  proof (rule insert_entry_linked[OF P(1,4)])
    show "eid \<notin> entry_ids pt" using P(7) by (simp add: entry_ids_def)
    show "asks_for (q\<lparr>eq_expected_id := eid\<rparr>) (ident pt2 (entry_at pt2 eid))" unfolding P(5) using q(1) by (simp add: asks_for_def)
    show "eq_hash q = ce_key_hash (entry_at pt2 eid)" unfolding P(6) by (simp add: fresh_entry_def)
  qed blast
  have adm: "admitted hf i eid pt (pt2\<lparr>pt_index := ix\<rparr>)" if "linked hf Map.empty (insert eid (entry_ids pt)) (pt2\<lparr>pt_index := ix\<rparr>)"
  proof -
    define pt3 where "pt3 = pt2\<lparr>pt_index := ix\<rparr>"
    have p3: "pt_entries pt3 = pt_entries pt2" "pt_arena pt3 = pt_arena pt2" "live pt3 = live pt2" "entry_ids pt3 = entry_ids pt2"
      "ident pt3 = ident pt2" "marker_side pt3 = marker_side pt2" "pt_entry_generation pt3 = pt_entry_generation pt2" "pt_entry_count pt3 = pt_entry_count pt2"
      using reindexed by (simp_all add: pt3_def marker_side_def)
    have O3: "only_entry eid pt pt3" using P(3) unfolding only_entry_def p3(1-3) .
    have "entry_ids pt3 = insert eid (entry_ids pt)" using only_entry_ids[OF O3] P(4,7) p3(3) by (auto simp: entry_ids_def)
    moreover have "freelist_ok pt3" using P(2) unfolding freelist_ok_def p3(4) by (simp add: pt3_def)
    ultimately have "part_ok hf Map.empty pt3" using that part_linked unfolding pt3_def by metis
    moreover have "entry_at pt3 eid = entry_at pt2 eid" by (simp add: p3(1))
    ultimately show ?thesis unfolding pt3_def[symmetric] admitted_def p3(3,5,6,7,8)
      using O3 P(4,5,7,10-12) unfolding P(6) by (simp add: fresh_entry_def)
  qed
  show thesis
    by (rule that[OF ins(1,2)]) (use ins(3,4) adm P(13) in \<open>auto simp: open_bucket_def\<close>)
qed

lemma admit_undone:
  assumes ok: "part_ok hf [r \<mapsto> n] pt" and q: "asks_for q i" "eq_hash q = hf i" "eq_key_len q = n" "n < PGLC_KEY_MAX"
    and new: "\<forall>x. live pt x \<longrightarrow> ident pt (entry_at pt x) \<noteq> i"
    and h: "pt_free_entry_head pt \<noteq> 0" "pt_entry_generation pt \<noteq> UINT64_MAX"
    and pt3: "pt3 = (candidate q r pt)\<lparr>pt_index := ix\<rparr>" and L: "linked hf Map.empty (entry_ids pt) pt3"
    and run: "(res, pt', gl') = (case pglc_arena_free (pt_arena pt3) r n of
       (a, False) \<Rightarrow> (Inl Key_Block_Not_Released, pt3\<lparr>pt_arena := a\<rparr>, gl)
     | (a, True) \<Rightarrow> (Inr None, unlinked (pt_free_entry_head pt) pt3 a, cache_admission_rejected pr False (release_cache_entry gl)))"
  shows "sheds hf Map.empty (\<lambda>x e. True) pt (release_cache_entry gl) pt' gl' \<and> res = Inr None"
proof -
  define eid where "eid = pt_free_entry_head pt"
  define pt2 where "pt2 = candidate q r pt"
  note P = candidate_ok[OF ok q new h(1), folded eid_def pt2_def]
  have p3: "pt_entries pt3 = pt_entries pt2" "pt_arena pt3 = pt_arena pt2" "live pt3 = live pt2" "entry_ids pt3 = entry_ids pt2"
    "marker_side pt3 = marker_side pt2" "pt_entry_generation pt3 = pt_entry_generation pt2" "pt_entry_count pt3 = pt_entry_count pt2"
    "pt_free_entry_head pt3 = pt_free_entry_head pt2"
    using reindexed by (simp_all add: pt3 pt2_def marker_side_def)
  have f3: "freelist_ok pt3" using P(2) unfolding freelist_ok_def p3(1,4,7,8) .
  have O3: "only_entry eid pt pt3" using P(3) unfolding only_entry_def p3(1-3) .
  have "freelist_ok pt" "pt_capacity pt \<le> 16777216" using ok by (auto simp: part_ok_def indexed_def)
  then have cnt: "pt_entry_count pt \<le> 16777216"
    using card_mono[OF _ entry_ids_subset[of pt]] by (simp add: freelist_ok_def)
  have lv3: "live pt3 eid" "pt_entry_count pt3 = pt_entry_count pt + 1" "pt_entry_count pt3 \<le> 16777217" "marker_side pt3 = marker_side pt"
    "pt_entry_generation pt \<le> pt_entry_generation pt3"
    using P(4,10-12) p3(3,5-7) cnt by simp_all
  have at3: "entry_at pt3 eid = entry_at pt2 eid" by (simp add: p3(1))
  have e3: "ce_block_ref (entry_at pt3 eid) = r" "ce_block_len (entry_at pt3 eid) = n" unfolding at3 P(6) by (simp_all add: fresh_entry_def)
  show ?thesis
  proof (rule undo_admission[OF L refl f3 O3 lv3(1) P(7) lv3(2-5), unfolded e3, where gl = "release_cache_entry gl"])
    fix a assume a: "pglc_arena_free (pt_arena pt3) r n = (a, True)"
      and sh: "\<And>e'. \<not> ce_in_use e' \<Longrightarrow> ce_free_next e' = pt_free_entry_head pt3 \<Longrightarrow>
        sheds hf Map.empty (\<lambda>x e. True) pt (release_cache_entry gl) ((set_entry eid e' (pt3\<lparr>pt_arena := a\<rparr>))
          \<lparr>pt_free_entry_head := eid, pt_entry_count := u32_sub (pt_entry_count pt3) 1\<rparr>) (release_cache_entry gl)"
    have "sheds hf Map.empty (\<lambda>x e. True) pt (release_cache_entry gl) (unlinked eid pt3 a) (release_cache_entry gl)"
      unfolding unlinked_def by (rule sh) simp_all
    then have "sheds hf Map.empty (\<lambda>x e. True) pt (release_cache_entry gl) (unlinked eid pt3 a)
        (cache_admission_rejected pr False (release_cache_entry gl))"
      by (rule sheds_globals) simp_all
    then show ?thesis using run a unfolding eid_def by simp
  qed
qed

lemma admit_open:
  assumes ok: "part_ok hf [r \<mapsto> n] pt" and q: "asks_for q i" "eq_hash q = hf i" "eq_key_len q = n" "n < PGLC_KEY_MAX"
    and new: "\<forall>x. live pt x \<longrightarrow> ident pt (entry_at pt x) \<noteq> i"
    and h: "pt_free_entry_head pt \<noteq> 0" "pt_entry_generation pt \<noteq> UINT64_MAX"
    and b: "open_bucket pt (eq_hash q)" "\<not> pglc_index_needs_rebuild (pt_index pt)"
  shows "\<exists>pt'. admit_entry pr q r pt gl = (Inr (Some (pt_free_entry_head pt)), pt', gl) \<and> pt_entry_generation pt' = pt_entry_generation pt + 1 \<and>
    pages (pt_arena pt') = pages (pt_arena pt) \<and> page_count (pt_arena pt') = page_count (pt_arena pt)"
proof -
  obtain ri q' ix where ins: "insert_entry (eq_hash q) (pt_free_entry_head pt) (q\<lparr>eq_expected_id := pt_free_entry_head pt\<rparr>) (candidate q r pt) =
      (ri, q', (candidate q r pt)\<lparr>pt_index := ix\<rparr>)" "\<not> eq_corrupt q'" "ri = PGLC_INDEX_INSERTED"
    using candidate_inserted[OF ok q new h(1)] b by metis
  show ?thesis using admit_body[OF ok q new h ins(1,2)] ins(3) candidate_ok(11)[OF ok q new h(1)] by (simp add: candidate_def placed_def)
qed

lemma admit_spec:
  assumes ok: "part_ok hf [r \<mapsto> n] pt" and q: "asks_for q i" "eq_hash q = hf i" "eq_key_len q = n" "n < PGLC_KEY_MAX"
    and new: "\<And>x. live pt x \<Longrightarrow> ident pt (entry_at pt x) \<noteq> i"
    and run: "admit_entry pr q r pt gl = (res, pt', gl')"
  shows "case res of Inl err \<Rightarrow> err = Generation_Overflow
    | Inr None \<Rightarrow> sheds hf Map.empty (\<lambda>x e. True) pt (release_cache_entry gl) pt' gl'
    | Inr (Some eid) \<Rightarrow> admitted hf i eid pt pt' \<and> gl' = gl"
proof -
  have new': "\<forall>x. live pt x \<longrightarrow> ident pt (entry_at pt x) \<noteq> i" using new by blast
  define eid where "eid = pt_free_entry_head pt"
  consider "eid = 0" | "eid \<noteq> 0" "pt_entry_generation pt = UINT64_MAX" | "eid \<noteq> 0" "pt_entry_generation pt \<noteq> UINT64_MAX" by blast
  then show ?thesis
  proof cases
    case 1
    obtain a where a: "pglc_arena_free (pt_arena pt) r n = (a, True)"
      "sheds hf Map.empty (\<lambda>x e. True) pt (release_cache_entry gl) (pt\<lparr>pt_arena := a\<rparr>) (release_cache_entry gl)"
      using free_held[OF ok] by blast
    have "res = Inr None \<and> pt' = pt\<lparr>pt_arena := a\<rparr> \<and> gl' = cache_admission_rejected pr False (release_cache_entry gl)"
      using run a(1) 1 unfolding admit_entry_def Let_def eid_def[symmetric] q(3) by auto
    then show ?thesis using sheds_globals[OF a(2)] by simp
  next
    case 2
    then have "res = Inl Generation_Overflow"
      using run candidate_ok(7-9)[OF ok q new'] unfolding admit_entry_def Let_def eid_def
      by (auto simp: next_entry_generation_def live_def)
    then show ?thesis by simp
  next
    case 3
    note h = 3[unfolded eid_def]
    obtain ri q' ix where ins: "insert_entry (eq_hash q) eid (q\<lparr>eq_expected_id := eid\<rparr>) (candidate q r pt) = (ri, q', (candidate q r pt)\<lparr>pt_index := ix\<rparr>)"
      "\<not> eq_corrupt q'" "ri = PGLC_INDEX_INSERTED \<and> admitted hf i eid pt ((candidate q r pt)\<lparr>pt_index := ix\<rparr>) \<or>
       ri = PGLC_INDEX_PROBE_LIMIT \<and> linked hf Map.empty (entry_ids pt) ((candidate q r pt)\<lparr>pt_index := ix\<rparr>)"
      using candidate_inserted[OF ok q new' h(1), folded eid_def] by metis
    define pt3 where "pt3 = (candidate q r pt)\<lparr>pt_index := ix\<rparr>"
    note body = admit_body[OF ok q new' h ins(1,2)[unfolded eid_def], of pr gl, folded eid_def, folded pt3_def, unfolded run]
    show ?thesis
    proof (cases "ri = PGLC_INDEX_INSERTED")
      case True
      then show ?thesis using body ins(3)[folded pt3_def] by auto
    next
      case False
      then have L: "linked hf Map.empty (entry_ids pt) pt3" using ins(3) unfolding pt3_def by blast
      have "sheds hf Map.empty (\<lambda>x e. True) pt (release_cache_entry gl) pt' gl' \<and> res = Inr None"
        by (rule admit_undone[OF ok q new' h pt3_def[unfolded eid_def] L body[unfolded if_not_P[OF False] eid_def]])
      then show ?thesis by simp
    qed
  qed
qed

definition created :: "(ident \<Rightarrow> nat) \<Rightarrow> ident \<Rightarrow> nat \<Rightarrow> nat \<Rightarrow> partition \<Rightarrow> globals \<Rightarrow> partition \<Rightarrow> globals \<Rightarrow> bool" where
  "created hf i rest eid pt gl pt' gl' \<longleftrightarrow> part_ok hf Map.empty pt' \<and> live pt' eid \<and> ident pt' (entry_at pt' eid) = i \<and>
     \<not> ce_valid (entry_at pt' eid) \<and> \<not> ce_loading (entry_at pt' eid) \<and> ce_dirty_writers (entry_at pt' eid) = 0 \<and>
     ce_version (entry_at pt' eid) = pt_entry_generation pt' \<and> pt_entry_generation pt < pt_entry_generation pt' \<and>
     pt_capacity pt' = pt_capacity pt \<and> marker_side pt' = marker_side pt \<and>
     (\<forall>x. live pt' x \<longrightarrow> x \<noteq> eid \<longrightarrow> live pt x \<and> revoked (entry_at pt x) (entry_at pt' x) \<and>
        keeps_block (pt_arena pt) (pt_arena pt') (ce_block_ref (entry_at pt x)) \<and> renewed pt pt' x) \<and>
     (\<forall>x. live pt x \<longrightarrow> spared 0 x (entry_at pt x) \<longrightarrow> live pt' x \<and> x \<noteq> eid \<and> entry_at pt' x = entry_at pt x) \<and>
     counted rest pt' gl' \<and> gl_clock gl' = gl_clock gl \<and> gl_dirty_marker_entries gl' = gl_dirty_marker_entries gl \<and>
     gl_dirty_marker_highwater gl' = gl_dirty_marker_highwater gl"

lemma created_by:
  assumes s: "sheds hf X (spared 0) pt gl pt1 gl1" and a: "admitted hf i eid pt1 pt'" and c: "counted rest pt gl"
    and g: "gl' = gl1\<lparr>gl_cache_entry_count := u64 (gl_cache_entry_count gl1 + 1)\<rparr>" "gl_cache_entry_count gl1 < pglc_cache_entries st"
      "pglc_cache_entries st < 2 ^ 32"
  shows "created hf i rest eid pt gl pt' gl'"
proof -
  have A: "part_ok hf Map.empty pt'" "only_entry eid pt1 pt'" "\<not> live pt1 eid" "live pt' eid"
    "pt_entry_generation pt' = pt_entry_generation pt1 + 1" "marker_side pt' = marker_side pt1" "pt_entry_count pt' = pt_entry_count pt1 + 1"
    using a by (auto simp: admitted_def)
  have old: "live pt x \<and> revoked (entry_at pt x) (entry_at pt' x) \<and>
      keeps_block (pt_arena pt) (pt_arena pt') (ce_block_ref (entry_at pt x)) \<and> renewed pt pt' x" if "live pt' x" "x \<noteq> eid" for x
  proof -
    have x1: "live pt1 x" using only_entryD(1)[OF A(2)] that by blast
    note D = only_entryD(3,4)[OF A(2) that(2) x1] shedsD(4,5,6,14)[OF s x1]
    have "renewed pt pt' x" using renewed_trans[OF D(6) renewed_same[OF D(1)] shedsD(9)[OF s]] A(5) by simp
    moreover have "ce_block_ref (entry_at pt1 x) = ce_block_ref (entry_at pt x)" using revoked_same(1)[OF D(4)] .
    ultimately show ?thesis using D(1,3,4) keeps_block_trans[OF D(5)] D(2) by simp
  qed
  have keep: "live pt' x \<and> x \<noteq> eid \<and> entry_at pt' x = entry_at pt x" if "live pt x" "spared 0 x (entry_at pt x)" for x
  proof -
    note D = shedsD(7,8)[OF s that]
    have "x \<noteq> eid" using D(1) A(3) by blast
    then show ?thesis using only_entryD(1,3)[OF A(2), of x] D by simp
  qed
  have "counted rest pt1 gl1" by (rule shedsD(10)[OF s c])
  then have "counted rest pt' gl'" using g A(7) by (simp add: counted_def u64_def)
  then show ?thesis using a A old keep shedsD(2,3,9,11-13)[OF s] g(1)
    unfolding created_def admitted_def only_entry_def by simp
qed

lemma abandon_spec:
  assumes "part_ok hf [r \<mapsto> n] pt"
  obtains pt' gl' where "abandon_admission pr r n pt gl = (Inr None, pt', gl')" "sheds hf Map.empty K pt gl pt' gl'"
proof -
  obtain a where a: "pglc_arena_free (pt_arena pt) r n = (a, True)" "sheds hf Map.empty K pt gl (pt\<lparr>pt_arena := a\<rparr>) gl"
    using free_held[OF assms] by blast
  show thesis using that[of "pt\<lparr>pt_arena := a\<rparr>" "cache_admission_rejected pr False gl"] a(1) sheds_globals[OF a(2)]
    by (simp add: abandon_admission_def)
qed

text \<open>Reservation and admission, once the block and a free descriptor are there.\<close>

lemma reserve_and_admit:
  assumes base: "part_ok hf Map.empty pt" "counted rest pt gl" "pglc_cache_entries s < 2 ^ 32"
    and s1: "sheds hf [r \<mapsto> n] (spared 0) pt gl pt1 gl1"
    and q: "asks_for q i" "eq_hash q = hf i" "eq_key_len q = n" "n < PGLC_KEY_MAX"
    and new: "\<And>x. live pt x \<Longrightarrow> ident pt (entry_at pt x) \<noteq> i"
    and run: "(case reserve_with_eviction pr s fs nows k pt1 gl1 of
       (Inl e, k, pt, gl) \<Rightarrow> (Inl e, pt, gl)
     | (Inr False, k, pt, gl) \<Rightarrow> abandon_admission pr r n pt gl
     | (Inr True, k, pt, gl) \<Rightarrow> admit_entry pr q r pt gl) = (res, pt', gl')"
  shows "case res of Inl err \<Rightarrow> err = Generation_Overflow
    | Inr None \<Rightarrow> sheds hf Map.empty (spared 0) pt gl pt' gl'
    | Inr (Some eid) \<Rightarrow> created hf i rest eid pt gl pt' gl'"
proof -
  obtain rr k2 pt2 gl2 where r2: "reserve_with_eviction pr s fs nows k pt1 gl1 = (rr, k2, pt2, gl2)" using prod_cases4 by blast
  note R = reserve_loop_spec[OF shedsD(1)[OF s1] r2 shedsD(10)[OF s1 base(2)]]
  consider err where "rr = Inl err" | "rr = Inr False" | "rr = Inr True" by (metis (full_types) sumE)
  then show ?thesis
  proof cases
    case 1
    then show ?thesis using R run r2 by auto
  next
    case 2
    have s2: "sheds hf [r \<mapsto> n] (spared 0) pt gl pt2 gl2" using R 2 sheds_trans[OF s1] by simp
    obtain p g where a: "abandon_admission pr r n pt2 gl2 = (Inr None, p, g)" "sheds hf Map.empty (spared 0) pt2 gl2 p g"
      using abandon_spec[OF shedsD(1)[OF s2]] by blast
    then show ?thesis using run r2 2 sheds_trans[OF s2 a(2)] by auto
  next
    case 3
    obtain gl0 where g0: "sheds hf [r \<mapsto> n] (spared 0) pt1 gl1 pt2 gl0" "gl_cache_entry_count gl0 < pglc_cache_entries s"
      "gl2 = gl0\<lparr>gl_cache_entry_count := u64 (gl_cache_entry_count gl0 + 1)\<rparr>" using R 3 by auto
    have s2: "sheds hf [r \<mapsto> n] (spared 0) pt gl pt2 gl0" by (rule sheds_trans[OF s1 g0(1)])
    have new2: "ident pt2 (entry_at pt2 x) \<noteq> i" if "live pt2 x" for x
      using sheds_keeps[OF s2 base(1) that] new by metis
    have rel: "release_cache_entry gl2 = gl0" using g0(2,3) base(3) u64_up_down[of "gl_cache_entry_count gl0"]
      by (simp add: release_cache_entry_def)
    have ad: "admit_entry pr q r pt2 gl2 = (res, pt', gl')" using run r2 3 by simp
    note A = admit_spec[OF shedsD(1)[OF s2] q new2 ad]
    consider err where "res = Inl err" | "res = Inr None" | eid where "res = Inr (Some eid)" by (metis option.exhaust sumE)
    then show ?thesis
    proof cases
      case 1
      then show ?thesis using A by simp
    next
      case 2
      then have "sheds hf Map.empty (\<lambda>x e. True) pt2 gl0 pt' gl'" using A rel by simp
      then show ?thesis using 2 sheds_trans[OF s2 sheds_weaken] by simp
    next
      case 3
      then show ?thesis using A created_by[OF s2 _ base(2) g0(3,2) base(3)] by simp
    qed
  qed
qed

lemma create_spec:
  assumes ok: "part_ok hf Map.empty pt" and q: "asks_for q i" "eq_hash q = hf i" "eq_key_len q < PGLC_KEY_MAX"
    and new: "\<And>x. live pt x \<Longrightarrow> ident pt (entry_at pt x) \<noteq> i"
    and c: "counted rest pt gl" "pglc_cache_entries s < 2 ^ 32"
    and run: "create_entry pr s fs nows q pt gl = (res, pt', gl')"
  shows "case res of Inl err \<Rightarrow> err = Generation_Overflow
    | Inr None \<Rightarrow> sheds hf Map.empty (spared 0) pt gl pt' gl'
    | Inr (Some eid) \<Rightarrow> created hf i rest eid pt gl pt' gl'"
proof -
  define n where "n = eq_key_len q"
  obtain rebuilt pt0 where rb: "(if pglc_index_needs_rebuild (pt_index pt) then rebuild_cache_index pt else (True, pt)) = (rebuilt, pt0)"
    by fastforce
  obtain ix0 where p0: "pt0 = pt\<lparr>pt_index := ix0\<rparr>" "part_ok hf Map.empty pt0"
  proof (cases "pglc_index_needs_rebuild (pt_index pt)")
    case True
    then show ?thesis using rb rebuild_part[OF ok] that by auto
  next
    case False
    then show ?thesis using rb ok that[of "pt_index pt"] by auto
  qed
  have s0: "sheds hf Map.empty (spared 0) pt gl pt0 gl"
    using p0(2) unfolding sheds_def counted_def p0(1) by (simp add: reindexed renewed_same)
  show ?thesis
  proof (cases "\<not> rebuilt \<or> cache_marker_find pt0 (eq_hash q) (eq_key q) n (eq_relation_slot q) (eq_slot_generation q) \<noteq> 0")
    case True
    then have "res = Inr None" "pt' = pt0" "gl' = gl" using run rb unfolding create_entry_def Let_def n_def by (auto split: if_splits)
    then show ?thesis using s0 by simp
  next
    case False
    obtain al k1 pt1 gl1 where al: "alloc_with_eviction pr s fs nows n 0 0 pt0 gl = (al, k1, pt1, gl1)" using prod_cases4 by blast
    note A = alloc_loop_spec[OF p0(2) al]
    have run1: "create_entry pr s fs nows q pt gl = (case al of
        Inl e \<Rightarrow> (Inl e, pt1, gl1)
      | Inr None \<Rightarrow> (Inr None, pt1, cache_admission_rejected pr True gl1)
      | Inr (Some (block_ref, class_size)) \<Rightarrow>
        let (freed, k, pt, gl) =
          (if pt_free_entry_head pt1 = 0
           then (case evict_cache_entries pr s fs (nows k1) 0 0 pt1 gl1 of
                   (Inl e, pt, gl) \<Rightarrow> (Inl e, k1 + 1, pt, gl)
                 | (Inr removed, pt, gl) \<Rightarrow> (Inr (removed \<noteq> 0), k1 + 1, pt, gl))
           else (Inr True, k1, pt1, gl1))
        in case freed of
             Inl e \<Rightarrow> (Inl e, pt, gl)
           | Inr False \<Rightarrow> abandon_admission pr block_ref n pt gl
           | Inr True \<Rightarrow>
             case reserve_with_eviction pr s fs nows k pt gl of
               (Inl e, k, pt, gl) \<Rightarrow> (Inl e, pt, gl)
             | (Inr False, k, pt, gl) \<Rightarrow> abandon_admission pr block_ref n pt gl
             | (Inr True, k, pt, gl) \<Rightarrow> admit_entry pr q block_ref pt gl)"
      using rb False al unfolding create_entry_def n_def by (simp split: sum.splits option.splits)
    consider err where "al = Inl err" | "al = Inr None" | r sz where "al = Inr (Some (r, sz))"
      by (metis option.exhaust sumE surj_pair)
    then show ?thesis
    proof cases
      case 1
      then show ?thesis using run run1 A by auto
    next
      case 2
      then have "sheds hf Map.empty (spared 0) pt gl pt1 gl1" using A sheds_trans[OF s0] by simp
      from sheds_globals[OF this] show ?thesis using 2 run run1 by auto
    next
      case 3
      have s1: "sheds hf [r \<mapsto> n] (spared 0) pt gl pt1 gl1" using A 3 sheds_trans[OF s0] by simp
      show ?thesis
      proof (cases "pt_free_entry_head pt1 = 0")
        case False
        have r': "(case reserve_with_eviction pr s fs nows k1 pt1 gl1 of (Inl e, k, pt, gl) \<Rightarrow> (Inl e, pt, gl)
           | (Inr False, k, pt, gl) \<Rightarrow> abandon_admission pr r n pt gl
           | (Inr True, k, pt, gl) \<Rightarrow> admit_entry pr q r pt gl) = (res, pt', gl')"
          using run run1 3 False by simp
        show ?thesis by (rule reserve_and_admit[OF ok c s1 q(1,2) n_def[symmetric] q(3)[folded n_def] new r'])
      next
        case True
        obtain ev pt2 gl2 where e: "evict_cache_entries pr s fs (nows k1) 0 0 pt1 gl1 = (ev, pt2, gl2)" using prod_cases3 by blast
        note E = evict_spared[OF shedsD(1)[OF s1] e]
        note s2 = sheds_trans[OF s1 E(1)]
        consider err where "ev = Inl err" | "ev = Inr 0" | m where "ev = Inr m" "m \<noteq> 0" by (cases ev) auto
        then show ?thesis
        proof cases
          case 1
          then show ?thesis using run run1 3 True e E(2) by auto
        next
          case 2
          obtain p g where a: "abandon_admission pr r n pt2 gl2 = (Inr None, p, g)" "sheds hf Map.empty (spared 0) pt2 gl2 p g"
            using abandon_spec[OF shedsD(1)[OF s2]] by blast
          then show ?thesis using run run1 3 True e 2 sheds_trans[OF s2 a(2)] by auto
        next
          case m: 3
          have r': "(case reserve_with_eviction pr s fs nows (k1 + 1) pt2 gl2 of (Inl e, k, pt, gl) \<Rightarrow> (Inl e, pt, gl)
             | (Inr False, k, pt, gl) \<Rightarrow> abandon_admission pr r n pt gl
             | (Inr True, k, pt, gl) \<Rightarrow> admit_entry pr q r pt gl) = (res, pt', gl')"
            using run run1 3 True e m by simp
          show ?thesis by (rule reserve_and_admit[OF ok c s2 q(1,2) n_def[symmetric] q(3)[folded n_def] new r'])
        qed
      qed
    qed
  qed
qed

text \<open>
  With a free descriptor, room for the key, an open bucket and a place in the global count,
  a key that no writer holds is admitted without evicting anything.
\<close>

definition admissible :: "settings \<Rightarrow> entry_query \<Rightarrow> partition \<Rightarrow> globals \<Rightarrow> bool" where
  "admissible s q pt gl \<longleftrightarrow> pt_free_entry_head pt \<noteq> 0 \<and> pt_entry_generation pt \<noteq> UINT64_MAX \<and> open_bucket pt (eq_hash q) \<and>
     \<not> pglc_index_needs_rebuild (pt_index pt) \<and> has_room (pt_arena pt) (eq_key_len q) \<and> gl_cache_entry_count gl < pglc_cache_entries s \<and>
     cache_marker_find pt (eq_hash q) (eq_key q) (eq_key_len q) (eq_relation_slot q) (eq_slot_generation q) = 0"

lemma create_open:
  assumes ok: "part_ok hf Map.empty pt" and q: "asks_for q i" "eq_hash q = hf i" "eq_key_len q < PGLC_KEY_MAX"
    and new: "\<forall>x. live pt x \<longrightarrow> ident pt (entry_at pt x) \<noteq> i" and a: "admissible s q pt gl"
  shows "\<exists>pt' gl'. create_entry pr s fs nows q pt gl = (Inr (Some (pt_free_entry_head pt)), pt', gl') \<and>
    pt_entry_generation pt' = pt_entry_generation pt + 1 \<and>
    (\<forall>m. has_room (pt_arena pt') m = has_room (fst (pglc_arena_alloc (pt_arena pt) (eq_key_len q))) m)"
proof -
  define n where "n = eq_key_len q"
  note A = a[unfolded admissible_def, folded n_def]
  obtain M where M: "blocks_ok Map.empty M pt" using ok by (auto simp: part_ok_def)
  have rel: "arena_rel (pt_arena pt) M" using M by (simp add: blocks_ok_def)
  have "pglc_arena_class_size n \<noteq> 0" using q(3) class_size_unfold[of n] by (simp add: n_def)
  then obtain a' r where al: "pglc_arena_alloc (pt_arena pt) n = (a', Some (r, pglc_arena_class_size n))"
    using alloc_Some[OF rel] A by metis
  define pt1 where "pt1 = pt\<lparr>pt_arena := a'\<rparr>"
  define gl1 where "gl1 = gl\<lparr>gl_cache_entry_count := u64 (gl_cache_entry_count gl + 1)\<rparr>"
  have s1: "sheds hf [r \<mapsto> n] (spared 0) pt gl pt1 gl" using alloc_part[OF ok al, of "spared 0" gl] by (simp add: pt1_def)
  have new1: "\<forall>x. live pt1 x \<longrightarrow> ident pt1 (entry_at pt1 x) \<noteq> i" using sheds_keeps[OF s1 ok] new by metis
  have h: "pt_free_entry_head pt1 \<noteq> 0" "pt_entry_generation pt1 \<noteq> UINT64_MAX" "open_bucket pt1 (eq_hash q)"
    "\<not> pglc_index_needs_rebuild (pt_index pt1)"
    using A by (simp_all add: pt1_def open_bucket_def)
  obtain pt' where ad: "admit_entry pr q r pt1 gl1 = (Inr (Some (pt_free_entry_head pt1)), pt', gl1)"
    "pt_entry_generation pt' = pt_entry_generation pt1 + 1"
    "pages (pt_arena pt') = pages a'" "page_count (pt_arena pt') = page_count a'"
    using admit_open[OF shedsD(1)[OF s1] q(1,2) n_def[symmetric] q(3)[folded n_def] new1 h] by (auto simp: pt1_def)
  have "create_entry pr s fs nows q pt gl = admit_entry pr q r pt1 gl1"
    using A al unfolding create_entry_def n_def[symmetric] pt1_def gl1_def
    by (simp add: alloc_with_eviction.simps reserve_with_eviction.simps reserve_cache_entry_cases)
  moreover have "has_room (pt_arena pt') m = has_room a' m" for m using ad(3,4) by (simp add: has_room_def)
  ultimately show ?thesis using ad al by (simp add: pt1_def n_def)
qed

end
