(* ===== verification/Markers.thy ===== *)
theory Markers
  imports Entries
begin

text \<open>
  What holds of the dirty markers of a partition. A marker counts the writers that hold one
  key dirty. \<open>markers_ok\<close> is the invariant: the markers in use have pairwise different
  identities and key slots and are exactly what the marker index serves, and the other
  markers and key slots form two free lists.

  \<open>marker_writers\<close> is the abstract state: the number of writers per identity. Reserving adds
  one to a single identity, releasing a token takes one away, a stale token changes nothing,
  and a lookup tells whether the count is zero.
\<close>

section \<open>Invariant\<close>

type_synonym marker_ident = "nat \<times> nat \<times> nat \<times> char list"

definition mlive :: "partition \<Rightarrow> nat \<Rightarrow> bool" where
  "mlive pt m \<longleftrightarrow> m \<noteq> 0 \<and> m \<le> pt_marker_capacity pt \<and> dm_in_use (marker_at pt m)"

definition marker_ids :: "partition \<Rightarrow> nat set" where
  "marker_ids pt = {m. mlive pt m}"

definition mident :: "partition \<Rightarrow> dirty_marker \<Rightarrow> marker_ident" where
  "mident pt d = (dm_key_hash d, dm_relation_slot d, dm_relation_slot_generation d,
     load_bytes (pt_marker_key_arena pt) ((dm_key_slot d - 1) * PGLC_KEY_MAX) (dm_key_len d))"

definition marker_shape :: "partition \<Rightarrow> dirty_marker \<Rightarrow> bool" where
  "marker_shape pt d \<longleftrightarrow> dm_key_slot d \<noteq> 0 \<and> dm_key_slot d \<le> pt_marker_key_capacity pt \<and> dm_key_len d < PGLC_KEY_MAX \<and>
     0 < dm_writer_count d \<and> dm_writer_count d \<le> UINT32_MAX \<and> dm_generation d \<le> pt_marker_generation pt"

definition marks_ok :: "partition \<Rightarrow> bool" where
  "marks_ok pt \<longleftrightarrow> pt_marker_key_capacity pt \<le> UINT32_MAX \<and> pt_marker_generation pt \<le> UINT64_MAX \<and>
     (\<forall>m. mlive pt m \<longrightarrow> marker_shape pt (marker_at pt m)) \<and>
     inj_on (\<lambda>m. dm_key_slot (marker_at pt m)) (marker_ids pt) \<and> inj_on (\<lambda>m. mident pt (marker_at pt m)) (marker_ids pt)"

definition mindexed :: "nat set \<Rightarrow> partition \<Rightarrow> bool" where
  "mindexed ids pt \<longleftrightarrow> pt_marker_capacity pt \<le> 16777216 \<and> pglc_partition_index_valid pt True \<and>
     index_ok (pt_marker_index pt) (\<lambda>m. dm_key_hash (marker_at pt m)) ids"

definition mchains_ok :: "partition \<Rightarrow> bool" where
  "mchains_ok pt \<longleftrightarrow>
     chain_ok (\<lambda>m. dm_free_next (marker_at pt m)) (pt_marker_free_head pt) ({1..pt_marker_capacity pt} - marker_ids pt) \<and>
     chain_ok (\<lambda>k. pt_marker_key_free_next pt ! (k - 1)) (pt_marker_key_free_head pt)
       ({1..pt_marker_key_capacity pt} - (\<lambda>m. dm_key_slot (marker_at pt m)) ` marker_ids pt)"

definition markers_ok :: "partition \<Rightarrow> bool" where
  "markers_ok pt \<longleftrightarrow> marks_ok pt \<and> mindexed (marker_ids pt) pt \<and> mchains_ok pt \<and> pt_marker_count pt = card (marker_ids pt)"

text \<open>What the markers say: how many writers hold an identity dirty.\<close>

definition marker_writers :: "partition \<Rightarrow> marker_ident \<Rightarrow> nat" where
  "marker_writers pt i = (\<Sum>m \<in> {m \<in> marker_ids pt. mident pt (marker_at pt m) = i}. dm_writer_count (marker_at pt m))"

lemma finite_marker_ids: "finite (marker_ids pt)"
  by (rule finite_subset[of _ "{..pt_marker_capacity pt}"]) (auto simp: marker_ids_def mlive_def)

lemma marks_okD:
  assumes "marks_ok pt"
  shows "mlive pt m \<Longrightarrow> marker_shape pt (marker_at pt m)"
    "mlive pt m \<Longrightarrow> mlive pt m' \<Longrightarrow> mident pt (marker_at pt m) = mident pt (marker_at pt m') \<Longrightarrow> m = m'"
    "mlive pt m \<Longrightarrow> mlive pt m' \<Longrightarrow> dm_key_slot (marker_at pt m) = dm_key_slot (marker_at pt m') \<Longrightarrow> m = m'"
    "pt_marker_key_capacity pt \<le> UINT32_MAX" "pt_marker_generation pt \<le> UINT64_MAX"
  using assms unfolding marks_ok_def marker_ids_def inj_on_def by auto

lemma writers_one:
  assumes "marks_ok pt" "mlive pt m"
  shows "marker_writers pt (mident pt (marker_at pt m)) = dm_writer_count (marker_at pt m)"
proof -
  have "{x \<in> marker_ids pt. mident pt (marker_at pt x) = mident pt (marker_at pt m)} = {m}"
    using marks_okD(2)[OF assms(1)] assms(2) by (auto simp: marker_ids_def)
  then show ?thesis by (simp add: marker_writers_def)
qed

lemma writers_none:
  "(\<And>m. mlive pt m \<Longrightarrow> mident pt (marker_at pt m) \<noteq> i) \<Longrightarrow> marker_writers pt i = 0"
  by (auto simp: marker_writers_def marker_ids_def intro!: sum.neutral)

lemma writers_pos_iff:
  assumes "marks_ok pt"
  shows "0 < marker_writers pt i \<longleftrightarrow> (\<exists>m. mlive pt m \<and> mident pt (marker_at pt m) = i)"
proof
  show "\<exists>m. mlive pt m \<and> mident pt (marker_at pt m) = i" if "0 < marker_writers pt i"
    using that writers_none[of pt i] by force
  show "0 < marker_writers pt i" if "\<exists>m. mlive pt m \<and> mident pt (marker_at pt m) = i"
    using that writers_one[OF assms] marks_okD(1)[OF assms] by (force simp: marker_shape_def)
qed

section \<open>The index callbacks of markers\<close>

definition healthy_marker :: "marker_query \<Rightarrow> nat \<Rightarrow> bool" where
  "healthy_marker q m \<longleftrightarrow> mlive (mq_partition q) m \<and> dm_key_len (marker_at (mq_partition q) m) \<le> PGLC_KEY_MAX \<and>
     mq_key_len q \<le> PGLC_KEY_MAX \<and>
     marker_key_offset (mq_partition q) (dm_key_slot (marker_at (mq_partition q) m)) =
       Some ((dm_key_slot (marker_at (mq_partition q) m) - 1) * PGLC_KEY_MAX)"

definition marker_hash_of :: "marker_query \<Rightarrow> nat \<Rightarrow> nat" where
  "marker_hash_of q m = dm_key_hash (marker_at (mq_partition q) m)"

definition marker_asked :: "marker_query \<Rightarrow> nat \<Rightarrow> bool" where
  "marker_asked q m \<longleftrightarrow> (let pt = mq_partition q; d = marker_at pt m in
     dm_key_hash d = mq_hash q \<and> dm_relation_slot d = mq_relation_slot q \<and>
     dm_relation_slot_generation d = mq_relation_slot_generation q \<and> dm_key_len d = mq_key_len q \<and>
     load_bytes (pt_marker_key_arena pt) ((dm_key_slot d - 1) * PGLC_KEY_MAX) (mq_key_len q) = take (mq_key_len q) (mq_key q))"

interpretation marker_lookup: index_callbacks marker_hash_by_id marker_matches_query healthy_marker marker_hash_of marker_asked
  by unfold_locales
    (auto simp: marker_hash_by_id_def marker_matches_query_def healthy_marker_def marker_hash_of_def marker_asked_def mlive_def Let_def)

interpretation marker_by_id: index_callbacks marker_hash_by_id marker_matches_id healthy_marker marker_hash_of
  "\<lambda>q m. m = mq_expected_id q"
  by unfold_locales
    (auto simp: marker_hash_by_id_def marker_matches_id_def healthy_marker_def marker_hash_of_def mlive_def)

lemma key_offset_ok:
  assumes "marks_ok pt" "k \<noteq> 0" "k \<le> pt_marker_key_capacity pt"
  shows "marker_key_offset pt k = Some ((k - 1) * PGLC_KEY_MAX)"
  using assms marks_okD(4)[OF assms(1)] by (auto simp: marker_key_offset_def)

lemma marker_served:
  assumes ok: "marks_ok pt" and ix: "mindexed ids pt" "ids \<subseteq> marker_ids pt" and q: "mq_partition q = pt" "mq_key_len q \<le> PGLC_KEY_MAX"
  shows "marker_lookup.served (pt_marker_index pt) ids q" "marker_by_id.served (pt_marker_index pt) ids q"
proof -
  have "healthy_marker q m" if "m \<in> ids" for m
  proof -
    have l: "mlive pt m" using that ix(2) by (auto simp: marker_ids_def)
    then show ?thesis using marks_okD(1)[OF ok l] key_offset_ok[OF ok, of "dm_key_slot (marker_at pt m)"] q
      by (auto simp: healthy_marker_def marker_shape_def)
  qed
  then show "marker_lookup.served (pt_marker_index pt) ids q" "marker_by_id.served (pt_marker_index pt) ids q"
    using ix(1) q(1) unfolding marker_lookup.served_def marker_by_id.served_def mindexed_def marker_hash_of_def by auto
qed

lemma marker_asked_iff:
  assumes "mq_partition q = pt" "mq_key_len q = length (mq_key q)"
  shows "marker_asked q m \<longleftrightarrow> mident pt (marker_at pt m) =
    (mq_hash q, mq_relation_slot q, mq_relation_slot_generation q, mq_key q)"
proof -
  define d where "d = marker_at pt m"
  have L: "dm_key_len d = length (mq_key q)"
    if "load_bytes (pt_marker_key_arena pt) ((dm_key_slot d - 1) * PGLC_KEY_MAX) (dm_key_len d) = mq_key q"
    using arg_cong[OF that, of length] by simp
  show ?thesis using assms L unfolding marker_asked_def mident_def Let_def assms(1) d_def[symmetric]
    by (auto simp: assms(2))
qed

text \<open>The lookup every marker operation starts with.\<close>

lemma marker_index_find:
  assumes ok: "markers_ok pt" and q: "mq_partition q = pt" "mq_key_len q = length (mq_key q)" "mq_key_len q \<le> PGLC_KEY_MAX"
    and i: "i = (mq_hash q, mq_relation_slot q, mq_relation_slot_generation q, mq_key q)"
  shows "mlive pt m \<Longrightarrow> mident pt (marker_at pt m) = i \<Longrightarrow>
      pglc_index_find (pt_marker_index pt) (mq_hash q) marker_hash_by_id marker_matches_query q = (m, q)"
    "(\<And>m. mlive pt m \<Longrightarrow> mident pt (marker_at pt m) \<noteq> i) \<Longrightarrow>
      pglc_index_find (pt_marker_index pt) (mq_hash q) marker_hash_by_id marker_matches_query q = (0, q)"
proof -
  have mo: "marks_ok pt" and mi: "mindexed (marker_ids pt) pt" using ok by (auto simp: markers_ok_def)
  note sv = marker_served(1)[OF mo mi order_refl q(1,3)]
  note F = marker_lookup.find_served[OF sv, of "mq_hash q"]
  show "pglc_index_find (pt_marker_index pt) (mq_hash q) marker_hash_by_id marker_matches_query q = (m, q)"
    if m: "mlive pt m" "mident pt (marker_at pt m) = i"
  proof -
    have a: "marker_asked q x \<longleftrightarrow> x = m" if "x \<in> marker_ids pt" for x
      using marker_asked_iff[OF q(1,2)] marks_okD(2)[OF mo] that m i by (auto simp: marker_ids_def)
    have h: "marker_hash_of q m = mq_hash q" using m(2) i q(1) by (simp add: marker_hash_of_def mident_def)
    have ex: "\<exists>x \<in> marker_ids pt. marker_hash_of q x = mq_hash q \<and> marker_asked q x"
      using a[of m] h m(1) by (auto simp: marker_ids_def)
    show ?thesis using F[unfolded if_P[OF ex]] a by auto
  qed
  show "pglc_index_find (pt_marker_index pt) (mq_hash q) marker_hash_by_id marker_matches_query q = (0, q)"
    if no: "\<And>m. mlive pt m \<Longrightarrow> mident pt (marker_at pt m) \<noteq> i"
  proof -
    have ex: "\<not> (\<exists>x \<in> marker_ids pt. marker_hash_of q x = mq_hash q \<and> marker_asked q x)"
      using no marker_asked_iff[OF q(1,2)] i by (auto simp: marker_ids_def)
    show ?thesis using F[unfolded if_not_P[OF ex]] .
  qed
qed

text \<open>A key is reported dirty exactly while some writer holds it.\<close>

lemma marker_find_spec:
  assumes ok: "markers_ok pt" and len: "length key < PGLC_KEY_MAX"
  shows "cache_marker_find pt hash key (length key) slot gen = 0 \<longleftrightarrow> marker_writers pt (hash, slot, gen, key) = 0"
    "mlive pt m \<Longrightarrow> mident pt (marker_at pt m) = (hash, slot, gen, key) \<Longrightarrow>
      cache_marker_find pt hash key (length key) slot gen = m"
proof -
  define q where "q = (blank_marker_query pt)\<lparr>mq_hash := hash, mq_key := key, mq_key_len := length key,
    mq_relation_slot := slot, mq_relation_slot_generation := gen\<rparr>"
  have q: "mq_partition q = pt" "mq_key_len q = length (mq_key q)" "mq_key_len q \<le> PGLC_KEY_MAX" "\<not> mq_corrupt q"
    "(hash, slot, gen, key) = (mq_hash q, mq_relation_slot q, mq_relation_slot_generation q, mq_key q)" "mq_hash q = hash"
    using len by (simp_all add: q_def blank_marker_query_def)
  have mo: "marks_ok pt" and v: "pglc_partition_index_valid pt True" using ok by (auto simp: markers_ok_def mindexed_def)
  note F = marker_index_find[OF ok q(1-3,5), unfolded q(6)]
  have E: "cache_marker_find pt hash key (length key) slot gen =
      (case pglc_index_find (pt_marker_index pt) hash marker_hash_by_id marker_matches_query q of
         (marker_id, q) \<Rightarrow> if mq_corrupt q then PGLC_INDEX_TOMBSTONE else marker_id)"
    using v by (simp add: cache_marker_find_def q_def Let_def)
  show found: "cache_marker_find pt hash key (length key) slot gen = m"
    if "mlive pt m" "mident pt (marker_at pt m) = (hash, slot, gen, key)" for m
    unfolding E F(1)[OF that] using q(4) by simp
  show "cache_marker_find pt hash key (length key) slot gen = 0 \<longleftrightarrow> marker_writers pt (hash, slot, gen, key) = 0"
  proof (cases "\<exists>m. mlive pt m \<and> mident pt (marker_at pt m) = (hash, slot, gen, key)")
    case True
    then obtain m where m: "mlive pt m" "mident pt (marker_at pt m) = (hash, slot, gen, key)" by blast
    then show ?thesis using found[OF m] writers_pos_iff[OF mo, of "(hash, slot, gen, key)"] by (auto simp: mlive_def)
  next
    case False
    then have "cache_marker_find pt hash key (length key) slot gen = 0" unfolding E using F(2) q(4) by fastforce
    then show ?thesis using writers_none[of pt "(hash, slot, gen, key)"] False by blast
  qed
qed

section \<open>Changing one marker\<close>

text \<open>The entry side of a partition, which marker operations never touch.\<close>

definition entry_side where
  "entry_side pt = (pt_entries pt, pt_index pt, pt_arena pt, pt_entry_generation pt, pt_eviction_bucket_cursor pt,
     pt_entry_count pt, pt_free_entry_head pt)"

lemma entry_side_simps [simp]:
  "entry_side (set_marker m d pt) = entry_side pt" "entry_side (pt\<lparr>pt_marker_index := ix\<rparr>) = entry_side pt"
  "entry_side (pt\<lparr>pt_marker_free_head := h\<rparr>) = entry_side pt" "entry_side (pt\<lparr>pt_marker_key_free_head := h\<rparr>) = entry_side pt"
  "entry_side (pt\<lparr>pt_marker_key_free_next := ks\<rparr>) = entry_side pt" "entry_side (pt\<lparr>pt_marker_key_arena := a\<rparr>) = entry_side pt"
  "entry_side (pt\<lparr>pt_marker_generation := g\<rparr>) = entry_side pt" "entry_side (pt\<lparr>pt_marker_count := c\<rparr>) = entry_side pt"
  by (simp_all add: entry_side_def set_marker_def)

lemma part_ok_entry_side: "part_ok hf X pt \<Longrightarrow> entry_side pt' = entry_side pt \<Longrightarrow> part_ok hf X pt'"
  by (rule part_ok_cong) (simp_all add: entry_side_def)

lemma entry_side_same:
  assumes "entry_side pt' = entry_side pt"
  shows "live pt' = live pt" "ident pt' = ident pt" "block_bytes pt' = block_bytes pt"
  using assms by (auto simp: entry_side_def live_def ident_def block_bytes_def fun_eq_iff)

text \<open>Conversely the markers do not depend on the entry side.\<close>

lemma markers_ok_marker_side:
  assumes "marker_side pt' = marker_side pt"
  shows "markers_ok pt' = markers_ok pt" "marker_writers pt' = marker_writers pt" "mlive pt' = mlive pt"
proof -
  have e: "pt_markers pt' = pt_markers pt" "pt_marker_index pt' = pt_marker_index pt" "pt_marker_key_arena pt' = pt_marker_key_arena pt"
    "pt_marker_key_free_next pt' = pt_marker_key_free_next pt" "pt_marker_generation pt' = pt_marker_generation pt"
    "pt_marker_free_head pt' = pt_marker_free_head pt" "pt_marker_key_free_head pt' = pt_marker_key_free_head pt"
    "pt_marker_count pt' = pt_marker_count pt" using assms by (simp_all add: marker_side_def)
  show l: "mlive pt' = mlive pt" by (simp add: fun_eq_iff mlive_def e)
  have i: "marker_ids pt' = marker_ids pt" "mident pt' = mident pt" by (auto simp: marker_ids_def l mident_def e fun_eq_iff)
  show "marker_writers pt' = marker_writers pt" by (simp add: fun_eq_iff marker_writers_def i e)
  have v: "pglc_partition_index_valid pt' True = pglc_partition_index_valid pt True"
    unfolding pglc_partition_index_valid_def if_True e ..
  have sh: "marker_shape pt' = marker_shape pt" by (simp add: fun_eq_iff marker_shape_def e)
  show "markers_ok pt' = markers_ok pt"
    unfolding markers_ok_def marks_ok_def mindexed_def mchains_ok_def i l e v sh ..
qed

definition only_marker :: "nat \<Rightarrow> partition \<Rightarrow> partition \<Rightarrow> bool" where
  "only_marker m pt pt' \<longleftrightarrow> pt_marker_capacity pt' = pt_marker_capacity pt \<and> pt_marker_key_capacity pt' = pt_marker_key_capacity pt \<and>
     pt_marker_generation pt \<le> pt_marker_generation pt' \<and> pt_marker_generation pt' \<le> UINT64_MAX \<and>
     (\<forall>x. x \<noteq> m \<longrightarrow> x \<noteq> 0 \<longrightarrow> marker_at pt' x = marker_at pt x) \<and>
     (\<forall>x. x \<noteq> m \<longrightarrow> mlive pt x \<longrightarrow> mident pt' (marker_at pt x) = mident pt (marker_at pt x))"

lemma only_markerD:
  assumes "only_marker m pt pt'" "x \<noteq> m"
  shows "mlive pt' x \<longleftrightarrow> mlive pt x" "x \<noteq> 0 \<Longrightarrow> marker_at pt' x = marker_at pt x" "mlive pt x \<Longrightarrow> marker_at pt' x = marker_at pt x"
    "mlive pt x \<Longrightarrow> mident pt' (marker_at pt' x) = mident pt (marker_at pt x)"
  using assms unfolding only_marker_def mlive_def by auto

lemma only_marker_ids: "only_marker m pt pt' \<Longrightarrow> marker_ids pt' - {m} = marker_ids pt - {m}"
  using only_markerD(1) unfolding marker_ids_def by auto

lemma marks_step:
  assumes O: "only_marker m pt pt'" and ok: "marks_ok pt"
    and new: "mlive pt' m \<Longrightarrow> marker_shape pt' (marker_at pt' m)"
    and slot: "\<And>x. mlive pt' m \<Longrightarrow> mlive pt x \<Longrightarrow> x \<noteq> m \<Longrightarrow> dm_key_slot (marker_at pt' m) \<noteq> dm_key_slot (marker_at pt x)"
    and idn: "\<And>x. mlive pt' m \<Longrightarrow> mlive pt x \<Longrightarrow> x \<noteq> m \<Longrightarrow> mident pt' (marker_at pt' m) \<noteq> mident pt (marker_at pt x)"
  shows "marks_ok pt'"
proof -
  have inj: "inj_on f' (marker_ids pt')" if f: "\<And>x. mlive pt x \<Longrightarrow> x \<noteq> m \<Longrightarrow> f' x = f x"
    and i: "\<And>x y. mlive pt x \<Longrightarrow> mlive pt y \<Longrightarrow> f x = f y \<Longrightarrow> x = y"
    and n: "\<And>x. mlive pt' m \<Longrightarrow> mlive pt x \<Longrightarrow> x \<noteq> m \<Longrightarrow> f' m \<noteq> f x" for f f' :: "nat \<Rightarrow> 'z"
  proof (rule inj_onI)
    fix x y assume xy: "x \<in> marker_ids pt'" "y \<in> marker_ids pt'" "f' x = f' y"
    have l: "mlive pt' x" "mlive pt' y" using xy by (auto simp: marker_ids_def)
    consider "x = m" "y = m" | "x = m" "y \<noteq> m" | "x \<noteq> m" "y = m" | "x \<noteq> m" "y \<noteq> m" by blast
    then show "x = y"
    proof cases
      case 2
      then show ?thesis using n[of y] f[of y] xy(3) l only_markerD(1)[OF O, of y] by auto
    next
      case 3
      then show ?thesis using n[of x] f[of x] xy(3) l only_markerD(1)[OF O, of x] by auto
    next
      case 4
      then show ?thesis using i[of x y] f[of x] f[of y] xy(3) l only_markerD(1)[OF O] by auto
    qed simp
  qed
  have "inj_on (\<lambda>x. dm_key_slot (marker_at pt' x)) (marker_ids pt')"
    by (rule inj[of _ "\<lambda>x. dm_key_slot (marker_at pt x)"]) (use only_markerD(3)[OF O] marks_okD(3)[OF ok] slot in auto)
  moreover have "inj_on (\<lambda>x. mident pt' (marker_at pt' x)) (marker_ids pt')"
    by (rule inj[of _ "\<lambda>x. mident pt (marker_at pt x)"]) (use only_markerD(4)[OF O] marks_okD(2)[OF ok] idn in auto)
  moreover have "marker_shape pt' (marker_at pt' x)" if x: "mlive pt' x" for x
  proof (cases "x = m")
    case False
    then have "mlive pt x" "marker_at pt' x = marker_at pt x" using only_markerD[OF O False] x by auto
    then show ?thesis using marks_okD(1)[OF ok, of x] O by (auto simp: marker_shape_def only_marker_def)
  qed (use new x in simp)
  ultimately show ?thesis using O marks_okD(4,5)[OF ok] unfolding marks_ok_def only_marker_def by auto
qed

lemma mindexed_step:
  assumes O: "only_marker m pt pt'" and ok: "mindexed ids pt" and ix: "bucket_count (pt_marker_index pt') = bucket_count (pt_marker_index pt)"
    "index_ok (pt_marker_index pt') H ids'"
    and H: "\<And>x. x \<in> ids' \<Longrightarrow> H x = dm_key_hash (marker_at pt' x)"
  shows "mindexed ids' pt'"
proof -
  have I: "pglc_partition_index_valid pt True" "index_ok (pt_marker_index pt) (\<lambda>x. dm_key_hash (marker_at pt x)) ids"
    using ok by (auto simp: mindexed_def)
  have c: "pt_marker_capacity pt' = pt_marker_capacity pt" using O by (simp add: only_marker_def)
  have "index_ok (pt_marker_index pt') (\<lambda>x. dm_key_hash (marker_at pt' x)) ids'"
    by (rule index_ok_cong[OF ix(2)]) (use H in simp)
  moreover have "pglc_partition_index_valid pt' True"
    using I(1) index_valid_iff[OF I(2) ix(2,1)] c unfolding pglc_partition_index_valid_def by (auto split: option.splits)
  ultimately show ?thesis using ok c unfolding mindexed_def by simp
qed

text \<open>Only the writers of the changed marker's identities change.\<close>

lemma writers_step:
  assumes O: "only_marker m pt pt'" and ok: "marks_ok pt"
    and i: "mlive pt m \<Longrightarrow> mident pt (marker_at pt m) \<noteq> i" "mlive pt' m \<Longrightarrow> mident pt' (marker_at pt' m) \<noteq> i"
  shows "marker_writers pt' i = marker_writers pt i"
proof -
  have "{x \<in> marker_ids pt'. mident pt' (marker_at pt' x) = i} = {x \<in> marker_ids pt. mident pt (marker_at pt x) = i}"
  proof (intro set_eqI)
    fix x
    show "x \<in> {x \<in> marker_ids pt'. mident pt' (marker_at pt' x) = i} \<longleftrightarrow> x \<in> {x \<in> marker_ids pt. mident pt (marker_at pt x) = i}"
      using i only_markerD(1,4)[OF O, of x] by (cases "x = m") (auto simp: marker_ids_def)
  qed
  then show ?thesis unfolding marker_writers_def
    by (rule sum.cong) (use i(1) only_markerD(3)[OF O] in \<open>force simp: marker_ids_def\<close>)
qed

lemma mchains_pop:
  assumes O: "only_marker m pt pt'" and ok: "mchains_ok pt" and m: "mlive pt' m" "pt_marker_free_head pt = m"
    and k: "pt_marker_key_free_head pt = dm_key_slot (marker_at pt' m)" "dm_key_slot (marker_at pt' m) \<noteq> 0"
    and f: "pt_marker_free_head pt' = dm_free_next (marker_at pt m)" "pt_marker_key_free_next pt' = pt_marker_key_free_next pt"
      "pt_marker_key_free_head pt' = pt_marker_key_free_next pt ! (dm_key_slot (marker_at pt' m) - 1)"
  shows "mchains_ok pt'"
    "\<not> mlive pt m" "dm_free_next (marker_at pt m) \<le> pt_marker_capacity pt"
    "dm_key_slot (marker_at pt' m) \<le> pt_marker_key_capacity pt"
    "pt_marker_key_free_next pt ! (dm_key_slot (marker_at pt' m) - 1) \<le> pt_marker_key_capacity pt"
    "dm_key_slot (marker_at pt' m) \<notin> (\<lambda>x. dm_key_slot (marker_at pt x)) ` marker_ids pt"
proof -
  define k where "k = dm_key_slot (marker_at pt' m)"
  have cap: "pt_marker_capacity pt' = pt_marker_capacity pt" "pt_marker_key_capacity pt' = pt_marker_key_capacity pt"
    using O by (simp_all add: only_marker_def)
  have rng: "m \<noteq> 0" "m \<le> pt_marker_capacity pt" using m(1) cap by (auto simp: mlive_def)
  let ?S = "{1..pt_marker_capacity pt} - marker_ids pt"
  let ?K = "{1..pt_marker_key_capacity pt} - (\<lambda>x. dm_key_slot (marker_at pt x)) ` marker_ids pt"
  have ch: "chain_ok (\<lambda>x. dm_free_next (marker_at pt x)) m ?S" "chain_ok (\<lambda>k. pt_marker_key_free_next pt ! (k - 1)) k ?K"
    using ok m(2) k(1) by (simp_all add: mchains_ok_def k_def)
  have same: "dm_free_next (marker_at pt' y) = dm_free_next (marker_at pt y)" if "y \<in> ?S" "y \<noteq> m" for y
    using that only_markerD(2)[OF O that(2)] by auto
  note pop = chain_pop[OF ch(1) rng(1), of "\<lambda>x. dm_free_next (marker_at pt' x)", OF same]
  note kpop = chain_pop[OF ch(2) k(2)[folded k_def] refl]
  show dead: "\<not> mlive pt m" using pop(1) by (simp add: marker_ids_def)
  show "dm_free_next (marker_at pt m) \<le> pt_marker_capacity pt" using chain_head[OF pop(2)] by auto
  show "dm_key_slot (marker_at pt' m) \<le> pt_marker_key_capacity pt"
    "dm_key_slot (marker_at pt' m) \<notin> (\<lambda>x. dm_key_slot (marker_at pt x)) ` marker_ids pt" using kpop(1) by (auto simp: k_def)
  show "pt_marker_key_free_next pt ! (dm_key_slot (marker_at pt' m) - 1) \<le> pt_marker_key_capacity pt"
    using chain_head[OF kpop(2)] by (auto simp: k_def)
  have ids: "marker_ids pt' = insert m (marker_ids pt)" using only_marker_ids[OF O] m(1) dead by (auto simp: marker_ids_def)
  have "(\<lambda>x. dm_key_slot (marker_at pt' x)) ` marker_ids pt = (\<lambda>x. dm_key_slot (marker_at pt x)) ` marker_ids pt"
  proof (rule image_cong[OF refl])
    fix x assume x: "x \<in> marker_ids pt"
    then have "x \<noteq> m" using dead by (auto simp: marker_ids_def)
    then show "dm_key_slot (marker_at pt' x) = dm_key_slot (marker_at pt x)"
      using only_markerD(3)[OF O, of x] x by (simp add: marker_ids_def)
  qed
  then have "(\<lambda>x. dm_key_slot (marker_at pt' x)) ` marker_ids pt' = insert k ((\<lambda>x. dm_key_slot (marker_at pt x)) ` marker_ids pt)"
    unfolding ids k_def by simp
  then have S: "{1..pt_marker_capacity pt'} - marker_ids pt' = ?S - {m}"
    "{1..pt_marker_key_capacity pt'} - (\<lambda>x. dm_key_slot (marker_at pt' x)) ` marker_ids pt' = ?K - {k}"
    using ids cap by auto
  show "mchains_ok pt'" unfolding mchains_ok_def S unfolding f k_def[symmetric] using pop(2) kpop(2) by blast
qed

lemma mchains_push:
  assumes O: "only_marker m pt pt'" and ok: "mchains_ok pt" "marks_ok pt" and m: "mlive pt m" "\<not> mlive pt' m"
    and f: "pt_marker_free_head pt' = m" "dm_free_next (marker_at pt' m) = pt_marker_free_head pt"
      "pt_marker_key_free_head pt' = dm_key_slot (marker_at pt m)"
      "pt_marker_key_free_next pt' = (pt_marker_key_free_next pt)[dm_key_slot (marker_at pt m) - 1 := pt_marker_key_free_head pt]"
  shows "mchains_ok pt'"
proof -
  define k where "k = dm_key_slot (marker_at pt m)"
  have cap: "pt_marker_capacity pt' = pt_marker_capacity pt" "pt_marker_key_capacity pt' = pt_marker_key_capacity pt"
    using O by (simp_all add: only_marker_def)
  have rng: "m \<noteq> 0" "m \<le> pt_marker_capacity pt" "k \<noteq> 0" "k \<le> pt_marker_key_capacity pt"
    using m(1) marks_okD(1)[OF ok(2) m(1)] by (auto simp: mlive_def marker_shape_def k_def)
  let ?S = "{1..pt_marker_capacity pt} - marker_ids pt"
  let ?K = "{1..pt_marker_key_capacity pt} - (\<lambda>x. dm_key_slot (marker_at pt x)) ` marker_ids pt"
  have ids: "marker_ids pt' = marker_ids pt - {m}" using only_marker_ids[OF O] m(2) by (auto simp: marker_ids_def)
  have "(\<lambda>x. dm_key_slot (marker_at pt' x)) ` marker_ids pt' = (\<lambda>x. dm_key_slot (marker_at pt x)) ` (marker_ids pt - {m})"
    unfolding ids using only_markerD(3)[OF O] by (intro image_cong) (auto simp: marker_ids_def)
  also have "\<dots> = (\<lambda>x. dm_key_slot (marker_at pt x)) ` marker_ids pt - {k}"
  proof -
    have "dm_key_slot (marker_at pt x) \<noteq> k" if "mlive pt x" "x \<noteq> m" for x
      using marks_okD(3)[OF ok(2) that(1) m(1)] that(2) unfolding k_def by blast
    then show ?thesis unfolding k_def marker_ids_def by auto
  qed
  finally have S: "{1..pt_marker_capacity pt'} - marker_ids pt' = insert m ?S"
    "{1..pt_marker_key_capacity pt'} - (\<lambda>x. dm_key_slot (marker_at pt' x)) ` marker_ids pt' = insert k ?K"
    using ids cap rng m(1) by (auto simp: marker_ids_def)
  have "chain_ok (\<lambda>x. dm_free_next (marker_at pt' x)) m (insert m ?S)"
  proof (rule chain_push)
    show "chain_ok (\<lambda>x. dm_free_next (marker_at pt x)) (pt_marker_free_head pt) ?S" using ok(1) by (simp add: mchains_ok_def)
    show "dm_free_next (marker_at pt' y) = dm_free_next (marker_at pt y)" if "y \<in> ?S" for y
    proof -
      have "y \<noteq> 0" "y \<noteq> m" using that m(1) by (auto simp: marker_ids_def)
      then show ?thesis using only_markerD(2)[OF O] by simp
    qed
  qed (use m(1) rng f in \<open>simp_all add: marker_ids_def\<close>)
  moreover have "chain_ok (\<lambda>x. pt_marker_key_free_next pt' ! (x - 1)) k (insert k ?K)"
  proof (rule chain_push)
    show "chain_ok (\<lambda>x. pt_marker_key_free_next pt ! (x - 1)) (pt_marker_key_free_head pt) ?K" using ok(1) by (simp add: mchains_ok_def)
    show kK: "k \<notin> ?K" using m(1) by (auto simp: marker_ids_def k_def)
    show "pt_marker_key_free_next pt' ! (y - 1) = pt_marker_key_free_next pt ! (y - 1)" if "y \<in> ?K" for y
    proof -
      have "y \<noteq> k" using that kK by blast
      moreover have "y \<noteq> 0" "y \<le> pt_marker_key_capacity pt" using that by auto
      ultimately show ?thesis unfolding f(4) k_def[symmetric] using rng by (simp add: nth_list_update)
    qed
    show "pt_marker_key_free_next pt' ! (k - 1) = pt_marker_key_free_head pt" unfolding f(4) k_def[symmetric] using rng by simp
  qed (use rng in simp)
  ultimately show ?thesis unfolding mchains_ok_def S f(1,3) k_def[symmetric] by blast
qed

section \<open>Index maintenance\<close>

definition mlinked :: "nat set \<Rightarrow> partition \<Rightarrow> bool" where
  "mlinked ids pt \<longleftrightarrow> marks_ok pt \<and> mindexed ids pt \<and> ids \<subseteq> marker_ids pt"

lemma mreindexed:
  "mlive (pt\<lparr>pt_marker_index := ix\<rparr>) = mlive pt" "marker_ids (pt\<lparr>pt_marker_index := ix\<rparr>) = marker_ids pt"
  "mident (pt\<lparr>pt_marker_index := ix\<rparr>) = mident pt" "marks_ok (pt\<lparr>pt_marker_index := ix\<rparr>) = marks_ok pt"
  "mchains_ok (pt\<lparr>pt_marker_index := ix\<rparr>) = mchains_ok pt" "marker_writers (pt\<lparr>pt_marker_index := ix\<rparr>) = marker_writers pt"
proof -
  show l: "mlive (pt\<lparr>pt_marker_index := ix\<rparr>) = mlive pt" by (simp add: mlive_def fun_eq_iff)
  then show i: "marker_ids (pt\<lparr>pt_marker_index := ix\<rparr>) = marker_ids pt" by (simp add: marker_ids_def)
  show d: "mident (pt\<lparr>pt_marker_index := ix\<rparr>) = mident pt" by (simp add: mident_def fun_eq_iff)
  have s: "marker_shape (pt\<lparr>pt_marker_index := ix\<rparr>) = marker_shape pt" by (simp add: marker_shape_def fun_eq_iff)
  show "marks_ok (pt\<lparr>pt_marker_index := ix\<rparr>) = marks_ok pt" unfolding marks_ok_def l i d s by simp
  show "mchains_ok (pt\<lparr>pt_marker_index := ix\<rparr>) = mchains_ok pt" unfolding mchains_ok_def i by simp
  show "marker_writers (pt\<lparr>pt_marker_index := ix\<rparr>) = marker_writers pt" by (simp add: fun_eq_iff marker_writers_def i d)
qed

lemma mlinked_index:
  assumes L: "mlinked ids pt" and ix: "index_ok ix (\<lambda>x. dm_key_hash (marker_at pt x)) ids'"
    "bucket_count ix = bucket_count (pt_marker_index pt)" and sub: "ids' \<subseteq> marker_ids pt"
  shows "mlinked ids' (pt\<lparr>pt_marker_index := ix\<rparr>)"
proof -
  have v: "mindexed ids pt" and mo: "marks_ok pt" using L by (auto simp: mlinked_def)
  have "only_marker 0 pt (pt\<lparr>pt_marker_index := ix\<rparr>)" using marks_okD(5)[OF mo] by (simp add: only_marker_def mreindexed)
  from mindexed_step[OF this v, of "\<lambda>x. dm_key_hash (marker_at pt x)" ids'] ix mo sub show ?thesis
    by (simp add: mlinked_def mreindexed)
qed

lemma rebuild_mlinked:
  assumes L: "mlinked ids pt"
  shows "\<exists>b ix. rebuild_marker_index pt = (b, pt\<lparr>pt_marker_index := ix\<rparr>) \<and> mlinked ids (pt\<lparr>pt_marker_index := ix\<rparr>)"
proof -
  define q where "q = blank_marker_query pt"
  have q: "mq_partition q = pt" "mq_corrupt q = False" "mq_key_len q \<le> PGLC_KEY_MAX" by (simp_all add: q_def blank_marker_query_def)
  have D: "marks_ok pt" "mindexed ids pt" "ids \<subseteq> marker_ids pt" using L by (auto simp: mlinked_def)
  have v: "pglc_partition_index_valid pt True" and io: "index_ok (pt_marker_index pt) (\<lambda>x. dm_key_hash (marker_at pt x)) ids"
    using D(2) by (auto simp: mindexed_def)
  obtain good ix where r: "pglc_index_rebuild_existing (pt_marker_index pt) marker_hash_by_id q = (good, ix, q)"
    "good \<longrightarrow> marker_by_id.served ix ids q \<and> tombstones ix = 0 \<and> bucket_count ix = bucket_count (pt_marker_index pt)"
    "\<not> good \<longrightarrow> (\<exists>sc. ix = (pt_marker_index pt)\<lparr>scratch := sc\<rparr>)"
    using marker_by_id.rebuild_existing_served[OF marker_served(2)[OF D q(1,3)]] by blast
  have "index_ok ix (\<lambda>x. dm_key_hash (marker_at pt x)) ids" "bucket_count ix = bucket_count (pt_marker_index pt)"
  proof -
    show "index_ok ix (\<lambda>x. dm_key_hash (marker_at pt x)) ids"
    proof (cases good)
      case True
      then show ?thesis using r(2) q(1) unfolding marker_by_id.served_def marker_hash_of_def by auto
    next
      case False
      then obtain sc where "ix = (pt_marker_index pt)\<lparr>scratch := sc\<rparr>" using r(3) by blast
      then show ?thesis using io by (simp add: index_ok_scratch)
    qed
    show "bucket_count ix = bucket_count (pt_marker_index pt)" using r(2,3) by auto
  qed
  note L' = mlinked_index[OF L this D(3)]
  have "rebuild_marker_index pt = (good, pt\<lparr>pt_marker_index := ix\<rparr>)"
    using r(1) q(2) v unfolding rebuild_marker_index_def q_def[symmetric] by simp
  then show ?thesis using L' by blast
qed

section \<open>Reserving a marker\<close>

lemma insert_marker_linked:
  assumes L: "mlinked ids pt" and m: "mlive pt m" "m \<notin> ids" and q: "mq_expected_id q = m" "mq_key_len q \<le> PGLC_KEY_MAX"
    and hash: "hash = dm_key_hash (marker_at pt m)"
  obtains r ix where "insert_marker hash m q pt = (r, pt\<lparr>pt_marker_index := ix\<rparr>)"
    "r = PGLC_INDEX_INSERTED \<and> mlinked (insert m ids) (pt\<lparr>pt_marker_index := ix\<rparr>) \<or>
     r = PGLC_INDEX_PROBE_LIMIT \<and> mlinked ids (pt\<lparr>pt_marker_index := ix\<rparr>)"
proof -
  define q' where "q' = q\<lparr>mq_partition := pt\<rparr>"
  have q': "mq_partition q' = pt" "mq_expected_id q' = m" "mq_key_len q' \<le> PGLC_KEY_MAX" using q by (simp_all add: q'_def)
  have D: "marks_ok pt" "mindexed ids pt" "ids \<subseteq> marker_ids pt" "pt_marker_capacity pt \<le> 16777216"
    and io: "index_ok (pt_marker_index pt) (\<lambda>x. dm_key_hash (marker_at pt x)) ids"
    using L by (auto simp: mlinked_def mindexed_def)
  have sv: "marker_by_id.served (pt_marker_index pt) ids q'" by (rule marker_served(2)[OF D(1-3) q'(1,3)])
  have lv: "is_live m" using m(1) D(4) by (simp add: is_live_def mlive_def)
  have ex: "\<not> (\<exists>x \<in> ids. marker_hash_of q' x = hash \<and> x = mq_expected_id q')" using m(2) q'(2) by blast
  have H: "(marker_hash_of q')(m := hash) = (\<lambda>x. dm_key_hash (marker_at pt x))"
    using hash by (simp add: fun_eq_iff marker_hash_of_def q'(1))
  note I = marker_by_id.insert_served[OF sv lv m(2), of hash, unfolded if_not_P[OF ex] H]
  show thesis
  proof (cases "\<forall>b \<in> set (probe_buckets (pt_marker_index pt) hash). is_live (buckets (pt_marker_index pt) ! b)")
    case True
    define ix where "ix = (pt_marker_index pt)\<lparr>probe_rejections := u64 (probe_rejections (pt_marker_index pt) + 1)\<rparr>"
    have "mlinked ids (pt\<lparr>pt_marker_index := ix\<rparr>)"
      by (rule mlinked_index[OF L]) (use io D(3) index_ok_rejections in \<open>simp_all add: ix_def\<close>)
    then show ?thesis using that[of PGLC_INDEX_PROBE_LIMIT ix] I[unfolded if_P[OF True], folded ix_def]
      unfolding insert_marker_def q'_def[symmetric] by simp
  next
    case False
    then obtain ix where ix: "pglc_index_insert (pt_marker_index pt) hash m marker_hash_by_id marker_matches_id q' =
        (PGLC_INDEX_INSERTED, ix, q')" "index_ok ix (\<lambda>x. dm_key_hash (marker_at pt x)) (insert m ids)"
      "bucket_count ix = bucket_count (pt_marker_index pt)"
      using I[unfolded if_not_P[OF False]] by blast
    have "mlinked (insert m ids) (pt\<lparr>pt_marker_index := ix\<rparr>)"
      by (rule mlinked_index[OF L ix(2,3)]) (use D(3) m(1) in \<open>simp add: marker_ids_def\<close>)
    then show ?thesis using that[of PGLC_INDEX_INSERTED ix] ix(1) unfolding insert_marker_def q'_def[symmetric] by simp
  qed
qed

text \<open>The insertion with its retry.\<close>

lemma insert_marker_retry:
  assumes L: "mlinked ids pt" and m: "mlive pt m" "m \<notin> ids" and q: "mq_expected_id q = m" "mq_key_len q \<le> PGLC_KEY_MAX"
    and hash: "hash = dm_key_hash (marker_at pt m)"
  obtains r ix where "(let (r, pt) = insert_marker hash m q pt in
      if r = PGLC_INDEX_PROBE_LIMIT
      then let (ok, pt) = rebuild_marker_index pt in if ok then insert_marker hash m q pt else (r, pt)
      else (r, pt)) = (r, pt\<lparr>pt_marker_index := ix\<rparr>)"
    "r = PGLC_INDEX_INSERTED \<and> mlinked (insert m ids) (pt\<lparr>pt_marker_index := ix\<rparr>) \<or>
     r \<noteq> PGLC_INDEX_INSERTED \<and> mlinked ids (pt\<lparr>pt_marker_index := ix\<rparr>)"
proof -
  obtain r1 ix1 where a: "insert_marker hash m q pt = (r1, pt\<lparr>pt_marker_index := ix1\<rparr>)"
    "r1 = PGLC_INDEX_INSERTED \<and> mlinked (insert m ids) (pt\<lparr>pt_marker_index := ix1\<rparr>) \<or>
     r1 = PGLC_INDEX_PROBE_LIMIT \<and> mlinked ids (pt\<lparr>pt_marker_index := ix1\<rparr>)"
    using insert_marker_linked[OF L m q hash] by blast
  show thesis
  proof (cases "r1 = PGLC_INDEX_PROBE_LIMIT")
    case False
    then show ?thesis using that[of r1 ix1] a by simp
  next
    case True
    then have L1: "mlinked ids (pt\<lparr>pt_marker_index := ix1\<rparr>)" using a(2) by simp
    obtain b ix2 where b: "rebuild_marker_index (pt\<lparr>pt_marker_index := ix1\<rparr>) = (b, pt\<lparr>pt_marker_index := ix2\<rparr>)"
      "mlinked ids (pt\<lparr>pt_marker_index := ix2\<rparr>)" using rebuild_mlinked[OF L1] by auto
    show ?thesis
    proof (cases b)
      case False
      then show ?thesis using that[of r1 ix2] a(1) b True by simp
    next
      case bT: True
      have "mlive (pt\<lparr>pt_marker_index := ix2\<rparr>) m" "hash = dm_key_hash (marker_at (pt\<lparr>pt_marker_index := ix2\<rparr>) m)"
        using m(1) hash by (simp_all add: mreindexed)
      from insert_marker_linked[OF b(2) this(1) m(2) q this(2)] obtain r3 ix3
        where "insert_marker hash m q (pt\<lparr>pt_marker_index := ix2\<rparr>) = (r3, pt\<lparr>pt_marker_index := ix3\<rparr>)"
          "r3 = PGLC_INDEX_INSERTED \<and> mlinked (insert m ids) (pt\<lparr>pt_marker_index := ix3\<rparr>) \<or>
           r3 = PGLC_INDEX_PROBE_LIMIT \<and> mlinked ids (pt\<lparr>pt_marker_index := ix3\<rparr>)" by auto
      then show ?thesis using that[of r3 ix3] a(1) b True bT by auto
    qed
  qed
qed

text \<open>What one step does to the markers: the writers of one identity change, and the tokens of
  held identities stay good.\<close>

definition tok :: "partition \<Rightarrow> nat \<Rightarrow> nat \<Rightarrow> marker_ident \<Rightarrow> bool" where
  "tok pt m g i \<longleftrightarrow> mlive pt m \<and> dm_generation (marker_at pt m) = g \<and> mident pt (marker_at pt m) = i"

definition marked :: "(nat \<Rightarrow> nat) \<Rightarrow> marker_ident \<Rightarrow> partition \<Rightarrow> partition \<Rightarrow> bool" where
  "marked f i pt pt' \<longleftrightarrow> markers_ok pt' \<and> entry_side pt' = entry_side pt \<and>
     marker_writers pt' = (marker_writers pt)(i := f (marker_writers pt i)) \<and>
     pt_marker_capacity pt' = pt_marker_capacity pt \<and> pt_marker_generation pt \<le> pt_marker_generation pt' \<and>
     (\<forall>m g j. tok pt m g j \<longrightarrow> 0 < marker_writers pt' j \<longrightarrow> tok pt' m g j)"

text \<open>The partition with a new marker and its key written, before it is indexed.\<close>

definition mplaced :: "dirty_marker \<Rightarrow> char list \<Rightarrow> partition \<Rightarrow> partition" where
  "mplaced d key pt = (let mid = pt_marker_free_head pt; k = pt_marker_key_free_head pt in
     (set_marker mid d pt)\<lparr>pt_marker_free_head := dm_free_next (marker_at pt mid),
        pt_marker_key_free_head := pt_marker_key_free_next pt ! (k - 1), pt_marker_generation := dm_generation d,
        pt_marker_key_arena := store_bytes (pt_marker_key_arena pt) ((k - 1) * PGLC_KEY_MAX) key\<rparr>)"

lemma slot_store_other:
  assumes "k \<noteq> k'" "k \<noteq> 0" "k' \<noteq> 0" "length key \<le> PGLC_KEY_MAX" "n \<le> PGLC_KEY_MAX"
  shows "load_bytes (store_bytes a ((k - 1) * PGLC_KEY_MAX) key) ((k' - 1) * PGLC_KEY_MAX) n = load_bytes a ((k' - 1) * PGLC_KEY_MAX) n"
proof (rule load_bytes_cong)
  fix j assume j: "j < n"
  obtain a b where ab: "k = Suc a" "k' = Suc b" using assms(2,3) by (metis not0_implies_Suc)
  have "b * 1024 + 1024 \<le> a * 1024 \<or> a * 1024 + 1024 \<le> b * 1024" using assms(1) ab by (cases "a < b") auto
  then have "(k' - 1) * PGLC_KEY_MAX + j < (k - 1) * PGLC_KEY_MAX \<or> (k - 1) * PGLC_KEY_MAX + length key \<le> (k' - 1) * PGLC_KEY_MAX + j"
    using j assms(4,5) ab by auto
  then show "store_bytes x ((k - 1) * PGLC_KEY_MAX) key ((k' - 1) * PGLC_KEY_MAX + j) = x ((k' - 1) * PGLC_KEY_MAX + j)" for x
    by (rule store_bytes_other)
qed

lemma mplaced_ok:
  assumes ok: "markers_ok pt" and mid: "pt_marker_free_head pt = mid" "mid \<noteq> 0" and k: "pt_marker_key_free_head pt = k" "k \<noteq> 0"
    and g: "pt_marker_generation pt < UINT64_MAX"
    and d: "dm_in_use d" "dm_key_slot d = k" "dm_key_len d = length key" "length key < PGLC_KEY_MAX" "dm_writer_count d = 1"
      "dm_generation d = pt_marker_generation pt + 1" "(dm_key_hash d, dm_relation_slot d, dm_relation_slot_generation d, key) = i"
    and new: "\<And>x. mlive pt x \<Longrightarrow> mident pt (marker_at pt x) \<noteq> i"
  defines "pt2 \<equiv> mplaced d key pt"
  shows "mlinked (marker_ids pt) pt2" "mchains_ok pt2" "only_marker mid pt pt2" "mlive pt2 mid" "mident pt2 d = i"
    "marker_at pt2 mid = d" "\<not> mlive pt mid" "dm_free_next (marker_at pt mid) \<le> pt_marker_capacity pt" "mid \<le> pt_marker_capacity pt"
    "k \<le> pt_marker_key_capacity pt" "pt_marker_key_free_next pt ! (k - 1) \<le> pt_marker_key_capacity pt"
proof -
  have D: "marks_ok pt" "mindexed (marker_ids pt) pt" "mchains_ok pt" using ok by (auto simp: markers_ok_def)
  show cap: "mid \<le> pt_marker_capacity pt" using D(3) mid chain_head by (fastforce simp: mchains_ok_def)
  have kfree: "k \<in> {1..pt_marker_key_capacity pt} - (\<lambda>x. dm_key_slot (marker_at pt x)) ` marker_ids pt"
  proof -
    have "chain_ok (\<lambda>k. pt_marker_key_free_next pt ! (k - 1)) k
       ({1..pt_marker_key_capacity pt} - (\<lambda>x. dm_key_slot (marker_at pt x)) ` marker_ids pt)"
      using D(3) k(1) unfolding mchains_ok_def by blast
    from chain_head[OF this] k(2) show ?thesis by blast
  qed
  have p: "pt_markers pt2 = (pt_markers pt)[mid - 1 := d]" "pt_marker_key_free_next pt2 = pt_marker_key_free_next pt"
    "pt_marker_generation pt2 = pt_marker_generation pt + 1" "pt_marker_index pt2 = pt_marker_index pt"
    "pt_marker_free_head pt2 = dm_free_next (marker_at pt mid)" "pt_marker_key_free_head pt2 = pt_marker_key_free_next pt ! (k - 1)"
    "pt_marker_key_arena pt2 = store_bytes (pt_marker_key_arena pt) ((k - 1) * PGLC_KEY_MAX) key"
    using mid(1) k(1) d(6) by (simp_all add: pt2_def mplaced_def set_marker_def Let_def)
  show at: "marker_at pt2 mid = d" using cap mid(2) p(1) by simp
  show lv: "mlive pt2 mid" using cap mid(2) at d(1) p(1) by (simp add: mlive_def)
  have at': "marker_at pt2 x = marker_at pt x" if "x \<noteq> mid" "x \<noteq> 0" for x
    using cap mid(2) that unfolding p(1) by (auto simp: nth_list_update)
  have idn: "mident pt2 (marker_at pt x) = mident pt (marker_at pt x)" if x: "mlive pt x" for x
  proof -
    have "k \<noteq> dm_key_slot (marker_at pt x)" using kfree x by (auto simp: marker_ids_def)
    then show ?thesis using slot_store_other[OF _ k(2)] marks_okD(1)[OF D(1) x] d(4) unfolding mident_def p(7) marker_shape_def by simp
  qed
  show O: "only_marker mid pt pt2" unfolding only_marker_def using at' idn p(1-3) g by simp
  note pop = mchains_pop[OF O D(3) lv mid(1), unfolded at d(2), OF k p(5,2,6)]
  show "mchains_ok pt2" "\<not> mlive pt mid" "dm_free_next (marker_at pt mid) \<le> pt_marker_capacity pt"
    "k \<le> pt_marker_key_capacity pt" "pt_marker_key_free_next pt ! (k - 1) \<le> pt_marker_key_capacity pt" by (rule pop)+
  show i: "mident pt2 d = i" using d(2,3,7) unfolding mident_def p(7) by simp
  have "marks_ok pt2"
  proof (rule marks_step[OF O D(1)])
    show "marker_shape pt2 (marker_at pt2 mid)" unfolding at using d kfree k(2) p(2,3) by (simp add: marker_shape_def)
    show "dm_key_slot (marker_at pt2 mid) \<noteq> dm_key_slot (marker_at pt x)" if "mlive pt x" for x
      unfolding at d(2) using kfree that by (auto simp: marker_ids_def)
    show "mident pt2 (marker_at pt2 mid) \<noteq> mident pt (marker_at pt x)" if "mlive pt x" for x
      unfolding at i using new[OF that] by metis
  qed
  moreover have "mindexed (marker_ids pt) pt2"
  proof (rule mindexed_step[OF O D(2)])
    show "index_ok (pt_marker_index pt2) (\<lambda>x. dm_key_hash (marker_at pt x)) (marker_ids pt)" using D(2) p(4) by (simp add: mindexed_def)
    show "dm_key_hash (marker_at pt x) = dm_key_hash (marker_at pt2 x)" if "x \<in> marker_ids pt" for x
    proof -
      have "x \<noteq> mid" "x \<noteq> 0" using that pop(2) by (auto simp: marker_ids_def mlive_def)
      then show ?thesis using at' by simp
    qed
  qed (simp add: p(4))
  moreover have "marker_ids pt \<subseteq> marker_ids pt2"
  proof
    fix x assume "x \<in> marker_ids pt"
    then have "mlive pt x" "x \<noteq> mid" using pop(2) by (auto simp: marker_ids_def)
    then show "x \<in> marker_ids pt2" using only_markerD(1)[OF O] by (simp add: marker_ids_def)
  qed
  ultimately show "mlinked (marker_ids pt) pt2" unfolding mlinked_def by blast
qed

definition mcounted :: "nat \<Rightarrow> partition \<Rightarrow> globals \<Rightarrow> bool" where
  "mcounted rest pt gl \<longleftrightarrow> gl_dirty_marker_entries gl = rest + pt_marker_count pt \<and> rest + pt_marker_count pt < 2 ^ 64 - 1"

definition globals_side where
  "globals_side gl = (gl_clock gl, gl_cache_entry_count gl, gl_stats gl)"

lemma only_marker_tok:
  assumes "only_marker m pt pt'" "tok pt x g j" "x \<noteq> m"
  shows "tok pt' x g j"
  using only_markerD[OF assms(1,3)] assms(2) unfolding tok_def by simp

lemma marked_step:
  assumes O: "only_marker m pt pt'" and ok: "marks_ok pt" "markers_ok pt'" and e: "entry_side pt' = entry_side pt"
    and old: "mlive pt m \<Longrightarrow> mident pt (marker_at pt m) = i" and new: "mlive pt' m \<Longrightarrow> mident pt' (marker_at pt' m) = i"
    and i: "marker_writers pt' i = f (marker_writers pt i)"
    and keep: "mlive pt m \<Longrightarrow> mlive pt' m \<Longrightarrow> dm_generation (marker_at pt' m) = dm_generation (marker_at pt m)"
    and gone: "mlive pt m \<Longrightarrow> \<not> mlive pt' m \<Longrightarrow> marker_writers pt' i = 0"
  shows "marked f i pt pt'"
proof -
  have "marker_writers pt' j = marker_writers pt j" if "j \<noteq> i" for j
    by (rule writers_step[OF O ok(1)]) (use old new that in auto)
  then have "marker_writers pt' = (marker_writers pt)(i := f (marker_writers pt i))" using i by (simp add: fun_eq_iff)
  moreover have "tok pt' x g j" if t: "tok pt x g j" "0 < marker_writers pt' j" for x g j
  proof (cases "x = m")
    case False
    then show ?thesis using only_marker_tok[OF O t(1)] by blast
  next
    case True
    then have l: "mlive pt m" "j = i" using t(1) old by (auto simp: tok_def)
    then have "mlive pt' m" using gone t(2) by auto
    then show ?thesis using keep new l t(1) True by (auto simp: tok_def)
  qed
  ultimately show ?thesis using O ok(2) e unfolding marked_def only_marker_def by blast
qed

lemma marked_same:
  assumes "markers_ok pt" "markers_ok pt'" "entry_side pt' = entry_side pt" "only_marker 0 pt pt'"
  shows "marked (\<lambda>n. n) i pt pt'"
proof -
  have mo: "marks_ok pt" and d: "\<not> mlive pt 0" "\<not> mlive pt' 0" using assms(1) by (auto simp: markers_ok_def mlive_def)
  have "marker_writers pt' i = marker_writers pt i" by (rule writers_step[OF assms(4) mo]) (use d in auto)
  then show ?thesis by (intro marked_step[OF assms(4) mo assms(2,3)]) (use d in auto)
qed

lemma marked_reindex:
  assumes "markers_ok pt" "mlinked (marker_ids pt) (pt\<lparr>pt_marker_index := ix\<rparr>)"
  shows "markers_ok (pt\<lparr>pt_marker_index := ix\<rparr>)" "marked (\<lambda>n. n) i pt (pt\<lparr>pt_marker_index := ix\<rparr>)"
proof -
  show ok: "markers_ok (pt\<lparr>pt_marker_index := ix\<rparr>)" using assms by (simp add: markers_ok_def mlinked_def mreindexed)
  have "only_marker 0 pt (pt\<lparr>pt_marker_index := ix\<rparr>)"
    using assms(1) marks_okD(5) by (simp add: only_marker_def mreindexed markers_ok_def)
  then show "marked (\<lambda>n. n) i pt (pt\<lparr>pt_marker_index := ix\<rparr>)" using marked_same[OF assms(1) ok] by simp
qed

lemma marked_trans:
  assumes ok: "markers_ok pt" and a: "marked (\<lambda>n. n) i pt pt1" and b: "marked f i pt1 pt2"
  shows "marked f i pt pt2"
proof -
  have w: "marker_writers pt1 = marker_writers pt" using a by (simp add: marked_def)
  have "tok pt2 m g j" if t: "tok pt m g j" "0 < marker_writers pt2 j" for m g j
  proof -
    have "0 < marker_writers pt1 j" unfolding w using t(1) writers_pos_iff[of pt j] ok by (auto simp: tok_def markers_ok_def)
    then show ?thesis using a b t unfolding marked_def by blast
  qed
  then show ?thesis using a b w unfolding marked_def by auto
qed

text \<open>The count of one marker changes.\<close>

lemma recount_ok:
  assumes ok: "markers_ok pt" and m: "mlive pt m" and n: "0 < n" "n \<le> UINT32_MAX"
  defines "pt' \<equiv> set_marker m ((marker_at pt m)\<lparr>dm_writer_count := n\<rparr>) pt"
  shows "marked (\<lambda>_. n) (mident pt (marker_at pt m)) pt pt'"
    "tok pt' m (dm_generation (marker_at pt m)) (mident pt (marker_at pt m))" "pt_marker_count pt' = pt_marker_count pt"
proof -
  define d where "d = (marker_at pt m)\<lparr>dm_writer_count := n\<rparr>"
  have D: "marks_ok pt" "mindexed (marker_ids pt) pt" "mchains_ok pt" "pt_marker_count pt = card (marker_ids pt)"
    using ok by (auto simp: markers_ok_def)
  have rng: "m \<noteq> 0" "m \<le> pt_marker_capacity pt" using m by (auto simp: mlive_def)
  have p: "pt_markers pt' = (pt_markers pt)[m - 1 := d]" "pt_marker_key_free_next pt' = pt_marker_key_free_next pt"
    "pt_marker_generation pt' = pt_marker_generation pt" "pt_marker_index pt' = pt_marker_index pt"
    "pt_marker_free_head pt' = pt_marker_free_head pt" "pt_marker_key_free_head pt' = pt_marker_key_free_head pt"
    "pt_marker_key_arena pt' = pt_marker_key_arena pt" "entry_side pt' = entry_side pt"
    by (simp_all add: pt'_def set_marker_def entry_side_def d_def)
  show cnt: "pt_marker_count pt' = pt_marker_count pt" by (simp add: pt'_def set_marker_def)
  have at: "marker_at pt' m = d" "x \<noteq> m \<Longrightarrow> x \<noteq> 0 \<Longrightarrow> marker_at pt' x = marker_at pt x" for x
    using rng unfolding p(1) by (auto simp: nth_list_update)
  have idn: "mident pt' = mident pt" by (simp add: mident_def p(7) fun_eq_iff)
  have O: "only_marker m pt pt'" unfolding only_marker_def using at(2) p(1-3) marks_okD(5)[OF D(1)] by (simp add: idn)
  have lv: "mlive pt' m" using rng at(1) m p(1) by (simp add: mlive_def d_def)
  have ids: "marker_ids pt' = marker_ids pt" using only_marker_ids[OF O] lv m by (auto simp: marker_ids_def)
  have i: "mident pt' (marker_at pt' m) = mident pt (marker_at pt m)" unfolding idn at(1) by (simp add: d_def mident_def)
  have f: "dm_key_slot (marker_at pt' x) = dm_key_slot (marker_at pt x)" "dm_free_next (marker_at pt' x) = dm_free_next (marker_at pt x)"
    "dm_key_hash (marker_at pt' x) = dm_key_hash (marker_at pt x)" if "x \<noteq> 0" for x
    using at that by (cases "x = m"; simp add: d_def)+
  have "marks_ok pt'"
    by (rule marks_step[OF O D(1)])
      (use marks_okD(1)[OF D(1) m] marks_okD(2,3)[OF D(1) m] n p at(1) i f(1)[OF rng(1)] in \<open>auto simp: marker_shape_def d_def\<close>)
  moreover have "mindexed (marker_ids pt') pt'" unfolding ids
    by (rule mindexed_step[OF O D(2)]) (use D(2) p(4) f(3) in \<open>auto simp: mindexed_def marker_ids_def mlive_def\<close>)
  moreover have "mchains_ok pt'"
  proof -
    have "(\<lambda>x. dm_key_slot (marker_at pt' x)) ` marker_ids pt = (\<lambda>x. dm_key_slot (marker_at pt x)) ` marker_ids pt"
      by (rule image_cong) (use f(1) in \<open>auto simp: marker_ids_def mlive_def\<close>)
    moreover have "chain_ok (\<lambda>x. dm_free_next (marker_at pt' x)) (pt_marker_free_head pt) ({1..pt_marker_capacity pt} - marker_ids pt)"
      by (rule chain_ok_cong[of "\<lambda>x. dm_free_next (marker_at pt x)"]) (use D(3) f(2) in \<open>auto simp: mchains_ok_def\<close>)
    ultimately show ?thesis using D(3) p unfolding mchains_ok_def ids by simp
  qed
  ultimately have ok': "markers_ok pt'" using D(4) cnt ids by (simp add: markers_ok_def)
  show "tok pt' m (dm_generation (marker_at pt m)) (mident pt (marker_at pt m))"
    using lv i at(1) by (simp add: tok_def d_def)
  have "marker_writers pt' (mident pt (marker_at pt m)) = n"
    using writers_one[of pt' m] ok' lv i at(1) by (simp add: markers_ok_def d_def)
  then show "marked (\<lambda>_. n) (mident pt (marker_at pt m)) pt pt'"
    by (intro marked_step[OF O D(1) ok' p(8)]) (use i lv at(1) in \<open>auto simp: d_def\<close>)
qed

definition local_ident :: "local_dirty_entry \<Rightarrow> marker_ident" where
  "local_ident l = (de_cache_key_hash l, shared_slot l, shared_slot_generation l, dk_key (de_key l))"

definition key_wish :: "local_dirty_entry \<Rightarrow> bool" where
  "key_wish l \<longleftrightarrow> dk_kind (de_key l) = PGLC_DIRTY_KEY \<and> dk_key_len (de_key l) = length (dk_key (de_key l)) \<and>
     length (dk_key (de_key l)) < PGLC_KEY_MAX"

text \<open>The last part of a reservation, from the new descriptor on.\<close>

definition finish_marker :: "nat \<Rightarrow> nat \<Rightarrow> dirty_marker \<Rightarrow> marker_query \<Rightarrow> nat \<Rightarrow> partition \<Rightarrow> globals \<Rightarrow> (nat \<times> nat) option \<times> partition \<times> globals" where
  "finish_marker hash mid m' q key_slot pt gl =
     (let (r, pt) = (let (r, pt) = insert_marker hash mid q pt in
            if r = PGLC_INDEX_PROBE_LIMIT
            then let (ok, pt) = rebuild_marker_index pt in if ok then insert_marker hash mid q pt else (r, pt)
            else (r, pt))
      in if r \<noteq> PGLC_INDEX_INSERTED
         then (None, (set_marker mid (m'\<lparr>dm_in_use := False, dm_free_next := pt_marker_free_head pt\<rparr>) pt)
                \<lparr>pt_marker_free_head := mid,
                 pt_marker_key_free_next := (pt_marker_key_free_next pt)[key_slot - 1 := pt_marker_key_free_head pt],
                 pt_marker_key_free_head := key_slot\<rparr>, gl)
         else (Some (mid, dm_generation m'), pt\<lparr>pt_marker_count := u32 (pt_marker_count pt + 1)\<rparr>, count_marker gl))"

lemma only_marker_trans:
  assumes "only_marker m a b" "only_marker m b c"
  shows "only_marker m a c"
  using assms only_markerD[OF assms(1)] unfolding only_marker_def by auto

text \<open>A marker that leaves the index and goes back to the free lists.\<close>

lemma unlink_ok:
  assumes L: "mlinked ids pt" "ids = marker_ids pt - {m}" "mchains_ok pt" and m: "mlive pt m"
    and d: "\<not> dm_in_use d" "dm_free_next d = pt_marker_free_head pt"
    and c: "c = card (marker_ids pt - {m})"
  defines "pt' \<equiv> (set_marker m d pt)\<lparr>pt_marker_free_head := m,
      pt_marker_key_free_next := (pt_marker_key_free_next pt)[dm_key_slot (marker_at pt m) - 1 := pt_marker_key_free_head pt],
      pt_marker_key_free_head := dm_key_slot (marker_at pt m), pt_marker_count := c\<rparr>"
  shows "markers_ok pt'" "only_marker m pt pt'" "\<not> mlive pt' m" "entry_side pt' = entry_side pt"
proof -
  have D: "marks_ok pt" "mindexed ids pt" using L by (auto simp: mlinked_def)
  have rng: "m \<noteq> 0" "m \<le> pt_marker_capacity pt" using m by (auto simp: mlive_def)
  have p: "pt_markers pt' = (pt_markers pt)[m - 1 := d]" "pt_marker_key_capacity pt' = pt_marker_key_capacity pt"
    "pt_marker_generation pt' = pt_marker_generation pt" "pt_marker_index pt' = pt_marker_index pt"
    "pt_marker_key_arena pt' = pt_marker_key_arena pt" "pt_marker_count pt' = c" "pt_marker_free_head pt' = m"
    "pt_marker_key_free_next pt' = (pt_marker_key_free_next pt)[dm_key_slot (marker_at pt m) - 1 := pt_marker_key_free_head pt]"
    "pt_marker_key_free_head pt' = dm_key_slot (marker_at pt m)"
    by (simp_all add: pt'_def set_marker_def)
  show "entry_side pt' = entry_side pt" by (simp add: pt'_def)
  have at: "marker_at pt' m = d" "x \<noteq> m \<Longrightarrow> x \<noteq> 0 \<Longrightarrow> marker_at pt' x = marker_at pt x" for x
    using rng unfolding p(1) by (auto simp: nth_list_update)
  have idn: "mident pt' = mident pt" by (simp add: mident_def p(5) fun_eq_iff)
  show O: "only_marker m pt pt'" unfolding only_marker_def using at(2) p(1-3) marks_okD(5)[OF D(1)] by (simp add: idn)
  show dead: "\<not> mlive pt' m" using at(1) d(1) by (simp add: mlive_def)
  have ids: "marker_ids pt' = ids" using only_marker_ids[OF O] dead L(2) by (auto simp: marker_ids_def)
  have "marks_ok pt'" by (rule marks_step[OF O D(1)]) (use dead in auto)
  moreover have "mindexed (marker_ids pt') pt'" unfolding ids
  proof (rule mindexed_step[OF O D(2)])
    show "index_ok (pt_marker_index pt') (\<lambda>x. dm_key_hash (marker_at pt x)) ids" using D(2) p(4) by (simp add: mindexed_def)
    show "dm_key_hash (marker_at pt x) = dm_key_hash (marker_at pt' x)" if "x \<in> ids" for x
      using that at(2)[of x] L(2) by (auto simp: marker_ids_def mlive_def)
  qed (simp add: p(4))
  moreover have "mchains_ok pt'"
    by (rule mchains_push[OF O L(3) D(1) m dead]) (use p at(1) d in simp_all)
  ultimately show "markers_ok pt'" using c p(6) ids L(2) by (simp add: markers_ok_def)
qed

lemma finish_marker_spec:
  assumes ok: "markers_ok pt" and mid: "pt_marker_free_head pt = mid" "mid \<noteq> 0" and k: "pt_marker_key_free_head pt = k" "k \<noteq> 0"
    and g: "pt_marker_generation pt < UINT64_MAX"
    and d: "dm_in_use d" "dm_key_slot d = k" "dm_key_len d = length key" "length key < PGLC_KEY_MAX" "dm_writer_count d = 1"
      "dm_generation d = pt_marker_generation pt + 1" "(dm_key_hash d, dm_relation_slot d, dm_relation_slot_generation d, key) = i"
    and new: "\<And>x. mlive pt x \<Longrightarrow> mident pt (marker_at pt x) \<noteq> i"
    and q: "mq_expected_id q = mid" "mq_key_len q \<le> PGLC_KEY_MAX" "hash = dm_key_hash d"
    and run: "finish_marker hash mid d q k (mplaced d key pt) gl = (res, pt', gl')"
  shows "case res of None \<Rightarrow> marked (\<lambda>n. n) i pt pt' \<and> gl' = gl \<and> pt_marker_count pt' = pt_marker_count pt
    | Some (m, gen) \<Rightarrow> marked Suc i pt pt' \<and> tok pt' m gen i \<and> gl' = count_marker gl \<and> pt_marker_count pt' = pt_marker_count pt + 1"
proof -
  define pt2 where "pt2 = mplaced d key pt"
  note P = mplaced_ok[OF ok mid k g d new, folded pt2_def]
  have D: "marks_ok pt" "pt_marker_count pt = card (marker_ids pt)" "pt_marker_capacity pt \<le> 16777216"
    using ok by (auto simp: markers_ok_def mindexed_def)
  have nid: "mid \<notin> marker_ids pt" using P(7) by (simp add: marker_ids_def)
  have h2: "hash = dm_key_hash (marker_at pt2 mid)" using q(3) P(6) by simp
  obtain r ix where ri: "(let (r, pt) = insert_marker hash mid q pt2 in
      if r = PGLC_INDEX_PROBE_LIMIT
      then let (ok, pt) = rebuild_marker_index pt in if ok then insert_marker hash mid q pt else (r, pt)
      else (r, pt)) = (r, pt2\<lparr>pt_marker_index := ix\<rparr>)"
    "r = PGLC_INDEX_INSERTED \<and> mlinked (insert mid (marker_ids pt)) (pt2\<lparr>pt_marker_index := ix\<rparr>) \<or>
     r \<noteq> PGLC_INDEX_INSERTED \<and> mlinked (marker_ids pt) (pt2\<lparr>pt_marker_index := ix\<rparr>)"
    using insert_marker_retry[OF P(1,4) nid q(1,2) h2] by blast
  define pt3 where "pt3 = pt2\<lparr>pt_marker_index := ix\<rparr>"
  have f3: "mlive pt3 = mlive pt2" "marker_ids pt3 = marker_ids pt2" "mident pt3 = mident pt2" "mchains_ok pt3" "pt_markers pt3 = pt_markers pt2"
    "pt_marker_count pt3 = pt_marker_count pt" "entry_side pt3 = entry_side pt"
    using P(2) by (simp_all add: pt3_def mreindexed pt2_def mplaced_def Let_def set_marker_def entry_side_def)
  have at3: "marker_at pt3 mid = d" using P(6) f3(5) by simp
  have O3: "only_marker mid pt pt3" using P(3) unfolding only_marker_def f3(3,5) by (simp add: pt3_def)
  have ids3: "marker_ids pt3 = insert mid (marker_ids pt)" "marker_ids pt3 - {mid} = marker_ids pt"
    using only_marker_ids[OF O3] P(4,7) f3(1) by (auto simp: marker_ids_def)
  have w0: "marker_writers pt i = 0" by (rule writers_none) (rule new)
  have cnt: "card (marker_ids pt) \<le> pt_marker_capacity pt"
  proof -
    have "marker_ids pt \<subseteq> {1..pt_marker_capacity pt}" by (auto simp: marker_ids_def mlive_def)
    from card_mono[OF _ this] show ?thesis by simp
  qed
  show ?thesis
  proof (cases "r = PGLC_INDEX_INSERTED")
    case True
    define pt4 where "pt4 = pt3\<lparr>pt_marker_count := u32 (pt_marker_count pt3 + 1)\<rparr>"
    have f4: "mlive pt4 = mlive pt3" "marker_ids pt4 = marker_ids pt3" "mident pt4 = mident pt3" "pt_markers pt4 = pt_markers pt3" "entry_side pt4 = entry_side pt"
      by (auto simp: pt4_def mlive_def marker_ids_def mident_def fun_eq_iff f3(7))
    have c4: "pt_marker_count pt4 = pt_marker_count pt + 1" using cnt D(2,3) f3(6) by (simp add: pt4_def u32_def)
    have L3: "mlinked (marker_ids pt3) pt3" using ri(2) True ids3(1) pt3_def by simp
    have "markers_ok pt4"
    proof -
      have "marks_ok pt4" "mindexed (marker_ids pt4) pt4" "mchains_ok pt4"
        using L3 f3(4) unfolding mlinked_def marks_ok_def mindexed_def mchains_ok_def f4(1-4) marker_shape_def pglc_partition_index_valid_def
        by (simp_all add: pt4_def split: option.splits)
      moreover have "pt_marker_count pt4 = card (marker_ids pt4)"
        using c4 D(2) f4(2) ids3(1) nid finite_marker_ids by simp
      ultimately show ?thesis by (simp add: markers_ok_def)
    qed
    moreover have O4: "only_marker mid pt pt4" using O3 unfolding only_marker_def f4(3,4) by (simp add: pt4_def)
    moreover have lv: "mlive pt4 mid" "marker_at pt4 mid = d" "mident pt4 d = i" using P(4,5) at3 f3 f4 by simp_all
    moreover have "marker_writers pt4 i = 1"
      using writers_one[of pt4 mid] \<open>markers_ok pt4\<close> lv d(5) by (simp add: markers_ok_def)
    ultimately have "marked Suc i pt pt4" by (intro marked_step[OF _ D(1) _ f4(5)]) (use w0 P(7) in auto)
    moreover have "tok pt4 mid (dm_generation d) i" using lv by (simp add: tok_def)
    moreover have "res = Some (mid, dm_generation d) \<and> pt' = pt4 \<and> gl' = count_marker gl"
      using run unfolding finish_marker_def pt2_def[symmetric] ri(1) using True by (simp add: pt4_def pt3_def)
    ultimately show ?thesis using c4 by simp
  next
    case False
    have L3: "mlinked (marker_ids pt) pt3" using ri(2) False pt3_def by simp
    define e where "e = d\<lparr>dm_in_use := False, dm_free_next := pt_marker_free_head pt3\<rparr>"
    have e: "\<not> dm_in_use e" "dm_free_next e = pt_marker_free_head pt3" by (simp_all add: e_def)
    have lv3: "mlive pt3 mid" using P(4) f3(1) by simp
    have c: "pt_marker_count pt = card (marker_ids pt3 - {mid})" using ids3(2) D(2) by simp
    define pt4 where "pt4 = (set_marker mid e pt3)\<lparr>pt_marker_free_head := mid,
      pt_marker_key_free_next := (pt_marker_key_free_next pt3)[dm_key_slot (marker_at pt3 mid) - 1 := pt_marker_key_free_head pt3],
      pt_marker_key_free_head := dm_key_slot (marker_at pt3 mid), pt_marker_count := pt_marker_count pt\<rparr>"
    note U = unlink_ok[OF L3 ids3(2)[symmetric] f3(4) lv3 e c, folded pt4_def]
    have "only_marker mid pt pt4" by (rule only_marker_trans[OF O3 U(2)])
    moreover have "marker_writers pt4 i = 0"
      using writers_step[OF \<open>only_marker mid pt pt4\<close> D(1), of i] P(7) U(3) w0 by simp
    ultimately have "marked (\<lambda>n. n) i pt pt4"
      using U f3(7) w0 P(7) by (intro marked_step[OF _ D(1)]) auto
    moreover have "res = None \<and> pt' = pt4 \<and> gl' = gl"
      using run unfolding finish_marker_def pt2_def[symmetric] ri(1)
      using False at3 d(2) f3(6) by (auto simp: pt4_def pt3_def e_def set_marker_def)
    ultimately show ?thesis by (auto simp: pt4_def)
  qed
qed

lemma mcounted_up: "mcounted rest pt gl \<Longrightarrow> pt_marker_count pt' = pt_marker_count pt + 1 \<Longrightarrow> rest + pt_marker_count pt' < 2 ^ 64 - 1 \<Longrightarrow>
  mcounted rest pt' (count_marker gl)"
  by (simp add: mcounted_def count_marker_def Let_def u64_def)

lemma count_marker_side [simp]: "globals_side (count_marker gl) = globals_side gl"
  by (simp add: count_marker_def globals_side_def Let_def)

lemma reserve_spec:
  assumes ok: "markers_ok pt" and l: "key_wish l" and run: "reserve_cache_marker l pt gl = (res, pt', gl')"
  shows "case res of None \<Rightarrow> marked (\<lambda>n. n) (local_ident l) pt pt' \<and> gl' = gl \<and> pt_marker_count pt' = pt_marker_count pt
    | Some (m, g) \<Rightarrow> marked Suc (local_ident l) pt pt' \<and> tok pt' m g (local_ident l) \<and>
        (gl' = gl \<and> pt_marker_count pt' = pt_marker_count pt \<or> gl' = count_marker gl \<and> pt_marker_count pt' = pt_marker_count pt + 1)"
proof -
  define key where "key = dk_key (de_key l)"
  define i where "i = local_ident l"
  define q where "q = (blank_marker_query pt)\<lparr>mq_hash := de_cache_key_hash l, mq_key := key, mq_key_len := length key,
    mq_relation_slot := shared_slot l, mq_relation_slot_generation := shared_slot_generation l\<rparr>"
  have key: "dk_key_len (de_key l) = length key" "length key < PGLC_KEY_MAX" "dk_kind (de_key l) = PGLC_DIRTY_KEY"
    using l by (simp_all add: key_wish_def key_def)
  have D: "marks_ok pt" "pglc_partition_index_valid pt True" "mindexed (marker_ids pt) pt" using ok by (auto simp: markers_ok_def mindexed_def)
  have q: "mq_partition q = pt" "mq_key_len q = length (mq_key q)" "mq_key_len q \<le> PGLC_KEY_MAX" "\<not> mq_corrupt q"
    "i = (mq_hash q, mq_relation_slot q, mq_relation_slot_generation q, mq_key q)" "mq_hash q = de_cache_key_hash l"
    using key(2) by (simp_all add: q_def blank_marker_query_def i_def local_ident_def key_def)
  note F = marker_index_find[OF ok q(1-3,5), unfolded q(6)]
  show ?thesis
  proof (cases "\<exists>m. mlive pt m \<and> mident pt (marker_at pt m) = i")
    case True
    then obtain m where m: "mlive pt m" "mident pt (marker_at pt m) = i" by blast
    define n where "n = dm_writer_count (marker_at pt m)"
    have rng: "m \<noteq> 0" "m \<le> pt_marker_capacity pt" using m(1) by (auto simp: mlive_def)
    have r: "reserve_cache_marker l pt gl = (if n = UINT32_MAX then (None, pt, gl)
        else (Some (m, dm_generation (marker_at pt m)), set_marker m ((marker_at pt m)\<lparr>dm_writer_count := n + 1\<rparr>) pt, gl))"
      using key D(2) rng F(1)[OF m] q(4) unfolding reserve_cache_marker_def Let_def key_def[symmetric] key(1) q_def[symmetric] n_def
      by simp
    show ?thesis
    proof (cases "n = UINT32_MAX")
      case True
      have "marked (\<lambda>n. n) i pt pt" using marked_same[OF ok ok] marks_okD(5)[OF D(1)] by (simp add: only_marker_def)
      then show ?thesis using r run True by (auto simp: i_def)
    next
      case False
      have n1: "0 < n + 1" "n + 1 \<le> UINT32_MAX" using marks_okD(1)[OF D(1) m(1)] False by (auto simp: marker_shape_def n_def)
      note R = recount_ok[OF ok m(1) n1, unfolded m(2)]
      have "marker_writers pt i = n" using writers_one[OF D(1) m(1)] m(2) by (simp add: n_def)
      then have "marked Suc i pt (set_marker m ((marker_at pt m)\<lparr>dm_writer_count := n + 1\<rparr>) pt)"
        using R(1) by (simp add: marked_def)
      then show ?thesis using r run False R(2,3) by (auto simp: i_def)
    qed
  next
    case False
    then have new: "\<And>m. mlive pt m \<Longrightarrow> mident pt (marker_at pt m) \<noteq> i" by blast
    have same: "marked (\<lambda>n. n) i pt pt" using marked_same[OF ok ok] marks_okD(5)[OF D(1)] by (simp add: only_marker_def)
    define bad where "bad \<longleftrightarrow> pt_marker_free_head pt = 0 \<or> pt_marker_capacity pt < pt_marker_free_head pt \<or>
       pt_marker_key_free_head pt = 0 \<or> pt_marker_key_capacity pt < pt_marker_key_free_head pt \<or> pt_marker_generation pt = UINT64_MAX"
    obtain rebuilt pt1 where rb: "(if pglc_index_needs_rebuild (pt_marker_index pt) then rebuild_marker_index pt else (True, pt)) = (rebuilt, pt1)"
      by fastforce
    obtain ix1 where p1: "pt1 = pt\<lparr>pt_marker_index := ix1\<rparr>" "mlinked (marker_ids pt) pt1"
    proof (cases "pglc_index_needs_rebuild (pt_marker_index pt)")
      case True
      have "mlinked (marker_ids pt) pt" using D by (simp add: mlinked_def)
      from rebuild_mlinked[OF this] show ?thesis using that rb True by auto
    next
      case F: False
      then show ?thesis using that[of "pt_marker_index pt"] rb D by (simp add: mlinked_def)
    qed
    note R1 = marked_reindex[OF ok p1(2)[unfolded p1(1)], folded p1(1)]
    define mid where "mid = pt_marker_free_head pt1"
    define k where "k = pt_marker_key_free_head pt1"
    define d where "d = \<lparr>dm_key_hash = de_cache_key_hash l, dm_relation_slot_generation = shared_slot_generation l,
      dm_relation_incarnation = shared_relation_incarnation l, dm_generation = pt_marker_generation pt1 + 1,
      dm_relation_slot = shared_slot l, dm_writer_count = 1, dm_key_slot = k, dm_key_len = length key, dm_free_next = 0, dm_in_use = True\<rparr>"
    show ?thesis
    proof (cases "bad \<or> \<not> rebuilt")
      case True
      have "reserve_cache_marker l pt gl = (None, if bad then pt else pt1, gl)"
        using key D(2) F(2)[OF new] q(4) rb True
        unfolding reserve_cache_marker_def Let_def key_def[symmetric] key(1) q_def[symmetric] bad_def[symmetric]
        by (cases bad) simp_all
      then show ?thesis using run same R1(2)[of i] p1(1) by (auto simp: i_def)
    next
      case nb: False
      have hd: "mid \<noteq> 0" "k \<noteq> 0" "pt_marker_generation pt1 < UINT64_MAX" 
        using nb marks_okD(5)[OF D(1)] p1(1) by (auto simp: bad_def mid_def k_def)
      have new1: "\<And>m. mlive pt1 m \<Longrightarrow> mident pt1 (marker_at pt1 m) \<noteq> i" using new p1(1) by (simp add: mreindexed)
      have dd: "dm_in_use d" "dm_key_slot d = k" "dm_key_len d = length key" "length key < PGLC_KEY_MAX" "dm_writer_count d = 1"
        "dm_generation d = pt_marker_generation pt1 + 1" "(dm_key_hash d, dm_relation_slot d, dm_relation_slot_generation d, key) = i"
        using key(2) by (simp_all add: d_def i_def local_ident_def key_def)
      note P = mplaced_ok[OF R1(1) mid_def[symmetric] hd(1) k_def[symmetric] hd(2,3) dd new1]
      have off: "marker_key_offset pt1 k = Some ((k - 1) * PGLC_KEY_MAX)"
        by (rule key_offset_ok) (use R1(1) hd(2) P(10) in \<open>simp_all add: markers_ok_def\<close>)
      have "reserve_cache_marker l pt gl = finish_marker (de_cache_key_hash l) mid d (q\<lparr>mq_expected_id := mid\<rparr>) k (mplaced d key pt1) gl"
      proof -
        have h: "\<not> dm_in_use (marker_at pt1 mid)" "\<not> pt_marker_capacity pt1 < dm_free_next (marker_at pt1 mid)"
          "\<not> pt_marker_key_capacity pt1 < pt_marker_key_free_next pt1 ! (k - 1)"
          using P(7-9,11) hd(1) by (auto simp: mlive_def)
        show ?thesis using key D(2) F(2)[OF new] q(4) rb nb h off
          unfolding reserve_cache_marker_def Let_def key_def[symmetric] key(1) q_def[symmetric] bad_def[symmetric]
            finish_marker_def mplaced_def mid_def[symmetric] k_def[symmetric]
          by (simp add: d_def mid_def[symmetric] k_def[symmetric] split: prod.split)
      qed
      then have fm: "finish_marker (de_cache_key_hash l) mid d (q\<lparr>mq_expected_id := mid\<rparr>) k (mplaced d key pt1) gl = (res, pt', gl')"
        using run by simp
      have "case res of None \<Rightarrow> marked (\<lambda>n. n) i pt1 pt' \<and> gl' = gl \<and> pt_marker_count pt' = pt_marker_count pt1
        | Some (m, gen) \<Rightarrow> marked Suc i pt1 pt' \<and> tok pt' m gen i \<and> gl' = count_marker gl \<and> pt_marker_count pt' = pt_marker_count pt1 + 1"
        by (rule finish_marker_spec[OF R1(1) mid_def[symmetric] hd(1) k_def[symmetric] hd(2,3) dd new1 _ _ _ fm])
          (use q(3) in \<open>simp_all add: d_def\<close>)
      then show ?thesis using marked_trans[OF ok R1(2)] p1(1) by (auto simp: i_def split: option.splits)
    qed
  qed
qed

section \<open>Releasing a marker\<close>

lemma release_stale:
  assumes "\<not> (mlive pt m \<and> dm_generation (marker_at pt m) = g)"
  shows "release_cache_marker m g pt gl = (Inr (), pt, gl)"
  using assms unfolding release_cache_marker_def mlive_def Let_def by auto

lemma release_spec:
  assumes ok: "markers_ok pt" and t: "tok pt m g i"
  obtains pt' gl' where "release_cache_marker m g pt gl = (Inr (), pt', gl')" "marked (\<lambda>n. n - 1) i pt pt'"
    "gl' = gl \<and> pt_marker_count pt' = pt_marker_count pt \<or>
     gl' = gl\<lparr>gl_dirty_marker_entries := u64_sub (gl_dirty_marker_entries gl) 1\<rparr> \<and> pt_marker_count pt' = pt_marker_count pt - 1 \<and>
     0 < pt_marker_count pt"
proof -
  define d where "d = marker_at pt m"
  define n where "n = dm_writer_count d"
  define d1 where "d1 = d\<lparr>dm_writer_count := n - 1\<rparr>"
  define pt1 where "pt1 = set_marker m d1 pt"
  have m: "mlive pt m" "dm_generation d = g" "mident pt d = i" using t by (auto simp: tok_def d_def)
  have D: "marks_ok pt" "mindexed (marker_ids pt) pt" "mchains_ok pt" "pt_marker_count pt = card (marker_ids pt)"
    "pglc_partition_index_valid pt True" "pt_marker_capacity pt \<le> 16777216"
    using ok by (auto simp: markers_ok_def mindexed_def)
  have sh: "marker_shape pt d" using marks_okD(1)[OF D(1) m(1)] by (simp add: d_def)
  have rng: "m \<noteq> 0" "m \<le> pt_marker_capacity pt" "dm_in_use d" using m(1) by (auto simp: mlive_def d_def)
  have hd: "pt_marker_free_head pt \<le> pt_marker_capacity pt" "pt_marker_key_free_head pt \<le> pt_marker_key_capacity pt"
    using D(3) chain_head unfolding mchains_ok_def by fastforce+
  have w: "marker_writers pt i = n" "0 < n" "n \<le> UINT32_MAX"
    using writers_one[OF D(1) m(1)] m(3) sh by (auto simp: n_def d_def marker_shape_def)
  have guard: "\<not> (m = 0 \<or> pt_marker_capacity pt < m)"
    "\<not> (\<not> dm_in_use d \<or> dm_generation d \<noteq> g \<or> dm_writer_count d = 0 \<or> dm_key_slot d = 0 \<or>
        pt_marker_key_capacity pt < dm_key_slot d \<or> PGLC_KEY_MAX < dm_key_len d \<or>
        \<not> pglc_partition_index_valid pt True \<or> pt_marker_capacity pt < pt_marker_free_head pt \<or>
        pt_marker_key_capacity pt < pt_marker_key_free_head pt)"
    using rng m(2) w(2) sh D(5) hd by (auto simp: marker_shape_def n_def)
  show thesis
  proof (cases "n = 1")
    case False
    have n1: "0 < n - 1" "n - 1 \<le> UINT32_MAX" using w False by auto
    note R = recount_ok[OF ok m(1) n1, folded d_def, unfolded m(3), folded d1_def pt1_def]
    have "release_cache_marker m g pt gl = (Inr (), pt1, gl)"
      using False w(2) unfolding release_cache_marker_def Let_def d_def[symmetric] if_not_P[OF guard(1)] if_not_P[OF guard(2)]
      unfolding n_def[symmetric] d1_def[symmetric] pt1_def[symmetric] by (simp add: d1_def)
    moreover have "marked (\<lambda>n. n - 1) i pt pt1" using R(1) w(1) by (simp add: marked_def)
    ultimately show ?thesis using that R(3) by blast
  next
    case True
    define q where "q = (blank_marker_query pt1)\<lparr>mq_expected_id := m\<rparr>"
    have p1: "pt_markers pt1 = (pt_markers pt)[m - 1 := d1]" "marker_at pt1 m = d1"
      using rng by (simp_all add: pt1_def set_marker_def)
    define H where "H x = dm_key_hash (marker_at pt1 x)" for x
    have at: "marker_at pt1 x = marker_at pt x" if "x \<noteq> m" "x \<noteq> 0" for x
      using rng that unfolding p1(1) by (auto simp: nth_list_update)
    have fields: "dm_key_hash d1 = dm_key_hash d" "dm_key_slot d1 = dm_key_slot d" "dm_key_len d1 = dm_key_len d" "dm_in_use d1"
      using rng(3) by (simp_all add: d1_def)
    have same: "dm_key_hash (marker_at pt1 x) = dm_key_hash (marker_at pt x)" if "x \<noteq> 0" for x
      using at[of x] that p1(2) fields(1) by (cases "x = m") (auto simp: d_def)
    have "\<exists>ix. pglc_index_remove (pt_marker_index pt) (dm_key_hash d) marker_hash_by_id marker_matches_id q = (m, ix, q) \<and>
        index_ok ix (\<lambda>x. dm_key_hash (marker_at pt x)) (marker_ids pt - {m}) \<and> bucket_count ix = bucket_count (pt_marker_index pt)"
    proof -
      have q: "mq_partition q = pt1" "mq_expected_id q = m" "mq_key_len q = 0" by (simp_all add: q_def blank_marker_query_def)
      have "healthy_marker q x" if x: "x \<in> marker_ids pt" for x
      proof -
        have x': "mlive pt x" "x \<noteq> 0" using x by (auto simp: marker_ids_def mlive_def)
        have "dm_key_slot (marker_at pt1 x) = dm_key_slot (marker_at pt x)" "dm_key_len (marker_at pt1 x) = dm_key_len (marker_at pt x)"
          "dm_in_use (marker_at pt1 x) = dm_in_use (marker_at pt x)"
          using at[of x] x'(2) p1(2) fields rng(3) by (cases "x = m"; simp add: d_def)+
        moreover have "marker_key_offset pt1 = marker_key_offset pt" by (simp add: fun_eq_iff marker_key_offset_def pt1_def set_marker_def)
        moreover have "pt_marker_capacity pt1 = pt_marker_capacity pt" using p1(1) by simp
        ultimately show ?thesis
          using marks_okD(1)[OF D(1) x'(1)] key_offset_ok[OF D(1), of "dm_key_slot (marker_at pt x)"] x' q
          by (simp add: healthy_marker_def marker_shape_def mlive_def)
      qed
      moreover have io: "index_ok (pt_marker_index pt) (marker_hash_of q) (marker_ids pt)"
        by (rule index_ok_cong[of _ "\<lambda>x. dm_key_hash (marker_at pt x)"])
          (use D(2) same q(1) in \<open>auto simp: mindexed_def marker_hash_of_def marker_ids_def mlive_def\<close>)
      ultimately have sv: "marker_by_id.served (pt_marker_index pt) (marker_ids pt) q" unfolding marker_by_id.served_def by blast
      have ex: "\<exists>x \<in> marker_ids pt. marker_hash_of q x = dm_key_hash d \<and> x = mq_expected_id q"
        using m(1) q p1(2) fields(1) by (auto simp: marker_ids_def marker_hash_of_def)
      obtain ix where ix: "pglc_index_remove (pt_marker_index pt) (dm_key_hash d) marker_hash_by_id marker_matches_id q = (m, ix, q)"
        "index_ok ix (marker_hash_of q) (marker_ids pt - {m})" "bucket_count ix = bucket_count (pt_marker_index pt)"
        using marker_by_id.remove_served[OF sv, of "dm_key_hash d", unfolded if_P[OF ex]] q(2) by auto
      have "index_ok ix (\<lambda>x. dm_key_hash (marker_at pt x)) (marker_ids pt - {m})"
        by (rule index_ok_cong[OF ix(2)]) (use same q(1) in \<open>auto simp: marker_hash_of_def marker_ids_def mlive_def\<close>)
      then show ?thesis using ix by blast
    qed
    then obtain ix where ix: "pglc_index_remove (pt_marker_index pt) (dm_key_hash d) marker_hash_by_id marker_matches_id q = (m, ix, q)"
      "index_ok ix (\<lambda>x. dm_key_hash (marker_at pt x)) (marker_ids pt - {m})" "bucket_count ix = bucket_count (pt_marker_index pt)" by blast
    have L: "mlinked (marker_ids pt - {m}) (pt\<lparr>pt_marker_index := ix\<rparr>)"
      by (rule mlinked_index[OF _ ix(2,3)]) (use D in \<open>auto simp: mlinked_def\<close>)
    define e where "e = d1\<lparr>dm_in_use := False, dm_key_len := 0, dm_key_slot := 0, dm_free_next := pt_marker_free_head pt\<rparr>"
    define pt2 where "pt2 = pt\<lparr>pt_marker_index := ix\<rparr>"
    define pt3 where "pt3 = (set_marker m e pt2)\<lparr>pt_marker_free_head := m,
      pt_marker_key_free_next := (pt_marker_key_free_next pt2)[dm_key_slot (marker_at pt2 m) - 1 := pt_marker_key_free_head pt2],
      pt_marker_key_free_head := dm_key_slot (marker_at pt2 m), pt_marker_count := u32_sub (pt_marker_count pt) 1\<rparr>"
    have f2: "marker_ids pt2 = marker_ids pt" "mchains_ok pt2" "mlive pt2 m" "marker_at pt2 m = d" "entry_side pt2 = entry_side pt"
      using D(3) m(1) by (simp_all add: pt2_def mreindexed d_def)
    have cs: "0 < card (marker_ids pt)" "card (marker_ids pt) \<le> pt_marker_capacity pt"
    proof -
      show "0 < card (marker_ids pt)" using m(1) finite_marker_ids by (auto simp: card_gt_0_iff marker_ids_def)
      have "marker_ids pt \<subseteq> {1..pt_marker_capacity pt}" by (auto simp: marker_ids_def mlive_def)
      from card_mono[OF _ this] show "card (marker_ids pt) \<le> pt_marker_capacity pt" by simp
    qed
    have c: "u32_sub (pt_marker_count pt) 1 = card (marker_ids pt2 - {m})" "u32_sub (pt_marker_count pt) 1 = pt_marker_count pt - 1"
      using cs D(4,6) f2(1) m(1) finite_marker_ids[of pt] by (simp_all add: width_simps card_Diff_singleton marker_ids_def)
    note U = unlink_ok[OF L[folded pt2_def] _ f2(2,3) _ _ c(1), of e, folded pt3_def, unfolded f2(1)]
    have U': "markers_ok pt3" "only_marker m pt2 pt3" "\<not> mlive pt3 m" "entry_side pt3 = entry_side pt"
      using U f2(5) by (simp_all add: e_def pt2_def)
    obtain pt4 where pt4: "pt4 = (if pglc_index_needs_rebuild (pt_marker_index pt3) then snd (rebuild_marker_index pt3) else pt3)" by blast
    have L3: "mlinked (marker_ids pt3) pt3" using U'(1) by (simp add: markers_ok_def mlinked_def)
    obtain ix4 where p4: "pt4 = pt3\<lparr>pt_marker_index := ix4\<rparr>" "mlinked (marker_ids pt3) pt4"
    proof (cases "pglc_index_needs_rebuild (pt_marker_index pt3)")
      case nr: True
      then show ?thesis using that rebuild_mlinked[OF L3] unfolding pt4 by auto
    next
      case nr: False
      then show ?thesis using that[of "pt_marker_index pt3"] L3 unfolding pt4 by simp
    qed
    note R4 = marked_reindex[OF U'(1) p4(2)[unfolded p4(1)], folded p4(1)]
    have O2: "only_marker m pt pt2" using marks_okD(5)[OF D(1)] by (simp add: pt2_def only_marker_def mreindexed)
    have O3: "only_marker m pt pt3" by (rule only_marker_trans[OF O2 U'(2)])
    have "marker_writers pt3 i = 0"
    proof (rule writers_none)
      fix x assume x: "mlive pt3 x"
      then have "x \<noteq> m" using U'(3) by blast
      then have "mlive pt x" "mident pt3 (marker_at pt3 x) = mident pt (marker_at pt x)" using only_markerD(1,4)[OF O3] x by auto
      then show "mident pt3 (marker_at pt3 x) \<noteq> i" using marks_okD(2)[OF D(1) _ m(1), of x] m(3) \<open>x \<noteq> m\<close> by (auto simp: d_def)
    qed
    then have M3: "marked (\<lambda>n. n - 1) i pt pt3"
      using w(1) True m(1,3) U' by (intro marked_step[OF O3 D(1)]) (auto simp: d_def)
    have "marked (\<lambda>n. n - 1) i pt pt4"
      using M3 R4(2)[of i] unfolding marked_def by auto
    moreover have "pt_marker_count pt4 = pt_marker_count pt - 1" using p4(1) c(2) by (simp add: pt3_def)
    moreover have "release_cache_marker m g pt gl = (Inr (), pt4, gl\<lparr>gl_dirty_marker_entries := u64_sub (gl_dirty_marker_entries gl) 1\<rparr>)"
    proof -
      have eq: "pt3 = (set_marker m e (pt1\<lparr>pt_marker_index := ix\<rparr>))\<lparr>pt_marker_free_head := m,
          pt_marker_key_free_next := (pt_marker_key_free_next pt)[dm_key_slot d - 1 := pt_marker_key_free_head pt],
          pt_marker_key_free_head := dm_key_slot d, pt_marker_count := u32_sub (pt_marker_count pt) 1\<rparr>"
        unfolding pt3_def f2(4) by (simp add: pt1_def pt2_def set_marker_def)
      have fr: "pt_marker_index pt1 = pt_marker_index pt" "pt_marker_free_head pt1 = pt_marker_free_head pt"
        "pt_marker_key_free_next pt1 = pt_marker_key_free_next pt" "pt_marker_key_free_head pt1 = pt_marker_key_free_head pt"
        "pt_marker_count pt1 = pt_marker_count pt" by (simp_all add: pt1_def set_marker_def)
      show ?thesis
        unfolding release_cache_marker_def Let_def d_def[symmetric] if_not_P[OF guard(1)] if_not_P[OF guard(2)]
        unfolding n_def[symmetric] d1_def[symmetric] pt1_def[symmetric] q_def[symmetric]
        using True ix(1) by (simp add: fr fields(1,2) pt4 eq e_def) (simp add: d1_def)
    qed
    ultimately show ?thesis using that cs(1) D(4) by simp
  qed
qed

end
