(* ===== verification/CacheOps.thy ===== *)
theory CacheOps
  imports Markers
begin

text \<open>
  The operations on cached values of src/src/pg_local_cache.c (lines 2404 to 2442, 2624 to
  2645 and 3004 to 3960): lookup, fill, load leases, retirement and invalidation.

  \<^item> Every operation takes the partition lock, so its body is a function on one \<open>partition\<close>
    and the \<open>globals\<close>. The partition a caller locks is the one the hash of the key selects
    (\<open>partition_of_key\<close>), so \<open>get_cache_entry\<close> works on the locked partition.
  \<^item> The fence counters are read without a lock: \<open>obs i\<close> is their state at the i-th read of
    the operation. \<open>fs\<close> is the state an eviction sees, \<open>nows k\<close> the time of its k-th call.
  \<^item> Between two lock sections of one operation other processes run: \<open>others\<close> is what they
    make of the partition and the globals in the meantime.
\<close>

section \<open>Entry handles\<close>

definition get_cache_entry_internal ::
  "process \<Rightarrow> settings \<Rightarrow> fences \<Rightarrow> (nat \<Rightarrow> int) \<Rightarrow> nat \<Rightarrow> nat \<Rightarrow> char list \<Rightarrow> char list \<Rightarrow> nat \<Rightarrow> nat \<Rightarrow> bool \<Rightarrow>
   (nat \<times> nat) option \<Rightarrow> partition \<Rightarrow> globals \<Rightarrow> (cache_error + nat option \<times> nat) \<times> partition \<times> globals" where
  "get_cache_entry_internal pr s fs nows database_oid relation_oid nspace key relation_slot slot_generation create
       cached pt gl =
     (case cached of
        Some (key_len, hash) \<Rightarrow>
          get_cache_entry_in pr s fs nows database_oid relation_oid key relation_slot slot_generation create
            key_len hash pt gl
      | None \<Rightarrow>
          let key_len = u16 (strnlen key PGLC_KEY_MAX) in
          if key_len = PGLC_KEY_MAX then (Inr (None, 0), pt, gl)
          else get_cache_entry_in pr s fs nows database_oid relation_oid key relation_slot slot_generation create
                 key_len (cache_key_hash64 pr database_oid nspace key key_len) pt gl)"

text \<open>
  The callers that pass \<open>create = false\<close> and no \<open>corrupt_entry_id\<close>. Such a call never evicts,
  so the fences and times that only evictions read are left at zero.
\<close>

definition no_fences :: fences where
  "no_fences = \<lparr>global_version = 0, global_epoch = 0, global_dirty_writers = 0, config_generation = 0,
     relation_slots = []\<rparr>"

definition find_entry ::
  "process \<Rightarrow> settings \<Rightarrow> nat \<Rightarrow> nat \<Rightarrow> char list \<Rightarrow> char list \<Rightarrow> nat \<Rightarrow> nat \<Rightarrow> (nat \<times> nat) option \<Rightarrow>
   partition \<Rightarrow> nat option" where
  "find_entry pr s database_oid relation_oid nspace key relation_slot slot_generation cached pt =
     (case get_cache_entry_internal pr s no_fences (\<lambda>_. 0) database_oid relation_oid nspace key relation_slot
             slot_generation False cached pt \<lparr>gl_clock = 0, gl_cache_entry_count = 0, gl_dirty_marker_entries = 0,
               gl_dirty_marker_highwater = 0, gl_stats = \<lparr>plain_counters = (\<lambda>_. 0), stats_shards = (\<lambda>_ _. 0)\<rparr>\<rparr> of
        (Inr (entry, _), _) \<Rightarrow> entry | (Inl _, _) \<Rightarrow> None)"

definition get_cache_entry :: "process \<Rightarrow> settings \<Rightarrow> mapping \<Rightarrow> char list \<Rightarrow> partition \<Rightarrow> nat option" where
  "get_cache_entry pr s mp key pt =
     find_entry pr s (my_database_id pr) (mp_relation_oid mp) (mp_nspace mp) key (mp_relation_slot mp)
       (mp_relation_slot_generation mp) None pt"

definition get_cache_entry_with_cached_hash ::
  "process \<Rightarrow> settings \<Rightarrow> local_dirty_entry \<Rightarrow> partition \<Rightarrow> nat option" where
  "get_cache_entry_with_cached_hash pr s l pt =
     find_entry pr s (dk_database_oid (de_key l)) (de_relation_oid l) (dk_nspace (de_key l)) (dk_key (de_key l))
       (shared_slot l) (shared_slot_generation l) (Some (dk_key_len (de_key l), de_cache_key_hash l)) pt"

section \<open>Changes to one entry\<close>

text \<open>
  \<open>entry->valid = false; entry->loading = false; entry->load_id++;\<close> and a fresh version. When
  the generation overflows, the assignments before it stand.
\<close>

definition drop_lease :: "cache_entry \<Rightarrow> cache_entry" where
  "drop_lease e = e\<lparr>ce_loading := False, ce_load_id := u64 (ce_load_id e + 1)\<rparr>"

definition restamp_entry :: "nat \<Rightarrow> partition \<Rightarrow> (cache_error + unit) \<times> partition" where
  "restamp_entry eid pt =
     (let e = drop_lease ((entry_at pt eid)\<lparr>ce_valid := False\<rparr>);
          pt = set_entry eid e pt
      in case next_entry_generation pt of
           (Inl err, pt) \<Rightarrow> (Inl err, pt)
         | (Inr g, pt) \<Rightarrow> (Inr (), set_entry eid (e\<lparr>ce_version := g\<rparr>) pt))"

definition retire_entry :: "nat \<Rightarrow> partition \<Rightarrow> (cache_error + unit) \<times> partition" where
  "retire_entry eid pt =
     (case restamp_entry eid pt of
        (Inl err, pt) \<Rightarrow> (Inl err, pt)
      | (Inr _, pt) \<Rightarrow>
          (Inr (), set_entry eid ((entry_at pt eid)\<lparr>ce_source_xmin := 0, ce_source_observed_full_xid := 0\<rparr>) pt))"

definition same_mapping :: "mapping \<Rightarrow> cache_entry \<Rightarrow> bool" where
  "same_mapping mp e \<longleftrightarrow> ce_relation_oid e = mp_relation_oid mp \<and> ce_relation_slot e = mp_relation_slot mp \<and>
     ce_slot_generation e = mp_relation_slot_generation mp"

definition shift_obs :: "nat \<Rightarrow> observations \<Rightarrow> observations" where
  "shift_obs n obs = (\<lambda>i. obs (n + i))"

section \<open>Lookup\<close>

record lookup_result =
  lr_hit :: bool
  lr_value :: "char list"
  lr_value_len :: nat
  lr_negative :: bool
  lr_source_xmin :: nat
  lr_token :: read_token
  lr_complete :: bool
  lr_malformed :: bool
  lr_corrupt_entry_id :: nat

definition blank_token :: read_token where
  "blank_token = \<lparr>tk_config_generation = 0, tk_global_version = 0, tk_global_epoch = 0, tk_relation_version = 0,
     tk_relation_incarnation = 0, tk_slot_generation = 0, tk_relation_slot = 0, tk_key_version = 0,
     tk_source_observed_full_xid = 0, tk_cacheable = False, tk_has_entry = False\<rparr>"

definition blank_lookup :: lookup_result where
  "blank_lookup = \<lparr>lr_hit = False, lr_value = [], lr_value_len = 0, lr_negative = False, lr_source_xmin = 0,
     lr_token = blank_token, lr_complete = False, lr_malformed = False, lr_corrupt_entry_id = 0\<rparr>"

definition lookup_token :: "mapping \<Rightarrow> fence_snapshot \<Rightarrow> cache_entry option \<Rightarrow> bool \<Rightarrow> read_token" where
  "lookup_token mp before entry cacheable =
     \<lparr>tk_config_generation = sn_config_generation before, tk_global_version = sn_global_version before,
      tk_global_epoch = sn_global_epoch before, tk_relation_version = sn_relation_version before,
      tk_relation_incarnation = sn_relation_incarnation before, tk_slot_generation = sn_slot_generation before,
      tk_relation_slot = mp_relation_slot mp,
      tk_key_version = (case entry of None \<Rightarrow> 0 | Some e \<Rightarrow> ce_version e),
      tk_source_observed_full_xid = (case entry of None \<Rightarrow> 0 | Some e \<Rightarrow> ce_source_observed_full_xid e),
      tk_cacheable = cacheable, tk_has_entry = (entry \<noteq> None)\<rparr>"

text \<open>
  The body under a cacheable token and a current entry: copy the value, then accept it only
  if a second snapshot equals the first. \<open>obs\<close> starts at the second snapshot.
\<close>

definition copy_value ::
  "settings \<Rightarrow> observations \<Rightarrow> mapping \<Rightarrow> nat \<Rightarrow> fence_snapshot \<Rightarrow> cache_entry \<Rightarrow> partition \<Rightarrow> lookup_result \<Rightarrow>
   lookup_result" where
  "copy_value s obs mp value_capacity before e pt lr =
     (case cache_entry_block pt e of
        None \<Rightarrow> lr\<lparr>lr_malformed := True\<rparr>
      | Some block \<Rightarrow>
        if \<not> ce_negative e \<and> value_capacity < ce_value_len e then lr
        else
          let lr = (if ce_negative e then lr\<lparr>lr_negative := True\<rparr>
                    else lr\<lparr>lr_value := load_bytes (memory (pt_arena pt)) (block + ce_key_len e) (ce_value_len e)\<rparr>);
              hit = (case read_fence_snapshot s obs mp (Some e) of
                       None \<Rightarrow> False
                     | Some (after, steady) \<Rightarrow> steady \<and> fence_snapshots_equal before after)
          in if hit \<and> \<not> ce_negative e
             then lr\<lparr>lr_hit := True, lr_value_len := ce_value_len e, lr_source_xmin := ce_source_xmin e\<rparr>
             else if hit then lr\<lparr>lr_hit := True\<rparr>
             else lr\<lparr>lr_negative := False, lr_value_len := 0, lr_source_xmin := 0,
                    lr_token := (lr_token lr)\<lparr>tk_cacheable := False\<rparr>\<rparr>)"

definition touch_entry :: "nat \<Rightarrow> partition \<Rightarrow> globals \<Rightarrow> partition" where
  "touch_entry eid pt gl = set_entry eid ((entry_at pt eid)\<lparr>ce_last_access := gl_clock gl\<rparr>) pt"

text \<open>The snapshot cannot fail after the range check; its \<open>None\<close> branch repeats the early return.\<close>

definition cache_lookup_locked ::
  "process \<Rightarrow> settings \<Rightarrow> observations \<Rightarrow> fences \<Rightarrow> (nat \<Rightarrow> int) \<Rightarrow> mapping \<Rightarrow> char list \<Rightarrow> nat \<Rightarrow> bool \<Rightarrow>
   partition \<Rightarrow> globals \<Rightarrow> (cache_error + lookup_result) \<times> partition \<times> globals" where
  "cache_lookup_locked pr s obs fs nows mp key value_capacity create pt gl =
     (if pglc_relation_states s \<le> mp_relation_slot mp then (Inr (blank_lookup\<lparr>lr_complete := True\<rparr>), pt, gl)
      else case get_cache_entry_internal pr s fs nows (my_database_id pr) (mp_relation_oid mp) (mp_nspace mp) key
                  (mp_relation_slot mp) (mp_relation_slot_generation mp) create None pt gl of
        (Inl err, pt, gl) \<Rightarrow> (Inl err, pt, gl)
      | (Inr (entry, corrupt), pt, gl) \<Rightarrow>
        let e = map_option (entry_at pt) entry;
            mapping_matches = (case e of None \<Rightarrow> False | Some e \<Rightarrow> same_mapping mp e)
        in case read_fence_snapshot s obs mp e of
             None \<Rightarrow> (Inr (blank_lookup\<lparr>lr_complete := True\<rparr>), pt, gl)
           | Some (before, steady) \<Rightarrow>
             let cacheable = (steady \<and> mapping_matches);
                 lr = blank_lookup\<lparr>lr_complete := mapping_matches, lr_malformed := (corrupt \<noteq> 0),
                        lr_corrupt_entry_id := corrupt, lr_token := lookup_token mp before e cacheable\<rparr>
             in case entry of
                  None \<Rightarrow> (Inr lr, pt, gl)
                | Some eid \<Rightarrow>
                    if cacheable \<and> cache_entry_is_current_slot_locked s (shift_obs 13 obs) (entry_at pt eid)
                    then (Inr (copy_value s (shift_obs 17 obs) mp value_capacity before (entry_at pt eid) pt lr),
                          touch_entry eid pt gl, gl)
                    else (Inr lr, pt, gl))"

text \<open>\<open>true\<close> when the entry was retired.\<close>

definition cache_retire_malformed_entry_locked ::
  "process \<Rightarrow> settings \<Rightarrow> observations \<Rightarrow> mapping \<Rightarrow> char list \<Rightarrow> nat \<Rightarrow> partition \<Rightarrow> globals \<Rightarrow>
   (cache_error + bool) \<times> partition \<times> globals" where
  "cache_retire_malformed_entry_locked pr s obs mp key corrupt_entry_id pt gl =
     (let e = entry_at pt corrupt_entry_id;
          expected_hash = cache_key_hash64 pr (my_database_id pr) (mp_nspace mp) key (strnlen key PGLC_KEY_MAX)
      in if corrupt_entry_id = 0 \<or> pt_capacity pt < corrupt_entry_id then (Inr False, pt, gl)
         else if \<not> ce_in_use e \<or> ce_database_oid e \<noteq> my_database_id pr \<or> ce_key_hash e \<noteq> expected_hash \<or>
                 \<not> same_mapping mp e \<or>
                 \<not> (case read_fence_snapshot s obs mp (Some e) of None \<Rightarrow> False | Some (_, steady) \<Rightarrow> steady) \<or>
                 \<not> cache_entry_is_current_slot_locked s (shift_obs 13 obs) e
         then (Inr False, pt, gl)
         else
           let gl = (if ce_valid e then add_stat pr key_invalidations (add_stat pr invalidations gl) else gl)
           in case retire_entry corrupt_entry_id pt of
                (Inl err, pt) \<Rightarrow> (Inl err, pt, gl)
              | (Inr _, pt) \<Rightarrow> (Inr True, pt, gl))"

text \<open>
  The lookup of a request. The first attempt runs under the shared lock. A malformed or
  missing entry is handled in a second attempt under the exclusive lock, with \<open>others\<close> in
  between. The reads of the second section start at \<open>obs 30\<close> (after the 30 of the first).
\<close>

definition count_lookup :: "process \<Rightarrow> bool \<Rightarrow> lookup_result \<Rightarrow> globals \<Rightarrow> globals" where
  "count_lookup pr count_stats lr gl =
     (if count_stats \<and> lr_hit lr
      then (if lr_negative lr then add_stat pr negative_hits (add_stat pr cache_hits gl) else add_stat pr cache_hits gl)
      else if count_stats then add_stat pr cache_misses gl else gl)"

definition pglc_cache_lookup_internal ::
  "process \<Rightarrow> settings \<Rightarrow> observations \<Rightarrow> fences \<Rightarrow> (nat \<Rightarrow> int) \<Rightarrow> (partition \<times> globals \<Rightarrow> partition \<times> globals) \<Rightarrow>
   mapping \<Rightarrow> char list \<Rightarrow> nat \<Rightarrow> bool \<Rightarrow> partition \<Rightarrow> globals \<Rightarrow> (cache_error + lookup_result) \<times> partition \<times> globals" where
  "pglc_cache_lookup_internal pr s obs fs nows others mp key value_capacity count_stats pt gl =
     (case cache_lookup_locked pr s obs fs nows mp key value_capacity False pt gl of
        (Inl err, pt, gl) \<Rightarrow> (Inl err, pt, gl)
      | (Inr lr, pt, gl) \<Rightarrow>
        case (if lr_malformed lr
              then (case others (pt, gl) of (pt, gl) \<Rightarrow>
                      case cache_retire_malformed_entry_locked pr s (shift_obs 30 obs) mp key (lr_corrupt_entry_id lr) pt gl of
                        (Inl err, pt, gl) \<Rightarrow> (Inl err, pt, gl)
                      | (Inr _, pt, gl) \<Rightarrow>
                          cache_lookup_locked pr s (shift_obs 47 obs) fs nows mp key value_capacity False pt gl)
              else if \<not> lr_complete lr
              then (case others (pt, gl) of (pt, gl) \<Rightarrow>
                      cache_lookup_locked pr s (shift_obs 30 obs) fs nows mp key value_capacity True pt gl)
              else (Inr lr, pt, gl)) of
          (Inl err, pt, gl) \<Rightarrow> (Inl err, pt, gl)
        | (Inr lr, pt, gl) \<Rightarrow> (Inr lr, pt, count_lookup pr count_stats lr gl))"

definition pglc_cache_lookup where
  "pglc_cache_lookup pr s obs fs nows others mp key value_capacity =
     pglc_cache_lookup_internal pr s obs fs nows others mp key value_capacity True"

definition pglc_cache_lookup_quiet where
  "pglc_cache_lookup_quiet pr s obs fs nows others mp key value_capacity =
     pglc_cache_lookup_internal pr s obs fs nows others mp key value_capacity False"

section \<open>Retirement and fill\<close>

definition pglc_cache_retire_positive ::
  "process \<Rightarrow> settings \<Rightarrow> observations \<Rightarrow> mapping \<Rightarrow> char list \<Rightarrow> read_token \<Rightarrow> nat \<Rightarrow> partition \<Rightarrow>
   (cache_error + bool) \<times> partition" where
  "pglc_cache_retire_positive pr s obs mp key token expected_xmin pt =
     (if \<not> tk_cacheable token \<or> \<not> tk_has_entry token \<or> mp_config_generation mp \<noteq> tk_config_generation token
      then (Inr False, pt)
      else case get_cache_entry pr s mp key pt of
        None \<Rightarrow> (Inr False, pt)
      | Some eid \<Rightarrow>
        let e = entry_at pt eid in
        if (case read_fence_snapshot s obs mp (Some e) of
              None \<Rightarrow> False | Some (sn, steady) \<Rightarrow> steady \<and> fence_snapshot_matches_token sn token) \<and>
           same_mapping mp e \<and> cache_entry_is_current_slot_locked s (shift_obs 13 obs) e \<and> \<not> ce_negative e \<and>
           ce_source_xmin e = expected_xmin \<and> ce_source_observed_full_xid e = tk_source_observed_full_xid token
        then (case retire_entry eid pt of (Inl err, pt) \<Rightarrow> (Inl err, pt) | (Inr _, pt) \<Rightarrow> (Inr True, pt))
        else (Inr False, pt))"

text \<open>The rejections of a fill: the lease ends, and \<open>valid\<close> is cleared unless nothing was touched.\<close>

definition reject_fill :: "process \<Rightarrow> bool \<Rightarrow> nat \<Rightarrow> partition \<Rightarrow> globals \<Rightarrow> partition \<times> globals" where
  "reject_fill pr keep_valid eid pt gl =
     (set_entry eid (drop_lease ((entry_at pt eid)\<lparr>ce_valid := (keep_valid \<and> ce_valid (entry_at pt eid))\<rparr>)) pt,
      cache_admission_rejected pr True gl)"

text \<open>
  Give the entry a block for \<open>new_block_len\<close> bytes: a larger class moves the key to a new
  block, otherwise the old block is resized. \<open>Inr False\<close> is a rejected fill.
\<close>

definition grow_block ::
  "process \<Rightarrow> settings \<Rightarrow> fences \<Rightarrow> (nat \<Rightarrow> int) \<Rightarrow> nat \<Rightarrow> nat \<Rightarrow> partition \<Rightarrow> globals \<Rightarrow>
   (cache_error + bool) \<times> partition \<times> globals" where
  "grow_block pr s fs nows eid new_block_len pt gl =
     (let old_block_ref = ce_block_ref (entry_at pt eid); old_block_len = ce_block_len (entry_at pt eid) in
      case alloc_with_eviction pr s fs nows new_block_len eid 0 pt gl of
        (Inl err, k, pt, gl) \<Rightarrow> (Inl err, pt, gl)
      | (Inr None, k, pt, gl) \<Rightarrow>
          (case reject_fill pr True eid pt gl of (pt, gl) \<Rightarrow> (Inr False, pt, gl))
      | (Inr (Some (new_block_ref, new_class)), k, pt, gl) \<Rightarrow>
          case (pglc_arena_block (pt_arena pt) new_block_ref, pglc_arena_block (pt_arena pt) old_block_ref) of
            (Some block, Some old_block) \<Rightarrow>
              if new_class < new_block_len
              then (case reject_fill pr False eid
                      (pt\<lparr>pt_arena := fst (pglc_arena_free (pt_arena pt) new_block_ref new_block_len)\<rparr>) gl of
                      (pt, gl) \<Rightarrow> (Inr False, pt, gl))
              else
                let a = (pt_arena pt)\<lparr>memory := store_bytes (memory (pt_arena pt)) block
                      (load_bytes (memory (pt_arena pt)) old_block (ce_key_len (entry_at pt eid)))\<rparr>;
                    pt = set_entry eid ((entry_at pt eid)\<lparr>ce_block_ref := new_block_ref,
                           ce_block_len := u16 new_block_len\<rparr>) pt
                in case pglc_arena_free a old_block_ref old_block_len of
                     (a, True) \<Rightarrow> (Inr True, pt\<lparr>pt_arena := a\<rparr>, gl)
                   | (a, False) \<Rightarrow>
                     (case reject_fill pr False eid (pt\<lparr>pt_arena := a\<rparr>) gl of (pt, gl) \<Rightarrow> (Inr False, pt, gl))
          | _ \<Rightarrow> (case reject_fill pr False eid
                    (pt\<lparr>pt_arena := fst (pglc_arena_free (pt_arena pt) new_block_ref new_block_len)\<rparr>) gl of
                    (pt, gl) \<Rightarrow> (Inr False, pt, gl)))"

definition fit_block ::
  "process \<Rightarrow> settings \<Rightarrow> fences \<Rightarrow> (nat \<Rightarrow> int) \<Rightarrow> nat \<Rightarrow> nat \<Rightarrow> partition \<Rightarrow> globals \<Rightarrow>
   (cache_error + bool) \<times> partition \<times> globals" where
  "fit_block pr s fs nows eid new_value_len pt gl =
     (let e = entry_at pt eid;
          old_class = pglc_arena_block_class (pt_arena pt) (ce_block_ref e);
          reject = (case reject_fill pr False eid pt gl of (pt, gl) \<Rightarrow> (Inr False, pt, gl))
      in if UINT32_MAX - new_value_len < ce_key_len e \<or> UINT16_MAX - new_value_len < ce_key_len e then reject
         else
           let new_block_len = ce_key_len e + new_value_len;
               requested_class = pglc_arena_class_size new_block_len
           in if requested_class = 0 \<or> old_class = 0 \<or> ce_block_len e \<noteq> ce_key_len e + ce_value_len e \<or>
                 old_class < ce_block_len e \<or> new_block_len < ce_key_len e \<or>
                 new_block_len - ce_key_len e < new_value_len
              then reject
              else if old_class < requested_class then grow_block pr s fs nows eid new_block_len pt gl
              else case pglc_arena_resize (pt_arena pt) (ce_block_ref e) (ce_block_len e) new_block_len of
                (a, False) \<Rightarrow> reject
              | (a, True) \<Rightarrow>
                  (Inr True, set_entry eid (e\<lparr>ce_block_len := u16 new_block_len\<rparr>) (pt\<lparr>pt_arena := a\<rparr>), gl))"

text \<open>
  Write the value into the fitted block, publish it and check the fences once more. \<open>obs\<close>
  starts at that check.
\<close>

definition fill_entry ::
  "process \<Rightarrow> settings \<Rightarrow> observations \<Rightarrow> mapping \<Rightarrow> read_token \<Rightarrow> nat \<Rightarrow> char list \<Rightarrow> bool \<Rightarrow> nat \<Rightarrow> nat \<Rightarrow>
   partition \<Rightarrow> globals \<Rightarrow> (cache_error + bool) \<times> partition \<times> globals" where
  "fill_entry pr s obs mp token eid value negative source_xmin observed_full_xid pt gl =
     (let e = entry_at pt eid;
          new_value_len = (if negative then 0 else length value)
      in case pglc_arena_block (pt_arena pt) (ce_block_ref e) of
           None \<Rightarrow> (case reject_fill pr False eid pt gl of (pt, gl) \<Rightarrow> (Inr False, pt, gl))
         | Some block \<Rightarrow>
           if pglc_arena_block_class (pt_arena pt) (ce_block_ref e) < ce_key_len e + new_value_len
           then (case reject_fill pr False eid pt gl of (pt, gl) \<Rightarrow> (Inr False, pt, gl))
           else
             let pt = (if \<not> negative \<and> 0 < length value
                       then pt\<lparr>pt_arena := (pt_arena pt)\<lparr>memory :=
                              store_bytes (memory (pt_arena pt)) (block + ce_key_len e) value\<rparr>\<rparr>
                       else pt);
                 e = e\<lparr>ce_negative := negative, ce_value_len := u16 new_value_len,
                       ce_source_xmin := (if negative then 0 else source_xmin),
                       ce_source_observed_full_xid := observed_full_xid, ce_global_epoch := tk_global_epoch token,
                       ce_relation_version := tk_relation_version token,
                       ce_relation_incarnation := tk_relation_incarnation token,
                       ce_relation_slot := tk_relation_slot token, ce_slot_generation := tk_slot_generation token\<rparr>;
                 pt = set_entry eid e pt
             in case next_entry_generation pt of
                  (Inl err, pt) \<Rightarrow> (Inl err, pt, gl)
                | (Inr g, pt) \<Rightarrow>
                  let e = (drop_lease (e\<lparr>ce_version := g\<rparr>))\<lparr>ce_valid := True\<rparr>;
                      stored = (case read_fence_snapshot s obs mp (Some e) of
                                  None \<Rightarrow> False
                                | Some (after, steady) \<Rightarrow> steady \<and> fence_snapshot_fences_match_token after token);
                      e = (if stored then e else drop_lease (e\<lparr>ce_valid := False\<rparr>));
                      clock = u64 (gl_clock gl + 1)
                  in (Inr stored, set_entry eid (e\<lparr>ce_last_access := clock\<rparr>) pt, gl\<lparr>gl_clock := clock\<rparr>))"

text \<open>Whether the caller still owns the lease its token was given.\<close>

definition may_fill :: "settings \<Rightarrow> observations \<Rightarrow> mapping \<Rightarrow> read_token \<Rightarrow> nat \<Rightarrow> cache_entry \<Rightarrow> bool" where
  "may_fill s obs mp token load_id e \<longleftrightarrow>
     (case read_fence_snapshot s obs mp (Some e) of
        None \<Rightarrow> False | Some (before, steady) \<Rightarrow> steady \<and> fence_snapshot_matches_token before token) \<and>
     same_mapping mp e \<and> load_id \<noteq> 0 \<and> ce_loading e \<and> ce_load_id e = load_id \<and>
     ce_global_epoch e = tk_global_epoch token \<and> ce_relation_version e = tk_relation_version token \<and>
     ce_relation_incarnation e = tk_relation_incarnation token \<and> ce_version e = tk_key_version token"

definition pglc_cache_store ::
  "process \<Rightarrow> settings \<Rightarrow> observations \<Rightarrow> fences \<Rightarrow> (nat \<Rightarrow> int) \<Rightarrow> nat \<Rightarrow> mapping \<Rightarrow> char list \<Rightarrow> read_token \<Rightarrow>
   char list \<Rightarrow> bool \<Rightarrow> nat \<Rightarrow> nat \<Rightarrow> partition \<Rightarrow> globals \<Rightarrow> (cache_error + bool) \<times> partition \<times> globals" where
  "pglc_cache_store pr s obs fs nows next_full_xid mp key token value negative load_id source_xmin pt gl =
     (if \<not> tk_cacheable token \<or> \<not> tk_has_entry token \<or> PGLC_VALUE_MAX < length value \<or>
         mp_config_generation mp \<noteq> tk_config_generation token \<or>
         config_generation (obs 0) \<noteq> tk_config_generation token
      then (Inr False, pt, gl)
      else case get_cache_entry pr s mp key pt of
        None \<Rightarrow> (Inr False, pt, gl)
      | Some eid \<Rightarrow>
        if \<not> may_fill s (shift_obs 1 obs) mp token load_id (entry_at pt eid) then (Inr False, pt, gl)
        else case fit_block pr s fs nows eid (if negative then 0 else length value) pt gl of
          (Inl err, pt, gl) \<Rightarrow> (Inl err, pt, gl)
        | (Inr False, pt, gl) \<Rightarrow> (Inr False, pt, gl)
        | (Inr True, pt, gl) \<Rightarrow>
          case fill_entry pr s (shift_obs 14 obs) mp token eid value negative source_xmin next_full_xid pt gl of
            (Inl err, pt, gl) \<Rightarrow> (Inl err, pt, gl)
          | (Inr stored, pt, gl) \<Rightarrow>
              (Inr stored, pt, if stored \<and> negative then add_stat pr negative_writes gl else gl))"

section \<open>Load leases\<close>

datatype load_claim = PGLC_LOAD_BYPASS | PGLC_LOAD_OWNER | PGLC_LOAD_WAIT | PGLC_LOAD_RETRY

text \<open>Lease tags that no longer agree with the token end a lease before its time.\<close>

definition end_stale_lease :: "read_token \<Rightarrow> nat \<Rightarrow> partition \<Rightarrow> partition" where
  "end_stale_lease token eid pt =
     (let e = entry_at pt eid in
      if ce_loading e \<and> (ce_global_epoch e \<noteq> tk_global_epoch token \<or> ce_relation_version e \<noteq> tk_relation_version token \<or>
           ce_relation_incarnation e \<noteq> tk_relation_incarnation token \<or> ce_version e \<noteq> tk_key_version token)
      then set_entry eid (drop_lease e) pt else pt)"

text \<open>The lease itself; \<open>obs\<close> starts at the snapshot that confirms it.\<close>

definition take_lease ::
  "process \<Rightarrow> settings \<Rightarrow> observations \<Rightarrow> int \<Rightarrow> mapping \<Rightarrow> read_token \<Rightarrow> nat \<Rightarrow> partition \<Rightarrow> globals \<Rightarrow>
   (load_claim \<times> nat) \<times> partition \<times> globals" where
  "take_lease pr s obs now mp token eid pt gl =
     (let e = (entry_at pt eid)\<lparr>ce_loading := True, ce_load_started := now, ce_valid := False,
            ce_global_epoch := tk_global_epoch token, ce_relation_version := tk_relation_version token,
            ce_relation_incarnation := tk_relation_incarnation token\<rparr>;
          load_id = (if u64 (ce_load_id e + 1) = 0 then 1 else u64 (ce_load_id e + 1));
          e = e\<lparr>ce_load_id := load_id\<rparr>
      in if (case read_fence_snapshot s obs mp (Some e) of
               None \<Rightarrow> False | Some (after, steady) \<Rightarrow> steady \<and> fence_snapshot_matches_token after token)
         then ((PGLC_LOAD_OWNER, load_id), set_entry eid e pt, add_stat pr singleflight_leaders gl)
         else ((PGLC_LOAD_RETRY, 0), set_entry eid (drop_lease e) pt, gl))"

text \<open>
  The claim. Thirteen reads for the snapshot, two for the writer counts, four for the test
  whether the entry is current, thirteen to confirm a lease.
\<close>

definition pglc_cache_claim_load ::
  "process \<Rightarrow> settings \<Rightarrow> observations \<Rightarrow> int \<Rightarrow> mapping \<Rightarrow> char list \<Rightarrow> read_token \<Rightarrow> partition \<Rightarrow> globals \<Rightarrow>
   (cache_error + load_claim \<times> nat) \<times> partition \<times> globals" where
  "pglc_cache_claim_load pr s obs now mp key token pt gl =
     (if \<not> tk_cacheable token \<or> \<not> tk_has_entry token \<or> pglc_relation_states s \<le> mp_relation_slot mp
      then (Inr (PGLC_LOAD_BYPASS, 0), pt, gl)
      else
        let entry = get_cache_entry pr s mp key pt; e = map_option (entry_at pt) entry;
            key_len = u16 (strnlen key PGLC_KEY_MAX)
        in case read_fence_snapshot s obs mp e of
             None \<Rightarrow> (Inr (PGLC_LOAD_BYPASS, 0), pt, gl)
           | Some (before, steady) \<Rightarrow>
             if sn_config_generation before \<noteq> mp_config_generation mp \<or>
                sn_slot_generation before \<noteq> mp_relation_slot_generation mp \<or>
                sn_relation_incarnation before = 0 \<or>
                (case e of None \<Rightarrow> False | Some e \<Rightarrow> \<not> same_mapping mp e) \<or> key_len = PGLC_KEY_MAX \<or>
                global_dirty_writers (obs 13) \<noteq> 0 \<or>
                rs_dirty_writers (slot_at (obs 14) (mp_relation_slot mp)) \<noteq> 0 \<or>
                (case e of None \<Rightarrow> False | Some e \<Rightarrow> ce_dirty_writers e \<noteq> 0) \<or>
                cache_marker_find pt (cache_key_hash64 pr (my_database_id pr) (mp_nspace mp) key key_len) key key_len
                  (mp_relation_slot mp) (mp_relation_slot_generation mp) \<noteq> 0
             then (Inr (PGLC_LOAD_BYPASS, 0), pt, gl)
             else case entry of
               None \<Rightarrow> (Inr (PGLC_LOAD_RETRY, 0), pt, gl)
             | Some eid \<Rightarrow>
               if \<not> steady \<or> \<not> fence_snapshot_matches_token before token \<or>
                  cache_entry_is_current_slot_locked s (shift_obs 15 obs) (entry_at pt eid)
               then (Inr (PGLC_LOAD_RETRY, 0), pt, gl)
               else case cache_load_is_active_locked s now eid (end_stale_lease token eid pt) of
                 (Inl err, pt) \<Rightarrow> (Inl err, pt, gl)
               | (Inr True, pt) \<Rightarrow> (Inr (PGLC_LOAD_WAIT, 0), pt, gl)
               | (Inr False, pt) \<Rightarrow>
                   if ce_version (entry_at pt eid) \<noteq> tk_key_version token then (Inr (PGLC_LOAD_RETRY, 0), pt, gl)
                   else (case take_lease pr s (shift_obs 19 obs) now mp token eid pt gl of
                           (r, pt, gl) \<Rightarrow> (Inr r, pt, gl)))"

definition pglc_cache_release_load ::
  "process \<Rightarrow> settings \<Rightarrow> mapping \<Rightarrow> char list \<Rightarrow> read_token \<Rightarrow> nat \<Rightarrow> partition \<Rightarrow> partition" where
  "pglc_cache_release_load pr s mp key claim_token load_id pt =
     (if load_id = 0 \<or> \<not> tk_cacheable claim_token \<or> \<not> tk_has_entry claim_token then pt
      else case get_cache_entry pr s mp key pt of
        None \<Rightarrow> pt
      | Some eid \<Rightarrow>
        let e = entry_at pt eid in
        if same_mapping mp e \<and> ce_version e = tk_key_version claim_token \<and> ce_loading e \<and> ce_load_id e = load_id \<and>
           ce_global_epoch e = tk_global_epoch claim_token \<and> ce_relation_version e = tk_relation_version claim_token \<and>
           ce_relation_incarnation e = tk_relation_incarnation claim_token
        then set_entry eid (e\<lparr>ce_loading := False\<rparr>) pt
        else pt)"

section \<open>Invalidation\<close>

definition pglc_cache_invalidate_key ::
  "process \<Rightarrow> settings \<Rightarrow> observations \<Rightarrow> mapping \<Rightarrow> char list \<Rightarrow> partition \<Rightarrow> globals \<Rightarrow>
   (cache_error + nat) \<times> partition \<times> globals" where
  "pglc_cache_invalidate_key pr s obs mp key pt gl =
     (let count_stats = (\<lambda>count gl. gl\<lparr>gl_stats := pglc_worker_stat_add pr key_invalidations count
            (pglc_worker_stat_add pr invalidations count (gl_stats gl))\<rparr>)
      in case get_cache_entry pr s mp key pt of
           None \<Rightarrow> (Inr 0, pt, count_stats 0 gl)
         | Some eid \<Rightarrow>
           let count = (if cache_entry_is_current_slot_locked s obs (entry_at pt eid) then 1 else 0)
           in case retire_entry eid pt of
                (Inl err, pt) \<Rightarrow> (Inl err, pt, gl)
              | (Inr _, pt) \<Rightarrow> (Inr count, pt, count_stats count gl))"

end
