(* ===== verification/Contents.thy ===== *)
theory Contents
  imports CacheOps
begin

text \<open>
  What a partition holds, as a map from identities to cells, and what the operations of
  \<open>CacheOps\<close> do to it. Finding an entry, changing one and filling one are proved to be the
  lookup and the update of that map; evictions only take cells away.
\<close>

section \<open>Abstract contents\<close>

text \<open>
  What a partition holds: a map from identities to cells. A cell is the descriptor without
  its place in memory and its access time, together with the value bytes.
\<close>

type_synonym cell = "cache_entry \<times> char list"

definition value_bytes :: "partition \<Rightarrow> cache_entry \<Rightarrow> char list" where
  "value_bytes pt e = load_bytes (memory (pt_arena pt)) (ce_block_ref e + ce_key_len e) (ce_value_len e)"

definition descr :: "cache_entry \<Rightarrow> cache_entry" where
  "descr e = e\<lparr>ce_block_ref := 0, ce_free_next := 0, ce_last_access := 0\<rparr>"

definition cells :: "partition \<Rightarrow> ident \<rightharpoonup> cell" where
  "cells pt i = map_option (\<lambda>eid. (descr (entry_at pt eid), value_bytes pt (entry_at pt eid)))
     (find (\<lambda>eid. live pt eid \<and> ident pt (entry_at pt eid) = i) [1..<Suc (pt_capacity pt)])"

lemma unique_ident:
  assumes "part_ok hf X pt" "live pt x" "live pt y" "ident pt (entry_at pt x) = ident pt (entry_at pt y)"
  shows "x = y"
  using assms unfolding part_ok_def entries_ok_def inj_on_def entry_ids_def by blast

lemma cells_None: "cells pt i = None \<longleftrightarrow> (\<forall>x. live pt x \<longrightarrow> ident pt (entry_at pt x) \<noteq> i)"
  unfolding cells_def by (auto simp: find_None_iff live_def)

lemma cells_live:
  assumes "part_ok hf X pt" "live pt x" "ident pt (entry_at pt x) = i"
  shows "cells pt i = Some (descr (entry_at pt x), value_bytes pt (entry_at pt x))"
proof -
  obtain y where y: "find (\<lambda>eid. live pt eid \<and> ident pt (entry_at pt eid) = i) [1..<Suc (pt_capacity pt)] = Some y"
    using cells_None[of pt i] assms(2,3) unfolding cells_def by auto
  then have "live pt y" "ident pt (entry_at pt y) = i" by (auto simp: find_Some_iff)
  then show ?thesis using unique_ident[OF assms(1), of y x] assms(2,3) y unfolding cells_def by simp
qed

lemma cells_SomeE:
  assumes "cells pt i = Some c"
  obtains x where "live pt x" "ident pt (entry_at pt x) = i" "c = (descr (entry_at pt x), value_bytes pt (entry_at pt x))"
  using assms unfolding cells_def by (auto simp: find_Some_iff)

lemma cells_eqI:
  assumes ok: "part_ok hf X pt" "part_ok hf' X' pt'"
    and lv: "\<And>x. live pt' x \<longleftrightarrow> live pt x"
    and same: "\<And>x. live pt x \<Longrightarrow> ident pt' (entry_at pt' x) = ident pt (entry_at pt x)"
      "\<And>x. live pt x \<Longrightarrow> ident pt (entry_at pt x) \<noteq> i \<Longrightarrow> descr (entry_at pt' x) = descr (entry_at pt x) \<and> value_bytes pt' (entry_at pt' x) = value_bytes pt (entry_at pt x)"
    and i: "live pt eid" "ident pt (entry_at pt eid) = i"
  shows "cells pt' = (cells pt)(i \<mapsto> (descr (entry_at pt' eid), value_bytes pt' (entry_at pt' eid)))"
proof
  fix j
  show "cells pt' j = ((cells pt)(i \<mapsto> (descr (entry_at pt' eid), value_bytes pt' (entry_at pt' eid)))) j"
  proof (cases "\<exists>x. live pt x \<and> ident pt (entry_at pt x) = j")
    case True
    then obtain x where x: "live pt x" "ident pt (entry_at pt x) = j" by blast
    have x': "live pt' x" "ident pt' (entry_at pt' x) = j" using lv same(1) x by simp_all
    note c = cells_live[OF ok(1) x] cells_live[OF ok(2) x']
    show ?thesis
    proof (cases "j = i")
      case True
      then have "x = eid" using unique_ident[OF ok(1) x(1) i(1)] x(2) i(2) by simp
      then show ?thesis using c True by simp
    next
      case False
      then show ?thesis using c same(2)[OF x(1)] x(2) by simp
    qed
  next
    case False
    then have "cells pt j = None" "cells pt' j = None" using cells_None lv same(1) by simp_all
    then show ?thesis using False i by auto
  qed
qed

section \<open>Finding an entry\<close>

text \<open>The identity a mapping gives a key, and the agreement of its hash with the partition's.\<close>

definition mapped :: "process \<Rightarrow> mapping \<Rightarrow> char list \<Rightarrow> ident" where
  "mapped pr mp key = (my_database_id pr, mp_relation_oid mp, mp_relation_slot mp, mp_relation_slot_generation mp, key)"

definition hashes :: "(ident \<Rightarrow> nat) \<Rightarrow> process \<Rightarrow> mapping \<Rightarrow> char list \<Rightarrow> bool" where
  "hashes hf pr mp key \<longleftrightarrow> length key < PGLC_KEY_MAX \<and>
     hf (mapped pr mp key) = cache_key_hash64 pr (my_database_id pr) (mp_nspace mp) key (length key)"

lemma key_len_exact: "length key < PGLC_KEY_MAX \<Longrightarrow> u16 (strnlen key PGLC_KEY_MAX) = length key"
  by (simp add: strnlen_def u16_def)

lemma key_len_over: "PGLC_KEY_MAX \<le> length key \<Longrightarrow> u16 (strnlen key PGLC_KEY_MAX) = PGLC_KEY_MAX"
  by (simp add: strnlen_def u16_def)

lemma internal_key:
  assumes "hashes hf pr mp key"
  shows "get_cache_entry_internal pr s fs nows (my_database_id pr) (mp_relation_oid mp) (mp_nspace mp) key (mp_relation_slot mp)
      (mp_relation_slot_generation mp) create None pt gl =
    get_cache_entry_in pr s fs nows (my_database_id pr) (mp_relation_oid mp) key (mp_relation_slot mp)
      (mp_relation_slot_generation mp) create (length key) (hf (mapped pr mp key)) pt gl"
  using assms key_len_exact[of key] unfolding get_cache_entry_internal_def hashes_def Let_def by simp

lemma internal_found:
  assumes "part_ok hf X pt" "hashes hf pr mp key" "live pt eid" "ident pt (entry_at pt eid) = mapped pr mp key"
  shows "get_cache_entry_internal pr s fs nows (my_database_id pr) (mp_relation_oid mp) (mp_nspace mp) key (mp_relation_slot mp)
      (mp_relation_slot_generation mp) create None pt gl = (Inr (Some eid, 0), pt, gl)"
  using get_found[OF assms(1,3), unfolded assms(4), OF mapped_def] internal_key[OF assms(2)] by (simp add: mapped_def)

lemma internal_missing:
  assumes "part_ok hf X pt" "hashes hf pr mp key" "cells pt (mapped pr mp key) = None"
  shows "get_cache_entry_internal pr s fs nows (my_database_id pr) (mp_relation_oid mp) (mp_nspace mp) key (mp_relation_slot mp)
      (mp_relation_slot_generation mp) False None pt gl = (Inr (None, 0), pt, gl)"
  using get_missing[OF assms(1)] assms(3) internal_key[OF assms(2)] unfolding cells_None mapped_def by simp

lemma get_entry_iff:
  assumes ok: "part_ok hf X pt" and h: "hashes hf pr mp key"
  shows "get_cache_entry pr s mp key pt = Some eid \<longleftrightarrow> live pt eid \<and> ident pt (entry_at pt eid) = mapped pr mp key"
proof (cases "cells pt (mapped pr mp key)")
  case None
  then show ?thesis using internal_missing[OF ok h None] cells_None
    unfolding get_cache_entry_def find_entry_def by auto
next
  case (Some c)
  then obtain x where x: "live pt x" "ident pt (entry_at pt x) = mapped pr mp key" by (rule cells_SomeE)
  have "get_cache_entry pr s mp key pt = Some x"
    using internal_found[OF ok h x] unfolding get_cache_entry_def find_entry_def by simp
  then show ?thesis using x unique_ident[OF ok x(1), of eid] by auto
qed

lemma get_entry_cases:
  assumes ok: "part_ok hf X pt" and h: "hashes hf pr mp key"
  obtains "get_cache_entry pr s mp key pt = None" "cells pt (mapped pr mp key) = None"
  | eid where "get_cache_entry pr s mp key pt = Some eid" "live pt eid" "ident pt (entry_at pt eid) = mapped pr mp key"
    "cells pt (mapped pr mp key) = Some (descr (entry_at pt eid), value_bytes pt (entry_at pt eid))"
proof (cases "get_cache_entry pr s mp key pt")
  case None
  then have "cells pt (mapped pr mp key) = None" using get_entry_iff[OF ok h, of s] unfolding cells_None by auto
  then show thesis using that None by blast
next
  case (Some eid)
  then have "live pt eid" "ident pt (entry_at pt eid) = mapped pr mp key" using get_entry_iff[OF ok h] by auto
  then show thesis using that Some cells_live[OF ok] by blast
qed

section \<open>Changing an entry\<close>

lemma tweak:
  assumes ok: "part_ok hf X pt" and eid: "live pt eid" and core: "core e = core (entry_at pt eid)"
    and pt': "pt' = (set_entry eid e pt)\<lparr>pt_entry_generation := g\<rparr>"
  shows "part_ok hf X pt'" "live pt' = live pt" "marker_side pt' = marker_side pt" "entry_at pt' eid = e"
    "cells pt' = (cells pt)(ident pt (entry_at pt eid) \<mapsto> (descr e, value_bytes pt (entry_at pt eid)))"
    "ident pt' e = ident pt (entry_at pt eid)" "pt_entry_count pt' = pt_entry_count pt" "pt_entry_generation pt' = g"
proof -
  note po = part_ok_set[OF ok core]
  show ok': "part_ok hf X pt'" by (rule part_ok_cong[OF po(1)]) (simp_all add: pt')
  show lv: "live pt' = live pt" using po(2) unfolding pt' by (simp add: live_def fun_eq_iff)
  show "marker_side pt' = marker_side pt" by (simp add: pt')
  have rng: "eid \<noteq> 0" "eid \<le> pt_capacity pt" using eid by (auto simp: live_def)
  have at: "entry_at pt' eid = e" "x \<noteq> eid \<Longrightarrow> x \<noteq> 0 \<Longrightarrow> entry_at pt' x = entry_at pt x" for x
    using rng by (auto simp: pt' set_entry_def nth_list_update)
  show "entry_at pt' eid = e" by (rule at(1))
  have ar: "pt_arena pt' = pt_arena pt" by (simp add: pt')
  have idp: "ident pt' = ident pt" by (simp add: ident_def ar fun_eq_iff)
  show ide: "ident pt' e = ident pt (entry_at pt eid)" using core_fields(6)[OF core] idp by simp
  have id: "ident pt' (entry_at pt' x) = ident pt (entry_at pt x)" if "live pt x" for x
    using at ide idp that by (cases "x = eid") (auto simp: live_def)
  have vb: "value_bytes pt' e = value_bytes pt (entry_at pt eid)"
    using core by (simp add: value_bytes_def ar core_def)
  have o: "descr (entry_at pt' x) = descr (entry_at pt x) \<and> value_bytes pt' (entry_at pt' x) = value_bytes pt (entry_at pt x)"
    if "live pt x" "ident pt (entry_at pt x) \<noteq> ident pt (entry_at pt eid)" for x
  proof -
    have "x \<noteq> eid" "x \<noteq> 0" using that by (auto simp: live_def)
    then have "entry_at pt' x = entry_at pt x" by (rule at(2))
    then show ?thesis by (simp add: value_bytes_def ar)
  qed
  show "cells pt' = (cells pt)(ident pt (entry_at pt eid) \<mapsto> (descr e, value_bytes pt (entry_at pt eid)))"
    using cells_eqI[OF ok ok' _ id o eid] lv at(1) vb by simp
qed (simp_all add: pt')

section \<open>Giving an entry another block\<close>

text \<open>
  \<open>a\<close> is an arena in which the entry \<open>eid\<close> has the block \<open>r\<close> with room for its key and \<open>n\<close>
  value bytes; the key is there and the blocks of the other entries are as before.
\<close>

definition refits :: "nat \<Rightarrow> nat \<Rightarrow> (nat \<rightharpoonup> nat) \<Rightarrow> partition \<Rightarrow> nat \<Rightarrow> PglcArena \<Rightarrow> (nat \<rightharpoonup> nat) \<Rightarrow> bool" where
  "refits eid n M pt r a M' \<longleftrightarrow> arena_rel a M' \<and> M' r = Some (ce_key_len (entry_at pt eid) + n) \<and>
     dom M' = insert r ((\<lambda>x. ce_block_ref (entry_at pt x)) ` (entry_ids pt - {eid})) \<and>
     r \<notin> (\<lambda>x. ce_block_ref (entry_at pt x)) ` (entry_ids pt - {eid}) \<and>
     (\<forall>x. live pt x \<longrightarrow> x \<noteq> eid \<longrightarrow> M' (ce_block_ref (entry_at pt x)) = M (ce_block_ref (entry_at pt x)) \<and>
        keeps_block (pt_arena pt) a (ce_block_ref (entry_at pt x))) \<and>
     load_bytes (memory a) r (ce_key_len (entry_at pt eid)) =
       load_bytes (memory (pt_arena pt)) (ce_block_ref (entry_at pt eid)) (ce_key_len (entry_at pt eid))"

lemma refits_write:
  assumes f: "refits eid n M pt r a M'" and bs: "length bs \<le> n"
  shows "refits eid n M pt r (a\<lparr>memory := store_bytes (memory a) (r + ce_key_len (entry_at pt eid)) bs\<rparr>) M'"
proof -
  define k where "k = ce_key_len (entry_at pt eid)"
  define a' where "a' = a\<lparr>memory := store_bytes (memory a) (r + k) bs\<rparr>"
  have F: "arena_rel a M'" "M' r = Some (k + n)" "dom M' = insert r ((\<lambda>x. ce_block_ref (entry_at pt x)) ` (entry_ids pt - {eid}))"
    "r \<notin> (\<lambda>x. ce_block_ref (entry_at pt x)) ` (entry_ids pt - {eid})"
    using f unfolding refits_def k_def by blast+
  have o: "M' (ce_block_ref (entry_at pt x)) = M (ce_block_ref (entry_at pt x))"
    "keeps_block (pt_arena pt) a (ce_block_ref (entry_at pt x))" if "live pt x" "x \<noteq> eid" for x
    using f that unfolding refits_def by blast+
  have room: "k + n \<le> ref_bytes a r" by (rule arena_relD(5)[OF F(1,2)])
  have W: "arena_rel a' M'" "\<And>x. x \<in> dom M' \<Longrightarrow> x \<noteq> r \<Longrightarrow> keeps_block a a' x"
  proof -
    have "r \<in> dom M'" "\<And>x. x < r \<or> r + ref_bytes a r \<le> x \<Longrightarrow> store_bytes (memory a) (r + k) bs x = memory a x"
      using F(2) room bs by (auto simp: store_bytes_def)
    note W = write_spec[OF F(1) this]
    show "arena_rel a' M'" unfolding a'_def by (rule W(1))
    show "\<And>x. x \<in> dom M' \<Longrightarrow> x \<noteq> r \<Longrightarrow> keeps_block a a' x" unfolding a'_def by (rule W(2))
  qed
  have "keeps_block (pt_arena pt) a' (ce_block_ref (entry_at pt x))" if "live pt x" "x \<noteq> eid" for x
  proof -
    have "ce_block_ref (entry_at pt x) \<in> dom M'" "ce_block_ref (entry_at pt x) \<noteq> r"
      using F(3,4) that by (auto simp: entry_ids_def)
    then show ?thesis using keeps_block_trans[OF o(2)[OF that] W(2)] by blast
  qed
  moreover have "load_bytes (memory a') r k = load_bytes (memory a) r k"
    unfolding a'_def by (rule load_bytes_cong) (simp add: store_bytes_def)
  ultimately show ?thesis using f W(1) unfolding refits_def a'_def k_def by simp
qed

lemma refit_ok:
  assumes ok: "part_ok hf X pt" and M: "blocks_ok X M pt" and eid: "live pt eid" and f: "refits eid n M pt r a M'"
    and e': "ce_in_use e'" "ce_key_hash e' = ce_key_hash (entry_at pt eid)" "ce_database_oid e' = ce_database_oid (entry_at pt eid)"
      "ce_relation_oid e' = ce_relation_oid (entry_at pt eid)" "ce_relation_slot e' = ce_relation_slot (entry_at pt eid)"
      "ce_slot_generation e' = ce_slot_generation (entry_at pt eid)" "ce_key_len e' = ce_key_len (entry_at pt eid)"
      "ce_block_ref e' = r" "ce_block_len e' = ce_key_len (entry_at pt eid) + n" "ce_value_len e' = n" "n \<le> PGLC_VALUE_MAX"
      "ce_negative e' \<longrightarrow> n = 0"
    and pt': "pt' = (set_entry eid e' pt)\<lparr>pt_arena := a, pt_entry_generation := g\<rparr>"
  shows "part_ok hf Map.empty pt'" "live pt' = live pt" "only_entry eid pt pt'" "entry_at pt' eid = e'"
    "ident pt' e' = ident pt (entry_at pt eid)"
proof -
  obtain E: "entries_ok hf pt" "indexed (entry_ids pt) pt" "freelist_ok pt" using ok by (auto simp: part_ok_def)
  have F: "arena_rel a M'" "M' r = Some (ce_key_len (entry_at pt eid) + n)"
    "dom M' = insert r ((\<lambda>x. ce_block_ref (entry_at pt x)) ` (entry_ids pt - {eid}))"
    "r \<notin> (\<lambda>x. ce_block_ref (entry_at pt x)) ` (entry_ids pt - {eid})"
    "load_bytes (memory a) r (ce_key_len (entry_at pt eid)) =
       load_bytes (memory (pt_arena pt)) (ce_block_ref (entry_at pt eid)) (ce_key_len (entry_at pt eid))"
    using f unfolding refits_def by blast+
  have o: "M' (ce_block_ref (entry_at pt x)) = M (ce_block_ref (entry_at pt x))"
    "keeps_block (pt_arena pt) a (ce_block_ref (entry_at pt x))" if "live pt x" "x \<noteq> eid" for x
    using f that unfolding refits_def by blast+
  have rng: "eid \<noteq> 0" "eid \<le> pt_capacity pt" using eid by (auto simp: live_def)
  have p: "pt_capacity pt' = pt_capacity pt" "pt_arena pt' = a" "pt_index pt' = pt_index pt" "pt_entry_count pt' = pt_entry_count pt"
    "pt_free_entry_head pt' = pt_free_entry_head pt" by (simp_all add: pt')
  show at: "entry_at pt' eid = e'" using rng by (simp add: pt' set_entry_def)
  have at': "entry_at pt' x = entry_at pt x" if "x \<noteq> eid" "x \<noteq> 0" for x
    using rng that by (auto simp: pt' set_entry_def nth_list_update)
  show O: "only_entry eid pt pt'" unfolding only_entry_def using at' p(1,2) o(2) by simp
  have lve: "live pt' eid" using rng at e'(1) p(1) by (simp add: live_def)
  show lv: "live pt' = live pt"
  proof
    fix x show "live pt' x = live pt x" using only_entryD(1)[OF O, of x] lve eid by (cases "x = eid") auto
  qed
  show idn: "ident pt' e' = ident pt (entry_at pt eid)" using e' F(5) unfolding ident_def p(2) by simp
  have shape: "entry_shape (entry_at pt eid)" "ce_key_hash (entry_at pt eid) = hf (ident pt (entry_at pt eid))"
    using E(1) eid by (auto simp: entries_ok_def)
  have "blocks_ok Map.empty M' pt'"
  proof (rule blocks_ok_step[OF O M])
    show "dom M' = (\<lambda>x. ce_block_ref (entry_at pt x)) ` (entry_ids pt - {eid}) \<union>
        (if live pt' eid then {ce_block_ref (entry_at pt' eid)} else {}) \<union> dom Map.empty"
      unfolding at e'(8) if_P[OF lve] F(3) by simp
    show "M' (ce_block_ref (entry_at pt' eid)) = Some (ce_block_len (entry_at pt' eid)) \<and>
        ce_block_ref (entry_at pt' eid) \<notin> dom Map.empty \<and>
        ce_block_ref (entry_at pt' eid) \<notin> (\<lambda>x. ce_block_ref (entry_at pt x)) ` (entry_ids pt - {eid})"
      unfolding at e'(8,9) using F(2,4) by simp
  qed (use F(1) p(2) o(1) in simp_all)
  moreover have "entries_ok hf pt'"
  proof (rule entries_ok_step[OF O M E(1)])
    show "entry_shape (entry_at pt' eid) \<and> ce_key_hash (entry_at pt' eid) = hf (ident pt' (entry_at pt' eid))"
      unfolding at idn e'(2) using e'(7,9-12) shape by (simp add: entry_shape_def)
    show "ident pt' (entry_at pt' eid) \<noteq> ident pt (entry_at pt x)" if "live pt x" "x \<noteq> eid" for x
      unfolding at idn using unique_ident[OF ok that(1) eid] that(2) by auto
  qed
  moreover have "indexed (entry_ids pt') pt'"
  proof (rule indexed_step[OF O E(2)])
    show "index_ok (pt_index pt') (\<lambda>x. ce_key_hash (entry_at pt x)) (entry_ids pt')"
      using E(2) p(3) lv by (simp add: indexed_def entry_ids_def)
    show "ce_key_hash (entry_at pt x) = ce_key_hash (entry_at pt' x)" if "x \<in> entry_ids pt'" for x
      using that at'[of x] at e'(2) by (cases "x = eid") (auto simp: entry_ids_def live_def)
  qed (simp add: p(3))
  moreover have "freelist_ok pt'"
  proof -
    have ids: "entry_ids pt' = entry_ids pt" by (simp add: entry_ids_def lv)
    have "chain_ok (\<lambda>x. ce_free_next (entry_at pt' x)) (pt_free_entry_head pt) ({1..pt_capacity pt} - entry_ids pt)"
    proof (rule chain_ok_cong)
      show "chain_ok (\<lambda>x. ce_free_next (entry_at pt x)) (pt_free_entry_head pt) ({1..pt_capacity pt} - entry_ids pt)"
        using E(3) by (simp add: freelist_ok_def)
      fix x assume "x \<in> {1..pt_capacity pt} - entry_ids pt"
      then have "x \<noteq> eid" "x \<noteq> 0" using eid by (auto simp: entry_ids_def)
      then show "ce_free_next (entry_at pt' x) = ce_free_next (entry_at pt x)" using at' by simp
    qed
    then show ?thesis using E(3) unfolding freelist_ok_def ids p(1,4,5) by blast
  qed
  ultimately show "part_ok hf Map.empty pt'" unfolding part_ok_def by blast
qed

section \<open>What evictions leave\<close>

definition thinned :: "nat \<Rightarrow> nat \<Rightarrow> (ident \<rightharpoonup> cell) \<Rightarrow> (ident \<rightharpoonup> cell) \<Rightarrow> bool" where
  "thinned g g' m m' \<longleftrightarrow> (\<forall>i. m' i = None \<or> (\<exists>e e' v. m i = Some (e, v) \<and> m' i = Some (e', v) \<and> revoked e e' \<and>
     (ce_version e' = ce_version e \<or> g < ce_version e' \<and> ce_version e' \<le> g')))"

lemma value_bytes_drop: "entry_shape e \<Longrightarrow> value_bytes pt e = drop (ce_key_len e) (block_bytes pt e)"
  unfolding value_bytes_def block_bytes_def entry_shape_def by (simp add: load_bytes_append)

lemma live_shape: "part_ok hf X pt \<Longrightarrow> live pt x \<Longrightarrow> entry_shape (entry_at pt x)"
  by (auto simp: part_ok_def entries_ok_def)

lemma revoked_descr: "revoked e e' \<Longrightarrow> revoked (descr e) (descr e')"
proof -
  assume "revoked e e'"
  then consider "e' = e" | v where "ce_loading e" "e' = e\<lparr>ce_loading := False, ce_load_id := u64 (ce_load_id e + 1), ce_version := v\<rparr>"
    by (auto simp: revoked_def)
  then show ?thesis
  proof cases
    case (2 v)
    then have "ce_loading (descr e) \<and> descr e' =
        (descr e)\<lparr>ce_loading := False, ce_load_id := u64 (ce_load_id (descr e) + 1), ce_version := v\<rparr>"
      by (simp add: descr_def)
    then show ?thesis unfolding revoked_def by blast
  qed simp
qed

lemma sheds_cells:
  assumes s: "sheds hf X' K pt gl pt' gl'" and ok: "part_ok hf X pt"
  shows "thinned (pt_entry_generation pt) (pt_entry_generation pt') (cells pt) (cells pt')"
    "live pt x \<Longrightarrow> K x (entry_at pt x) \<Longrightarrow> cells pt' (ident pt (entry_at pt x)) = cells pt (ident pt (entry_at pt x))"
proof -
  note ok' = shedsD(1)[OF s]
  have vb: "value_bytes pt' (entry_at pt' x) = value_bytes pt (entry_at pt x)" if x: "live pt' x" for x
    using value_bytes_drop[OF live_shape[OF ok' x]] value_bytes_drop[OF live_shape[OF ok shedsD(4)[OF s x]]]
      sheds_keeps(2)[OF s ok x] revoked_same(2)[OF shedsD(5)[OF s x]] by simp
  show "thinned (pt_entry_generation pt) (pt_entry_generation pt') (cells pt) (cells pt')"
    unfolding thinned_def
  proof
    fix i
    show "cells pt' i = None \<or> (\<exists>e e' v. cells pt i = Some (e, v) \<and> cells pt' i = Some (e', v) \<and> revoked e e' \<and>
      (ce_version e' = ce_version e \<or> pt_entry_generation pt < ce_version e' \<and> ce_version e' \<le> pt_entry_generation pt'))"
    proof (cases "cells pt' i")
      case (Some c)
      then obtain x where x: "live pt' x" "ident pt' (entry_at pt' x) = i" by (rule cells_SomeE)
      have c: "cells pt i = Some (descr (entry_at pt x), value_bytes pt (entry_at pt x))"
        using cells_live[OF ok shedsD(4)[OF s x(1)]] sheds_keeps(1)[OF s ok x(1)] x(2) by simp
      have c': "cells pt' i = Some (descr (entry_at pt' x), value_bytes pt (entry_at pt x))"
        using cells_live[OF ok' x] vb[OF x(1)] by simp
      have "revoked (descr (entry_at pt x)) (descr (entry_at pt' x))"
        by (rule revoked_descr[OF shedsD(5)[OF s x(1)]])
      moreover have "ce_version (descr (entry_at pt' x)) = ce_version (descr (entry_at pt x)) \<or>
          pt_entry_generation pt < ce_version (descr (entry_at pt' x)) \<and> ce_version (descr (entry_at pt' x)) \<le> pt_entry_generation pt'"
        using shedsD(14)[OF s x(1)] unfolding renewed_def descr_def by simp
      ultimately show ?thesis using c c' by blast
    qed simp
  qed
  assume x: "live pt x" "K x (entry_at pt x)"
  have x': "live pt' x" "entry_at pt' x = entry_at pt x" using shedsD(7,8)[OF s x] by simp_all
  have "cells pt' (ident pt (entry_at pt x)) = Some (descr (entry_at pt' x), value_bytes pt' (entry_at pt' x))"
    by (rule cells_live[OF ok' x'(1) sheds_keeps(1)[OF s ok x'(1)]])
  then show "cells pt' (ident pt (entry_at pt x)) = cells pt (ident pt (entry_at pt x))"
    using cells_live[OF ok x(1) refl] vb[OF x'(1)] x'(2) by simp
qed

section \<open>Fitting a block\<close>

text \<open>
  \<open>fitted\<close>: evictions spared the entry, and the entry now has a block in which its key and a
  value of \<open>n\<close> bytes fit. The descriptor still has its old value length.
\<close>

definition fitted :: "(ident \<Rightarrow> nat) \<Rightarrow> nat \<Rightarrow> nat \<Rightarrow> partition \<Rightarrow> globals \<Rightarrow> partition \<Rightarrow> globals \<Rightarrow> bool" where
  "fitted hf eid n pt gl pt' gl' \<longleftrightarrow> (\<exists>X M pt0 r M'. sheds hf X (spared eid) pt gl pt0 gl' \<and> blocks_ok X M pt0 \<and>
     refits eid n M pt0 r (pt_arena pt') M' \<and>
     pt' = (set_entry eid ((entry_at pt eid)\<lparr>ce_block_ref := r, ce_block_len := ce_key_len (entry_at pt eid) + n\<rparr>) pt0)
       \<lparr>pt_arena := pt_arena pt'\<rparr>)"

definition gave_up :: "(ident \<Rightarrow> nat) \<Rightarrow> nat \<Rightarrow> partition \<Rightarrow> globals \<Rightarrow> partition \<Rightarrow> globals \<Rightarrow> bool" where
  "gave_up hf eid pt gl pt' gl' \<longleftrightarrow> (\<exists>pt0 v. sheds hf Map.empty (spared eid) pt gl pt0 gl' \<and> (v \<longrightarrow> ce_valid (entry_at pt eid)) \<and>
     pt' = set_entry eid (drop_lease ((entry_at pt eid)\<lparr>ce_valid := v\<rparr>)) pt0)"

lemma gave_up_now:
  assumes s: "sheds hf Map.empty (spared eid) pt gl pt0 gl0" and eid: "live pt eid"
    and run: "reject_fill pr keep eid pt0 gl0 = (pt', gl')"
  shows "gave_up hf eid pt gl pt' gl'"
proof -
  have e: "entry_at pt0 eid = entry_at pt eid" using shedsD(8)[OF s eid] by (simp add: spared_def)
  have "sheds hf Map.empty (spared eid) pt gl pt0 gl'"
    by (rule sheds_globals[OF s]) (use run in \<open>auto simp: reject_fill_def\<close>)
  moreover have "pt' = set_entry eid (drop_lease ((entry_at pt eid)\<lparr>ce_valid := (keep \<and> ce_valid (entry_at pt eid))\<rparr>)) pt0"
    using run e unfolding reject_fill_def by simp
  ultimately show ?thesis unfolding gave_up_def by (intro exI[of _ pt0] exI[of _ "keep \<and> ce_valid (entry_at pt eid)"] conjI impI) simp_all
qed

lemma others_refs:
  assumes "blocks_ok X M pt" "live pt eid"
  shows "(\<lambda>x. ce_block_ref (entry_at pt x)) ` entry_ids pt - {ce_block_ref (entry_at pt eid)} =
      (\<lambda>x. ce_block_ref (entry_at pt x)) ` (entry_ids pt - {eid})"
    "live pt x \<Longrightarrow> x \<noteq> eid \<Longrightarrow> ce_block_ref (entry_at pt x) \<noteq> ce_block_ref (entry_at pt eid)"
    "live pt x \<Longrightarrow> ce_block_ref (entry_at pt x) \<in> dom M"
proof -
  have inj: "inj_on (\<lambda>x. ce_block_ref (entry_at pt x)) (entry_ids pt)" using assms(1) by (auto simp: blocks_ok_def)
  have m: "eid \<in> entry_ids pt" using assms(2) by (simp add: entry_ids_def)
  show "(\<lambda>x. ce_block_ref (entry_at pt x)) ` entry_ids pt - {ce_block_ref (entry_at pt eid)} =
      (\<lambda>x. ce_block_ref (entry_at pt x)) ` (entry_ids pt - {eid})"
    using inj_on_image_set_diff[OF inj, of "entry_ids pt" "{eid}"] m by simp
  show "live pt x \<Longrightarrow> x \<noteq> eid \<Longrightarrow> ce_block_ref (entry_at pt x) \<noteq> ce_block_ref (entry_at pt eid)"
    using inj m unfolding inj_on_def entry_ids_def by blast
  show "live pt x \<Longrightarrow> ce_block_ref (entry_at pt x) \<in> dom M" using assms(1) by (auto simp: blocks_ok_def)
qed

lemma moved_block:
  assumes M: "blocks_ok [r \<mapsto> k + n] M pt" and eid: "live pt eid" and k: "k = ce_key_len (entry_at pt eid)" "k \<le> ce_block_len (entry_at pt eid)"
  defines "old \<equiv> ce_block_ref (entry_at pt eid)"
  obtains a where "pglc_arena_free ((pt_arena pt)\<lparr>memory := store_bytes (memory (pt_arena pt)) r
        (load_bytes (memory (pt_arena pt)) old k)\<rparr>) old (ce_block_len (entry_at pt eid)) = (a, True)"
    "refits eid n M pt r a (M(old := None))" "r \<in> dom M" "old \<in> dom M"
proof -
  define a1 where "a1 = (pt_arena pt)\<lparr>memory := store_bytes (memory (pt_arena pt)) r (load_bytes (memory (pt_arena pt)) old k)\<rparr>"
  have rel: "arena_rel (pt_arena pt) M" and Mr: "M r = Some (k + n)" and Mo: "M old = Some (ce_block_len (entry_at pt eid))"
    and dom: "dom M = (\<lambda>x. ce_block_ref (entry_at pt x)) ` entry_ids pt \<union> {r}" and nr: "r \<notin> (\<lambda>x. ce_block_ref (entry_at pt x)) ` entry_ids pt"
    using M eid unfolding blocks_ok_def old_def by auto
  have ne: "r \<noteq> old" using nr eid by (auto simp: old_def entry_ids_def)
  have room: "k + n \<le> ref_bytes (pt_arena pt) r" by (rule arena_relD(5)[OF rel Mr])
  have W: "arena_rel a1 M" "\<And>x. x \<in> dom M \<Longrightarrow> x \<noteq> r \<Longrightarrow> keeps_block (pt_arena pt) a1 x"
    unfolding a1_def using Mr room by (auto intro!: write_spec[OF rel] simp: frame_simps)
  obtain a where a: "pglc_arena_free a1 old (ce_block_len (entry_at pt eid)) = (a, True)" "arena_rel a (M(old := None))"
    "\<And>x. x \<in> dom M \<Longrightarrow> x \<noteq> old \<Longrightarrow> keeps_block a1 a x"
    using free_spec[OF W(1) Mo] by metis
  note O = others_refs[OF M eid]
  have "refits eid n M pt r a (M(old := None))"
    unfolding refits_def k(1)[symmetric] old_def[symmetric]
  proof (intro conjI allI impI)
    show "dom (M(old := None)) = insert r ((\<lambda>x. ce_block_ref (entry_at pt x)) ` (entry_ids pt - {eid}))"
      using dom O(1) ne unfolding old_def by auto
    show "r \<notin> (\<lambda>x. ce_block_ref (entry_at pt x)) ` (entry_ids pt - {eid})" using nr by blast
    show "(M(old := None)) r = Some (k + n)" using Mr ne by simp
    fix x assume x: "live pt x" "x \<noteq> eid"
    have f: "ce_block_ref (entry_at pt x) \<in> dom M" "ce_block_ref (entry_at pt x) \<noteq> old" "ce_block_ref (entry_at pt x) \<noteq> r"
      using O(2,3) x nr unfolding old_def by (auto simp: entry_ids_def)
    show "(M(old := None)) (ce_block_ref (entry_at pt x)) = M (ce_block_ref (entry_at pt x))" using f(2) by simp
    show "keeps_block (pt_arena pt) a (ce_block_ref (entry_at pt x))"
      using keeps_block_trans[OF W(2)[OF f(1,3)] a(3)[OF f(1,2)]] .
  next
    have "keeps_block a1 a r" using a(3) Mr ne by blast
    moreover have "ref_bytes a1 r = ref_bytes (pt_arena pt) r" by (simp add: a1_def ref_bytes_def)
    ultimately have "load_bytes (memory a) r k = load_bytes (memory a1) r k" using keeps_load room by simp
    also have "\<dots> = load_bytes (memory (pt_arena pt)) old k"
      using load_store_bytes[of "memory (pt_arena pt)" r "load_bytes (memory (pt_arena pt)) old k"] by (simp add: a1_def)
    finally show "load_bytes (memory a) r k = load_bytes (memory (pt_arena pt)) old k" .
  qed (rule a(2))
  then show thesis using that a(1) Mr Mo unfolding a1_def by blast
qed

lemma fittedI:
  assumes "sheds hf X (spared eid) pt gl pt0 gl'" "blocks_ok X M pt0" "refits eid n M pt0 r a M'"
    "pt' = (set_entry eid ((entry_at pt eid)\<lparr>ce_block_ref := r, ce_block_len := ce_key_len (entry_at pt eid) + n\<rparr>) pt0)\<lparr>pt_arena := a\<rparr>"
  shows "fitted hf eid n pt gl pt' gl'"
proof -
  have a: "pt_arena pt' = a" by (simp add: assms(4))
  show ?thesis unfolding fitted_def a using assms by blast
qed

lemma grow_moved:
  assumes ok: "part_ok hf Map.empty pt" and eid: "live pt eid" and n: "n \<le> PGLC_VALUE_MAX"
    and k: "k = ce_key_len (entry_at pt eid)" and al: "alloc_with_eviction pr s fs nows (k + n) eid 0 pt gl = (Inr (Some (r, sz)), k1, pt1, gl1)"
  shows "\<exists>pt'. grow_block pr s fs nows eid (k + n) pt gl = (Inr True, pt', gl1) \<and> fitted hf eid n pt gl pt' gl1 \<and>
    pt_entry_generation pt' = pt_entry_generation pt1"
proof -
  have s: "sheds hf [r \<mapsto> k + n] (spared eid) pt gl pt1 gl1" and sz: "k + n \<le> sz" using alloc_loop_spec[OF ok al] by simp_all
  have at: "entry_at pt1 eid = entry_at pt eid" "live pt1 eid" using shedsD(7,8)[OF s eid] by (simp_all add: spared_def)
  obtain M where M: "blocks_ok [r \<mapsto> k + n] M pt1" using shedsD(1)[OF s] by (auto simp: part_ok_def)
  have sh: "entry_shape (entry_at pt eid)" by (rule live_shape[OF ok eid])
  have k1: "k = ce_key_len (entry_at pt1 eid)" "k \<le> ce_block_len (entry_at pt1 eid)"
    using sh at(1) by (simp_all add: k entry_shape_def)
  define old where "old = ce_block_ref (entry_at pt eid)"
  obtain a where a: "pglc_arena_free ((pt_arena pt1)\<lparr>memory := store_bytes (memory (pt_arena pt1)) r
        (load_bytes (memory (pt_arena pt1)) old k)\<rparr>) old (ce_block_len (entry_at pt eid)) = (a, True)"
    "refits eid n M pt1 r a (M(old := None))" "r \<in> dom M" "old \<in> dom M"
    using moved_block[OF M at(2) k1] unfolding at(1) old_def by metis
  have rel: "arena_rel (pt_arena pt1) M" using M by (simp add: blocks_ok_def)
  have b: "pglc_arena_block (pt_arena pt1) r = Some r" "pglc_arena_block (pt_arena pt1) old = Some old"
    using live_info(2)[OF rel] a(3,4) by simp_all
  have u: "u16 (k + n) = k + n" using sh n by (intro u16_id) (simp add: k entry_shape_def)
  define pt' where "pt' = (set_entry eid ((entry_at pt eid)\<lparr>ce_block_ref := r, ce_block_len := k + n\<rparr>) pt1)\<lparr>pt_arena := a\<rparr>"
  have "grow_block pr s fs nows eid (k + n) pt gl = (Inr True, pt', gl1)"
    unfolding grow_block_def old_def[symmetric] Let_def al prod.case sum.case option.case b at(1) k[symmetric] a(1) u pt'_def
    using sz by simp
  moreover have "fitted hf eid n pt gl pt' gl1" using fittedI[OF s M a(2), of pt'] unfolding k[symmetric] pt'_def by simp
  moreover have "pt_entry_generation pt' = pt_entry_generation pt1" by (simp add: pt'_def set_entry_def)
  ultimately show ?thesis by blast
qed

lemma grow_spec:
  assumes ok: "part_ok hf Map.empty pt" and eid: "live pt eid" and n: "n \<le> PGLC_VALUE_MAX"
    and run: "grow_block pr s fs nows eid (ce_key_len (entry_at pt eid) + n) pt gl = (res, pt', gl')"
  shows "case res of Inl err \<Rightarrow> err = Generation_Overflow | Inr False \<Rightarrow> gave_up hf eid pt gl pt' gl'
    | Inr True \<Rightarrow> fitted hf eid n pt gl pt' gl'"
proof -
  define k where "k = ce_key_len (entry_at pt eid)"
  obtain al k1 pt1 gl1 where al: "alloc_with_eviction pr s fs nows (k + n) eid 0 pt gl = (al, k1, pt1, gl1)" using prod_cases4 by blast
  note A = alloc_loop_spec[OF ok al]
  consider err where "al = Inl err" | "al = Inr None" | r sz where "al = Inr (Some (r, sz))" by (metis option.exhaust sumE surj_pair)
  then show ?thesis
  proof cases
    case 1
    then show ?thesis using A run al unfolding grow_block_def k_def[symmetric] Let_def by auto
  next
    case 2
    then have s: "sheds hf Map.empty (spared eid) pt gl pt1 gl1" using A by simp
    obtain pt2 gl2 where rf: "reject_fill pr True eid pt1 gl1 = (pt2, gl2)" by fastforce
    have "res = Inr False" "pt' = pt2" "gl' = gl2"
      using run al 2 rf unfolding grow_block_def k_def[symmetric] Let_def by simp_all
    then show ?thesis using gave_up_now[OF s eid rf] by simp
  next
    case 3
    show ?thesis using grow_moved[OF ok eid n k_def al[unfolded 3]] run unfolding k_def[symmetric] by auto
  qed
qed

text \<open>The decision of \<open>fit_block\<close> on a live entry, and the two ways it succeeds.\<close>

lemma fit_step:
  fixes pr s fs nows gl
  assumes ok: "part_ok hf Map.empty pt" and eid: "live pt eid" and n: "n \<le> PGLC_VALUE_MAX"
  defines "e \<equiv> entry_at pt eid"
  defines "k \<equiv> ce_key_len e" and "old \<equiv> pglc_arena_block_class (pt_arena pt) (ce_block_ref e)"
  shows "fit_block pr s fs nows eid n pt gl =
      (if pglc_arena_class_size (k + n) = 0 then (case reject_fill pr False eid pt gl of (pt, gl) \<Rightarrow> (Inr False, pt, gl))
       else if old < pglc_arena_class_size (k + n) then grow_block pr s fs nows eid (k + n) pt gl
       else case pglc_arena_resize (pt_arena pt) (ce_block_ref e) (ce_block_len e) (k + n) of
          (a, False) \<Rightarrow> (case reject_fill pr False eid pt gl of (pt, gl) \<Rightarrow> (Inr False, pt, gl))
        | (a, True) \<Rightarrow> (Inr True, set_entry eid (e\<lparr>ce_block_len := u16 (k + n)\<rparr>) (pt\<lparr>pt_arena := a\<rparr>), gl))"
    "k < 1024" "k + n \<le> UINT16_MAX" "256 \<le> old" "old = ref_bytes (pt_arena pt) (ce_block_ref e)"
proof -
  obtain M where M: "blocks_ok Map.empty M pt" using ok by (auto simp: part_ok_def)
  have rel: "arena_rel (pt_arena pt) M" and Me: "M (ce_block_ref e) = Some (ce_block_len e)"
    using M eid by (auto simp: blocks_ok_def e_def)
  have sh: "entry_shape e" using live_shape[OF ok eid] by (simp add: e_def)
  show len: "k < 1024" "k + n \<le> UINT16_MAX" using sh n by (simp_all add: entry_shape_def k_def)
  have bl: "ce_block_len e = k + ce_value_len e" using sh by (simp add: entry_shape_def k_def)
  show old: "old = ref_bytes (pt_arena pt) (ce_block_ref e)"
    using live_info(1)[OF rel, of "ce_block_ref e"] Me unfolding old_def by auto
  show o256: "256 \<le> old" using live_info(3)[OF rel, of "ce_block_ref e"] Me unfolding old by auto
  have le: "ce_block_len e \<le> old" using arena_relD(5)[OF rel Me] old(1) by simp
  show "fit_block pr s fs nows eid n pt gl =
      (if pglc_arena_class_size (k + n) = 0 then (case reject_fill pr False eid pt gl of (pt, gl) \<Rightarrow> (Inr False, pt, gl))
       else if old < pglc_arena_class_size (k + n) then grow_block pr s fs nows eid (k + n) pt gl
       else case pglc_arena_resize (pt_arena pt) (ce_block_ref e) (ce_block_len e) (k + n) of
          (a, False) \<Rightarrow> (case reject_fill pr False eid pt gl of (pt, gl) \<Rightarrow> (Inr False, pt, gl))
        | (a, True) \<Rightarrow> (Inr True, set_entry eid (e\<lparr>ce_block_len := u16 (k + n)\<rparr>) (pt\<lparr>pt_arena := a\<rparr>), gl))"
    using len bl le o256 unfolding fit_block_def Let_def e_def[symmetric] k_def[symmetric] old_def[symmetric]
    by (auto split: prod.split bool.split)
qed

lemma fit_in_place:
  assumes ok: "part_ok hf Map.empty pt" and eid: "live pt eid" and n: "n \<le> PGLC_VALUE_MAX"
    and c: "pglc_arena_class_size (ce_key_len (entry_at pt eid) + n) \<noteq> 0"
      "pglc_arena_class_size (ce_key_len (entry_at pt eid) + n) \<le> pglc_arena_block_class (pt_arena pt) (ce_block_ref (entry_at pt eid))"
  shows "\<exists>pt'. fit_block pr s fs nows eid n pt gl = (Inr True, pt', gl) \<and> fitted hf eid n pt gl pt' gl \<and>
    pt_entry_generation pt' = pt_entry_generation pt"
proof -
  define e where "e = entry_at pt eid"
  define k where "k = ce_key_len e"
  note F = fit_step[OF ok eid n, folded e_def, folded k_def]
  obtain M where M: "blocks_ok Map.empty M pt" using ok by (auto simp: part_ok_def)
  have rel: "arena_rel (pt_arena pt) M" and Me: "M (ce_block_ref e) = Some (ce_block_len e)"
    and dom: "dom M = (\<lambda>x. ce_block_ref (entry_at pt x)) ` entry_ids pt"
    using M eid by (auto simp: blocks_ok_def e_def)
  note c' = c[folded e_def, folded k_def]
  have kn: "k + n \<le> ref_bytes (pt_arena pt) (ce_block_ref e)" using class_size_class(2)[OF c'(1)] c'(2) F(5) by linarith
  obtain a where a: "pglc_arena_resize (pt_arena pt) (ce_block_ref e) (ce_block_len e) (k + n) = (a, True)"
    "arena_rel a (M(ce_block_ref e \<mapsto> k + n))" "pages a = pages (pt_arena pt)" "memory a = memory (pt_arena pt)"
    by (rule resize_spec[OF rel Me kn])
  define pt1 where "pt1 = (set_entry eid (e\<lparr>ce_block_ref := ce_block_ref e, ce_block_len := k + n\<rparr>) pt)\<lparr>pt_arena := a\<rparr>"
  have pt1: "set_entry eid (e\<lparr>ce_block_len := u16 (k + n)\<rparr>) (pt\<lparr>pt_arena := a\<rparr>) = pt1"
    using F(3) by (simp add: pt1_def set_entry_def)
  have run: "fit_block pr s fs nows eid n pt gl = (Inr True, pt1, gl)"
    unfolding F(1) if_not_P[OF c'(1)] if_not_P[OF leD[OF c'(2)]] a(1) by (simp add: pt1)
  note O = others_refs[OF M eid, folded e_def]
  have nr: "ce_block_ref e \<notin> (\<lambda>x. ce_block_ref (entry_at pt x)) ` (entry_ids pt - {eid})" using O(1) by blast
  have "refits eid n M pt (ce_block_ref e) a (M(ce_block_ref e \<mapsto> k + n))"
    unfolding refits_def e_def[symmetric] k_def[symmetric]
  proof (intro conjI allI impI)
    show "dom (M(ce_block_ref e \<mapsto> k + n)) = insert (ce_block_ref e) ((\<lambda>x. ce_block_ref (entry_at pt x)) ` (entry_ids pt - {eid}))"
      using dom O(1) by auto
    fix x assume x: "live pt x" "x \<noteq> eid"
    show "(M(ce_block_ref e \<mapsto> k + n)) (ce_block_ref (entry_at pt x)) = M (ce_block_ref (entry_at pt x))"
      using O(2)[OF x] by simp
    show "keeps_block (pt_arena pt) a (ce_block_ref (entry_at pt x))"
      using a(3,4) by (simp add: keeps_block_def ref_bytes_def)
  qed (use a(2,4) nr in simp_all)
  from fittedI[OF sheds_refl[OF ok] M this, of pt1 gl] have "fitted hf eid n pt gl pt1 gl"
    unfolding pt1_def e_def[symmetric] k_def[symmetric] by simp
  moreover have "pt_entry_generation pt1 = pt_entry_generation pt" by (simp add: pt1_def set_entry_def)
  ultimately show ?thesis using run by blast
qed

lemma fit_spec:
  assumes ok: "part_ok hf Map.empty pt" and eid: "live pt eid" and n: "n \<le> PGLC_VALUE_MAX"
    and run: "fit_block pr s fs nows eid n pt gl = (res, pt', gl')"
  shows "case res of Inl err \<Rightarrow> err = Generation_Overflow | Inr False \<Rightarrow> gave_up hf eid pt gl pt' gl'
    | Inr True \<Rightarrow> fitted hf eid n pt gl pt' gl'"
proof -
  define k where "k = ce_key_len (entry_at pt eid)"
  define old where "old = pglc_arena_block_class (pt_arena pt) (ce_block_ref (entry_at pt eid))"
  note F = fit_step(1)[OF ok eid n, of pr s fs nows gl, folded k_def old_def]
  consider "pglc_arena_class_size (k + n) = 0" | "pglc_arena_class_size (k + n) \<noteq> 0" "old < pglc_arena_class_size (k + n)"
    | "pglc_arena_class_size (k + n) \<noteq> 0" "pglc_arena_class_size (k + n) \<le> old" by linarith
  then show ?thesis
  proof cases
    case 1
    obtain pt2 gl2 where rf: "reject_fill pr False eid pt gl = (pt2, gl2)" by fastforce
    show ?thesis using run gave_up_now[OF sheds_refl[OF ok] eid rf] unfolding F if_P[OF 1] rf by auto
  next
    case 2
    show ?thesis using run grow_spec[OF ok eid n, of pr s fs nows gl res pt' gl', folded k_def]
      unfolding F if_not_P[OF 2(1)] if_P[OF 2(2)] by simp
  next
    case 3
    show ?thesis using run fit_in_place[OF ok eid n 3[unfolded k_def old_def], of pr s fs nows gl] by auto
  qed
qed

lemma fit_room:
  assumes ok: "part_ok hf Map.empty pt" and eid: "live pt eid" and n: "n \<le> PGLC_VALUE_MAX"
    and room: "ce_key_len (entry_at pt eid) + n \<le> 256 \<or> has_room (pt_arena pt) (ce_key_len (entry_at pt eid) + n)"
  shows "\<exists>pt' gl'. fit_block pr s fs nows eid n pt gl = (Inr True, pt', gl') \<and> pt_entry_generation pt' = pt_entry_generation pt"
proof -
  define k where "k = ce_key_len (entry_at pt eid)"
  define old where "old = pglc_arena_block_class (pt_arena pt) (ce_block_ref (entry_at pt eid))"
  note F = fit_step[OF ok eid n, folded k_def old_def]
  have c: "pglc_arena_class_size (k + n) \<noteq> 0" "k + n \<le> 256 \<Longrightarrow> pglc_arena_class_size (k + n) \<le> old"
    using F(2,4) n class_size_unfold[of "k + n"] by simp_all
  show ?thesis
  proof (cases "pglc_arena_class_size (k + n) \<le> old")
    case True
    then show ?thesis using fit_in_place[OF ok eid n, of pr s fs nows gl] c(1) unfolding k_def old_def by blast
  next
    case False
    then have room': "has_room (pt_arena pt) (k + n)" using room c(2) unfolding k_def by blast
    obtain M where "blocks_ok Map.empty M pt" using ok by (auto simp: part_ok_def)
    then obtain a r where "pglc_arena_alloc (pt_arena pt) (k + n) = (a, Some (r, pglc_arena_class_size (k + n)))"
      using alloc_Some[OF _ c(1) room'] unfolding blocks_ok_def by metis
    then have "alloc_with_eviction pr s fs nows (k + n) eid 0 pt gl = (Inr (Some (r, pglc_arena_class_size (k + n))), 0, pt\<lparr>pt_arena := a\<rparr>, gl)"
      by (simp add: alloc_with_eviction.simps)
    from grow_moved[OF ok eid n k_def this] show ?thesis unfolding F(1) if_not_P[OF c(1)] using False by auto
  qed
qed

section \<open>Changing one entry and its block\<close>

lemma only_cells:
  assumes ok: "part_ok hf X pt" "part_ok hf' X' pt'" and O: "only_entry eid pt pt'" "live pt' = live pt" and eid: "live pt eid"
    and id: "ident pt' (entry_at pt' eid) = ident pt (entry_at pt eid)"
  shows "cells pt' = (cells pt)(ident pt (entry_at pt eid) \<mapsto> (descr (entry_at pt' eid), value_bytes pt' (entry_at pt' eid)))"
proof -
  obtain M where M: "blocks_ok X M pt" "entries_ok hf pt" using ok(1) by (auto simp: part_ok_def)
  have at: "entry_at pt' x = entry_at pt x" if "live pt x" "x \<noteq> eid" for x by (rule only_entryD(3)[OF O(1) that(2,1)])
  have idx: "ident pt' (entry_at pt' x) = ident pt (entry_at pt x)" if "live pt x" for x
    using only_entry_ident(1)[OF O(1) _ that M] id by (cases "x = eid") auto
  have o: "descr (entry_at pt' x) = descr (entry_at pt x) \<and> value_bytes pt' (entry_at pt' x) = value_bytes pt (entry_at pt x)"
    if x: "live pt x" "ident pt (entry_at pt x) \<noteq> ident pt (entry_at pt eid)" for x
  proof -
    have ne: "x \<noteq> eid" using x(2) by blast
    have "live pt' x" using x(1) O(2) by simp
    then have "value_bytes pt' (entry_at pt' x) = value_bytes pt (entry_at pt x)"
      using value_bytes_drop[OF live_shape[OF ok(2)]] value_bytes_drop[OF live_shape[OF ok(1) x(1)]]
        only_entry_ident(2)[OF O(1) ne x(1) M] at[OF x(1) ne] by simp
    then show ?thesis using at[OF x(1) ne] by simp
  qed
  show ?thesis using cells_eqI[OF ok _ idx o eid refl] O(2) by simp
qed

section \<open>Steps that publish nothing\<close>

text \<open>
  \<open>dims\<close>: how a cell may change without a new value becoming visible. A cell that is valid
  afterwards was valid before with the same value, tags and source; the writer count stays;
  a version that changes becomes a new one. \<open>shifts\<close> lifts it to a partition: cells without
  writers may go, and a new cell is invalid, has no writer and has a new version.
\<close>

definition payload_of where
  "payload_of e = (ce_negative e, ce_value_len e, ce_global_epoch e, ce_relation_version e, ce_relation_incarnation e,
     ce_relation_slot e, ce_slot_generation e, ce_source_xmin e, ce_source_observed_full_xid e)"

definition newer :: "nat \<Rightarrow> nat \<Rightarrow> nat \<Rightarrow> nat \<Rightarrow> bool" where
  "newer g g' v v' \<longleftrightarrow> v' = v \<or> g < v' \<and> v' \<le> g'"

definition dims :: "nat \<Rightarrow> nat \<Rightarrow> cell \<Rightarrow> cell \<Rightarrow> bool" where
  "dims g g' c c' \<longleftrightarrow> ce_dirty_writers (fst c') = ce_dirty_writers (fst c) \<and> newer g g' (ce_version (fst c)) (ce_version (fst c')) \<and>
     (ce_valid (fst c') \<longrightarrow> ce_valid (fst c) \<and> payload_of (fst c') = payload_of (fst c) \<and> snd c' = snd c)"

definition shifts :: "nat \<Rightarrow> nat \<Rightarrow> (ident \<rightharpoonup> cell) \<Rightarrow> (ident \<rightharpoonup> cell) \<Rightarrow> bool" where
  "shifts g g' m m' \<longleftrightarrow> g \<le> g' \<and> (\<forall>i. case m i of
       None \<Rightarrow> (case m' i of None \<Rightarrow> True
         | Some c' \<Rightarrow> \<not> ce_valid (fst c') \<and> ce_dirty_writers (fst c') = 0 \<and> g < ce_version (fst c') \<and> ce_version (fst c') \<le> g')
     | Some c \<Rightarrow> (case m' i of None \<Rightarrow> ce_dirty_writers (fst c) = 0 | Some c' \<Rightarrow> dims g g' c c'))"

lemma dims_refl [simp]: "dims g g' c c"
  by (simp add: dims_def newer_def)

lemma newer_trans: "newer a b v v1 \<Longrightarrow> newer b c v1 v2 \<Longrightarrow> a \<le> b \<Longrightarrow> b \<le> c \<Longrightarrow> newer a c v v2"
  unfolding newer_def by linarith

lemma dims_trans: "dims a b c c1 \<Longrightarrow> dims b d c1 c2 \<Longrightarrow> a \<le> b \<Longrightarrow> b \<le> d \<Longrightarrow> dims a d c c2"
  unfolding dims_def using newer_trans by metis

lemma shiftsD:
  assumes "shifts g g' m m'"
  shows "g \<le> g'" "m i = None \<Longrightarrow> m' i = Some c' \<Longrightarrow> \<not> ce_valid (fst c') \<and> ce_dirty_writers (fst c') = 0 \<and> g < ce_version (fst c') \<and> ce_version (fst c') \<le> g'"
    "m i = Some c \<Longrightarrow> m' i = None \<Longrightarrow> ce_dirty_writers (fst c) = 0" "m i = Some c \<Longrightarrow> m' i = Some c' \<Longrightarrow> dims g g' c c'"
proof -
  note s = spec[OF conjunct2[OF assms[unfolded shifts_def]], of i]
  show "g \<le> g'" using assms by (simp add: shifts_def)
  show "m i = None \<Longrightarrow> m' i = Some c' \<Longrightarrow> \<not> ce_valid (fst c') \<and> ce_dirty_writers (fst c') = 0 \<and> g < ce_version (fst c') \<and> ce_version (fst c') \<le> g'"
    "m i = Some c \<Longrightarrow> m' i = None \<Longrightarrow> ce_dirty_writers (fst c) = 0" "m i = Some c \<Longrightarrow> m' i = Some c' \<Longrightarrow> dims g g' c c'"
    using s by simp_all
qed

lemma shiftsI:
  assumes "g \<le> g'"
    "\<And>i c'. m i = None \<Longrightarrow> m' i = Some c' \<Longrightarrow> \<not> ce_valid (fst c') \<and> ce_dirty_writers (fst c') = 0 \<and> g < ce_version (fst c') \<and> ce_version (fst c') \<le> g'"
    "\<And>i c. m i = Some c \<Longrightarrow> m' i = None \<Longrightarrow> ce_dirty_writers (fst c) = 0"
    "\<And>i c c'. m i = Some c \<Longrightarrow> m' i = Some c' \<Longrightarrow> dims g g' c c'"
  shows "shifts g g' m m'"
  unfolding shifts_def
proof (intro conjI allI)
  fix i
  show "case m i of
       None \<Rightarrow> (case m' i of None \<Rightarrow> True
         | Some c' \<Rightarrow> \<not> ce_valid (fst c') \<and> ce_dirty_writers (fst c') = 0 \<and> g < ce_version (fst c') \<and> ce_version (fst c') \<le> g')
     | Some c \<Rightarrow> (case m' i of None \<Rightarrow> ce_dirty_writers (fst c) = 0 | Some c' \<Rightarrow> dims g g' c c')"
    using assms(2-4)[of i] by (auto split: option.split)
qed (rule assms(1))

lemma shifts_refl: "shifts g g m m"
  by (rule shiftsI) simp_all

lemma shifts_update:
  assumes "m i = Some c" "dims g g' c c'" "g \<le> g'"
  shows "shifts g g' m (m(i \<mapsto> c'))"
  using assms by (intro shiftsI) (auto split: if_splits)

lemma shifts_trans:
  assumes a: "shifts g g1 m m1" and b: "shifts g1 g2 m1 m2"
  shows "shifts g g2 m m2"
proof (rule shiftsI)
  note le = shiftsD(1)[OF a] shiftsD(1)[OF b]
  show "g \<le> g2" using le by simp
  fix i
  show "ce_dirty_writers (fst c) = 0" if "m i = Some c" "m2 i = None" for c
  proof (cases "m1 i")
    case None
    then show ?thesis using shiftsD(3)[OF a that(1)] by simp
  next
    case (Some c1)
    then show ?thesis using shiftsD(4)[OF a that(1) Some] shiftsD(3)[OF b Some that(2)] by (simp add: dims_def)
  qed
  show "dims g g2 c c2" if c: "m i = Some c" "m2 i = Some c2" for c c2
  proof (cases "m1 i")
    case None
    note n = shiftsD(2)[OF b None c(2)] and z = shiftsD(3)[OF a c(1) None]
    then show ?thesis using le by (simp add: dims_def newer_def)
  next
    case (Some c1)
    then show ?thesis using dims_trans[OF shiftsD(4)[OF a c(1) Some] shiftsD(4)[OF b Some c(2)] le] by simp
  qed
  show "\<not> ce_valid (fst c2) \<and> ce_dirty_writers (fst c2) = 0 \<and> g < ce_version (fst c2) \<and> ce_version (fst c2) \<le> g2"
    if c: "m i = None" "m2 i = Some c2" for c2
  proof (cases "m1 i")
    case None
    show ?thesis using shiftsD(2)[OF b None c(2)] le by simp
  next
    case (Some c1)
    note n = shiftsD(2)[OF a c(1) Some] and d = shiftsD(4)[OF b Some c(2)]
    then show ?thesis using le by (auto simp: dims_def newer_def)
  qed
qed

lemma revoked_payload: "revoked e e' \<Longrightarrow> payload_of e' = payload_of e"
  by (auto simp: revoked_def payload_of_def)

lemma sheds_shifts_if:
  assumes s: "sheds hf X' K pt gl pt' gl'" and ok: "part_ok hf X pt"
    and keep: "\<And>x. live pt x \<Longrightarrow> ce_dirty_writers (entry_at pt x) \<noteq> 0 \<Longrightarrow> live pt' x"
  shows "shifts (pt_entry_generation pt) (pt_entry_generation pt') (cells pt) (cells pt')"
proof (rule shiftsI)
  note T = sheds_cells(1)[OF s ok, unfolded thinned_def]
  show "pt_entry_generation pt \<le> pt_entry_generation pt'" by (rule shedsD(9)[OF s])
  fix i
  show "\<not> ce_valid (fst c') \<and> ce_dirty_writers (fst c') = 0 \<and> pt_entry_generation pt < ce_version (fst c') \<and> ce_version (fst c') \<le> pt_entry_generation pt'"
    if "cells pt i = None" "cells pt' i = Some c'" for c' using spec[OF T, of i] that by auto
  show "dims (pt_entry_generation pt) (pt_entry_generation pt') c c'" if c: "cells pt i = Some c" "cells pt' i = Some c'" for c c'
  proof -
    obtain e e' v where e: "c = (e, v)" "c' = (e', v)" "revoked e e'"
      "newer (pt_entry_generation pt) (pt_entry_generation pt') (ce_version e) (ce_version e')"
      using spec[OF T, of i] c unfolding newer_def by auto
    then show ?thesis using revoked_payload[OF e(3)] revoked_same(5,8)[OF e(3)] by (simp add: dims_def)
  qed
  show "ce_dirty_writers (fst c) = 0" if c: "cells pt i = Some c" "cells pt' i = None" for c
  proof (rule ccontr)
    assume d: "ce_dirty_writers (fst c) \<noteq> 0"
    obtain x where x: "live pt x" "ident pt (entry_at pt x) = i" "c = (descr (entry_at pt x), value_bytes pt (entry_at pt x))"
      by (rule cells_SomeE[OF c(1)])
    then have "live pt' x" using keep d by (simp add: descr_def)
    then show False using sheds_keeps(1)[OF s ok] x(2) c(2) unfolding cells_None by blast
  qed
qed

lemma sheds_shifts:
  assumes "sheds hf X' (spared ex) pt gl pt' gl'" "part_ok hf X pt"
  shows "shifts (pt_entry_generation pt) (pt_entry_generation pt') (cells pt) (cells pt')"
  by (rule sheds_shifts_if[OF assms]) (simp add: shedsD(7)[OF assms(1)] spared_def)

text \<open>The marker that stands for an identity. No cell is created while its marker is held.\<close>

definition mark :: "(ident \<Rightarrow> nat) \<Rightarrow> ident \<Rightarrow> marker_ident" where
  "mark hf i = (case i of (db, rel, slot, gen, key) \<Rightarrow> (hf i, slot, gen, key))"

definition unmarked :: "(ident \<Rightarrow> nat) \<Rightarrow> partition \<Rightarrow> partition \<Rightarrow> bool" where
  "unmarked hf pt pt' \<longleftrightarrow> (\<forall>i. cells pt i = None \<longrightarrow> cells pt' i \<noteq> None \<longrightarrow> marker_writers pt (mark hf i) = 0)"

lemma unmarked_dom: "dom (cells pt') \<subseteq> dom (cells pt) \<Longrightarrow> unmarked hf pt pt'"
  unfolding unmarked_def by blast

lemma unmarked_trans:
  "unmarked hf pt pt1 \<Longrightarrow> unmarked hf pt1 pt2 \<Longrightarrow> marker_side pt1 = marker_side pt \<Longrightarrow> unmarked hf pt pt2"
  unfolding unmarked_def using markers_ok_marker_side(2)[of pt1 pt] by metis

lemma sheds_dom: "sheds hf X' K pt gl pt' gl' \<Longrightarrow> part_ok hf X pt \<Longrightarrow> dom (cells pt') \<subseteq> dom (cells pt)"
proof
  fix i assume "sheds hf X' K pt gl pt' gl'" "part_ok hf X pt" and i: "i \<in> dom (cells pt')"
  then have "thinned (pt_entry_generation pt) (pt_entry_generation pt') (cells pt) (cells pt')" by (intro sheds_cells(1))
  then show "i \<in> dom (cells pt)" using i unfolding thinned_def dom_def by (metis (mono_tags, lifting) mem_Collect_eq option.distinct(1))
qed

text \<open>The common postcondition of the operations under the partition lock.\<close>

definition calm :: "(ident \<Rightarrow> nat) \<Rightarrow> partition \<Rightarrow> globals \<Rightarrow> partition \<Rightarrow> globals \<Rightarrow> bool" where
  "calm hf pt gl pt' gl' \<longleftrightarrow> part_ok hf Map.empty pt' \<and> marker_side pt' = marker_side pt \<and>
     (\<forall>rest. counted rest pt gl \<longrightarrow> counted rest pt' gl') \<and>
     shifts (pt_entry_generation pt) (pt_entry_generation pt') (cells pt) (cells pt') \<and> unmarked hf pt pt'"

lemma calmD:
  assumes "calm hf pt gl pt' gl'"
  shows "part_ok hf Map.empty pt'" "marker_side pt' = marker_side pt" "counted rest pt gl \<Longrightarrow> counted rest pt' gl'"
    "shifts (pt_entry_generation pt) (pt_entry_generation pt') (cells pt) (cells pt')" "unmarked hf pt pt'"
  using assms unfolding calm_def by blast+

lemma calm_refl: "part_ok hf Map.empty pt \<Longrightarrow> gl_cache_entry_count gl' = gl_cache_entry_count gl \<Longrightarrow> calm hf pt gl pt gl'"
  by (simp add: calm_def counted_def shifts_refl unmarked_dom)

lemma calm_trans:
  assumes a: "calm hf pt gl pt1 gl1" and b: "calm hf pt1 gl1 pt2 gl2"
  shows "calm hf pt gl pt2 gl2"
  unfolding calm_def using calmD(1-3)[OF b] calmD(2,3)[OF a] shifts_trans[OF calmD(4)[OF a] calmD(4)[OF b]]
    unmarked_trans[OF calmD(5)[OF a] calmD(5)[OF b] calmD(2)[OF a]] by simp

lemma calm_globals: "calm hf pt gl pt' gl' \<Longrightarrow> gl_cache_entry_count gl'' = gl_cache_entry_count gl' \<Longrightarrow> calm hf pt gl pt' gl''"
  by (simp add: calm_def counted_def)

lemma calm_sheds: "sheds hf Map.empty (spared ex) pt gl pt' gl' \<Longrightarrow> part_ok hf Map.empty pt \<Longrightarrow> calm hf pt gl pt' gl'"
  by (simp add: calm_def shedsD(1,3,10) sheds_shifts unmarked_dom[OF sheds_dom])

lemma calm_tweak:
  assumes ok: "part_ok hf Map.empty pt" and eid: "live pt eid" and core: "core e = core (entry_at pt eid)"
    and pt': "pt' = (set_entry eid e pt)\<lparr>pt_entry_generation := g\<rparr>" and g: "pt_entry_generation pt \<le> g"
    and d: "dims (pt_entry_generation pt) g (entry_at pt eid, v) (e, v)"
  shows "calm hf pt gl pt' gl"
proof -
  note T = tweak[OF ok eid core pt']
  have "dims (pt_entry_generation pt) g (descr (entry_at pt eid), w) (descr e, w)" for w
    using d by (simp add: dims_def descr_def payload_of_def)
  then have "shifts (pt_entry_generation pt) g (cells pt) (cells pt')"
    unfolding T(5) by (rule shifts_update[of "cells pt", OF cells_live[OF ok eid refl] _ g])
  moreover have "dom (cells pt') \<subseteq> dom (cells pt)" unfolding T(5) using cells_live[OF ok eid refl] by auto
  ultimately show ?thesis using T(1,3,7,8) unmarked_dom[of pt' pt hf] by (simp add: calm_def counted_def)
qed

lemma set_entry_generation: "set_entry eid e pt = (set_entry eid e pt)\<lparr>pt_entry_generation := pt_entry_generation pt\<rparr>"
  by (simp add: set_entry_def)

lemmas calm_set = calm_tweak[OF _ _ _ set_entry_generation order_refl]
lemmas tweak_set = tweak[OF _ _ _ set_entry_generation]

text \<open>Invalidating an entry.\<close>

definition restamped :: "nat \<Rightarrow> cache_entry \<Rightarrow> cache_entry" where
  "restamped g e = (drop_lease (e\<lparr>ce_valid := False\<rparr>))\<lparr>ce_version := g\<rparr>"

definition retired :: "nat \<Rightarrow> cache_entry \<Rightarrow> cache_entry" where
  "retired g e = (restamped g e)\<lparr>ce_source_xmin := 0, ce_source_observed_full_xid := 0\<rparr>"

lemma set_entry_twice [simp]: "set_entry eid e (set_entry eid e' pt) = set_entry eid e pt"
  "set_entry eid e (pt\<lparr>pt_entry_generation := g\<rparr>) = (set_entry eid e pt)\<lparr>pt_entry_generation := g\<rparr>"
  by (simp_all add: set_entry_def)

lemma restamp_eq:
  "restamp_entry eid pt =
    (if pt_entry_generation pt = UINT64_MAX then (Inl Generation_Overflow, set_entry eid (drop_lease ((entry_at pt eid)\<lparr>ce_valid := False\<rparr>)) pt)
     else (Inr (), (set_entry eid (restamped (pt_entry_generation pt + 1) (entry_at pt eid)) pt)
       \<lparr>pt_entry_generation := pt_entry_generation pt + 1\<rparr>))"
  unfolding restamp_entry_def next_entry_generation_def restamped_def Let_def by simp

lemma retire_eq:
  assumes "live pt eid"
  shows "retire_entry eid pt =
    (if pt_entry_generation pt = UINT64_MAX then (Inl Generation_Overflow, set_entry eid (drop_lease ((entry_at pt eid)\<lparr>ce_valid := False\<rparr>)) pt)
     else (Inr (), (set_entry eid (retired (pt_entry_generation pt + 1) (entry_at pt eid)) pt)
       \<lparr>pt_entry_generation := pt_entry_generation pt + 1\<rparr>))"
proof -
  have "entry_at ((set_entry eid e pt)\<lparr>pt_entry_generation := g\<rparr>) eid = e" for e g
    using assms by (auto simp: set_entry_def live_def nth_list_update)
  then show ?thesis unfolding retire_entry_def restamp_eq retired_def by simp
qed

lemma lease_core [simp]: "core (drop_lease e) = core e" "core (e\<lparr>ce_valid := b\<rparr>) = core e" "core (restamped g e) = core e"
  "core (retired g e) = core e" "core (e\<lparr>ce_loading := b\<rparr>) = core e" "core (e\<lparr>ce_last_access := n\<rparr>) = core e"
  "core (e\<lparr>ce_dirty_writers := w\<rparr>) = core e"
  by (simp_all add: drop_lease_def core_def restamped_def retired_def)

lemma retire_spec:
  assumes ok: "part_ok hf Map.empty pt" and eid: "live pt eid" and run: "retire_entry eid pt = (res, pt')"
  shows "calm hf pt gl pt' gl"
    "case res of Inl err \<Rightarrow> err = Generation_Overflow
     | Inr _ \<Rightarrow> pt_entry_generation pt' = pt_entry_generation pt + 1 \<and> cells pt' = (cells pt)(ident pt (entry_at pt eid) \<mapsto>
         (retired (pt_entry_generation pt + 1) (descr (entry_at pt eid)), value_bytes pt (entry_at pt eid)))"
proof -
  define e where "e = entry_at pt eid"
  define g where "g = pt_entry_generation pt + 1"
  have d: "descr (retired g e) = retired g (descr e)" by (simp add: descr_def retired_def restamped_def drop_lease_def)
  have D: "dims (pt_entry_generation pt) (pt_entry_generation pt) (e, v) (drop_lease (e\<lparr>ce_valid := False\<rparr>), v)"
    "dims (pt_entry_generation pt) g (e, v) (retired g e, v)" for v
    by (simp_all add: dims_def newer_def drop_lease_def retired_def restamped_def g_def)
  have c: "core (drop_lease (e\<lparr>ce_valid := False\<rparr>)) = core e" "core (retired g e) = core e" by simp_all
  have le: "pt_entry_generation pt \<le> g" by (simp add: g_def)
  note A = calm_set[OF ok eid c(1)[unfolded e_def] D(1)[unfolded e_def]]
  note B = calm_tweak[OF ok eid c(2)[unfolded e_def] refl le D(2)[unfolded e_def]]
  show "calm hf pt gl pt' gl"
    using run A[of gl] B[of gl] unfolding retire_eq[OF eid] g_def[symmetric] e_def[symmetric] by (auto split: if_splits)
  show "case res of Inl err \<Rightarrow> err = Generation_Overflow
     | Inr _ \<Rightarrow> pt_entry_generation pt' = pt_entry_generation pt + 1 \<and> cells pt' = (cells pt)(ident pt (entry_at pt eid) \<mapsto>
         (retired (pt_entry_generation pt + 1) (descr (entry_at pt eid)), value_bytes pt (entry_at pt eid)))"
    using run tweak(5)[OF ok eid c(2)[unfolded e_def] refl]
    unfolding retire_eq[OF eid] g_def[symmetric] e_def[symmetric] d by (auto split: if_splits)
qed

end
