(* ===== verification/CacheSpec.thy ===== *)
theory CacheSpec
  imports Contents
begin

text \<open>
  The cache operations as steps on the abstract contents: what a hit returns, what a token
  promises, when a fill is accepted and what a lease excludes.
\<close>

section \<open>Creating an entry\<close>

lemma created_others:
  assumes c: "created hf i rest eid pt gl pt' gl'" and ok: "part_ok hf Map.empty pt" and x: "live pt' x" "x \<noteq> eid"
  shows "live pt x" "revoked (entry_at pt x) (entry_at pt' x)" "renewed pt pt' x"
    "ident pt' (entry_at pt' x) = ident pt (entry_at pt x)" "value_bytes pt' (entry_at pt' x) = value_bytes pt (entry_at pt x)"
proof -
  define e where "e = entry_at pt x"
  show O: "live pt x" "revoked (entry_at pt x) (entry_at pt' x)" "renewed pt pt' x"
    using c x unfolding created_def by blast+
  have k: "keeps_block (pt_arena pt) (pt_arena pt') (ce_block_ref e)" using c x unfolding created_def e_def by blast
  obtain M where M: "blocks_ok Map.empty M pt" "entries_ok hf pt" using ok by (auto simp: part_ok_def)
  have sh: "entry_shape e" using live_shape[OF ok O(1)] by (simp add: e_def)
  have le: "ce_key_len e \<le> ref_bytes (pt_arena pt) (ce_block_ref e)" "ce_block_len e \<le> ref_bytes (pt_arena pt) (ce_block_ref e)"
    using block_of_live(2)[OF M O(1)] sh unfolding entry_shape_def e_def by simp_all
  have i: "ident pt' e' = ident pt' e" "value_bytes pt' e' = value_bytes pt' e" if "revoked e e'" for e'
    using that by (auto simp: revoked_def ident_def value_bytes_def)
  have "value_bytes pt' e = value_bytes pt e"
    using keeps_load[OF k le(2)] value_bytes_drop[OF sh] by (simp add: block_bytes_def)
  then show "ident pt' (entry_at pt' x) = ident pt (entry_at pt x)" "value_bytes pt' (entry_at pt' x) = value_bytes pt (entry_at pt x)"
    using i[OF O(2)[folded e_def]] keeps_load[OF k le(1)] unfolding ident_def e_def by simp_all
qed

lemma created_cells:
  assumes c: "created hf i rest eid pt gl pt' gl'" and ok: "part_ok hf Map.empty pt" and new: "cells pt i = None"
  shows "shifts (pt_entry_generation pt) (pt_entry_generation pt') (cells pt) (cells pt')"
    "\<exists>e v. cells pt' i = Some (e, v) \<and> \<not> ce_valid e \<and> \<not> ce_loading e \<and> ce_dirty_writers e = 0 \<and> ce_version e = pt_entry_generation pt'"
    "cells pt' j \<noteq> None \<Longrightarrow> cells pt j = None \<Longrightarrow> j = i"
proof -
  have C: "part_ok hf Map.empty pt'" "live pt' eid" "ident pt' (entry_at pt' eid) = i" "\<not> ce_valid (entry_at pt' eid)"
    "\<not> ce_loading (entry_at pt' eid)" "ce_dirty_writers (entry_at pt' eid) = 0" "ce_version (entry_at pt' eid) = pt_entry_generation pt'"
    "pt_entry_generation pt < pt_entry_generation pt'"
    using c unfolding created_def by blast+
  note O = created_others[OF c ok]
  have K: "live pt' x" "x \<noteq> eid" "entry_at pt' x = entry_at pt x" if "live pt x" "spared 0 x (entry_at pt x)" for x
    using c that unfolding created_def by blast+
  note ci = cells_live[OF C(1-3)]
  show "\<exists>e v. cells pt' i = Some (e, v) \<and> \<not> ce_valid e \<and> \<not> ce_loading e \<and> ce_dirty_writers e = 0 \<and> ce_version e = pt_entry_generation pt'"
    using ci C(4-7) by (simp add: descr_def)
  show "cells pt' j \<noteq> None \<Longrightarrow> cells pt j = None \<Longrightarrow> j = i"
    using O(1,4) C(3) unfolding cells_None by metis
  show "shifts (pt_entry_generation pt) (pt_entry_generation pt') (cells pt) (cells pt')"
  proof (rule shiftsI)
    fix j
    have prev: "\<exists>e v. cells pt j = Some (descr e, v) \<and> c' = (descr (entry_at pt' x), v) \<and> revoked e (entry_at pt' x) \<and> renewed pt pt' x \<and> e = entry_at pt x"
      if x: "live pt' x" "ident pt' (entry_at pt' x) = j" "c' = (descr (entry_at pt' x), value_bytes pt' (entry_at pt' x))" "x \<noteq> eid" for x c'
      using cells_live[OF ok O(1)[OF x(1,4)]] x O(2-5)[OF x(1,4)] by auto
    show "\<not> ce_valid (fst c') \<and> ce_dirty_writers (fst c') = 0 \<and> pt_entry_generation pt < ce_version (fst c') \<and> ce_version (fst c') \<le> pt_entry_generation pt'"
      if j: "cells pt j = None" "cells pt' j = Some c'" for c'
    proof -
      obtain x where x: "live pt' x" "ident pt' (entry_at pt' x) = j" "c' = (descr (entry_at pt' x), value_bytes pt' (entry_at pt' x))"
        by (rule cells_SomeE[OF j(2)])
      have "x = eid" using prev[OF x] j(1) by auto
      then show ?thesis using x(3) C(4-8) by (simp add: descr_def)
    qed
    show "dims (pt_entry_generation pt) (pt_entry_generation pt') c c'" if j: "cells pt j = Some c" "cells pt' j = Some c'" for c c'
    proof -
      obtain x where x: "live pt' x" "ident pt' (entry_at pt' x) = j" "c' = (descr (entry_at pt' x), value_bytes pt' (entry_at pt' x))"
        by (rule cells_SomeE[OF j(2)])
      have "x \<noteq> eid" using x(2) C(3) new j(1) by auto
      then obtain e v where e: "c = (descr e, v)" "c' = (descr (entry_at pt' x), v)" "revoked e (entry_at pt' x)" "renewed pt pt' x" "e = entry_at pt x"
        using prev[OF x] j(1) by auto
      show ?thesis using revoked_payload[OF revoked_descr[OF e(3)]] revoked_same(5,8)[OF revoked_descr[OF e(3)]] e(4)
        unfolding e(1,2) dims_def newer_def renewed_def e(5)[symmetric] by (simp add: descr_def)
    qed
    show "ce_dirty_writers (fst c) = 0" if j: "cells pt j = Some c" "cells pt' j = None" for c
    proof (rule ccontr)
      assume d: "ce_dirty_writers (fst c) \<noteq> 0"
      obtain x where x: "live pt x" "ident pt (entry_at pt x) = j" "c = (descr (entry_at pt x), value_bytes pt (entry_at pt x))"
        by (rule cells_SomeE[OF j(1)])
      then have "spared 0 x (entry_at pt x)" using d by (simp add: spared_def descr_def)
      note k = K[OF x(1) this]
      have "ident pt' (entry_at pt' x) = j" using O(4)[OF k(1,2)] x(2) by simp
      then show False using k(1) j(2) unfolding cells_None by blast
    qed
  qed (use C(8) in simp)
qed

lemma create_unmarked:
  assumes run: "create_entry pr s fs nows q pt gl = (Inr (Some eid), pt', gl')" and ok: "part_ok hf Map.empty pt" and mk: "markers_ok pt"
    and q: "asks_for q i" "eq_key_len q < PGLC_KEY_MAX"
  shows "marker_writers pt (eq_hash q, eq_relation_slot q, eq_slot_generation q, eq_key q) = 0"
proof -
  obtain rebuilt pt0 where rb: "(if pglc_index_needs_rebuild (pt_index pt) then rebuild_cache_index pt else (True, pt)) = (rebuilt, pt0)"
    by fastforce
  have side: "marker_side pt0 = marker_side pt"
    using rb rebuild_part[OF ok] by (auto split: if_splits)
  have len: "eq_key_len q = length (eq_key q)" using q(1) by (simp add: asks_for_def)
  have "cache_marker_find pt0 (eq_hash q) (eq_key q) (eq_key_len q) (eq_relation_slot q) (eq_slot_generation q) = 0"
    using run rb unfolding create_entry_def Let_def by (auto split: if_splits)
  then show ?thesis
    using marker_find_spec(1)[of pt0 "eq_key q"] markers_ok_marker_side(1,2)[OF side] mk q(2) len by simp
qed

lemma counted_unique: "counted rest pt gl \<Longrightarrow> counted rest' pt gl \<Longrightarrow> rest' = rest"
  by (simp add: counted_def)

lemma internal_spec:
  assumes ok: "part_ok hf Map.empty pt" and h: "hashes hf pr mp key"
    and c: "counted rest pt gl" "pglc_cache_entries s < 2 ^ 32" "markers_ok pt"
    and run: "get_cache_entry_internal pr s fs nows (my_database_id pr) (mp_relation_oid mp) (mp_nspace mp) key (mp_relation_slot mp)
      (mp_relation_slot_generation mp) create None pt gl = (res, pt', gl')"
  shows "case res of Inl err \<Rightarrow> err = Generation_Overflow \<and> create
    | Inr (entry, corrupt) \<Rightarrow> corrupt = 0 \<and> calm hf pt gl pt' gl' \<and> (\<not> create \<longrightarrow> pt' = pt \<and> gl' = gl) \<and>
        (case entry of None \<Rightarrow> cells pt' (mapped pr mp key) = None
         | Some eid \<Rightarrow> live pt' eid \<and> ident pt' (entry_at pt' eid) = mapped pr mp key) \<and>
        (cells pt (mapped pr mp key) \<noteq> None \<longrightarrow> pt' = pt \<and> gl' = gl) \<and>
        (cells pt (mapped pr mp key) = None \<longrightarrow> entry \<noteq> None \<longrightarrow> marker_writers pt (mark hf (mapped pr mp key)) = 0)"
proof (cases "cells pt (mapped pr mp key)")
  case (Some cc)
  then obtain x where x: "live pt x" "ident pt (entry_at pt x) = mapped pr mp key" by (rule cells_SomeE)
  have "res = Inr (Some x, 0)" "pt' = pt" "gl' = gl" using run internal_found[OF ok h x] by simp_all
  then show ?thesis using x Some calm_refl[OF ok] by simp
next
  case None
  show ?thesis
  proof (cases create)
    case False
    then have "res = Inr (None, 0)" "pt' = pt" "gl' = gl" using run internal_missing[OF ok h None] by simp_all
    then show ?thesis using None calm_refl[OF ok] by simp
  next
    case True
    define i where "i = mapped pr mp key"
    define q where "q = (blank_entry_query pt)\<lparr>eq_hash := hf i, eq_key := key, eq_key_len := length key,
       eq_database_oid := my_database_id pr, eq_relation_oid := mp_relation_oid mp, eq_relation_slot := mp_relation_slot mp,
       eq_slot_generation := mp_relation_slot_generation mp\<rparr>"
    have new: "\<And>x. live pt x \<Longrightarrow> ident pt (entry_at pt x) \<noteq> i" using None unfolding cells_None i_def by blast
    obtain r pt1 gl1 where cr: "create_entry pr s fs nows q pt gl = (r, pt1, gl1)" using prod_cases3 by blast
    have run': "(res, pt', gl') = (case r of Inl e \<Rightarrow> (Inl e, pt1, gl1) | Inr x \<Rightarrow> (Inr (x, 0), pt1, gl1))"
    proof -
      have no: "ident pt (entry_at pt x) \<noteq> (my_database_id pr, mp_relation_oid mp, mp_relation_slot mp, mp_relation_slot_generation mp, key)"
        if "live pt x" for x using new[OF that] by (simp add: i_def mapped_def)
      show ?thesis using run get_missing[OF ok no, of pr s fs nows True "hf i" gl, folded q_def] True
        unfolding internal_key[OF h] i_def[symmetric] cr by (simp split: sum.splits)
    qed
    have q: "asks_for q i" "eq_hash q = hf i" "eq_key_len q < PGLC_KEY_MAX"
      using h by (simp_all add: asks_for_def q_def i_def mapped_def blank_entry_query_def hashes_def)
    have mk: "(eq_hash q, eq_relation_slot q, eq_slot_generation q, eq_key q) = mark hf i"
      by (simp add: q_def i_def mark_def mapped_def blank_entry_query_def)
    note S = create_spec[OF ok q new c(1,2) cr]
    show ?thesis
    proof (cases r)
      case (Inl e)
      then show ?thesis using S run' True by simp
    next
      case (Inr ro)
      note R = Inr
      show ?thesis
      proof (cases ro)
        case None2: None
        have s: "sheds hf Map.empty (spared 0) pt gl pt1 gl1" using S R None2 by simp
        have "cells pt1 i = None"
          using spec[OF sheds_cells(1)[OF s ok, unfolded thinned_def], of i] None unfolding i_def[symmetric] by auto
        then show ?thesis using run' R None2 calm_sheds[OF s ok] True None unfolding i_def by simp
      next
        case (Some eid)
        have cd: "created hf i rest eid pt gl pt1 gl1" using S R Some by simp
        have mw: "marker_writers pt (mark hf i) = 0"
          using create_unmarked[OF cr[unfolded R Some] ok c(3) q(1,3)] unfolding mk .
        have "unmarked hf pt pt1"
          unfolding unmarked_def using created_cells(3)[OF cd ok None[folded i_def]] mw by metis
        then have "calm hf pt gl pt1 gl1"
          using created_cells(1)[OF cd ok None[folded i_def]] cd counted_unique[OF c(1)] unfolding calm_def created_def by blast
        moreover have "live pt1 eid" "ident pt1 (entry_at pt1 eid) = i" using cd unfolding created_def by blast+
        ultimately show ?thesis using run' R Some True None mw unfolding i_def by simp
      qed
    qed
  qed
qed

section \<open>Lookup\<close>

lemma snapshot_descr [simp]: "read_fence_snapshot s obs mp (Some (descr e)) = read_fence_snapshot s obs mp (Some e)"
  by (simp add: read_fence_snapshot_def descr_def)

lemma current_descr [simp]: "cache_entry_is_current_slot_locked s obs (descr e) = cache_entry_is_current_slot_locked s obs e"
  by (simp add: cache_entry_is_current_slot_locked_def descr_def)

lemma descr_fields [simp]:
  "ce_valid (descr e) = ce_valid e" "ce_negative (descr e) = ce_negative e" "ce_version (descr e) = ce_version e"
  "ce_value_len (descr e) = ce_value_len e" "ce_source_xmin (descr e) = ce_source_xmin e" "ce_loading (descr e) = ce_loading e"
  "ce_dirty_writers (descr e) = ce_dirty_writers e" "ce_load_id (descr e) = ce_load_id e" "same_mapping mp (descr e) = same_mapping mp e"
  "ce_source_observed_full_xid (descr e) = ce_source_observed_full_xid e" "ce_load_started (descr e) = ce_load_started e"
  "ce_global_epoch (descr e) = ce_global_epoch e" "ce_relation_version (descr e) = ce_relation_version e"
  "ce_relation_incarnation (descr e) = ce_relation_incarnation e" "ce_relation_slot (descr e) = ce_relation_slot e"
  "ce_slot_generation (descr e) = ce_slot_generation e"
  by (simp_all add: descr_def same_mapping_def)

text \<open>When the cell of a key may be served: the reads of a lookup in their order.\<close>

definition serves :: "settings \<Rightarrow> observations \<Rightarrow> mapping \<Rightarrow> cache_entry \<Rightarrow> bool" where
  "serves s obs mp e \<longleftrightarrow> (\<exists>before. read_fence_snapshot s obs mp (Some e) = Some (before, True) \<and>
     cache_entry_is_current_slot_locked s (shift_obs 13 obs) e \<and>
     read_fence_snapshot s (shift_obs 17 obs) mp (Some e) = Some (before, True))"

text \<open>What a cacheable token says about the cell it was issued for.\<close>

definition token_for :: "settings \<Rightarrow> observations \<Rightarrow> mapping \<Rightarrow> read_token \<Rightarrow> cache_entry \<Rightarrow> bool" where
  "token_for s obs mp token e \<longleftrightarrow> tk_has_entry token \<and> tk_key_version token = ce_version e \<and>
     tk_source_observed_full_xid token = ce_source_observed_full_xid e \<and>
     (\<exists>before. read_fence_snapshot s obs mp (Some e) = Some (before, True) \<and> fence_snapshot_matches_token before token)"

lemma ident_mapping: "ident pt e = mapped pr mp key \<Longrightarrow> same_mapping mp e"
  by (simp add: ident_def mapped_def same_mapping_def)

lemma copy_spec:
  assumes ok: "part_ok hf X pt" and eid: "live pt eid"
  defines "e \<equiv> entry_at pt eid"
  shows "copy_value s obs mp cap before e pt lr =
    (if \<not> ce_negative e \<and> cap < ce_value_len e then lr
     else if read_fence_snapshot s obs mp (Some e) = Some (before, True)
     then if ce_negative e then lr\<lparr>lr_negative := True, lr_hit := True\<rparr>
       else lr\<lparr>lr_value := value_bytes pt e, lr_hit := True, lr_value_len := ce_value_len e, lr_source_xmin := ce_source_xmin e\<rparr>
     else (if ce_negative e then lr else lr\<lparr>lr_value := value_bytes pt e\<rparr>)
       \<lparr>lr_negative := False, lr_value_len := 0, lr_source_xmin := 0, lr_token := (lr_token lr)\<lparr>tk_cacheable := False\<rparr>\<rparr>)"
proof -
  obtain M where "blocks_ok X M pt" "entries_ok hf pt" using ok by (auto simp: part_ok_def)
  then have b: "cache_entry_block pt e = Some (ce_block_ref e)" using block_of_live(1) eid by (simp add: e_def)
  have h: "(case read_fence_snapshot s obs mp (Some e) of None \<Rightarrow> False | Some (after, steady) \<Rightarrow> steady \<and> fence_snapshots_equal before after)
      \<longleftrightarrow> read_fence_snapshot s obs mp (Some e) = Some (before, True)"
    by (auto simp: fence_snapshots_equal_def split: option.split)
  show ?thesis unfolding copy_value_def b option.case Let_def h value_bytes_def by simp
qed

lemma snapshot_token:
  assumes "read_fence_snapshot s obs mp (Some e) = Some (b, True)"
  shows "token_for s obs mp (lookup_token mp b (Some e) c) e"
proof -
  have "sn_relation_slot b = mp_relation_slot mp" "sn_key_version b = ce_version e"
    using assms by (auto simp: read_fence_snapshot_def Let_def split: if_splits)
  then show ?thesis using assms by (simp add: token_for_def fence_snapshot_matches_token_def lookup_token_def)
qed

lemma serves_iff:
  assumes "read_fence_snapshot s obs mp (Some e) = Some (b, st)"
  shows "serves s obs mp e \<longleftrightarrow> st \<and> cache_entry_is_current_slot_locked s (shift_obs 13 obs) e \<and>
    read_fence_snapshot s (shift_obs 17 obs) mp (Some e) = Some (b, True)"
  using assms by (auto simp: serves_def)

lemma touch_spec:
  assumes ok: "part_ok hf Map.empty pt" and eid: "live pt eid"
  shows "calm hf pt gl (touch_entry eid pt gl2) gl" "cells (touch_entry eid pt gl2) = cells pt"
proof -
  define e where "e = (entry_at pt eid)\<lparr>ce_last_access := gl_clock gl2\<rparr>"
  have c: "core e = core (entry_at pt eid)" by (simp add: e_def)
  have d: "dims (pt_entry_generation pt) (pt_entry_generation pt) (entry_at pt eid, v) (e, v)" for v
    by (simp add: dims_def newer_def e_def payload_of_def)
  show "calm hf pt gl (touch_entry eid pt gl2) gl"
    using calm_set[OF ok eid c d] unfolding touch_entry_def e_def .
  have "descr e = descr (entry_at pt eid)" by (simp add: e_def descr_def)
  then show "cells (touch_entry eid pt gl2) = cells pt"
    using tweak_set(5)[OF ok eid c] cells_live[OF ok eid refl] unfolding touch_entry_def e_def by (simp add: fun_upd_idem)
qed

lemma lookup_spec:
  assumes ok: "part_ok hf Map.empty pt" and h: "hashes hf pr mp key"
    and c: "counted rest pt gl" "pglc_cache_entries s < 2 ^ 32" "markers_ok pt"
    and run: "cache_lookup_locked pr s obs fs nows mp key cap create pt gl = (res, pt', gl')"
  defines "i \<equiv> mapped pr mp key"
  shows "case res of Inl err \<Rightarrow> err = Generation_Overflow \<and> create
    | Inr lr \<Rightarrow> \<not> lr_malformed lr \<and> lr_corrupt_entry_id lr = 0 \<and> calm hf pt gl pt' gl' \<and>
        (\<not> create \<or> cells pt i \<noteq> None \<longrightarrow> cells pt' = cells pt) \<and>
        (cells pt i = None \<longrightarrow> cells pt' i \<noteq> None \<longrightarrow> marker_writers pt (mark hf i) = 0) \<and>
        (tk_cacheable (lr_token lr) \<longrightarrow> (\<exists>e v. cells pt' i = Some (e, v) \<and> token_for s obs mp (lr_token lr) e)) \<and>
        (lr_hit lr \<longrightarrow> (\<exists>e v. cells pt i = Some (e, v) \<and> serves s obs mp e \<and> lr_negative lr = ce_negative e \<and>
           (\<not> ce_negative e \<longrightarrow> lr_value lr = v \<and> lr_value_len lr = length v \<and> lr_source_xmin lr = ce_source_xmin e))) \<and>
        (\<forall>e v. cells pt i = Some (e, v) \<longrightarrow> serves s obs mp e \<longrightarrow> length v \<le> cap \<longrightarrow> lr_hit lr)"
proof (cases "pglc_relation_states s \<le> mp_relation_slot mp")
  case True
  then have "res = Inr (blank_lookup\<lparr>lr_complete := True\<rparr>)" "pt' = pt" "gl' = gl"
    using run unfolding cache_lookup_locked_def by simp_all
  moreover have "\<not> serves s obs mp e" for e using True by (simp add: serves_def read_fence_snapshot_def)
  ultimately show ?thesis using calm_refl[OF ok] by (simp add: blank_lookup_def blank_token_def)
next
  case False
  obtain r1 pt1 gl1 where g: "get_cache_entry_internal pr s fs nows (my_database_id pr) (mp_relation_oid mp) (mp_nspace mp) key
      (mp_relation_slot mp) (mp_relation_slot_generation mp) create None pt gl = (r1, pt1, gl1)" using prod_cases3 by blast
  note G = internal_spec[OF ok h c g, folded i_def]
  note step = run[unfolded cache_lookup_locked_def g if_not_P[OF False] prod.case]
  show ?thesis
  proof (cases r1)
    case (Inl err)
    then show ?thesis using G step by auto
  next
    case (Inr ec)
    then obtain entry where ec: "r1 = Inr (entry, 0)" using G by (cases ec) auto
    have G': "calm hf pt gl pt1 gl1" "\<not> create \<longrightarrow> pt1 = pt \<and> gl1 = gl" "cells pt i \<noteq> None \<longrightarrow> pt1 = pt \<and> gl1 = gl"
      "cells pt i = None \<longrightarrow> entry \<noteq> None \<longrightarrow> marker_writers pt (mark hf i) = 0"
      using G unfolding ec by auto
    have ok1: "part_ok hf Map.empty pt1" using G'(1) by (simp add: calm_def)
    have rd: "\<exists>b st. read_fence_snapshot s obs mp e = Some (b, st)" for e
      using False by (simp add: read_fence_snapshot_def Let_def)
    show ?thesis
    proof (cases entry)
      case None
      obtain b st where b: "read_fence_snapshot s obs mp None = Some (b, st)" using rd by blast
      have n1: "cells pt1 i = None" using G unfolding ec None by simp
      then have n: "cells pt i = None" using G'(3) by (cases "cells pt i") auto
      have "\<exists>lr. res = Inr lr \<and> lr = blank_lookup\<lparr>lr_token := lookup_token mp b None False\<rparr> \<and> pt' = pt1 \<and> gl' = gl1"
        using step unfolding ec None sum.case prod.case Let_def option.map b option.case
        by (auto simp: blank_lookup_def)
      then show ?thesis using G' n n1 by (auto simp: blank_lookup_def lookup_token_def)
    next
      case (Some eid)
      define e where "e = entry_at pt1 eid"
      have lv: "live pt1 eid" "ident pt1 e = i" using G unfolding ec Some e_def by simp_all
      have sm: "same_mapping mp e" using ident_mapping lv(2) unfolding i_def by blast
      obtain b st where b: "read_fence_snapshot s obs mp (Some e) = Some (b, st)" using rd by blast
      have ce: "cells pt1 i = Some (descr e, value_bytes pt1 e)" using cells_live[OF ok1 lv(1)] lv(2) by (simp add: e_def)
      define lr0 where "lr0 = blank_lookup\<lparr>lr_complete := True, lr_token := lookup_token mp b (Some e) st\<rparr>"
      define cur where "cur \<longleftrightarrow> st \<and> cache_entry_is_current_slot_locked s (shift_obs 13 obs) e"
      have step': "(res, pt', gl') = (if cur then (Inr (copy_value s (shift_obs 17 obs) mp cap b e pt1 lr0), touch_entry eid pt1 gl1, gl1)
          else (Inr lr0, pt1, gl1))"
        using step[symmetric] sm
        unfolding ec Some sum.case prod.case Let_def option.map option.case e_def[symmetric] b lr0_def cur_def
        by (simp add: blank_lookup_def)
      have lr0: "\<not> lr_malformed lr0" "lr_corrupt_entry_id lr0 = 0" "\<not> lr_hit lr0" "tk_cacheable (lr_token lr0) = st"
        "st \<Longrightarrow> token_for s obs mp (lr_token lr0) (descr e)"
        using snapshot_token[of s obs mp e b st] b by (simp_all add: lr0_def blank_lookup_def lookup_token_def token_for_def)
      have same: "cells pt' = cells pt1" "calm hf pt gl pt' gl'"
        using step' touch_spec(2)[OF ok1 lv(1), of gl1] calm_trans[OF G'(1) touch_spec(1)[OF ok1 lv(1), of gl1 gl1]] G'(1)
        by (auto split: if_splits)
      have c1: "cells pt i \<noteq> None \<or> \<not> create \<longrightarrow> cells pt' = cells pt" using same(1) G'(2,3) by auto
      have old: "cells pt i = Some (descr e, value_bytes pt1 e)" if "serves s obs mp e"
      proof (cases "cells pt i")
        case None
        then have "\<not> ce_valid (fst (descr e, value_bytes pt1 e))"
          using shiftsD(2)[OF calmD(4)[OF G'(1)] None ce] by blast
        then show ?thesis using that serves_iff[OF b] by (simp add: cache_entry_is_current_slot_locked_def)
      qed (use G'(3) ce in auto)
      have back1: "cells pt i = Some (d, v) \<Longrightarrow> d = descr e \<and> v = value_bytes pt1 e" for d v using G'(3) ce by auto
      have len: "length (value_bytes pt1 e) = ce_value_len e" "ce_negative e \<longrightarrow> ce_value_len e = 0"
        using live_shape[OF ok1 lv(1)] by (simp_all add: value_bytes_def entry_shape_def e_def)
      show ?thesis
      proof (cases "serves s obs mp e \<and> (ce_negative e \<or> ce_value_len e \<le> cap)")
        case True
        then have cur: "cur" "st" "read_fence_snapshot s (shift_obs 17 obs) mp (Some e) = Some (b, True)"
          using serves_iff[OF b] unfolding cur_def by blast+
        obtain lr where lr: "res = Inr lr" "lr = (if ce_negative e then lr0\<lparr>lr_negative := True, lr_hit := True\<rparr>
            else lr0\<lparr>lr_value := value_bytes pt1 e, lr_hit := True, lr_value_len := ce_value_len e, lr_source_xmin := ce_source_xmin e\<rparr>)"
          using step' True unfolding if_P[OF cur(1)] e_def copy_spec[OF ok1 lv(1)] unfolding e_def[symmetric] cur(3) by auto
        have "\<not> lr_malformed lr" "lr_corrupt_entry_id lr = 0" "lr_hit lr" "lr_token lr = lr_token lr0" "lr_negative lr = ce_negative e"
          "\<not> ce_negative e \<Longrightarrow> lr_value lr = value_bytes pt1 e \<and> lr_value_len lr = ce_value_len e \<and> lr_source_xmin lr = ce_source_xmin e"
          using lr0 unfolding lr(2) by (auto simp: lr0_def blank_lookup_def)
        note L = this
        have o: "cells pt i = Some (descr e, value_bytes pt1 e)" "serves s obs mp (descr e)" using old True by (simp_all add: serves_def)
        have tk: "token_for s obs mp (lr_token lr) (descr e)" using lr0(5)[OF cur(2)] L(4) by simp
        show ?thesis unfolding lr(1) sum.case
        proof (intro conjI impI allI)
          show "\<exists>e v. cells pt i = Some (e, v) \<and> serves s obs mp e \<and> lr_negative lr = ce_negative e \<and>
             (\<not> ce_negative e \<longrightarrow> lr_value lr = v \<and> lr_value_len lr = length v \<and> lr_source_xmin lr = ce_source_xmin e)"
            using o L(5,6) len(1) by (intro exI[of _ "descr e"] exI[of _ "value_bytes pt1 e"]) simp
          show "\<exists>e v. cells pt' i = Some (e, v) \<and> token_for s obs mp (lr_token lr) e" using tk ce same(1) by simp
        qed (use L(1-3) same c1 G'(4) Some in auto)
      next
        case False
        obtain lr where lr: "res = Inr lr" "\<not> lr_malformed lr" "lr_corrupt_entry_id lr = 0" "\<not> lr_hit lr"
          "tk_cacheable (lr_token lr) \<Longrightarrow> st \<and> lr_token lr = lr_token lr0"
        proof (cases cur)
          case True
          have n: "read_fence_snapshot s (shift_obs 17 obs) mp (Some e) \<noteq> Some (b, True) \<or> \<not> ce_negative e \<and> cap < ce_value_len e"
            using False True serves_iff[OF b] unfolding cur_def by auto
          define l where "l = copy_value s (shift_obs 17 obs) mp cap b e pt1 lr0"
          note cs = copy_spec[OF ok1 lv(1), of s "shift_obs 17 obs" mp cap b lr0, folded e_def, folded l_def]
          have "l = lr0 \<or> l = lr0\<lparr>lr_negative := False, lr_value_len := 0, lr_source_xmin := 0, lr_token := (lr_token lr0)\<lparr>tk_cacheable := False\<rparr>\<rparr> \<or>
              l = lr0\<lparr>lr_value := value_bytes pt1 e, lr_negative := False, lr_value_len := 0, lr_source_xmin := 0,
                lr_token := (lr_token lr0)\<lparr>tk_cacheable := False\<rparr>\<rparr>"
            using n unfolding cs by simp
          then have "\<not> lr_malformed l" "lr_corrupt_entry_id l = 0" "\<not> lr_hit l" "tk_cacheable (lr_token l) \<Longrightarrow> lr_token l = lr_token lr0"
            using lr0(1-3) by auto
          moreover have "res = Inr l" "st" using step' True unfolding l_def cur_def by simp_all
          ultimately show ?thesis using that by blast
        qed (use that[of lr0] step' lr0 in auto)
        have "\<not> (length (value_bytes pt1 e) \<le> cap \<and> serves s obs mp (descr e))"
          using False len unfolding serves_def by auto
        note N = this
        show ?thesis unfolding lr(1) sum.case
        proof (intro conjI impI allI)
          assume "tk_cacheable (lr_token lr)"
          then have "token_for s obs mp (lr_token lr) (descr e)" using lr(5) lr0(5) by simp
          then show "\<exists>e v. cells pt' i = Some (e, v) \<and> token_for s obs mp (lr_token lr) e" using ce same(1) by simp
        next
          fix d v assume "cells pt i = Some (d, v)" "serves s obs mp d" "length v \<le> cap"
          then show "lr_hit lr" using back1 N by blast
        qed (use lr(2-4) same c1 G'(4) Some in auto)
      qed
    qed
  qed
qed

section \<open>Fill\<close>

definition replaced :: "nat \<Rightarrow> nat \<Rightarrow> ident \<Rightarrow> cell \<Rightarrow> (ident \<rightharpoonup> cell) \<Rightarrow> (ident \<rightharpoonup> cell) \<Rightarrow> bool" where
  "replaced g g' i c m m' \<longleftrightarrow> m' i = Some c \<and> dom m' \<subseteq> dom m \<and> shifts g g' (m(i := None)) (m'(i := None))"

lemma shifts_except: "shifts g g' m m' \<Longrightarrow> shifts g g' (m(i := None)) ((m'(i \<mapsto> c))(i := None))"
  by (rule shiftsI) (auto dest: shiftsD split: if_splits)

lemma shifts_mono: "shifts g g' m m' \<Longrightarrow> g' \<le> g'' \<Longrightarrow> shifts g g'' m m'"
  by (rule shifts_trans[of g g' m m' g'' m']) (auto intro: shiftsI)

lemma replaced_shifts:
  assumes r: "replaced g g' i c m m'" and i: "m i = Some c0" "dims g g' c0 c1"
  shows "shifts g g' m (m'(i \<mapsto> c1))"
proof (rule shiftsI)
  have T: "shifts g g' (m(i := None)) (m'(i := None))" using r by (auto simp: replaced_def)
  show "g \<le> g'" by (rule shiftsD(1)[OF T])
  fix j
  show "\<not> ce_valid (fst c') \<and> ce_dirty_writers (fst c') = 0 \<and> g < ce_version (fst c') \<and> ce_version (fst c') \<le> g'"
    if "m j = None" "(m'(i \<mapsto> c1)) j = Some c'" for c'
    using that i(1) shiftsD(2)[OF T, of j c'] by (cases "j = i") auto
  show "ce_dirty_writers (fst c2) = 0" if "m j = Some c2" "(m'(i \<mapsto> c1)) j = None" for c2
    using that shiftsD(3)[OF T, of j c2] by (cases "j = i") auto
  show "dims g g' c2 c3" if "m j = Some c2" "(m'(i \<mapsto> c1)) j = Some c3" for c2 c3
    using that i shiftsD(4)[OF T, of j c2 c3] by (cases "j = i") auto
qed

text \<open>The descriptor a fill leaves, with the outcome of the last fence check.\<close>

definition filled :: "read_token \<Rightarrow> bool \<Rightarrow> nat \<Rightarrow> nat \<Rightarrow> nat \<Rightarrow> nat \<Rightarrow> bool \<Rightarrow> cache_entry \<Rightarrow> cache_entry" where
  "filled token negative n source_xmin xid g stored e =
     (let e = drop_lease (e\<lparr>ce_negative := negative, ce_value_len := n, ce_block_len := ce_key_len e + n,
            ce_source_xmin := (if negative then 0 else source_xmin), ce_source_observed_full_xid := xid,
            ce_global_epoch := tk_global_epoch token, ce_relation_version := tk_relation_version token,
            ce_relation_incarnation := tk_relation_incarnation token, ce_version := g, ce_valid := True\<rparr>)
      in if stored then e else drop_lease (e\<lparr>ce_valid := False\<rparr>))"

lemma filled_descr:
  "descr (filled token negative n xmin xid g st e) = filled token negative n xmin xid g st (descr e)"
  by (simp add: filled_def drop_lease_def descr_def Let_def)

lemma fill_spec:
  assumes ok: "part_ok hf Map.empty pt" and eid: "live pt eid" and f: "fitted hf eid n pt gl pt1 gl1"
    and n: "n = (if negative then 0 else length value)" "n \<le> PGLC_VALUE_MAX"
    and t: "tk_relation_slot token = ce_relation_slot (entry_at pt eid)" "tk_slot_generation token = ce_slot_generation (entry_at pt eid)"
    and run: "fill_entry pr s obs mp token eid value negative source_xmin xid pt1 gl1 = (res, pt', gl')"
  shows "case res of Inl err \<Rightarrow> err = Generation_Overflow
    | Inr stored \<Rightarrow> part_ok hf Map.empty pt' \<and> marker_side pt' = marker_side pt \<and> pt_entry_generation pt < pt_entry_generation pt' \<and>
        replaced (pt_entry_generation pt) (pt_entry_generation pt') (ident pt (entry_at pt eid))
          (filled token negative n source_xmin xid (pt_entry_generation pt') stored (descr (entry_at pt eid)),
           if negative then [] else value) (cells pt) (cells pt') \<and>
        (\<forall>rest. counted rest pt gl \<longrightarrow> counted rest pt' gl') \<and>
        stored = (case read_fence_snapshot s obs mp
          (Some (filled token negative n source_xmin xid (pt_entry_generation pt') True (descr (entry_at pt eid)))) of
          None \<Rightarrow> False | Some (after, steady) \<Rightarrow> steady \<and> fence_snapshot_fences_match_token after token)"
proof -
  define e where "e = entry_at pt eid"
  define k where "k = ce_key_len e"
  obtain X M pt0 r M' where F: "sheds hf X (spared eid) pt gl pt0 gl1" "blocks_ok X M pt0" "refits eid n M pt0 r (pt_arena pt1) M'"
    and pt1: "pt1 = (set_entry eid (e\<lparr>ce_block_ref := r, ce_block_len := k + n\<rparr>) pt0)\<lparr>pt_arena := pt_arena pt1\<rparr>"
    using f unfolding fitted_def e_def[symmetric] k_def[symmetric] by blast
  have at0: "entry_at pt0 eid = e" "live pt0 eid" using shedsD(7,8)[OF F(1) eid] by (simp_all add: spared_def e_def)
  have rng: "eid \<noteq> 0" "eid \<le> pt_capacity pt0" using at0(2) by (auto simp: live_def)
  define e1 where "e1 = e\<lparr>ce_block_ref := r, ce_block_len := k + n\<rparr>"
  have at1: "entry_at pt1 eid = e1" using rng by (subst pt1) (simp add: set_entry_def e1_def)
  have sh: "entry_shape e" using live_shape[OF ok eid] by (simp add: e_def)
  have rel: "arena_rel (pt_arena pt1) M'" "M' r = Some (k + n)" using F(3) at0(1) unfolding refits_def k_def by auto
  have blk: "pglc_arena_block (pt_arena pt1) r = Some r" "k + n \<le> pglc_arena_block_class (pt_arena pt1) r"
    using live_info(1,2)[OF rel(1), of r] rel(2) arena_relD(5)[OF rel] by auto
  define vs where "vs = (if negative then [] else value)"
  have vs: "length vs = n" using n by (simp add: vs_def)
  define a where "a = (pt_arena pt1)\<lparr>memory := store_bytes (memory (pt_arena pt1)) (r + k) vs\<rparr>"
  have mem: "(if \<not> negative \<and> 0 < length value then pt1\<lparr>pt_arena := (pt_arena pt1)\<lparr>memory :=
      store_bytes (memory (pt_arena pt1)) (r + k) value\<rparr>\<rparr> else pt1) = pt1\<lparr>pt_arena := a\<rparr>"
    by (auto simp: a_def vs_def)
  have R: "refits eid n M pt0 r a M'"
    using refits_write[OF F(3), of vs] vs unfolding a_def at0(1) k_def by simp
  have un: "u16 n = n" using n(2) by simp
  define e2 where "e2 = e1\<lparr>ce_negative := negative, ce_value_len := n, ce_source_xmin := (if negative then 0 else source_xmin),
     ce_source_observed_full_xid := xid, ce_global_epoch := tk_global_epoch token, ce_relation_version := tk_relation_version token,
     ce_relation_incarnation := tk_relation_incarnation token\<rparr>"
  have e2: "e1\<lparr>ce_negative := negative, ce_value_len := u16 n, ce_source_xmin := (if negative then 0 else source_xmin),
     ce_source_observed_full_xid := xid, ce_global_epoch := tk_global_epoch token, ce_relation_version := tk_relation_version token,
     ce_relation_incarnation := tk_relation_incarnation token, ce_relation_slot := tk_relation_slot token,
     ce_slot_generation := tk_slot_generation token\<rparr> = e2"
    using t un unfolding e2_def e1_def e_def by simp
  have g0: "pt_entry_generation pt1 = pt_entry_generation pt0" by (subst pt1) simp
  define p2 where "p2 = set_entry eid e2 (pt1\<lparr>pt_arena := a\<rparr>)"
  have gen: "next_entry_generation p2 = (if pt_entry_generation pt0 = UINT64_MAX then (Inl Generation_Overflow, p2)
      else (Inr (pt_entry_generation pt0 + 1), p2\<lparr>pt_entry_generation := pt_entry_generation pt0 + 1\<rparr>))"
    unfolding next_entry_generation_def by (simp add: p2_def g0)
  have e1f: "ce_block_ref e1 = r" "ce_key_len e1 = k" by (simp_all add: e1_def k_def)
  note step = run[unfolded fill_entry_def Let_def at1 n(1)[symmetric] e1f blk(1) option.case if_not_P[OF leD[OF blk(2)]] mem e2
    p2_def[symmetric] gen]
  show ?thesis
  proof (cases "pt_entry_generation pt0 = UINT64_MAX")
    case True
    then show ?thesis using step by auto
  next
    case False
    define g where "g = pt_entry_generation pt0 + 1"
    define e3 where "e3 = filled token negative n source_xmin xid g True e1"
    define st where "st = (case read_fence_snapshot s obs mp (Some e3) of
          None \<Rightarrow> False | Some (after, steady) \<Rightarrow> steady \<and> fence_snapshot_fences_match_token after token)"
    define e4 where "e4 = (filled token negative n source_xmin xid g st e1)\<lparr>ce_last_access := u64 (gl_clock gl1 + 1)\<rparr>"
    have e3': "(drop_lease (e2\<lparr>ce_version := g\<rparr>))\<lparr>ce_valid := True\<rparr> = e3"
      unfolding e3_def filled_def drop_lease_def e2_def Let_def by (simp add: e1_def k_def)
    have e4': "(if st then e3 else drop_lease (e3\<lparr>ce_valid := False\<rparr>))\<lparr>ce_last_access := u64 (gl_clock gl1 + 1)\<rparr> = e4"
      unfolding e4_def e3_def filled_def Let_def by simp
    have r: "res = Inr st" "pt' = set_entry eid e4 (p2\<lparr>pt_entry_generation := g\<rparr>)" "gl' = gl1\<lparr>gl_clock := u64 (gl_clock gl1 + 1)\<rparr>"
      using step unfolding if_not_P[OF False] g_def[symmetric] prod.case sum.case e3' st_def[symmetric] e4' by simp_all
    have pt': "pt' = (set_entry eid e4 pt0)\<lparr>pt_arena := a, pt_entry_generation := g\<rparr>"
      unfolding r(2) p2_def by (subst pt1) (simp add: set_entry_def)
    have f4: "core e4 = core (e1\<lparr>ce_negative := negative, ce_value_len := n\<rparr>)" "ce_version e4 = g"
      unfolding e4_def filled_def Let_def drop_lease_def by (simp_all add: core_def e1_def k_def)
    have "ce_in_use e" "negative \<longrightarrow> n = 0" using n eid by (simp_all add: live_def e_def)
    then have P: "part_ok hf Map.empty pt'" "live pt' = live pt0" "only_entry eid pt0 pt'" "entry_at pt' eid = e4"
      "ident pt' e4 = ident pt0 e"
      using refit_ok[OF shedsD(1)[OF F(1)] F(2) at0(2) R _ _ _ _ _ _ _ _ _ _ n(2) _ pt'] f4 sh
      unfolding at0(1) k_def[symmetric] by (simp_all add: core_def e1_def k_def live_def)
    have idn: "ident pt0 e = ident pt e" using sheds_keeps(1)[OF F(1) ok at0(2)] unfolding at0(1) e_def .
    have fd: "descr (filled token negative n source_xmin xid g b e1) = filled token negative n source_xmin xid g b (descr e)" for b
      unfolding filled_descr by (simp add: filled_def e1_def descr_def k_def drop_lease_def)
    have d4: "descr e4 = filled token negative n source_xmin xid g st (descr e)"
      unfolding fd[symmetric] e4_def by (simp add: descr_def)
    have "value_bytes pt' e4 = load_bytes (memory a) (r + k) (length vs)"
      using f4(1) vs by (simp add: value_bytes_def pt' core_def e1_def k_def)
    then have v4: "value_bytes pt' e4 = vs" by (simp add: a_def)
    have C: "cells pt' = (cells pt0)(ident pt e \<mapsto> (filled token negative n source_xmin xid g st (descr e), vs))"
      using only_cells[OF shedsD(1)[OF F(1)] P(1,3,2) at0(2)] P(5) unfolding at0(1) P(4) idn d4 v4 by simp
    have g: "pt_entry_generation pt' = g" "pt_entry_generation pt0 \<le> g" "pt_entry_generation pt < g"
      using shedsD(9)[OF F(1)] by (simp_all add: pt' g_def)
    have "replaced (pt_entry_generation pt) g (ident pt e)
        (filled token negative n source_xmin xid g st (descr e), vs) (cells pt) (cells pt')"
      unfolding replaced_def C using shifts_except[OF shifts_mono[OF sheds_shifts[OF F(1) ok] g(2)]] sheds_dom[OF F(1) ok]
        cells_live[OF ok eid refl] unfolding e_def by auto
    moreover have "st = (case read_fence_snapshot s obs mp (Some (filled token negative n source_xmin xid g True (descr e))) of
        None \<Rightarrow> False | Some (after, steady) \<Rightarrow> steady \<and> fence_snapshot_fences_match_token after token)"
      unfolding fd[symmetric] snapshot_descr st_def e3_def ..
    moreover have "marker_side pt' = marker_side pt" "counted rest pt gl \<Longrightarrow> counted rest pt' gl'" for rest
      using shedsD(3)[OF F(1)] shedsD(10)[OF F(1), of rest] by (simp_all add: pt' r(3) counted_def)
    ultimately show ?thesis using r(1) P(1) g unfolding e_def vs_def by simp
  qed
qed

lemma may_fill_descr [simp]: "may_fill s obs mp token load_id (descr e) = may_fill s obs mp token load_id e"
  by (simp add: may_fill_def)

lemma may_fill_tags:
  assumes "may_fill s obs mp token load_id e"
  shows "tk_relation_slot token = ce_relation_slot e" "tk_slot_generation token = ce_slot_generation e"
    "ce_loading e" "ce_load_id e = load_id" "ce_version e = tk_key_version token"
proof -
  obtain b where b: "read_fence_snapshot s obs mp (Some e) = Some (b, True)" "fence_snapshot_matches_token b token" "same_mapping mp e"
    using assms by (auto simp: may_fill_def split: option.splits)
  have "sn_relation_slot b = mp_relation_slot mp" "sn_slot_generation b = mp_relation_slot_generation mp"
    using b(1) by (auto simp: read_fence_snapshot_def Let_def split: if_splits)
  then show "tk_relation_slot token = ce_relation_slot e" "tk_slot_generation token = ce_slot_generation e"
    using b(2,3) by (simp_all add: fence_snapshot_matches_token_def same_mapping_def)
qed (use assms in \<open>simp_all add: may_fill_def\<close>)

lemma gave_up_calm:
  assumes ok: "part_ok hf Map.empty pt" and eid: "live pt eid" and gu: "gave_up hf eid pt gl pt' gl'"
  shows "calm hf pt gl pt' gl'"
proof -
  define e where "e = entry_at pt eid"
  obtain pt0 v where s: "sheds hf Map.empty (spared eid) pt gl pt0 gl'" and v: "v \<longrightarrow> ce_valid e"
    and pt': "pt' = set_entry eid (drop_lease (e\<lparr>ce_valid := v\<rparr>)) pt0"
    using gu unfolding gave_up_def e_def[symmetric] by blast
  have at: "entry_at pt0 eid = e" "live pt0 eid" using shedsD(7,8)[OF s eid] by (simp_all add: spared_def e_def)
  have "dims g g (e, w) (drop_lease (e\<lparr>ce_valid := v\<rparr>), w)" for g w
    using v by (simp add: dims_def newer_def drop_lease_def payload_of_def)
  note d = this
  have c: "core (drop_lease (e\<lparr>ce_valid := v\<rparr>)) = core (entry_at pt0 eid)" unfolding at(1) by simp
  have "calm hf pt0 gl' pt' gl'" unfolding pt'
    by (rule calm_set[OF shedsD(1)[OF s] at(2) c]) (unfold at(1), rule d)
  then show ?thesis using calm_trans[OF calm_sheds[OF s ok]] by blast
qed

text \<open>
  A fill that is accepted replaces the cell of its key; seen without the new value it is a
  step that publishes nothing. A fill that is not accepted is such a step.
\<close>

definition store_post where
  "store_post hf s obs mp i token value negative load_id xmin xid pt gl stored pt' gl' \<longleftrightarrow>
     part_ok hf Map.empty pt' \<and> marker_side pt' = marker_side pt \<and> (\<forall>rest. counted rest pt gl \<longrightarrow> counted rest pt' gl') \<and>
     unmarked hf pt pt' \<and>
     (if stored then
        (\<exists>e v. cells pt i = Some (e, v) \<and> may_fill s (shift_obs 1 obs) mp token load_id e \<and> tk_cacheable token \<and>
           pt_entry_generation pt < pt_entry_generation pt' \<and>
           (\<exists>after. read_fence_snapshot s (shift_obs 14 obs) mp (Some (filled token negative
              (if negative then 0 else length value) xmin xid (pt_entry_generation pt') True e)) = Some (after, True) \<and>
              fence_snapshot_fences_match_token after token) \<and>
           cells pt' i = Some (filled token negative (if negative then 0 else length value) xmin xid (pt_entry_generation pt') True e,
              if negative then [] else value) \<and>
           shifts (pt_entry_generation pt) (pt_entry_generation pt') (cells pt) ((cells pt')(i \<mapsto> (restamped (pt_entry_generation pt') e, v))))
      else shifts (pt_entry_generation pt) (pt_entry_generation pt') (cells pt) (cells pt'))"

lemma store_spec:
  assumes ok: "part_ok hf Map.empty pt" and h: "hashes hf pr mp key"
    and run: "pglc_cache_store pr s obs fs nows xid mp key token value negative load_id xmin pt gl = (res, pt', gl')"
  shows "case res of Inl err \<Rightarrow> err = Generation_Overflow
    | Inr stored \<Rightarrow> store_post hf s obs mp (mapped pr mp key) token value negative load_id xmin xid pt gl stored pt' gl'"
proof -
  define i where "i = mapped pr mp key"
  define n where "n = (if negative then 0 else length value)"
  have quiet: "store_post hf s obs mp i token value negative load_id xmin xid pt gl False pt1 gl1" if "calm hf pt gl pt1 gl1" for pt1 gl1
    using that unfolding store_post_def calm_def by simp
  note refuse = quiet[OF calm_refl[OF ok refl]]
  define guard where "guard \<longleftrightarrow> \<not> tk_cacheable token \<or> \<not> tk_has_entry token \<or> PGLC_VALUE_MAX < length value \<or>
         mp_config_generation mp \<noteq> tk_config_generation token \<or> config_generation (obs 0) \<noteq> tk_config_generation token"
  note step = run[unfolded pglc_cache_store_def guard_def[symmetric] n_def[symmetric]]
  consider (no) "res = Inr False" "pt' = pt" "gl' = gl"
    | (go) eid where "\<not> guard" "get_cache_entry pr s mp key pt = Some eid" "may_fill s (shift_obs 1 obs) mp token load_id (entry_at pt eid)"
    using step by (cases guard; cases "get_cache_entry pr s mp key pt") (auto split: if_splits)
  then show ?thesis
  proof cases
    case no
    then show ?thesis using refuse unfolding i_def by simp
  next
    case (go eid)
    define e where "e = entry_at pt eid"
    have lv: "live pt eid" "ident pt e = i" using get_entry_iff[OF ok h] go(2) by (auto simp: i_def e_def)
    have ce: "cells pt i = Some (descr e, value_bytes pt e)" using cells_live[OF ok lv(1)] lv(2) by (simp add: e_def)
    have n: "n \<le> PGLC_VALUE_MAX" using go(1) by (auto simp: guard_def n_def)
    obtain fr pt1 gl1 where fit: "fit_block pr s fs nows eid n pt gl = (fr, pt1, gl1)" using prod_cases3 by blast
    note F = fit_spec[OF ok lv(1) n fit]
    have gf: "\<not> (\<not> may_fill s (shift_obs 1 obs) mp token load_id (entry_at pt eid))" using go(3) by simp
    note step1 = step[unfolded if_not_P[OF go(1)] go(2) option.case fit if_not_P[OF gf] prod.case]
    show ?thesis
    proof (cases fr)
      case (Inl err)
      then show ?thesis using step1 F by auto
    next
      case (Inr b)
      show ?thesis
      proof (cases b)
        case False
        then have "res = Inr False" "pt' = pt1" "gl' = gl1" using step1 Inr by simp_all
        then show ?thesis using quiet[OF gave_up_calm[OF ok lv(1)]] F Inr False unfolding i_def by simp
      next
        case True
        have ft: "fitted hf eid n pt gl pt1 gl1" using F Inr True by simp
        obtain sr pt2 gl2 where fe: "fill_entry pr s (shift_obs 14 obs) mp token eid value negative xmin xid pt1 gl1 = (sr, pt2, gl2)"
          using prod_cases3 by blast
        note S = fill_spec[OF ok lv(1) ft n_def n _ _ fe, folded e_def, OF may_fill_tags(1,2)[OF go(3), folded e_def], unfolded lv(2)]
        show ?thesis
        proof (cases sr)
          case Inl2: (Inl err)
          then show ?thesis using step1 Inr True fe S by auto
        next
          case (Inr stored)
          have r: "res = Inr stored" "pt' = pt2" "gl' = (if stored \<and> negative then add_stat pr negative_writes gl2 else gl2)"
            using step1 \<open>fr = Inr b\<close> True fe Inr by simp_all
          define g where "g = pt_entry_generation pt2"
          have S': "part_ok hf Map.empty pt2" "marker_side pt2 = marker_side pt" "pt_entry_generation pt < g"
            "replaced (pt_entry_generation pt) g i (filled token negative n xmin xid g stored (descr e), if negative then [] else value) (cells pt) (cells pt2)"
            "\<And>rest. counted rest pt gl \<Longrightarrow> counted rest pt2 gl2"
            "stored = (case read_fence_snapshot s (shift_obs 14 obs) mp (Some (filled token negative n xmin xid g True (descr e))) of
               None \<Rightarrow> False | Some (after, steady) \<Rightarrow> steady \<and> fence_snapshot_fences_match_token after token)"
            using S unfolding Inr g_def sum.case by blast+
          have cnt: "counted rest pt gl \<Longrightarrow> counted rest pt2 gl'" for rest using S'(5)[of rest] by (simp add: r(3) counted_def)
          have ci: "cells pt2 i = Some (filled token negative n xmin xid g stored (descr e), if negative then [] else value)"
            using S'(4) by (simp add: replaced_def)
          have D: "dims (pt_entry_generation pt) g (descr e, value_bytes pt e) (restamped g (descr e), value_bytes pt e)"
            "dims (pt_entry_generation pt) g (descr e, value_bytes pt e) (filled token negative n xmin xid g False (descr e), w)" for w
            using S'(3) by (simp_all add: dims_def newer_def restamped_def filled_def drop_lease_def Let_def)
          note sh = replaced_shifts[OF S'(4) ce]
          have um: "unmarked hf pt pt2" using S'(4) unmarked_dom by (simp add: replaced_def)
          show ?thesis
          proof (cases stored)
            case True
            have "\<exists>after. read_fence_snapshot s (shift_obs 14 obs) mp (Some (filled token negative n xmin xid g True (descr e))) = Some (after, True) \<and>
                fence_snapshot_fences_match_token after token"
              using S'(6) True by (auto split: option.splits)
            moreover have "tk_cacheable token" using go(1) by (simp add: guard_def)
            ultimately show ?thesis
              using r(1,2) True S'(1-3) um cnt ce ci sh[OF D(1)] go(3)
              unfolding store_post_def n_def[symmetric] g_def i_def e_def by simp
          next
            case False
            have "shifts (pt_entry_generation pt) g (cells pt) (cells pt2)"
              using sh[OF D(2)[of "if negative then [] else value"]] fun_upd_idem[of "cells pt2" i, OF ci] False by simp
            then show ?thesis using r(1,2) False S'(1-3) um cnt unfolding store_post_def g_def by simp
          qed
        qed
      qed
    qed
  qed
qed

section \<open>Leases\<close>

definition leased :: "read_token \<Rightarrow> int \<Rightarrow> nat \<Rightarrow> cache_entry \<Rightarrow> cache_entry" where
  "leased token now load_id e = e\<lparr>ce_loading := True, ce_load_started := now, ce_valid := False,
     ce_global_epoch := tk_global_epoch token, ce_relation_version := tk_relation_version token,
     ce_relation_incarnation := tk_relation_incarnation token, ce_load_id := load_id\<rparr>"

definition next_load_id :: "nat \<Rightarrow> nat" where
  "next_load_id n = (if u64 (n + 1) = 0 then 1 else u64 (n + 1))"

lemma leased_core [simp]: "core (leased token now load_id e) = core e"
  by (simp add: leased_def core_def)

lemma leased_descr: "descr (leased token now load_id e) = leased token now load_id (descr e)"
  by (simp add: leased_def descr_def)

lemma drop_lease_descr: "descr (drop_lease e) = drop_lease (descr e)"
  by (simp add: drop_lease_def descr_def)

definition stale_lease :: "read_token \<Rightarrow> cache_entry \<Rightarrow> bool" where
  "stale_lease token e \<longleftrightarrow> ce_loading e \<and> (ce_global_epoch e \<noteq> tk_global_epoch token \<or> ce_relation_version e \<noteq> tk_relation_version token \<or>
     ce_relation_incarnation e \<noteq> tk_relation_incarnation token \<or> ce_version e \<noteq> tk_key_version token)"

lemma take_lease_eq:
  "take_lease pr s obs now mp token eid pt gl =
    (let e = leased token now (next_load_id (ce_load_id (entry_at pt eid))) (entry_at pt eid) in
     if (case read_fence_snapshot s obs mp (Some e) of None \<Rightarrow> False | Some (after, steady) \<Rightarrow> steady \<and> fence_snapshot_matches_token after token)
     then ((PGLC_LOAD_OWNER, next_load_id (ce_load_id (entry_at pt eid))), set_entry eid e pt, add_stat pr singleflight_leaders gl)
     else ((PGLC_LOAD_RETRY, 0), set_entry eid (drop_lease e) pt, gl))"
  unfolding take_lease_def leased_def next_load_id_def Let_def by simp

text \<open>What a claim establishes: an owner has the only lease, under the tags of its token.\<close>

definition claim_post where
  "claim_post hf s obs now mp i token pt gl cl load_id pt' gl' \<longleftrightarrow> calm hf pt gl pt' gl' \<and>
     (cl \<noteq> PGLC_LOAD_OWNER \<longrightarrow> load_id = 0) \<and>
     (cl = PGLC_LOAD_OWNER \<longrightarrow> (\<exists>e v. cells pt i = Some (e, v) \<and> (ce_loading e \<longrightarrow> stale_lease token e) \<and> ce_version e = tk_key_version token \<and>
        load_id = next_load_id (ce_load_id (if ce_loading e then drop_lease e else e)) \<and>
        cells pt' = (cells pt)(i \<mapsto> (leased token now load_id e, v)) \<and> tk_cacheable token \<and> ce_dirty_writers e = 0 \<and>
        marker_writers pt (mark hf i) = 0 \<and>
        (\<exists>after. read_fence_snapshot s (shift_obs 19 obs) mp (Some (leased token now load_id e)) = Some (after, True) \<and>
           fence_snapshot_matches_token after token)))"

lemma load_id_pos: "next_load_id n \<noteq> 0"
  by (simp add: next_load_id_def)

lemma u64_lt: "u64 n < 2 ^ 64"
  by (simp add: u64_def)

lemma active_inactive:
  assumes "cache_load_is_active_locked s now eid pt = (Inr False, pt')" "live pt eid" "ce_version (entry_at pt' eid) = v" "ce_version (entry_at pt eid) = v"
    "ce_version (entry_at pt eid) \<le> pt_entry_generation pt"
  shows "pt' = pt" "\<not> ce_loading (entry_at pt eid)"
proof -
  have rng: "eid - 1 < pt_capacity pt" "eid \<noteq> 0" using assms(2) by (auto simp: live_def)
  have "\<not> ce_loading (entry_at pt eid)"
  proof
    assume l: "ce_loading (entry_at pt eid)"
    then have "ce_version (entry_at pt' eid) = pt_entry_generation pt + 1"
      using assms(1) rng unfolding cache_load_is_active_locked_def next_entry_generation_def Let_def set_entry_def
      by (auto split: if_splits)
    then show False using assms(3-5) by simp
  qed
  then show "\<not> ce_loading (entry_at pt eid)" "pt' = pt" using assms(1) unfolding cache_load_is_active_locked_def by (simp_all add: Let_def)
qed

text \<open>The invariant of a partition: entries, markers, and versions given out by the counter.\<close>

definition versions_ok :: "nat \<Rightarrow> (ident \<rightharpoonup> cell) \<Rightarrow> bool" where
  "versions_ok g m \<longleftrightarrow> (\<forall>i c. m i = Some c \<longrightarrow> ce_version (fst c) \<le> g)"

definition cache_ok :: "(ident \<Rightarrow> nat) \<Rightarrow> partition \<Rightarrow> bool" where
  "cache_ok hf pt \<longleftrightarrow> part_ok hf Map.empty pt \<and> markers_ok pt \<and> versions_ok (pt_entry_generation pt) (cells pt)"

lemma cache_okD: "cache_ok hf pt \<Longrightarrow> part_ok hf Map.empty pt" "cache_ok hf pt \<Longrightarrow> markers_ok pt"
  "cache_ok hf pt \<Longrightarrow> cells pt i = Some c \<Longrightarrow> ce_version (fst c) \<le> pt_entry_generation pt"
  unfolding cache_ok_def versions_ok_def by blast+

lemma shifts_versions: "versions_ok g m \<Longrightarrow> shifts g g' m m' \<Longrightarrow> versions_ok g' m'"
  unfolding versions_ok_def
proof (intro allI impI)
  fix i c' assume v: "\<forall>i c. m i = Some c \<longrightarrow> ce_version (fst c) \<le> g" and s: "shifts g g' m m'" and c': "m' i = Some c'"
  show "ce_version (fst c') \<le> g'"
  proof (cases "m i")
    case None
    then show ?thesis using shiftsD(2)[OF s None c'] by simp
  next
    case (Some c)
    then have "ce_version (fst c) \<le> g" "dims g g' c c'" using v shiftsD(4)[OF s Some c'] by blast+
    then show ?thesis using shiftsD(1)[OF s] by (auto simp: dims_def newer_def)
  qed
qed

lemma calm_ok: "cache_ok hf pt \<Longrightarrow> calm hf pt gl pt' gl' \<Longrightarrow> cache_ok hf pt'"
  unfolding cache_ok_def using calmD(1,2,4)[of hf pt gl pt' gl'] shifts_versions markers_ok_marker_side(1) by metis

lemma live_version: "cache_ok hf pt \<Longrightarrow> live pt x \<Longrightarrow> ce_version (entry_at pt x) \<le> pt_entry_generation pt"
  using cache_okD(3)[of hf pt] cells_live[OF cache_okD(1)[of hf pt] _ refl] by fastforce

lemma end_stale_spec:
  fixes token
  assumes ok: "cache_ok hf pt" and eid: "live pt eid"
  defines "pt1 \<equiv> end_stale_lease token eid pt"
  shows "calm hf pt gl pt1 gl" "live pt1 = live pt" "pt_entry_generation pt1 = pt_entry_generation pt"
    "entry_at pt1 eid = (if stale_lease token (entry_at pt eid) then drop_lease (entry_at pt eid) else entry_at pt eid)"
    "cells pt1 = (cells pt)(ident pt (entry_at pt eid) \<mapsto> (descr (entry_at pt1 eid), value_bytes pt (entry_at pt eid)))"
    "ident pt1 (entry_at pt1 eid) = ident pt (entry_at pt eid)" "value_bytes pt1 (entry_at pt1 eid) = value_bytes pt (entry_at pt eid)"
proof -
  note ok1 = cache_okD(1)[OF ok]
  define e where "e = (if stale_lease token (entry_at pt eid) then drop_lease (entry_at pt eid) else entry_at pt eid)"
  have p: "pt1 = set_entry eid e pt"
    unfolding pt1_def end_stale_lease_def Let_def stale_lease_def[symmetric] e_def by (simp add: set_entry_def)
  have c: "core e = core (entry_at pt eid)" by (simp add: e_def)
  have d: "dims g g (entry_at pt eid, v) (e, v)" for g v
    by (simp add: e_def dims_def newer_def drop_lease_def payload_of_def)
  note T = tweak_set[OF ok1 eid c]
  show "calm hf pt gl pt1 gl" unfolding p by (rule calm_set[OF ok1 eid c d])
  show "live pt1 = live pt" "pt_entry_generation pt1 = pt_entry_generation pt" unfolding p using T(2) by simp_all
  show at: "entry_at pt1 eid = (if stale_lease token (entry_at pt eid) then drop_lease (entry_at pt eid) else entry_at pt eid)"
    using T(4) unfolding p e_def[symmetric] .
  show "cells pt1 = (cells pt)(ident pt (entry_at pt eid) \<mapsto> (descr (entry_at pt1 eid), value_bytes pt (entry_at pt eid)))"
    using T(5) unfolding p T(4) .
  show "ident pt1 (entry_at pt1 eid) = ident pt (entry_at pt eid)" unfolding p T(4) by (rule T(6))
  show "value_bytes pt1 (entry_at pt1 eid) = value_bytes pt (entry_at pt eid)"
    unfolding p T(4) value_bytes_def using c by (simp add: core_def)
qed

lemma active_calm:
  assumes ok: "part_ok hf Map.empty pt" and eid: "live pt eid" and run: "cache_load_is_active_locked s now eid pt = (r, pt')"
  shows "calm hf pt gl pt' gl" "live pt' = live pt" "r = Inl err \<Longrightarrow> err = Generation_Overflow"
proof -
  have K: "False \<longrightarrow> \<not> ce_loading (entry_at pt eid) \<or>
      \<not> TimestampDifferenceExceeds (ce_load_started (entry_at pt eid)) now (cache_load_lease_ms s)" by simp
  note A = load_is_active_spec(1,2)[where K = "\<lambda>_ _. False", OF ok eid run K] and
    B = load_is_active_spec(4)[where K = "\<lambda>_ _. False", OF ok eid run K]
  show lv: "live pt' = live pt" by (rule A(2))
  have "shifts (pt_entry_generation pt) (pt_entry_generation pt') (cells pt) (cells pt')"
    by (rule sheds_shifts_if[OF A(1) ok]) (simp add: lv)
  then show "calm hf pt gl pt' gl" using shedsD(1,3,10)[OF A(1)] unmarked_dom[OF sheds_dom[OF A(1) ok]] by (simp add: calm_def)
  show "r = Inl err \<Longrightarrow> err = Generation_Overflow" using B by simp
qed

lemma claim_spec:
  assumes ok: "cache_ok hf pt" and h: "hashes hf pr mp key"
    and run: "pglc_cache_claim_load pr s obs now mp key token pt gl = (res, pt', gl')"
  shows "case res of Inl err \<Rightarrow> err = Generation_Overflow
    | Inr (cl, load_id) \<Rightarrow> claim_post hf s obs now mp (mapped pr mp key) token pt gl cl load_id pt' gl'"
proof -
  define i where "i = mapped pr mp key"
  note po = cache_okD(1)[OF ok]
  have quiet: "claim_post hf s obs now mp i token pt gl cl 0 pt1 gl" if "calm hf pt gl pt1 gl" "cl \<noteq> PGLC_LOAD_OWNER" for pt1 cl
    using that by (simp add: claim_post_def)
  note idle = quiet[OF calm_refl[OF po refl]]
  define entry where "entry = get_cache_entry pr s mp key pt"
  define e0 where "e0 = map_option (entry_at pt) entry"
  define mid where "mid = cache_marker_find pt (cache_key_hash64 pr (my_database_id pr) (mp_nspace mp) key (u16 (strnlen key PGLC_KEY_MAX))) key
    (u16 (strnlen key PGLC_KEY_MAX)) (mp_relation_slot mp) (mp_relation_slot_generation mp)"
  note step = run[unfolded pglc_cache_claim_load_def Let_def entry_def[symmetric] e0_def[symmetric] mid_def[symmetric]]
  consider (bp) "res = Inr (PGLC_LOAD_BYPASS, 0)" "pt' = pt" "gl' = gl" | (re) "res = Inr (PGLC_LOAD_RETRY, 0)" "pt' = pt" "gl' = gl"
    | (go) eid b where "entry = Some eid" "tk_cacheable token" "read_fence_snapshot s obs mp (Some (entry_at pt eid)) = Some (b, True)"
        "fence_snapshot_matches_token b token" "ce_dirty_writers (entry_at pt eid) = 0" "mid = 0"
        "(case cache_load_is_active_locked s now eid (end_stale_lease token eid pt) of
                 (Inl err, pt) \<Rightarrow> (Inl err, pt, gl)
               | (Inr True, pt) \<Rightarrow> (Inr (PGLC_LOAD_WAIT, 0), pt, gl)
               | (Inr False, pt) \<Rightarrow>
                   if ce_version (entry_at pt eid) \<noteq> tk_key_version token then (Inr (PGLC_LOAD_RETRY, 0), pt, gl)
                   else (case take_lease pr s (shift_obs 19 obs) now mp token eid pt gl of
                           (r, pt, gl) \<Rightarrow> (Inr r, pt, gl))) = (res, pt', gl')"
  proof (cases "\<not> tk_cacheable token \<or> \<not> tk_has_entry token \<or> pglc_relation_states s \<le> mp_relation_slot mp")
    case True
    then show ?thesis using step that(1) by simp
  next
    case False
    note s1 = step[unfolded if_not_P[OF False]]
    obtain b st where b: "read_fence_snapshot s obs mp e0 = Some (b, st)"
      using False by (auto simp: read_fence_snapshot_def Let_def)
    note s2 = s1[unfolded b option.case prod.case]
    show ?thesis
    proof (cases entry)
      case None
      then show ?thesis using s2 that(1,2) by (auto split: if_splits)
    next
      case (Some eid)
      note s3 = s2[unfolded e0_def Some option.map option.case]
      show ?thesis
      proof (cases "res = Inr (PGLC_LOAD_BYPASS, 0) \<and> pt' = pt \<and> gl' = gl \<or> res = Inr (PGLC_LOAD_RETRY, 0) \<and> pt' = pt \<and> gl' = gl")
        case no: False
        show ?thesis
        proof (rule that(3)[OF Some])
          show "tk_cacheable token" using False by blast
          show "read_fence_snapshot s obs mp (Some (entry_at pt eid)) = Some (b, True)" "fence_snapshot_matches_token b token"
            "ce_dirty_writers (entry_at pt eid) = 0" "mid = 0"
            using s3 no b unfolding e0_def Some by (auto split: if_splits)
          show "(case cache_load_is_active_locked s now eid (end_stale_lease token eid pt) of
                 (Inl err, pt) \<Rightarrow> (Inl err, pt, gl)
               | (Inr True, pt) \<Rightarrow> (Inr (PGLC_LOAD_WAIT, 0), pt, gl)
               | (Inr False, pt) \<Rightarrow>
                   if ce_version (entry_at pt eid) \<noteq> tk_key_version token then (Inr (PGLC_LOAD_RETRY, 0), pt, gl)
                   else (case take_lease pr s (shift_obs 19 obs) now mp token eid pt gl of
                           (r, pt, gl) \<Rightarrow> (Inr r, pt, gl))) = (res, pt', gl')"
            using s3 no by (auto split: if_splits)
        qed
      qed (use that(1,2) in auto)
    qed
  qed
  then show ?thesis
  proof cases
    case bp
    then show ?thesis using idle unfolding i_def by simp
  next
    case re
    then show ?thesis using idle unfolding i_def by simp
  next
    case (go eid b)
    define e where "e = entry_at pt eid"
    have lv: "live pt eid" "ident pt e = i" using get_entry_iff[OF po h] go(1) by (auto simp: i_def e_def entry_def)
    have ce: "cells pt i = Some (descr e, value_bytes pt e)" using cells_live[OF po lv(1)] lv(2) by (simp add: e_def)
    have ver: "ce_version e = tk_key_version token"
      using go(3,4) by (auto simp: read_fence_snapshot_def Let_def fence_snapshot_matches_token_def e_def split: if_splits)
    have mw: "marker_writers pt (mark hf i) = 0"
      using go(6) marker_find_spec(1)[OF cache_okD(2)[OF ok], of key] h key_len_exact[of key]
      by (simp add: mid_def hashes_def i_def mark_def mapped_def)
    define pt1 where "pt1 = end_stale_lease token eid pt"
    note E = end_stale_spec(2-7)[OF ok lv(1), of token, folded pt1_def e_def] and E1 = end_stale_spec(1)[OF ok lv(1), of gl token, folded pt1_def]
    note ok1 = calm_ok[OF ok E1]
    have lv1: "live pt1 eid" using E(1) lv(1) by simp
    obtain ar pt2 where ac: "cache_load_is_active_locked s now eid pt1 = (ar, pt2)" by fastforce
    note A = active_calm[OF cache_okD(1)[OF ok1] lv1 ac]
    have c2: "calm hf pt gl pt2 gl" by (rule calm_trans[OF E1 A(1)])
    note st = go(7)[folded pt1_def, unfolded ac prod.case]
    show ?thesis
    proof (cases ar)
      case (Inl err)
      then show ?thesis using st A(3) by auto
    next
      case (Inr active)
      show ?thesis
      proof (cases "active \<or> ce_version (entry_at pt2 eid) \<noteq> tk_key_version token")
        case True
        then show ?thesis using st Inr quiet[OF c2] unfolding i_def by (auto split: if_splits bool.splits)
      next
        case False
        have e1: "entry_at pt1 eid = (if stale_lease token e then drop_lease e else e)" by (rule E(3))
        have v1: "ce_version (entry_at pt1 eid) = tk_key_version token" using ver unfolding e1 by (simp add: drop_lease_def)
        have act: "cache_load_is_active_locked s now eid pt1 = (Inr False, pt2)" "ce_version (entry_at pt2 eid) = tk_key_version token"
          using ac Inr False by simp_all
        note I = active_inactive[OF act(1) lv1 act(2) v1 live_version[OF ok1 lv1]]
        have stale: "ce_loading e \<longrightarrow> stale_lease token e" using I(2) unfolding e1 by (auto split: if_splits)
        have e1': "entry_at pt1 eid = (if ce_loading e then drop_lease e else e)"
          using stale unfolding e1 by (auto simp: stale_lease_def)
        define lid where "lid = next_load_id (ce_load_id (entry_at pt1 eid))"
        define le where "le = leased token now lid e"
        have le: "leased token now lid (entry_at pt1 eid) = le"
          unfolding e1' le_def by (simp add: leased_def drop_lease_def)
        have st': "(res, pt', gl') = (case take_lease pr s (shift_obs 19 obs) now mp token eid pt1 gl of (r, pt, gl) \<Rightarrow> (Inr r, pt, gl))"
          using st Inr False act(2) I(1) by simp
        note tl = st'[unfolded take_lease_eq lid_def[symmetric] le Let_def]
        have core: "core le = core (entry_at pt1 eid)" "core (drop_lease le) = core (entry_at pt1 eid)"
          unfolding le[symmetric] by simp_all
        have d: "dims g g (entry_at pt1 eid, v) (le, v)" "dims g g (entry_at pt1 eid, v) (drop_lease le, v)" for g v
          unfolding le[symmetric] by (simp_all add: dims_def newer_def leased_def drop_lease_def)
        note po1 = cache_okD(1)[OF ok1]
        note C = calm_trans[OF E1 calm_set[OF po1 lv1 core(1) d(1)]] calm_trans[OF E1 calm_set[OF po1 lv1 core(2) d(2)]]
        show ?thesis
        proof (cases "case read_fence_snapshot s (shift_obs 19 obs) mp (Some le) of None \<Rightarrow> False
            | Some (after, steady) \<Rightarrow> steady \<and> fence_snapshot_matches_token after token")
          case True
          have r: "res = Inr (PGLC_LOAD_OWNER, lid)" "pt' = set_entry eid le pt1" "gl' = add_stat pr singleflight_leaders gl"
            using tl unfolding if_P[OF True] by simp_all
          have "cells pt' = (cells pt)(i \<mapsto> (leased token now lid (descr e), value_bytes pt e))"
            using tweak_set(5)[OF po1 lv1 core(1)] lv(2) unfolding r(2) E(4-6) leased_descr[symmetric] le_def[symmetric]
            by simp
          moreover have "\<exists>after. read_fence_snapshot s (shift_obs 19 obs) mp (Some (leased token now lid (descr e))) = Some (after, True) \<and>
              fence_snapshot_matches_token after token"
            using True unfolding leased_descr[symmetric] le_def[symmetric] snapshot_descr by (auto split: option.splits)
          moreover have "lid = next_load_id (ce_load_id (if ce_loading (descr e) then drop_lease (descr e) else descr e))"
            unfolding lid_def e1' by (simp add: drop_lease_def)
          moreover have "ce_loading (descr e) \<longrightarrow> stale_lease token (descr e)" using stale by (simp add: stale_lease_def)
          ultimately have "claim_post hf s obs now mp i token pt gl PGLC_LOAD_OWNER lid pt' gl'"
            using calm_globals[OF C(1)] ce ver mw go(2,5) unfolding claim_post_def r(2,3)
            by (simp add: e_def)
          then show ?thesis using r(1) unfolding i_def by simp
        next
          case False
          have "res = Inr (PGLC_LOAD_RETRY, 0)" "pt' = set_entry eid (drop_lease le) pt1" "gl' = gl"
            using tl unfolding if_not_P[OF False] by simp_all
          then show ?thesis using quiet[OF C(2)] unfolding i_def by simp
        qed
      qed
    qed
  qed
qed

section \<open>Release, retirement and invalidation\<close>

lemma release_load_spec:
  assumes ok: "part_ok hf Map.empty pt" and h: "hashes hf pr mp key"
  shows "calm hf pt gl (pglc_cache_release_load pr s mp key token load_id pt) gl"
proof (cases rule: get_entry_cases[OF ok h, of s])
  case 1
  then show ?thesis using calm_refl[OF ok refl] by (simp add: pglc_cache_release_load_def)
next
  case (2 eid)
  have c: "core ((entry_at pt eid)\<lparr>ce_loading := False\<rparr>) = core (entry_at pt eid)" by simp
  have "dims g g (entry_at pt eid, v) ((entry_at pt eid)\<lparr>ce_loading := False\<rparr>, v)" for g v
    by (simp add: dims_def newer_def payload_of_def)
  note C = calm_set[OF ok 2(2) c this]
  show ?thesis using 2(1) C calm_refl[OF ok refl] by (simp add: pglc_cache_release_load_def Let_def)
qed

lemma retire_positive_spec:
  assumes ok: "part_ok hf Map.empty pt" and h: "hashes hf pr mp key"
    and run: "pglc_cache_retire_positive pr s obs mp key token xmin pt = (res, pt')"
  shows "calm hf pt gl pt' gl" "res = Inl err \<Longrightarrow> err = Generation_Overflow"
    "res = Inr True \<Longrightarrow> \<exists>e v. cells pt (mapped pr mp key) = Some (e, v) \<and> \<not> ce_negative e \<and> ce_source_xmin e = xmin \<and>
       cells pt' = (cells pt)(mapped pr mp key \<mapsto> (retired (pt_entry_generation pt') e, v))"
proof -
  consider (no) "res = Inr False" "pt' = pt"
    | (go) eid where "get_cache_entry pr s mp key pt = Some eid" "\<not> ce_negative (entry_at pt eid)" "ce_source_xmin (entry_at pt eid) = xmin"
      "(case retire_entry eid pt of (Inl err, pt) \<Rightarrow> (Inl err, pt) | (Inr _, pt) \<Rightarrow> (Inr True, pt)) = (res, pt')"
    using run unfolding pglc_cache_retire_positive_def Let_def
    by (cases "get_cache_entry pr s mp key pt") (auto split: if_splits)
  then have "calm hf pt gl pt' gl \<and> (\<forall>err. res = Inl err \<longrightarrow> err = Generation_Overflow) \<and>
    (res = Inr True \<longrightarrow> (\<exists>e v. cells pt (mapped pr mp key) = Some (e, v) \<and> \<not> ce_negative e \<and> ce_source_xmin e = xmin \<and>
       cells pt' = (cells pt)(mapped pr mp key \<mapsto> (retired (pt_entry_generation pt') e, v))))"
  proof cases
    case no
    then show ?thesis using calm_refl[OF ok refl] by simp
  next
    case (go eid)
    have lv: "live pt eid" "ident pt (entry_at pt eid) = mapped pr mp key" using get_entry_iff[OF ok h] go(1) by auto
    obtain r p where rp: "retire_entry eid pt = (r, p)" by fastforce
    note R = retire_spec(1)[OF ok lv(1) rp, of gl] retire_spec(2)[OF ok lv(1) rp]
    show ?thesis
    proof (cases r)
      case (Inl e)
      then show ?thesis using go(4) R unfolding rp by auto
    next
      case (Inr u)
      then have "res = Inr True" "pt' = p" using go(4) unfolding rp by simp_all
      then show ?thesis using R Inr go(2,3) cells_live[OF ok lv] lv(2) by simp
    qed
  qed
  then show "calm hf pt gl pt' gl" "res = Inl err \<Longrightarrow> err = Generation_Overflow"
    "res = Inr True \<Longrightarrow> \<exists>e v. cells pt (mapped pr mp key) = Some (e, v) \<and> \<not> ce_negative e \<and> ce_source_xmin e = xmin \<and>
       cells pt' = (cells pt)(mapped pr mp key \<mapsto> (retired (pt_entry_generation pt') e, v))" by blast+
qed

lemma invalidate_key_spec:
  assumes ok: "part_ok hf Map.empty pt" and h: "hashes hf pr mp key"
    and run: "pglc_cache_invalidate_key pr s obs mp key pt gl = (res, pt', gl')"
  shows "calm hf pt gl pt' gl'" "res = Inl err \<Longrightarrow> err = Generation_Overflow"
    "res = Inr n \<Longrightarrow> (case cells pt (mapped pr mp key) of None \<Rightarrow> n = 0 \<and> cells pt' = cells pt
      | Some (e, v) \<Rightarrow> n = (if cache_entry_is_current_slot_locked s obs e then 1 else 0) \<and>
          cells pt' = (cells pt)(mapped pr mp key \<mapsto> (retired (pt_entry_generation pt') e, v)))"
proof -
  have gl: "gl_cache_entry_count (gl\<lparr>gl_stats := x\<rparr>) = gl_cache_entry_count gl" for x by simp
  have "calm hf pt gl pt' gl' \<and> (\<forall>err. res = Inl err \<longrightarrow> err = Generation_Overflow) \<and>
    (\<forall>n. res = Inr n \<longrightarrow> (case cells pt (mapped pr mp key) of None \<Rightarrow> n = 0 \<and> cells pt' = cells pt
      | Some (e, v) \<Rightarrow> n = (if cache_entry_is_current_slot_locked s obs e then 1 else 0) \<and>
          cells pt' = (cells pt)(mapped pr mp key \<mapsto> (retired (pt_entry_generation pt') e, v))))"
  proof (cases rule: get_entry_cases[OF ok h, of s])
    case 1
    then show ?thesis using run calm_refl[OF ok, of _ gl] by (auto simp: pglc_cache_invalidate_key_def)
  next
    case (2 eid)
    obtain r p where rp: "retire_entry eid pt = (r, p)" by fastforce
    note R = retire_spec(1)[OF ok 2(2) rp, of gl] retire_spec(2)[OF ok 2(2) rp]
    note run' = run[unfolded pglc_cache_invalidate_key_def 2(1) option.case rp Let_def prod.case]
    show ?thesis
    proof (cases r)
      case (Inl e)
      then show ?thesis using run' R by auto
    next
      case (Inr u)
      then have "res = Inr (if cache_entry_is_current_slot_locked s obs (entry_at pt eid) then 1 else 0)" "pt' = p"
        "gl_cache_entry_count gl' = gl_cache_entry_count gl" using run' by auto
      then show ?thesis using R Inr calm_globals[OF R(1), of gl'] 2(3,4) by simp
    qed
  qed
  then show "calm hf pt gl pt' gl'" "res = Inl err \<Longrightarrow> err = Generation_Overflow"
    "res = Inr n \<Longrightarrow> (case cells pt (mapped pr mp key) of None \<Rightarrow> n = 0 \<and> cells pt' = cells pt
      | Some (e, v) \<Rightarrow> n = (if cache_entry_is_current_slot_locked s obs e then 1 else 0) \<and>
          cells pt' = (cells pt)(mapped pr mp key \<mapsto> (retired (pt_entry_generation pt') e, v)))" by blast+
qed

end
