(* ===== verification/Startup.thy ===== *)
theory Startup
  imports CacheSpec
begin

text \<open>
  The state that \<open>pglc_shmem_startup\<close> of src/src/pg_local_cache.c (lines 1349 to 1605) creates
  in fresh shared memory: partitions with empty indexes and full free lists, relation slots
  and counters at zero. It is the initial state of every run of the cache, and it satisfies
  the invariants that the operations keep.

  \<^item> Memory that the code leaves as it found it is an argument: \<open>keys p\<close> are the marker key
    bytes and \<open>vals p\<close> the arena bytes of partition \<open>p\<close>.
  \<^item> \<open>None\<close> stands for a failed size computation and for the FATAL report of
    \<open>pglc_arena_init\<close>.
\<close>

section \<open>Initial state\<close>

text \<open>\<open>free_next = index + 1 < capacity ? index + 2 : 0\<close> for every index.\<close>

definition free_links :: "nat \<Rightarrow> nat list" where
  "free_links capacity = map (\<lambda>i. if i + 1 < capacity then i + 2 else 0) [0..<capacity]"

definition zero_entry :: cache_entry where
  "zero_entry = \<lparr>ce_key_hash = 0, ce_slot_generation = 0, ce_global_epoch = 0, ce_relation_version = 0,
     ce_relation_incarnation = 0, ce_version = 0, ce_load_id = 0, ce_load_started = 0, ce_last_access = 0,
     ce_source_observed_full_xid = 0, ce_database_oid = 0, ce_relation_oid = 0, ce_relation_slot = 0,
     ce_dirty_writers = 0, ce_block_ref = 0, ce_key_len = 0, ce_value_len = 0, ce_block_len = 0,
     ce_source_xmin = 0, ce_valid = False, ce_negative = False, ce_loading = False, ce_in_use = False,
     ce_free_next = 0\<rparr>"

definition zero_marker :: dirty_marker where
  "zero_marker = \<lparr>dm_key_hash = 0, dm_relation_slot_generation = 0, dm_relation_incarnation = 0, dm_generation = 0,
     dm_relation_slot = 0, dm_writer_count = 0, dm_key_slot = 0, dm_key_len = 0, dm_free_next = 0, dm_in_use = False\<rparr>"

definition init_partition :: "nat \<Rightarrow> nat \<Rightarrow> nat \<Rightarrow> nat \<Rightarrow> mem \<Rightarrow> mem \<Rightarrow> partition option" where
  "init_partition capacity marker_capacity key_capacity pages_per_partition keys vals =
     do {
       bucket_count \<leftarrow> pglc_index_buckets_for capacity;
       marker_bucket_count \<leftarrow> pglc_index_buckets_for marker_capacity;
       arena \<leftarrow> pglc_arena_init (Some vals) (Some []) pages_per_partition;
       Some \<lparr>pt_entries = map (\<lambda>n. zero_entry\<lparr>ce_free_next := n\<rparr>) (free_links capacity),
         pt_markers = map (\<lambda>n. zero_marker\<lparr>dm_free_next := n\<rparr>) (free_links marker_capacity),
         pt_index = pglc_index_init [] [] bucket_count,
         pt_marker_index = pglc_index_init [] [] marker_bucket_count,
         pt_arena = arena, pt_marker_key_arena = keys,
         pt_marker_key_free_next = free_links key_capacity,
         pt_entry_generation = 0, pt_marker_generation = 0, pt_eviction_bucket_cursor = 0,
         pt_entry_count = 0, pt_free_entry_head = (if 0 < capacity then 1 else 0),
         pt_marker_free_head = (if 0 < marker_capacity then 1 else 0),
         pt_marker_key_free_head = (if 0 < key_capacity then 1 else 0), pt_marker_count = 0\<rparr>
     }"

definition start_partition :: "settings \<Rightarrow> nat \<Rightarrow> nat \<Rightarrow> (nat \<Rightarrow> mem) \<Rightarrow> (nat \<Rightarrow> mem) \<Rightarrow> nat \<Rightarrow> partition option" where
  "start_partition s slots pages_per_partition keys vals p =
     (let partitions = pglc_cache_partition_count s in
      init_partition (pglc_partition_capacity (pglc_cache_entries s) p partitions)
        (pglc_partition_capacity (pglc_effective_dirty_marker_entries s) p partitions)
        (pglc_partition_capacity slots p partitions) pages_per_partition (keys p) (vals p))"

record shared_state =
  sh_partitions :: "partition list"
  sh_globals :: globals
  sh_fences :: fences
  sh_registry :: registry

definition start_fences :: "settings \<Rightarrow> fences" where
  "start_fences s = \<lparr>global_version = 0, global_epoch = 0, global_dirty_writers = 0, config_generation = 1,
     relation_slots = replicate (pglc_relation_states s) blank_slot\<rparr>"

definition start_globals :: globals where
  "start_globals = \<lparr>gl_clock = 0, gl_cache_entry_count = 0, gl_dirty_marker_entries = 0, gl_dirty_marker_highwater = 0,
     gl_stats = \<lparr>plain_counters = (\<lambda>_. 0), stats_shards = (\<lambda>_ _. 0)\<rparr>\<rparr>"

definition start_registry :: registry where
  "start_registry = \<lparr>relation_hash = [], relation_incarnation_counter = 0\<rparr>"

definition pglc_shmem_startup :: "settings \<Rightarrow> platform \<Rightarrow> (nat \<Rightarrow> mem) \<Rightarrow> (nat \<Rightarrow> mem) \<Rightarrow> shared_state option" where
  "pglc_shmem_startup s pf keys vals =
     do {
       pages_per_partition \<leftarrow> pglc_arena_pages_per_partition s pf;
       slots \<leftarrow> marker_key_slots s;
       partitions \<leftarrow> those (map (start_partition s slots pages_per_partition keys vals) [0..<pglc_cache_partition_count s]);
       Some \<lparr>sh_partitions = partitions, sh_globals = start_globals, sh_fences = start_fences s, sh_registry = start_registry\<rparr>
     }"

section \<open>A fresh partition\<close>

lemma length_free_links [simp]: "length (free_links n) = n"
  by (simp add: free_links_def)

lemma free_links_nth: "k < n \<Longrightarrow> free_links n ! k = (if k + 1 < n then k + 2 else 0)"
  by (simp add: free_links_def)

lemma free_links_chain:
  assumes nxt: "\<And>k. k < n \<Longrightarrow> nxt (Suc k) = (if k + 1 < n then k + 2 else 0)"
  shows "chain_ok nxt (if 0 < n then 1 else 0) {1..n}"
proof -
  have "free_chain nxt (if k < n then Suc k else 0) [Suc k..<Suc n]" if "k \<le> n" for k
    using that
  proof (induction "n - k" arbitrary: k)
    case (Suc m)
    then have k: "k < n" by simp
    have "free_chain nxt (if Suc k < n then Suc (Suc k) else 0) [Suc (Suc k)..<Suc n]" by (rule Suc(1)) (use Suc(2) k in simp_all)
    then show ?case using k nxt[OF k] by (auto simp: upt_conv_Cons[of "Suc k"] simp del: upt_Suc split: if_splits)
  qed simp
  from this[of 0] have "free_chain nxt (if 0 < n then 1 else 0) [1..<Suc n]" by (auto simp del: upt_Suc split: if_splits)
  moreover have "set [1..<Suc n] = {1..n}" by auto
  ultimately show ?thesis unfolding chain_ok_def by (intro conjI exI[of _ "[1..<Suc n]"]) auto
qed

definition untouched :: "partition \<Rightarrow> bool" where
  "untouched pt \<longleftrightarrow> list_all (\<lambda>e. \<not> ce_in_use e) (pt_entries pt) \<and> list_all (\<lambda>d. \<not> dm_in_use d) (pt_markers pt)"

lemma untouched_empty:
  assumes "untouched pt"
  shows "\<not> live pt x" "\<not> mlive pt x" "entry_ids pt = {}" "marker_ids pt = {}" "cells pt = Map.empty" "marker_writers pt i = 0"
proof -
  show l: "\<not> live pt x" "\<not> mlive pt x" for x
    using assms by (auto simp: untouched_def live_def mlive_def list_all_length)
  show "entry_ids pt = {}" "marker_ids pt = {}" using l by (auto simp: entry_ids_def marker_ids_def)
  show "cells pt = Map.empty" using l(1) by (intro ext) (simp add: cells_None)
  show "marker_writers pt i = 0" by (rule writers_none) (use l(2) in blast)
qed

lemma init_index:
  assumes "n \<le> 16777216" "pglc_index_buckets_for n = Some b"
  shows "index_ok (pglc_index_init [] [] b) H {}" "pglc_index_valid (pglc_index_init [] [] b) b"
proof -
  obtain k where k: "b = 2 ^ k" "k \<le> 31" using index_buckets_power[of n] assms by auto
  have "(2::nat) ^ k \<le> 2 ^ 31" by (rule power_increasing) (use k in simp_all)
  then have b: "b \<noteq> 0" "b \<le> UINT32_MAX" "b AND (b - 1) = 0" using k and_pred_power[of "2 ^ k" k] by simp_all
  show "index_ok (pglc_index_init [] [] b) H {}" by (rule index_init_ok) (fact b)+
  show "pglc_index_valid (pglc_index_init [] [] b) b"
    using b by (simp add: pglc_index_init_def pglc_index_valid_def Let_def)
qed

lemma init_partition_spec:
  assumes n: "capacity \<le> 16777216" "marker_capacity \<le> 16777216" "key_capacity \<le> UINT32_MAX" "0 < np" "np \<le> 65535"
  obtains pt where "init_partition capacity marker_capacity key_capacity np keys vals = Some pt" "cache_ok hf pt" "untouched pt"
    "pt_entry_count pt = 0" "pt_entry_generation pt = 0" "pt_capacity pt = capacity" "pt_marker_capacity pt = marker_capacity"
    "pt_marker_key_capacity pt = key_capacity"
proof -
  obtain b where b: "pglc_index_buckets_for capacity = Some b" using index_buckets_power[of capacity] n by auto
  obtain mb where mb: "pglc_index_buckets_for marker_capacity = Some mb" using index_buckets_power[of marker_capacity] n by auto
  obtain a where a: "pglc_arena_init (Some vals) (Some []) np = Some a" "arena_rel a Map.empty" by (rule init_spec[OF n(4,5)])
  define pt where "pt = the (init_partition capacity marker_capacity key_capacity np keys vals)"
  note pt = pt_def[unfolded init_partition_def b mb a(1), simplified]
  have f: "pt_entries pt = map (\<lambda>n. zero_entry\<lparr>ce_free_next := n\<rparr>) (free_links capacity)"
    "pt_markers pt = map (\<lambda>n. zero_marker\<lparr>dm_free_next := n\<rparr>) (free_links marker_capacity)"
    "pt_index pt = pglc_index_init [] [] b" "pt_marker_index pt = pglc_index_init [] [] mb" "pt_arena pt = a"
    "pt_marker_key_free_next pt = free_links key_capacity" "pt_entry_count pt = 0" "pt_marker_count pt = 0"
    "pt_free_entry_head pt = (if 0 < capacity then 1 else 0)" "pt_marker_free_head pt = (if 0 < marker_capacity then 1 else 0)"
    "pt_marker_key_free_head pt = (if 0 < key_capacity then 1 else 0)" "pt_entry_generation pt = 0" "pt_marker_generation pt = 0"
    by (simp_all add: pt)
  have u: "untouched pt" by (simp add: untouched_def f list_all_length zero_entry_def zero_marker_def)
  note e = untouched_empty[OF u]
  have "blocks_ok Map.empty Map.empty pt" using a(2) e by (simp add: blocks_ok_def f)
  moreover have "entries_ok hf pt" using e by (simp add: entries_ok_def)
  moreover have "indexed (entry_ids pt) pt"
    using n(1) init_index[OF n(1) b] b e by (simp add: indexed_def f pglc_partition_index_valid_def)
  moreover have "freelist_ok pt" using e f(7,9) free_links_chain[of capacity] by (simp add: freelist_ok_def f(1) free_links_nth)
  moreover have "marks_ok pt" using e f n(3) by (simp add: marks_ok_def)
  moreover have "mindexed (marker_ids pt) pt"
    using n(2) init_index[OF n(2) mb] mb e by (simp add: mindexed_def f pglc_partition_index_valid_def)
  moreover have "mchains_ok pt"
    using e f(10,11) free_links_chain[of marker_capacity] free_links_chain[of key_capacity] by (simp add: mchains_ok_def f(2,6) free_links_nth)
  ultimately have "cache_ok hf pt" using e f(8) by (auto simp: cache_ok_def part_ok_def markers_ok_def versions_ok_def)
  moreover have "init_partition capacity marker_capacity key_capacity np keys vals = Some pt"
    by (simp add: init_partition_def b mb a(1) pt)
  ultimately show thesis using that[of pt] u f by simp
qed

section \<open>Startup\<close>

lemma those_Some:
  assumes "\<And>x. x \<in> set xs \<Longrightarrow> \<exists>y. f x = Some y \<and> P x y"
  shows "\<exists>ys. those (map f xs) = Some ys \<and> list_all2 P xs ys"
  using assms by (induction xs) force+

text \<open>What is true of every partition when the server starts.\<close>

definition fresh_partition :: "(ident \<Rightarrow> nat) \<Rightarrow> partition \<Rightarrow> bool" where
  "fresh_partition hf pt \<longleftrightarrow> cache_ok hf pt \<and> cells pt = Map.empty \<and> marker_writers pt = (\<lambda>_. 0) \<and> pt_entry_count pt = 0"

definition start_sizes :: "settings \<Rightarrow> platform \<Rightarrow> nat \<Rightarrow> bool" where
  "start_sizes s pf np \<longleftrightarrow> sizes_ok s pf \<and> pglc_arena_pages_per_partition s pf = Some np \<and> 0 < np \<and> np \<le> 65535"

lemma start_partition_spec:
  assumes s: "start_sizes s pf np" "marker_key_slots s = Some slots" "p < pglc_cache_partition_count s"
  shows "\<exists>pt. start_partition s slots np keys vals p = Some pt \<and> fresh_partition hf pt \<and>
    pt_capacity pt = pglc_partition_capacity (pglc_cache_entries s) p (pglc_cache_partition_count s)"
proof -
  define n where "n = pglc_cache_partition_count s"
  have so: "sizes_ok s pf" using s(1) by (simp add: start_sizes_def)
  then have l: "pglc_cache_entries s \<le> 16777216" "pglc_effective_dirty_marker_entries s \<le> 1048576" "slots \<le> 1048576"
    using marker_key_slots_le[OF so s(2)] by (simp_all add: sizes_ok_def)
  have c: "pglc_partition_capacity m p n \<le> m" for m using partition_capacity_le[of n p m] s(3) by (simp add: n_def)
  obtain pt where pt: "init_partition (pglc_partition_capacity (pglc_cache_entries s) p n)
      (pglc_partition_capacity (pglc_effective_dirty_marker_entries s) p n) (pglc_partition_capacity slots p n) np (keys p) (vals p) = Some pt"
    "cache_ok hf pt" "untouched pt" "pt_entry_count pt = 0" "pt_capacity pt = pglc_partition_capacity (pglc_cache_entries s) p n"
    by (rule init_partition_spec[where hf = hf and capacity = "pglc_partition_capacity (pglc_cache_entries s) p n"
          and marker_capacity = "pglc_partition_capacity (pglc_effective_dirty_marker_entries s) p n"
          and key_capacity = "pglc_partition_capacity slots p n" and np = np and keys = "keys p" and vals = "vals p"])
      (use l c[of "pglc_cache_entries s"] c[of "pglc_effective_dirty_marker_entries s"] c[of slots] s(1) in \<open>auto simp: start_sizes_def\<close>)
  then show ?thesis using untouched_empty[OF pt(3)] by (auto simp: start_partition_def n_def Let_def fresh_partition_def)
qed

lemma start_registry_ok: "reg_ok s (start_fences s) start_registry"
  by (simp add: reg_ok_def start_fences_def start_registry_def blank_slot_def)

text \<open>C40: the server starts in a consistent state: with accepted sizes, startup creates all
  partitions, every one of them satisfies the invariant of entries, markers, arena and indexes
  and is empty, their capacities add up to the configured number of entries, and the relation
  registry is consistent.\<close>

theorem startup_consistent:
  assumes "start_sizes s pf np" "marker_key_slots s = Some slots"
  shows "\<exists>sh. pglc_shmem_startup s pf keys vals = Some sh \<and> length (sh_partitions sh) = pglc_cache_partition_count s \<and>
    list_all (fresh_partition hf) (sh_partitions sh) \<and> sum_list (map pt_capacity (sh_partitions sh)) = pglc_cache_entries s \<and>
    reg_ok s (sh_fences sh) (sh_registry sh)"
proof -
  define n where "n = pglc_cache_partition_count s"
  define cap where "cap p = pglc_partition_capacity (pglc_cache_entries s) p n" for p
  have "\<exists>pt. start_partition s slots np keys vals p = Some pt \<and> fresh_partition hf pt \<and> pt_capacity pt = cap p" if "p \<in> set [0..<n]" for p
    using start_partition_spec[OF assms, of p] that by (simp add: n_def cap_def)
  from those_Some[of "[0..<n]" "start_partition s slots np keys vals" "\<lambda>p pt. fresh_partition hf pt \<and> pt_capacity pt = cap p", OF this]
  obtain ps where ps: "those (map (start_partition s slots np keys vals) [0..<n]) = Some ps"
    "list_all2 (\<lambda>p pt. fresh_partition hf pt \<and> pt_capacity pt = cap p) [0..<n] ps" by blast
  have len: "length ps = n" using list_all2_lengthD[OF ps(2)] by simp
  have fr: "list_all (fresh_partition hf) ps" using list_all2_nthD2[OF ps(2)] by (simp add: list_all_length)
  have "map pt_capacity ps = map cap [0..<n]" using list_all2_nthD2[OF ps(2)] len by (intro nth_equalityI) simp_all
  moreover have "sum_list (map cap [0..<n]) = pglc_cache_entries s"
    using assms(1) sum_partition_capacity[of n "pglc_cache_entries s"]
    by (simp add: sum_list_distinct_conv_sum_set cap_def start_sizes_def sizes_ok_def n_def atLeast0LessThan)
  ultimately have "sum_list (map pt_capacity ps) = pglc_cache_entries s" by simp
  then show ?thesis using ps(1) len fr assms start_registry_ok
    by (simp add: pglc_shmem_startup_def start_sizes_def n_def)
qed

theorem startup_consistent_witness:
  "\<exists>sh. pglc_shmem_startup demo_settings demo_platform (\<lambda>_ _. CHR 0x00) (\<lambda>_ _. CHR 0x00) = Some sh \<and>
    length (sh_partitions sh) = pglc_cache_partition_count demo_settings \<and> list_all (fresh_partition (\<lambda>_. 0)) (sh_partitions sh) \<and>
    sum_list (map pt_capacity (sh_partitions sh)) = pglc_cache_entries demo_settings \<and> reg_ok demo_settings (sh_fences sh) (sh_registry sh)"
  by (rule startup_consistent[where np = 63]) (simp_all add: start_sizes_def demo_sizes demo_pages demo_slots)

end
