(* ===== verification/Serving.thy ===== *)
theory Serving
  imports Startup
begin

text \<open>
  That the cache makes progress. While no writer is active, a key that is not cached goes
  through admission, load lease, fill and hit: each step succeeds as soon as there is room,
  and the hit returns the bytes that were stored.
\<close>

section \<open>Quiet fences\<close>

definition quiet :: "settings \<Rightarrow> mapping \<Rightarrow> fences \<Rightarrow> bool" where
  "quiet s mp fs \<longleftrightarrow> mp_relation_slot mp < pglc_relation_states s \<and> config_generation fs = mp_config_generation mp \<and>
     rs_generation (slot_at fs (mp_relation_slot mp)) = mp_relation_slot_generation mp \<and>
     rs_incarnation (slot_at fs (mp_relation_slot mp)) \<noteq> 0 \<and> global_dirty_writers fs = 0 \<and>
     rs_dirty_writers (slot_at fs (mp_relation_slot mp)) = 0"

abbreviation (input) still :: "fences \<Rightarrow> observations" where
  "still fs \<equiv> (\<lambda>_. fs)"

lemma shift_still [simp]: "shift_obs n (still fs) = still fs"
  by (simp add: shift_obs_def)

text \<open>The token that a reader is given for a cell while nothing moves.\<close>

definition quiet_token :: "mapping \<Rightarrow> fences \<Rightarrow> cache_entry \<Rightarrow> read_token" where
  "quiet_token mp fs e = \<lparr>tk_config_generation = config_generation fs, tk_global_version = global_version fs,
     tk_global_epoch = global_epoch fs, tk_relation_version = rs_version (slot_at fs (mp_relation_slot mp)),
     tk_relation_incarnation = rs_incarnation (slot_at fs (mp_relation_slot mp)),
     tk_slot_generation = rs_generation (slot_at fs (mp_relation_slot mp)), tk_relation_slot = mp_relation_slot mp,
     tk_key_version = ce_version e, tk_source_observed_full_xid = ce_source_observed_full_xid e, tk_cacheable = True,
     tk_has_entry = True\<rparr>"

lemma quiet_snapshot:
  assumes "quiet s mp fs" "ce_dirty_writers e = 0"
  obtains sn where "read_fence_snapshot s (still fs) mp (Some e) = Some (sn, True)"
    "fence_snapshot_fences_match_token sn (quiet_token mp fs e')" "sn_key_version sn = ce_version e"
    "lookup_token mp sn (Some e) True = quiet_token mp fs e" "sn_config_generation sn = mp_config_generation mp"
    "sn_slot_generation sn = mp_relation_slot_generation mp" "sn_relation_incarnation sn \<noteq> 0"
    "fence_snapshot_matches_token sn (quiet_token mp fs e') \<longleftrightarrow> ce_version e = ce_version e'"
  using assms unfolding quiet_def read_fence_snapshot_def fence_snapshot_fences_match_token_def
    fence_snapshot_matches_token_def quiet_token_def lookup_token_def Let_def
  by simp

lemma quiet_current:
  assumes "quiet s mp fs"
  shows "cache_entry_is_current_slot_locked s (still fs) e \<longleftrightarrow> ce_relation_slot e < pglc_relation_states s \<and> ce_valid e \<and>
    ce_slot_generation e = rs_generation (slot_at fs (ce_relation_slot e)) \<and> ce_global_epoch e = global_epoch fs \<and>
    ce_relation_incarnation e = rs_incarnation (slot_at fs (ce_relation_slot e)) \<and> ce_relation_version e = rs_version (slot_at fs (ce_relation_slot e))"
  by (simp add: cache_entry_is_current_slot_locked_def)

section \<open>The steps of a fill\<close>

lemma store_ok:
  assumes ok: "cache_ok hf pt" and h: "hashes hf pr mp key"
    and run: "pglc_cache_store pr s obs fs nows xid mp key token value negative load_id xmin pt gl = (Inr stored, pt', gl')"
  shows "cache_ok hf pt'"
proof -
  define i where "i = mapped pr mp key"
  have P: "store_post hf s obs mp i token value negative load_id xmin xid pt gl stored pt' gl'"
    using store_spec[OF cache_okD(1)[OF ok] h run] by (simp add: i_def)
  have v: "versions_ok (pt_entry_generation pt) (cells pt)" using ok by (simp add: cache_ok_def)
  have "versions_ok (pt_entry_generation pt') (cells pt')"
  proof (cases stored)
    case False
    then show ?thesis using P shifts_versions[OF v] by (simp add: store_post_def)
  next
    case True
    obtain e w e' w' where c: "shifts (pt_entry_generation pt) (pt_entry_generation pt') (cells pt) ((cells pt')(i \<mapsto> (e', w')))"
      "cells pt' i = Some (e, w)" "ce_version e = pt_entry_generation pt'"
      using P True by (auto simp: store_post_def filled_def drop_lease_def Let_def)
    show ?thesis unfolding versions_ok_def
    proof (intro allI impI)
      fix j d assume d: "cells pt' j = Some d"
      show "ce_version (fst d) \<le> pt_entry_generation pt'"
        using spec[OF spec[OF shifts_versions[OF v c(1), unfolded versions_ok_def], of j], of d] c(2,3) d by (cases "j = i") auto
    qed
  qed
  then show ?thesis using P cache_okD(2)[OF ok] markers_ok_marker_side(1)[of pt' pt] by (simp add: cache_ok_def store_post_def)
qed

text \<open>A cell that waits to be filled: no value, no lease, no writer.\<close>

definition cold :: "(ident \<Rightarrow> nat) \<Rightarrow> partition \<Rightarrow> ident \<Rightarrow> bool" where
  "cold hf pt i \<longleftrightarrow> marker_writers pt (mark hf i) = 0 \<and>
     (case cells pt i of None \<Rightarrow> False | Some (e, v) \<Rightarrow> \<not> ce_valid e \<and> \<not> ce_loading e \<and> ce_dirty_writers e = 0)"

lemma cold_lookup:
  assumes ok: "cache_ok hf pt" and h: "hashes hf pr mp key" and q: "quiet s mp fs"
    and e: "cells pt (mapped pr mp key) = Some (e, v)" "\<not> ce_valid e" "ce_dirty_writers e = 0"
  shows "\<exists>lr. cache_lookup_locked pr s (still fs) ev nows mp key cap create pt gl = (Inr lr, pt, gl) \<and> lr_token lr = quiet_token mp fs e \<and>
    \<not> lr_hit lr \<and> lr_complete lr \<and> \<not> lr_malformed lr"
proof -
  obtain eid where eid: "live pt eid" "ident pt (entry_at pt eid) = mapped pr mp key" "e = descr (entry_at pt eid)"
    using cells_SomeE[OF e(1)] by blast
  define x where "x = entry_at pt eid"
  have x: "\<not> ce_valid x" "ce_dirty_writers x = 0" "same_mapping mp x" using e eid ident_mapping[OF eid(2)] by (simp_all add: x_def)
  obtain sn where sn: "read_fence_snapshot s (still fs) mp (Some x) = Some (sn, True)" "lookup_token mp sn (Some x) True = quiet_token mp fs x"
    using quiet_snapshot[OF q x(2), of x] by metis
  have nc: "\<not> cache_entry_is_current_slot_locked s (still fs) x" using x(1) quiet_current[OF q] by simp
  have r: "\<not> pglc_relation_states s \<le> mp_relation_slot mp" using q by (simp add: quiet_def)
  have "quiet_token mp fs x = quiet_token mp fs e" by (simp add: quiet_token_def eid(3) x_def)
  then show ?thesis
    using sn nc r x(3) unfolding cache_lookup_locked_def internal_found[OF cache_okD(1)[OF ok] h eid(1,2)] x_def
    by (simp add: Let_def blank_lookup_def)
qed

definition key_query :: "(ident \<Rightarrow> nat) \<Rightarrow> process \<Rightarrow> mapping \<Rightarrow> char list \<Rightarrow> partition \<Rightarrow> entry_query" where
  "key_query hf pr mp key pt = (blank_entry_query pt)\<lparr>eq_hash := hf (mapped pr mp key), eq_key := key, eq_key_len := length key,
     eq_database_oid := my_database_id pr, eq_relation_oid := mp_relation_oid mp, eq_relation_slot := mp_relation_slot mp,
     eq_slot_generation := mp_relation_slot_generation mp\<rparr>"

lemma key_query: "asks_for (key_query hf pr mp key pt) (mapped pr mp key)" "eq_hash (key_query hf pr mp key pt) = hf (mapped pr mp key)"
  "eq_key_len (key_query hf pr mp key pt) = length key"
  by (simp_all add: key_query_def asks_for_def mapped_def blank_entry_query_def)

lemma absent_admitted:
  assumes ok: "cache_ok hf pt" and h: "hashes hf pr mp key" and q: "quiet s mp fs" and c: "counted rest pt gl" "pglc_cache_entries s < 2 ^ 32"
    and a: "cells pt (mapped pr mp key) = None" "admissible s (key_query hf pr mp key pt) pt gl"
  obtains lr pt' gl' e v where "cache_lookup_locked pr s (still fs) ev nows mp key cap True pt gl = (Inr lr, pt', gl')"
    "lr_token lr = quiet_token mp fs e" "\<not> lr_hit lr" "cells pt' (mapped pr mp key) = Some (e, v)" "cold hf pt' (mapped pr mp key)"
    "calm hf pt gl pt' gl'" "pt_entry_generation pt' = pt_entry_generation pt + 1"
    "\<And>m. has_room (pt_arena pt') m = has_room (fst (pglc_arena_alloc (pt_arena pt) (length key))) m"
proof -
  define i where "i = mapped pr mp key"
  define qy where "qy = key_query hf pr mp key pt"
  note Q = key_query[of hf pr mp key pt, folded qy_def i_def]
  have len: "length key < PGLC_KEY_MAX" using h by (simp add: hashes_def)
  have new: "\<forall>x. live pt x \<longrightarrow> ident pt (entry_at pt x) \<noteq> i" using a(1) unfolding cells_None i_def .
  obtain eid pt' gl' where cr: "create_entry pr s ev nows qy pt gl = (Inr (Some eid), pt', gl')" "pt_entry_generation pt' = pt_entry_generation pt + 1"
      "\<forall>m. has_room (pt_arena pt') m = has_room (fst (pglc_arena_alloc (pt_arena pt) (length key))) m"
    using create_open[OF cache_okD(1)[OF ok] Q(1,2) _ new a(2)[folded qy_def], of pr ev nows] Q(3) len by auto
  have int: "get_cache_entry_internal pr s ev nows (my_database_id pr) (mp_relation_oid mp) (mp_nspace mp) key (mp_relation_slot mp)
      (mp_relation_slot_generation mp) True None pt gl = (Inr (Some eid, 0), pt', gl')"
    using get_missing[OF cache_okD(1)[OF ok], of "my_database_id pr" "mp_relation_oid mp" "mp_relation_slot mp" "mp_relation_slot_generation mp" key
        pr s ev nows True "hf i" gl] new cr(1)
    unfolding internal_key[OF h] i_def mapped_def qy_def key_query_def by simp
  note I = internal_spec[OF cache_okD(1)[OF ok] h c cache_okD(2)[OF ok] int, simplified, folded i_def]
  have "created hf i rest eid pt gl pt' gl'"
    using create_spec[OF cache_okD(1)[OF ok] Q(1,2) _ _ c cr(1)] Q(3) len new by simp
  note C = created_cells(2)[OF this cache_okD(1)[OF ok] a(1)[folded i_def]]
  have calm: "calm hf pt gl pt' gl'" and lv: "live pt' eid" "ident pt' (entry_at pt' eid) = i" and mk: "marker_writers pt (mark hf i) = 0"
    using I a(1) by (simp_all add: i_def)
  have ok': "cache_ok hf pt'" by (rule calm_ok[OF ok calm])
  note cl = cells_live[OF cache_okD(1)[OF ok'] lv]
  define x where "x = entry_at pt' eid"
  have x: "\<not> ce_valid x" "\<not> ce_loading x" "ce_dirty_writers x = 0" using C cl by (auto simp: x_def)
  obtain lr where lr: "cache_lookup_locked pr s (still fs) ev nows mp key cap True pt' gl' = (Inr lr, pt', gl')"
    "lr_token lr = quiet_token mp fs (descr x)" "\<not> lr_hit lr"
    using cold_lookup[OF ok' h q cl[unfolded i_def], of ev nows cap True gl'] x by (auto simp: x_def)
  have "marker_writers pt' (mark hf i) = 0" 
    unfolding markers_ok_marker_side(2)[OF calmD(2)[OF calm]] by (rule mk)
  then have cold: "cold hf pt' i" using x cl by (simp add: cold_def x_def)
  have "cache_lookup_locked pr s (still fs) ev nows mp key cap True pt gl = cache_lookup_locked pr s (still fs) ev nows mp key cap True pt' gl'"
    using q unfolding cache_lookup_locked_def int internal_found[OF cache_okD(1)[OF ok'] h lv[unfolded i_def]] by (simp add: quiet_def)
  then show thesis
    by (intro that[OF trans[OF _ lr(1)] lr(2,3) cl[unfolded i_def, folded x_def] cold[unfolded i_def] calm cr(2) cr(3)[THEN spec]])
qed


lemma cold_claimed:
  assumes ok: "cache_ok hf pt" and h: "hashes hf pr mp key" and q: "quiet s mp fs"
    and e: "cells pt (mapped pr mp key) = Some (e, v)" "cold hf pt (mapped pr mp key)"
  obtains pt' gl' where "pglc_cache_claim_load pr s (still fs) now mp key (quiet_token mp fs e) pt gl =
      (Inr (PGLC_LOAD_OWNER, next_load_id (ce_load_id e)), pt', gl')"
    "cells pt' = (cells pt)(mapped pr mp key \<mapsto> (leased (quiet_token mp fs e) now (next_load_id (ce_load_id e)) e, v))" "calm hf pt gl pt' gl'"
    "pt_arena pt' = pt_arena pt" "pt_entry_generation pt' = pt_entry_generation pt"
proof -
  define i where "i = mapped pr mp key"
  define tok where "tok = quiet_token mp fs e"
  have c: "\<not> ce_valid e" "\<not> ce_loading e" "ce_dirty_writers e = 0" "marker_writers pt (mark hf i) = 0"
    using e by (simp_all add: cold_def i_def)
  note okp = cache_okD(1)[OF ok]
  obtain eid where eid: "live pt eid" "ident pt (entry_at pt eid) = mapped pr mp key" "e = descr (entry_at pt eid)"
    using cells_SomeE[OF e(1)] by blast
  define x where "x = entry_at pt eid"
  have x: "\<not> ce_valid x" "\<not> ce_loading x" "ce_dirty_writers x = 0" "same_mapping mp x" "ce_version x = ce_version e" "ce_load_id x = ce_load_id e"
    using c eid ident_mapping[OF eid(2)] by (simp_all add: x_def)
  have ge: "get_cache_entry pr s mp key pt = Some eid" using get_entry_iff[OF okp h] eid by blast
  obtain sn where sn: "read_fence_snapshot s (still fs) mp (Some x) = Some (sn, True)" "sn_config_generation sn = mp_config_generation mp"
    "sn_slot_generation sn = mp_relation_slot_generation mp" "sn_relation_incarnation sn \<noteq> 0" "fence_snapshot_matches_token sn tok"
    using quiet_snapshot[OF q x(3), of e] x(5) unfolding tok_def by metis
  define y where "y = leased tok now (next_load_id (ce_load_id x)) x"
  obtain sy where sy: "read_fence_snapshot s (still fs) mp (Some y) = Some (sy, True)" "fence_snapshot_matches_token sy tok"
    using quiet_snapshot[OF q, of y e] x(3,5) unfolding tok_def y_def leased_def by auto
  have len: "length key < PGLC_KEY_MAX" using h by (simp add: hashes_def)
  have mf: "cache_marker_find pt (cache_key_hash64 pr (my_database_id pr) (mp_nspace mp) key (length key)) key (length key)
      (mp_relation_slot mp) (mp_relation_slot_generation mp) = 0"
    using marker_find_spec(1)[OF cache_okD(2)[OF ok] len] c(4) h by (simp add: mark_def i_def mapped_def hashes_def)
  have es: "end_stale_lease tok eid pt = pt" using x(2) by (simp add: end_stale_lease_def x_def Let_def)
  have act: "cache_load_is_active_locked s now eid pt = (Inr False, pt)" using x(2) by (simp add: cache_load_is_active_locked_def x_def Let_def)
  have tl: "take_lease pr s (still fs) now mp tok eid pt gl =
      ((PGLC_LOAD_OWNER, next_load_id (ce_load_id e)), set_entry eid y pt, add_stat pr singleflight_leaders gl)"
    using sy unfolding take_lease_eq x_def[symmetric] Let_def y_def[symmetric] by (simp add: x(6))
  have nc: "\<not> cache_entry_is_current_slot_locked s (still fs) x" using x(1) quiet_current[OF q] by simp
  have tk: "tk_cacheable tok" "tk_has_entry tok" "tk_key_version tok = ce_version x" using x(5) by (simp_all add: tok_def quiet_token_def)
  have run: "pglc_cache_claim_load pr s (still fs) now mp key tok pt gl =
      (Inr (PGLC_LOAD_OWNER, next_load_id (ce_load_id e)), set_entry eid y pt, add_stat pr singleflight_leaders gl)"
    using q sn x(3,4) nc tk len
    unfolding pglc_cache_claim_load_def ge key_len_exact[OF len] Let_def shift_still option.map x_def[symmetric] es act prod.case sum.case option.case tl
    by (simp add: quiet_def mf)
  note P = claim_spec[OF ok h run, unfolded sum.case prod.case claim_post_def]
  have "cells (set_entry eid y pt) = (cells pt)(i \<mapsto> (leased tok now (next_load_id (ce_load_id e)) e, v))"
    using P e(1) by (auto simp: i_def)
  then show thesis using that[OF run[unfolded tok_def]] P unfolding tok_def i_def by (simp add: set_entry_def)
qed


lemma fill_error:
  assumes "fill_entry pr s obs mp token eid value negative xmin xid pt gl = (Inl err, pt', gl')"
  shows "pt_entry_generation pt = UINT64_MAX"
  using assms unfolding fill_entry_def reject_fill_def next_entry_generation_def Let_def set_entry_def
  by (auto split: option.splits if_splits)

lemma leased_stored:
  assumes ok: "cache_ok hf pt" and h: "hashes hf pr mp key" and q: "quiet s mp fs"
    and e: "cells pt (mapped pr mp key) = Some (leased (quiet_token mp fs e) now lid e, v)" "ce_dirty_writers e = 0" "lid \<noteq> 0"
    and room: "length key + length value \<le> 256 \<or> has_room (pt_arena pt) (length key + length value)" "length value \<le> PGLC_VALUE_MAX"
      "pt_entry_generation pt \<noteq> UINT64_MAX"
  obtains pt' gl' where "pglc_cache_store pr s (still fs) ev nows xid mp key (quiet_token mp fs e) value False lid xmin pt gl = (Inr True, pt', gl')"
    "cells pt' (mapped pr mp key) = Some (filled (quiet_token mp fs e) False (length value) xmin xid (pt_entry_generation pt') True
       (leased (quiet_token mp fs e) now lid e), value)" "cache_ok hf pt'" "marker_side pt' = marker_side pt"
proof -
  define tok where "tok = quiet_token mp fs e"
  define n where "n = length value"
  note okp = cache_okD(1)[OF ok]
  obtain eid where eid: "live pt eid" "ident pt (entry_at pt eid) = mapped pr mp key" "leased tok now lid e = descr (entry_at pt eid)"
    using cells_SomeE[OF e(1)] unfolding tok_def by blast
  define x where "x = entry_at pt eid"
  have d: "descr x = leased tok now lid e" using eid(3) by (simp add: x_def)
  have x: "ce_loading x" "ce_load_id x = lid" "ce_dirty_writers x = 0" "ce_version x = ce_version e" "ce_global_epoch x = tk_global_epoch tok"
    "ce_relation_version x = tk_relation_version tok" "ce_relation_incarnation x = tk_relation_incarnation tok"
    using e(2) arg_cong[OF d, of ce_loading] arg_cong[OF d, of ce_load_id] arg_cong[OF d, of ce_dirty_writers] arg_cong[OF d, of ce_version]
      arg_cong[OF d, of ce_global_epoch] arg_cong[OF d, of ce_relation_version] arg_cong[OF d, of ce_relation_incarnation]
    by (simp_all add: leased_def)
  have sm: "same_mapping mp x" using ident_mapping[OF eid(2)] by (simp add: x_def)
  have kl: "ce_key_len x = length key" using eid(2) unfolding x_def ident_def mapped_def by (metis length_load_bytes prod.inject)
  have ge: "get_cache_entry pr s mp key pt = Some eid" using get_entry_iff[OF okp h] eid by blast
  obtain sn where sn: "read_fence_snapshot s (still fs) mp (Some x) = Some (sn, True)" "fence_snapshot_matches_token sn tok"
    using quiet_snapshot[OF q x(3), of e] x(4) unfolding tok_def by metis
  have mf: "may_fill s (still fs) mp tok lid x"
    using sn sm x e(3) by (simp add: may_fill_def tok_def quiet_token_def)
  obtain pt1 gl1 where fit: "fit_block pr s ev nows eid n pt gl = (Inr True, pt1, gl1)" "pt_entry_generation pt1 = pt_entry_generation pt"
    using fit_room[OF okp eid(1), of n pr s ev nows gl] room(1,2) kl unfolding x_def n_def by metis
  have fitted: "fitted hf eid n pt gl pt1 gl1" using fit_spec[OF okp eid(1) _ fit(1)] room(2) by (simp add: n_def)
  obtain r pt2 gl2 where fe: "fill_entry pr s (still fs) mp tok eid value False xmin xid pt1 gl1 = (r, pt2, gl2)" using prod_cases3 by blast
  have nl: "r \<noteq> Inl err" for err using fill_error[where pt = pt1 and err = err] fe fit(2) room(3) by auto
  have tg: "tk_relation_slot tok = ce_relation_slot x" "tk_slot_generation tok = ce_slot_generation x"
    using may_fill_tags(1,2)[OF mf] by simp_all
  define y where "y = filled tok False n xmin xid (pt_entry_generation pt2) True (descr x)"
  have yd: "ce_dirty_writers y = 0" using x(3) by (simp add: y_def filled_def drop_lease_def Let_def)
  obtain sy where sy: "read_fence_snapshot s (still fs) mp (Some y) = Some (sy, True)" "fence_snapshot_fences_match_token sy tok"
    using quiet_snapshot[OF q yd, of e] unfolding tok_def by metis
  have rt: "r = Inr True"
    using fill_spec[OF okp eid(1) fitted _ _ _ _ fe] tg room(2) nl sy unfolding n_def x_def y_def by (cases r) auto
  have tk: "tk_cacheable tok" "tk_has_entry tok" "tk_config_generation tok = mp_config_generation mp" "config_generation fs = mp_config_generation mp"
    using q by (simp_all add: tok_def quiet_token_def quiet_def)
  have run: "pglc_cache_store pr s (still fs) ev nows xid mp key tok value False lid xmin pt gl = (Inr True, pt2, gl2)"
    using tk ge mf fit(1) fe room(2) unfolding pglc_cache_store_def shift_still x_def rt n_def by simp
  note S = store_spec[OF okp h run, unfolded sum.case store_post_def if_P[OF TrueI]]
  have cl: "cells pt2 (mapped pr mp key) = Some (filled tok False (length value) xmin xid (pt_entry_generation pt2) True (leased tok now lid e), value)"
    using S e(1) unfolding tok_def by auto
  then show thesis using that[OF run[unfolded tok_def]] store_ok[OF ok h run] S unfolding tok_def by blast
qed


lemma cell_ident:
  assumes "cells pt (db, rel, slot, gen, key) = Some (e, v)"
  shows "ce_database_oid e = db" "ce_relation_oid e = rel" "ce_relation_slot e = slot" "ce_slot_generation e = gen"
proof -
  obtain x where x: "ident pt (entry_at pt x) = (db, rel, slot, gen, key)" "e = descr (entry_at pt x)" by (rule cells_SomeE[OF assms]) blast
  show "ce_database_oid e = db" "ce_relation_oid e = rel" "ce_relation_slot e = slot" "ce_slot_generation e = gen"
    using x(1) unfolding x(2) ident_def descr_def by simp_all
qed

lemma quiet_hit:
  assumes ok: "cache_ok hf pt" and h: "hashes hf pr mp key" and q: "quiet s mp fs" and c: "counted rest pt gl" "pglc_cache_entries s < 2 ^ 32"
    and e: "cells pt (mapped pr mp key) = Some (e, v)" "ce_valid e" "ce_dirty_writers e = 0" "ce_global_epoch e = global_epoch fs"
      "ce_relation_version e = rs_version (slot_at fs (mp_relation_slot mp))" "ce_relation_incarnation e = rs_incarnation (slot_at fs (mp_relation_slot mp))"
    and cap: "length v \<le> cap"
  obtains lr pt' gl' where "cache_lookup_locked pr s (still fs) ev nows mp key cap False pt gl = (Inr lr, pt', gl')" "lr_hit lr"
    "lr_negative lr = ce_negative e" "\<not> ce_negative e \<Longrightarrow> lr_value lr = v \<and> lr_source_xmin lr = ce_source_xmin e"
proof -
  obtain r pt' gl' where run: "cache_lookup_locked pr s (still fs) ev nows mp key cap False pt gl = (r, pt', gl')" using prod_cases3 by blast
  note L = lookup_spec[OF cache_okD(1)[OF ok] h c cache_okD(2)[OF ok] run]
  obtain lr where r: "r = Inr lr" using L by (cases r) auto
  note id = cell_ident[OF e(1)[unfolded mapped_def]]
  obtain sn where sn: "read_fence_snapshot s (still fs) mp (Some e) = Some (sn, True)" using quiet_snapshot[OF q e(3)] by blast
  have sv: "serves s (still fs) mp e"
    unfolding serves_iff[OF sn] using q e(2,4-6) id sn quiet_current[OF q, of e] by (simp add: quiet_def)
  note L' = L[unfolded r sum.case]
  have hit: "lr_hit lr" using L' e(1) sv cap by blast
  have "lr_negative lr = ce_negative e" "\<not> ce_negative e \<Longrightarrow> lr_value lr = v \<and> lr_source_xmin lr = ce_source_xmin e"
    using L' hit e(1) by simp_all
  then show thesis by (rule that[OF run[unfolded r] hit])
qed

section \<open>From a miss to a hit\<close>

text \<open>What the theorem of this section needs: a consistent partition, no active writer, a key that fits.\<close>

definition ready :: "(ident \<Rightarrow> nat) \<Rightarrow> process \<Rightarrow> settings \<Rightarrow> fences \<Rightarrow> mapping \<Rightarrow> char list \<Rightarrow> nat \<Rightarrow> partition \<Rightarrow> globals \<Rightarrow> bool" where
  "ready hf pr s fs mp key rest pt gl \<longleftrightarrow> cache_ok hf pt \<and> hashes hf pr mp key \<and> quiet s mp fs \<and> counted rest pt gl \<and>
     pglc_cache_entries s < 2 ^ 32 \<and> pt_entry_generation pt < UINT64_MAX - 1"

text \<open>
  The four calls of a request that misses: lookup, claim, store after the load, lookup. Nothing else changes
  the partition or the fences meanwhile.
\<close>

definition fill_round :: "process \<Rightarrow> settings \<Rightarrow> fences \<Rightarrow> fences \<Rightarrow> (nat \<Rightarrow> int) \<Rightarrow> int \<Rightarrow> nat \<Rightarrow> mapping \<Rightarrow> char list \<Rightarrow> char list \<Rightarrow>
   nat \<Rightarrow> nat \<Rightarrow> partition \<Rightarrow> globals \<Rightarrow> (load_claim \<times> bool \<times> lookup_result) option" where
  "fill_round pr s fs ev nows now xid mp key value cap xmin pt gl =
     (case pglc_cache_lookup pr s (still fs) ev nows (\<lambda>x. x) mp key cap pt gl of
        (Inl _, _) \<Rightarrow> None
      | (Inr lr, pt, gl) \<Rightarrow>
     (case pglc_cache_claim_load pr s (still fs) now mp key (lr_token lr) pt gl of
        (Inl _, _) \<Rightarrow> None
      | (Inr (claim, load_id), pt, gl) \<Rightarrow>
     (case pglc_cache_store pr s (still fs) ev nows xid mp key (lr_token lr) value False load_id xmin pt gl of
        (Inl _, _) \<Rightarrow> None
      | (Inr stored, pt, gl) \<Rightarrow>
     (case pglc_cache_lookup pr s (still fs) ev nows (\<lambda>x. x) mp key cap pt gl of
        (Inl _, _) \<Rightarrow> None
      | (Inr lr, _) \<Rightarrow> Some (claim, stored, lr)))))"

text \<open>How the two attempts of \<open>pglc_cache_lookup\<close> combine.\<close>

lemma lookup_first:
  assumes "cache_lookup_locked pr s (still fs) ev nows mp key cap False pt gl = (Inr lr, pt', gl')" "lr_complete lr" "\<not> lr_malformed lr"
  shows "pglc_cache_lookup pr s (still fs) ev nows (\<lambda>x. x) mp key cap pt gl = (Inr lr, pt', count_lookup pr True lr gl')"
  using assms by (simp add: pglc_cache_lookup_def pglc_cache_lookup_internal_def)


lemma hit_complete:
  assumes "cache_lookup_locked pr s obs fs nows mp key cap create pt gl = (Inr lr, pt', gl')" "lr_hit lr"
  shows "lr_complete lr"
  using assms by (auto simp: cache_lookup_locked_def copy_value_def blank_lookup_def Let_def split: if_splits option.splits sum.splits prod.splits)

lemma counted_lookup [simp]: "counted rest pt (count_lookup pr b lr gl) = counted rest pt gl"
  by (simp add: counted_def count_lookup_def add_stat_def)


lemma cold_round:
  assumes r: "cache_ok hf pt" "hashes hf pr mp key" "quiet s mp fs" "counted rest pt gl" "pglc_cache_entries s < 2 ^ 32" "pt_entry_generation pt \<noteq> UINT64_MAX"
    and e: "cells pt (mapped pr mp key) = Some (e, v)" "cold hf pt (mapped pr mp key)"
    and room: "length key + length value \<le> 256 \<or> has_room (pt_arena pt) (length key + length value)" "length value \<le> PGLC_VALUE_MAX" "length value \<le> cap"
    and run: "pglc_cache_lookup pr s (still fs) ev nows (\<lambda>x. x) mp key cap pt0 gl0 = (Inr lr, pt, gl)" "lr_token lr = quiet_token mp fs e"
  shows "\<exists>lr. fill_round pr s fs ev nows now xid mp key value cap xmin pt0 gl0 = Some (PGLC_LOAD_OWNER, True, lr) \<and>
    lr_hit lr \<and> \<not> lr_negative lr \<and> lr_value lr = value \<and> lr_source_xmin lr = xmin"
proof -
  define tok where "tok = quiet_token mp fs e"
  have ed: "ce_dirty_writers e = 0" using e by (simp add: cold_def)
  obtain pt1 gl1 where c1: "pglc_cache_claim_load pr s (still fs) now mp key tok pt gl = (Inr (PGLC_LOAD_OWNER, next_load_id (ce_load_id e)), pt1, gl1)"
    "cells pt1 = (cells pt)(mapped pr mp key \<mapsto> (leased tok now (next_load_id (ce_load_id e)) e, v))" "calm hf pt gl pt1 gl1"
    "pt_arena pt1 = pt_arena pt" "pt_entry_generation pt1 = pt_entry_generation pt"
    using cold_claimed[OF r(1-3) e, of now gl] unfolding tok_def by metis
  have ok1: "cache_ok hf pt1" by (rule calm_ok[OF r(1) c1(3)])
  have cl1: "cells pt1 (mapped pr mp key) = Some (leased (quiet_token mp fs e) now (next_load_id (ce_load_id e)) e, v)" unfolding c1(2) tok_def by simp
  obtain pt2 gl2 where c2: "pglc_cache_store pr s (still fs) ev nows xid mp key tok value False (next_load_id (ce_load_id e)) xmin pt1 gl1 = (Inr True, pt2, gl2)"
    "cells pt2 (mapped pr mp key) = Some (filled tok False (length value) xmin xid (pt_entry_generation pt2) True
       (leased tok now (next_load_id (ce_load_id e)) e), value)" "cache_ok hf pt2"
    using leased_stored[OF ok1 r(2,3) cl1 ed load_id_pos, of "value" ev nows xid xmin gl1] room(1,2) r(6) c1(4,5) unfolding tok_def by metis
  define f where "f = filled tok False (length value) xmin xid (pt_entry_generation pt2) True (leased tok now (next_load_id (ce_load_id e)) e)"
  have f: "ce_valid f" "ce_dirty_writers f = 0" "ce_global_epoch f = global_epoch fs" "ce_relation_version f = rs_version (slot_at fs (mp_relation_slot mp))"
    "ce_relation_incarnation f = rs_incarnation (slot_at fs (mp_relation_slot mp))" "\<not> ce_negative f" "ce_source_xmin f = xmin"
    using ed by (simp_all add: f_def filled_def leased_def drop_lease_def Let_def tok_def quiet_token_def)
  have "counted rest pt1 gl1" using c1(3) r(4) by (simp add: calm_def)
  then have ct: "counted rest pt2 gl2" using store_spec[OF cache_okD(1)[OF ok1] r(2) c2(1)] by (simp add: store_post_def)
  obtain lr' pt3 gl3 where h: "cache_lookup_locked pr s (still fs) ev nows mp key cap False pt2 gl2 = (Inr lr', pt3, gl3)" "lr_hit lr'"
    "\<not> lr_negative lr'" "lr_value lr' = value \<and> lr_source_xmin lr' = xmin"
    using quiet_hit[OF c2(3) r(2,3) ct r(5) c2(2)[folded f_def] f(1-5) room(3), of ev nows] f(6,7) by metis
  have "\<not> lr_malformed lr'" using lookup_spec[OF cache_okD(1)[OF c2(3)] r(2) ct r(5) cache_okD(2)[OF c2(3)] h(1)] by simp
  note look = lookup_first[OF h(1) hit_complete[OF h(1,2)] this]
  have "fill_round pr s fs ev nows now xid mp key value cap xmin pt0 gl0 = Some (PGLC_LOAD_OWNER, True, lr')"
    unfolding fill_round_def run(1) prod.case sum.case run(2) c1(1)[unfolded tok_def] c2(1)[unfolded tok_def] look by simp
  then show ?thesis using h by blast
qed


section \<open>A fresh partition has room\<close>

lemma fresh_pages:
  assumes "init_partition capacity marker_capacity key_capacity np keys vals = Some pt" "0 < np" "np \<le> 65535"
  shows "pages (pt_arena pt) = replicate np empty_page" "page_count (pt_arena pt) = np"
proof -
  have "pglc_arena_init (Some vals) (Some []) np = Some (pt_arena pt)"
    using assms(1) unfolding init_partition_def by (auto simp: bind_eq_Some_conv)
  then show "pages (pt_arena pt) = replicate np empty_page" "page_count (pt_arena pt) = np"
    using assms(2,3) by (auto simp: pglc_arena_init_def split: if_splits dest: sym)
qed

lemma fresh_admissible:
  assumes i: "init_partition capacity marker_capacity key_capacity np keys vals = Some pt"
    and n: "0 < capacity" "capacity \<le> 16777216" "marker_capacity \<le> 16777216" "key_capacity \<le> UINT32_MAX" "0 < np" "np \<le> 65535"
    and key: "length key < PGLC_KEY_MAX" and g: "gl_cache_entry_count gl < pglc_cache_entries s"
  shows "admissible s (key_query hf pr mp key pt) pt gl"
proof -
  define q where "q = key_query hf pr mp key pt"
  obtain b where b: "pglc_index_buckets_for capacity = Some b" "pt_index pt = pglc_index_init [] [] b" and p: "pt_free_entry_head pt = 1" "pt_entry_generation pt = 0"
    using i n(1) unfolding init_partition_def by (auto simp: bind_eq_Some_conv)
  have ok: "cache_ok hf pt" "untouched pt" using init_partition_spec[OF n(2-6), of keys vals hf] i by auto
  note ix = init_index(1)[OF n(2) b(1), of "\<lambda>_. 0", folded b(2)]
  have D: "index_dimensions_valid (pt_index pt)" "length (buckets (pt_index pt)) = bucket_count (pt_index pt)"
    "\<And>x. x \<in> set (buckets (pt_index pt)) \<Longrightarrow> \<not> is_live x" using index_okD(1,2,5)[OF ix] by auto
  have "probe_buckets (pt_index pt) h \<noteq> []" for h by (simp add: probe_buckets_def)
  then have "open_bucket pt h" for h
    unfolding open_bucket_def list_ex_iff using probe_bucket_less[OF D(1)] D(2,3) by (metis list.set_intros(1) neq_Nil_conv nth_mem)
  moreover have "\<not> pglc_index_needs_rebuild (pt_index pt)" using D(1) by (simp add: pglc_index_needs_rebuild_def b(2) pglc_index_init_def Let_def)
  moreover have "has_room (pt_arena pt) m" for m
    unfolding has_room_def using n(5) fresh_pages[OF i n(5,6)] by (intro exI[of _ 0]) (simp add: empty_page_def)
  moreover have "cache_marker_find pt (eq_hash q) (eq_key q) (eq_key_len q) (eq_relation_slot q) (eq_slot_generation q) = 0"
    using marker_find_spec(1)[OF cache_okD(2)[OF ok(1)] key] untouched_empty(6)[OF ok(2)]
    by (simp add: q_def key_query_def blank_entry_query_def)
  ultimately show ?thesis using p g by (simp add: admissible_def q_def[symmetric])
qed

text \<open>A concrete partition of eight entries, used by the examples.\<close>

definition demo_partition :: partition where
  "demo_partition = the (init_partition 8 8 8 1 (\<lambda>_. CHR 0x00) (\<lambda>_. CHR 0x00))"

definition demo_map :: mapping where
  "demo_map = demo_mapping\<lparr>mp_relation_slot_generation := 1\<rparr>"

definition demo_hash :: "ident \<Rightarrow> nat" where
  "demo_hash i = (case i of (db, rel, slot, gen, key) \<Rightarrow> cache_key_hash64 demo_process db ''t'' key (length key))"

lemma demo_init: "init_partition 8 8 8 1 (\<lambda>_. CHR 0x00) (\<lambda>_. CHR 0x00) = Some demo_partition"
  "cache_ok hf demo_partition" "untouched demo_partition" "pt_entry_count demo_partition = 0" "pt_entry_generation demo_partition = 0"
proof -
  obtain pt where "init_partition 8 8 8 1 (\<lambda>_. CHR 0x00) (\<lambda>_. CHR 0x00) = Some pt" "cache_ok hf pt" "untouched pt" "pt_entry_count pt = 0"
    "pt_entry_generation pt = 0"
    by (rule init_partition_spec[of 8 8 8 1 "\<lambda>_. CHR 0x00" "\<lambda>_. CHR 0x00" hf]) simp_all
  then show "init_partition 8 8 8 1 (\<lambda>_. CHR 0x00) (\<lambda>_. CHR 0x00) = Some demo_partition"
    "cache_ok hf demo_partition" "untouched demo_partition" "pt_entry_count demo_partition = 0" "pt_entry_generation demo_partition = 0"
    by (simp_all add: demo_partition_def)
qed

lemma fresh_ready:
  assumes "init_partition 8 8 8 np (\<lambda>_. CHR 0x00) (\<lambda>_. CHR 0x00) = Some pt" "0 < np" "np \<le> 65535"
  shows "ready demo_hash demo_process demo_settings demo_tagged demo_map ''k'' 0 pt start_globals"
    "cells pt (mapped demo_process demo_map ''k'') = None"
    "admissible demo_settings (key_query demo_hash demo_process demo_map ''k'' pt) pt start_globals"
proof -
  have p: "cache_ok demo_hash pt" "untouched pt" "pt_entry_count pt = 0" "pt_entry_generation pt = 0"
    using init_partition_spec[of 8 8 8 np "\<lambda>_. CHR 0x00" "\<lambda>_. CHR 0x00" demo_hash] assms by auto
  have "hashes demo_hash demo_process demo_map ''k''" by (simp add: hashes_def demo_hash_def mapped_def demo_map_def demo_mapping_def)
  moreover have "quiet demo_settings demo_map demo_tagged"
    by (simp add: quiet_def demo_map_def demo_mapping_def demo_tagged_def demo_fences_def demo_fields blank_slot_def)
  ultimately show "ready demo_hash demo_process demo_settings demo_tagged demo_map ''k'' 0 pt start_globals"
    using p by (simp add: ready_def counted_def start_globals_def demo_fields)
  show "cells pt (mapped demo_process demo_map ''k'') = None" using untouched_empty(5)[OF p(2)] by simp
  show "admissible demo_settings (key_query demo_hash demo_process demo_map ''k'' pt) pt start_globals"
    by (rule fresh_admissible[OF assms(1)]) (use assms in \<open>simp_all add: start_globals_def demo_fields\<close>)
qed

lemma demo_ready:
  "ready demo_hash demo_process demo_settings demo_tagged demo_map ''k'' 0 demo_partition start_globals"
  "cells demo_partition (mapped demo_process demo_map ''k'') = None"
  "admissible demo_settings (key_query demo_hash demo_process demo_map ''k'' demo_partition) demo_partition start_globals"
  using fresh_ready[OF demo_init(1)] by simp_all




section \<open>Properties\<close>



text \<open>C5: a load that was claimed is stored and read back. For a key whose entry has no value, no
  lease and no writer, and a value of up to 8 KiB for which the arena has room, the lookup hands
  out a token, the claim owns the load, the fill is accepted, and the next lookup returns exactly
  the bytes that were stored.\<close>

theorem store_lookup_roundtrip:
  assumes "ready hf pr s fs mp key rest pt gl" "cold hf pt (mapped pr mp key)"
    "length key + length value \<le> 256 \<or> has_room (pt_arena pt) (length key + length value)" "length value \<le> PGLC_VALUE_MAX" "length value \<le> cap"
  shows "\<exists>lr. fill_round pr s fs ev nows now xid mp key value cap xmin pt gl = Some (PGLC_LOAD_OWNER, True, lr) \<and>
    lr_hit lr \<and> \<not> lr_negative lr \<and> lr_value lr = value \<and> lr_source_xmin lr = xmin"
proof -
  note R = assms(1)[unfolded ready_def]
  obtain e v where e: "cells pt (mapped pr mp key) = Some (e, v)" "\<not> ce_valid e" "ce_dirty_writers e = 0"
    using assms(2) by (auto simp: cold_def split: option.splits)
  obtain lr where lr: "cache_lookup_locked pr s (still fs) ev nows mp key cap False pt gl = (Inr lr, pt, gl)" "lr_complete lr" "\<not> lr_malformed lr"
    "lr_token lr = quiet_token mp fs e"
    using cold_lookup[OF _ _ _ e, of hf s fs] R by metis
  from cold_round[where rest = rest, OF _ _ _ _ _ _ e(1) assms(2-5) lookup_first[OF lr(1-3)] lr(4)] show ?thesis using R by simp
qed

lemma demo_cold:
  obtains pt gl where "ready demo_hash demo_process demo_settings demo_tagged demo_map ''k'' 0 pt gl" "cold demo_hash pt (mapped demo_process demo_map ''k'')"
proof -
  note R = demo_ready(1)[unfolded ready_def]
  obtain pt gl where p: "cold demo_hash pt (mapped demo_process demo_map ''k'')" "calm demo_hash demo_partition start_globals pt gl"
    "pt_entry_generation pt = pt_entry_generation demo_partition + 1"
    using absent_admitted[of demo_hash demo_partition demo_process demo_map "''k''" demo_settings demo_tagged 0 start_globals, OF _ _ _ _ _ demo_ready(2,3)] R
    by metis
  have "cache_ok demo_hash pt" "counted 0 pt gl" using calm_ok[OF _ p(2)] p(2) R by (simp_all add: calm_def)
  then show thesis using that[of pt gl] R p(1,3) demo_init(5) by (simp add: ready_def)
qed

theorem store_lookup_roundtrip_witness:
  "\<exists>pt gl lr. cold demo_hash pt (mapped demo_process demo_map ''k'') \<and>
     fill_round demo_process demo_settings demo_tagged demo_tagged (\<lambda>_. 0) 0 3 demo_map ''k'' ''v1'' 64 700 pt gl =
      Some (PGLC_LOAD_OWNER, True, lr) \<and> lr_hit lr \<and> \<not> lr_negative lr \<and> lr_value lr = ''v1'' \<and> lr_source_xmin lr = 700"
proof -
  obtain pt gl where p: "ready demo_hash demo_process demo_settings demo_tagged demo_map ''k'' 0 pt gl" "cold demo_hash pt (mapped demo_process demo_map ''k'')"
    by (rule demo_cold)
  show ?thesis using store_lookup_roundtrip[OF p, of "''v1''" 64 demo_tagged "\<lambda>_. 0" 0 3 700] p(2) by auto
qed

end
