(* ===== verification/Publish.thy ===== *)
theory Publish
  imports Startup
begin

text \<open>
  How a writing transaction makes the cache stop serving what it changes: the publication of
  its dirty records before the commit and their release afterwards, src/src/pg_local_cache.c
  lines 3734 to 3833, 3872 to 3984 and 4668 to 5235.

  \<^item> A step works on a \<open>publication\<close>: the shared state and the dirty records of the process. It
    returns \<open>Inl\<close> for an error that the code raises, with the state reached so far.
  \<^item> The records are addressed by their position in the sorted vector of the process.
  \<^item> Each lock section of the code is one definition. The functions below compose the sections
    of one process; how sections of several processes interleave is the subject of \<open>Coherence\<close>.
\<close>

section \<open>Steps\<close>

record publication =
  pb_shared :: shared_state
  pb_local :: local_dirty

type_synonym 'a step = "publication \<Rightarrow> (cache_error + 'a) \<times> publication"

definition ret :: "'a \<Rightarrow> 'a step" where
  "ret x p = (Inr x, p)"

definition bind_step :: "'a step \<Rightarrow> ('a \<Rightarrow> 'b step) \<Rightarrow> 'b step" where
  "bind_step m f p = (case m p of (Inl e, p) \<Rightarrow> (Inl e, p) | (Inr x, p) \<Rightarrow> f x p)"

text \<open>A loop that stops at the first step that returns false, and one that does not.\<close>

fun while_ok :: "('i \<Rightarrow> bool step) \<Rightarrow> 'i list \<Rightarrow> bool step" where
  "while_ok f [] = ret True"
| "while_ok f (i # is) = bind_step (f i) (\<lambda>ok. if ok then while_ok f is else ret False)"

fun for_all :: "('i \<Rightarrow> unit step) \<Rightarrow> 'i list \<Rightarrow> unit step" where
  "for_all f [] = ret ()"
| "for_all f (i # is) = bind_step (f i) (\<lambda>_. for_all f is)"

abbreviation pb_locals :: "publication \<Rightarrow> local_dirty_entry list" where
  "pb_locals p \<equiv> dirty_ordered (pb_local p)"

abbreviation pb_fences :: "publication \<Rightarrow> fences" where
  "pb_fences p \<equiv> sh_fences (pb_shared p)"

abbreviation pb_registry :: "publication \<Rightarrow> registry" where
  "pb_registry p \<equiv> sh_registry (pb_shared p)"

abbreviation indices :: "publication \<Rightarrow> nat list" where
  "indices p \<equiv> [0..<length (pb_locals p)]"

definition set_local :: "nat \<Rightarrow> local_dirty_entry \<Rightarrow> publication \<Rightarrow> publication" where
  "set_local i l p = p\<lparr>pb_local := (pb_local p)\<lparr>dirty_ordered := (pb_locals p)[i := l]\<rparr>\<rparr>"

definition set_fences :: "fences \<Rightarrow> publication \<Rightarrow> publication" where
  "set_fences fs p = p\<lparr>pb_shared := (pb_shared p)\<lparr>sh_fences := fs\<rparr>\<rparr>"

definition set_registry :: "registry \<Rightarrow> publication \<Rightarrow> publication" where
  "set_registry rg p = p\<lparr>pb_shared := (pb_shared p)\<lparr>sh_registry := rg\<rparr>\<rparr>"

definition set_globals :: "globals \<Rightarrow> publication \<Rightarrow> publication" where
  "set_globals gl p = p\<lparr>pb_shared := (pb_shared p)\<lparr>sh_globals := gl\<rparr>\<rparr>"

definition set_partition :: "nat \<Rightarrow> partition \<Rightarrow> publication \<Rightarrow> publication" where
  "set_partition k pt p = p\<lparr>pb_shared := (pb_shared p)\<lparr>sh_partitions := (sh_partitions (pb_shared p))[k := pt]\<rparr>\<rparr>"

text \<open>A step on the fences alone.\<close>

definition fence_step :: "(fences \<Rightarrow> (cache_error + 'a) \<times> fences) \<Rightarrow> 'a step" where
  "fence_step f p = (case f (pb_fences p) of (r, fs) \<Rightarrow> (r, set_fences fs p))"

definition note_stat :: "process \<Rightarrow> counter \<Rightarrow> nat \<Rightarrow> publication \<Rightarrow> publication" where
  "note_stat pr c n p =
     (let gl = sh_globals (pb_shared p) in set_globals (gl\<lparr>gl_stats := pglc_worker_stat_add pr c n (gl_stats gl)\<rparr>) p)"

section \<open>Relation handles\<close>

definition local_relation_state_locked :: "local_dirty_entry \<Rightarrow> registry \<Rightarrow> relation_state option" where
  "local_relation_state_locked l rg = hash_find rg (make_relation_key (dk_database_oid (de_key l)) (dk_nspace (de_key l)))"

definition reserve_relation_handle_locked :: "settings \<Rightarrow> nat \<Rightarrow> bool step" where
  "reserve_relation_handle_locked s i p =
     (let l = pb_locals p ! i in
      case local_relation_state_locked l (pb_registry p) of
        None \<Rightarrow> (Inr False, p)
      | Some state \<Rightarrow>
        if pglc_relation_states s \<le> shared_slot l \<or> rst_slot state \<noteq> shared_slot l \<or>
           rst_slot_generation state \<noteq> shared_slot_generation l \<or> rst_pending_forget state \<or> rst_identity_pins state = 0
        then (Inr False, p)
        else
          let slot = slot_at (pb_fences p) (rst_slot state) in
          if rs_generation slot \<noteq> shared_slot_generation l \<or> rs_incarnation slot \<noteq> shared_relation_incarnation l
          then (Inr False, p)
          else (Inr True, set_local i (l\<lparr>shared_relation_reserved := True\<rparr>) p))"

text \<open>The first loop of \<open>release_relation_handles_locked\<close>: a committed forget marks the identity.\<close>

definition mark_forgotten :: "nat \<Rightarrow> unit step" where
  "mark_forgotten i p =
     (let l = pb_locals p ! i in
      if dk_kind (de_key l) \<noteq> PGLC_DIRTY_FORGET_RELATION then (Inr (), p)
      else case local_relation_state_locked l (pb_registry p) of
        None \<Rightarrow> (Inr (), p)
      | Some state \<Rightarrow>
        if rst_slot state = shared_slot l \<and> rst_slot_generation state = shared_slot_generation l \<and>
           rs_incarnation (slot_at (pb_fences p) (rst_slot state)) = target_relation_incarnation l
        then (Inr (), set_registry (hash_update (state\<lparr>rst_pending_forget := True\<rparr>) (pb_registry p)) p)
        else (Inr (), p))"

definition drop_handle :: "nat \<Rightarrow> publication \<Rightarrow> publication" where
  "drop_handle i p = set_local i ((pb_locals p ! i)\<lparr>shared_identity_pin := False, shared_relation_reserved := False,
     shared_relation_fence_published := False\<rparr>) p"

definition release_handle :: "settings \<Rightarrow> nat \<Rightarrow> unit step" where
  "release_handle s i p =
     (let l = pb_locals p ! i in
      if \<not> shared_identity_pin l \<and> \<not> shared_relation_reserved l then (Inr (), p)
      else case local_relation_state_locked l (pb_registry p) of
        None \<Rightarrow> (Inr (), drop_handle i p)
      | Some state \<Rightarrow>
        if \<not> (shared_slot l < pglc_relation_states s \<and> rst_slot state = shared_slot l \<and>
              rst_slot_generation state = shared_slot_generation l \<and>
              rs_incarnation (slot_at (pb_fences p) (rst_slot state)) = shared_relation_incarnation l)
        then (Inr (), drop_handle i p)
        else case (if shared_identity_pin l then release_relation_identity_pin state else Inr state) of
          Inl e \<Rightarrow> (Inl e, p)
        | Inr state \<Rightarrow>
          let p = set_registry (hash_update state (pb_registry p)) p in
          if rst_identity_pins state = 0 \<and> rs_dirty_writers (slot_at (pb_fences p) (rst_slot state)) = 0 \<and> rst_pending_forget state
          then (case release_relation_slot s state (pb_fences p) of
                  (Inl e, fs) \<Rightarrow> (Inl e, set_fences fs p)
                | (Inr _, fs) \<Rightarrow>
                  (Inr (), drop_handle i (set_registry (hash_remove (rst_key state) (pb_registry p)) (set_fences fs p))))
          else (Inr (), drop_handle i p))"

definition release_relation_handles_locked :: "process \<Rightarrow> settings \<Rightarrow> bool \<Rightarrow> unit step" where
  "release_relation_handles_locked pr s committed p =
     (let p = p\<lparr>pb_local := ordered_local_dirty_entries pr (pb_local p)\<rparr>
      in bind_step (if committed then for_all mark_forgotten (indices p) else ret ())
           (\<lambda>_. for_all (release_handle s) (indices p)) p)"

text \<open>The identity that a record is bound to while it is pinned.\<close>

definition pin_identity :: "relation_state \<Rightarrow> nat \<Rightarrow> publication \<Rightarrow> publication" where
  "pin_identity state i p =
     (let p = set_registry (hash_update (state\<lparr>rst_identity_pins := rst_identity_pins state + 1\<rparr>) (pb_registry p)) p
      in set_local i ((pb_locals p ! i)\<lparr>shared_identity_pin := True, shared_slot := rst_slot state,
           shared_slot_generation := rst_slot_generation state,
           shared_relation_incarnation := rs_incarnation (slot_at (pb_fences p) (rst_slot state))\<rparr>) p)"

definition pin_relation :: "process \<Rightarrow> settings \<Rightarrow> nat \<Rightarrow> bool step" where
  "pin_relation pr s i p =
     (let l = pb_locals p ! i; k = de_key l in
      if dk_kind k = PGLC_DIRTY_GLOBAL \<or> dk_kind k = PGLC_DIRTY_FORGET_RELATION then (Inr True, p)
      else case get_relation_state pr s (dk_database_oid k) (de_relation_oid l) (dk_nspace k) True (pb_fences p) (pb_registry p)
                  (gl_stats (sh_globals (pb_shared p))) of
        (r, fs, rg, st) \<Rightarrow>
          let p = set_globals ((sh_globals (pb_shared p))\<lparr>gl_stats := st\<rparr>) (set_registry rg (set_fences fs p)) in
          case r of
            Inl e \<Rightarrow> (Inl e, p)
          | Inr None \<Rightarrow> (Inr False, p)
          | Inr (Some state) \<Rightarrow>
            if (de_relation_oid l \<noteq> InvalidOid \<and> rst_relation_oid state \<noteq> de_relation_oid l) \<or> rst_pending_forget state \<or>
               rst_identity_pins state = UINT64_MAX
            then (Inr False, p)
            else
              let p = pin_identity state i p in
              if dk_kind k = PGLC_DIRTY_RELATION then reserve_relation_handle_locked s i p else (Inr True, p))"

definition resolve_and_pin_relations :: "process \<Rightarrow> settings \<Rightarrow> bool step" where
  "resolve_and_pin_relations pr s p =
     (let p = p\<lparr>pb_local := ordered_local_dirty_entries pr (pb_local p)\<rparr>
      in bind_step (while_ok (pin_relation pr s) (indices p))
           (\<lambda>ok. if ok then ret True else bind_step (release_relation_handles_locked pr s False) (\<lambda>_. ret False)) p)"

definition pin_forget :: "settings \<Rightarrow> nat \<Rightarrow> unit step" where
  "pin_forget s i p =
     (let l = pb_locals p ! i in
      if dk_kind (de_key l) \<noteq> PGLC_DIRTY_FORGET_RELATION then (Inr (), p)
      else case local_relation_state_locked l (pb_registry p) of
        None \<Rightarrow> (Inr (), p)
      | Some state \<Rightarrow>
        if rst_relation_oid state \<noteq> de_relation_oid l \<or> rst_pending_forget state then (Inr (), p)
        else if pglc_relation_states s \<le> rst_slot state then (Inl Invalid_Forget_Slot, p)
        else if rst_identity_pins state = UINT64_MAX then (Inl Identity_Pin_Overflow, p)
        else
          let p = pin_identity state i p;
              l = pb_locals p ! i;
              p = set_local i (l\<lparr>target_relation_incarnation := shared_relation_incarnation l\<rparr>) p
          in case reserve_relation_handle_locked s i p of
               (Inl e, p) \<Rightarrow> (Inl e, p)
             | (Inr False, p) \<Rightarrow> (Inl Forget_Identity_Lost, p)
             | (Inr True, p) \<Rightarrow> (Inr (), p))"

definition resolve_and_pin_forget_relations :: "process \<Rightarrow> settings \<Rightarrow> unit step" where
  "resolve_and_pin_forget_relations pr s p =
     (let p = p\<lparr>pb_local := ordered_local_dirty_entries pr (pb_local p)\<rparr> in for_all (pin_forget s) (indices p) p)"

section \<open>Keys\<close>

text \<open>
  The sections under a partition lock. A key with an entry makes the entry dirty, a key
  without one gets a marker; \<open>false\<close> means that neither was possible.
\<close>

definition reserve_key ::
  "process \<Rightarrow> settings \<Rightarrow> local_dirty_entry \<Rightarrow> partition \<Rightarrow> globals \<Rightarrow>
   (cache_error + bool) \<times> local_dirty_entry \<times> partition \<times> globals" where
  "reserve_key pr s l pt gl =
     (case get_cache_entry_with_cached_hash pr s l pt of
        None \<Rightarrow>
          (case reserve_cache_marker l pt gl of
             (None, pt, gl) \<Rightarrow> (Inr False, l, pt, gl\<lparr>gl_stats := pg_atomic_fetch_add_u64 dirty_marker_fallbacks_total 1 (gl_stats gl)\<rparr>)
           | (Some (marker_id, generation), pt, gl) \<Rightarrow>
               (Inr True, l\<lparr>shared_marker_id := marker_id, shared_marker_generation := generation, shared_marker_reserved := True\<rparr>, pt, gl))
      | Some eid \<Rightarrow>
          if ce_dirty_writers (entry_at pt eid) = UINT32_MAX then (Inr False, l, pt, gl)
          else
            let gl = (if ce_valid (entry_at pt eid) then add_stat pr key_invalidations (add_stat pr invalidations gl) else gl)
            in case retire_entry eid pt of
                 (Inl e, pt) \<Rightarrow> (Inl e, l, pt, gl)
               | (Inr _, pt) \<Rightarrow>
                   (Inr True, l\<lparr>shared_entry_reserved := True, shared_marker_reserved := True\<rparr>,
                    set_entry eid ((entry_at pt eid)\<lparr>ce_dirty_writers := ce_dirty_writers (entry_at pt eid) + 1\<rparr>) pt, gl))"

definition restamp_key :: "process \<Rightarrow> settings \<Rightarrow> local_dirty_entry \<Rightarrow> partition \<Rightarrow> (cache_error + unit) \<times> partition" where
  "restamp_key pr s l pt =
     (if \<not> shared_entry_reserved l then (Inr (), pt)
      else case get_cache_entry_with_cached_hash pr s l pt of
        None \<Rightarrow> (Inr (), pt)
      | Some eid \<Rightarrow> restamp_entry eid pt)"

definition release_key ::
  "process \<Rightarrow> settings \<Rightarrow> local_dirty_entry \<Rightarrow> partition \<Rightarrow> globals \<Rightarrow>
   (cache_error + unit) \<times> local_dirty_entry \<times> partition \<times> globals" where
  "release_key pr s l pt gl =
     (let l' = l\<lparr>shared_marker_reserved := False, shared_entry_reserved := False, shared_marker_id := 0, shared_marker_generation := 0\<rparr> in
      if \<not> shared_marker_reserved l then (Inr (), l, pt, gl)
      else if shared_entry_reserved l
      then (case get_cache_entry_with_cached_hash pr s l pt of
              None \<Rightarrow> (Inr (), l', pt, gl)
            | Some eid \<Rightarrow>
                let e = entry_at pt eid in
                if 0 < ce_dirty_writers e
                then (Inr (), l', set_entry eid (e\<lparr>ce_valid := False, ce_dirty_writers := ce_dirty_writers e - 1\<rparr>) pt, gl)
                else (Inr (), l', pt, gl))
      else if shared_marker_id l \<noteq> 0
      then (case release_cache_marker (shared_marker_id l) (shared_marker_generation l) pt gl of
              (Inl e, pt, gl) \<Rightarrow> (Inl e, l, pt, gl)
            | (Inr _, pt, gl) \<Rightarrow> (Inr (), l', pt, gl))
      else (Inr (), l', pt, gl))"

text \<open>The records that name a key are the first ones of the sorted vector.\<close>

definition keyed :: "publication \<Rightarrow> nat list" where
  "keyed p = takeWhile (\<lambda>i. de_partition (pb_locals p ! i) \<noteq> UINT32_MAX) (indices p)"

definition at_partition ::
  "(local_dirty_entry \<Rightarrow> partition \<Rightarrow> globals \<Rightarrow> (cache_error + 'a) \<times> local_dirty_entry \<times> partition \<times> globals) \<Rightarrow> nat \<Rightarrow> 'a step" where
  "at_partition f i p =
     (let l = pb_locals p ! i; k = de_partition l in
      case f l (sh_partitions (pb_shared p) ! k) (sh_globals (pb_shared p)) of
        (r, l, pt, gl) \<Rightarrow> (r, set_local i l (set_globals gl (set_partition k pt p))))"

definition reserve_key_entries :: "process \<Rightarrow> settings \<Rightarrow> bool step" where
  "reserve_key_entries pr s p = while_ok (at_partition (reserve_key pr s)) (keyed p) p"

definition restamp_keys :: "process \<Rightarrow> settings \<Rightarrow> unit step" where
  "restamp_keys pr s p =
     for_all (at_partition (\<lambda>l pt gl. case restamp_key pr s l pt of (r, pt) \<Rightarrow> (r, l, pt, gl))) (keyed p) p"

definition release_keys :: "process \<Rightarrow> settings \<Rightarrow> unit step" where
  "release_keys pr s p = for_all (at_partition (release_key pr s)) (keyed p) p"

section \<open>Publication\<close>

definition begin_relation_fence :: "nat \<Rightarrow> unit step" where
  "begin_relation_fence i p =
     (let k = shared_slot (pb_locals p ! i) in
      bind_step (fence_step (add_slot_dirty_writers k)) (\<lambda>_.
      bind_step (fence_step (advance_slot_version k)) (\<lambda>_ p.
        (Inr (), set_local i ((pb_locals p ! i)\<lparr>shared_relation_fence_published := True\<rparr>) p))) p)"

definition begin_global_fence :: "unit step" where
  "begin_global_fence =
     bind_step (fence_step add_global_dirty_writers) (\<lambda>_.
     bind_step (fence_step advance_global_version_locked) (\<lambda>_.
     bind_step (fence_step invalidate_all_locked) (\<lambda>_. ret ())))"

text \<open>A key that could not be reserved falls back to its relation.\<close>

definition fall_back_to_relation :: "settings \<Rightarrow> nat \<Rightarrow> bool step" where
  "fall_back_to_relation s i p =
     (let l = pb_locals p ! i in
      if dk_kind (de_key l) = PGLC_DIRTY_KEY \<and> \<not> shared_marker_reserved l then reserve_relation_handle_locked s i p
      else (Inr True, p))"

definition begin_reserved_fence :: "nat \<Rightarrow> unit step" where
  "begin_reserved_fence i p = (if shared_relation_reserved (pb_locals p ! i) then begin_relation_fence i p else (Inr (), p))"

text \<open>The three attempts before the fences go up; the result is \<open>global_fallback\<close>.\<close>

definition reserve_dirty :: "process \<Rightarrow> settings \<Rightarrow> bool step" where
  "reserve_dirty pr s p =
     bind_step (if has_global_dirty_record (pb_local p) then ret True
                else bind_step (resolve_and_pin_relations pr s) (\<lambda>ok. ret (\<not> ok)))
       (\<lambda>global. if global then ret True
         else bind_step (reserve_key_entries pr s)
           (\<lambda>ok. if ok then ret False
             else bind_step (\<lambda>p. while_ok (fall_back_to_relation s) (indices p) p) (\<lambda>ok. ret (\<not> ok)))) p"

definition pglc_publish_dirty :: "process \<Rightarrow> settings \<Rightarrow> unit step" where
  "pglc_publish_dirty pr s p =
     (if dirty_count (pb_local p) = 0 \<or> dirty_published (pb_local p) then (Inr (), p)
      else
        bind_step (reserve_dirty pr s) (\<lambda>global.
        bind_step (resolve_and_pin_forget_relations pr s) (\<lambda>_.
        bind_step
          (if global
           then bind_step begin_global_fence (\<lambda>_ p. (Inr 0, p\<lparr>pb_local := (pb_local p)\<lparr>dirty_global_fallback := True\<rparr>\<rparr>))
           else bind_step (\<lambda>p. for_all begin_reserved_fence (indices p) p) (\<lambda>_.
                bind_step (restamp_keys pr s) (\<lambda>_ p.
                  (Inr (length (filter shared_relation_fence_published (pb_locals p))), p))))
          (\<lambda>invalidated p.
             (Inr (), note_stat pr table_invalidations invalidated (note_stat pr invalidations invalidated
                (p\<lparr>pb_local := (pb_local p)\<lparr>dirty_published := True\<rparr>\<rparr>))))))
          (p\<lparr>pb_local := ordered_local_dirty_entries pr (pb_local p)\<rparr>))"

section \<open>The end of the transaction\<close>

definition bump_config_generation :: "fences \<Rightarrow> (cache_error + unit) \<times> fences" where
  "bump_config_generation fs =
     (case pglc_atomic_fetch_add_checked (config_generation fs) 1 of
        (Inl e, _) \<Rightarrow> (Inl e, fs)
      | (Inr _, v) \<Rightarrow> (Inr (), fs\<lparr>config_generation := v\<rparr>))"

text \<open>The version step is checked, the writer count goes down without a check.\<close>

definition finish_global_fence :: "unit step" where
  "finish_global_fence =
     bind_step (fence_step advance_global_version_locked) (\<lambda>_ p.
       (Inr (), set_fences ((pb_fences p)\<lparr>global_dirty_writers := u64_sub (global_dirty_writers (pb_fences p)) 1\<rparr>) p))"

definition finish_relation_fence :: "nat \<Rightarrow> unit step" where
  "finish_relation_fence i p =
     (let k = shared_slot (pb_locals p ! i) in
      if \<not> shared_relation_fence_published (pb_locals p ! i) then (Inr (), p)
      else bind_step (fence_step (advance_slot_version k)) (\<lambda>_. fence_step (sub_slot_dirty_writers k)) p)"

definition finish_reset :: "unit step" where
  "finish_reset p =
     (case reset_local_dirty (pb_local p) of
        Inl e \<Rightarrow> (Inl e, p)
      | Inr ld \<Rightarrow> (Inr (), p\<lparr>pb_local := ld\<rparr>))"

definition pglc_finish_dirty :: "process \<Rightarrow> settings \<Rightarrow> bool \<Rightarrow> unit step" where
  "pglc_finish_dirty pr s committed p =
     (let ld = pb_local p; published = dirty_published ld; bump = (committed \<and> dirty_bump_config ld) in
      if dirty_count ld = 0 \<and> \<not> dirty_global_fallback ld \<and> \<not> dirty_bump_config ld then finish_reset p
      else if published \<or> \<not> committed
      then
        bind_step (if published \<and> bump then fence_step bump_config_generation else ret ()) (\<lambda>_.
        bind_step (if dirty_global_fallback ld then finish_global_fence else ret ()) (\<lambda>_.
        bind_step (\<lambda>p. for_all finish_relation_fence (indices p) p) (\<lambda>_.
        bind_step (release_keys pr s) (\<lambda>_.
        bind_step (release_relation_handles_locked pr s (published \<and> committed)) (\<lambda>_.
        bind_step (if bump \<and> \<not> published then fence_step bump_config_generation else ret ()) (\<lambda>_. finish_reset))))))
          (p\<lparr>pb_local := ordered_local_dirty_entries pr ld\<rparr>)
      else bind_step (if bump then fence_step bump_config_generation else ret ()) (\<lambda>_. finish_reset) p)"

datatype xact_event =
    XACT_EVENT_PRE_COMMIT | XACT_EVENT_PARALLEL_PRE_COMMIT | XACT_EVENT_COMMIT | XACT_EVENT_PARALLEL_COMMIT
  | XACT_EVENT_ABORT | XACT_EVENT_PARALLEL_ABORT | XACT_EVENT_PRE_PREPARE | XACT_EVENT_PREPARE

definition pglc_xact_callback :: "process \<Rightarrow> settings \<Rightarrow> xact_event \<Rightarrow> unit step" where
  "pglc_xact_callback pr s event p =
     (let ld = pb_local p in
      if \<not> attached_table_touched ld \<and> dirty_count ld = 0 \<and> \<not> dirty_global_fallback ld \<and> \<not> dirty_bump_config ld
      then (Inr (), p)
      else case event of
        XACT_EVENT_PRE_COMMIT \<Rightarrow> pglc_publish_dirty pr s p
      | XACT_EVENT_PARALLEL_PRE_COMMIT \<Rightarrow> pglc_publish_dirty pr s p
      | XACT_EVENT_COMMIT \<Rightarrow> pglc_finish_dirty pr s True p
      | XACT_EVENT_PARALLEL_COMMIT \<Rightarrow> pglc_finish_dirty pr s True p
      | XACT_EVENT_ABORT \<Rightarrow> pglc_finish_dirty pr s False p
      | XACT_EVENT_PARALLEL_ABORT \<Rightarrow> pglc_finish_dirty pr s False p
      | XACT_EVENT_PRE_PREPARE \<Rightarrow>
          if attached_table_touched ld \<or> 0 < dirty_count ld then (Inl Prepare_Unsupported, p) else (Inr (), p)
      | XACT_EVENT_PREPARE \<Rightarrow> (Inr (), p))"

definition pglc_backend_exit :: "process \<Rightarrow> settings \<Rightarrow> unit step" where
  "pglc_backend_exit pr s p =
     (if 0 < dirty_count (pb_local p) \<or> dirty_global_fallback (pb_local p) then pglc_finish_dirty pr s False p
      else (Inr (), p))"

section \<open>Invalidation of a namespace, a database and everything\<close>

text \<open>
  The counting scans run partition by partition under the shared lock; \<open>count_entries test\<close> is
  the number of entries in use that satisfy the test, in all partitions. \<open>obs k eid\<close> is what the
  fence reads for entry \<open>eid\<close> of partition \<open>k\<close> see.
\<close>

definition count_entries :: "(nat \<Rightarrow> nat \<Rightarrow> cache_entry \<Rightarrow> bool) \<Rightarrow> shared_state \<Rightarrow> nat" where
  "count_entries test sh = sum_list (map (\<lambda>(k, pt). length (filter (\<lambda>eid. ce_in_use (entry_at pt eid) \<and> test k eid (entry_at pt eid))
     [1..<Suc (pt_capacity pt)])) (enumerate 0 (sh_partitions sh)))"

definition note_invalidations :: "process \<Rightarrow> nat \<Rightarrow> publication \<Rightarrow> publication" where
  "note_invalidations pr n p = note_stat pr table_invalidations 1 (note_stat pr invalidations n p)"

text \<open>The namespace: its slot, if it has one and the pin count is not exhausted.\<close>

definition pin_namespace :: "process \<Rightarrow> settings \<Rightarrow> nat \<Rightarrow> char list \<Rightarrow> (nat \<times> nat) option step" where
  "pin_namespace pr s database_oid nspace p =
     (case hash_find (pb_registry p) (make_relation_key database_oid nspace) of
        None \<Rightarrow> (Inr None, p)
      | Some state \<Rightarrow>
        if rst_identity_pins state = UINT64_MAX then (Inr None, p)
        else (Inr (Some (rst_slot state, rst_slot_generation state)),
              set_registry (hash_update (state\<lparr>rst_identity_pins := rst_identity_pins state + 1\<rparr>) (pb_registry p)) p))"

definition unpin_namespace :: "process \<Rightarrow> settings \<Rightarrow> nat \<Rightarrow> char list \<Rightarrow> nat \<Rightarrow> nat \<Rightarrow> unit step" where
  "unpin_namespace pr s database_oid nspace slot_index slot_generation p =
     (case hash_find (pb_registry p) (make_relation_key database_oid nspace) of
        None \<Rightarrow> (Inr (), p)
      | Some state \<Rightarrow>
        if rst_slot state \<noteq> slot_index \<or> rst_slot_generation state \<noteq> slot_generation then (Inr (), p)
        else case release_relation_identity_pin state of
          Inl e \<Rightarrow> (Inl e, p)
        | Inr state \<Rightarrow>
          let p = set_registry (hash_update state (pb_registry p)) p in
          if rst_identity_pins state = 0 \<and> rs_dirty_writers (slot_at (pb_fences p) slot_index) = 0 \<and> rst_pending_forget state
          then (case release_relation_slot s state (pb_fences p) of
                  (Inl e, fs) \<Rightarrow> (Inl e, set_fences fs p)
                | (Inr _, fs) \<Rightarrow> (Inr (), set_registry (hash_remove (rst_key state) (pb_registry p)) (set_fences fs p)))
          else (Inr (), p))"

text \<open>
  Raise the fence of the slot if it still belongs to the namespace. The result are the tags
  an entry must have to be counted: epoch, incarnation and the version before the step.
\<close>

definition raise_namespace_fence :: "nat \<Rightarrow> nat \<Rightarrow> (nat \<times> nat \<times> nat) step" where
  "raise_namespace_fence slot_index slot_generation p =
     (let slot = slot_at (pb_fences p) slot_index in
      if rs_generation slot \<noteq> slot_generation then (Inr (0, 0, 0), p)
      else bind_step (fence_step (add_slot_dirty_writers slot_index)) (\<lambda>_.
           bind_step (fence_step (advance_slot_version slot_index)) (\<lambda>version.
             ret (global_epoch (pb_fences p), rs_incarnation slot, version))) p)"

definition lower_namespace_fence :: "nat \<Rightarrow> nat \<Rightarrow> unit step" where
  "lower_namespace_fence slot_index slot_generation p =
     (if rs_generation (slot_at (pb_fences p) slot_index) \<noteq> slot_generation then (Inr (), p)
      else bind_step (fence_step (advance_slot_version slot_index)) (\<lambda>_. fence_step (sub_slot_dirty_writers slot_index)) p)"

definition pglc_cache_invalidate_namespace :: "process \<Rightarrow> settings \<Rightarrow> nat \<Rightarrow> char list \<Rightarrow> nat step" where
  "pglc_cache_invalidate_namespace pr s database_oid nspace =
     bind_step (pin_namespace pr s database_oid nspace) (\<lambda>pinned.
       case pinned of
         None \<Rightarrow> (\<lambda>p. (Inr 0, note_invalidations pr 1 p))
       | Some (slot_index, slot_generation) \<Rightarrow>
           bind_step (raise_namespace_fence slot_index slot_generation) (\<lambda>(epoch, incarnation, version) p.
             let count = count_entries (\<lambda>_ _ e. ce_database_oid e = database_oid \<and> ce_valid e \<and> ce_relation_slot e = slot_index \<and>
                   ce_slot_generation e = slot_generation \<and> ce_global_epoch e = epoch \<and> ce_relation_incarnation e = incarnation \<and>
                   ce_relation_version e = version) (pb_shared p)
             in bind_step (lower_namespace_fence slot_index slot_generation) (\<lambda>_.
                bind_step (unpin_namespace pr s database_oid nspace slot_index slot_generation) (\<lambda>_ p.
                  (Inr count, note_invalidations pr 1 p))) p))"

text \<open>A database: count, then step every slot of the database twice under the registry lock.\<close>

definition cycle_slot_fence :: "nat \<Rightarrow> unit step" where
  "cycle_slot_fence slot_index =
     bind_step (fence_step (add_slot_dirty_writers slot_index)) (\<lambda>_.
     bind_step (fence_step (advance_slot_version slot_index)) (\<lambda>_.
     bind_step (fence_step (advance_slot_version slot_index)) (\<lambda>_.
       fence_step (sub_slot_dirty_writers slot_index))))"

definition pglc_cache_invalidate_database :: "process \<Rightarrow> settings \<Rightarrow> (nat \<Rightarrow> nat \<Rightarrow> observations) \<Rightarrow> nat \<Rightarrow> nat step" where
  "pglc_cache_invalidate_database pr s obs database_oid p =
     (let count = count_entries (\<lambda>k eid e. ce_database_oid e = database_oid \<and> cache_entry_is_current_slot_locked s (obs k eid) e) (pb_shared p)
      in bind_step (for_all cycle_slot_fence (map rst_slot (filter (\<lambda>st. rk_database_oid (rst_key st) = database_oid)
             (relation_hash (pb_registry p))))) (\<lambda>_ p. (Inr count, note_invalidations pr count p)) p)"

definition pglc_cache_invalidate_all :: "process \<Rightarrow> settings \<Rightarrow> (nat \<Rightarrow> nat \<Rightarrow> observations) \<Rightarrow> nat step" where
  "pglc_cache_invalidate_all pr s obs =
     bind_step (fence_step add_global_dirty_writers) (\<lambda>_.
     bind_step (fence_step advance_global_version_locked) (\<lambda>_ p.
       let count = count_entries (\<lambda>k eid e. cache_entry_is_current_slot_locked s (obs k eid) e) (pb_shared p)
       in bind_step (fence_step invalidate_all_locked) (\<lambda>_.
          bind_step (fence_step advance_global_version_locked) (\<lambda>_.
          bind_step (fence_step sub_global_dirty_writers) (\<lambda>_ p. (Inr count, note_invalidations pr count p)))) p))"

text \<open>The switch of one process: \<open>applied\<close> is its static variable.\<close>

definition pglc_sync_cache_enabled :: "process \<Rightarrow> settings \<Rightarrow> (nat \<Rightarrow> nat \<Rightarrow> observations) \<Rightarrow> bool \<Rightarrow> bool \<Rightarrow> bool step" where
  "pglc_sync_cache_enabled pr s obs enabled applied =
     bind_step (if enabled \<and> \<not> applied then bind_step (pglc_cache_invalidate_all pr s obs) (\<lambda>_. ret ()) else ret ())
       (\<lambda>_. ret enabled)"

end
