(* ===== verification/Writers.thy ===== *)
theory Writers
  imports Publish
begin

text \<open>
  What the three lock sections of a publication do to one partition: a key is reserved by
  making its entry dirty or by holding its marker, and released again.
\<close>

section \<open>The entry of a dirty record\<close>

definition aim :: "local_dirty_entry \<Rightarrow> ident" where
  "aim l = (dk_database_oid (de_key l), de_relation_oid l, shared_slot l, shared_slot_generation l, dk_key (de_key l))"

definition aimed :: "(ident \<Rightarrow> nat) \<Rightarrow> local_dirty_entry \<Rightarrow> bool" where
  "aimed hf l \<longleftrightarrow> key_wish l \<and> de_cache_key_hash l = hf (aim l)"

lemma aimed_mark: "aimed hf l \<Longrightarrow> local_ident l = mark hf (aim l)"
  by (simp add: aimed_def local_ident_def mark_def aim_def)

lemma cached_hash_cases:
  assumes ok: "part_ok hf X pt" and a: "aimed hf l"
  obtains "get_cache_entry_with_cached_hash pr s l pt = None" "cells pt (aim l) = None"
  | eid where "get_cache_entry_with_cached_hash pr s l pt = Some eid" "live pt eid" "ident pt (entry_at pt eid) = aim l"
    "cells pt (aim l) = Some (descr (entry_at pt eid), value_bytes pt (entry_at pt eid))"
proof (cases "cells pt (aim l)")
  case None
  have "get_cache_entry_with_cached_hash pr s l pt = None"
    using get_missing[OF ok] a None
    unfolding get_cache_entry_with_cached_hash_def find_entry_def get_cache_entry_internal_def cells_None aim_def aimed_def key_wish_def by simp
  then show ?thesis using None by (rule that(1))
next
  case (Some c)
  then obtain x where x: "live pt x" "ident pt (entry_at pt x) = aim l" by (rule cells_SomeE)
  have "get_cache_entry_with_cached_hash pr s l pt = Some x"
    using get_found[OF ok x[unfolded aim_def]] a
    unfolding get_cache_entry_with_cached_hash_def find_entry_def get_cache_entry_internal_def aim_def aimed_def key_wish_def by simp
  then show ?thesis using x cells_live[OF ok x] by (rule that(2))
qed

section \<open>Reservation\<close>

lemma entry_side_cells:
  assumes "entry_side pt' = entry_side pt"
  shows "cells pt' = cells pt" "pt_entry_generation pt' = pt_entry_generation pt" "counted rest pt' gl = counted rest pt gl"
  using assms entry_side_same[OF assms]
  by (simp_all add: cells_def fun_eq_iff value_bytes_def entry_side_def counted_def)

lemma markedD:
  assumes "marked f j pt pt'" and ok: "cache_ok hf pt"
  shows "cells pt' = cells pt" "cache_ok hf pt'" "marker_writers pt' = (marker_writers pt)(j := f (marker_writers pt j))"
    "counted rest pt' gl = counted rest pt gl" "pt_entry_generation pt' = pt_entry_generation pt"
    "tok pt m g i \<Longrightarrow> 0 < marker_writers pt' i \<Longrightarrow> tok pt' m g i"
proof -
  have e: "entry_side pt' = entry_side pt" "markers_ok pt'" using assms(1) by (simp_all add: marked_def)
  show c: "cells pt' = cells pt" "pt_entry_generation pt' = pt_entry_generation pt" "counted rest pt' gl = counted rest pt gl"
    using entry_side_cells[OF e(1)] by simp_all
  show "cache_ok hf pt'" using part_ok_entry_side[OF cache_okD(1)[OF ok] e(1)] e(2) ok c(1,2) by (simp add: cache_ok_def)
  show "marker_writers pt' = (marker_writers pt)(j := f (marker_writers pt j))" "tok pt m g i \<Longrightarrow> 0 < marker_writers pt' i \<Longrightarrow> tok pt' m g i"
    using assms(1) unfolding marked_def by blast+
qed

text \<open>The cell of a key that a writer reserves: retired, under a fresh version, one writer more.\<close>

definition reserved :: "nat \<Rightarrow> cache_entry \<Rightarrow> cache_entry" where
  "reserved g e = (retired g e)\<lparr>ce_dirty_writers := ce_dirty_writers e + 1\<rparr>"

lemma reserved_descr: "descr (reserved g e) = reserved g (descr e)"
  by (simp add: reserved_def retired_def restamped_def drop_lease_def descr_def)

definition reserve_post where
  "reserve_post hf i b l pt gl l' pt' gl' \<longleftrightarrow> cache_ok hf pt' \<and> (\<forall>rest. counted rest pt gl \<longrightarrow> counted rest pt' gl') \<and>
     (if \<not> b then l' = l \<and> marked (\<lambda>n. n) (mark hf i) pt pt'
      else case cells pt i of
        Some (e, v) \<Rightarrow> l' = l\<lparr>shared_entry_reserved := True, shared_marker_reserved := True\<rparr> \<and> marker_side pt' = marker_side pt \<and>
          pt_entry_generation pt' = pt_entry_generation pt + 1 \<and>
          cells pt' = (cells pt)(i \<mapsto> (reserved (pt_entry_generation pt') e, v))
      | None \<Rightarrow> \<exists>m g. l' = l\<lparr>shared_marker_id := m, shared_marker_generation := g, shared_marker_reserved := True\<rparr> \<and>
          marked Suc (mark hf i) pt pt' \<and> tok pt' m g (mark hf i))"

lemma marked_refl: "markers_ok pt \<Longrightarrow> marked (\<lambda>n. n) j pt pt"
  by (simp add: marked_def)

lemma versions_update: "versions_ok g m \<Longrightarrow> g \<le> g' \<Longrightarrow> ce_version (fst c) \<le> g' \<Longrightarrow> versions_ok g' (m(i \<mapsto> c))"
  unfolding versions_ok_def by (metis fun_upd_apply le_trans option.inject)

lemma reserve_key_spec:
  assumes ok: "cache_ok hf pt" and a: "aimed hf l" and run: "reserve_key pr s l pt gl = (Inr b, l', pt', gl')"
  shows "reserve_post hf (aim l) b l pt gl l' pt' gl'"
proof (cases rule: cached_hash_cases[OF cache_okD(1)[OF ok] a, of pr s])
  case 1
  obtain r pt1 gl1 where rm: "reserve_cache_marker l pt gl = (r, pt1, gl1)" using prod_cases3 by blast
  note R = reserve_spec[OF cache_okD(2)[OF ok] _ rm, unfolded aimed_mark[OF a]]
  have kw: "key_wish l" using a by (simp add: aimed_def)
  note step = run[unfolded reserve_key_def 1(1) option.case rm prod.case]
  have cnt: "counted rest pt gl \<Longrightarrow> counted rest pt' gl'" if "marked f j pt pt'" "gl_cache_entry_count gl' = gl_cache_entry_count gl" for f j rest
    using markedD(4)[OF that(1) ok, of rest gl'] that(2) unfolding counted_def by simp
  show ?thesis
  proof (cases r)
    case None
    then have "\<not> b" "l' = l" "pt' = pt1" "gl_cache_entry_count gl' = gl_cache_entry_count gl" "marked (\<lambda>n. n) (mark hf (aim l)) pt pt1"
      using R[OF kw] step by auto
    then show ?thesis using markedD(2)[OF _ ok] cnt unfolding reserve_post_def by auto
  next
    case (Some mg)
    obtain m g where mg: "mg = (m, g)" by fastforce
    have "b" "l' = l\<lparr>shared_marker_id := m, shared_marker_generation := g, shared_marker_reserved := True\<rparr>" "pt' = pt1"
      "gl_cache_entry_count gl' = gl_cache_entry_count gl" "marked Suc (mark hf (aim l)) pt pt1" "tok pt1 m g (mark hf (aim l))"
      using R[OF kw] step Some mg by (auto simp: count_marker_def Let_def)
    then show ?thesis using markedD(2)[OF _ ok] cnt 1(2) unfolding reserve_post_def by auto
  qed
next
  case (2 eid)
  note po = cache_okD(1)[OF ok]
  define e where "e = entry_at pt eid"
  define g where "g = pt_entry_generation pt + 1"
  note step = run[unfolded reserve_key_def 2(1) option.case e_def[symmetric] retire_eq[OF 2(2)] g_def[symmetric]]
  show ?thesis
  proof (cases "ce_dirty_writers e = UINT32_MAX")
    case True
    then have "\<not> b" "l' = l" "pt' = pt" "gl' = gl" using step by simp_all
    then show ?thesis using ok marked_refl[OF cache_okD(2)[OF ok]] unfolding reserve_post_def by simp
  next
    case False
    have at: "entry_at ((set_entry eid (retired g e) pt)\<lparr>pt_entry_generation := g\<rparr>) eid = retired g e"
      using 2(2) by (auto simp: set_entry_def live_def nth_list_update)
    have d: "ce_dirty_writers (retired g e) = ce_dirty_writers e" by (simp add: retired_def restamped_def drop_lease_def)
    have r: "b" "l' = l\<lparr>shared_entry_reserved := True, shared_marker_reserved := True\<rparr>"
      "pt' = (set_entry eid (reserved g e) pt)\<lparr>pt_entry_generation := g\<rparr>" "gl_cache_entry_count gl' = gl_cache_entry_count gl"
      using step False at unfolding Let_def by (auto simp: reserved_def d split: if_splits)
    have c: "core (reserved g e) = core (entry_at pt eid)" by (simp add: reserved_def e_def)
    note T = tweak[OF po 2(2) c r(3)]
    have cs: "cells pt' = (cells pt)(aim l \<mapsto> (reserved g (descr e), value_bytes pt e))"
      using T(5) 2(3) reserved_descr[of g e] unfolding e_def by simp
    have "versions_ok g (cells pt')"
      unfolding cs by (rule versions_update[of "pt_entry_generation pt"])
        (use ok in \<open>simp_all add: cache_ok_def g_def reserved_def retired_def restamped_def\<close>)
    then have "cache_ok hf pt'" using T(1,8) ok markers_ok_marker_side(1)[OF T(3)] by (simp add: cache_ok_def)
    then show ?thesis using r(1,2,4) T(3,7,8) cs 2(4) unfolding reserve_post_def by (simp add: e_def g_def counted_def)
  qed
qed

section \<open>Restamping and release\<close>

lemma restamp_key_spec:
  assumes ok: "cache_ok hf pt" and a: "aimed hf l" and run: "restamp_key pr s l pt = (res, pt')"
  shows "calm hf pt gl pt' gl"
proof (cases "shared_entry_reserved l")
  case False
  then show ?thesis using run calm_refl[OF cache_okD(1)[OF ok] refl] by (simp add: restamp_key_def)
next
  case True
  note po = cache_okD(1)[OF ok]
  show ?thesis
  proof (cases rule: cached_hash_cases[OF po a, of pr s])
    case 1
    then show ?thesis using run True calm_refl[OF po refl] by (simp add: restamp_key_def)
  next
    case (2 eid)
    define e where "e = entry_at pt eid"
    define g where "g = pt_entry_generation pt + 1"
    have D: "dims (pt_entry_generation pt) (pt_entry_generation pt) (e, v) (drop_lease (e\<lparr>ce_valid := False\<rparr>), v)"
      "dims (pt_entry_generation pt) g (e, v) (restamped g e, v)" for v
      by (simp_all add: dims_def newer_def drop_lease_def restamped_def g_def)
    have c: "core (drop_lease (e\<lparr>ce_valid := False\<rparr>)) = core e" "core (restamped g e) = core e" by simp_all
    have le: "pt_entry_generation pt \<le> g" by (simp add: g_def)
    note A = calm_set[OF po 2(2) c(1)[unfolded e_def] D(1)[unfolded e_def], folded e_def]
      and B = calm_tweak[OF po 2(2) c(2)[unfolded e_def] refl le D(2)[unfolded e_def], folded e_def]
    show ?thesis using run True A[of gl] B[of gl] 
      unfolding restamp_key_def 2(1) option.case restamp_eq g_def[symmetric] e_def[symmetric] by (auto split: if_splits)
  qed
qed

definition released :: "cache_entry \<Rightarrow> cache_entry" where
  "released e = e\<lparr>ce_valid := False, ce_dirty_writers := ce_dirty_writers e - 1\<rparr>"

lemma release_entry_spec:
  assumes ok: "cache_ok hf pt" and a: "aimed hf l" and l: "shared_marker_reserved l" "shared_entry_reserved l"
    and cell: "cells pt (aim l) = Some (e, v)" "0 < ce_dirty_writers e"
    and run: "release_key pr s l pt gl = (res, l', pt', gl')"
  shows "res = Inr ()" "gl' = gl" "cache_ok hf pt'" "cells pt' = (cells pt)(aim l \<mapsto> (released e, v))" "marker_side pt' = marker_side pt"
    "pt_entry_generation pt' = pt_entry_generation pt" "counted rest pt gl \<Longrightarrow> counted rest pt' gl'" "\<not> shared_marker_reserved l'"
proof -
  note po = cache_okD(1)[OF ok]
  obtain eid where f: "get_cache_entry_with_cached_hash pr s l pt = Some eid" "live pt eid" "ident pt (entry_at pt eid) = aim l"
    "cells pt (aim l) = Some (descr (entry_at pt eid), value_bytes pt (entry_at pt eid))"
    by (rule cached_hash_cases[OF po a, of pr s]) (use cell in auto)
  define x where "x = entry_at pt eid"
  have x: "e = descr x" "v = value_bytes pt x" "0 < ce_dirty_writers x" using f(4) cell by (simp_all add: x_def)
  have r: "res = Inr ()" "gl' = gl" "pt' = set_entry eid (released x) pt" "\<not> shared_marker_reserved l'"
    using run l x(3) unfolding release_key_def Let_def f(1) option.case x_def[symmetric] released_def by (auto split: if_splits)
  have "core (released x) = core (entry_at pt eid)" by (simp add: released_def x_def)
  note T = tweak_set[OF po f(2) this]
  have d: "descr (released x) = released e" by (simp add: x(1) released_def descr_def)
  show c: "cells pt' = (cells pt)(aim l \<mapsto> (released e, v))" using T(5) f(3) d x(2) unfolding r(3) x_def by simp
  have "ce_version e \<le> pt_entry_generation pt" using cache_okD(3)[OF ok cell(1)] by simp
  then have "versions_ok (pt_entry_generation pt) (cells pt')"
    unfolding c by (intro versions_update[of "pt_entry_generation pt"]) (use ok in \<open>simp_all add: cache_ok_def released_def\<close>)
  then show "cache_ok hf pt'" using T(1,3,8) markers_ok_marker_side(1)[OF T(3)] ok unfolding r(3) cache_ok_def by simp
  show "res = Inr ()" "gl' = gl" "\<not> shared_marker_reserved l'" by (rule r)+
  show "marker_side pt' = marker_side pt" "pt_entry_generation pt' = pt_entry_generation pt" "counted rest pt gl \<Longrightarrow> counted rest pt' gl'"
    using T(3,7,8) unfolding r(2,3) counted_def by simp_all
qed

lemma release_marker_spec:
  assumes ok: "cache_ok hf pt" and l: "shared_marker_reserved l" "\<not> shared_entry_reserved l"
    and t: "tok pt (shared_marker_id l) (shared_marker_generation l) j" and run: "release_key pr s l pt gl = (res, l', pt', gl')"
  shows "res = Inr ()" "marked (\<lambda>n. n - 1) j pt pt'" "gl_cache_entry_count gl' = gl_cache_entry_count gl" "\<not> shared_marker_reserved l'"
proof -
  have z: "shared_marker_id l \<noteq> 0" using t by (simp add: tok_def mlive_def)
  obtain pt1 gl1 where R: "release_cache_marker (shared_marker_id l) (shared_marker_generation l) pt gl = (Inr (), pt1, gl1)"
    "marked (\<lambda>n. n - 1) j pt pt1"
    "gl1 = gl \<and> pt_marker_count pt1 = pt_marker_count pt \<or>
     gl1 = gl\<lparr>gl_dirty_marker_entries := u64_sub (gl_dirty_marker_entries gl) 1\<rparr> \<and> pt_marker_count pt1 = pt_marker_count pt - 1 \<and>
     0 < pt_marker_count pt"
    by (rule release_spec[OF cache_okD(2)[OF ok] t])
  have "res = Inr ()" "pt' = pt1" "gl' = gl1" "\<not> shared_marker_reserved l'"
    using run l z unfolding release_key_def Let_def R(1) by auto
  then show "res = Inr ()" "marked (\<lambda>n. n - 1) j pt pt'" "gl_cache_entry_count gl' = gl_cache_entry_count gl" "\<not> shared_marker_reserved l'"
    using R(2,3) by auto
qed

end
