(* ===== verification/Coherence.thy ===== *)
theory Coherence
  imports Serving Writers "HOL-Library.Multiset"
begin

text \<open>
  The protocol as a whole: one partition, the shared fence counters and the database, with
  any number of readers and writers interleaved.

  A lock section of the cache (\<open>locked\<close>) is one step on the partition, during which the fence
  counters and the database move on: every fence read of the section sees the state at its
  own moment. The single atomic writes of the fences, the visible effect of a commit and the
  query of a loading reader are steps of their own (\<open>background\<close>). The counters \<open>sy_wait\<close> to
  \<open>sy_slot_done\<close>, \<open>sy_entry_writers\<close> and \<open>sy_markers\<close> are ghosts: they record how far the
  writers in flight have come; \<open>sy_tokens\<close> records the tokens given out, with what was read
  from the database under them.
\<close>

section \<open>The system\<close>

record system =
  sy_part :: partition
  sy_globals :: globals
  sy_fences :: fences
  sy_db :: "ident \<Rightarrow> char list option"
  sy_wait :: nat
  sy_advanced :: nat
  sy_open :: nat
  sy_done :: nat
  sy_slot_wait :: "nat \<Rightarrow> nat"
  sy_slot_open :: "nat \<Rightarrow> nat"
  sy_slot_done :: "nat \<Rightarrow> nat"
  sy_published :: "nat \<Rightarrow> nat"
  sy_entry_writers :: "ident \<Rightarrow> nat"
  sy_markers :: "(ident \<times> nat \<times> nat) multiset"
  sy_tokens :: "(ident \<times> read_token \<times> char list option option) set"

definition slot_of :: "ident \<Rightarrow> nat" where
  "slot_of i = (case i of (db, rel, slot, gen, key) \<Rightarrow> slot)"

definition generation_of :: "ident \<Rightarrow> nat" where
  "generation_of i = (case i of (db, rel, slot, gen, key) \<Rightarrow> gen)"

abbreviation sy_slot :: "system \<Rightarrow> nat \<Rightarrow> relation_slot" where
  "sy_slot st k \<equiv> slot_at (sy_fences st) k"

text \<open>A key is held while a writer has its entry reserved or its marker.\<close>

definition held :: "system \<Rightarrow> ident \<Rightarrow> bool" where
  "held st i \<longleftrightarrow> 0 < sy_entry_writers st i \<or> i \<in> fst ` set_mset (sy_markers st)"

text \<open>
  A commit may change the rows that its transaction has covered: all rows under an open
  global fence, the rows of a relation under its open fence, and the keys that are held.
  Rows of a relation that has lost its slot are not constrained.
\<close>

definition may_write :: "system \<Rightarrow> ident \<Rightarrow> bool" where
  "may_write st i \<longleftrightarrow> 0 < sy_open st \<or> 0 < sy_slot_open st (slot_of i) \<or> held st i \<or> generation_of i \<noteq> rs_generation (sy_slot st (slot_of i))"

inductive background :: "settings \<Rightarrow> system \<Rightarrow> system \<Rightarrow> bool" for s where
  global_begin: "add_global_dirty_writers (sy_fences st) = (Inr (), fs) \<Longrightarrow>
    background s st (st\<lparr>sy_fences := fs, sy_wait := sy_wait st + 1\<rparr>)"
| global_advance: "advance_global_version_locked (sy_fences st) = (Inr (), fs) \<Longrightarrow> 0 < sy_wait st \<Longrightarrow>
    background s st (st\<lparr>sy_fences := fs, sy_wait := sy_wait st - 1, sy_advanced := sy_advanced st + 1\<rparr>)"
| global_open: "invalidate_all_locked (sy_fences st) = (Inr n, fs) \<Longrightarrow> 0 < sy_advanced st \<Longrightarrow>
    background s st (st\<lparr>sy_fences := fs, sy_advanced := sy_advanced st - 1, sy_open := sy_open st + 1\<rparr>)"
| global_close: "advance_global_version_locked (sy_fences st) = (Inr (), fs) \<Longrightarrow> 0 < sy_open st \<Longrightarrow>
    background s st (st\<lparr>sy_fences := fs, sy_open := sy_open st - 1, sy_done := sy_done st + 1\<rparr>)"
| global_end: "sub_global_dirty_writers (sy_fences st) = (Inr (), fs) \<Longrightarrow> 0 < sy_done st \<Longrightarrow>
    background s st (st\<lparr>sy_fences := fs, sy_done := sy_done st - 1\<rparr>)"
| global_finish: "fs = (sy_fences st)\<lparr>global_dirty_writers := u64_sub (global_dirty_writers (sy_fences st)) 1\<rparr> \<Longrightarrow> 0 < sy_done st \<Longrightarrow>
    background s st (st\<lparr>sy_fences := fs, sy_done := sy_done st - 1\<rparr>)"
| slot_begin: "add_slot_dirty_writers k (sy_fences st) = (Inr (), fs) \<Longrightarrow> k < pglc_relation_states s \<Longrightarrow>
    background s st (st\<lparr>sy_fences := fs, sy_slot_wait := (sy_slot_wait st)(k := sy_slot_wait st k + 1)\<rparr>)"
| slot_open: "advance_slot_version k (sy_fences st) = (Inr n, fs) \<Longrightarrow> 0 < sy_slot_wait st k \<Longrightarrow> k < pglc_relation_states s \<Longrightarrow>
    background s st (st\<lparr>sy_fences := fs, sy_slot_wait := (sy_slot_wait st)(k := sy_slot_wait st k - 1),
      sy_slot_open := (sy_slot_open st)(k := sy_slot_open st k + 1)\<rparr>)"
| slot_close: "advance_slot_version k (sy_fences st) = (Inr n, fs) \<Longrightarrow> 0 < sy_slot_open st k \<Longrightarrow> k < pglc_relation_states s \<Longrightarrow>
    background s st (st\<lparr>sy_fences := fs, sy_slot_open := (sy_slot_open st)(k := sy_slot_open st k - 1),
      sy_slot_done := (sy_slot_done st)(k := sy_slot_done st k + 1)\<rparr>)"
| slot_end: "sub_slot_dirty_writers k (sy_fences st) = (Inr (), fs) \<Longrightarrow> 0 < sy_slot_done st k \<Longrightarrow> k < pglc_relation_states s \<Longrightarrow>
    background s st (st\<lparr>sy_fences := fs, sy_slot_done := (sy_slot_done st)(k := sy_slot_done st k - 1)\<rparr>)"
| retag_generation: "fs = set_slot k ((sy_slot st k)\<lparr>rs_generation := rs_generation (sy_slot st k) + 1\<rparr>) (sy_fences st) \<Longrightarrow>
    k < pglc_relation_states s \<Longrightarrow> background s st (st\<lparr>sy_fences := fs\<rparr>)"
| retag_slot: "fs = set_slot k ((sy_slot st k)\<lparr>rs_incarnation := inc, rs_version := v, rs_in_use := u\<rparr>) (sy_fences st) \<Longrightarrow>
    k < pglc_relation_states s \<Longrightarrow> sy_published st k < rs_generation (sy_slot st k) \<Longrightarrow> background s st (st\<lparr>sy_fences := fs\<rparr>)"
| retag_publish: "k < pglc_relation_states s \<Longrightarrow>
    background s st (st\<lparr>sy_published := (sy_published st)(k := rs_generation (sy_slot st k))\<rparr>)"
| reconfigure: "bump_config_generation (sy_fences st) = (Inr (), fs) \<Longrightarrow> background s st (st\<lparr>sy_fences := fs\<rparr>)"
| elsewhere: "counted rest (sy_part st) gl \<Longrightarrow> background s st (st\<lparr>sy_globals := gl\<rparr>)"
| commit: "(\<And>i. db i \<noteq> sy_db st i \<Longrightarrow> may_write st i) \<Longrightarrow> background s st (st\<lparr>sy_db := db\<rparr>)"
| load: "(i, t, None) \<in> sy_tokens st \<Longrightarrow>
    background s st (st\<lparr>sy_tokens := insert (i, t, Some (sy_db st i)) (sy_tokens st)\<rparr>)"

text \<open>The moments of a lock section: the j-th fence read happens at \<open>tr j\<close>.\<close>

definition passes :: "settings \<Rightarrow> system \<Rightarrow> (nat \<Rightarrow> system) \<Rightarrow> bool" where
  "passes s st tr \<longleftrightarrow> tr 0 = st \<and> (\<forall>j. (background s)\<^sup>*\<^sup>* (tr j) (tr (Suc j)))"

definition watched :: "(nat \<Rightarrow> system) \<Rightarrow> observations" where
  "watched tr j = sy_fences (tr j)"

text \<open>The row a lookup returns and the row a cell holds; \<open>None\<close> is the absent row.\<close>

definition found :: "lookup_result \<Rightarrow> char list option" where
  "found lr = (if lr_negative lr then None else Some (lr_value lr))"

definition row :: "cache_entry \<Rightarrow> char list \<Rightarrow> char list option" where
  "row e v = (if ce_negative e then None else Some v)"

definition issue :: "ident \<Rightarrow> read_token \<Rightarrow> system \<Rightarrow> system" where
  "issue i t st = (if tk_cacheable t then st\<lparr>sy_tokens := insert (i, t, None) (sy_tokens st)\<rparr> else st)"

abbreviation (input) onto :: "partition \<Rightarrow> globals \<Rightarrow> system \<Rightarrow> system" where
  "onto pt gl st \<equiv> st\<lparr>sy_part := pt, sy_globals := gl\<rparr>"

inductive locked :: "(ident \<Rightarrow> nat) \<Rightarrow> settings \<Rightarrow> system \<Rightarrow> system \<Rightarrow> bool" for hf s where
  lookup: "passes s st tr \<Longrightarrow> hashes hf pr mp key \<Longrightarrow> mp_relation_slot_generation mp \<le> sy_published st (mp_relation_slot mp) \<Longrightarrow>
    cache_lookup_locked pr s (watched tr) fs nows mp key cap create (sy_part st) (sy_globals (tr 40)) = (Inr lr, pt, gl) \<Longrightarrow>
    locked hf s st (issue (mapped pr mp key) (lr_token lr) (onto pt gl (tr 40)))"
| claim: "passes s st tr \<Longrightarrow> hashes hf pr mp key \<Longrightarrow>
    pglc_cache_claim_load pr s (watched tr) now mp key t (sy_part st) (sy_globals (tr 40)) = (Inr c, pt, gl) \<Longrightarrow>
    locked hf s st (onto pt gl (tr 40))"
| store: "passes s st tr \<Longrightarrow> hashes hf pr mp key \<Longrightarrow> (mapped pr mp key, t, Some (if negative then None else Some w)) \<in> sy_tokens st \<Longrightarrow>
    pglc_cache_store pr s (watched tr) fs nows xid mp key t w negative load_id xmin (sy_part st) (sy_globals (tr 40)) = (Inr stored, pt, gl) \<Longrightarrow>
    locked hf s st (onto pt gl (tr 40))"
| release_load: "passes s st tr \<Longrightarrow> hashes hf pr mp key \<Longrightarrow> pt = pglc_cache_release_load pr s mp key t load_id (sy_part st) \<Longrightarrow>
    locked hf s st (onto pt (sy_globals (tr 40)) (tr 40))"
| retire: "passes s st tr \<Longrightarrow> hashes hf pr mp key \<Longrightarrow>
    pglc_cache_retire_positive pr s (watched tr) mp key t xmin (sy_part st) = (Inr b, pt) \<Longrightarrow>
    locked hf s st (onto pt (sy_globals (tr 40)) (tr 40))"
| invalidate_key: "passes s st tr \<Longrightarrow> hashes hf pr mp key \<Longrightarrow>
    pglc_cache_invalidate_key pr s (watched tr) mp key (sy_part st) (sy_globals (tr 40)) = (Inr n, pt, gl) \<Longrightarrow>
    locked hf s st (onto pt gl (tr 40))"
| reserve_refused: "aimed hf l \<Longrightarrow> reserve_key pr s l (sy_part st) (sy_globals st) = (Inr False, l', pt, gl) \<Longrightarrow> locked hf s st (onto pt gl st)"
| reserve_entry: "aimed hf l \<Longrightarrow> reserve_key pr s l (sy_part st) (sy_globals st) = (Inr True, l', pt, gl) \<Longrightarrow> shared_entry_reserved l' \<Longrightarrow>
    \<not> shared_entry_reserved l \<Longrightarrow>
    locked hf s st (onto pt gl (st\<lparr>sy_entry_writers := (sy_entry_writers st)(aim l := sy_entry_writers st (aim l) + 1)\<rparr>))"
| reserve_marker: "aimed hf l \<Longrightarrow> reserve_key pr s l (sy_part st) (sy_globals st) = (Inr True, l', pt, gl) \<Longrightarrow> \<not> shared_entry_reserved l' \<Longrightarrow>
    locked hf s st (onto pt gl (st\<lparr>sy_markers := add_mset (aim l, shared_marker_id l', shared_marker_generation l') (sy_markers st)\<rparr>))"
| restamp: "aimed hf l \<Longrightarrow> restamp_key pr s l (sy_part st) = (Inr (), pt) \<Longrightarrow> locked hf s st (onto pt (sy_globals st) st)"
| release_entry: "aimed hf l \<Longrightarrow> shared_marker_reserved l \<Longrightarrow> shared_entry_reserved l \<Longrightarrow> 0 < sy_entry_writers st (aim l) \<Longrightarrow>
    release_key pr s l (sy_part st) (sy_globals st) = (Inr (), l', pt, gl) \<Longrightarrow>
    locked hf s st (onto pt gl (st\<lparr>sy_entry_writers := (sy_entry_writers st)(aim l := sy_entry_writers st (aim l) - 1)\<rparr>))"
| release_marker: "aimed hf l \<Longrightarrow> shared_marker_reserved l \<Longrightarrow> \<not> shared_entry_reserved l \<Longrightarrow>
    (aim l, shared_marker_id l, shared_marker_generation l) \<in># sy_markers st \<Longrightarrow>
    release_key pr s l (sy_part st) (sy_globals st) = (Inr (), l', pt, gl) \<Longrightarrow>
    locked hf s st (onto pt gl (st\<lparr>sy_markers := sy_markers st - {#(aim l, shared_marker_id l, shared_marker_generation l)#}\<rparr>))"

text \<open>A system starts with a fresh partition, no writer in flight and no token.\<close>

definition starts :: "(ident \<Rightarrow> nat) \<Rightarrow> settings \<Rightarrow> system \<Rightarrow> bool" where
  "starts hf s st \<longleftrightarrow> fresh_partition hf (sy_part st) \<and> gl_cache_entry_count (sy_globals st) < 2 ^ 64 \<and>
     length (relation_slots (sy_fences st)) = pglc_relation_states s \<and> global_dirty_writers (sy_fences st) = 0 \<and>
     list_all (\<lambda>slot. rs_dirty_writers slot = 0) (relation_slots (sy_fences st)) \<and>
     sy_wait st = 0 \<and> sy_advanced st = 0 \<and> sy_open st = 0 \<and> sy_done st = 0 \<and>
     sy_slot_wait st = (\<lambda>_. 0) \<and> sy_slot_open st = (\<lambda>_. 0) \<and> sy_slot_done st = (\<lambda>_. 0) \<and>
     sy_published st = (\<lambda>k. rs_generation (sy_slot st k)) \<and> sy_entry_writers st = (\<lambda>_. 0) \<and> sy_markers st = {#} \<and> sy_tokens st = {}"

inductive reachable :: "(ident \<Rightarrow> nat) \<Rightarrow> settings \<Rightarrow> system \<Rightarrow> bool" for hf s where
  init: "starts hf s st \<Longrightarrow> reachable hf s st"
| moves: "reachable hf s st \<Longrightarrow> background s st st' \<Longrightarrow> reachable hf s st'"
| sections: "reachable hf s st \<Longrightarrow> locked hf s st st' \<Longrightarrow> reachable hf s st'"

section \<open>The fences\<close>

definition fences_inv :: "settings \<Rightarrow> system \<Rightarrow> bool" where
  "fences_inv s st \<longleftrightarrow> length (relation_slots (sy_fences st)) = pglc_relation_states s \<and>
     global_dirty_writers (sy_fences st) = sy_wait st + sy_advanced st + sy_open st + sy_done st \<and>
     global_dirty_writers (sy_fences st) \<le> UINT64_MAX \<and>
     (\<forall>k < pglc_relation_states s. rs_dirty_writers (sy_slot st k) = sy_slot_wait st k + sy_slot_open st k + sy_slot_done st k \<and>
        sy_published st k \<le> rs_generation (sy_slot st k))"

lemmas fence_steps = add_global_dirty_writers_def advance_global_version_locked_def invalidate_all_locked_def sub_global_dirty_writers_def
  add_slot_dirty_writers_def advance_slot_version_def sub_slot_dirty_writers_def bump_config_generation_def
  pglc_atomic_fetch_add_checked_def pglc_atomic_fetch_sub_checked_def

lemma set_slot_frame [simp]:
  "global_version (set_slot k slot fs) = global_version fs" "global_epoch (set_slot k slot fs) = global_epoch fs"
  "global_dirty_writers (set_slot k slot fs) = global_dirty_writers fs" "config_generation (set_slot k slot fs) = config_generation fs"
  by (simp_all add: set_slot_def)

lemma background_inv:
  assumes "background s st st'" "fences_inv s st"
  shows "fences_inv s st'"
  using assms by cases (auto simp: fences_inv_def fence_steps slot_at_set u64_sub_exact split: if_splits)

text \<open>What only goes up, and what a counter that stands still says about the writers.\<close>

definition rises :: "settings \<Rightarrow> system \<Rightarrow> system \<Rightarrow> bool" where
  "rises s st st' \<longleftrightarrow> fences_inv s st' \<and> global_epoch (sy_fences st) \<le> global_epoch (sy_fences st') \<and>
     global_version (sy_fences st) \<le> global_version (sy_fences st') \<and>
     (global_epoch (sy_fences st) = global_epoch (sy_fences st') \<longrightarrow> sy_open st' \<le> sy_open st) \<and>
     (global_version (sy_fences st) = global_version (sy_fences st') \<longrightarrow> sy_advanced st' + sy_open st' \<le> sy_advanced st + sy_open st) \<and>
     (\<forall>k < pglc_relation_states s. sy_published st k \<le> sy_published st' k \<and> rs_generation (sy_slot st k) \<le> rs_generation (sy_slot st' k) \<and>
        (rs_generation (sy_slot st' k) = sy_published st k \<longrightarrow> rs_version (sy_slot st k) \<le> rs_version (sy_slot st' k) \<and>
           (rs_version (sy_slot st k) = rs_version (sy_slot st' k) \<longrightarrow> sy_slot_open st' k \<le> sy_slot_open st k)))"

lemma background_rises:
  assumes "background s st st'" "fences_inv s st"
  shows "rises s st st'"
proof -
  have i: "fences_inv s st'" by (rule background_inv[OF assms])
  show ?thesis unfolding rises_def using assms
    by cases (use i in \<open>auto simp: fences_inv_def fence_steps slot_at_set split: if_splits\<close>)
qed

lemma risesD:
  assumes "rises s st st'" "k < pglc_relation_states s"
  shows "sy_published st k \<le> sy_published st' k" "rs_generation (sy_slot st k) \<le> rs_generation (sy_slot st' k)"
    "rs_generation (sy_slot st' k) = sy_published st k \<Longrightarrow> rs_version (sy_slot st k) \<le> rs_version (sy_slot st' k)"
    "rs_generation (sy_slot st' k) = sy_published st k \<Longrightarrow> rs_version (sy_slot st k) = rs_version (sy_slot st' k) \<Longrightarrow>
       sy_slot_open st' k \<le> sy_slot_open st k"
  using assms unfolding rises_def by blast+

lemma rises_trans:
  assumes "rises s a b" "rises s b c" "fences_inv s a"
  shows "rises s a c"
proof -
  have k: "sy_published a k \<le> sy_published c k \<and> rs_generation (sy_slot a k) \<le> rs_generation (sy_slot c k) \<and>
        (rs_generation (sy_slot c k) = sy_published a k \<longrightarrow> rs_version (sy_slot a k) \<le> rs_version (sy_slot c k) \<and>
           (rs_version (sy_slot a k) = rs_version (sy_slot c k) \<longrightarrow> sy_slot_open c k \<le> sy_slot_open a k))"
    if k: "k < pglc_relation_states s" for k
  proof -
    note A = risesD[OF assms(1) k] and B = risesD[OF assms(2) k]
    have P: "sy_published a k \<le> rs_generation (sy_slot a k)" "sy_published b k \<le> rs_generation (sy_slot b k)"
      using assms k unfolding rises_def fences_inv_def by blast+
    show ?thesis using A B P by auto
  qed
  show ?thesis using assms k unfolding rises_def by auto
qed

lemma rises_refl: "fences_inv s st \<Longrightarrow> rises s st st"
  by (simp add: rises_def)

lemma rises_star: "(background s)\<^sup>*\<^sup>* st st' \<Longrightarrow> fences_inv s st \<Longrightarrow> rises s st st' \<and> fences_inv s st'"
proof (induction rule: rtranclp_induct)
  case (step y z)
  then show ?case using background_rises[of s y z] rises_trans[of s st y z] background_inv by blast
qed (simp add: rises_refl)

lemma passes_between: "passes s st tr \<Longrightarrow> (background s)\<^sup>*\<^sup>* (tr j) (tr (j + n))"
proof (induction n)
  case (Suc n)
  then have "(background s)\<^sup>*\<^sup>* (tr (j + n)) (tr (Suc (j + n)))" by (simp add: passes_def)
  then show ?case using rtranclp_trans[OF Suc.IH[OF Suc.prems]] by simp
qed simp

lemma passes_rises:
  assumes p: "passes s st tr" and inv: "fences_inv s st"
  shows "j \<le> k \<Longrightarrow> rises s (tr j) (tr k)" "fences_inv s (tr j)" "(background s)\<^sup>*\<^sup>* st (tr j)"
proof -
  have i: "fences_inv s (tr j)" for j
    by (induction j) (use p inv rises_star in \<open>auto simp: passes_def\<close>)
  show "fences_inv s (tr j)" by (rule i)
  show "(background s)\<^sup>*\<^sup>* st (tr j)"
  proof (induction j)
    case (Suc j)
    then show ?case using p by (auto simp: passes_def intro: rtranclp_trans)
  qed (use p in \<open>simp add: passes_def\<close>)
  have r: "rises s (tr j) (tr (Suc j))" for j using p rises_star i by (auto simp: passes_def)
  show "j \<le> k \<Longrightarrow> rises s (tr j) (tr k)"
  proof (induction k)
    case (Suc k)
    then show ?case using r rises_trans i rises_refl le_Suc_eq by metis
  qed (simp add: rises_refl i)
qed

text \<open>
  The tags of an entry or a token: the epoch and the relation version they were read under.
  \<open>settled\<close> tags that are still current exclude open writers, and the row read under them
  is the committed one.
\<close>

definition current :: "system \<Rightarrow> ident \<Rightarrow> nat \<Rightarrow> nat \<Rightarrow> bool" where
  "current st i ep rv \<longleftrightarrow> rs_generation (sy_slot st (slot_of i)) = generation_of i \<and> global_epoch (sy_fences st) = ep \<and>
     rs_version (sy_slot st (slot_of i)) = rv"

definition past :: "settings \<Rightarrow> system \<Rightarrow> ident \<Rightarrow> nat \<Rightarrow> nat \<Rightarrow> bool" where
  "past s st i ep rv \<longleftrightarrow> slot_of i < pglc_relation_states s \<and> generation_of i \<le> sy_published st (slot_of i) \<and>
     ep \<le> global_epoch (sy_fences st) \<and>
     (rs_generation (sy_slot st (slot_of i)) = generation_of i \<longrightarrow> rv \<le> rs_version (sy_slot st (slot_of i)))"

definition settled :: "settings \<Rightarrow> system \<Rightarrow> ident \<Rightarrow> nat \<Rightarrow> nat \<Rightarrow> char list option option \<Rightarrow> bool" where
  "settled s st i ep rv w \<longleftrightarrow> past s st i ep rv \<and> (current st i ep rv \<longrightarrow>
     sy_open st = 0 \<and> sy_slot_open st (slot_of i) = 0 \<and> (w \<noteq> None \<longrightarrow> w = Some (sy_db st i)))"

lemma rises_settled:
  assumes r: "rises s st st'" and inv: "fences_inv s st" and set: "settled s st i ep rv w"
    and db: "current st i ep rv \<Longrightarrow> sy_db st' i = sy_db st i"
  shows "settled s st' i ep rv w"
proof -
  define k where "k = slot_of i"
  have P: "k < pglc_relation_states s" "generation_of i \<le> sy_published st k" "ep \<le> global_epoch (sy_fences st)"
    "rs_generation (sy_slot st k) = generation_of i \<Longrightarrow> rv \<le> rs_version (sy_slot st k)"
    using set by (auto simp: settled_def past_def k_def)
  have pg: "sy_published st k \<le> rs_generation (sy_slot st k)" using inv P(1) by (simp add: fences_inv_def)
  note R = risesD[OF r P(1)]
  have E: "global_epoch (sy_fences st) \<le> global_epoch (sy_fences st')"
    "global_epoch (sy_fences st) = global_epoch (sy_fences st') \<Longrightarrow> sy_open st' \<le> sy_open st"
    using r by (auto simp: rises_def)
  have g: "rs_generation (sy_slot st k) = generation_of i" "rs_generation (sy_slot st' k) = sy_published st k"
    if "rs_generation (sy_slot st' k) = generation_of i" using that P(2) pg R(2) by simp_all
  have past: "past s st' i ep rv"
    using P R(1) E(1) R(3)[OF g(2)] P(4)[OF g(1)] unfolding past_def k_def[symmetric] by (auto intro: order_trans)
  show ?thesis
  proof (cases "current st' i ep rv")
    case True
    then have c: "rs_generation (sy_slot st' k) = generation_of i" "global_epoch (sy_fences st') = ep" "rs_version (sy_slot st' k) = rv"
      by (simp_all add: current_def k_def)
    have c': "current st i ep rv"
      using g[OF c(1)] P(3) P(4)[OF g(1)[OF c(1)]] R(3)[OF g(2)[OF c(1)]] c E(1) by (simp add: current_def k_def)
    then have "global_epoch (sy_fences st) = global_epoch (sy_fences st')" "rs_version (sy_slot st k) = rs_version (sy_slot st' k)"
      using c by (simp_all add: current_def k_def)
    then have "sy_open st' \<le> sy_open st" "sy_slot_open st' k \<le> sy_slot_open st k" using E(2) R(4)[OF g(2)[OF c(1)]] by simp_all
    then show ?thesis using set past db[OF c'] c' unfolding settled_def k_def by simp
  qed (use past in \<open>simp add: settled_def\<close>)
qed

lemma background_db: "background s st st' \<Longrightarrow> sy_db st' i = sy_db st i \<or> may_write st i"
  by (cases i) (erule background.cases; fastforce)

lemma background_settled:
  assumes b: "background s st st'" and inv: "fences_inv s st" and set: "settled s st i ep rv w" and h: "\<not> held st i"
  shows "settled s st' i ep rv w"
proof (rule rises_settled[OF background_rises[OF b inv] inv set])
  show "sy_db st' i = sy_db st i" if "current st i ep rv"
    using background_db[OF b, of i] that set h by (auto simp: may_write_def settled_def current_def)
qed

definition same_holders :: "system \<Rightarrow> system \<Rightarrow> bool" where
  "same_holders st st' \<longleftrightarrow> sy_part st' = sy_part st \<and> sy_entry_writers st' = sy_entry_writers st \<and> sy_markers st' = sy_markers st \<and>
     sy_tokens st \<subseteq> sy_tokens st'"

lemma background_frame: "background s st st' \<Longrightarrow> same_holders st st'"
  by (erule background.cases) (simp_all add: same_holders_def subset_insertI)

lemma star_frame:
  assumes "(background s)\<^sup>*\<^sup>* st st'"
  shows "sy_part st' = sy_part st" "held st' = held st" "sy_entry_writers st' = sy_entry_writers st" "sy_markers st' = sy_markers st"
    "sy_tokens st \<subseteq> sy_tokens st'"
proof -
  have "same_holders st st'"
    using assms by (induction rule: rtranclp_induct) (use background_frame in \<open>force simp: same_holders_def\<close>)+
  then show "sy_part st' = sy_part st" "held st' = held st" "sy_entry_writers st' = sy_entry_writers st" "sy_markers st' = sy_markers st"
    "sy_tokens st \<subseteq> sy_tokens st'"
    by (simp_all add: same_holders_def held_def fun_eq_iff)
qed

lemma star_settled:
  assumes "(background s)\<^sup>*\<^sup>* st st'" "fences_inv s st" "settled s st i ep rv w" "\<not> held st i"
  shows "settled s st' i ep rv w"
  using assms
proof (induction rule: rtranclp_induct)
  case (step y z)
  then show ?case using background_settled[of s y z] star_frame(2)[OF step(1)] rises_star[OF step(1)] by metis
qed

section \<open>What a snapshot proves\<close>

text \<open>
  The thirteen reads of a steady snapshot are spread over time. At the read of the epoch
  nevertheless all of the tags were current at once and no writer was open.
\<close>

lemma snapshot_reads:
  assumes "read_fence_snapshot s obs mp e = Some (b, True)"
  defines "slot \<equiv> \<lambda>j. slot_at (obs j) (mp_relation_slot mp)"
  shows "mp_relation_slot mp < pglc_relation_states s"
    "rs_generation (slot 3) = mp_relation_slot_generation mp" "rs_generation (slot 11) = mp_relation_slot_generation mp"
    "rs_version (slot 1) = sn_relation_version b" "rs_version (slot 9) = sn_relation_version b"
    "global_version (obs 0) = global_version (obs 8)" "global_dirty_writers (obs 5) = 0" "rs_dirty_writers (slot 6) = 0"
    "global_epoch (obs 7) = sn_global_epoch b"
  using assms(1) unfolding slot_def read_fence_snapshot_def Let_def by (auto split: if_splits)

lemma snapshot_settled:
  assumes p: "passes s st tr" and inv: "fences_inv s st"
    and i: "slot_of i = mp_relation_slot mp" "generation_of i = mp_relation_slot_generation mp"
    and pub: "mp_relation_slot_generation mp \<le> sy_published (tr n) (mp_relation_slot mp)"
    and sn: "read_fence_snapshot s (shift_obs n (watched tr)) mp e = Some (b, True)"
  shows "current (tr (n + 7)) i (sn_global_epoch b) (sn_relation_version b)"
    "settled s (tr (n + 7)) i (sn_global_epoch b) (sn_relation_version b) None"
proof -
  define k where "k = slot_of i"
  define g where "g = generation_of i"
  define f where "f j = tr (n + j)" for j
  note S = snapshot_reads[OF sn, unfolded shift_obs_def watched_def, folded i, folded k_def g_def f_def]
  have k: "k < pglc_relation_states s" by (rule S(1))
  have sn': "rs_generation (sy_slot (f 3) k) = g" "rs_generation (sy_slot (f 11) k) = g"
    "rs_version (sy_slot (f 1) k) = sn_relation_version b" "rs_version (sy_slot (f 9) k) = sn_relation_version b"
    "global_version (sy_fences (f 0)) = global_version (sy_fences (f 8))"
    "global_dirty_writers (sy_fences (f 5)) = 0" "rs_dirty_writers (sy_slot (f 6) k) = 0" "global_epoch (sy_fences (f 7)) = sn_global_epoch b"
    by (rule S)+
  note R = passes_rises[OF p inv]
  have r: "a \<le> c \<Longrightarrow> rises s (f a) (f c)" and fi: "fences_inv s (f a)" for a c using R(1,2) by (simp_all add: f_def)
  have pg: "g \<le> sy_published (f 0) k" "sy_published (f a) k \<le> rs_generation (sy_slot (f a) k)" "rs_generation (sy_slot (f a) k) \<le> rs_generation (sy_slot (f c) k)"
    "sy_published (f a) k \<le> sy_published (f c) k"
    if "a \<le> c" for a c using pub[folded i, folded k_def g_def] k fi[of a] risesD(1,2)[OF r[OF that] k] by (simp_all add: f_def fences_inv_def)
  have gen: "rs_generation (sy_slot (f a) k) = g" "sy_published (f a) k = g" if "a \<le> 11" for a
  proof -
    have "g \<le> sy_published (f a) k" "sy_published (f a) k \<le> rs_generation (sy_slot (f a) k)" "rs_generation (sy_slot (f a) k) \<le> g"
      using order_trans[OF pg(1)[of 0 0] pg(4)[of 0 a]] pg(2)[of a a] pg(3)[OF that] sn'(2) by simp_all
    then show "rs_generation (sy_slot (f a) k) = g" "sy_published (f a) k = g" by simp_all
  qed
  have mono: "rs_version (sy_slot (f a) k) \<le> rs_version (sy_slot (f c) k)" if "a \<le> c" "c \<le> 11" for a c
    using risesD(3)[OF r[OF that(1)] k] gen that by simp
  have ver: "rs_version (sy_slot (f a) k) = sn_relation_version b" if "1 \<le> a" "a \<le> 9" for a
    using mono[of 1 a] mono[of a 9] that sn'(3,4) by simp
  have gv: "global_version (sy_fences (f 5)) = global_version (sy_fences (f 7))"
    using r[of 0 5] r[of 5 7] r[of 7 8] sn'(5) by (simp add: rises_def)
  have "sy_advanced (f 5) + sy_open (f 5) = 0" using sn'(6) fi[of 5] by (simp add: fences_inv_def)
  then have o: "sy_open (f 7) = 0" using r[of 5 7] gv by (simp add: rises_def)
  have "sy_slot_open (f 6) k = 0" using sn'(7) fi[of 6] k by (simp add: fences_inv_def)
  then have so: "sy_slot_open (f 7) k = 0" using risesD(4)[OF r[of 6 7] k] gen[of 6] gen[of 7] ver[of 6] ver[of 7] by simp
  have "current (f 7) i (sn_global_epoch b) (sn_relation_version b)"
    unfolding current_def k_def[symmetric] g_def[symmetric] using gen[of 7] ver[of 7] sn'(8) by simp
  moreover from this have "settled s (f 7) i (sn_global_epoch b) (sn_relation_version b) None"
    unfolding settled_def past_def k_def[symmetric] g_def[symmetric] using k gen[of 7] ver[of 7] sn'(8) o so by simp
  ultimately show "current (tr (n + 7)) i (sn_global_epoch b) (sn_relation_version b)"
    "settled s (tr (n + 7)) i (sn_global_epoch b) (sn_relation_version b) None" by (simp_all add: f_def)
qed

section \<open>The invariant\<close>

text \<open>
  A valid cell has settled tags and its row, a token that still fits its cell has settled
  tags and its row, and neither exists for a key that is held.
\<close>

definition good :: "settings \<Rightarrow> system \<Rightarrow> nat \<Rightarrow> (ident \<rightharpoonup> cell) \<Rightarrow> bool" where
  "good s st g m \<longleftrightarrow>
     (\<forall>i e v. m i = Some (e, v) \<longrightarrow> sy_entry_writers st i \<le> ce_dirty_writers e \<and>
        (ce_valid e \<longrightarrow> \<not> held st i \<and> settled s st i (ce_global_epoch e) (ce_relation_version e) (Some (row e v)))) \<and>
     (\<forall>i. 0 < sy_entry_writers st i \<longrightarrow> m i \<noteq> None) \<and>
     (\<forall>i t w. (i, t, w) \<in> sy_tokens st \<longrightarrow> tk_key_version t \<le> g \<and>
        (\<forall>e v. m i = Some (e, v) \<longrightarrow> ce_version e = tk_key_version t \<longrightarrow>
           \<not> held st i \<and> settled s st i (tk_global_epoch t) (tk_relation_version t) w))"

definition marks_inv :: "(ident \<Rightarrow> nat) \<Rightarrow> system \<Rightarrow> partition \<Rightarrow> bool" where
  "marks_inv hf st pt \<longleftrightarrow> (\<forall>i m g. (i, m, g) \<in># sy_markers st \<longrightarrow> cells pt i = None \<and> tok pt m g (mark hf i)) \<and>
     (\<forall>j. size (filter_mset (\<lambda>x. mark hf (fst x) = j) (sy_markers st)) \<le> marker_writers pt j)"

definition coherent :: "(ident \<Rightarrow> nat) \<Rightarrow> settings \<Rightarrow> system \<Rightarrow> bool" where
  "coherent hf s st \<longleftrightarrow> fences_inv s st \<and> cache_ok hf (sy_part st) \<and> (\<exists>rest. counted rest (sy_part st) (sy_globals st)) \<and>
     marks_inv hf st (sy_part st) \<and> good s st (pt_entry_generation (sy_part st)) (cells (sy_part st))"

lemma goodD:
  assumes "good s st g m"
  shows "m i = Some (e, v) \<Longrightarrow> sy_entry_writers st i \<le> ce_dirty_writers e"
    "m i = Some (e, v) \<Longrightarrow> ce_valid e \<Longrightarrow> \<not> held st i"
    "m i = Some (e, v) \<Longrightarrow> ce_valid e \<Longrightarrow> settled s st i (ce_global_epoch e) (ce_relation_version e) (Some (row e v))"
    "0 < sy_entry_writers st i \<Longrightarrow> m i \<noteq> None"
    "(i, t, w) \<in> sy_tokens st \<Longrightarrow> tk_key_version t \<le> g"
    "(i, t, w) \<in> sy_tokens st \<Longrightarrow> m i = Some (e, v) \<Longrightarrow> ce_version e = tk_key_version t \<Longrightarrow> \<not> held st i"
    "(i, t, w) \<in> sy_tokens st \<Longrightarrow> m i = Some (e, v) \<Longrightarrow> ce_version e = tk_key_version t \<Longrightarrow>
       settled s st i (tk_global_epoch t) (tk_relation_version t) w"
  using assms unfolding good_def by blast+

lemma goodI:
  assumes "\<And>i e v. m i = Some (e, v) \<Longrightarrow> sy_entry_writers st i \<le> ce_dirty_writers e"
    and "\<And>i e v. m i = Some (e, v) \<Longrightarrow> ce_valid e \<Longrightarrow> \<not> held st i \<and> settled s st i (ce_global_epoch e) (ce_relation_version e) (Some (row e v))"
    and "\<And>i. 0 < sy_entry_writers st i \<Longrightarrow> m i \<noteq> None" and "\<And>i t w. (i, t, w) \<in> sy_tokens st \<Longrightarrow> tk_key_version t \<le> g"
    and "\<And>i t w e v. (i, t, w) \<in> sy_tokens st \<Longrightarrow> m i = Some (e, v) \<Longrightarrow> ce_version e = tk_key_version t \<Longrightarrow>
       \<not> held st i \<and> settled s st i (tk_global_epoch t) (tk_relation_version t) w"
  shows "good s st g m"
  using assms unfolding good_def by blast

text \<open>The parts of the state a notion does not depend on.\<close>

lemma sy_frames [simp]:
  "held (st\<lparr>sy_part := pt\<rparr>) = held st" "held (st\<lparr>sy_globals := gl\<rparr>) = held st" "held (st\<lparr>sy_tokens := T\<rparr>) = held st"
  "settled s (st\<lparr>sy_part := pt\<rparr>) = settled s st" "settled s (st\<lparr>sy_globals := gl\<rparr>) = settled s st" "settled s (st\<lparr>sy_tokens := T\<rparr>) = settled s st"
  "settled s (st\<lparr>sy_markers := M\<rparr>) = settled s st" "settled s (st\<lparr>sy_entry_writers := ew\<rparr>) = settled s st"
  "good s (st\<lparr>sy_part := pt\<rparr>) = good s st" "good s (st\<lparr>sy_globals := gl\<rparr>) = good s st"
  "fences_inv s (st\<lparr>sy_part := pt\<rparr>) = fences_inv s st" "fences_inv s (st\<lparr>sy_globals := gl\<rparr>) = fences_inv s st"
  "fences_inv s (st\<lparr>sy_tokens := T\<rparr>) = fences_inv s st" "fences_inv s (st\<lparr>sy_markers := M\<rparr>) = fences_inv s st"
  "fences_inv s (st\<lparr>sy_entry_writers := ew\<rparr>) = fences_inv s st"
  "marks_inv hf (st\<lparr>sy_part := pt\<rparr>) = marks_inv hf st" "marks_inv hf (st\<lparr>sy_globals := gl\<rparr>) = marks_inv hf st"
  "marks_inv hf (st\<lparr>sy_tokens := T\<rparr>) = marks_inv hf st" "marks_inv hf (st\<lparr>sy_entry_writers := ew\<rparr>) = marks_inv hf st"
  by (auto simp: fun_eq_iff held_def settled_def past_def current_def good_def fences_inv_def marks_inv_def)

lemma background_good:
  assumes b: "background s st st'" and inv: "fences_inv s st" and g: "good s st g m"
  shows "good s st' g m"
proof -
  have f: "held st' = held st" "sy_entry_writers st' = sy_entry_writers st"
    using star_frame(2,3)[of s st st'] b by blast+
  note S = background_settled[OF b inv]
  have T: "(i, t, w) \<in> sy_tokens st \<or> (i, t, None) \<in> sy_tokens st \<and> w = Some (sy_db st i) \<and> sy_db st' i = sy_db st i" if "(i, t, w) \<in> sy_tokens st'" for i t w
    using b that by cases auto
  show ?thesis
  proof (rule goodI)
    fix i t w e v assume t: "(i, t, w) \<in> sy_tokens st'" "m i = Some (e, v)" "ce_version e = tk_key_version t"
    then consider "(i, t, w) \<in> sy_tokens st" | "(i, t, None) \<in> sy_tokens st" "w = Some (sy_db st i)" "sy_db st' i = sy_db st i" using T by blast
    then show "\<not> held st' i \<and> settled s st' i (tk_global_epoch t) (tk_relation_version t) w"
    proof cases
      case 1
      show ?thesis using goodD(6,7)[OF g 1 t(2,3)] S f by metis
    next
      case 2
      have "\<not> held st i" "settled s st' i (tk_global_epoch t) (tk_relation_version t) None" using goodD(6,7)[OF g 2(1) t(2,3)] S by blast+
      then show ?thesis using 2 f unfolding settled_def by simp
    qed
  next
    fix i t w assume "(i, t, w) \<in> sy_tokens st'"
    then show "tk_key_version t \<le> g" using T goodD(5)[OF g] by blast
  qed (use goodD(1-4)[OF g] S f in metis)+
qed

lemma good_shift:
  assumes g: "good s st g m" and sh: "shifts g g' m m'"
  shows "good s st g' m'"
proof (rule goodI)
  fix i e v assume m': "m' i = Some (e, v)"
  show "sy_entry_writers st i \<le> ce_dirty_writers e"
  proof (cases "m i")
    case None
    then show ?thesis using goodD(4)[OF g, of i] by (cases "sy_entry_writers st i") auto
  next
    case (Some c)
    then show ?thesis using shiftsD(4)[OF sh Some m'] goodD(1)[OF g, of i "fst c" "snd c"] by (simp add: dims_def)
  qed
  assume v: "ce_valid e"
  obtain c where c: "m i = Some c" "dims g g' c (e, v)" using shiftsD(2)[OF sh _ m'] shiftsD(4)[OF sh _ m'] v by (cases "m i") auto
  obtain d u where d: "c = (d, u)" by fastforce
  have "ce_valid d" "payload_of e = payload_of d" "v = u" using c(2) v by (auto simp: dims_def d)
  then have "ce_valid d" "ce_global_epoch e = ce_global_epoch d" "ce_relation_version e = ce_relation_version d" "row e v = row d u"
    by (simp_all add: payload_of_def row_def)
  then show "\<not> held st i \<and> settled s st i (ce_global_epoch e) (ce_relation_version e) (Some (row e v))"
    using goodD(2,3)[OF g c(1)[unfolded d]] by simp
next
  fix i assume "0 < sy_entry_writers st i"
  then show "m' i \<noteq> None"
    using goodD(1,4)[OF g, of i] shiftsD(3)[OF sh, of i] by (cases "m i") fastforce+
next
  fix i t w assume t: "(i, t, w) \<in> sy_tokens st"
  show "tk_key_version t \<le> g'" using goodD(5)[OF g t] shiftsD(1)[OF sh] by simp
  fix e v assume m': "m' i = Some (e, v)" "ce_version e = tk_key_version t"
  then obtain c where c: "m i = Some c" "dims g g' c (e, v)"
    using shiftsD(2)[OF sh _ m'(1)] shiftsD(4)[OF sh _ m'(1)] goodD(5)[OF g t] by (cases "m i") auto
  obtain d u where d: "c = (d, u)" by fastforce
  have "ce_version d = tk_key_version t" using c(2) m'(2) goodD(5)[OF g t] by (auto simp: dims_def newer_def d)
  then show "\<not> held st i \<and> settled s st i (tk_global_epoch t) (tk_relation_version t) w" using goodD(6,7)[OF g t c(1)[unfolded d]] by simp
qed

text \<open>Changes of one cell and of the holders of one key.\<close>

lemma other_cell: "(m(i \<mapsto> (e, w))) j = Some (e', v) \<Longrightarrow> (j = i \<Longrightarrow> e' \<noteq> e) \<Longrightarrow> j \<noteq> i \<and> m j = Some (e', v)"
  by (auto split: if_splits)

lemma good_cell:
  assumes g: "good s st g m" and le: "g \<le> g'" and d: "sy_entry_writers st i \<le> ce_dirty_writers e"
    and v: "ce_valid e \<Longrightarrow> \<not> held st i \<and> settled s st i (ce_global_epoch e) (ce_relation_version e) (Some (row e w))"
    and t: "\<And>t u. (i, t, u) \<in> sy_tokens st \<Longrightarrow> ce_version e \<noteq> tk_key_version t"
  shows "good s st g' (m(i \<mapsto> (e, w)))"
proof (rule goodI)
  fix j t u assume j: "(j, t, u) \<in> sy_tokens st"
  show "tk_key_version t \<le> g'" using goodD(5)[OF g j] le by simp
  fix e' v assume m: "(m(i \<mapsto> (e, w))) j = Some (e', v)" "ce_version e' = tk_key_version t"
  have "m j = Some (e', v)" using other_cell[OF m(1)] m(2) t[of t u] j by blast
  then show "\<not> held st j \<and> settled s st j (tk_global_epoch t) (tk_relation_version t) u"
    using goodD(6,7)[OF g j] m(2) by blast
qed (use goodD(1-4)[OF g] d v in \<open>auto split: if_splits\<close>)

lemma held_entry_writers: "j \<noteq> i \<Longrightarrow> held (st\<lparr>sy_entry_writers := (sy_entry_writers st)(i := n)\<rparr>) j = held st j"
  by (simp add: held_def)

lemma good_writers:
  assumes g: "good s st g m" and le: "g \<le> g'" and n: "n \<le> ce_dirty_writers e" "\<not> ce_valid e"
    and t: "\<And>t u. (i, t, u) \<in> sy_tokens st \<Longrightarrow> ce_version e \<noteq> tk_key_version t"
  shows "good s (st\<lparr>sy_entry_writers := (sy_entry_writers st)(i := n)\<rparr>) g' (m(i \<mapsto> (e, v)))"
proof (rule goodI)
  fix j t u assume j: "(j, t, u) \<in> sy_tokens (st\<lparr>sy_entry_writers := (sy_entry_writers st)(i := n)\<rparr>)"
  then have j': "(j, t, u) \<in> sy_tokens st" by simp
  show "tk_key_version t \<le> g'" using goodD(5)[OF g j'] le by simp
  fix e' v' assume m: "(m(i \<mapsto> (e, v))) j = Some (e', v')" "ce_version e' = tk_key_version t"
  have "j \<noteq> i" using other_cell[OF m(1)] m(2) t[of t u] j' by blast
  then show "\<not> held (st\<lparr>sy_entry_writers := (sy_entry_writers st)(i := n)\<rparr>) j \<and>
      settled s (st\<lparr>sy_entry_writers := (sy_entry_writers st)(i := n)\<rparr>) j (tk_global_epoch t) (tk_relation_version t) u"
    using goodD(6,7)[OF g j'] m by (simp add: held_entry_writers)
next
  fix j e' v' assume m: "(m(i \<mapsto> (e, v))) j = Some (e', v')"
  show "sy_entry_writers (st\<lparr>sy_entry_writers := (sy_entry_writers st)(i := n)\<rparr>) j \<le> ce_dirty_writers e'"
    using m n(1) goodD(1)[OF g] by (auto split: if_splits)
  assume "ce_valid e'"
  then have "j \<noteq> i" using m n(2) by auto
  then show "\<not> held (st\<lparr>sy_entry_writers := (sy_entry_writers st)(i := n)\<rparr>) j \<and>
      settled s (st\<lparr>sy_entry_writers := (sy_entry_writers st)(i := n)\<rparr>) j (ce_global_epoch e') (ce_relation_version e') (Some (row e' v'))"
    using m goodD(2,3)[OF g _ \<open>ce_valid e'\<close>] by (simp add: held_entry_writers)
next
  fix j assume "0 < sy_entry_writers (st\<lparr>sy_entry_writers := (sy_entry_writers st)(i := n)\<rparr>) j"
  then show "(m(i \<mapsto> (e, v))) j \<noteq> None" using goodD(4)[OF g, of j] by (auto split: if_splits)
qed

lemma good_markers:
  assumes g: "good s st g m" and i: "m i = None" and M: "\<And>j. j \<noteq> i \<Longrightarrow> j \<in> fst ` set_mset M \<Longrightarrow> j \<in> fst ` set_mset (sy_markers st)"
  shows "good s (st\<lparr>sy_markers := M\<rparr>) g m"
proof -
  have h: "\<not> held (st\<lparr>sy_markers := M\<rparr>) j" if "\<not> held st j" "m j = Some c" for j c
  proof -
    have "j \<noteq> i" using that(2) i by auto
    then show ?thesis using that(1) M[of j] unfolding held_def by auto
  qed
  show ?thesis by (rule goodI) (use goodD[OF g] h in simp_all)
qed

lemma tok_side: "marker_side pt' = marker_side pt \<Longrightarrow> tok pt' = tok pt"
  by (intro ext) (simp add: tok_def mlive_def mident_def marker_side_def)

lemma filter_member: "x \<in># M \<Longrightarrow> P x \<Longrightarrow> 0 < size (filter_mset P M)"
  by (subst nonempty_has_size[symmetric]) (metis (no_types, lifting) emptyE set_mset_empty mem_Collect_eq set_mset_filter)

lemma marks_invD:
  assumes "marks_inv hf st pt"
  shows "(i, n, g) \<in># sy_markers st \<Longrightarrow> cells pt i = None" "(i, n, g) \<in># sy_markers st \<Longrightarrow> tok pt n g (mark hf i)"
    "size (filter_mset (\<lambda>x. mark hf (fst x) = j) (sy_markers st)) \<le> marker_writers pt j"
    "(i, n, g) \<in># sy_markers st \<Longrightarrow> 0 < marker_writers pt (mark hf i)"
proof -
  show "(i, n, g) \<in># sy_markers st \<Longrightarrow> cells pt i = None" "(i, n, g) \<in># sy_markers st \<Longrightarrow> tok pt n g (mark hf i)"
    and c: "size (filter_mset (\<lambda>x. mark hf (fst x) = j) (sy_markers st)) \<le> marker_writers pt j" for j
    using assms unfolding marks_inv_def by blast+
  show "(i, n, g) \<in># sy_markers st \<Longrightarrow> 0 < marker_writers pt (mark hf i)"
    using filter_member[of "(i, n, g)" "sy_markers st" "\<lambda>x. mark hf (fst x) = mark hf i"] c[of "mark hf i"] by simp
qed

lemma marks_invI:
  assumes "\<And>i n g. (i, n, g) \<in># sy_markers st \<Longrightarrow> cells pt i = None \<and> tok pt n g (mark hf i)"
    and "\<And>j. size (filter_mset (\<lambda>x. mark hf (fst x) = j) (sy_markers st)) \<le> marker_writers pt j"
  shows "marks_inv hf st pt"
  using assms unfolding marks_inv_def by blast

lemma marks_calm:
  assumes m: "marks_inv hf st pt" and s: "marker_side pt' = marker_side pt" and u: "unmarked hf pt pt'"
  shows "marks_inv hf st pt'"
proof (rule marks_invI)
  fix i n g assume x: "(i, n, g) \<in># sy_markers st"
  have "cells pt' i = None"
    using marks_invD(1,4)[OF m x] spec[OF u[unfolded unmarked_def], of i] by (cases "cells pt' i") simp_all
  then show "cells pt' i = None \<and> tok pt' n g (mark hf i)" using marks_invD(2)[OF m x] tok_side[OF s] by simp
qed (simp only: marks_invD(3)[OF m] markers_ok_marker_side(2)[OF s])

lemma marks_reserved:
  assumes m: "marks_inv hf st pt" and ok: "cache_ok hf pt" and mk: "marked Suc (mark hf i) pt pt'" and t: "tok pt' n g (mark hf i)" and i: "cells pt i = None"
  shows "marks_inv hf (st\<lparr>sy_markers := add_mset (i, n, g) (sy_markers st)\<rparr>) pt'"
proof (rule marks_invI)
  note D = markedD[OF mk ok]
  fix j n' g' assume x: "(j, n', g') \<in># sy_markers (st\<lparr>sy_markers := add_mset (i, n, g) (sy_markers st)\<rparr>)"
  show "cells pt' j = None \<and> tok pt' n' g' (mark hf j)"
  proof (cases "(j, n', g') \<in># sy_markers st")
    case True
    have "0 < marker_writers pt' (mark hf j)" using marks_invD(4)[OF m True] unfolding D(3) by simp
    then show ?thesis using D(1) D(6)[OF marks_invD(2)[OF m True]] marks_invD(1)[OF m True] by simp
  qed (use x t i D(1) in simp)
next
  fix j
  show "size (filter_mset (\<lambda>x. mark hf (fst x) = j) (sy_markers (st\<lparr>sy_markers := add_mset (i, n, g) (sy_markers st)\<rparr>))) \<le> marker_writers pt' j"
    using marks_invD(3)[OF m, of j] unfolding markedD(3)[OF mk ok] by (cases "j = mark hf i") simp_all
qed

lemma marks_released:
  assumes m: "marks_inv hf st pt" and ok: "cache_ok hf pt" and mk: "marked (\<lambda>n. n - 1) (mark hf i) pt pt'" and x: "(i, n, g) \<in># sy_markers st"
  shows "marks_inv hf (st\<lparr>sy_markers := sy_markers st - {#(i, n, g)#}\<rparr>) pt'"
proof -
  define M where "M = sy_markers st - {#(i, n, g)#}"
  have M: "sy_markers st = add_mset (i, n, g) M" using x by (simp add: M_def)
  note D = markedD[OF mk ok]
  have c: "size (filter_mset (\<lambda>x. mark hf (fst x) = j) M) \<le> marker_writers pt' j" for j
    using marks_invD(3)[OF m, of j] unfolding D(3) M by (auto split: if_splits)
  have "cells pt' j = None \<and> tok pt' n' g' (mark hf j)" if y: "(j, n', g') \<in># M" for j n' g'
  proof -
    have "0 < marker_writers pt' (mark hf j)"
      using filter_member[OF y, of "\<lambda>x. mark hf (fst x) = mark hf j"] c[of "mark hf j"] by simp
    moreover have y': "(j, n', g') \<in># sy_markers st" using y M by simp
    ultimately show ?thesis using D(1) D(6)[OF marks_invD(2)[OF m y']] marks_invD(1)[OF m y'] by simp
  qed
  then show ?thesis by (intro marks_invI) (simp_all add: M_def[symmetric] c)
qed

section \<open>Every step keeps the invariant\<close>

lemma coherentD:
  assumes "coherent hf s st"
  shows "fences_inv s st" "cache_ok hf (sy_part st)" "\<exists>rest. counted rest (sy_part st) (sy_globals st)" "marks_inv hf st (sy_part st)"
    "good s st (pt_entry_generation (sy_part st)) (cells (sy_part st))"
  using assms unfolding coherent_def by blast+

lemma starts_coherent:
  assumes "starts hf s st"
  shows "coherent hf s st"
proof -
  have f: "fresh_partition hf (sy_part st)" using assms by (simp add: starts_def)
  have "fences_inv s st" using assms by (auto simp: starts_def fences_inv_def list_all_length)
  moreover have "counted (gl_cache_entry_count (sy_globals st)) (sy_part st) (sy_globals st)"
    using assms f by (simp add: counted_def fresh_partition_def starts_def)
  moreover have "marks_inv hf st (sy_part st)" "good s st g (cells (sy_part st))" for g
    using assms f by (auto simp: starts_def marks_inv_def good_def fresh_partition_def)
  ultimately show ?thesis using f unfolding coherent_def fresh_partition_def by blast
qed

lemma background_coherent:
  assumes b: "background s st st'" and c: "coherent hf s st"
  shows "coherent hf s st'"
proof -
  note C = coherentD[OF c]
  have f: "sy_part st' = sy_part st" "sy_markers st' = sy_markers st" using star_frame(1,4)[of s st st'] b by blast+
  have "\<exists>rest. counted rest (sy_part st') (sy_globals st')" using b C(3) by cases auto
  moreover have "marks_inv hf st' (sy_part st')" using C(4) unfolding marks_inv_def f .
  ultimately show ?thesis using background_inv[OF b C(1)] C(2) background_good[OF b C(1,5)] unfolding coherent_def f(1) by blast
qed

lemma star_coherent: "(background s)\<^sup>*\<^sup>* st st' \<Longrightarrow> coherent hf s st \<Longrightarrow> coherent hf s st'"
  by (induction rule: rtranclp_induct) (auto intro: background_coherent)

lemma calm_coherent:
  assumes c: "coherent hf s st" and k: "calm hf (sy_part st) (sy_globals st) pt gl"
  shows "coherent hf s (onto pt gl st)"
proof -
  note C = coherentD[OF c] and K = calmD[OF k]
  have "cache_ok hf pt" by (rule calm_ok[OF C(2) k])
  moreover have "\<exists>rest. counted rest pt gl" using C(3) K(3) by blast
  ultimately show ?thesis
    using C(1) marks_calm[OF C(4) K(2,5)] good_shift[OF C(5) K(4)] unfolding coherent_def by simp
qed

lemma issue_coherent:
  assumes c: "coherent hf s st" and e: "cells (sy_part st) i = Some (e, v)" "ce_version e = tk_key_version t" "\<not> held st i"
    "settled s st i (tk_global_epoch t) (tk_relation_version t) None"
  shows "coherent hf s (issue i t st)"
proof (cases "tk_cacheable t")
  case True
  note C = coherentD[OF c]
  define T where "T = insert (i, t, None) (sy_tokens st)"
  have "good s (st\<lparr>sy_tokens := T\<rparr>) (pt_entry_generation (sy_part st)) (cells (sy_part st))"
  proof (rule goodI)
    fix j t' w assume j: "(j, t', w) \<in> sy_tokens (st\<lparr>sy_tokens := T\<rparr>)"
    show "tk_key_version t' \<le> pt_entry_generation (sy_part st)"
      using j goodD(5)[OF C(5), of j t' w] cache_okD(3)[OF C(2) e(1)] e(2) by (auto simp: T_def)
    fix e' v' assume "cells (sy_part st) j = Some (e', v')" "ce_version e' = tk_key_version t'"
    then show "\<not> held (st\<lparr>sy_tokens := T\<rparr>) j \<and> settled s (st\<lparr>sy_tokens := T\<rparr>) j (tk_global_epoch t') (tk_relation_version t') w"
      using j goodD(6,7)[OF C(5), of j t' w] e by (auto simp: T_def)
  qed (use goodD(1-4)[OF C(5)] in simp_all)
  then show ?thesis using C(1-4) True unfolding coherent_def issue_def T_def by simp
qed (use c in \<open>simp add: issue_def\<close>)

lemma passes_end:
  assumes "passes s st tr" "coherent hf s st"
  shows "coherent hf s (tr j)" "sy_part (tr j) = sy_part st" "held (tr j) = held st" "sy_tokens st \<subseteq> sy_tokens (tr j)"
  using star_coherent[OF passes_rises(3)[OF assms(1) coherentD(1)[OF assms(2)]] assms(2)]
    star_frame[OF passes_rises(3)[OF assms(1) coherentD(1)[OF assms(2)]]] by blast+

lemma mapped_of [simp]: "slot_of (mapped pr mp key) = mp_relation_slot mp" "generation_of (mapped pr mp key) = mp_relation_slot_generation mp"
  by (simp_all add: slot_of_def generation_of_def mapped_def)

lemma shift_zero: "shift_obs 0 obs = obs"
  by (simp add: shift_obs_def)

lemma snapshot_clean: "read_fence_snapshot s obs mp (Some e) = Some (b, True) \<Longrightarrow> ce_dirty_writers e = 0"
  unfolding read_fence_snapshot_def Let_def by (auto split: if_splits)

lemma clean_not_held:
  assumes c: "coherent hf s st" and e: "cells (sy_part st) i = Some (e, v)" "ce_dirty_writers e = 0"
  shows "\<not> held st i"
proof -
  have "sy_entry_writers st i = 0" using goodD(1)[OF coherentD(5)[OF c] e(1)] e(2) by simp
  moreover have "i \<notin> fst ` set_mset (sy_markers st)" using marks_invD(1)[OF coherentD(4)[OF c], of i] e(1) by fastforce
  ultimately show ?thesis by (simp add: held_def)
qed

lemma lookup_coherent:
  assumes c: "coherent hf s st" and p: "passes s st tr" and h: "hashes hf pr mp key" "pglc_cache_entries s < 2 ^ 32"
    and pub: "mp_relation_slot_generation mp \<le> sy_published st (mp_relation_slot mp)"
    and run: "cache_lookup_locked pr s (watched tr) fs nows mp key cap create (sy_part st) (sy_globals (tr 40)) = (Inr lr, pt, gl)"
  shows "coherent hf s (issue (mapped pr mp key) (lr_token lr) (onto pt gl (tr 40)))"
proof -
  define i where "i = mapped pr mp key"
  note P = passes_end[OF p c] and inv = coherentD(1)[OF c]
  note C = coherentD[OF P(1)[of 40], unfolded P(2)]
  obtain rest where rest: "counted rest (sy_part st) (sy_globals (tr 40))" using C(3) by blast
  note L = lookup_spec[OF cache_okD(1)[OF C(2)] h(1) rest h(2) cache_okD(2)[OF C(2)] run, unfolded sum.case, folded i_def]
  have "calm hf (sy_part (tr 40)) (sy_globals (tr 40)) pt gl" using L unfolding P(2) by blast
  note K = calm_coherent[OF P(1) this]
  show ?thesis
  proof (cases "tk_cacheable (lr_token lr)")
    case True
    then obtain e v where e: "cells pt i = Some (e, v)" "token_for s (watched tr) mp (lr_token lr) e" using L by blast
    then obtain b where b: "read_fence_snapshot s (watched tr) mp (Some e) = Some (b, True)" "fence_snapshot_matches_token b (lr_token lr)"
      "tk_key_version (lr_token lr) = ce_version e" by (auto simp: token_for_def)
    have e': "cells (sy_part (onto pt gl (tr 40))) i = Some (e, v)" using e(1) by simp
    have nh: "\<not> held (onto pt gl (tr 40)) i" by (rule clean_not_held[OF K e' snapshot_clean[OF b(1)]])
    then have nh7: "\<not> held (tr 7) i" using P(3)[of 40] P(3)[of 7] by simp
    have "settled s (tr 7) i (sn_global_epoch b) (sn_relation_version b) None"
      using snapshot_settled(2)[OF p inv, where n = 0 and i = i and mp = mp] pub b(1) p by (simp add: i_def shift_zero passes_def)
    moreover have "(background s)\<^sup>*\<^sup>* (tr 7) (tr 40)" using passes_between[OF p, of 7 33] by simp
    ultimately have "settled s (tr 40) i (sn_global_epoch b) (sn_relation_version b) None"
      using star_settled[OF _ passes_rises(2)[OF p inv] _ nh7] by blast
    then have "settled s (onto pt gl (tr 40)) i (tk_global_epoch (lr_token lr)) (tk_relation_version (lr_token lr)) None"
      using b(2) by (simp add: fence_snapshot_matches_token_def)
    then show ?thesis using issue_coherent[OF K e' _ nh] b(3) unfolding i_def by simp
  qed (use K in \<open>simp add: issue_def\<close>)
qed

lemma store_coherent:
  assumes c: "coherent hf s st" and p: "passes s st tr" and h: "hashes hf pr mp key"
    and tok: "(mapped pr mp key, t, Some (if negative then None else Some w)) \<in> sy_tokens st"
    and run: "pglc_cache_store pr s (watched tr) fs nows xid mp key t w negative load_id xmin (sy_part st) (sy_globals (tr 40)) = (Inr stored, pt, gl)"
  shows "coherent hf s (onto pt gl (tr 40))"
proof -
  define i where "i = mapped pr mp key"
  define g' where "g' = pt_entry_generation pt"
  note P = passes_end[OF p c]
  note C = coherentD[OF P(1)[of 40], unfolded P(2)]
  note ok = store_ok[OF C(2) h run]
  have S: "store_post hf s (watched tr) mp i t w negative load_id xmin xid (sy_part st) (sy_globals (tr 40)) stored pt gl"
    using store_spec[OF cache_okD(1)[OF C(2)] h run] by (simp add: i_def)
  have S': "marker_side pt = marker_side (sy_part st)" "\<And>rest. counted rest (sy_part st) (sy_globals (tr 40)) \<Longrightarrow> counted rest pt gl"
    "unmarked hf (sy_part st) pt" using S unfolding store_post_def by blast+
  have "good s (tr 40) g' (cells pt)"
  proof (cases stored)
    case False
    then show ?thesis using S good_shift[OF C(5)] unfolding store_post_def g'_def by simp
  next
    case True
    define f where "f e = filled t negative (if negative then 0 else length w) xmin xid g' True e" for e
    obtain e v where e: "cells (sy_part st) i = Some (e, v)" "may_fill s (shift_obs 1 (watched tr)) mp t load_id e"
      "pt_entry_generation (sy_part st) < g'" "cells pt i = Some (f e, if negative then [] else w)"
      "shifts (pt_entry_generation (sy_part st)) g' (cells (sy_part st)) ((cells pt)(i \<mapsto> (restamped g' e, v)))"
      using S True unfolding store_post_def f_def g'_def by auto
    have tk: "(i, t, Some (if negative then None else Some w)) \<in> sy_tokens (tr 40)" using tok P(4)[of 40] by (auto simp: i_def)
    note T = goodD(6,7)[OF C(5) tk e(1) may_fill_tags(5)[OF e(2)]]
    have fe: "ce_dirty_writers (f e) = ce_dirty_writers e" "ce_global_epoch (f e) = tk_global_epoch t" "ce_relation_version (f e) = tk_relation_version t"
      "ce_version (f e) = g'" "row (f e) (if negative then [] else w) = (if negative then None else Some w)"
      by (simp_all add: f_def filled_def drop_lease_def Let_def row_def)
    have "good s (tr 40) g' (((cells pt)(i \<mapsto> (restamped g' e, v)))(i \<mapsto> (f e, if negative then [] else w)))"
    proof (rule good_cell[OF good_shift[OF C(5) e(5)] order_refl])
      show "sy_entry_writers (tr 40) i \<le> ce_dirty_writers (f e)" using goodD(1)[OF C(5) e(1)] fe(1) by simp
      show "\<not> held (tr 40) i \<and> settled s (tr 40) i (ce_global_epoch (f e)) (ce_relation_version (f e)) (Some (row (f e) (if negative then [] else w)))"
        using T unfolding fe(2,3,5) by blast
      show "ce_version (f e) \<noteq> tk_key_version t'" if "(i, t', u) \<in> sy_tokens (tr 40)" for t' u
        using goodD(5)[OF C(5) that] e(3) fe(4) by simp
    qed
    then show ?thesis using fun_upd_triv[of "cells pt" i] e(4) by simp
  qed
  then show ?thesis using C(1,3) ok S'(2) marks_calm[OF C(4) S'(1,3)] unfolding coherent_def g'_def by auto
qed

lemma reserve_coherent:
  assumes c: "coherent hf s st" and a: "aimed hf l" and run: "reserve_key pr s l (sy_part st) (sy_globals st) = (Inr b, l', pt, gl)"
  shows "\<not> b \<Longrightarrow> coherent hf s (onto pt gl st)"
    "b \<Longrightarrow> shared_entry_reserved l' \<Longrightarrow> \<not> shared_entry_reserved l \<Longrightarrow>
      coherent hf s (onto pt gl (st\<lparr>sy_entry_writers := (sy_entry_writers st)(aim l := sy_entry_writers st (aim l) + 1)\<rparr>))"
    "b \<Longrightarrow> \<not> shared_entry_reserved l' \<Longrightarrow>
      coherent hf s (onto pt gl (st\<lparr>sy_markers := add_mset (aim l, shared_marker_id l', shared_marker_generation l') (sy_markers st)\<rparr>))"
proof -
  define i where "i = aim l"
  note C = coherentD[OF c]
  have R: "reserve_post hf i b l (sy_part st) (sy_globals st) l' pt gl" using reserve_key_spec[OF C(2) a run] by (simp add: i_def)
  have ok: "cache_ok hf pt" "\<exists>rest. counted rest pt gl" using R C(3) unfolding reserve_post_def by blast+
  show "coherent hf s (onto pt gl st)" if "\<not> b"
  proof -
    have m: "marked (\<lambda>n. n) (mark hf i) (sy_part st) pt" using R that unfolding reserve_post_def by simp
    note D = markedD[OF m C(2)]
    have "marks_inv hf st pt"
      using marks_invD(1,2,3,4)[OF C(4)] D(1,3,6) by (intro marks_invI) (simp_all add: fun_upd_idem)
    then show ?thesis using C(1,5) ok D(1,5) unfolding coherent_def by simp
  qed
  show "coherent hf s (onto pt gl (st\<lparr>sy_entry_writers := (sy_entry_writers st)(aim l := sy_entry_writers st (aim l) + 1)\<rparr>))"
    if b: "b" "shared_entry_reserved l'" "\<not> shared_entry_reserved l"
  proof -
    obtain e v where e: "cells (sy_part st) i = Some (e, v)" using R b unfolding reserve_post_def by (cases "cells (sy_part st) i") auto
    then have E: "marker_side pt = marker_side (sy_part st)" "pt_entry_generation pt = pt_entry_generation (sy_part st) + 1"
      "cells pt = (cells (sy_part st))(i \<mapsto> (reserved (pt_entry_generation pt) e, v))"
      using R b(1) unfolding reserve_post_def by simp_all
    define g' where "g' = pt_entry_generation pt"
    have "unmarked hf (sy_part st) pt" by (rule unmarked_dom) (use e in \<open>auto simp: E(3)\<close>)
    note M = marks_calm[OF C(4) E(1) this]
    have f: "ce_dirty_writers (reserved g' e) = ce_dirty_writers e + 1" "\<not> ce_valid (reserved g' e)" "ce_version (reserved g' e) = g'"
      by (simp_all add: reserved_def retired_def restamped_def drop_lease_def)
    have "good s (st\<lparr>sy_entry_writers := (sy_entry_writers st)(i := sy_entry_writers st i + 1)\<rparr>) g' (cells pt)"
      unfolding E(3) g'_def[symmetric]
      by (rule good_writers[OF C(5)]) (use goodD(1)[OF C(5) e] goodD(5)[OF C(5)] f E(2) in \<open>fastforce simp: g'_def\<close>)+
    then show ?thesis using C(1) ok M unfolding coherent_def i_def g'_def by simp
  qed
  show "coherent hf s (onto pt gl (st\<lparr>sy_markers := add_mset (aim l, shared_marker_id l', shared_marker_generation l') (sy_markers st)\<rparr>))"
    if b: "b" "\<not> shared_entry_reserved l'"
  proof -
    have n: "cells (sy_part st) i = None" using R b unfolding reserve_post_def by (cases "cells (sy_part st) i") auto
    then have m: "marked Suc (mark hf i) (sy_part st) pt" "tok pt (shared_marker_id l') (shared_marker_generation l') (mark hf i)"
      using R b(1) unfolding reserve_post_def by auto
    note D = markedD[OF m(1) C(2)]
    have "good s (st\<lparr>sy_markers := add_mset (i, shared_marker_id l', shared_marker_generation l') (sy_markers st)\<rparr>) (pt_entry_generation pt) (cells pt)"
      unfolding D(1,5) by (rule good_markers[OF C(5) n]) auto
    then show ?thesis using C(1) ok marks_reserved[OF C(4,2) m n] unfolding coherent_def i_def by simp
  qed
qed

lemma release_entry_coherent:
  assumes c: "coherent hf s st" and a: "aimed hf l" and l: "shared_marker_reserved l" "shared_entry_reserved l" and w: "0 < sy_entry_writers st (aim l)"
    and run: "release_key pr s l (sy_part st) (sy_globals st) = (Inr (), l', pt, gl)"
  shows "coherent hf s (onto pt gl (st\<lparr>sy_entry_writers := (sy_entry_writers st)(aim l := sy_entry_writers st (aim l) - 1)\<rparr>))"
proof -
  define i where "i = aim l"
  note C = coherentD[OF c]
  obtain e v where e: "cells (sy_part st) i = Some (e, v)" using goodD(4)[OF C(5) w] by (auto simp: i_def)
  have d: "sy_entry_writers st i \<le> ce_dirty_writers e" "0 < sy_entry_writers st i" using goodD(1)[OF C(5) e] w by (simp_all add: i_def)
  have "0 < ce_dirty_writers e" using d by simp
  note R = release_entry_spec[OF C(2) a l e[unfolded i_def] this run, folded i_def]
  have "unmarked hf (sy_part st) pt" by (rule unmarked_dom) (use e in \<open>auto simp: R(4)\<close>)
  note M = marks_calm[OF C(4) R(5) this]
  have h: "held st i" using d(2) by (simp add: held_def)
  have "good s (st\<lparr>sy_entry_writers := (sy_entry_writers st)(i := sy_entry_writers st i - 1)\<rparr>) (pt_entry_generation (sy_part st)) (cells pt)"
    unfolding R(4)
  proof (rule good_writers[OF C(5) order_refl])
    show "ce_version (released e) \<noteq> tk_key_version t" if "(i, t, u) \<in> sy_tokens st" for t u
      using goodD(6)[OF C(5) that e] h by (auto simp: released_def)
  qed (use d in \<open>simp_all add: released_def\<close>)
  then show ?thesis using C(1,3) M R(2,3,6,7) unfolding coherent_def i_def by auto
qed

lemma release_marker_coherent:
  assumes c: "coherent hf s st" and l: "shared_marker_reserved l" "\<not> shared_entry_reserved l"
    and x: "(aim l, shared_marker_id l, shared_marker_generation l) \<in># sy_markers st"
    and run: "release_key pr s l (sy_part st) (sy_globals st) = (Inr (), l', pt, gl)"
  shows "coherent hf s (onto pt gl (st\<lparr>sy_markers := sy_markers st - {#(aim l, shared_marker_id l, shared_marker_generation l)#}\<rparr>))"
proof -
  note C = coherentD[OF c]
  note R = release_marker_spec[OF C(2) l marks_invD(2)[OF C(4) x] run]
  note D = markedD[OF R(2) C(2)]
  have "\<exists>rest. counted rest pt gl" using C(3) R(3) D(4) by (auto simp: counted_def)
  moreover have "good s (st\<lparr>sy_markers := sy_markers st - {#(aim l, shared_marker_id l, shared_marker_generation l)#}\<rparr>) (pt_entry_generation pt) (cells pt)"
    unfolding D(1,5) by (rule good_markers[OF C(5) marks_invD(1)[OF C(4) x]]) (auto dest: in_diffD)
  ultimately show ?thesis using C(1) D(2) marks_released[OF C(4,2) R(2) x] unfolding coherent_def by simp
qed

lemma locked_coherent:
  assumes k: "locked hf s st st'" and c: "coherent hf s st" and n: "pglc_cache_entries s < 2 ^ 32"
  shows "coherent hf s st'"
  using k
proof cases
  case (lookup tr pr mp key fs nows cap create lr pt gl)
  then show ?thesis using lookup_coherent[OF c lookup(2,3) n] by simp
next
  case (claim tr pr mp key now t cl pt gl)
  note P = passes_end[OF claim(2) c, of 40]
  have "calm hf (sy_part (tr 40)) (sy_globals (tr 40)) pt gl"
    using claim_spec[OF coherentD(2)[OF c] claim(3,4)] unfolding P(2) by (auto simp: claim_post_def)
  then show ?thesis using calm_coherent[OF P(1)] claim(1) by simp
next
  case (store tr pr mp key t negative w fs nows xid load_id xmin stored pt gl)
  then show ?thesis using store_coherent[OF c store(2-5)] by simp
next
  case (release_load tr pr mp key pt t load_id)
  note P = passes_end[OF release_load(2) c, of 40]
  show ?thesis using calm_coherent[OF P(1), unfolded P(2), OF release_load_spec[OF cache_okD(1)[OF coherentD(2)[OF c]] release_load(3)]]
    release_load(1,4) by simp
next
  case (retire tr pr mp key t xmin b pt)
  note P = passes_end[OF retire(2) c, of 40]
  show ?thesis using calm_coherent[OF P(1), unfolded P(2), OF retire_positive_spec(1)[OF cache_okD(1)[OF coherentD(2)[OF c]] retire(3,4)]]
    retire(1) by simp
next
  case (invalidate_key tr pr mp key m pt gl)
  note P = passes_end[OF invalidate_key(2) c, of 40]
  show ?thesis using calm_coherent[OF P(1), unfolded P(2), OF invalidate_key_spec(1)[OF cache_okD(1)[OF coherentD(2)[OF c]] invalidate_key(3,4)]]
    invalidate_key(1) by simp
next
  case (restamp l pr pt)
  then show ?thesis using calm_coherent[OF c restamp_key_spec[OF coherentD(2)[OF c] restamp(2,3)]] by simp
next
  case (reserve_refused l pr l' pt gl)
  then show ?thesis using reserve_coherent(1)[OF c reserve_refused(2,3)] by simp
next
  case (reserve_entry l pr l' pt gl)
  then show ?thesis using reserve_coherent(2)[OF c reserve_entry(2,3)] by simp
next
  case (reserve_marker l pr l' pt gl)
  then show ?thesis using reserve_coherent(3)[OF c reserve_marker(2,3)] by simp
next
  case (release_entry l pr l' pt gl)
  then show ?thesis using release_entry_coherent[OF c release_entry(2-6)] by simp
next
  case (release_marker l pr l' pt gl)
  then show ?thesis using release_marker_coherent[OF c release_marker(3-6)] by simp
qed

lemma reachable_coherent: "reachable hf s st \<Longrightarrow> pglc_cache_entries s < 2 ^ 32 \<Longrightarrow> coherent hf s st"
  by (induction rule: reachable.induct) (auto intro: starts_coherent background_coherent locked_coherent)

section \<open>Hits are fresh\<close>

lemma served_current:
  assumes p: "passes s st tr" and c: "coherent hf s st" and pub: "mp_relation_slot_generation mp \<le> sy_published st (mp_relation_slot mp)"
    and e: "cells (sy_part st) i = Some (e, v)" "i = mapped pr mp key" and sv: "serves s (watched tr) mp e"
  shows "current (tr 16) i (ce_global_epoch e) (ce_relation_version e)" "ce_valid e"
proof -
  define k where "k = mp_relation_slot mp"
  obtain b where b: "read_fence_snapshot s (watched tr) mp (Some e) = Some (b, True)" "cache_entry_is_current_slot_locked s (shift_obs 13 (watched tr)) e"
    "read_fence_snapshot s (shift_obs 17 (watched tr)) mp (Some e) = Some (b, True)" using sv by (auto simp: serves_def)
  note A = snapshot_reads[OF b(1), unfolded watched_def, folded k_def] and B = snapshot_reads[OF b(3), unfolded watched_def shift_obs_def, folded k_def]
  have slot: "ce_relation_slot e = k" using cell_ident(3)[OF e(1)[unfolded e(2) mapped_def]] by (simp add: k_def)
  have cur: "ce_valid e" "ce_global_epoch e = global_epoch (sy_fences (tr 14))" "ce_relation_version e = rs_version (sy_slot (tr 16) k)"
    using b(2) by (simp_all add: cache_entry_is_current_slot_locked_def shift_obs_def watched_def slot)
  show "ce_valid e" by (rule cur(1))
  note R = passes_rises(1)[OF p coherentD(1)[OF c]]
  have ep: "global_epoch (sy_fences (tr 16)) = global_epoch (sy_fences (tr 14))"
    using R[of 7 14] R[of 14 16] R[of 16 24] A(9) B(9) by (simp add: rises_def)
  have "rs_generation (sy_slot (tr 16) k) = mp_relation_slot_generation mp"
    using risesD(2)[OF R[of 11 16] A(1)] risesD(2)[OF R[of 16 20] A(1)] A(3) B(2) by simp
  then show "current (tr 16) i (ce_global_epoch e) (ce_relation_version e)"
    using ep cur(2,3) by (simp add: current_def e(2) k_def)
qed

text \<open>An undisturbed request: the system can reach states in which lookups hit.\<close>

lemma passes_still: "passes s st (\<lambda>_. st)" "watched (\<lambda>_. st) = (\<lambda>_. sy_fences st)"
  by (simp_all add: passes_def watched_def fun_eq_iff)

lemmas still_lookup = locked.lookup[OF passes_still(1), unfolded passes_still(2)]
  and still_claim = locked.claim[OF passes_still(1), unfolded passes_still(2)]
  and still_store = locked.store[OF passes_still(1), unfolded passes_still(2)]

lemma served_reachable:
  assumes r: "reachable hf s st" and rd: "ready hf pr s (sy_fences st) mp key rest (sy_part st) (sy_globals st)"
    and a: "cells (sy_part st) (mapped pr mp key) = None" "admissible s (key_query hf pr mp key (sy_part st)) (sy_part st) (sy_globals st)"
    and pub: "mp_relation_slot_generation mp \<le> sy_published st (mp_relation_slot mp)"
    and w: "sy_db st (mapped pr mp key) = Some w" "length key + length w \<le> 256" "length w \<le> PGLC_VALUE_MAX" "length w \<le> cap"
  obtains st' lr pt gl where "reachable hf s st'" "sy_fences st' = sy_fences st" "sy_published st' = sy_published st"
    "cache_lookup_locked pr s (\<lambda>_. sy_fences st') ev nows mp key cap False (sy_part st') (sy_globals st') = (Inr lr, pt, gl)" "lr_hit lr" "sy_db st' = sy_db st"
proof -
  note R = rd[unfolded ready_def]
  define i where "i = mapped pr mp key"
  define fs where "fs = sy_fences st"
  obtain lr pt1 gl1 e v where 1: "cache_lookup_locked pr s (still fs) ev nows mp key cap True (sy_part st) (sy_globals st) = (Inr lr, pt1, gl1)"
    "lr_token lr = quiet_token mp fs e" "cells pt1 i = Some (e, v)" "cold hf pt1 i" "calm hf (sy_part st) (sy_globals st) pt1 gl1"
    "pt_entry_generation pt1 = pt_entry_generation (sy_part st) + 1"
    using absent_admitted[of hf "sy_part st" pr mp key s fs rest "sy_globals st" ev nows cap] R a unfolding i_def fs_def by metis
  define t where "t = quiet_token mp fs e"
  have t: "tk_cacheable t" by (simp add: t_def quiet_token_def)
  define st1 where "st1 = issue i t (onto pt1 gl1 st)"
  have f1: "sy_part st1 = pt1" "sy_globals st1 = gl1" "sy_fences st1 = fs" "sy_published st1 = sy_published st" "sy_db st1 = sy_db st" "(i, t, None) \<in> sy_tokens st1"
    using t by (simp_all add: st1_def issue_def fs_def)
  have r1: "reachable hf s st1"
    using reachable.sections[OF r still_lookup[OF _ pub 1(1)[unfolded fs_def]]] R 1(2) unfolding st1_def t_def i_def fs_def by simp
  define st2 where "st2 = st1\<lparr>sy_tokens := insert (i, t, Some (sy_db st1 i)) (sy_tokens st1)\<rparr>"
  have r2: "reachable hf s st2" unfolding st2_def by (rule reachable.moves[OF r1 background.load[OF f1(6)]])
  have f2: "sy_part st2 = pt1" "sy_globals st2 = gl1" "sy_fences st2 = fs" "sy_published st2 = sy_published st" "(i, t, Some (Some w)) \<in> sy_tokens st2" "sy_db st2 = sy_db st"
    using f1 w(1) by (simp_all add: st2_def i_def)
  have ok1: "cache_ok hf pt1" "counted rest pt1 gl1" using calm_ok[OF _ 1(5)] calmD(3)[OF 1(5)] R by blast+
  define lid where "lid = next_load_id (ce_load_id e)"
  have q: "quiet s mp fs" and h: "hashes hf pr mp key" and n: "pglc_cache_entries s < 2 ^ 32" using R by (simp_all add: fs_def)
  obtain pt3 gl3 where 3: "pglc_cache_claim_load pr s (still fs) 0 mp key t pt1 gl1 = (Inr (PGLC_LOAD_OWNER, lid), pt3, gl3)"
    "cells pt3 = (cells pt1)(i \<mapsto> (leased t 0 lid e, v))" "calm hf pt1 gl1 pt3 gl3" "pt_entry_generation pt3 = pt_entry_generation pt1"
    using cold_claimed[OF ok1(1) h q 1(3,4)[unfolded i_def], of 0 gl1] unfolding t_def lid_def i_def by metis
  define st3 where "st3 = onto pt3 gl3 st2"
  have r3: "reachable hf s st3"
    unfolding st3_def by (rule reachable.sections[OF r2 still_claim[OF h 3(1)[folded f2(1-3)]]])
  have ok3: "cache_ok hf pt3" "counted rest pt3 gl3" using calm_ok[OF ok1(1) 3(3)] calmD(3)[OF 3(3) ok1(2)] .
  have d: "ce_dirty_writers e = 0" using 1(3,4) by (simp add: cold_def)
  have c3: "cells pt3 (mapped pr mp key) = Some (leased (quiet_token mp fs e) 0 lid e, v)" using 3(2) by (simp add: i_def t_def)
  have g3: "pt_entry_generation pt3 \<noteq> UINT64_MAX" using 3(4) 1(6) R by simp
  obtain pt4 gl4 where 4: "pglc_cache_store pr s (still fs) ev nows 0 mp key t w False lid 0 pt3 gl3 = (Inr True, pt4, gl4)"
    "cells pt4 i = Some (filled t False (length w) 0 0 (pt_entry_generation pt4) True (leased t 0 lid e), w)" "cache_ok hf pt4"
    using leased_stored[OF ok3(1) h q c3 d load_id_pos[of "ce_load_id e", folded lid_def], of w ev nows 0 0 gl3] w(2,3) g3 unfolding i_def t_def by metis
  define st4 where "st4 = onto pt4 gl4 st3"
  have f3: "sy_part st3 = pt3" "sy_globals st3 = gl3" "sy_fences st3 = fs" "(i, t, Some (if False then None else Some w)) \<in> sy_tokens st3"
    using f2 by (simp_all add: st3_def)
  have r4: "reachable hf s st4"
    unfolding st4_def by (rule reachable.sections[OF r3 still_store[OF h f3(4)[unfolded i_def] 4(1)[folded f3(1-3)]]])
  have c4: "counted rest pt4 gl4" using store_spec[OF cache_okD(1)[OF ok3(1)] h 4(1)] ok3(2) by (simp add: store_post_def)
  define x where "x = filled t False (length w) 0 0 (pt_entry_generation pt4) True (leased t 0 lid e)"
  have x: "ce_valid x" "ce_dirty_writers x = 0" "ce_global_epoch x = global_epoch fs" "ce_relation_version x = rs_version (slot_at fs (mp_relation_slot mp))"
    "ce_relation_incarnation x = rs_incarnation (slot_at fs (mp_relation_slot mp))"
    using d by (simp_all add: x_def filled_def leased_def drop_lease_def Let_def t_def quiet_token_def)
  obtain lr' pt5 gl5 where "cache_lookup_locked pr s (still fs) ev nows mp key cap False pt4 gl4 = (Inr lr', pt5, gl5)" "lr_hit lr'"
    using quiet_hit[OF 4(3) h q c4 n 4(2)[folded x_def, unfolded i_def] x w(4), of ev nows] by metis
  then show thesis using that[OF r4, of lr' pt5 gl5] f2 f3 by (simp add: st4_def st3_def fs_def)
qed

definition demo_system :: system where
  "demo_system = \<lparr>sy_part = demo_partition, sy_globals = start_globals, sy_fences = demo_tagged, sy_db = (\<lambda>_. Some ''v1''),
     sy_wait = 0, sy_advanced = 0, sy_open = 0, sy_done = 0, sy_slot_wait = (\<lambda>_. 0), sy_slot_open = (\<lambda>_. 0), sy_slot_done = (\<lambda>_. 0),
     sy_published = (\<lambda>k. rs_generation (slot_at demo_tagged k)), sy_entry_writers = (\<lambda>_. 0), sy_markers = {#}, sy_tokens = {}\<rparr>"

lemma demo_starts: "starts demo_hash demo_settings demo_system"
proof -
  have "fresh_partition demo_hash demo_partition"
    using demo_init(2,4) untouched_empty(5,6)[OF demo_init(3)] unfolding fresh_partition_def by (simp add: ext)
  then show ?thesis
    by (simp add: starts_def demo_system_def start_globals_def demo_tagged_def demo_fences_def demo_fields blank_slot_def)
qed

lemma hit_current:
  assumes "reachable hf s st" "pglc_cache_entries s < 2 ^ 32" "passes s st tr" "hashes hf pr mp key"
    and "mp_relation_slot_generation mp \<le> sy_published st (mp_relation_slot mp)"
    and "cache_lookup_locked pr s (watched tr) fs nows mp key cap create (sy_part st) (sy_globals (tr 40)) = (Inr lr, pt, gl)" "lr_hit lr"
  shows "found lr = sy_db (tr 16) (mapped pr mp key)" "\<not> lr_negative lr \<Longrightarrow> lr_value_len lr = length (lr_value lr)" "\<not> lr_malformed lr"
proof -
  define i where "i = mapped pr mp key"
  have c: "coherent hf s st" by (rule reachable_coherent[OF assms(1,2)])
  note P = passes_end[OF assms(3) c]
  obtain rest where rest: "counted rest (sy_part st) (sy_globals (tr 40))" using coherentD(3)[OF P(1)[of 40]] P(2)[of 40] by auto
  note ok = coherentD(2)[OF c]
  from lookup_spec[OF cache_okD(1)[OF ok] assms(4) rest assms(2) cache_okD(2)[OF ok] assms(6), folded i_def] assms(7)
  obtain e v where e: "cells (sy_part st) i = Some (e, v)" "serves s (watched tr) mp e" "lr_negative lr = ce_negative e"
    "\<not> ce_negative e \<longrightarrow> lr_value lr = v" "\<not> ce_negative e \<longrightarrow> lr_value_len lr = length v" "\<not> lr_malformed lr" by auto
  note S = served_current[OF assms(3) c assms(5) e(1) i_def e(2)]
  have "settled s (tr 16) i (ce_global_epoch e) (ce_relation_version e) (Some (row e v))"
    using goodD(3)[OF coherentD(5)[OF P(1)[of 16]]] e(1) S(2) P(2)[of 16] by simp
  then have "row e v = sy_db (tr 16) i" using S(1) by (simp add: settled_def)
  then show "found lr = sy_db (tr 16) (mapped pr mp key)" using e(3,4) by (cases "ce_negative e") (simp_all add: found_def row_def i_def)
  show "\<not> lr_negative lr \<Longrightarrow> lr_value_len lr = length (lr_value lr)" "\<not> lr_malformed lr" using e(3-6) by simp_all
qed

text \<open>C1: the cache never serves a stale row. In every state the system can reach, by any
  interleaving of readers, loaders, evictions, invalidations and writers that follow the
  publication protocol, a lookup that reports a hit returns the row (or the absence of a row)
  that the database held at a moment inside that lookup, although the lookup takes no lock that
  excludes writers and reads the fence counters one by one while they move.\<close>

theorem no_stale_hit:
  assumes "reachable hf s st" "pglc_cache_entries s < 2 ^ 32" "passes s st tr" "hashes hf pr mp key"
    and "mp_relation_slot_generation mp \<le> sy_published st (mp_relation_slot mp)"
    and "cache_lookup_locked pr s (watched tr) fs nows mp key cap create (sy_part st) (sy_globals (tr 40)) = (Inr lr, pt, gl)" "lr_hit lr"
  shows "found lr = sy_db (tr 16) (mapped pr mp key)"
  by (rule hit_current(1)[OF assms])

theorem no_stale_hit_witness:
  "\<exists>st lr pt gl. reachable demo_hash demo_settings st \<and>
     cache_lookup_locked demo_process demo_settings (watched (\<lambda>_. st)) demo_tagged (\<lambda>_. 0) demo_map ''k'' 64 False (sy_part st) (sy_globals st) =
       (Inr lr, pt, gl) \<and> lr_hit lr \<and> found lr = sy_db st (mapped demo_process demo_map ''k'')"
proof -
  have f: "sy_part demo_system = demo_partition" "sy_globals demo_system = start_globals" "sy_fences demo_system = demo_tagged"
    "mp_relation_slot_generation demo_map \<le> sy_published demo_system (mp_relation_slot demo_map)"
    by (simp_all add: demo_system_def demo_map_def demo_mapping_def demo_tagged_def)
  obtain st lr pt gl where st: "reachable demo_hash demo_settings st" "sy_fences st = sy_fences demo_system" "sy_published st = sy_published demo_system"
    "cache_lookup_locked demo_process demo_settings (\<lambda>_. sy_fences st) demo_tagged (\<lambda>_. 0) demo_map ''k'' 64 False (sy_part st) (sy_globals st) = (Inr lr, pt, gl)" "lr_hit lr" "sy_db st = sy_db demo_system"
    by (rule served_reachable[OF reachable.init[OF demo_starts], of demo_process demo_map "''k''" 0 "''v1''" 64 demo_tagged "\<lambda>_. 0"])
      (use demo_ready f in \<open>simp_all add: demo_system_def\<close>)
  have "hashes demo_hash demo_process demo_map ''k''" "pglc_cache_entries demo_settings < 2 ^ 32" using demo_ready(1) by (simp_all add: ready_def)
  then have "found lr = sy_db st (mapped demo_process demo_map ''k'')"
    using no_stale_hit[OF st(1) _ passes_still(1) _ _ st(4)[folded passes_still(2)] st(5)] f(4) st(3) by simp
  then show ?thesis using st(1,4,5) passes_still(2)[of st] by auto
qed

end
