(* ===== verification/Connection.thy ===== *)
theory Connection
  imports Resp Registry
begin

text \<open>
  One RESP connection of src/src/pg_local_cache_worker.c (lines 1792 to 2335), as built without
  OpenSSL: the input and output buffers, the pipeline loop and the flushing of responses.

  \<^item> \<open>cl_input\<close> and \<open>cl_output\<close> are the first \<open>used\<close> and \<open>output_used\<close> bytes of the buffers, so
    those two fields are list lengths here.
  \<^item> The results of \<open>recv\<close> and \<open>send\<close> are given from outside: any sequence of partial reads,
    interruptions and failures is possible.
  \<^item> What a command does is the business of the components behind it: \<open>sv_fast\<close> stands for
    \<open>try_fast_mget_hit\<close>, \<open>sv_execute\<close> for \<open>execute_command\<close>; both see the argument strings, the
    session of the client and the rest of the worker's state.
\<close>

section \<open>Clients\<close>

abbreviation (input) PGLC_RESPONSE_MAX :: nat where "PGLC_RESPONSE_MAX \<equiv> 66560"
abbreviation (input) PGLC_OUTPUT_BUFFER_MAX :: nat where "PGLC_OUTPUT_BUFFER_MAX \<equiv> 82944"

record session =
  se_authenticated :: bool
  se_authentication_failures :: nat
  se_deferred_miss :: "nat option"
  se_deferred_deadline :: int
  se_deferred_deadline_expired :: bool
  se_retrying_deferred_miss :: bool

record client =
  cl_connected :: bool
  cl_close_after_flush :: bool
  cl_input_ready :: bool
  cl_read_activity_pending :: bool
  cl_output_ready :: bool
  cl_output_backpressure_reported :: bool
  cl_input_eof :: bool
  cl_peer_hung_up :: bool
  cl_input_start :: nat
  cl_input :: "char list"
  cl_output :: "char list"
  cl_output_sent :: nat
  cl_last_activity :: int
  cl_session :: session

abbreviation cl_used :: "client \<Rightarrow> nat" where "cl_used c \<equiv> length (cl_input c)"
abbreviation cl_output_used :: "client \<Rightarrow> nat" where "cl_output_used c \<equiv> length (cl_output c)"

record 'w server =
  sv_max_pipeline_commands :: nat
  sv_worker_slot :: nat
  sv_maybe_reload_mappings :: "'w \<Rightarrow> 'w"
  sv_process_config_reload :: "'w \<Rightarrow> 'w"
  sv_fast :: "char list list \<Rightarrow> nat \<Rightarrow> session \<Rightarrow> 'w \<Rightarrow> (cache_error + char list option) \<times> 'w"
  sv_execute :: "char list list \<Rightarrow> nat \<Rightarrow> session \<Rightarrow> 'w \<Rightarrow> char list option \<times> bool \<times> session \<times> 'w"

type_synonym 'w scene = "client \<times> 'w \<times> stats"

datatype recv_result = Received "char list" | Recv_EINTR | Recv_EAGAIN | Recv_Error
datatype send_result = Sent nat | Send_EINTR | Send_EAGAIN | Send_Error

text \<open>
  \<open>client_recv\<close> hands over at most \<open>n\<close> bytes and leaves the rest in the socket; an empty read is
  the end of the stream, and so is a read into an empty buffer.
\<close>

definition client_recv :: "nat \<Rightarrow> recv_result list \<Rightarrow> recv_result \<times> recv_result list" where
  "client_recv n socket = (case socket of
      [] \<Rightarrow> (Recv_EAGAIN, [])
    | Received bs # rest \<Rightarrow> (Received (take n bs), if n < length bs then Received (drop n bs) # rest else rest)
    | r # rest \<Rightarrow> (r, rest))"

definition worker_shard_add :: "nat \<Rightarrow> counter \<Rightarrow> stats \<Rightarrow> stats" where
  "worker_shard_add slot c st =
     st\<lparr>stats_shards := (stats_shards st)(slot := (stats_shards st slot)(c := u64 (stats_shards st slot c + 1)))\<rparr>"

section \<open>Buffers\<close>

definition compact_client_input :: "client \<Rightarrow> client" where
  "compact_client_input c =
     (if cl_input_start c = 0 then c
      else if cl_input_start c < cl_used c then c\<lparr>cl_input := drop (cl_input_start c) (cl_input c), cl_input_start := 0\<rparr>
      else c\<lparr>cl_input := [], cl_input_start := 0\<rparr>)"

definition record_client_output_backpressure :: "client \<times> stats \<Rightarrow> client \<times> stats" where
  "record_client_output_backpressure = (\<lambda>(c, st).
     if cl_output_backpressure_reported c then (c, st)
     else (c\<lparr>cl_output_backpressure_reported := True\<rparr>, pg_atomic_fetch_add_u64 output_backpressure_events 1 st))"

text \<open>Without TLS a partial write ends the turn, so the loop body runs at most once.\<close>

definition flush_client_output :: "int \<Rightarrow> send_result \<Rightarrow> client \<times> stats \<Rightarrow> bool \<times> client \<times> stats" where
  "flush_client_output worker_turn_timestamp written = (\<lambda>(c, st).
     let c = c\<lparr>cl_output_ready := False\<rparr>;
         done = (\<lambda>(c, st). (True, if cl_output_sent c = cl_output_used c
           then c\<lparr>cl_output := [], cl_output_sent := 0, cl_output_backpressure_reported := False\<rparr> else c, st))
     in if \<not> cl_output_sent c < cl_output_used c then done (c, st)
        else case written of
            Sent n \<Rightarrow>
              if n = 0 then (False, c, st)
              else let c = c\<lparr>cl_output_sent := cl_output_sent c + n\<rparr>;
                       (c, st) = (if cl_output_sent c < cl_output_used c then record_client_output_backpressure (c, st) else (c, st))
                   in done (c\<lparr>cl_last_activity := worker_turn_timestamp\<rparr>, st)
          | Send_EINTR \<Rightarrow> (True, c, st)
          | Send_EAGAIN \<Rightarrow> (case record_client_output_backpressure (c, st) of (c, st) \<Rightarrow> (True, c, st))
          | Send_Error \<Rightarrow> (False, c, st))"

definition queue_response :: "client \<Rightarrow> char list \<Rightarrow> bool \<Rightarrow> bool \<times> client" where
  "queue_response c response close_after =
     (if cl_output_sent c \<noteq> 0 \<or> PGLC_OUTPUT_BUFFER_MAX - cl_output_used c < length response then (False, c)
      else (True, c\<lparr>cl_output := cl_output c @ response, cl_output_ready := True,
                    cl_close_after_flush := (cl_close_after_flush c \<or> close_after)\<rparr>))"

definition finish_client_turn :: "client \<Rightarrow> client" where
  "finish_client_turn c =
     (let c = (if cl_input_start c = cl_used c then c\<lparr>cl_input_start := 0, cl_input := []\<rparr> else c)
      in if cl_input_eof c \<and> se_deferred_miss (cl_session c) = None \<and> cl_input_start c = cl_used c
         then c\<lparr>cl_close_after_flush := True\<rparr> else c)"

section \<open>The pipeline\<close>

text \<open>
  How a piece of the turn ends: \<open>process_client\<close> returns, the loop goes on with so many
  commands left in the turn, or the worker raises an error.
\<close>

datatype 'w outcome = Return bool "'w scene" | Continue nat "'w scene" | Lost_Queue_Entry "'w scene" | Cache_Error "'w scene"

definition settle_retry :: "session \<Rightarrow> session" where
  "settle_retry se =
     (if se_retrying_deferred_miss se
      then se\<lparr>se_retrying_deferred_miss := False, se_deferred_deadline := 0, se_deferred_deadline_expired := False\<rparr> else se)"

text \<open>After a response is queued: the turn ends when its commands are used up.\<close>

definition next_command :: "nat \<Rightarrow> 'w scene \<Rightarrow> 'w outcome" where
  "next_command left = (\<lambda>(c, w, st). if left = 0
     then Return True (finish_client_turn (c\<lparr>cl_input_ready := cl_input_start c < cl_used c\<rparr>), w, st)
     else Continue left (c, w, st))"

text \<open>A complete request: answer it from the cache, or execute it and queue the response.\<close>

definition serve_request :: "'w server \<Rightarrow> nat \<Rightarrow> char list list \<Rightarrow> nat \<Rightarrow> 'w scene \<Rightarrow> 'w outcome" where
  "serve_request sv left argv consumed = (\<lambda>(c, w, st).
     let se = cl_session c;
         st = (if se_retrying_deferred_miss se then st else worker_shard_add (sv_worker_slot sv) client_requests st)
     in case sv_fast sv argv (cl_output_used c) se w of
          (Inl _, w) \<Rightarrow> Cache_Error (c, w, st)
        | (Inr (Some response), w) \<Rightarrow>
            next_command left (c\<lparr>cl_output := cl_output c @ response, cl_output_ready := True, cl_session := settle_retry se,
              cl_input_start := cl_input_start c + consumed\<rparr>, w, st)
        | (Inr None, w) \<Rightarrow>
          (case sv_execute sv argv consumed se w of
             (None, _, se, w) \<Rightarrow>
               if se_deferred_miss se \<noteq> None then Return True (finish_client_turn (c\<lparr>cl_session := se\<rparr>), w, st)
               else Lost_Queue_Entry (c\<lparr>cl_session := se\<rparr>, w, st)
           | (Some response, close_after, se, w) \<Rightarrow>
               let st = (if response \<noteq> [] \<and> hd response = CHR ''-'' then worker_shard_add (sv_worker_slot sv) client_request_errors st else st)
               in case queue_response (c\<lparr>cl_session := se\<rparr>) response close_after of
                    (False, c) \<Rightarrow> Return False (c, w, st)
                  | (True, c) \<Rightarrow>
                    let c = c\<lparr>cl_input_start := cl_input_start c + consumed, cl_session := settle_retry se\<rparr>
                    in if close_after then Return True (finish_client_turn (c\<lparr>cl_input_start := cl_used c\<rparr>), w, st)
                       else next_command left (c, w, st)))"

text \<open>
  The inner loop. The counter is what is left of \<open>max_pipeline_commands\<close>, which is at least one;
  the loop is left before the counter reaches zero.
\<close>

fun serve_commands :: "'w server \<Rightarrow> nat \<Rightarrow> 'w scene \<Rightarrow> 'w outcome" where
  "serve_commands sv 0 scene = Continue 0 scene"
| "serve_commands sv (Suc left) (c, w, st) =
     (if \<not> cl_input_start c < cl_used c then Continue (Suc left) (c, w, st)
      else if PGLC_OUTPUT_BUFFER_MAX - cl_output_used c < PGLC_RESPONSE_MAX
      then Return True (finish_client_turn (c\<lparr>cl_input_ready := True\<rparr>), w, st)
      else
        let w = sv_process_config_reload sv w; buffer = drop (cl_input_start c) (cl_input c)
        in case pglc_resp_parse buffer of
            Incomplete \<Rightarrow>
              (let c = compact_client_input c
               in if cl_input_eof c then Continue (Suc left) (c\<lparr>cl_input_start := cl_used c\<rparr>, w, st)
                  else if cl_used c = PGLC_REQUEST_MAX then Return True (finish_client_turn (c\<lparr>cl_close_after_flush := True\<rparr>), w, st)
                  else Continue (Suc left) (c, w, st))
          | Failed message \<Rightarrow>
              (let st = worker_shard_add (sv_worker_slot sv) client_request_errors (pg_atomic_fetch_add_u64 protocol_errors 1 st)
               in case queue_response c (pglc_resp_error message) True of
                    (False, c) \<Rightarrow> Return False (c, w, st)
                  | (True, c) \<Rightarrow> Return True (finish_client_turn (c\<lparr>cl_input_start := cl_used c\<rparr>), w, st))
          | Complete (args, consumed) \<Rightarrow>
              (case serve_request sv left (map (arg_bytes buffer) args) consumed (c, w, st) of
                 Continue n scene \<Rightarrow> serve_commands sv left scene
               | outcome \<Rightarrow> outcome))"

text \<open>The read of a turn; an interrupted call is repeated.\<close>

fun read_input :: "nat \<Rightarrow> recv_result list \<Rightarrow> recv_result \<times> recv_result list" where
  "read_input n (Recv_EINTR # socket) = read_input n socket"
| "read_input n socket = client_recv n socket"

text \<open>The one read of a turn, and the commands it completes.\<close>

definition read_commands :: "'w server \<Rightarrow> nat \<Rightarrow> recv_result list \<Rightarrow> 'w scene \<Rightarrow> 'w outcome \<times> recv_result list" where
  "read_commands sv left socket = (\<lambda>(c, w, st).
     let c = compact_client_input c in
     case read_input (PGLC_REQUEST_MAX - cl_used c) socket of
       (Received bs, socket) \<Rightarrow>
         let c = (if bs = [] then c\<lparr>cl_input_eof := True\<rparr>
                  else c\<lparr>cl_input := cl_input c @ bs, cl_read_activity_pending := True\<rparr>)
         in (case serve_commands sv left (c, w, st) of
               Continue _ (c, w, st) \<Rightarrow> Return True (finish_client_turn c, w, st)
             | outcome \<Rightarrow> outcome, socket)
     | (Recv_Error, socket) \<Rightarrow> (Return False (c, w, st), socket)
     | (_, socket) \<Rightarrow> (Return True (finish_client_turn c, w, st), socket))"

definition process_client :: "'w server \<Rightarrow> recv_result list \<Rightarrow> 'w scene \<Rightarrow> 'w outcome \<times> recv_result list" where
  "process_client sv socket = (\<lambda>(c, w, st).
     if cl_output_sent c < cl_output_used c then (Return True (c, w, st), socket)
     else let c = c\<lparr>cl_input_ready := False\<rparr> in
     if se_deferred_miss (cl_session c) \<noteq> None
     then if cl_used c < PGLC_REQUEST_MAX \<and> \<not> cl_input_eof c
       then (case client_recv (PGLC_REQUEST_MAX - cl_used c) socket of
               (Received bs, socket) \<Rightarrow>
                 if bs = [] then (Return True (finish_client_turn (c\<lparr>cl_input_eof := True\<rparr>), w, st), socket)
                 else (Return True (finish_client_turn (c\<lparr>cl_input := cl_input c @ bs, cl_read_activity_pending := True\<rparr>), w, st), socket)
             | (Recv_Error, socket) \<Rightarrow> (Return False (c, w, st), socket)
             | (_, socket) \<Rightarrow> (Return True (finish_client_turn c, w, st), socket))
       else (Return True (finish_client_turn c, w, st), socket)
     else case serve_commands sv (sv_max_pipeline_commands sv) (c, sv_maybe_reload_mappings sv w, st) of
         Continue left (c, w, st) \<Rightarrow>
           if cl_input_eof c then (Return True (finish_client_turn c, w, st), socket)
           else read_commands sv left socket (c, w, st)
       | outcome \<Rightarrow> (outcome, socket))"

section \<open>What a connection owes its client\<close>

text \<open>
  \<open>answers sv x bs y out rest\<close>: the requests at the front of the byte stream \<open>bs\<close> are executed
  one after the other, each to its response, which gives the bytes \<open>out\<close> and leaves \<open>rest\<close>. A
  request may be attempted and deferred any number of times before its response. A protocol
  error and a command that closes the connection are answered and end the stream.
\<close>

inductive answers :: "'w server \<Rightarrow> session \<times> 'w \<Rightarrow> char list \<Rightarrow> session \<times> 'w \<Rightarrow> char list \<Rightarrow> char list option \<Rightarrow> bool" for sv where
  answers_nil: "answers sv x bs x [] (Some bs)"
| answers_config: "answers sv (se, sv_process_config_reload sv w) bs y out rest \<Longrightarrow> answers sv (se, w) bs y out rest"
| answers_reload: "answers sv (se, sv_maybe_reload_mappings sv w) bs y out rest \<Longrightarrow> answers sv (se, w) bs y out rest"
| answers_fast: "pglc_resp_parse bs = Complete (args, n) \<Longrightarrow> sv_fast sv (map (arg_bytes bs) args) u se w = (Inr (Some r), w1) \<Longrightarrow>
    answers sv (settle_retry se, w1) (drop n bs) y out rest \<Longrightarrow> answers sv (se, w) bs y (r @ out) rest"
| answers_slow: "pglc_resp_parse bs = Complete (args, n) \<Longrightarrow> sv_fast sv (map (arg_bytes bs) args) u se w = (Inr None, w1) \<Longrightarrow>
    sv_execute sv (map (arg_bytes bs) args) n se w1 = (Some r, False, se2, w2) \<Longrightarrow>
    answers sv (settle_retry se2, w2) (drop n bs) y out rest \<Longrightarrow> answers sv (se, w) bs y (r @ out) rest"
| answers_defer: "pglc_resp_parse bs = Complete (args, n) \<Longrightarrow> sv_fast sv (map (arg_bytes bs) args) u se w = (Inr None, w1) \<Longrightarrow>
    sv_execute sv (map (arg_bytes bs) args) n se w1 = (None, b, se2, w2) \<Longrightarrow> se_deferred_miss se2 \<noteq> None \<Longrightarrow>
    answers sv (se2, w2) bs y out rest \<Longrightarrow> answers sv (se, w) bs y out rest"
| answers_close: "pglc_resp_parse bs = Complete (args, n) \<Longrightarrow> sv_fast sv (map (arg_bytes bs) args) u se w = (Inr None, w1) \<Longrightarrow>
    sv_execute sv (map (arg_bytes bs) args) n se w1 = (Some r, True, se2, w2) \<Longrightarrow> answers sv (se, w) bs (settle_retry se2, w2) r None"
| answers_malformed: "pglc_resp_parse bs = Failed m \<Longrightarrow> answers sv (se, w) bs (se, w) (pglc_resp_error m) None"

definition pending :: "client \<Rightarrow> char list" where
  "pending c = drop (cl_input_start c) (cl_input c)"

definition conn_ok :: "client \<Rightarrow> bool" where
  "conn_ok c \<longleftrightarrow> cl_input_start c \<le> cl_used c \<and> cl_used c \<le> PGLC_REQUEST_MAX \<and> cl_output_sent c \<le> cl_output_used c \<and>
     cl_output_used c \<le> PGLC_OUTPUT_BUFFER_MAX \<and> (cl_output_sent c = cl_output_used c \<longrightarrow> cl_output c = [])"

text \<open>
  What the worker relies on, in the states \<open>I\<close> that every operation keeps: responses fit the reserve, and a command without
  response is deferred.
\<close>

definition server_ok :: "'w server \<Rightarrow> ('w \<Rightarrow> bool) \<Rightarrow> bool" where
  "server_ok sv I \<longleftrightarrow> 0 < sv_max_pipeline_commands sv \<and>
     (\<forall>w. I w \<longrightarrow> I (sv_maybe_reload_mappings sv w) \<and> I (sv_process_config_reload sv w)) \<and>
     (\<forall>argv u se w x w'. I w \<longrightarrow> sv_fast sv argv u se w = (x, w') \<longrightarrow> I w' \<and> (\<forall>r. x = Inr (Some r) \<longrightarrow> length r \<le> PGLC_RESPONSE_MAX)) \<and>
     (\<forall>argv n se w x b se' w'. I w \<longrightarrow> sv_execute sv argv n se w = (x, b, se', w') \<longrightarrow>
        I w' \<and> (case x of Some r \<Rightarrow> length r \<le> PGLC_RESPONSE_MAX | None \<Rightarrow> se_deferred_miss se' \<noteq> None))"

text \<open>Input that is not answered stays, unless the stream ends here.\<close>

definition leftover :: "client \<Rightarrow> char list option \<Rightarrow> bool" where
  "leftover c rest \<longleftrightarrow> (case rest of
      Some bs \<Rightarrow> pending c = bs \<or> pending c = [] \<and> cl_input_eof c \<and> pglc_resp_parse bs = Incomplete
    | None \<Rightarrow> pending c = [] \<and> cl_close_after_flush c)"

text \<open>Nothing that can be answered is left, unless the next turn is already due.\<close>

definition quiescent :: "client \<Rightarrow> char list option \<Rightarrow> bool" where
  "quiescent c rest \<longleftrightarrow> se_deferred_miss (cl_session c) \<noteq> None \<or> cl_input_ready c \<or> cl_close_after_flush c \<or>
     (case rest of Some bs \<Rightarrow> pglc_resp_parse bs = Incomplete | None \<Rightarrow> False)"

definition turned :: "'w server \<Rightarrow> ('w \<Rightarrow> bool) \<Rightarrow> session \<times> 'w \<Rightarrow> char list \<Rightarrow> char list \<Rightarrow> client \<Rightarrow> 'w \<Rightarrow> bool" where
  "turned sv I x bs pre c' w' \<longleftrightarrow> conn_ok c' \<and> I w' \<and> cl_output_sent c' = 0 \<and>
     (\<exists>out rest. answers sv x bs (cl_session c', w') out rest \<and> cl_output c' = pre @ out \<and> leftover c' rest \<and> quiescent c' rest)"

definition outcome_ok :: "'w server \<Rightarrow> ('w \<Rightarrow> bool) \<Rightarrow> session \<times> 'w \<Rightarrow> char list \<Rightarrow> char list \<Rightarrow> 'w outcome \<Rightarrow> bool" where
  "outcome_ok sv I x bs pre o' \<longleftrightarrow> (case o' of
      Return b (c', w', st') \<Rightarrow> b \<and> turned sv I x bs pre c' w'
    | Continue n (c', w', st') \<Rightarrow> 0 < n \<and> conn_ok c' \<and> I w' \<and> cl_output_sent c' = 0 \<and>
        (cl_input_eof c' \<or> length (pending c') < PGLC_REQUEST_MAX) \<and>
        (\<exists>out rest. answers sv x bs (cl_session c', w') out (Some rest) \<and> cl_output c' = pre @ out \<and>
           leftover c' (Some rest) \<and> pglc_resp_parse rest = Incomplete)
    | Lost_Queue_Entry _ \<Rightarrow> False
    | Cache_Error s' \<Rightarrow> conn_ok (fst s'))"

lemma finish_turn:
  assumes "conn_ok c"
  shows "conn_ok (finish_client_turn c)" "pending (finish_client_turn c) = pending c" "cl_session (finish_client_turn c) = cl_session c"
    "cl_output (finish_client_turn c) = cl_output c" "cl_output_sent (finish_client_turn c) = cl_output_sent c"
    "cl_close_after_flush c \<Longrightarrow> cl_close_after_flush (finish_client_turn c)" "cl_input_eof (finish_client_turn c) = cl_input_eof c"
  using assms by (auto simp: finish_client_turn_def conn_ok_def pending_def Let_def)

lemma compact_input:
  assumes "conn_ok c"
  shows "conn_ok (compact_client_input c)" "pending (compact_client_input c) = pending c" "cl_session (compact_client_input c) = cl_session c"
    "cl_output (compact_client_input c) = cl_output c" "cl_output_sent (compact_client_input c) = cl_output_sent c"
    "cl_input_eof (compact_client_input c) = cl_input_eof c" "cl_close_after_flush (compact_client_input c) = cl_close_after_flush c"
    "cl_input_start (compact_client_input c) = 0" "cl_input (compact_client_input c) = pending c"
  using assms by (auto simp: compact_client_input_def conn_ok_def pending_def)

lemma finish_leftover: "conn_ok c \<Longrightarrow> leftover c rest \<Longrightarrow> leftover (finish_client_turn c) rest"
  by (cases rest) (simp_all add: leftover_def finish_turn)

lemma finish_quiescent: "quiescent c rest \<Longrightarrow> quiescent (finish_client_turn c) rest"
  by (auto simp: quiescent_def finish_client_turn_def Let_def)

lemma turnedI:
  assumes "conn_ok c'" "cl_output_sent c' = 0" "answers sv x bs (cl_session c', w') out rest" "cl_output c' = pre @ out"
    "leftover c' rest" "quiescent c' rest" "I w'"
  shows "turned sv I x bs pre (finish_client_turn c') w'"
  unfolding turned_def using assms finish_leftover[OF assms(1,5)] finish_quiescent[OF assms(6)] by (auto simp: finish_turn)

lemma request_append:
  assumes "pglc_resp_parse bs = Complete (args, n)"
  shows "pglc_resp_parse (bs @ fresh) = Complete (args, n)" "map (arg_bytes (bs @ fresh)) args = map (arg_bytes bs) args"
    "drop n (bs @ fresh) = drop n bs @ fresh"
proof -
  note sl = request_slices[OF assms]
  show "pglc_resp_parse (bs @ fresh) = Complete (args, n)" by (rule parse_stable[OF assms]) simp
  show "drop n (bs @ fresh) = drop n bs @ fresh" using sl(2) by simp
  show "map (arg_bytes (bs @ fresh)) args = map (arg_bytes bs) args"
    using sl(2,4) by (auto simp: arg_bytes_def list_all_iff)
qed

lemma answers_append:
  assumes "answers sv x bs y out (Some rest)" "answers sv y (rest @ fresh) z out' end'"
  shows "answers sv x (bs @ fresh) z (out @ out') end'"
  using assms
proof (induction x bs y out "Some rest" rule: answers.induct)
  case (answers_fast bs args n u se w r w1 y out)
  from answers.answers_fast[OF request_append(1)[OF answers_fast(1)], unfolded request_append[OF answers_fast(1)],
      OF answers_fast(2) answers_fast(4)[OF answers_fast(5)]]
  show ?case by simp
next
  case (answers_slow bs args n u se w w1 r se2 w2 y out)
  from answers.answers_slow[OF request_append(1)[OF answers_slow(1)], unfolded request_append[OF answers_slow(1)],
      OF answers_slow(2,3) answers_slow(5)[OF answers_slow(6)]]
  show ?case by simp
next
  case (answers_defer bs args n u se w w1 b se2 w2 y out)
  from answers.answers_defer[OF request_append(1)[OF answers_defer(1)], unfolded request_append[OF answers_defer(1)],
      OF answers_defer(2,3,4) answers_defer(6)[OF answers_defer(7)]]
  show ?case by simp
qed (auto intro: answers.intros)

lemma turned_after:
  assumes "answers sv x bs (se1, w1) out (Some rest)" "turned sv I (se1, w1) (rest @ fresh) (pre @ out) c' w'"
  shows "turned sv I x (bs @ fresh) pre c' w'"
  using assms answers_append[OF assms(1)] unfolding turned_def by fastforce

lemma outcome_after:
  assumes "answers sv x bs (se1, w1) out (Some rest)" "outcome_ok sv I (se1, w1) (rest @ fresh) (pre @ out) o'"
  shows "outcome_ok sv I x (bs @ fresh) pre o'"
proof (cases o')
  case (Return b s)
  then show ?thesis using assms turned_after[OF assms(1)] by (auto simp: outcome_ok_def split: prod.splits)
next
  case (Continue n s)
  obtain c' w' st' where s: "s = (c', w', st')" by (cases s)
  obtain out' rest' where "answers sv (se1, w1) (rest @ fresh) (cl_session c', w') out' (Some rest')" "cl_output c' = (pre @ out) @ out'"
    "leftover c' (Some rest')" "pglc_resp_parse rest' = Incomplete"
    using assms(2) Continue s by (auto simp: outcome_ok_def)
  then show ?thesis using answers_append[OF assms(1)] assms(2) Continue s by (fastforce simp: outcome_ok_def)
qed (use assms in \<open>auto simp: outcome_ok_def split: outcome.splits\<close>)

definition request_ok :: "'w server \<Rightarrow> ('w \<Rightarrow> bool) \<Rightarrow> nat \<Rightarrow> session \<times> 'w \<Rightarrow> char list \<Rightarrow> char list \<Rightarrow> 'w outcome \<Rightarrow> bool" where
  "request_ok sv I left x bs pre o' \<longleftrightarrow> (case o' of
      Return b (c', w', st') \<Rightarrow> b \<and> turned sv I x bs pre c' w'
    | Continue n (c', w', st') \<Rightarrow> 0 < left \<and> conn_ok c' \<and> I w' \<and> cl_output_sent c' = 0 \<and>
        (\<exists>out. answers sv x bs (cl_session c', w') out (Some (pending c')) \<and> cl_output c' = pre @ out)
    | Lost_Queue_Entry _ \<Rightarrow> False
    | Cache_Error s' \<Rightarrow> conn_ok (fst s'))"

lemma request_proceeds:
  assumes "answers sv x bs (cl_session c, w) out (Some (pending c))" "conn_ok c" "cl_output_sent c = 0" "cl_output c = pre @ out" "I w"
  shows "request_ok sv I left x bs pre (next_command left (c, w, st))"
proof (cases "left = 0")
  case True
  have "turned sv I x bs pre (finish_client_turn (c\<lparr>cl_input_ready := cl_input_start c < cl_used c\<rparr>)) w"
    using assms by (intro turnedI[where out = out and rest = "Some (pending c)"])
      (auto simp: conn_ok_def leftover_def pending_def quiescent_def pglc_resp_parse_def)
  then show ?thesis using True by (simp add: request_ok_def next_command_def)
next
  case False
  then show ?thesis using assms by (auto simp: request_ok_def next_command_def)
qed

lemma server_okD:
  assumes "server_ok sv I"
  shows "0 < sv_max_pipeline_commands sv"
    and "\<And>w. I w \<Longrightarrow> I (sv_maybe_reload_mappings sv w)"
    and "\<And>w. I w \<Longrightarrow> I (sv_process_config_reload sv w)"
    and "\<And>argv u se w x w'. sv_fast sv argv u se w = (x, w') \<Longrightarrow> I w \<Longrightarrow> I w'"
    and "\<And>argv u se w r w'. sv_fast sv argv u se w = (Inr (Some r), w') \<Longrightarrow> I w \<Longrightarrow> length r \<le> PGLC_RESPONSE_MAX"
    and "\<And>argv n se w x b se' w'. sv_execute sv argv n se w = (x, b, se', w') \<Longrightarrow> I w \<Longrightarrow> I w'"
    and "\<And>argv n se w r b se' w'. sv_execute sv argv n se w = (Some r, b, se', w') \<Longrightarrow> I w \<Longrightarrow> length r \<le> PGLC_RESPONSE_MAX"
    and "\<And>argv n se w b se' w'. sv_execute sv argv n se w = (None, b, se', w') \<Longrightarrow> I w \<Longrightarrow> se_deferred_miss se' \<noteq> None"
proof -
  note l = assms[unfolded server_ok_def, THEN conjunct2]
  note r = l[THEN conjunct1, THEN spec, THEN mp]
  note f = l[THEN conjunct2, THEN conjunct1, rule_format]
  note e = l[THEN conjunct2, THEN conjunct2, rule_format]
  show "0 < sv_max_pipeline_commands sv" by (rule assms[unfolded server_ok_def, THEN conjunct1])
  show "\<And>w. I w \<Longrightarrow> I (sv_maybe_reload_mappings sv w)" "\<And>w. I w \<Longrightarrow> I (sv_process_config_reload sv w)"
    by (rule r[THEN conjunct1], assumption) (rule r[THEN conjunct2])
  show "\<And>argv u se w x w'. sv_fast sv argv u se w = (x, w') \<Longrightarrow> I w \<Longrightarrow> I w'" by (rule f[THEN conjunct1])
  show "\<And>argv u se w r w'. sv_fast sv argv u se w = (Inr (Some r), w') \<Longrightarrow> I w \<Longrightarrow> length r \<le> PGLC_RESPONSE_MAX"
    by (rule f[THEN conjunct2, rule_format]) auto
  show "\<And>argv n se w x b se' w'. sv_execute sv argv n se w = (x, b, se', w') \<Longrightarrow> I w \<Longrightarrow> I w'" by (rule e[THEN conjunct1])
  show "\<And>argv n se w r b se' w'. sv_execute sv argv n se w = (Some r, b, se', w') \<Longrightarrow> I w \<Longrightarrow> length r \<le> PGLC_RESPONSE_MAX"
    by (drule (1) e[rotated]) simp
  show "\<And>argv n se w b se' w'. sv_execute sv argv n se w = (None, b, se', w') \<Longrightarrow> I w \<Longrightarrow> se_deferred_miss se' \<noteq> None"
    by (drule (1) e[rotated]) simp
qed

text \<open>A response of a command fits, because its room was reserved before the command ran.\<close>

lemma response_fits:
  assumes "conn_ok c" "cl_output_sent c = 0" "PGLC_RESPONSE_MAX \<le> PGLC_OUTPUT_BUFFER_MAX - cl_output_used c" "length r \<le> PGLC_RESPONSE_MAX"
  shows "conn_ok (c\<lparr>cl_output := cl_output c @ r\<rparr>)"
    "queue_response c r b = (True, c\<lparr>cl_output := cl_output c @ r, cl_output_ready := True, cl_close_after_flush := (cl_close_after_flush c \<or> b)\<rparr>)"
  using assms by (auto simp: conn_ok_def queue_response_def)

lemma serve_request_ok:
  assumes sv: "server_ok sv I" and w: "I w" and c: "conn_ok c" "cl_output_sent c = 0"
    and room: "PGLC_RESPONSE_MAX \<le> PGLC_OUTPUT_BUFFER_MAX - cl_output_used c"
    and parse: "pglc_resp_parse (pending c) = Complete (args, n)"
  shows "request_ok sv I left (cl_session c, w) (pending c) (cl_output c) (serve_request sv left (map (arg_bytes (pending c)) args) n (c, w, st))"
proof -
  let ?argv = "map (arg_bytes (pending c)) args" and ?se = "cl_session c"
  have n: "cl_input_start c + n \<le> length (cl_input c)" using request_slices(1,2)[OF parse] by (simp add: pending_def)
  have drop: "drop (cl_input_start c + n) (cl_input c) = drop n (pending c)" by (simp add: pending_def add.commute)
  obtain f w1 where fast: "sv_fast sv ?argv (cl_output_used c) ?se w = (f, w1)" by fastforce
  obtain e b se2 w2 where exec: "sv_execute sv ?argv n ?se w1 = (e, b, se2, w2)" by (metis prod_cases4)
  have i1: "I w1" by (rule server_okD(4)[OF sv fast w])
  have i2: "I w2" by (rule server_okD(6)[OF sv exec i1])
  consider r where "f = Inr (Some r)" | r where "f = Inr None" "e = Some r" "\<not> b" | r where "f = Inr None" "e = Some r" "b"
    | "f = Inr None" "e = None" | x where "f = Inl x"
    by (cases f; cases "projr f"; cases e) auto
  then show ?thesis
  proof cases
    case (1 r)
    note f = fast[unfolded 1] and r = server_okD(5)[OF sv fast[unfolded 1] w]
    have "\<exists>st'. serve_request sv left ?argv n (c, w, st) = next_command left (c\<lparr>cl_output := cl_output c @ r, cl_output_ready := True,
        cl_session := settle_retry ?se, cl_input_start := cl_input_start c + n\<rparr>, w1, st')"
      by (simp add: serve_request_def Let_def f) blast
    then obtain st' where eq: "serve_request sv left ?argv n (c, w, st) = next_command left (c\<lparr>cl_output := cl_output c @ r, cl_output_ready := True,
        cl_session := settle_retry ?se, cl_input_start := cl_input_start c + n\<rparr>, w1, st')" by blast
    show ?thesis unfolding eq
      by (rule request_proceeds[where out = r]) (use i1 answers_fast[OF parse f answers_nil] response_fits(1)[OF c room] n r c drop in
        \<open>auto simp: conn_ok_def pending_def[of "c\<lparr>cl_output := _, cl_output_ready := _, cl_session := _, cl_input_start := _\<rparr>"]\<close>)
  next
    case (2 r)
    note f = fast[unfolded 2] and e = exec[unfolded 2]
    note r = server_okD(7)[OF sv e i1]
    have "\<exists>st'. serve_request sv left ?argv n (c, w, st) = next_command left (c\<lparr>cl_output := cl_output c @ r,
        cl_output_ready := True, cl_input_start := cl_input_start c + n, cl_session := settle_retry se2\<rparr>, w2, st')"
      using c room r 2 by (simp add: serve_request_def Let_def f e queue_response_def) blast
    then obtain st' where eq: "serve_request sv left ?argv n (c, w, st) = next_command left (c\<lparr>cl_output := cl_output c @ r,
        cl_output_ready := True, cl_input_start := cl_input_start c + n, cl_session := settle_retry se2\<rparr>, w2, st')" by blast
    have "answers sv (?se, w) (pending c) (settle_retry se2, w2) r (Some (drop n (pending c)))"
      using answers_slow[OF parse f _ answers_nil] e 2 by fastforce
    then show ?thesis unfolding eq
      by (intro request_proceeds[where out = r]) (use i2 response_fits(1)[OF c room] n r c drop in
        \<open>auto simp: conn_ok_def pending_def[of "c\<lparr>cl_output := _, cl_output_ready := _, cl_input_start := _, cl_session := _\<rparr>"]\<close>)
  next
    case (3 r)
    note f = fast[unfolded 3] and e = exec[unfolded 3]
    note r = server_okD(7)[OF sv e i1]
    have "\<exists>st'. serve_request sv left ?argv n (c, w, st) = Return True (finish_client_turn (c\<lparr>cl_output := cl_output c @ r,
        cl_output_ready := True, cl_close_after_flush := True, cl_session := settle_retry se2, cl_input_start := cl_used c\<rparr>), w2, st')"
      using c room r 3 by (simp add: serve_request_def Let_def f e queue_response_def)
    moreover have "turned sv I (?se, w) (pending c) (cl_output c) (finish_client_turn (c\<lparr>cl_output := cl_output c @ r,
        cl_output_ready := True, cl_close_after_flush := True, cl_session := settle_retry se2, cl_input_start := cl_used c\<rparr>)) w2"
      by (rule turnedI[where out = r and rest = None])
        (use i2 answers_close[OF parse f] e 3 response_fits(1)[OF c room] r c in \<open>auto simp: conn_ok_def leftover_def pending_def quiescent_def\<close>)
    ultimately show ?thesis by (auto simp: request_ok_def)
  next
    case 4
    note f = fast[unfolded 4] and e = exec[unfolded 4]
    note d = server_okD(8)[OF sv e i1]
    have "\<exists>st'. serve_request sv left ?argv n (c, w, st) = Return True (finish_client_turn (c\<lparr>cl_session := se2\<rparr>), w2, st')"
      using d by (simp add: serve_request_def Let_def f e)
    moreover have "turned sv I (?se, w) (pending c) (cl_output c) (finish_client_turn (c\<lparr>cl_session := se2\<rparr>)) w2"
      by (rule turnedI[where out = "[]" and rest = "Some (pending c)"])
        (use i2 answers_defer[OF parse f e d answers_nil] d c in \<open>auto simp: conn_ok_def leftover_def pending_def quiescent_def\<close>)
    ultimately show ?thesis by (auto simp: request_ok_def)
  next
    case (5 x)
    then show ?thesis using fast c by (simp add: serve_request_def Let_def request_ok_def)
  qed
qed

text \<open>The messages of the parser are short.\<close>

lemma decimal_failed_short: "parse_decimal_line b p = Failed m \<Longrightarrow> length m \<le> 64"
proof -
  have loop: "decimal_line_loop b i v h = Inl m \<Longrightarrow> length m \<le> 64" for i v h
    by (induction b i v h rule: decimal_line_loop.induct) (subst (asm) (2) decimal_line_loop.simps, auto simp: Let_def split: if_splits)
  show "parse_decimal_line b p = Failed m \<Longrightarrow> length m \<le> 64"
    by (auto simp: parse_decimal_line_def Let_def dest: loop split: if_splits sum.splits prod.splits)
qed

lemma args_failed_short: "parse_args b n p args = Failed m \<Longrightarrow> length m \<le> 64"
  by (induction b n p args rule: parse_args.induct)
    (auto simp: Let_def dest: decimal_failed_short split: if_splits resp_status.splits prod.splits)

lemma protocol_error_fits:
  assumes "pglc_resp_parse b = Failed m"
  shows "length (pglc_resp_error m) \<le> PGLC_RESPONSE_MAX"
proof -
  have "length m \<le> 64"
    using assms by (auto simp: pglc_resp_parse_def dest: args_failed_short decimal_failed_short split: if_splits resp_status.splits prod.splits)
  then show ?thesis by (simp add: pglc_resp_error_def line_response_def)
qed

lemma incomplete_ok:
  assumes "conn_ok c" "cl_output_sent c = 0" "pglc_resp_parse (pending c) = Incomplete" "cl_input_start c < cl_used c"
    "answers sv x bs (cl_session c, w) [] (Some (pending c))" "I w"
  shows "outcome_ok sv I x bs (cl_output c)
     (let c = compact_client_input c
      in if cl_input_eof c then Continue (Suc left) (c\<lparr>cl_input_start := cl_used c\<rparr>, w, st)
         else if cl_used c = PGLC_REQUEST_MAX then Return True (finish_client_turn (c\<lparr>cl_close_after_flush := True\<rparr>), w, st)
         else Continue (Suc left) (c, w, st))"
proof -
  let ?c = "compact_client_input c"
  note k = compact_input[OF assms(1)]
  consider "cl_input_eof ?c" | "\<not> cl_input_eof ?c" "cl_used ?c = PGLC_REQUEST_MAX" | "\<not> cl_input_eof ?c" "cl_used ?c \<noteq> PGLC_REQUEST_MAX" by blast
  then show ?thesis
  proof cases
    case 1
    then show ?thesis using k assms by (auto simp: outcome_ok_def leftover_def conn_ok_def pending_def[of "_\<lparr>cl_input_start := _\<rparr>"])
  next
    case 2
    have "turned sv I x bs (cl_output c) (finish_client_turn (?c\<lparr>cl_close_after_flush := True\<rparr>)) w"
      by (rule turnedI[where out = "[]" and rest = "Some (pending c)"])
        (use k assms in \<open>auto simp: leftover_def conn_ok_def quiescent_def pending_def[of "_\<lparr>cl_close_after_flush := _\<rparr>"]\<close>)
    then show ?thesis using 2 by (simp add: outcome_ok_def Let_def)
  next
    case 3
    then show ?thesis using k assms by (auto simp: outcome_ok_def leftover_def conn_ok_def)
  qed
qed

lemma serve_commands_ok:
  assumes "server_ok sv I" "conn_ok c" "cl_output_sent c = 0" "0 < left" "I w"
  shows "outcome_ok sv I (cl_session c, w) (pending c) (cl_output c) (serve_commands sv left (c, w, st))"
  using assms(2-)
proof (induction left arbitrary: c w st)
  case (Suc left)
  let ?w = "sv_process_config_reload sv w"
  have cfg: "answers sv (cl_session c, w) (pending c) y out rest" if "answers sv (cl_session c, ?w) (pending c) y out rest" for y out rest
    by (rule answers_config[OF that])
  note ok = Suc.prems(1,2)
  note iw = Suc.prems(4) server_okD(3)[OF assms(1) Suc.prems(4)]
  consider "\<not> cl_input_start c < cl_used c" | "cl_input_start c < cl_used c" "PGLC_OUTPUT_BUFFER_MAX - cl_output_used c < PGLC_RESPONSE_MAX"
    | "cl_input_start c < cl_used c" "PGLC_RESPONSE_MAX \<le> PGLC_OUTPUT_BUFFER_MAX - cl_output_used c" by linarith
  then show ?case
  proof cases
    case 1
    then show ?thesis using ok iw answers_nil[of sv "(cl_session c, w)" "[]"]
      by (auto simp: outcome_ok_def leftover_def conn_ok_def pending_def pglc_resp_parse_def)
  next
    case 2
    have "turned sv I (cl_session c, w) (pending c) (cl_output c) (finish_client_turn (c\<lparr>cl_input_ready := True\<rparr>)) w"
      by (rule turnedI[where out = "[]" and rest = "Some (pending c)"])
        (use ok iw in \<open>auto simp: leftover_def conn_ok_def quiescent_def pending_def intro: answers_nil\<close>)
    then show ?thesis using 2 by (simp add: outcome_ok_def)
  next
    case 3
    show ?thesis
    proof (cases "pglc_resp_parse (pending c)")
      case Incomplete
      then show ?thesis using 3 incomplete_ok[where I = I, OF ok Incomplete 3(1) cfg[OF answers_nil] iw(2)] by (simp add: pending_def Let_def)
    next
      case (Failed m)
      note q = response_fits[OF ok 3(2) protocol_error_fits[OF Failed]]
      have "turned sv I (cl_session c, w) (pending c) (cl_output c) (finish_client_turn (c\<lparr>cl_output := cl_output c @ pglc_resp_error m,
          cl_output_ready := True, cl_close_after_flush := True, cl_input_start := cl_used c\<rparr>)) ?w"
        by (rule turnedI[where out = "pglc_resp_error m" and rest = None])
          (use q(1) ok iw cfg[OF answers_malformed[OF Failed]] in \<open>auto simp: conn_ok_def leftover_def quiescent_def pending_def[of "_\<lparr>cl_output := _, cl_output_ready := _, cl_close_after_flush := _, cl_input_start := _\<rparr>"]\<close>)
      then show ?thesis using 3 Failed q(2)[of True] by (simp add: Let_def pending_def outcome_ok_def)
    next
      case (Complete p)
      obtain args n where p: "p = (args, n)" by (cases p)
      let ?r = "serve_request sv left (map (arg_bytes (pending c)) args) n (c, ?w, st)"
      have eq: "serve_commands sv (Suc left) (c, w, st) = (case ?r of Continue n scene \<Rightarrow> serve_commands sv left scene | outcome \<Rightarrow> outcome)"
        using 3 Complete p by (simp add: Let_def pending_def)
      have r: "request_ok sv I left (cl_session c, ?w) (pending c) (cl_output c) ?r"
        using serve_request_ok[OF assms(1) iw(2) ok 3(2)] Complete p by blast
      show ?thesis
      proof (cases ?r)
        case (Continue m s)
        obtain c1 w1 st1 where s: "s = (c1, w1, st1)" by (cases s)
        obtain out where c1: "0 < left" "conn_ok c1" "cl_output_sent c1 = 0" "cl_output c1 = cl_output c @ out" "I w1"
          and a: "answers sv (cl_session c, ?w) (pending c) (cl_session c1, w1) out (Some (pending c1))"
          using r unfolding Continue s by (auto simp: request_ok_def)
        have "outcome_ok sv I (cl_session c1, w1) (pending c1 @ []) (cl_output c @ out) (serve_commands sv left (c1, w1, st1))"
          using Suc.IH[OF c1(2,3,1,5)] c1(4) by simp
        from outcome_after[OF cfg[OF a] this] show ?thesis unfolding eq Continue s by simp
      next
        case (Return b s)
        then show ?thesis using r turned_after[OF cfg[OF answers_nil], where fresh = "[]" and pre = "cl_output c" and I = I] unfolding eq Return
          by (cases s) (auto simp: request_ok_def outcome_ok_def)
      next
        case (Cache_Error s)
        then show ?thesis using r unfolding eq Cache_Error by (simp add: request_ok_def outcome_ok_def)
      qed (use r in \<open>simp add: request_ok_def\<close>)
    qed
  qed
qed simp

section \<open>A turn\<close>

fun socket_bytes :: "recv_result list \<Rightarrow> char list" where
  "socket_bytes [] = []"
| "socket_bytes (Received bs # socket) = bs @ socket_bytes socket"
| "socket_bytes (_ # socket) = socket_bytes socket"

definition read_ok :: "nat \<Rightarrow> recv_result list \<Rightarrow> recv_result \<times> recv_result list \<Rightarrow> bool" where
  "read_ok n socket = (\<lambda>(r, socket'). set socket' \<subseteq> set socket \<union> range Received \<and> (case r of
      Received bs \<Rightarrow> length bs \<le> n \<and> socket_bytes socket = bs @ socket_bytes socket' \<and> (bs = [] \<longrightarrow> Received [] \<in> set socket)
    | Recv_Error \<Rightarrow> Recv_Error \<in> set socket
    | _ \<Rightarrow> socket_bytes socket' = socket_bytes socket))"

lemma client_recv_ok: "0 < n \<Longrightarrow> read_ok n socket (client_recv n socket)"
  by (auto simp: client_recv_def read_ok_def split: list.splits recv_result.splits)

lemma read_input_ok: "0 < n \<Longrightarrow> read_ok n socket (read_input n socket)"
  by (induction n socket rule: read_input.induct) (auto simp: read_ok_def client_recv_def split: recv_result.splits)

lemma read_input_no_eintr: "fst (read_input n socket) \<noteq> Recv_EINTR"
  by (induction n socket rule: read_input.induct) (auto simp: client_recv_def)

text \<open>Only a read that meets the end of the stream reports it.\<close>

fun outcome_client :: "'w outcome \<Rightarrow> client" where
  "outcome_client (Return b s) = fst s"
| "outcome_client (Continue n s) = fst s"
| "outcome_client (Lost_Queue_Entry s) = fst s"
| "outcome_client (Cache_Error s) = fst s"

lemma finish_eof: "cl_input_eof (finish_client_turn c) = cl_input_eof c"
  by (simp add: finish_client_turn_def Let_def)

lemma queue_eof: "queue_response c r b = (q, c') \<Longrightarrow> cl_input_eof c' = cl_input_eof c"
  by (auto simp: queue_response_def split: if_splits)

lemma next_command_eof: "cl_input_eof (outcome_client (next_command left (c, w, st))) = cl_input_eof c"
  by (simp add: next_command_def finish_eof)

lemma serve_request_eof: "cl_input_eof (outcome_client (serve_request sv left argv n (c, w, st))) = cl_input_eof c"
proof -
  obtain f w1 where fast: "sv_fast sv argv (cl_output_used c) (cl_session c) w = (f, w1)" by fastforce
  obtain e b se2 w2 where exec: "sv_execute sv argv n (cl_session c) w1 = (e, b, se2, w2)" by (metis prod_cases4)
  show ?thesis
  proof (cases "f = Inr None")
    case True
    show ?thesis
    proof (cases e)
      case (Some r)
      obtain q c' where q: "queue_response (c\<lparr>cl_session := se2\<rparr>) r b = (q, c')" by fastforce
      then have "cl_input_eof c' = cl_input_eof c" using queue_eof[OF q] by simp
      then show ?thesis using fast exec q True Some by (cases q) (simp_all add: serve_request_def Let_def finish_eof next_command_eof)
    qed (use fast exec True in \<open>simp add: serve_request_def Let_def finish_eof\<close>)
  next
    case False
    then show ?thesis using fast by (auto simp: serve_request_def Let_def next_command_eof split: sum.splits option.splits)
  qed
qed

lemma serve_commands_eof: "cl_input_eof (outcome_client (serve_commands sv left (c, w, st))) = cl_input_eof c"
proof (induction left arbitrary: c w st)
  case (Suc left)
  show ?case
  proof (cases "pglc_resp_parse (drop (cl_input_start c) (cl_input c))")
    case Incomplete
    then show ?thesis by (simp add: Let_def finish_eof compact_client_input_def)
  next
    case (Failed m)
    obtain q c' where "queue_response c (pglc_resp_error m) True = (q, c')" by fastforce
    then show ?thesis using Failed queue_eof[of c _ _ q c'] by (cases q) (simp_all add: Let_def finish_eof)
  next
    case (Complete p)
    obtain args n where p: "p = (args, n)" by (cases p)
    let ?w = "sv_process_config_reload sv w"
    let ?r = "serve_request sv left (map (arg_bytes (drop (cl_input_start c) (cl_input c))) args) n (c, ?w, st)"
    have r: "cl_input_eof (outcome_client ?r) = cl_input_eof c" by (rule serve_request_eof)
    show ?thesis
    proof (cases ?r)
      case (Continue m s)
      then show ?thesis using r Complete p by (cases s) (simp add: Let_def Suc.IH finish_eof)
    qed (use r Complete p in \<open>simp_all add: Let_def finish_eof\<close>)
  qed
qed simp

definition turn_ok :: "'w server \<Rightarrow> ('w \<Rightarrow> bool) \<Rightarrow> client \<Rightarrow> 'w \<Rightarrow> recv_result list \<Rightarrow> 'w outcome \<times> recv_result list \<Rightarrow> bool" where
  "turn_ok sv I c w socket = (\<lambda>(o', socket'). (\<exists>s'. o' = Cache_Error s' \<and> conn_ok (fst s')) \<or> (\<exists>c' w' st' r. o' = Return True (c', w', st') \<and> socket_bytes socket = r @ socket_bytes socket' \<and>
     turned sv I (cl_session c, w) (pending c @ r) [] c' w' \<and> (cl_input_eof c' \<longrightarrow> cl_input_eof c \<or> Received [] \<in> set socket)))"

lemma deferred_turn:
  assumes "conn_ok c" "cl_output c = []" "se_deferred_miss (cl_session c) \<noteq> None" "Recv_Error \<notin> set socket" "I w"
  shows "turn_ok sv I c w socket (process_client sv socket (c, w, st))"
proof -
  let ?c = "c\<lparr>cl_input_ready := False\<rparr>"
  have stay: "turned sv I (cl_session c, w) (pending c @ r) [] (finish_client_turn c') w"
    if "conn_ok c'" "cl_output_sent c' = 0" "cl_session c' = cl_session c" "cl_output c' = []" "pending c' = pending c @ r" for c' r
    by (rule turnedI[where out = "[]" and rest = "Some (pending c @ r)"]) (use that assms in \<open>auto simp: leftover_def quiescent_def intro: answers_nil\<close>)
  have none: "turn_ok sv I c w socket (Return True (finish_client_turn ?c, w, st), socket')" if "socket_bytes socket' = socket_bytes socket" for socket'
    unfolding turn_ok_def using stay[of ?c "[]"] assms that by (auto simp: conn_ok_def pending_def finish_eof)
  show ?thesis
  proof (cases "cl_used c < PGLC_REQUEST_MAX \<and> \<not> cl_input_eof c")
    case True
    note room = True
    obtain r socket' where recv: "client_recv (PGLC_REQUEST_MAX - cl_used c) socket = (r, socket')" by fastforce
    have ok: "read_ok (PGLC_REQUEST_MAX - cl_used c) socket (r, socket')" unfolding recv[symmetric] by (rule client_recv_ok) (use True in simp)
    show ?thesis
    proof (cases r)
      case (Received bs)
      have b: "length bs \<le> PGLC_REQUEST_MAX - cl_used c" "socket_bytes socket = bs @ socket_bytes socket'" "bs = [] \<longrightarrow> Received [] \<in> set socket"
        using ok Received by (auto simp: read_ok_def)
      show ?thesis
      proof (cases "bs = []")
        case True
        then show ?thesis using stay[of "?c\<lparr>cl_input_eof := True\<rparr>" "[]"] assms b recv Received room
          by (auto simp: conn_ok_def turn_ok_def pending_def finish_eof process_client_def)
      next
        case False
        then show ?thesis using stay[of "?c\<lparr>cl_input := cl_input c @ bs, cl_read_activity_pending := True\<rparr>" bs] assms b recv Received room
          by (auto simp: conn_ok_def turn_ok_def pending_def finish_eof process_client_def)
      qed
    next
      case Recv_Error
      then show ?thesis using ok assms by (auto simp: read_ok_def)
    qed (use none assms recv ok True in \<open>auto simp: process_client_def read_ok_def conn_ok_def\<close>)
  next
    case False
    then show ?thesis using none[of socket] assms by (auto simp: process_client_def conn_ok_def)
  qed
qed

text \<open>The read of a turn and what it serves.\<close>

lemma read_turn:
  assumes sv: "server_ok sv I" and s: "outcome_ok sv I x bs [] (Continue left (c, w, st))" and eof: "\<not> cl_input_eof c"
    and sock: "Recv_Error \<notin> set socket"
  shows "(\<exists>s' socket'. read_commands sv left socket (c, w, st) = (Cache_Error s', socket') \<and> conn_ok (fst s')) \<or>
    (\<exists>c' w' st' got socket'. read_commands sv left socket (c, w, st) = (Return True (c', w', st'), socket') \<and>
      socket_bytes socket = got @ socket_bytes socket' \<and> turned sv I x (bs @ got) [] c' w' \<and> (cl_input_eof c' \<longrightarrow> Received [] \<in> set socket))"
proof -
  let ?c = "compact_client_input c"
  obtain out rest where c: "0 < left" "conn_ok c" "cl_output_sent c = 0" "length (pending c) < PGLC_REQUEST_MAX" "I w"
    and a: "answers sv x bs (cl_session c, w) out (Some (pending c))" "cl_output c = out" "pglc_resp_parse (pending c) = Incomplete"
    using s eof by (auto simp: outcome_ok_def leftover_def)
  note k = compact_input[OF c(2)]
  obtain r socket' where r: "read_input (PGLC_REQUEST_MAX - length (pending c)) socket = (r, socket')" by fastforce
  have ok: "read_ok (PGLC_REQUEST_MAX - length (pending c)) socket (r, socket')"
    unfolding r[symmetric] by (rule read_input_ok) (use c in simp)
  show ?thesis
  proof (cases r)
    case (Received got)
    have b: "length got \<le> PGLC_REQUEST_MAX - length (pending c)" "socket_bytes socket = got @ socket_bytes socket'" "got = [] \<longrightarrow> Received [] \<in> set socket"
      using ok Received by (auto simp: read_ok_def)
    define d where "d = (if got = [] then ?c\<lparr>cl_input_eof := True\<rparr> else ?c\<lparr>cl_input := cl_input ?c @ got, cl_read_activity_pending := True\<rparr>)"
    have d: "conn_ok d" "cl_output_sent d = 0" "pending d = pending c @ got" "cl_session d = cl_session c" "cl_output d = out" "cl_input_eof d \<longleftrightarrow> got = []"
      using k c a(2) b(1) eof by (auto simp: d_def conn_ok_def pending_def[of "_\<lparr>cl_input_eof := _\<rparr>"] pending_def[of "_\<lparr>cl_input := _, cl_read_activity_pending := _\<rparr>"])
    let ?s = "serve_commands sv left (d, w, st)"
    have "outcome_ok sv I (cl_session c, w) (pending c @ got) ([] @ out) ?s"
      using serve_commands_ok[OF sv d(1,2) c(1,5), of st] d by simp
    from outcome_after[OF a(1) this] have o': "outcome_ok sv I x (bs @ got) [] ?s" .
    have e: "cl_input_eof (outcome_client ?s) \<longleftrightarrow> got = []" using serve_commands_eof[of sv left d w st] d by simp
    show ?thesis
    proof (cases ?s)
      case (Return q y)
      then show ?thesis using o' e b Received r k(9) by (cases y) (auto simp: outcome_ok_def d_def[symmetric] Let_def read_commands_def)
    next
      case (Continue m y)
      obtain c1 w1 st1 where y: "y = (c1, w1, st1)" by (cases y)
      have "turned sv I x (bs @ got) [] (finish_client_turn c1) w1" using o' Continue y
        by (auto simp: outcome_ok_def quiescent_def intro!: turnedI)
      then show ?thesis using Continue y e b Received r k(9) by (auto simp: d_def[symmetric] Let_def finish_eof read_commands_def)
    next
      case (Cache_Error y)
      then show ?thesis using o' Received r k(9) by (auto simp: outcome_ok_def d_def[symmetric] Let_def read_commands_def)
    qed (use o' in \<open>simp add: outcome_ok_def\<close>)
  next
    case Recv_EAGAIN
    have "turned sv I x bs [] (finish_client_turn ?c) w"
      by (rule turnedI[where rest = "Some (pending c)"]) (use k a c in \<open>auto simp: leftover_def quiescent_def\<close>)
    then show ?thesis using Recv_EAGAIN ok k eof r by (auto simp: read_ok_def finish_eof read_commands_def Let_def)
  qed (use ok sock r read_input_no_eintr[of "PGLC_REQUEST_MAX - length (pending c)" socket] in \<open>auto simp: read_ok_def\<close>)
qed

lemma serving_turn:
  assumes sv: "server_ok sv I" and c: "conn_ok c" "cl_output c = []" "se_deferred_miss (cl_session c) = None" "Recv_Error \<notin> set socket" "I w"
  shows "turn_ok sv I c w socket (process_client sv socket (c, w, st))"
proof -
  let ?c = "c\<lparr>cl_input_ready := False\<rparr>" and ?w = "sv_maybe_reload_mappings sv w" and ?k = "sv_max_pipeline_commands sv"
  let ?s = "serve_commands sv ?k (?c, ?w, st)"
  have c0: "conn_ok ?c" "cl_output_sent ?c = 0" "pending ?c = pending c" using c by (auto simp: conn_ok_def pending_def)
  have "outcome_ok sv I (cl_session c, ?w) (pending c) [] ?s"
    using serve_commands_ok[OF sv c0(1,2) server_okD(1)[OF sv] server_okD(2)[OF sv c(5)], of st] c(2) c0(3) by simp
  from outcome_after[OF answers_reload[OF answers_nil], where fresh = "[]" and pre = "[]"] this
  have s: "outcome_ok sv I (cl_session c, w) (pending c) [] ?s" by simp
  have eof: "cl_input_eof (outcome_client ?s) = cl_input_eof c" by (simp add: serve_commands_eof)
  have start: "\<not> cl_output_sent c < cl_output_used c" using c by simp
  show ?thesis
  proof (cases ?s)
    case (Return b x)
    then show ?thesis using s eof start c by (cases x) (auto simp: process_client_def turn_ok_def outcome_ok_def)
  next
    case (Continue left x)
    obtain c1 w1 st1 where x: "x = (c1, w1, st1)" by (cases x)
    note s = s[unfolded Continue x]
    show ?thesis
    proof (cases "cl_input_eof c1")
      case True
      have "turned sv I (cl_session c, w) (pending c @ []) [] (finish_client_turn c1) w1" using s
        by (auto simp: outcome_ok_def quiescent_def intro!: turnedI)
      then show ?thesis using True Continue x eof start c by (auto simp: process_client_def turn_ok_def)
    next
      case False
      then show ?thesis using read_turn[OF sv s False c(4)] Continue x start c by (auto simp: process_client_def turn_ok_def)
    qed
  next
    case (Cache_Error x)
    then show ?thesis using s start c by (cases x) (auto simp: process_client_def turn_ok_def outcome_ok_def)
  qed (use s in \<open>simp add: outcome_ok_def\<close>)
qed

lemma turn_holds:
  assumes "server_ok sv I" "conn_ok c" "cl_output c = []" "Recv_Error \<notin> set socket" "I w"
  shows "turn_ok sv I c w socket (process_client sv socket (c, w, st))"
  using deferred_turn[where I = I, OF assms(2,3) _ assms(4,5)] serving_turn[OF assms(1-3) _ assms(4,5)] by (cases "se_deferred_miss (cl_session c) = None") auto

definition unsent :: "client \<Rightarrow> char list" where
  "unsent c = drop (cl_output_sent c) (cl_output c)"

text \<open>A send accepts at most what it is offered.\<close>

fun accepts :: "client \<Rightarrow> send_result \<Rightarrow> bool" where
  "accepts c (Sent n) = (n \<le> length (unsent c))"
| "accepts c _ = True"

fun accepted :: "send_result \<Rightarrow> nat" where
  "accepted (Sent n) = n"
| "accepted _ = 0"

lemma drop_split: "drop s xs = take n (drop s xs) @ drop (s + n) xs"
  by (metis add.commute append_take_drop_id drop_drop)

lemma flush_keeps:
  assumes "conn_ok c" "accepts c written" "flush_client_output t written (c, st) = (ok, c', st')"
  shows "conn_ok c'" "unsent c = take (accepted written) (unsent c) @ unsent c'"
proof -
  show "conn_ok c'"
    using assms by (auto simp: flush_client_output_def record_client_output_backpressure_def conn_ok_def unsent_def Let_def
        split: send_result.splits if_splits prod.splits)
  show "unsent c = take (accepted written) (unsent c) @ unsent c'"
    using assms drop_split[of "cl_output_sent c" "cl_output c" "accepted written"]
    by (auto simp: flush_client_output_def record_client_output_backpressure_def unsent_def Let_def
        split: send_result.splits if_splits prod.splits)
qed

section \<open>Properties of a connection\<close>

text \<open>C6: A turn of a connection answers the requests of its client in the order of the byte stream. With its output
  flushed, \<open>process_client\<close> returns true, unless the cache raises an error, which ends the worker; the bytes it appends to the output are the responses, one after the other,
  to the requests at the front of the pending input followed by the bytes read in this turn, each request executed to its
  response exactly once; unanswered input stays in the buffer; and no complete request is left behind unless the next turn
  is due, the request waits in the miss queue, or the connection is closing. The states \<open>I\<close> that the command handlers keep
  are kept.\<close>

theorem turn_answers_in_order:
  assumes "server_ok sv I" "conn_ok c" "cl_output c = []" "Recv_Error \<notin> set socket" "I w"
  shows "(\<exists>s'. fst (process_client sv socket (c, w, st)) = Cache_Error s') \<or>
     (\<exists>c' w' st' r socket' rest. process_client sv socket (c, w, st) = (Return True (c', w', st'), socket') \<and>
       socket_bytes socket = r @ socket_bytes socket' \<and>
       answers sv (cl_session c, w) (pending c @ r) (cl_session c', w') (cl_output c') rest \<and> leftover c' rest \<and> quiescent c' rest \<and> I w')"
  using turn_holds[OF assms, of st] by (fastforce simp: turn_ok_def turned_def)

definition echo_server :: "nat server" where
  "echo_server = \<lparr>sv_max_pipeline_commands = 2, sv_worker_slot = 0, sv_maybe_reload_mappings = (\<lambda>w. w), sv_process_config_reload = (\<lambda>w. w),
     sv_fast = (\<lambda>argv u se w. (Inr None, w)), sv_execute = (\<lambda>argv n se w. (Some (take 5 (concat argv)), False, se, w + 1))\<rparr>"

definition new_session :: session where
  "new_session = \<lparr>se_authenticated = True, se_authentication_failures = 0, se_deferred_miss = None, se_deferred_deadline = 0,
     se_deferred_deadline_expired = False, se_retrying_deferred_miss = False\<rparr>"

definition new_client :: "char list \<Rightarrow> client" where
  "new_client bs = \<lparr>cl_connected = True, cl_close_after_flush = False, cl_input_ready = False, cl_read_activity_pending = False,
     cl_output_ready = False, cl_output_backpressure_reported = False, cl_input_eof = False, cl_peer_hung_up = False,
     cl_input_start = 0, cl_input = bs, cl_output = [], cl_output_sent = 0, cl_last_activity = 0, cl_session = new_session\<rparr>"

lemma echo_server_ok: "server_ok echo_server (\<lambda>_. True)"
  by (auto simp: server_ok_def echo_server_def)

text \<open>A turn fails with the cache only where the fast path does.\<close>

lemma serve_request_cache_error:
  assumes "serve_request sv left argv n (c, w, st) = Cache_Error s"
  shows "isl (fst (sv_fast sv argv (cl_output_used c) (cl_session c) w))"
proof -
  obtain f w1 where fast: "sv_fast sv argv (cl_output_used c) (cl_session c) w = (f, w1)" by fastforce
  obtain e b se2 w2 where exec: "sv_execute sv argv n (cl_session c) w1 = (e, b, se2, w2)" by (metis prod_cases4)
  show ?thesis
  proof (cases f)
    case (Inr o')
    then show ?thesis using assms fast exec
      by (cases o'; cases e) (auto simp: serve_request_def Let_def next_command_def split: if_splits prod.splits bool.splits)
  qed (use fast in simp)
qed

lemma serve_commands_cache_error:
  assumes "\<And>argv u se w. \<not> isl (fst (sv_fast sv argv u se w))"
  shows "serve_commands sv left (c, w, st) \<noteq> Cache_Error s"
proof (induction left arbitrary: c w st)
  case (Suc left)
  show ?case
  proof (cases "pglc_resp_parse (drop (cl_input_start c) (cl_input c))")
    case (Complete p)
    obtain args n where p: "p = (args, n)" by (cases p)
    show ?thesis
    proof (cases "serve_request sv left (map (arg_bytes (drop (cl_input_start c) (cl_input c))) args) n (c, sv_process_config_reload sv w, st)")
      case (Continue m x)
      then show ?thesis using Complete p Suc.IH by (cases x) (simp add: Let_def)
    next
      case (Cache_Error x)
      then show ?thesis using serve_request_cache_error[OF Cache_Error] assms by simp
    qed (use Complete p in \<open>simp_all add: Let_def\<close>)
  qed (auto simp: Let_def split: prod.splits bool.splits)
qed simp

lemma process_client_cache_error:
  assumes "\<And>argv u se w. \<not> isl (fst (sv_fast sv argv u se w))"
  shows "fst (process_client sv socket (c, w, st)) \<noteq> Cache_Error s"
  using serve_commands_cache_error[OF assms]
  by (auto simp: process_client_def read_commands_def Let_def split: prod.splits recv_result.splits outcome.splits)

text \<open>A request \<open>X\<close> of one argument.\<close>

definition one_argument :: "char \<Rightarrow> char list" where
  "one_argument x = ''*1'' @ [CR, LF] @ ''$1'' @ [CR, LF] @ [x, CR, LF]"

theorem turn_answers_in_order_witness:
  "\<exists>c' w' st' r socket' rest.
     process_client echo_server [Received (one_argument CHR ''A''), Received (one_argument CHR ''B'')] (new_client (one_argument CHR ''C''), 0, demo_stats)
       = (Return True (c', w', st'), socket') \<and>
     socket_bytes [Received (one_argument CHR ''A''), Received (one_argument CHR ''B'')] = r @ socket_bytes socket' \<and>
     answers echo_server (cl_session (new_client (one_argument CHR ''C'')), 0) (pending (new_client (one_argument CHR ''C'')) @ r)
       (cl_session c', w') (cl_output c') rest \<and> leftover c' rest \<and> quiescent c' rest"
proof -
  let ?c = "new_client (one_argument CHR ''C'')" and ?s = "[Received (one_argument CHR ''A''), Received (one_argument CHR ''B'')]"
  have "conn_ok ?c" "cl_output ?c = []" "Recv_Error \<notin> set ?s" by (simp_all add: new_client_def one_argument_def conn_ok_def)
  from turn_answers_in_order[OF echo_server_ok this TrueI, of 0 demo_stats] show ?thesis
    using process_client_cache_error[of echo_server] by (auto simp: echo_server_def)
qed

text \<open>C7: The buffers of a connection are well typed: the indices into the fixed input and output arrays stay in order and in
  bounds through every turn and every write, whatever the client sends and however much of the output the socket accepts;
  and a write takes the bytes it sends from the front of what is unsent, so that no byte of a response is lost, repeated
  or reordered.\<close>

theorem connection_buffers_ok:
  assumes "server_ok sv I" "conn_ok c" "Recv_Error \<notin> set socket" "accepts c written" "I w"
  shows "conn_ok (outcome_client (fst (process_client sv socket (c, w, st)))) \<and>
     conn_ok (fst (snd (flush_client_output t written (c, st)))) \<and>
     unsent c = take (accepted written) (unsent c) @ unsent (fst (snd (flush_client_output t written (c, st))))"
proof -
  have "conn_ok (outcome_client (fst (process_client sv socket (c, w, st))))"
  proof (cases "cl_output c = []")
    case True
    then show ?thesis using turn_holds[OF assms(1,2) True assms(3,5), of st] by (auto simp: turn_ok_def turned_def)
  next
    case False
    then show ?thesis using assms(2) by (auto simp: process_client_def conn_ok_def)
  qed
  moreover obtain ok c' st' where "flush_client_output t written (c, st) = (ok, c', st')" by (metis prod_cases3)
  ultimately show ?thesis using flush_keeps[OF assms(2,4)] by simp
qed

definition talking :: client where
  "talking = (new_client [])\<lparr>cl_output := pglc_resp_simple ''PONG'', cl_output_sent := 2\<rparr>"

theorem connection_buffers_ok_witness:
  "conn_ok (outcome_client (fst (process_client echo_server [] (talking, 0, demo_stats)))) \<and>
   conn_ok (fst (snd (flush_client_output 7 (Sent 3) (talking, demo_stats)))) \<and>
   unsent talking = ''ON'' @ ''G'' @ unsent (fst (snd (flush_client_output 7 (Sent 3) (talking, demo_stats))))"
proof -
  have "conn_ok talking" "accepts talking (Sent 3)" "take 3 (unsent talking) = ''ONG''"
    by (simp_all add: conn_ok_def unsent_def talking_def new_client_def pglc_resp_simple_def line_response_def strlen_def)
  then show ?thesis using connection_buffers_ok[OF echo_server_ok, of talking "[]" "Sent 3" 0 demo_stats 7] by simp
qed

end
