(* ===== verification/Commands.thy ===== *)
theory Commands
  imports Connection Publish KeyCodec RowPayload
begin

text \<open>
  The commands of the RESP front end, src/src/pg_local_cache_worker.c lines 2337 to 2822: the
  authentication, the dispatch, the resolution of wire keys and their canonical form.

  \<^item> A request is the list of its argument strings.
  \<^item> What PostgreSQL does is given by the functions of a \<open>backend\<close>: the encoding check, the JSON
    parser, the input functions of the key types, the case-insensitive comparison. An error that
    such a function raises is its message, on the left of a sum.
  \<^item> The commands that run SQL (\<open>command_set\<close>, \<open>command_delete\<close>, \<open>command_mget\<close>) and the
    rendering of the statistics are functions of the backend too.
\<close>

section \<open>Workers\<close>

abbreviation (input) PGLC_MAX_AUTH_FAILURES :: nat where "PGLC_MAX_AUTH_FAILURES \<equiv> 5"
abbreviation (input) PGLC_MGET_MAX_KEYS :: nat where "PGLC_MGET_MAX_KEYS \<equiv> 1024"

datatype json_value = JString string | JNumeric string | JBool bool | JNull | JContainer
datatype jsonb = JObject "(string \<times> json_value) list" | JOther

record 'd worker_mapping =
  wm_mapping :: mapping
  wm_schema_name :: string
  wm_relation_name :: string
  wm_key_columns :: "string list"
  wm_key_count :: nat
  wm_key_types :: "nat list"
  wm_key_ioparams :: "nat list"
  wm_key_typmods :: "int list"
  wm_key_inputs :: "(string \<Rightarrow> nat \<Rightarrow> int \<Rightarrow> string + 'd) list"
  wm_key_outputs :: "'d FmgrInfo list"
  wm_tdtypeid :: nat
  wm_tdtypmod :: int
  wm_natts :: nat
  wm_row_descriptor_fingerprint :: nat

record 'd worker_state =
  ws_publication :: publication
  ws_mappings :: "'d worker_mapping list"
  ws_enabled :: bool

record 'd backend =
  bk_process :: process
  bk_settings :: settings
  bk_worker_slot :: nat
  bk_proc_pid :: int
  bk_database :: "string option"
  bk_role :: "string option"
  bk_auth_token :: string
  bk_pg_types :: "'d pg_types"
  bk_strncasecmp :: "string \<Rightarrow> string \<Rightarrow> bool"
  bk_verifymbstr :: "string \<Rightarrow> string option"
  bk_jsonb_in :: "string \<Rightarrow> string + jsonb"
  bk_errmsg :: "cache_error \<Rightarrow> string"
  bk_stats_json :: "'d worker_state \<Rightarrow> string"
  bk_obs :: "nat \<Rightarrow> nat \<Rightarrow> observations"
  bk_command_set :: "'d worker_mapping \<Rightarrow> string \<Rightarrow> string \<Rightarrow> 'd worker_state \<Rightarrow> (string + string) \<times> 'd worker_state"
  bk_command_delete :: "'d worker_mapping \<Rightarrow> string \<Rightarrow> 'd worker_state \<Rightarrow> (string + string) \<times> 'd worker_state"
  bk_command_mget :: "string list \<Rightarrow> nat \<Rightarrow> session \<Rightarrow> 'd worker_state \<Rightarrow> (string + string option) \<times> session \<times> 'd worker_state"

text \<open>\<open>psprintf\<close> renders a null pointer as \<open>(null)\<close>.\<close>

definition database_name :: "'d backend \<Rightarrow> string" where
  "database_name bk = (case bk_database bk of Some d \<Rightarrow> d | None \<Rightarrow> ''(null)'')"

definition arg_is :: "'d backend \<Rightarrow> string \<Rightarrow> string \<Rightarrow> bool" where
  "arg_is bk arg literal = pglc_resp_arg_equals (bk_strncasecmp bk) arg \<lparr>arg_data = 0, arg_len = length arg\<rparr> literal"

section \<open>Authentication\<close>

text \<open>The loop visits every index below the longer length; \<open>difference\<close> accumulates the mismatches.\<close>

fun token_loop :: "string \<Rightarrow> string \<Rightarrow> nat list \<Rightarrow> nat \<Rightarrow> nat" where
  "token_loop expected actual [] difference = difference"
| "token_loop expected actual (i # is) difference =
     (let e = (if i < length expected then uchar (expected ! i) else 0);
          a = (if i < length actual then uchar (actual ! i) else 0)
      in token_loop expected actual is (difference OR (e XOR a)))"

definition constant_time_token_equals :: "string \<Rightarrow> string \<Rightarrow> bool" where
  "constant_time_token_equals worker_auth_token argument =
     (let expected = take (strlen worker_auth_token) worker_auth_token
      in token_loop expected argument [0..<max (length expected) (length argument)] (length expected XOR length argument) = 0)"

definition auth_username :: "'d backend \<Rightarrow> string" where
  "auth_username bk = (case bk_role bk of Some (c # cs) \<Rightarrow> if c = CHR 0x00 then ''default'' else c # cs | _ \<Rightarrow> ''default'')"

text \<open>The part of \<open>execute_command_inner\<close> that handles \<open>AUTH\<close>: response, \<open>*close_after\<close>, session, statistics.\<close>

definition command_auth :: "'d backend \<Rightarrow> string list \<Rightarrow> session \<Rightarrow> stats \<Rightarrow> string \<times> bool \<times> session \<times> stats" where
  "command_auth bk argv se st =
     (if length argv \<noteq> 2 \<and> length argv \<noteq> 3 then (pglc_resp_error ''ERR wrong number of arguments for AUTH'', False, se, st)
      else
        let username_matches = (length argv = 3 \<longrightarrow> argv ! 1 = take (strlen (auth_username bk)) (auth_username bk));
            token = argv ! (length argv - 1)
        in if username_matches \<and> constant_time_token_equals (bk_auth_token bk) token
           then (pglc_resp_simple ''OK'', False, se\<lparr>se_authenticated := True, se_authentication_failures := 0\<rparr>, st)
           else
             let failures = u8 (se_authentication_failures se + 1)
             in (pglc_resp_error ''WRONGPASS invalid authentication token'', PGLC_MAX_AUTH_FAILURES \<le> failures,
                 se\<lparr>se_authenticated := False, se_authentication_failures := failures\<rparr>,
                 pg_atomic_fetch_add_u64 authentication_failures 1 st))"

section \<open>Wire keys\<close>

text \<open>A function that raises an error, returns false with \<open>*error\<close> set, or succeeds.\<close>

datatype 'a attempt = Raises string | Rejects string | Accepts 'a

definition wire_prefix :: "string \<Rightarrow> 'd worker_mapping \<Rightarrow> string" where
  "wire_prefix database m = ''CRUD:'' @ database @ ''.'' @ wm_schema_name m @ ''.'' @ wm_relation_name m @ '':''"

fun resolve_loop :: "string \<Rightarrow> string \<Rightarrow> 'd worker_mapping list \<Rightarrow> ('d worker_mapping \<times> string) attempt" where
  "resolve_loop database wire_key [] =
     (let database_prefix = ''CRUD:'' @ database @ ''.''
      in if length wire_key < length database_prefix \<or> take (length database_prefix) wire_key \<noteq> database_prefix
         then Rejects ''ERR KVik key targets a different database''
         else Rejects ''ERR unknown KVik table mapping'')"
| "resolve_loop database wire_key (m # rest) =
     (let prefix = wire_prefix database m; prefix_length = length prefix
      in if length wire_key \<le> prefix_length \<or> take prefix_length wire_key \<noteq> prefix then resolve_loop database wire_key rest
         else if wire_key ! prefix_length \<noteq> CHR ''{'' \<or> wire_key ! (length wire_key - 1) \<noteq> CHR ''}''
         then Rejects ''ERR KVik key must end with a primary-key JSON object''
         else Accepts (m, drop prefix_length wire_key))"

definition resolve_wire_key :: "'d backend \<Rightarrow> 'd worker_mapping list \<Rightarrow> string \<Rightarrow> ('d worker_mapping \<times> string) attempt" where
  "resolve_wire_key bk mappings wire_key =
     (if length wire_key = 0 \<or> PGLC_REQUEST_MAX \<le> length wire_key then Rejects ''ERR invalid key''
      else if CHR 0x00 \<in> set wire_key then Rejects ''ERR NUL bytes are not supported in keys''
      else (case bk_verifymbstr bk wire_key of
        Some message \<Rightarrow> Raises message
      | None \<Rightarrow>
          if 5 < length wire_key \<and> take 5 wire_key = ''CRUD:'' then resolve_loop (database_name bk) wire_key mappings
          else Rejects ''ERR key must use CRUD:database.schema.table:{primary-key-json}''))"

definition jsonb_key_value_as_cstring :: "json_value \<Rightarrow> string \<Rightarrow> string + string" where
  "jsonb_key_value_as_cstring v column_name = (case v of
      JString s \<Rightarrow> Inr s
    | JNumeric s \<Rightarrow> Inr s
    | JBool b \<Rightarrow> Inr (if b then ''true'' else ''false'')
    | JNull \<Rightarrow> Inl (''ERR primary-key field '' @ [CHR 0x22] @ column_name @ [CHR 0x22] @ '' cannot be null'')
    | JContainer \<Rightarrow> Inl (''ERR primary-key field '' @ [CHR 0x22] @ column_name @ [CHR 0x22] @ '' must be a JSON scalar''))"

fun key_values_loop :: "'d worker_mapping \<Rightarrow> (string \<times> json_value) list \<Rightarrow> nat list \<Rightarrow> 'd list \<Rightarrow> 'd list attempt" where
  "key_values_loop m obj [] values = Accepts values"
| "key_values_loop m obj (i # is) values =
     (let column = wm_key_columns m ! i in
      case map_of obj column of
        None \<Rightarrow> Rejects (''ERR missing primary-key field '' @ [CHR 0x22] @ column @ [CHR 0x22])
      | Some v \<Rightarrow>
        (case jsonb_key_value_as_cstring v column of
           Inl error \<Rightarrow> Rejects error
         | Inr input \<Rightarrow>
           (case (wm_key_inputs m ! i) input (wm_key_ioparams m ! i) (wm_key_typmods m ! i) of
              Inl message \<Rightarrow> Raises message
            | Inr d \<Rightarrow> key_values_loop m obj is (values @ [d]))))"

definition canonicalize_key :: "'d backend \<Rightarrow> 'd worker_mapping \<Rightarrow> string \<Rightarrow> ('d list \<times> string) attempt" where
  "canonicalize_key bk m raw_key =
     (case bk_jsonb_in bk raw_key of
        Inl message \<Rightarrow> Raises message
      | Inr JOther \<Rightarrow> Rejects ''ERR primary key must be a JSON object''
      | Inr (JObject obj) \<Rightarrow>
        if length obj \<noteq> wm_key_count m
        then Rejects (''ERR primary-key JSON must contain exactly '' @ render_integer (int (wm_key_count m)) @ '' field'' @
               (if wm_key_count m = 1 then '''' else ''s''))
        else (case key_values_loop m obj [0..<wm_key_count m] [] of
            Raises message \<Rightarrow> Raises message
          | Rejects error \<Rightarrow> Rejects error
          | Accepts values \<Rightarrow>
            (case pglc_canonical_key (bk_pg_types bk) values (replicate 16 False) (int (wm_key_count m))
                    (wm_key_outputs m) PGLC_KEY_MAX of
               None \<Rightarrow> Rejects ''ERR canonical primary key is too long''
             | Some canonical \<Rightarrow> Accepts (values, canonical))))"

section \<open>Dispatch\<close>

definition map_stats :: "(stats \<Rightarrow> stats) \<Rightarrow> 'd worker_state \<Rightarrow> 'd worker_state" where
  "map_stats f ws =
     (let p = ws_publication ws; gl = sh_globals (pb_shared p)
      in ws\<lparr>ws_publication := set_globals (gl\<lparr>gl_stats := f (gl_stats gl)\<rparr>) p\<rparr>)"

text \<open>An operation on the partition that the key belongs to.\<close>

definition key_step ::
  "process \<Rightarrow> settings \<Rightarrow> mapping \<Rightarrow> string \<Rightarrow> (partition \<Rightarrow> globals \<Rightarrow> (cache_error + 'a) \<times> partition \<times> globals) \<Rightarrow> 'a step" where
  "key_step pr s mp key f p =
     (let k = cache_partition_for pr s (my_database_id pr) (mp_nspace mp) key
      in case f (sh_partitions (pb_shared p) ! k) (sh_globals (pb_shared p)) of
           (r, pt, gl) \<Rightarrow> (r, set_globals gl (set_partition k pt p)))"

text \<open>An error that a step raises, as its message.\<close>

definition run_step :: "'d backend \<Rightarrow> nat step \<Rightarrow> 'd worker_state \<Rightarrow> (string + nat) \<times> 'd worker_state" where
  "run_step bk m ws = (case m (ws_publication ws) of
      (Inl e, p) \<Rightarrow> (Inl (bk_errmsg bk e), ws\<lparr>ws_publication := p\<rparr>)
    | (Inr n, p) \<Rightarrow> (Inr n, ws\<lparr>ws_publication := p\<rparr>))"

definition table_scope :: "string \<Rightarrow> 'd worker_mapping \<Rightarrow> string" where
  "table_scope database m = ''CRUD:'' @ database @ ''.'' @ wm_schema_name m @ ''.'' @ wm_relation_name m"

text \<open>The scope of \<open>INVALIDATE\<close>: a step to run, or the error to report.\<close>

definition invalidate_scope :: "'d backend \<Rightarrow> string \<Rightarrow> 'd worker_state \<Rightarrow> nat step attempt" where
  "invalidate_scope bk scope ws =
     (let pr = bk_process bk; s = bk_settings bk; database = database_name bk in
      case bk_verifymbstr bk scope of
        Some message \<Rightarrow> Raises message
      | None \<Rightarrow>
        if scope = ''CRUD'' then Accepts (pglc_cache_invalidate_all pr s (bk_obs bk))
        else if scope = ''CRUD:'' @ database then Accepts (pglc_cache_invalidate_database pr s (bk_obs bk) (my_database_id pr))
        else if take 5 scope = ''CRUD:''
        then (case resolve_wire_key bk (ws_mappings ws) scope of
            Raises message \<Rightarrow> Raises message
          | Accepts (m, raw_key) \<Rightarrow>
              (case canonicalize_key bk m raw_key of
                 Raises message \<Rightarrow> Raises message
               | Rejects error \<Rightarrow> Rejects error
               | Accepts (values, canonical) \<Rightarrow>
                   Accepts (key_step pr s (wm_mapping m) canonical (pglc_cache_invalidate_key pr s (bk_obs bk 0 0) (wm_mapping m) canonical)))
          | Rejects error \<Rightarrow>
              (case find (\<lambda>m. scope = table_scope database m) (ws_mappings ws) of
                 None \<Rightarrow> Rejects error
               | Some m \<Rightarrow> Accepts (pglc_cache_invalidate_namespace pr s (my_database_id pr) (mp_nspace (wm_mapping m)))))
        else Rejects ''ERR invalid CRUD cache scope'')"

text \<open>The cast to \<open>int64\<close>.\<close>

definition int64_of :: "nat \<Rightarrow> int" where
  "int64_of n = (if u64 n < 9223372036854775808 then int (u64 n) else int (u64 n) - 18446744073709551616)"

definition command_invalidate :: "'d backend \<Rightarrow> string list \<Rightarrow> 'd worker_state \<Rightarrow> (string + string) \<times> 'd worker_state" where
  "command_invalidate bk argv ws =
     (if length argv \<noteq> 2 \<or> length (argv ! 1) = 0 \<or> PGLC_REQUEST_MAX \<le> length (argv ! 1) \<or> CHR 0x00 \<in> set (argv ! 1)
      then (Inr (pglc_resp_error ''ERR INVALIDATE expects one cache scope''), ws)
      else case invalidate_scope bk (argv ! 1) ws of
          Raises message \<Rightarrow> (Inl message, ws)
        | Rejects error \<Rightarrow> (Inr (pglc_resp_error error), ws)
        | Accepts m \<Rightarrow>
            (case run_step bk m ws of
               (Inl message, ws) \<Rightarrow> (Inl message, ws)
             | (Inr n, ws) \<Rightarrow> (Inr (pglc_resp_integer (int64_of n)), ws)))"

text \<open>The commands that only look at their arguments.\<close>

definition crlf :: string where
  "crlf = [CR, LF]"

definition hello_response :: string where
  "hello_response = concat (map (\<lambda>line. line @ crlf)
     [''*14'', ''$6'', ''server'', ''$14'', ''pg_local_cache'', ''$7'', ''version'', ''$5'', ''3.1.0'', ''$5'', ''proto'', '':2'',
      ''$2'', ''id'', '':0'', ''$4'', ''mode'', ''$10'', ''standalone'', ''$4'', ''role'', ''$6'', ''master'', ''$7'', ''modules'', ''*0''])"

definition info_text :: string where
  "info_text = concat (map (\<lambda>line. line @ crlf)
     [''# Server'', ''server:pg_local_cache'', ''pg_local_cache_version:3.1.0'', ''redis_mode:standalone''])"

definition command_ping :: "string list \<Rightarrow> string" where
  "command_ping argv =
     (if length argv = 1 then pglc_resp_simple ''PONG''
      else if length argv = 2
      then (if PGLC_VALUE_MAX < length (argv ! 1) then pglc_resp_error ''ERR PING payload is too large'' else pglc_resp_bulk (argv ! 1))
      else pglc_resp_error ''ERR wrong number of arguments for PING'')"

definition command_echo :: "string list \<Rightarrow> string" where
  "command_echo argv =
     (if length argv \<noteq> 2 then pglc_resp_error ''ERR wrong number of arguments for ECHO''
      else if PGLC_VALUE_MAX < length (argv ! 1) then pglc_resp_error ''ERR ECHO payload is too large''
      else pglc_resp_bulk (argv ! 1))"

definition command_client :: "'d backend \<Rightarrow> string list \<Rightarrow> string" where
  "command_client bk argv =
     (if length argv = 4 \<and> arg_is bk (argv ! 1) ''SETINFO'' then pglc_resp_simple ''OK''
      else if length argv = 3 \<and> arg_is bk (argv ! 1) ''SETNAME'' then pglc_resp_simple ''OK''
      else if length argv = 2 \<and> arg_is bk (argv ! 1) ''GETNAME'' then pglc_resp_null
      else if length argv = 2 \<and> arg_is bk (argv ! 1) ''ID'' then pglc_resp_integer (bk_proc_pid bk)
      else pglc_resp_error ''ERR unsupported CLIENT subcommand'')"

text \<open>\<open>SET\<close> and \<open>DEL\<close>: the checks of the dispatcher and the count of the command.\<close>

definition command_write :: "'d backend \<Rightarrow> bool \<Rightarrow> string list \<Rightarrow> 'd worker_state \<Rightarrow> (string + string) \<times> 'd worker_state" where
  "command_write bk is_set argv ws =
     (if is_set \<and> length argv \<noteq> 3 \<or> \<not> is_set \<and> length argv \<noteq> 2 then (Inr (pglc_resp_error ''ERR wrong number of arguments''), ws)
      else case resolve_wire_key bk (ws_mappings ws) (argv ! 1) of
          Raises message \<Rightarrow> (Inl message, ws)
        | Rejects key_error \<Rightarrow> (Inr (pglc_resp_error key_error), ws)
        | Accepts (m, raw_key) \<Rightarrow>
            if is_set then bk_command_set bk m raw_key (argv ! 2) (map_stats (worker_shard_add (bk_worker_slot bk) client_sets) ws)
            else bk_command_delete bk m raw_key (map_stats (worker_shard_add (bk_worker_slot bk) client_dels) ws))"

text \<open>The result of a command: an error it raises or its response, none when the request was queued as a miss;
  \<open>*close_after\<close>; the session and the state of the worker.\<close>

type_synonym 'd command_result = "(string + string option) \<times> bool \<times> session \<times> 'd worker_state"

definition plain :: "string \<Rightarrow> session \<Rightarrow> 'd worker_state \<Rightarrow> 'd command_result" where
  "plain response se ws = (Inr (Some response), False, se, ws)"

definition effect :: "session \<Rightarrow> (string + string) \<times> 'd worker_state \<Rightarrow> 'd command_result" where
  "effect se = (\<lambda>(r, ws). (map_sum id Some r, False, se, ws))"

text \<open>The commands after \<open>AUTH\<close>, for a session that is authenticated.\<close>

definition execute_authenticated :: "'d backend \<Rightarrow> string list \<Rightarrow> nat \<Rightarrow> session \<Rightarrow> 'd worker_state \<Rightarrow> 'd command_result" where
  "execute_authenticated bk argv request_length se ws =
     (let is_command = arg_is bk (argv ! 0) in
      if is_command ''SET'' then effect se (command_write bk True argv ws)
      else if is_command ''DEL'' then effect se (command_write bk False argv ws)
      else if is_command ''MGET''
      then (if length argv < 2 then plain (pglc_resp_error ''ERR wrong number of arguments'') se ws
            else if PGLC_MGET_MAX_KEYS + 1 < length argv then plain (pglc_resp_error ''ERR MGET accepts at most 1024 keys'') se ws
            else case bk_command_mget bk argv request_length se ws of (r, se, ws) \<Rightarrow> (r, False, se, ws))
      else if is_command ''PING'' then plain (command_ping argv) se ws
      else if is_command ''ECHO'' then plain (command_echo argv) se ws
      else if is_command ''HELLO''
      then plain (if length argv \<noteq> 2 \<or> argv ! 1 \<noteq> ''2'' then pglc_resp_error ''NOPROTO only RESP2 is supported'' else hello_response) se ws
      else if is_command ''INFO''
      then plain (if length argv \<noteq> 1 \<and> length argv \<noteq> 2 then pglc_resp_error ''ERR wrong number of arguments for INFO''
                  else pglc_resp_bulk info_text) se ws
      else if is_command ''QUIT'' then (Inr (Some (pglc_resp_simple ''OK'')), True, se, ws)
      else if is_command ''CLIENT'' then plain (command_client bk argv) se ws
      else if is_command ''COMMAND'' then plain (''*0'' @ crlf) se ws
      else if is_command ''SELECT''
      then plain (if length argv = 2 \<and> argv ! 1 = ''0'' then pglc_resp_simple ''OK''
                  else pglc_resp_error ''ERR only RESP database 0 is supported'') se ws
      else if is_command ''STAT'' \<or> is_command ''STATS''
      then plain (if length argv \<noteq> 1 then pglc_resp_error ''ERR wrong number of arguments for STAT''
                  else pglc_resp_bulk (bk_stats_json bk ws)) se ws
      else if is_command ''INVALIDATE'' then effect se (command_invalidate bk argv ws)
      else plain (pglc_resp_error ''ERR unsupported command'') se ws)"

definition execute_command_inner :: "'d backend \<Rightarrow> string list \<Rightarrow> nat \<Rightarrow> session \<Rightarrow> 'd worker_state \<Rightarrow> 'd command_result" where
  "execute_command_inner bk argv request_length se ws =
     (if argv = [] then plain (pglc_resp_error ''ERR empty command'') se ws
      else if arg_is bk (argv ! 0) ''AUTH''
      then (case command_auth bk argv se (gl_stats (sh_globals (pb_shared (ws_publication ws)))) of
              (response, close_after, se, st) \<Rightarrow> (Inr (Some response), close_after, se, map_stats (\<lambda>_. st) ws))
      else if \<not> se_authenticated se then plain (pglc_resp_error ''NOAUTH Authentication required'') se ws
      else execute_authenticated bk argv request_length se ws)"

text \<open>An error below the level \<open>FATAL\<close> becomes an error response; \<open>aborted\<close> is the state after the
  transaction of the command is aborted.\<close>

definition execute_command ::
  "'d backend \<Rightarrow> ('d worker_state \<Rightarrow> 'd worker_state) \<Rightarrow> string list \<Rightarrow> nat \<Rightarrow> session \<Rightarrow> 'd worker_state \<Rightarrow>
   string option \<times> bool \<times> session \<times> 'd worker_state" where
  "execute_command bk abort_spi_transaction argv request_length se ws =
     (case execute_command_inner bk argv request_length se ws of
        (Inr response, close_after, se, ws) \<Rightarrow> (response, close_after, se, ws)
      | (Inl message, close_after, se, ws) \<Rightarrow>
          (Some (pglc_resp_error (''ERR PostgreSQL: '' @ message)), close_after, se, abort_spi_transaction ws))"

section \<open>What the commands do\<close>

lemma xor_zero_iff: "a XOR b = 0 \<longleftrightarrow> a = b" for a b :: nat
  by (auto simp: bit_eq_iff bit_xor_iff)

lemma token_loop_zero:
  "token_loop e a is d = 0 \<longleftrightarrow> d = 0 \<and> (\<forall>i \<in> set is. (if i < length e then uchar (e ! i) else 0) = (if i < length a then uchar (a ! i) else 0))"
  by (induction e a "is" d rule: token_loop.induct) (auto simp: Let_def xor_zero_iff or_eq_0_iff)

text \<open>The comparison that visits every byte decides equality.\<close>

lemma token_equals_iff: "constant_time_token_equals token argument \<longleftrightarrow> argument = take (strlen token) token"
proof -
  let ?e = "take (strlen token) token"
  have "constant_time_token_equals token argument \<longleftrightarrow> length ?e = length argument \<and>
      (\<forall>i < length argument. uchar (?e ! i) = uchar (argument ! i))"
    by (auto simp: constant_time_token_equals_def Let_def token_loop_zero xor_zero_iff)
  also have "\<dots> \<longleftrightarrow> argument = ?e" by (auto simp: list_eq_iff_nth_eq)
  finally show ?thesis .
qed

text \<open>An \<open>AUTH\<close> request with the right token and, if it names a user, the right user.\<close>

definition presents_token :: "'d backend \<Rightarrow> string list \<Rightarrow> bool" where
  "presents_token bk argv \<longleftrightarrow> argv \<noteq> [] \<and> arg_is bk (argv ! 0) ''AUTH'' \<and>
     (length argv = 2 \<or> length argv = 3 \<and> argv ! 1 = take (strlen (auth_username bk)) (auth_username bk)) \<and>
     argv ! (length argv - 1) = take (strlen (bk_auth_token bk)) (bk_auth_token bk)"

lemma map_stats_same: "map_stats (\<lambda>_. gl_stats (sh_globals (pb_shared (ws_publication ws)))) ws = ws"
  by (simp add: map_stats_def Let_def set_globals_def)

lemma auth_outcome:
  assumes "command_auth bk argv se st = (r, close, se', st')" "arg_is bk (argv ! 0) ''AUTH''" "argv \<noteq> []"
  shows "presents_token bk argv \<Longrightarrow> se_authenticated se' \<and> r = pglc_resp_simple ''OK'' \<and> \<not> close \<and> st' = st"
    "\<not> presents_token bk argv \<Longrightarrow> (se_authenticated se' \<longrightarrow> se' = se) \<and> (\<exists>m. r = pglc_resp_error m)"
  using assms by (auto simp: command_auth_def presents_token_def token_equals_iff Let_def split: if_splits)

lemma unauthenticated_command:
  assumes "\<not> se_authenticated se" "execute_command bk abrt argv n se ws = (r, close, se', ws')" "\<not> presents_token bk argv"
  shows "\<not> se_authenticated se'" "\<exists>m. r = Some (pglc_resp_error m)" "\<exists>st. ws' = map_stats (\<lambda>_. st) ws"
proof -
  have "\<not> se_authenticated se' \<and> (\<exists>m. r = Some (pglc_resp_error m)) \<and> (\<exists>st. ws' = map_stats (\<lambda>_. st) ws)"
  proof (cases "argv \<noteq> [] \<and> arg_is bk (argv ! 0) ''AUTH''")
    case True
    obtain x y z u where a: "command_auth bk argv se (gl_stats (sh_globals (pb_shared (ws_publication ws)))) = (x, y, z, u)" by (metis prod_cases4)
    then show ?thesis using assms True auth_outcome(2)[OF a] by (auto simp: execute_command_def execute_command_inner_def)
  next
    case False
    then show ?thesis using assms map_stats_same[of ws]
      by (auto simp: execute_command_def execute_command_inner_def plain_def split: if_splits intro: exI[of _ "gl_stats (sh_globals (pb_shared (ws_publication ws)))"])
  qed
  then show "\<not> se_authenticated se'" "\<exists>m. r = Some (pglc_resp_error m)" "\<exists>st. ws' = map_stats (\<lambda>_. st) ws" by auto
qed

section \<open>Responses fit\<close>

abbreviation (input) MESSAGE_MAX :: nat where "MESSAGE_MAX \<equiv> 66500"

definition replies_ok :: "string + string option \<Rightarrow> session \<Rightarrow> bool" where
  "replies_ok x se \<longleftrightarrow> (case x of
      Inl m \<Rightarrow> length m \<le> MESSAGE_MAX
    | Inr None \<Rightarrow> se_deferred_miss se \<noteq> None
    | Inr (Some r) \<Rightarrow> length r \<le> PGLC_RESPONSE_MAX)"

text \<open>Names are shorter than \<open>NAMEDATALEN\<close>, and the messages of the input functions are bounded.\<close>

definition mapping_fits :: "'d worker_mapping \<Rightarrow> bool" where
  "mapping_fits m \<longleftrightarrow> wm_key_count m \<le> 16 \<and> wm_key_count m \<le> length (wm_key_columns m) \<and> wm_key_count m \<le> length (wm_key_inputs m) \<and>
     (\<forall>c \<in> set (wm_key_columns m). length c < 64) \<and>
     (\<forall>f \<in> set (wm_key_inputs m). \<forall>x y z msg. f x y z = Inl msg \<longrightarrow> length msg \<le> MESSAGE_MAX)"

definition mappings_fit :: "'d worker_state \<Rightarrow> bool" where
  "mappings_fit ws \<longleftrightarrow> (\<forall>m \<in> set (ws_mappings ws). mapping_fits m)"

definition backend_ok :: "'d backend \<Rightarrow> bool" where
  "backend_ok bk \<longleftrightarrow>
     (\<forall>x m. bk_verifymbstr bk x = Some m \<longrightarrow> length m \<le> MESSAGE_MAX) \<and> (\<forall>x m. bk_jsonb_in bk x = Inl m \<longrightarrow> length m \<le> MESSAGE_MAX) \<and>
     (\<forall>e. length (bk_errmsg bk e) \<le> MESSAGE_MAX) \<and> (\<forall>ws. length (bk_stats_json bk ws) \<le> 65536) \<and> \<bar>bk_proc_pid bk\<bar> < 2147483648 \<and>
     (\<forall>m k v ws x ws'. bk_command_set bk m k v ws = (x, ws') \<longrightarrow> ws_mappings ws' = ws_mappings ws \<and> (\<forall>se. replies_ok (map_sum id Some x) se)) \<and>
     (\<forall>m k ws x ws'. bk_command_delete bk m k ws = (x, ws') \<longrightarrow> ws_mappings ws' = ws_mappings ws \<and> (\<forall>se. replies_ok (map_sum id Some x) se)) \<and>
     (\<forall>argv n se ws x se' ws'. bk_command_mget bk argv n se ws = (x, se', ws') \<longrightarrow> ws_mappings ws' = ws_mappings ws \<and> replies_ok x se')"

lemma length_resp:
  "length (pglc_resp_error m) \<le> length m + 3" "length (pglc_resp_simple m) \<le> length m + 3"
  "length (pglc_resp_bulk v) = length (write_decimal (length v)) + length v + 5"
  by (simp_all add: pglc_resp_error_def pglc_resp_simple_def line_response_def pglc_resp_bulk_def bulk_header_def)

lemma bulk_fits: "length v \<le> 65536 \<Longrightarrow> length (pglc_resp_bulk v) \<le> PGLC_RESPONSE_MAX"
  using length_write_decimal[of "length v" 5] by (simp add: length_resp)

lemma integer_fits: "\<bar>i\<bar> \<le> 9223372036854775808 \<Longrightarrow> length (pglc_resp_integer i) \<le> PGLC_RESPONSE_MAX"
proof -
  assume i: "\<bar>i\<bar> \<le> 9223372036854775808"
  have len: "length (reversed_digits n) \<le> 19" if "n \<le> 9223372036854775808" for n
    using length_write_decimal[of n 19] that by (simp add: write_decimal_rev)
  have "nat (- (i + 1)) + 1 \<le> 9223372036854775808" if "i < 0" using i that by linarith
  moreover have "nat i \<le> 9223372036854775808" using i by linarith
  ultimately show ?thesis using len[of "nat (- (i + 1)) + 1"] len[of "nat i"] by (auto simp: pglc_resp_integer_def render_integer_def)
qed

lemma int64_fits: "length (pglc_resp_integer (int64_of n)) \<le> PGLC_RESPONSE_MAX"
  by (rule integer_fits) (auto simp: int64_of_def u64_def)

lemma key_error_fits:
  assumes "jsonb_key_value_as_cstring v c = Inl m" "length c < 64"
  shows "length m \<le> 200"
  using assms by (auto simp: jsonb_key_value_as_cstring_def split: json_value.splits)

lemma key_values_fit:
  assumes "mapping_fits m" "set is \<subseteq> {..<wm_key_count m}"
  shows "case key_values_loop m obj is vs of Raises msg \<Rightarrow> length msg \<le> MESSAGE_MAX | Rejects msg \<Rightarrow> length msg \<le> 200 | Accepts _ \<Rightarrow> True"
  using assms
proof (induction m obj "is" vs rule: key_values_loop.induct)
  case (2 m obj i "is" vs)
  have c: "length (wm_key_columns m ! i) < 64" "wm_key_inputs m ! i \<in> set (wm_key_inputs m)"
    using 2(2,3) by (auto simp: mapping_fits_def)
  have msg: "(wm_key_inputs m ! i) x y z = Inl msg \<Longrightarrow> length msg \<le> MESSAGE_MAX" for x y z msg
    using 2(2) c(2) unfolding mapping_fits_def by blast
  show ?case
  proof (cases "map_of obj (wm_key_columns m ! i)")
    case None
    then show ?thesis using c by (simp add: Let_def)
  next
    case (Some v)
    show ?thesis
    proof (cases "jsonb_key_value_as_cstring v (wm_key_columns m ! i)")
      case (Inl e)
      then show ?thesis using Some key_error_fits[OF Inl c(1)] by (simp add: Let_def)
    next
      case (Inr input)
      show ?thesis
      proof (cases "(wm_key_inputs m ! i) input (wm_key_ioparams m ! i) (wm_key_typmods m ! i)")
        case (Inl e)
        then show ?thesis using Some Inr msg[OF Inl] by (simp add: Let_def)
      next
        case (Inr d)
        then show ?thesis using 2(1)[OF refl Some \<open>_ = Inr input\<close> Inr 2(2)] 2(3) Some \<open>_ = Inr input\<close> by (simp add: Let_def)
      qed
    qed
  qed
qed simp

definition attempt_fits :: "'a attempt \<Rightarrow> bool" where
  "attempt_fits a \<longleftrightarrow> (case a of Raises msg \<Rightarrow> length msg \<le> MESSAGE_MAX | Rejects msg \<Rightarrow> length msg \<le> 200 | Accepts _ \<Rightarrow> True)"

lemma attempt_fits_simps [simp]:
  "attempt_fits (Raises msg) \<longleftrightarrow> length msg \<le> MESSAGE_MAX" "attempt_fits (Rejects msg) \<longleftrightarrow> length msg \<le> 200" "attempt_fits (Accepts x)"
  by (simp_all add: attempt_fits_def)

lemma backend_okD:
  assumes "backend_ok bk"
  shows "\<And>x m. bk_verifymbstr bk x = Some m \<Longrightarrow> length m \<le> MESSAGE_MAX" "\<And>x m. bk_jsonb_in bk x = Inl m \<Longrightarrow> length m \<le> MESSAGE_MAX"
    "\<And>e. length (bk_errmsg bk e) \<le> MESSAGE_MAX" "\<And>ws. length (bk_stats_json bk ws) \<le> 65536" "\<bar>bk_proc_pid bk\<bar> < 2147483648"
  by (simp_all add: assms[unfolded backend_ok_def])

lemma resolve_accepts:
  assumes "resolve_loop database wire_key ms = Accepts (m, raw)"
  shows "wire_key = wire_prefix database m @ raw" "raw \<noteq> []" "m \<in> set ms"
proof -
  have "wire_key = wire_prefix database m @ raw \<and> raw \<noteq> [] \<and> m \<in> set ms"
    using assms by (induction ms) (auto simp: Let_def split: if_splits intro: append_take_drop_id[symmetric, THEN trans])
  then show "wire_key = wire_prefix database m @ raw" "raw \<noteq> []" "m \<in> set ms" by auto
qed

lemma resolve_fits:
  assumes "backend_ok bk"
  shows "attempt_fits (resolve_wire_key bk ms key)"
proof -
  have loop: "attempt_fits (resolve_loop database key ms)" for database by (induction ms) (simp_all add: Let_def)
  show ?thesis using backend_okD(1)[OF assms] loop by (auto simp: resolve_wire_key_def split: option.splits)
qed

lemma resolve_member: "resolve_wire_key bk ms key = Accepts (m, raw) \<Longrightarrow> m \<in> set ms"
  by (auto simp: resolve_wire_key_def split: if_splits option.splits dest: resolve_accepts(3))

lemma canonicalize_fits:
  assumes "backend_ok bk" "mapping_fits m"
  shows "attempt_fits (canonicalize_key bk m raw)"
proof (cases "bk_jsonb_in bk raw")
  case (Inl e)
  then show ?thesis using backend_okD(2)[OF assms(1) Inl] by (simp add: canonicalize_key_def)
next
  case (Inr j)
  have n: "length (render_integer (int (wm_key_count m))) \<le> 2"
    using assms(2) length_write_decimal[of "wm_key_count m" 2] by (simp add: mapping_fits_def render_integer_def write_decimal_rev)
  show ?thesis
  proof (cases j)
    case (JObject obj)
    have "set [0..<wm_key_count m] \<subseteq> {..<wm_key_count m}" by auto
    from key_values_fit[OF assms(2) this, of obj "[]"] show ?thesis using Inr JObject n
      by (auto simp: canonicalize_key_def split: attempt.splits option.splits)
  next
    case JOther
    then show ?thesis using Inr by (simp add: canonicalize_key_def)
  qed
qed

lemma invalidate_scope_fits:
  assumes "backend_ok bk" "mappings_fit ws"
  shows "attempt_fits (invalidate_scope bk scope ws)"
proof -
  have r: "attempt_fits (resolve_wire_key bk (ws_mappings ws) scope)" by (rule resolve_fits[OF assms(1)])
  have c: "resolve_wire_key bk (ws_mappings ws) scope = Accepts (m, raw) \<Longrightarrow> attempt_fits (canonicalize_key bk m raw)" for m raw
    by (drule resolve_member, rule canonicalize_fits[OF assms(1)]) (use assms(2) in \<open>auto simp: mappings_fit_def\<close>)
  show ?thesis
  proof (cases "resolve_wire_key bk (ws_mappings ws) scope")
    case (Accepts p)
    then show ?thesis using c[of "fst p" "snd p"] backend_okD(1)[OF assms(1)]
      by (auto simp: invalidate_scope_def Let_def split: option.splits attempt.splits prod.splits)
  qed (use r backend_okD(1)[OF assms(1)] in \<open>auto simp: invalidate_scope_def Let_def split: option.splits\<close>)
qed

text \<open>The result of a command fits, and the mappings stay.\<close>

definition result_fits :: "'d worker_state \<Rightarrow> 'd command_result \<Rightarrow> bool" where
  "result_fits ws = (\<lambda>(x, close, se', ws'). ws_mappings ws' = ws_mappings ws \<and> replies_ok x se')"

lemma plain_fits [simp]: "result_fits ws (plain r se ws) \<longleftrightarrow> length r \<le> PGLC_RESPONSE_MAX"
  by (simp add: result_fits_def plain_def replies_ok_def)

lemma error_fits: "length m \<le> MESSAGE_MAX \<Longrightarrow> length (pglc_resp_error m) \<le> PGLC_RESPONSE_MAX"
  using length_resp(1)[of m] by simp

lemma map_stats_mappings [simp]: "ws_mappings (map_stats f ws) = ws_mappings ws"
  by (simp add: map_stats_def Let_def)

lemma effect_fits:
  assumes "ws_mappings (snd p) = ws_mappings ws" "\<And>se. replies_ok (map_sum id Some (fst p)) se"
  shows "result_fits ws (effect se p)"
  using assms by (cases p) (simp add: result_fits_def effect_def)

lemma response_replies [simp]: "replies_ok (Inr (Some r)) se \<longleftrightarrow> length r \<le> PGLC_RESPONSE_MAX" "replies_ok (Inl m) se \<longleftrightarrow> length m \<le> MESSAGE_MAX"
  by (simp_all add: replies_ok_def)

lemma writers_fit:
  assumes "backend_ok bk"
  shows "ws_mappings (snd (bk_command_set bk m k v w)) = ws_mappings w" "replies_ok (map_sum id Some (fst (bk_command_set bk m k v w))) se"
    "ws_mappings (snd (bk_command_delete bk m k w)) = ws_mappings w" "replies_ok (map_sum id Some (fst (bk_command_delete bk m k w))) se"
proof -
  have set: "bk_command_set bk m k v w = (x, w') \<Longrightarrow> ws_mappings w' = ws_mappings w \<and> replies_ok (map_sum id Some x) se"
    and del: "bk_command_delete bk m k w = (x, w') \<Longrightarrow> ws_mappings w' = ws_mappings w \<and> replies_ok (map_sum id Some x) se" for x w'
    using assms unfolding backend_ok_def by meson+
  show "ws_mappings (snd (bk_command_set bk m k v w)) = ws_mappings w" "replies_ok (map_sum id Some (fst (bk_command_set bk m k v w))) se"
    using set[OF prod.collapse[symmetric]] by auto
  show "ws_mappings (snd (bk_command_delete bk m k w)) = ws_mappings w" "replies_ok (map_sum id Some (fst (bk_command_delete bk m k w))) se"
    using del[OF prod.collapse[symmetric]] by auto
qed

lemma command_write_fits:
  assumes "backend_ok bk"
  shows "result_fits ws (effect se (command_write bk is_set argv ws))"
proof (rule effect_fits)
  have r: "attempt_fits (resolve_wire_key bk (ws_mappings ws) (argv ! 1))" by (rule resolve_fits[OF assms])
  show "ws_mappings (snd (command_write bk is_set argv ws)) = ws_mappings ws"
    by (simp add: command_write_def writers_fit[OF assms] split: attempt.splits)
  show "replies_ok (map_sum id Some (fst (command_write bk is_set argv ws))) se" for se
  proof (cases "resolve_wire_key bk (ws_mappings ws) (argv ! 1)")
    case (Accepts p)
    then show ?thesis by (cases p) (simp add: command_write_def writers_fit[OF assms] error_fits)
  qed (use r error_fits in \<open>simp_all add: command_write_def\<close>)
qed

lemma command_invalidate_fits:
  assumes "backend_ok bk" "mappings_fit ws"
  shows "result_fits ws (effect se (command_invalidate bk argv ws))"
proof (rule effect_fits)
  have r: "attempt_fits (invalidate_scope bk (argv ! 1) ws)" by (rule invalidate_scope_fits[OF assms])
  have run: "ws_mappings (snd (run_step bk m ws)) = ws_mappings ws" "fst (run_step bk m ws) = Inl msg \<Longrightarrow> length msg \<le> MESSAGE_MAX" for m msg
    using backend_okD(3)[OF assms(1)] by (auto simp: run_step_def split: prod.splits sum.splits)
  show "ws_mappings (snd (command_invalidate bk argv ws)) = ws_mappings ws"
    using run(1) by (auto simp: command_invalidate_def split: attempt.splits prod.splits sum.splits) (metis snd_conv)+
  show "replies_ok (map_sum id Some (fst (command_invalidate bk argv ws))) se" for se
  proof (cases "invalidate_scope bk (argv ! 1) ws")
    case (Accepts m)
    obtain x ws' where x: "run_step bk m ws = (x, ws')" by fastforce
    then show ?thesis using Accepts run(2)[of m] int64_fits error_fits by (cases x) (simp_all add: command_invalidate_def)
  qed (use r error_fits in \<open>simp_all add: command_invalidate_def\<close>)
qed

lemma if_fits: "(b \<Longrightarrow> result_fits ws x) \<Longrightarrow> (\<not> b \<Longrightarrow> result_fits ws y) \<Longrightarrow> result_fits ws (if b then x else y)"
  by simp

lemma plain_error_fits: "length m \<le> MESSAGE_MAX \<Longrightarrow> result_fits ws (plain (pglc_resp_error m) se ws)"
  by (simp add: error_fits)

lemma fixed_responses_fit:
  "length (command_ping argv) \<le> PGLC_RESPONSE_MAX" "length (command_echo argv) \<le> PGLC_RESPONSE_MAX"
  "length hello_response \<le> PGLC_RESPONSE_MAX" "length (pglc_resp_bulk info_text) \<le> PGLC_RESPONSE_MAX"
  "length (pglc_resp_simple ''OK'') \<le> PGLC_RESPONSE_MAX" "length (''*0'' @ crlf) \<le> PGLC_RESPONSE_MAX"
proof -
  show "length (command_ping argv) \<le> PGLC_RESPONSE_MAX" "length (command_echo argv) \<le> PGLC_RESPONSE_MAX"
    using length_resp(2)[of "''PONG''"] by (auto simp: command_ping_def command_echo_def intro: bulk_fits error_fits)
  show "length hello_response \<le> PGLC_RESPONSE_MAX" by (simp add: hello_response_def crlf_def)
  show "length (pglc_resp_bulk info_text) \<le> PGLC_RESPONSE_MAX" by (rule bulk_fits) (simp add: info_text_def crlf_def)
  show "length (pglc_resp_simple ''OK'') \<le> PGLC_RESPONSE_MAX" using length_resp(2)[of "''OK''"] by simp
  show "length (''*0'' @ crlf) \<le> PGLC_RESPONSE_MAX" by (simp add: crlf_def)
qed

lemma command_client_fits:
  assumes "backend_ok bk"
  shows "length (command_client bk argv) \<le> PGLC_RESPONSE_MAX"
  using fixed_responses_fit(5) integer_fits[of "bk_proc_pid bk"] backend_okD(5)[OF assms]
  by (auto simp: command_client_def pglc_resp_null_def intro: error_fits)

lemma mget_fits:
  assumes "backend_ok bk"
  shows "result_fits ws (case bk_command_mget bk argv n se ws of (r, se, ws) \<Rightarrow> (r, False, se, ws))"
proof -
  obtain x se' ws' where m: "bk_command_mget bk argv n se ws = (x, se', ws')" by (metis prod_cases3)
  then have "ws_mappings ws' = ws_mappings ws \<and> replies_ok x se'" using assms unfolding backend_ok_def by meson
  then show ?thesis using m by (simp add: result_fits_def)
qed

lemma execute_authenticated_fits:
  assumes "backend_ok bk" "mappings_fit ws"
  shows "result_fits ws (execute_authenticated bk argv n se ws)"
  unfolding execute_authenticated_def Let_def
  by (intro if_fits plain_error_fits command_write_fits command_invalidate_fits mget_fits assms)
    (use fixed_responses_fit command_client_fits[OF assms(1)] backend_okD(4)[OF assms(1)] in
      \<open>auto simp: result_fits_def plain_def intro: bulk_fits error_fits\<close>)

lemma execute_command_fits:
  assumes "backend_ok bk" "mappings_fit ws" "\<And>w. ws_mappings (abrt w) = ws_mappings w"
    "execute_command bk abrt argv n se ws = (x, b, se', ws')"
  shows "ws_mappings ws' = ws_mappings ws" "replies_ok (Inr x) se'"
proof -
  have inner: "result_fits ws (execute_command_inner bk argv n se ws)"
  proof -
    obtain r c z st where a: "command_auth bk argv se (gl_stats (sh_globals (pb_shared (ws_publication ws)))) = (r, c, z, st)" by (metis prod_cases4)
    then have "length r \<le> PGLC_RESPONSE_MAX" using fixed_responses_fit(5)
      by (auto simp: command_auth_def Let_def intro: error_fits split: if_splits)
    then have "result_fits ws (Inr (Some r), c, z, map_stats (\<lambda>_. st) ws)" by (simp add: result_fits_def)
    then show ?thesis unfolding execute_command_inner_def a prod.case
      by (intro if_fits plain_error_fits execute_authenticated_fits assms) simp_all
  qed
  obtain y c z v where "execute_command_inner bk argv n se ws = (y, c, z, v)" by (metis prod_cases4)
  then have "ws_mappings ws' = ws_mappings ws \<and> replies_ok (Inr x) se'"
    using inner assms(3,4) error_fits by (cases y) (auto simp: execute_command_def result_fits_def length_resp(1)[THEN order_trans])
  then show "ws_mappings ws' = ws_mappings ws" "replies_ok (Inr x) se'" by auto
qed

end
