(* ===== verification/FastPath.thy ===== *)
theory FastPath
  imports Commands CacheOps
begin

text \<open>
  The allocation-free path that answers \<open>MGET\<close> of one key from the cache:
  \<open>try_fast_mget_hit\<close> and its helpers, src/src/pg_local_cache_worker.c lines 2990 to 3219 and
  3468 to 3482. It composes the JSON scan of the key, the cache lookup, the checked decoding of the
  row and the bounded response writers.

  \<^item> A \<open>reader\<close> holds what the lookup sees of its environment: the fence reads, the clock and
    what other processes do while the partition lock is not held.
\<close>

section \<open>Helpers\<close>

record 'c reader =
  rd_obs :: observations
  rd_fences :: fences
  rd_nows :: "nat \<Rightarrow> int"
  rd_others :: "partition \<times> globals \<Rightarrow> partition \<times> globals"
  rd_crc :: "'c crc32c"
  rd_utf8 :: bool

datatype fast_path_fallback_reason =
    PGLC_FAST_PATH_FALLBACK_KEY_FORM
  | PGLC_FAST_PATH_FALLBACK_MAPPING_SHAPE
  | PGLC_FAST_PATH_FALLBACK_MULTI_KEY
  | PGLC_FAST_PATH_FALLBACK_CACHE_STATE

definition cached_row_json :: "'c crc32c \<Rightarrow> 'd worker_mapping \<Rightarrow> string \<Rightarrow> string option" where
  "cached_row_json crc m payload =
     pglc_row_payload_get_json_checked crc payload (wm_tdtypeid m) (wm_tdtypmod m) (wm_natts m) (wm_row_descriptor_fingerprint m)"

fun fallback_counter :: "fast_path_fallback_reason \<Rightarrow> counter" where
  "fallback_counter PGLC_FAST_PATH_FALLBACK_KEY_FORM = fast_path_fallback_key_form"
| "fallback_counter PGLC_FAST_PATH_FALLBACK_MAPPING_SHAPE = fast_path_fallback_mapping_shape"
| "fallback_counter PGLC_FAST_PATH_FALLBACK_MULTI_KEY = fast_path_fallback_multi_key"
| "fallback_counter PGLC_FAST_PATH_FALLBACK_CACHE_STATE = fast_path_fallback_cache_state"

definition note_fast_path_fallback :: "nat \<Rightarrow> fast_path_fallback_reason \<Rightarrow> stats \<Rightarrow> stats" where
  "note_fast_path_fallback slot reason = worker_shard_add slot (fallback_counter reason)"

definition note_resp_cache_lookup :: "nat \<Rightarrow> bool \<Rightarrow> bool \<Rightarrow> stats \<Rightarrow> stats" where
  "note_resp_cache_lookup slot hit negative st =
     (if hit
      then let st = worker_shard_add slot cache_hits st in if negative then worker_shard_add slot negative_hits st else st
      else worker_shard_add slot cache_misses st)"

definition fast_path_mapping_shape_supported :: "'d worker_mapping \<Rightarrow> bool" where
  "fast_path_mapping_shape_supported m \<longleftrightarrow>
     \<not> (wm_key_count m \<noteq> 1 \<or> wm_key_typmods m ! 0 \<noteq> -1) \<and>
     (let key_type = wm_key_types m ! 0
      in key_type = PGLC_KEY_SCAN_INT2OID \<or> key_type = PGLC_KEY_SCAN_INT4OID \<or> key_type = PGLC_KEY_SCAN_INT8OID \<or>
         key_type = PGLC_KEY_SCAN_TEXTOID \<or> key_type = PGLC_KEY_SCAN_VARCHAROID)"

section \<open>The fast path\<close>

type_synonym 'd fast_result = "(cache_error + string option) \<times> 'd worker_state"

definition fall_back :: "'d backend \<Rightarrow> fast_path_fallback_reason \<Rightarrow> 'd worker_state \<Rightarrow> 'd fast_result" where
  "fall_back bk reason ws = (Inr None, map_stats (note_fast_path_fallback (bk_worker_slot bk) reason) ws)"

text \<open>The bytes of the response at \<open>output + output_used\<close>: an array of one element, null for an absent row.\<close>

definition write_element :: "mem \<Rightarrow> nat \<Rightarrow> string option \<Rightarrow> string option" where
  "write_element output available json =
     (case pglc_resp_write_array output available 0 1 PGLC_RESPONSE_MAX of
        (output, n, False) \<Rightarrow> None
      | (output, n, True) \<Rightarrow>
        (case (case json of None \<Rightarrow> pglc_resp_write_null output available n PGLC_RESPONSE_MAX
                          | Some json \<Rightarrow> pglc_resp_write_bulk output available n json PGLC_RESPONSE_MAX) of
           (output, n, False) \<Rightarrow> None
         | (output, n, True) \<Rightarrow> Some (load_bytes output 0 n)))"

text \<open>The answer to a hit: \<open>cl\<close> gives \<open>output_sent\<close>, \<open>output_used\<close> and \<open>retrying_deferred_miss\<close>.\<close>

definition answer_hit :: "'d backend \<Rightarrow> mem \<Rightarrow> nat \<times> nat \<times> bool \<Rightarrow> string option \<Rightarrow> 'd worker_state \<Rightarrow> 'd fast_result" where
  "answer_hit bk output cl json ws =
     (case cl of (output_sent, output_used, retrying) \<Rightarrow>
        if output_sent \<noteq> 0 \<or> PGLC_OUTPUT_BUFFER_MAX < output_used then fall_back bk PGLC_FAST_PATH_FALLBACK_CACHE_STATE ws
        else case write_element output (PGLC_OUTPUT_BUFFER_MAX - output_used) json of
            None \<Rightarrow> fall_back bk PGLC_FAST_PATH_FALLBACK_CACHE_STATE ws
          | Some response \<Rightarrow>
            (Inr (Some response), map_stats (\<lambda>st.
               let st = worker_shard_add (bk_worker_slot bk) fast_path_hits st;
                   st = (if retrying then st else worker_shard_add (bk_worker_slot bk) client_mget_keys st)
               in note_resp_cache_lookup (bk_worker_slot bk) True (json = None) st) ws))"

definition run_key :: "'d backend \<Rightarrow> 'd worker_mapping \<Rightarrow> string \<Rightarrow>
    (partition \<Rightarrow> globals \<Rightarrow> (cache_error + 'a) \<times> partition \<times> globals) \<Rightarrow> 'd worker_state \<Rightarrow> (cache_error + 'a) \<times> 'd worker_state" where
  "run_key bk m key f ws =
     (case key_step (bk_process bk) (bk_settings bk) (wm_mapping m) key f (ws_publication ws) of
        (r, p) \<Rightarrow> (r, ws\<lparr>ws_publication := p\<rparr>))"

text \<open>The lookup of a canonical key and what follows a hit.\<close>

definition fast_lookup ::
  "'d backend \<Rightarrow> 'c reader \<Rightarrow> mem \<Rightarrow> nat \<times> nat \<times> bool \<Rightarrow> 'd worker_mapping \<Rightarrow> string \<Rightarrow> 'd worker_state \<Rightarrow> 'd fast_result" where
  "fast_lookup bk rd output cl m canonical ws =
     (let pr = bk_process bk; s = bk_settings bk; mp = wm_mapping m in
      case run_key bk m canonical
             (pglc_cache_lookup_quiet pr s (rd_obs rd) (rd_fences rd) (rd_nows rd) (rd_others rd) mp canonical PGLC_VALUE_MAX) ws of
        (Inl e, ws) \<Rightarrow> (Inl e, ws)
      | (Inr lr, ws) \<Rightarrow>
        if \<not> lr_hit lr then fall_back bk PGLC_FAST_PATH_FALLBACK_CACHE_STATE ws
        else if lr_negative lr then answer_hit bk output cl None ws
        else case cached_row_json (rd_crc rd) m (take (lr_value_len lr) (lr_value lr)) of
            Some json \<Rightarrow> answer_hit bk output cl (Some json) ws
          | None \<Rightarrow>
            (case run_key bk m canonical (pglc_cache_invalidate_key pr s (shift_obs 80 (rd_obs rd)) mp canonical) ws of
               (Inl e, ws) \<Rightarrow> (Inl e, ws)
             | (Inr _, ws) \<Rightarrow> fall_back bk PGLC_FAST_PATH_FALLBACK_CACHE_STATE ws))"

text \<open>The body of the loop over the mappings, once the prefix of the mapping matches.\<close>

definition fast_mapping ::
  "'d backend \<Rightarrow> 'c reader \<Rightarrow> mem \<Rightarrow> nat \<times> nat \<times> bool \<Rightarrow> 'd worker_mapping \<Rightarrow> nat \<Rightarrow> string \<Rightarrow> 'd worker_state \<Rightarrow> 'd fast_result" where
  "fast_mapping bk rd output cl m prefix_length wire_key ws =
     (let raw_json = drop prefix_length wire_key in
      if \<not> fast_path_mapping_shape_supported m then fall_back bk PGLC_FAST_PATH_FALLBACK_MAPPING_SHAPE ws
      else if length wire_key \<le> prefix_length then fall_back bk PGLC_FAST_PATH_FALLBACK_KEY_FORM ws
      else if length raw_json < 2 \<or> raw_json ! 0 \<noteq> CHR ''{'' \<or> raw_json ! (length raw_json - 1) \<noteq> CHR ''}''
      then fall_back bk PGLC_FAST_PATH_FALLBACK_KEY_FORM ws
      else case pglc_key_scan_json_single raw_json (wm_key_columns m ! 0) (wm_key_types m ! 0) (wm_key_typmods m ! 0) (rd_utf8 rd) PGLC_KEY_MAX of
          None \<Rightarrow> fall_back bk PGLC_FAST_PATH_FALLBACK_KEY_FORM ws
        | Some canonical \<Rightarrow> fast_lookup bk rd output cl m canonical ws)"

fun fast_loop ::
  "'d backend \<Rightarrow> 'c reader \<Rightarrow> mem \<Rightarrow> nat \<times> nat \<times> bool \<Rightarrow> string \<Rightarrow> string \<Rightarrow> 'd worker_mapping list \<Rightarrow> 'd worker_state \<Rightarrow> 'd fast_result" where
  "fast_loop bk rd output cl database wire_key [] ws =
     (let n = length database;
          database_prefix_matches = (5 + n + 1 \<le> length wire_key \<and> take 5 wire_key = ''CRUD:'' \<and>
            take n (drop 5 wire_key) = database \<and> wire_key ! (5 + n) = CHR ''.'')
      in fall_back bk (if database_prefix_matches then PGLC_FAST_PATH_FALLBACK_MAPPING_SHAPE else PGLC_FAST_PATH_FALLBACK_KEY_FORM) ws)"
| "fast_loop bk rd output cl database wire_key (m # rest) ws =
     (let prefix = wire_prefix database m; prefix_length = length prefix
      in if length wire_key < prefix_length then fast_loop bk rd output cl database wire_key rest ws
         else if take prefix_length wire_key \<noteq> prefix then fast_loop bk rd output cl database wire_key rest ws
         else fast_mapping bk rd output cl m prefix_length wire_key ws)"

definition try_fast_mget_hit ::
  "'d backend \<Rightarrow> 'c reader \<Rightarrow> mem \<Rightarrow> nat \<Rightarrow> string list \<Rightarrow> nat \<Rightarrow> session \<Rightarrow> 'd worker_state \<Rightarrow> 'd fast_result" where
  "try_fast_mget_hit bk rd output output_sent argv output_used se ws =
     (if argv = [] \<or> \<not> arg_is bk (argv ! 0) ''MGET'' then (Inr None, ws)
      else if length argv \<noteq> 2 then fall_back bk PGLC_FAST_PATH_FALLBACK_MULTI_KEY ws
      else case bk_database bk of
          None \<Rightarrow> fall_back bk PGLC_FAST_PATH_FALLBACK_CACHE_STATE ws
        | Some database \<Rightarrow>
          if \<not> se_authenticated se \<or> \<not> ws_enabled ws then fall_back bk PGLC_FAST_PATH_FALLBACK_CACHE_STATE ws
          else
            let wire_key = argv ! 1 in
            if length wire_key = 0 \<or> PGLC_REQUEST_MAX \<le> length wire_key \<or> CHR 0x00 \<in> set wire_key
            then fall_back bk PGLC_FAST_PATH_FALLBACK_KEY_FORM ws
            else fast_loop bk rd output (output_sent, output_used, se_retrying_deferred_miss se) database wire_key (ws_mappings ws) ws)"

section \<open>What a hit answers\<close>

definition element :: "string option \<Rightarrow> string" where
  "element json = (case json of None \<Rightarrow> pglc_resp_null | Some json \<Rightarrow> pglc_resp_bulk json)"

lemma write_array_eq:
  "pglc_resp_write_array d cap len n mx =
     (if len + length (array_header n) \<le> min cap mx then (store_bytes d len (array_header n), len + length (array_header n), True)
      else (d, len, False))"
  by (auto simp: pglc_resp_write_array_def Let_def)

lemma write_null_eq:
  "pglc_resp_write_null d cap len mx =
     (if len + length pglc_resp_null \<le> min cap mx then (store_bytes d len pglc_resp_null, len + length pglc_resp_null, True)
      else (d, len, False))"
  by (auto simp: pglc_resp_write_null_def Let_def)

lemma load_stored_pair: "load_bytes (store_bytes (store_bytes d 0 a) (length a) b) 0 (length a + length b) = a @ b"
proof -
  have "load_bytes (store_bytes (store_bytes d 0 a) (length a) b) 0 (length a) = load_bytes (store_bytes d 0 a) 0 (length a)"
    by (rule load_bytes_cong) (simp add: store_bytes_other)
  then show ?thesis by (simp add: load_bytes_append)
qed

lemma write_element_eq:
  "write_element d available json =
     (let r = array_header 1 @ element json in if length r \<le> min available PGLC_RESPONSE_MAX then Some r else None)"
  by (cases json) (auto simp: write_element_def write_array_eq write_null_eq write_bulk_eq element_def Let_def load_stored_pair)

lemma answer_hit_Some:
  assumes "answer_hit bk output (sent, used, retrying) json ws = (Inr (Some r), ws')"
  shows "r = array_header 1 @ element json" "length r \<le> PGLC_RESPONSE_MAX" "used + length r \<le> PGLC_OUTPUT_BUFFER_MAX" "sent = 0"
  using assms by (auto simp: answer_hit_def write_element_eq fall_back_def Let_def split: if_splits)

text \<open>
  \<open>fast_hit\<close>: the lookup of the canonical key is a hit, and \<open>json\<close> is the row it found, decoded; no row for a negative hit.
\<close>

definition fast_hit ::
  "'d backend \<Rightarrow> 'c reader \<Rightarrow> 'd worker_mapping \<Rightarrow> string \<Rightarrow> 'd worker_state \<Rightarrow> lookup_result \<Rightarrow> string option \<Rightarrow> bool" where
  "fast_hit bk rd m canonical ws lr json \<longleftrightarrow>
     fst (run_key bk m canonical (pglc_cache_lookup_quiet (bk_process bk) (bk_settings bk) (rd_obs rd) (rd_fences rd) (rd_nows rd)
       (rd_others rd) (wm_mapping m) canonical PGLC_VALUE_MAX) ws) = Inr lr \<and> lr_hit lr \<and>
     (if lr_negative lr then json = None
      else json \<noteq> None \<and> cached_row_json (rd_crc rd) m (take (lr_value_len lr) (lr_value lr)) = json)"

lemma fall_back_None [simp]: "fst (fall_back bk reason ws) = Inr None" "fall_back bk reason ws \<noteq> (Inr (Some r), ws')" "fall_back bk reason ws \<noteq> (Inl e, ws')"
  by (simp_all add: fall_back_def)

text \<open>\<open>r\<close> is the RESP array with the row that the lookup of the scanned key found, and it fits the output buffer.\<close>

definition fast_answer ::
  "'d backend \<Rightarrow> 'c reader \<Rightarrow> nat \<Rightarrow> nat \<Rightarrow> 'd worker_mapping \<Rightarrow> string \<Rightarrow> 'd worker_state \<Rightarrow> string \<Rightarrow> bool" where
  "fast_answer bk rd sent used m canonical ws r \<longleftrightarrow>
     sent = 0 \<and> length r \<le> PGLC_RESPONSE_MAX \<and> used + length r \<le> PGLC_OUTPUT_BUFFER_MAX \<and>
     (\<exists>lr json. fast_hit bk rd m canonical ws lr json \<and> r = array_header 1 @ element json)"

abbreviation (input) scanned :: "'c reader \<Rightarrow> 'd worker_mapping \<Rightarrow> string \<Rightarrow> string option" where
  "scanned rd m raw \<equiv>
     pglc_key_scan_json_single raw (wm_key_columns m ! 0) (wm_key_types m ! 0) (wm_key_typmods m ! 0) (rd_utf8 rd) PGLC_KEY_MAX"

lemma fast_lookup_Some:
  assumes "fast_lookup bk rd output (sent, used, retrying) m canonical ws = (Inr (Some r), ws')"
  shows "fast_answer bk rd sent used m canonical ws r"
proof -
  let ?look = "run_key bk m canonical (pglc_cache_lookup_quiet (bk_process bk) (bk_settings bk) (rd_obs rd) (rd_fences rd) (rd_nows rd)
       (rd_others rd) (wm_mapping m) canonical PGLC_VALUE_MAX) ws"
  obtain lr ws1 where look: "?look = (Inr lr, ws1)" "lr_hit lr"
    using assms by (auto simp: fast_lookup_def Let_def split: prod.splits sum.splits if_splits)
  obtain json where "answer_hit bk output (sent, used, retrying) json ws1 = (Inr (Some r), ws')" "fast_hit bk rd m canonical ws lr json"
    using assms look by (auto simp: fast_lookup_def fast_hit_def Let_def split: prod.splits sum.splits if_splits option.splits)
  then show ?thesis using answer_hit_Some[of bk "output" sent used retrying json ws1 r ws'] unfolding fast_answer_def by (metis)
qed

text \<open>The mapping and the raw key are those that the general path resolves.\<close>

lemma fast_loop_Some:
  assumes "fast_loop bk rd output (sent, used, retrying) database wire_key ms ws = (Inr (Some r), ws')"
  shows "\<exists>m raw canonical. resolve_loop database wire_key ms = Accepts (m, raw) \<and> m \<in> set ms \<and> fast_path_mapping_shape_supported m \<and>
    scanned rd m raw = Some canonical \<and> fast_answer bk rd sent used m canonical ws r"
  using assms
proof (induction ms)
  case (Cons m ms)
  let ?p = "wire_prefix database m"
  show ?case
  proof (cases "length wire_key < length ?p \<or> take (length ?p) wire_key \<noteq> ?p")
    case True
    then have "fast_loop bk rd output (sent, used, retrying) database wire_key ms ws = (Inr (Some r), ws')"
      using Cons.prems by (auto simp: Let_def split: if_splits)
    from Cons.IH[OF this] True show ?thesis by (auto simp: Let_def)
  next
    case False
    then have f: "fast_mapping bk rd output (sent, used, retrying) m (length ?p) wire_key ws = (Inr (Some r), ws')"
      using Cons.prems by (auto simp: Let_def)
    let ?raw = "drop (length ?p) wire_key"
    obtain canonical where c: "fast_path_mapping_shape_supported m" "length ?p < length wire_key" "?raw ! 0 = CHR ''{''" "?raw ! (length ?raw - 1) = CHR ''}''"
      "2 \<le> length ?raw"
      "pglc_key_scan_json_single ?raw (wm_key_columns m ! 0) (wm_key_types m ! 0) (wm_key_typmods m ! 0) (rd_utf8 rd) PGLC_KEY_MAX = Some canonical"
      "fast_lookup bk rd output (sent, used, retrying) m canonical ws = (Inr (Some r), ws')"
      using f by (auto simp: fast_mapping_def Let_def split: if_splits option.splits)
    then have "resolve_loop database wire_key (m # ms) = Accepts (m, ?raw)" using False by (auto simp: Let_def)
    then show ?thesis using fast_lookup_Some[OF c(7)] c(1,6) by auto
  qed
qed (simp add: Let_def)

lemma fast_path_Some:
  assumes "try_fast_mget_hit bk rd output sent argv used se ws = (Inr (Some r), ws')"
  shows "se_authenticated se" "ws_enabled ws" "length argv = 2" "arg_is bk (argv ! 0) ''MGET''"
    "\<exists>m raw canonical. (bk_verifymbstr bk (argv ! 1) = None \<longrightarrow> resolve_wire_key bk (ws_mappings ws) (argv ! 1) = Accepts (m, raw)) \<and>
       m \<in> set (ws_mappings ws) \<and> fast_path_mapping_shape_supported m \<and> scanned rd m raw = Some canonical \<and> fast_answer bk rd sent used m canonical ws r"
proof -
  obtain database where db: "bk_database bk = Some database" and key: "argv ! 1 \<noteq> []" "length (argv ! 1) < PGLC_REQUEST_MAX" "CHR 0x00 \<notin> set (argv ! 1)"
    and loop: "fast_loop bk rd output (sent, used, se_retrying_deferred_miss se) database (argv ! 1) (ws_mappings ws) ws = (Inr (Some r), ws')"
    and basic: "se_authenticated se" "ws_enabled ws" "length argv = 2" "arg_is bk (argv ! 0) ''MGET''"
    using assms by (auto simp: try_fast_mget_hit_def Let_def split: if_splits option.splits)
  show "se_authenticated se" "ws_enabled ws" "length argv = 2" "arg_is bk (argv ! 0) ''MGET''" by fact+
  from fast_loop_Some[OF loop] obtain m raw canonical where m: "resolve_loop database (argv ! 1) (ws_mappings ws) = Accepts (m, raw)"
    "m \<in> set (ws_mappings ws)" "fast_path_mapping_shape_supported m" "scanned rd m raw = Some canonical" "fast_answer bk rd sent used m canonical ws r" by blast
  have "take 5 (argv ! 1) = ''CRUD:''" "5 < length (argv ! 1)"
    using resolve_accepts[OF m(1)] by (simp_all add: wire_prefix_def)
  then have "bk_verifymbstr bk (argv ! 1) = None \<longrightarrow> resolve_wire_key bk (ws_mappings ws) (argv ! 1) = Accepts (m, raw)"
    using m(1) db key by (auto simp: resolve_wire_key_def database_name_def)
  then show "\<exists>m raw canonical. (bk_verifymbstr bk (argv ! 1) = None \<longrightarrow> resolve_wire_key bk (ws_mappings ws) (argv ! 1) = Accepts (m, raw)) \<and>
       m \<in> set (ws_mappings ws) \<and> fast_path_mapping_shape_supported m \<and> scanned rd m raw = Some canonical \<and> fast_answer bk rd sent used m canonical ws r"
    using m by metis
qed

end
