(* ===== verification/Frontend.thy ===== *)
theory Frontend
  imports FastPath Coherence
begin

text \<open>
  The RESP front end as a whole: the connection of \<open>Connection\<close> served by the commands of
  \<open>Commands\<close> and the fast path of \<open>FastPath\<close>, over the shared cache of \<open>Coherence\<close>.
\<close>

section \<open>The server behind a connection\<close>

text \<open>
  \<open>process_client\<close> runs the fast path only when nothing is unsent, so \<open>output_sent\<close> is 0 there. What
  the lookup sees of other processes may differ from request to request.
\<close>

definition worker_server ::
  "'d backend \<Rightarrow> (string list \<Rightarrow> 'd worker_state \<Rightarrow> 'c reader) \<Rightarrow> mem \<Rightarrow> nat \<Rightarrow> ('d worker_state \<Rightarrow> 'd worker_state) \<Rightarrow>
   ('d worker_state \<Rightarrow> 'd worker_state) \<Rightarrow> ('d worker_state \<Rightarrow> 'd worker_state) \<Rightarrow> 'd worker_state server" where
  "worker_server bk rd output max_pipeline reload config abrt =
     \<lparr>sv_max_pipeline_commands = max_pipeline, sv_worker_slot = bk_worker_slot bk, sv_maybe_reload_mappings = reload,
      sv_process_config_reload = config,
      sv_fast = (\<lambda>argv used se ws. try_fast_mget_hit bk (rd argv ws) output 0 argv used se ws),
      sv_execute = execute_command bk abrt\<rparr>"

lemma run_key_mappings: "run_key bk m k f ws = (x, ws') \<Longrightarrow> ws_mappings ws' = ws_mappings ws"
  by (auto simp: run_key_def split: prod.splits)

lemma fall_back_mappings: "fall_back bk r ws = (x, ws') \<Longrightarrow> ws_mappings ws' = ws_mappings ws"
  by (auto simp: fall_back_def)

lemma answer_hit_mappings: "answer_hit bk out cl json ws = (x, ws') \<Longrightarrow> ws_mappings ws' = ws_mappings ws"
  by (auto simp: answer_hit_def fall_back_def split: prod.splits if_splits option.splits)

lemma fast_lookup_mappings: "fast_lookup bk rd out cl m k ws = (x, ws') \<Longrightarrow> ws_mappings ws' = ws_mappings ws"
  by (auto simp: fast_lookup_def Let_def split: prod.splits sum.splits if_splits option.splits
      dest!: run_key_mappings fall_back_mappings answer_hit_mappings)

lemma fast_path_mappings: "try_fast_mget_hit bk rd out sent argv used se ws = (x, ws') \<Longrightarrow> ws_mappings ws' = ws_mappings ws"
proof -
  have m: "fast_mapping bk rd out cl m n key ws = (x, ws') \<Longrightarrow> ws_mappings ws' = ws_mappings ws" for cl m n key
    by (auto simp: fast_mapping_def Let_def split: if_splits option.splits dest: fall_back_mappings fast_lookup_mappings)
  have "fast_loop bk rd out cl db key ms ws = (x, ws') \<Longrightarrow> ws_mappings ws' = ws_mappings ws" for cl db key ms
    by (induction ms) (auto simp: Let_def split: if_splits dest: fall_back_mappings m)
  then show "try_fast_mget_hit bk rd out sent argv used se ws = (x, ws') \<Longrightarrow> ws_mappings ws' = ws_mappings ws"
    by (auto simp: try_fast_mget_hit_def Let_def split: if_splits option.splits dest: fall_back_mappings)
qed

lemma worker_server_ok:
  assumes "backend_ok bk" "0 < n" "\<And>w. ws_mappings (abrt w) = ws_mappings w"
    "\<And>w. mappings_fit w \<Longrightarrow> mappings_fit (reload w)" "\<And>w. mappings_fit w \<Longrightarrow> mappings_fit (config w)"
  shows "server_ok (worker_server bk rd out n reload config abrt) mappings_fit"
proof -
  have keep: "ws_mappings w' = ws_mappings w \<Longrightarrow> mappings_fit w \<Longrightarrow> mappings_fit w'" for w w' by (simp add: mappings_fit_def)
  have ex: "case x of None \<Rightarrow> se_deferred_miss se' \<noteq> None | Some r \<Rightarrow> length r \<le> PGLC_RESPONSE_MAX" if "replies_ok (Inr x) se'" for x :: "string option" and se'
    using that by (cases x) (simp_all add: replies_ok_def)
  show ?thesis unfolding server_ok_def worker_server_def server.simps
  proof (intro conjI allI impI)
    fix argv u se w x w' assume w: "mappings_fit w" and f: "try_fast_mget_hit bk (rd argv w) out 0 argv u se w = (x, w')"
    show "mappings_fit w'" by (rule keep[OF fast_path_mappings[OF f] w])
    fix r assume "x = Inr (Some r)"
    then show "length r \<le> PGLC_RESPONSE_MAX" using fast_path_Some(5)[OF f[unfolded \<open>x = _\<close>]] by (auto simp: fast_answer_def)
  next
    fix argv k se w x b se' w' assume w: "mappings_fit w" and f: "execute_command bk abrt argv k se w = (x, b, se', w')"
    note e = execute_command_fits[OF assms(1) w assms(3) f]
    show "mappings_fit w'" by (rule keep[OF e(1) w])
    show "case x of None \<Rightarrow> se_deferred_miss se' \<noteq> None | Some r \<Rightarrow> length r \<le> PGLC_RESPONSE_MAX" by (rule ex[OF e(2)])
  qed (use assms in auto)
qed

section \<open>Authentication\<close>

definition presented :: "'d backend \<Rightarrow> char list \<Rightarrow> bool" where
  "presented bk bs \<longleftrightarrow> (\<exists>k args n. pglc_resp_parse (drop k bs) = Complete (args, n) \<and> presents_token bk (map (arg_bytes (drop k bs)) args))"

lemma presentedI: "pglc_resp_parse bs = Complete (args, n) \<Longrightarrow> presents_token bk (map (arg_bytes bs) args) \<Longrightarrow> presented bk bs"
  unfolding presented_def by (intro exI[of _ 0]) auto

lemma presented_drop: "presented bk (drop n bs) \<Longrightarrow> presented bk bs"
  unfolding presented_def by (metis drop_drop)

lemma settle_retry_auth [simp]: "se_authenticated (settle_retry se) = se_authenticated se"
  by (simp add: settle_retry_def)

lemma answers_unauthenticated:
  assumes "answers (worker_server bk rd out k reload config abrt) x bs y res rest" "\<not> se_authenticated (fst x)"
  shows "presented bk bs \<or> \<not> se_authenticated (fst y) \<and> (\<exists>ms. res = concat (map pglc_resp_error ms))"
  using assms
proof (induction rule: answers.induct)
  case (answers_nil x bs)
  then show ?case by (auto intro: exI[of _ "[]"])
next
  case (answers_fast bs args n u se w r w1 y res rest)
  then show ?case using fast_path_Some(1) by (fastforce simp: worker_server_def)
next
  case (answers_slow bs args n u se w w1 r se2 w2 y res rest)
  note e = answers_slow(3)[unfolded worker_server_def, simplified]
  show ?case
  proof (cases "presents_token bk (map (arg_bytes bs) args)")
    case True
    then show ?thesis using presentedI[OF answers_slow(1)] by blast
  next
    case False
    note u = unauthenticated_command[OF _ e False] 
    obtain m where m: "r = pglc_resp_error m" using u(2) answers_slow(6) by auto
    from answers_slow(5) u(1) answers_slow(6) consider "presented bk (drop n bs)"
      | ms where "\<not> se_authenticated (fst y)" "res = concat (map pglc_resp_error ms)" by auto
    then show ?thesis
    proof cases
      case 1
      then show ?thesis using presented_drop by blast
    next
      case 2
      then show ?thesis using m by (auto intro: exI[of _ "m # ms"])
    qed
  qed
next
  case (answers_defer bs args n u se w w1 b se2 w2 y res rest)
  note e = answers_defer(3)[unfolded worker_server_def, simplified]
  show ?case using presentedI[OF answers_defer(1)] unauthenticated_command(2)[OF _ e] answers_defer(7) by auto
next
  case (answers_close bs args n u se w w1 r se2 w2)
  note e = answers_close(3)[unfolded worker_server_def, simplified]
  show ?case using presentedI[OF answers_close(1)] unauthenticated_command(1,2)[OF _ e] answers_close(4)
    by (cases "presents_token bk (map (arg_bytes bs) args)") (auto intro: exI[of _ "[_]"])
next
  case (answers_malformed bs m se w)
  then show ?case by (auto intro: exI[of _ "[m]"])
qed auto

text \<open>C3: A client that does not present the token gets nothing but error lines. In a turn of a connection that is not
  authenticated, whatever the pending and the received bytes are, and however the cache is filled: unless some request in them
  is an \<open>AUTH\<close> command with the configured token (and the configured user, if it names one), the connection stays
  unauthenticated and the bytes appended to its output are a sequence of RESP error lines. The fast path is covered.\<close>

theorem unauthenticated_gets_errors:
  assumes "backend_ok bk" "0 < n" "\<And>w. ws_mappings (abrt w) = ws_mappings w" "\<And>w. mappings_fit w \<Longrightarrow> mappings_fit (reload w)"
    "\<And>w. mappings_fit w \<Longrightarrow> mappings_fit (config w)" "mappings_fit ws" "conn_ok c" "cl_output c = []" "Recv_Error \<notin> set socket"
    and "\<not> se_authenticated (cl_session c)"
    and "process_client (worker_server bk rd out n reload config abrt) socket (c, ws, st) = (Return b (c', ws', st'), socket')"
  shows "\<exists>r. socket_bytes socket = r @ socket_bytes socket' \<and>
    (presented bk (pending c @ r) \<or> \<not> se_authenticated (cl_session c') \<and> (\<exists>ms. cl_output c' = concat (map pglc_resp_error ms)))"
proof -
  let ?sv = "worker_server bk rd out n reload config abrt"
  have ok: "server_ok ?sv mappings_fit" by (rule worker_server_ok[OF assms(1-5)])
  from turn_holds[OF ok assms(7-9) assms(6), of st] obtain r res rest where r: "socket_bytes socket = r @ socket_bytes socket'"
    and a: "answers ?sv (cl_session c, ws) (pending c @ r) (cl_session c', ws') res rest" "cl_output c' = res"
    unfolding assms(11) by (auto simp: turn_ok_def turned_def)
  show ?thesis using answers_unauthenticated[OF a(1)] assms(10) r a(2) by auto
qed

definition demo_backend :: "nat backend" where
  "demo_backend = \<lparr>bk_process = demo_process, bk_settings = demo_settings, bk_worker_slot = 0, bk_proc_pid = 77, bk_database = Some ''d'',
     bk_role = None, bk_auth_token = ''sesame'',
     bk_pg_types = \<lparr>DatumGetInt16 = int, DatumGetInt32 = int, DatumGetInt64 = int, pg_ltoa = render_integer, pg_lltoa = render_integer, F_BPCHAROUT = 1045\<rparr>,
     bk_strncasecmp = (=), bk_verifymbstr = (\<lambda>_. None), bk_jsonb_in = (\<lambda>_. Inr JOther), bk_errmsg = (\<lambda>_. ''error''), bk_stats_json = (\<lambda>_. ''{}''),
     bk_obs = (\<lambda>_ _ _. demo_tagged), bk_command_set = (\<lambda>m k v ws. (Inr (pglc_resp_simple ''OK''), ws)),
     bk_command_delete = (\<lambda>m k ws. (Inr (pglc_resp_integer 0), ws)), bk_command_mget = (\<lambda>argv n se ws. (Inr (Some (array_header 0)), se, ws))\<rparr>"

definition demo_state :: "nat worker_mapping list \<Rightarrow> partition list \<Rightarrow> globals \<Rightarrow> nat worker_state" where
  "demo_state ms parts gl = \<lparr>ws_publication = \<lparr>pb_shared = \<lparr>sh_partitions = parts, sh_globals = gl, sh_fences = demo_tagged, sh_registry = demo_registry\<rparr>,
     pb_local = no_dirty\<rparr>, ws_mappings = ms, ws_enabled = True\<rparr>"

definition demo_reader :: "observations \<Rightarrow> partition \<times> globals \<Rightarrow> nat reader" where
  "demo_reader obs others = \<lparr>rd_obs = obs, rd_fences = demo_tagged, rd_nows = (\<lambda>_. 0), rd_others = (\<lambda>_. others), rd_crc = demo_crc, rd_utf8 = True\<rparr>"

definition stranger :: client where
  "stranger = (new_client (one_argument CHR ''A''))\<lparr>cl_session := new_session\<lparr>se_authenticated := False\<rparr>\<rparr>"

definition closed_server :: "nat worker_state server" where
  "closed_server = worker_server (demo_backend\<lparr>bk_database := None\<rparr>) (\<lambda>_ _. demo_reader (\<lambda>_. demo_tagged) (demo_partition, start_globals))
     (\<lambda>_. CHR 0x00) 2 (\<lambda>w. w) (\<lambda>w. w) (\<lambda>w. w)"

lemma demo_backend_ok: "backend_ok (demo_backend\<lparr>bk_database := db\<rparr>)"
  using fixed_responses_fit(5) integer_fits[of 0]
  by (auto simp: backend_ok_def demo_backend_def array_header_def length_write_decimal[of 0 1, THEN order_trans])

theorem unauthenticated_gets_errors_witness:
  "\<exists>c' ws' st' r socket'. process_client closed_server [Received (one_argument CHR ''B'')] (stranger, demo_state [] [] start_globals, demo_stats)
       = (Return True (c', ws', st'), socket') \<and> one_argument CHR ''B'' = r @ socket_bytes socket' \<and>
     (presented (demo_backend\<lparr>bk_database := None\<rparr>) (pending stranger @ r) \<or> \<not> se_authenticated (cl_session c') \<and> (\<exists>ms. cl_output c' = concat (map pglc_resp_error ms)))"
proof -
  let ?bk = "demo_backend\<lparr>bk_database := None\<rparr>" and ?s = "[Received (one_argument CHR ''B'')]" and ?ws = "demo_state [] [] start_globals"
  have fits: "mappings_fit ?ws" by (simp add: mappings_fit_def demo_state_def)
  have c: "conn_ok stranger" "cl_output stranger = []" "Recv_Error \<notin> set ?s" "\<not> se_authenticated (cl_session stranger)"
    by (simp_all add: stranger_def new_client_def one_argument_def conn_ok_def)
  have sv: "server_ok closed_server mappings_fit" unfolding closed_server_def by (rule worker_server_ok[OF demo_backend_ok]) auto
  have "\<not> isl (fst (sv_fast closed_server argv u se w))" for argv u se w
    by (simp add: closed_server_def worker_server_def try_fast_mget_hit_def demo_backend_def)
  then have "fst (process_client closed_server ?s (stranger, ?ws, demo_stats)) \<noteq> Cache_Error x" for x by (rule process_client_cache_error)
  with turn_holds[OF sv c(1-3) fits, of demo_stats] obtain c' ws' st' socket' where
    p: "process_client closed_server ?s (stranger, ?ws, demo_stats) = (Return True (c', ws', st'), socket')"
    by (cases "process_client closed_server ?s (stranger, ?ws, demo_stats)") (auto simp: turn_ok_def)
  have "\<exists>r. socket_bytes ?s = r @ socket_bytes socket' \<and>
      (presented ?bk (pending stranger @ r) \<or> \<not> se_authenticated (cl_session c') \<and> (\<exists>ms. cl_output c' = concat (map pglc_resp_error ms)))"
    by (rule unauthenticated_gets_errors[OF demo_backend_ok _ _ _ _ fits c p[unfolded closed_server_def]]) auto
  then show ?thesis using p by auto
qed

section \<open>Rows on the wire\<close>

text \<open>A locked lookup makes its fence reads at most at the first thirty moments.\<close>

lemma snapshot_cong: "(\<And>j. j < 13 \<Longrightarrow> obs j = obs' j) \<Longrightarrow> read_fence_snapshot s obs mp e = read_fence_snapshot s obs' mp e"
  by (simp add: read_fence_snapshot_def Let_def)

lemma lookup_cong:
  assumes "\<And>j. j < 30 \<Longrightarrow> obs j = obs' j"
  shows "cache_lookup_locked pr s obs fs nows mp key cap create pt gl = cache_lookup_locked pr s obs' fs nows mp key cap create pt gl"
proof -
  have a: "read_fence_snapshot s obs mp e = read_fence_snapshot s obs' mp e" for e by (rule snapshot_cong) (simp add: assms)
  have b: "cache_entry_is_current_slot_locked s (shift_obs 13 obs) e = cache_entry_is_current_slot_locked s (shift_obs 13 obs') e" for e
    by (simp add: cache_entry_is_current_slot_locked_def shift_obs_def assms)
  have c: "read_fence_snapshot s (shift_obs 17 obs) mp e = read_fence_snapshot s (shift_obs 17 obs') mp e" for e
    by (rule snapshot_cong) (simp add: shift_obs_def assms)
  show ?thesis unfolding cache_lookup_locked_def a b copy_value_def c ..
qed

text \<open>The fence reads of a lookup that may take the lock twice: the first section passes \<open>tr\<close>, the second \<open>tr'\<close>.\<close>

definition sections :: "(nat \<Rightarrow> system) \<Rightarrow> (nat \<Rightarrow> system) \<Rightarrow> observations" where
  "sections tr tr' j = (if j < 30 then watched tr j else watched tr' (j - 30))"

lemma lookup_well_formed:
  assumes "reachable hf s st" "pglc_cache_entries s < 2 ^ 32" "passes s st tr" "hashes hf pr mp key"
    "cache_lookup_locked pr s (watched tr) fs nows mp key cap create (sy_part st) (sy_globals (tr 40)) = (Inr lr, pt, gl)"
  shows "\<not> lr_malformed lr"
proof -
  have c: "coherent hf s st" by (rule reachable_coherent[OF assms(1,2)])
  note P = passes_end[OF assms(3) c]
  obtain rest where rest: "counted rest (sy_part st) (sy_globals (tr 40))" using coherentD(3)[OF P(1)[of 40]] P(2)[of 40] by auto
  note ok = coherentD(2)[OF c]
  from lookup_spec[OF cache_okD(1)[OF ok] assms(4) rest assms(2) cache_okD(2)[OF ok] assms(5)] show ?thesis by simp
qed

lemma quiet_hit_current:
  assumes r: "reachable hf s st" "reachable hf s st'" and e: "pglc_cache_entries s < 2 ^ 32" and p: "passes s st tr" "passes s st' tr'"
    and h: "hashes hf pr mp key" and g: "mp_relation_slot_generation mp \<le> sy_published st (mp_relation_slot mp)"
      "mp_relation_slot_generation mp \<le> sy_published st' (mp_relation_slot mp)"
    and run: "pglc_cache_lookup_quiet pr s (sections tr tr') fs nows (\<lambda>_. (sy_part st', sy_globals (tr' 40))) mp key cap (sy_part st) (sy_globals (tr 40)) =
      (Inr lr, pt, gl)" and hit: "lr_hit lr"
  shows "\<exists>u \<in> {tr 16, tr' 16}. found lr = sy_db u (mapped pr mp key)" "\<not> lr_negative lr \<Longrightarrow> lr_value_len lr = length (lr_value lr)"
proof -
  have one: "cache_lookup_locked pr s (sections tr tr') fs nows mp key cap create pt gl = cache_lookup_locked pr s (watched tr) fs nows mp key cap create pt gl"
    for create pt gl by (rule lookup_cong) (simp add: sections_def)
  have two: "shift_obs 30 (sections tr tr') = watched tr'" by (simp add: fun_eq_iff shift_obs_def sections_def)
  obtain x pt1 gl1 where l: "cache_lookup_locked pr s (watched tr) fs nows mp key cap False (sy_part st) (sy_globals (tr 40)) = (x, pt1, gl1)"
    using prod_cases3 by blast
  obtain lr1 where x: "x = Inr lr1" using run l by (cases x) (auto simp: pglc_cache_lookup_quiet_def pglc_cache_lookup_internal_def one)
  note l = l[unfolded x]
  have m: "\<not> lr_malformed lr1" by (rule lookup_well_formed[OF r(1) e p(1) h l])
  have "(\<exists>u \<in> {tr 16, tr' 16}. found lr = sy_db u (mapped pr mp key)) \<and> (\<not> lr_negative lr \<longrightarrow> lr_value_len lr = length (lr_value lr))"
  proof (cases "lr_complete lr1")
    case True
    then have "lr = lr1" using run l m by (simp add: pglc_cache_lookup_quiet_def pglc_cache_lookup_internal_def one)
    then show ?thesis using hit_current(1,2)[OF r(1) e p(1) h g(1) l] hit by auto
  next
    case False
    obtain y pt2 gl2 where l2: "cache_lookup_locked pr s (watched tr') fs nows mp key cap True (sy_part st') (sy_globals (tr' 40)) = (y, pt2, gl2)"
      using prod_cases3 by blast
    have y: "y = Inr lr" using run l m False l2 by (cases y) (auto simp: pglc_cache_lookup_quiet_def pglc_cache_lookup_internal_def one two)
    show ?thesis using hit_current(1,2)[OF r(2) e p(2) h g(2) l2[unfolded y]] hit by auto
  qed
  then show "\<exists>u \<in> {tr 16, tr' 16}. found lr = sy_db u (mapped pr mp key)" "\<not> lr_negative lr \<Longrightarrow> lr_value_len lr = length (lr_value lr)" by auto
qed

text \<open>
  The worker state shows the system: the partition and the counters of the key are those of \<open>st\<close> when its lock is taken,
  and if the lookup takes the lock again they are those of \<open>st'\<close>; fences are read as they move along \<open>tr\<close> and \<open>tr'\<close>.
\<close>

definition shows_system ::
  "'d backend \<Rightarrow> 'c reader \<Rightarrow> 'd worker_mapping \<Rightarrow> string \<Rightarrow> 'd worker_state \<Rightarrow> (ident \<Rightarrow> nat) \<Rightarrow> (nat \<Rightarrow> system) \<Rightarrow> (nat \<Rightarrow> system) \<Rightarrow> bool" where
  "shows_system bk rd m key ws hf tr tr' \<longleftrightarrow>
     (let pr = bk_process bk; s = bk_settings bk; mp = wm_mapping m; sh = pb_shared (ws_publication ws) in
      reachable hf s (tr 0) \<and> reachable hf s (tr' 0) \<and> passes s (tr 0) tr \<and> passes s (tr' 0) tr' \<and> pglc_cache_entries s < 2 ^ 32 \<and> hashes hf pr mp key \<and>
      mp_relation_slot_generation mp \<le> sy_published (tr 0) (mp_relation_slot mp) \<and> mp_relation_slot_generation mp \<le> sy_published (tr' 0) (mp_relation_slot mp) \<and>
      rd_obs rd = sections tr tr' \<and> rd_others rd = (\<lambda>_. (sy_part (tr' 0), sy_globals (tr' 40))) \<and>
      sh_partitions sh ! cache_partition_for pr s (my_database_id pr) (mp_nspace mp) key = sy_part (tr 0) \<and> sh_globals sh = sy_globals (tr 40))"

text \<open>The row as the client sees it: the JSON of the stored payload, null if there is no row.\<close>

definition row_on_wire :: "'c crc32c \<Rightarrow> 'd worker_mapping \<Rightarrow> string option \<Rightarrow> string \<Rightarrow> bool" where
  "row_on_wire crc m payload r \<longleftrightarrow> (case payload of
      None \<Rightarrow> r = array_header 1 @ pglc_resp_null
    | Some p \<Rightarrow> (\<exists>json. cached_row_json crc m p = Some json \<and> r = array_header 1 @ pglc_resp_bulk json))"

lemma fast_hit_current:
  assumes "shows_system bk rd m key ws hf tr tr'" "fast_hit bk rd m key ws lr json"
  shows "\<exists>u \<in> {tr 16, tr' 16}. row_on_wire (rd_crc rd) m (sy_db u (mapped (bk_process bk) (wm_mapping m) key)) (array_header 1 @ element json)"
proof -
  note S = assms(1)[unfolded shows_system_def Let_def]
  obtain pt gl where q: "pglc_cache_lookup_quiet (bk_process bk) (bk_settings bk) (sections tr tr') (rd_fences rd) (rd_nows rd)
      (\<lambda>_. (sy_part (tr' 0), sy_globals (tr' 40))) (wm_mapping m) key PGLC_VALUE_MAX (sy_part (tr 0)) (sy_globals (tr 40)) = (Inr lr, pt, gl)"
    and hit: "lr_hit lr" and json: "if lr_negative lr then json = None else json \<noteq> None \<and> cached_row_json (rd_crc rd) m (take (lr_value_len lr) (lr_value lr)) = json"
    using assms(2) S by (auto simp: fast_hit_def run_key_def key_step_def Let_def split: prod.splits)
  note Q = quiet_hit_current[of hf "bk_settings bk" "tr 0" "tr' 0" tr tr' "bk_process bk" "wm_mapping m" key, OF _ _ _ _ _ _ _ _ q hit]
  have len: "\<not> lr_negative lr \<Longrightarrow> lr_value_len lr = length (lr_value lr)" using Q S by simp
  obtain u where u: "u \<in> {tr 16, tr' 16}" "sy_db u (mapped (bk_process bk) (wm_mapping m) key) = found lr" using Q(1) S by metis
  have "row_on_wire (rd_crc rd) m (found lr) (array_header 1 @ element json)"
    using json len by (cases "lr_negative lr") (auto simp: found_def row_on_wire_def element_def)
  then show ?thesis using u by metis
qed

text \<open>C2: What the fast path puts on the wire is a row of the database. When \<open>MGET\<close> of one key is answered by the fast path, the
  response is the RESP array holding the JSON of the row, or null if there is no row, that the database held for exactly that
  key of exactly the mapping that the general path resolves, at a moment inside the lookup; this holds in every state of the
  shared cache that readers, loaders and writers can reach, while the fences move during the lookup.\<close>

theorem served_row_current:
  assumes "try_fast_mget_hit bk rd out sent argv used se ws = (Inr (Some r), ws')"
    and "resolve_wire_key bk (ws_mappings ws) (argv ! 1) = Accepts (m, raw)" "scanned rd m raw = Some key"
    and "shows_system bk rd m key ws hf tr tr'"
  shows "row_on_wire (rd_crc rd) m (sy_db (tr 16) (mapped (bk_process bk) (wm_mapping m) key)) r \<or>
    row_on_wire (rd_crc rd) m (sy_db (tr' 16) (mapped (bk_process bk) (wm_mapping m) key)) r"
proof -
  have "bk_verifymbstr bk (argv ! 1) = None" using assms(2) by (auto simp: resolve_wire_key_def split: if_splits option.splits)
  with fast_path_Some(5)[OF assms(1)] assms(2,3) have "fast_answer bk rd sent used m key ws r" by auto
  then obtain lr json where "fast_hit bk rd m key ws lr json" "r = array_header 1 @ element json" by (auto simp: fast_answer_def)
  then show ?thesis using fast_hit_current[OF assms(4)] by auto
qed

definition row_mapping :: "nat worker_mapping" where
  "row_mapping = \<lparr>wm_mapping = demo_map, wm_schema_name = ''s'', wm_relation_name = ''r'', wm_key_columns = [''a''], wm_key_count = 1,
     wm_key_types = [PGLC_KEY_SCAN_INT4OID], wm_key_ioparams = [0], wm_key_typmods = [-1], wm_key_inputs = [], wm_key_outputs = [],
     wm_tdtypeid = 16384, wm_tdtypmod = -1, wm_natts = 3, wm_row_descriptor_fingerprint = 77\<rparr>"

definition demo_json :: string where
  "demo_json = ''{'' @ [CHR 0x22] @ ''a'' @ [CHR 0x22] @ '':7}''"

definition demo_row :: string where
  "demo_row = the (pglc_row_payload_encode demo_crc 16384 (-1) 3 77 ''{}'' 8192)"

lemma demo_row_decodes: "length demo_row = 38" "cached_row_json demo_crc row_mapping demo_row = Some ''{}''"
proof -
  have meta: "row_meta_ok 16384 (-1) 3 77" by (simp add: row_meta_ok_def)
  have crc: "FIN_CRC32C demo_crc c < 4294967296" for c by (simp add: demo_crc_def)
  have p: "pglc_row_payload_encode demo_crc 16384 (-1) 3 77 ''{}'' PGLC_VALUE_MAX = Some demo_row"
    by (simp add: demo_row_def pglc_row_payload_encode_def Let_def)
  from p[unfolded encode_iff[OF meta]] have "demo_row = row_header 16384 (-1) 3 77 (length ''{}'') @ pglc_row_put_u32 (pglc_row_payload_checksum demo_crc demo_row) @ ''{}''"
    by blast
  from arg_cong[OF this, of length] show "length demo_row = 38" by simp
  show "cached_row_json demo_crc row_mapping demo_row = Some ''{}''"
    using payload_iff[OF meta crc, of demo_row "''{}''"] p by (simp add: cached_row_json_def row_mapping_def)
qed

lemma demo_scanned: "scanned (demo_reader obs x) row_mapping demo_json = Some ''1:7;''"
proof -
  have "single_object demo_json ''a'' ''7''"
    unfolding single_object_def demo_json_def by (intro exI[of _ "[]"]) simp
  moreover have "value_text 23 True ''7'' ''7''"
    using render_integer_7 by (auto simp: value_text_def is_integer_type_def integer_in_range_def integer_limit_def intro!: exI[of _ 7])
  ultimately have "pglc_key_scan_json_single demo_json ''a'' 23 (-1) True 1024 = Some ''1:7;''"
    using scan_complete[of demo_json "''a''" "''7''" 23 True "''7''" "-1" 1024] write_component_7
    by (simp add: plain_column_def scan_type_supported_def)
  then show ?thesis by (simp add: demo_reader_def row_mapping_def)
qed

lemma demo_resolves:
  "resolve_wire_key demo_backend [row_mapping] (''CRUD:d.s.r:'' @ demo_json) = Accepts (row_mapping, demo_json)"
  by (simp add: resolve_wire_key_def demo_backend_def row_mapping_def demo_json_def wire_prefix_def database_name_def Let_def)

lemma demo_ready_key:
  assumes "length key < 1024"
  shows "ready demo_hash demo_process demo_settings demo_tagged demo_map key 0 demo_partition start_globals"
    "admissible demo_settings (key_query demo_hash demo_process demo_map key demo_partition) demo_partition start_globals"
proof -
  have "hashes demo_hash demo_process demo_map key" using assms by (simp add: hashes_def demo_hash_def mapped_def demo_map_def demo_mapping_def)
  then show "ready demo_hash demo_process demo_settings demo_tagged demo_map key 0 demo_partition start_globals"
    using demo_ready(1) assms by (simp add: ready_def)
  show "admissible demo_settings (key_query demo_hash demo_process demo_map key demo_partition) demo_partition start_globals"
    by (rule fresh_admissible[OF demo_init(1)]) (use assms in \<open>simp_all add: start_globals_def demo_fields\<close>)
qed

definition row_system :: system where
  "row_system = demo_system\<lparr>sy_db := (\<lambda>_. Some demo_row)\<rparr>"

lemma row_starts: "starts demo_hash demo_settings row_system"
  using demo_starts by (simp add: starts_def row_system_def)

theorem served_row_current_witness:
  "\<exists>st ws ws' r. reachable demo_hash demo_settings st \<and>
     try_fast_mget_hit demo_backend (demo_reader (sections (\<lambda>_. st) (\<lambda>_. st)) (sy_part st, sy_globals st)) (\<lambda>_. CHR 0x00) 0
       [''MGET'', ''CRUD:d.s.r:'' @ demo_json] 0 new_session ws = (Inr (Some r), ws') \<and>
     row_on_wire demo_crc row_mapping (sy_db st (mapped demo_process demo_map ''1:7;'')) r"
proof -
  have f: "sy_part row_system = demo_partition" "sy_globals row_system = start_globals" "sy_fences row_system = demo_tagged"
    "sy_published row_system = (\<lambda>k. rs_generation (slot_at demo_tagged k))" "sy_db row_system = (\<lambda>_. Some demo_row)"
    by (simp_all add: row_system_def demo_system_def)
  have pub: "mp_relation_slot_generation demo_map \<le> sy_published row_system (mp_relation_slot demo_map)"
    by (simp add: f demo_map_def demo_mapping_def demo_tagged_def)
  have len: "length ''1:7;'' < (1024 :: nat)" by simp
  obtain st lr pt gl where st: "reachable demo_hash demo_settings st" "sy_fences st = sy_fences row_system" "sy_published st = sy_published row_system"
    "cache_lookup_locked demo_process demo_settings (\<lambda>_. sy_fences st) demo_tagged (\<lambda>_. 0) demo_map ''1:7;'' PGLC_VALUE_MAX False (sy_part st) (sy_globals st) = (Inr lr, pt, gl)" "lr_hit lr"
    "sy_db st = sy_db row_system"
    by (rule served_reachable[OF reachable.init[OF row_starts], of demo_process demo_map "''1:7;''" 0 demo_row PGLC_VALUE_MAX demo_tagged "\<lambda>_. 0"])
      (use demo_ready_key[OF len] untouched_empty(5)[OF demo_init(3)] f pub demo_row_decodes(1) in simp_all)
  let ?tr = "\<lambda>_ :: nat. st" and ?k = "cache_partition_for demo_process demo_settings 5 ''t'' ''1:7;''"
  define ws where "ws = demo_state [row_mapping] (replicate (Suc ?k) (sy_part st)) (sy_globals st)"
  define rd where "rd = demo_reader (sections ?tr ?tr) (sy_part st, sy_globals st)"
  have R: "hashes demo_hash demo_process demo_map ''1:7;''" "pglc_cache_entries demo_settings < 2 ^ 32"
    using demo_ready_key(1)[OF len] by (simp_all add: ready_def)
  have still: "sections ?tr ?tr = (\<lambda>_. sy_fences st)" by (simp add: sections_def watched_def fun_eq_iff)
  have k: "cache_partition_for demo_process demo_settings (my_database_id demo_process) (mp_nspace demo_map) ''1:7;'' = ?k"
    by (simp add: demo_process_def demo_map_def demo_mapping_def)
  have bk: "bk_process demo_backend = demo_process" "bk_settings demo_backend = demo_settings" "wm_mapping row_mapping = demo_map"
    by (simp_all add: demo_backend_def row_mapping_def)
  have part: "sh_partitions (pb_shared (ws_publication ws)) ! ?k = sy_part st" "sh_globals (pb_shared (ws_publication ws)) = sy_globals st"
    unfolding ws_def demo_state_def by (simp_all del: replicate_Suc)
  have S: "shows_system demo_backend rd row_mapping ''1:7;'' ws demo_hash ?tr ?tr"
    unfolding shows_system_def Let_def bk k part using st(1) R passes_still(1)[of demo_settings st] pub st(3)
    by (simp add: rd_def demo_reader_def)
  have hit: "found lr = Some demo_row" "\<not> lr_negative lr \<Longrightarrow> lr_value_len lr = length (lr_value lr)" "\<not> lr_malformed lr"
    using hit_current[OF st(1) R(2) passes_still(1) R(1) _ st(4)[folded passes_still(2)] st(5)] pub st(3,6) f(5) by simp_all
  then have row: "\<not> lr_negative lr" "lr_value lr = demo_row" "lr_value_len lr = length demo_row" by (auto simp: found_def split: if_splits)
  have look: "pglc_cache_lookup_quiet demo_process demo_settings (rd_obs rd) (rd_fences rd) (rd_nows rd) (rd_others rd) demo_map ''1:7;''
      PGLC_VALUE_MAX (sy_part st) (sy_globals st) = (Inr lr, pt, count_lookup demo_process False lr gl)"
    using st(4) hit_complete[OF st(4,5)] hit(3) still by (simp add: rd_def demo_reader_def pglc_cache_lookup_quiet_def pglc_cache_lookup_internal_def)
  obtain ws1 where run: "run_key demo_backend row_mapping ''1:7;'' (pglc_cache_lookup_quiet demo_process demo_settings (rd_obs rd) (rd_fences rd) (rd_nows rd)
      (rd_others rd) demo_map ''1:7;'' PGLC_VALUE_MAX) ws = (Inr lr, ws1)"
    unfolding run_key_def key_step_def bk k Let_def part look by simp
  let ?argv = "[''MGET'', ''CRUD:d.s.r:'' @ demo_json]"
  have crc: "rd_crc rd = demo_crc" by (simp add: rd_def demo_reader_def)
  have fits: "length (array_header 1 @ element (Some ''{}'')) \<le> PGLC_RESPONSE_MAX"
    using length_write_decimal[of 1 1] bulk_fits[of "''{}''"] length_write_decimal[of "Suc (Suc 0)" 1]
    by (simp add: array_header_def element_def pglc_resp_bulk_def bulk_header_def)
  have "\<exists>ws'. fast_lookup demo_backend rd (\<lambda>_. CHR 0x00) (0, 0, False) row_mapping ''1:7;'' ws = (Inr (Some (array_header 1 @ element (Some ''{}''))), ws')"
    unfolding fast_lookup_def bk Let_def run using st(5) row demo_row_decodes(2) fits crc by (simp add: answer_hit_def write_element_eq Let_def)
  then obtain ws' where fl: "fast_lookup demo_backend rd (\<lambda>_. CHR 0x00) (0, 0, False) row_mapping ''1:7;'' ws = (Inr (Some (array_header 1 @ element (Some ''{}''))), ws')" ..
  have maps: "ws_mappings ws = [row_mapping]" "ws_enabled ws" by (simp_all add: ws_def demo_state_def)
  have fast: "try_fast_mget_hit demo_backend rd (\<lambda>_. CHR 0x00) 0 ?argv 0 new_session ws = (Inr (Some (array_header 1 @ element (Some ''{}''))), ws')"
  proof -
    have b: "bk_database demo_backend = Some ''d''" "arg_is demo_backend ''MGET'' ''MGET''" "wire_prefix ''d'' row_mapping = ''CRUD:d.s.r:''"
      "fast_path_mapping_shape_supported row_mapping" "se_authenticated new_session" "\<not> se_retrying_deferred_miss new_session"
      by (simp_all add: demo_backend_def arg_is_def pglc_resp_arg_equals_def strlen_def arg_bytes_def wire_prefix_def row_mapping_def
          fast_path_mapping_shape_supported_def new_session_def)
    have j: "length demo_json = 7" "demo_json ! 0 = CHR ''{''" "demo_json ! 6 = CHR ''}''" "CHR 0x00 \<notin> set demo_json" by (simp_all add: demo_json_def)
    have m: "fast_mapping demo_backend rd (\<lambda>_. CHR 0x00) (0, 0, False) row_mapping (length ''CRUD:d.s.r:'') (''CRUD:d.s.r:'' @ demo_json) ws =
        (Inr (Some (array_header 1 @ element (Some ''{}''))), ws')"
      unfolding fast_mapping_def Let_def using demo_scanned[of "sections ?tr ?tr" "(sy_part st, sy_globals st)"] fl b j by (simp add: rd_def)
    show ?thesis unfolding try_fast_mget_hit_def Let_def b(1) using b j maps m by (simp add: Let_def)
  qed
  have "row_on_wire (rd_crc rd) row_mapping (sy_db (?tr 16) (mapped (bk_process demo_backend) (wm_mapping row_mapping) ''1:7;'')) (array_header 1 @ element (Some ''{}'')) \<or>
      row_on_wire (rd_crc rd) row_mapping (sy_db (?tr 16) (mapped (bk_process demo_backend) (wm_mapping row_mapping) ''1:7;'')) (array_header 1 @ element (Some ''{}''))"
    by (rule served_row_current[OF fast _ _ S]) (use demo_resolves demo_scanned maps in \<open>simp_all add: rd_def\<close>)
  then show ?thesis using st(1) fast bk crc unfolding rd_def by auto
qed

end
