(* ===== verification/Clients.thy ===== *)
theory Clients
  imports Prelude
begin

text \<open>
  The limit on the number of clients of all workers: src/src/pg_local_cache.c lines 4007 to 4058, and its use
  by the workers, src/src/pg_local_cache_worker.c lines 439 to 454 and 1746 to 1750.

  The counters are updated without a lock, by loops around a compare-and-exchange. Every access to a shared counter is one
  step of the model, and the steps of the workers interleave freely: \<open>try_reserve_client_step\<close> and
  \<open>release_clients_step\<close> are the programs of one worker, given as functions from its program counter with the values of its
  local variables.
\<close>

section \<open>One worker\<close>

record client_counts =
  active_clients :: nat
  peak_active_clients :: nat
  client_limit_rejections :: nat
  rejected_connections :: nat

datatype client_pc =
    Reserve_Read | Reserve_Try nat | Peak_Read nat | Peak_Try nat nat | Reject_Limit | Reject_Connection | Reserve_Return bool
  | Release_Read nat | Release_Try nat nat | Release_Return nat

definition pg_atomic_compare_exchange_u64 :: "nat \<Rightarrow> nat \<Rightarrow> nat \<Rightarrow> bool \<times> nat \<times> nat" where
  "pg_atomic_compare_exchange_u64 current expected newval =
     (if current = expected then (True, expected, newval) else (False, current, current))"

definition release_desired :: "nat \<Rightarrow> nat \<Rightarrow> nat" where
  "release_desired n active = (if n \<le> active then active - n else 0)"

fun try_reserve_client_step :: "nat \<Rightarrow> client_pc \<Rightarrow> client_counts \<Rightarrow> client_pc \<times> client_counts" where
  "try_reserve_client_step pglc_max_clients Reserve_Read s = (Reserve_Try (active_clients s), s)"
| "try_reserve_client_step pglc_max_clients (Reserve_Try active) s =
     (if active < pglc_max_clients
      then let desired = u64 (active + 1);
               (ok, active, new) = pg_atomic_compare_exchange_u64 (active_clients s) active desired
           in (if ok then Peak_Read desired else Reserve_Try active, s\<lparr>active_clients := new\<rparr>)
      else (Reject_Limit, s))"
| "try_reserve_client_step pglc_max_clients (Peak_Read desired) s = (Peak_Try desired (peak_active_clients s), s)"
| "try_reserve_client_step pglc_max_clients (Peak_Try desired peak) s =
     (if peak < desired
      then let (ok, peak, new) = pg_atomic_compare_exchange_u64 (peak_active_clients s) peak desired
           in (if ok then Reserve_Return True else Peak_Try desired peak, s\<lparr>peak_active_clients := new\<rparr>)
      else (Reserve_Return True, s))"
| "try_reserve_client_step pglc_max_clients Reject_Limit s =
     (Reject_Connection, s\<lparr>client_limit_rejections := u64 (client_limit_rejections s + 1)\<rparr>)"
| "try_reserve_client_step pglc_max_clients Reject_Connection s =
     (Reserve_Return False, s\<lparr>rejected_connections := u64 (rejected_connections s + 1)\<rparr>)"
| "try_reserve_client_step pglc_max_clients pc s = (pc, s)"

fun release_clients_step :: "client_pc \<Rightarrow> client_counts \<Rightarrow> client_pc \<times> client_counts" where
  "release_clients_step (Release_Read n) s = (if n = 0 then Release_Return n else Release_Try n (active_clients s), s)"
| "release_clients_step (Release_Try n active) s =
     (let (ok, active, new) = pg_atomic_compare_exchange_u64 (active_clients s) active (release_desired n active)
      in (if ok then Release_Return n else Release_Try n active, s\<lparr>active_clients := new\<rparr>))"
| "release_clients_step pc s = (pc, s)"

section \<open>All workers\<close>

text \<open>A worker is outside of the two functions (\<open>None\<close>) or inside of one; \<open>reservations\<close> is its own count.\<close>

record client_system =
  counts :: client_counts
  pcs :: "nat \<Rightarrow> client_pc option"
  reservations :: "nat \<Rightarrow> nat"

text \<open>
  \<open>mx\<close> is the limit and \<open>n\<close> the number of workers. A worker reserves for a connection that it accepts, and releases one
  client that it closes or, when it exits, all that it holds.
\<close>

inductive client_moves :: "nat \<Rightarrow> nat \<Rightarrow> client_system \<Rightarrow> client_system \<Rightarrow> bool" for mx n where
  accept: "p < n \<Longrightarrow> pcs s p = None \<Longrightarrow> client_moves mx n s (s\<lparr>pcs := (pcs s)(p \<mapsto> Reserve_Read)\<rparr>)"
| reserve: "p < n \<Longrightarrow> pcs s p = Some pc \<Longrightarrow> try_reserve_client_step mx pc (counts s) = (pc', c') \<Longrightarrow>
    client_moves mx n s (s\<lparr>pcs := (pcs s)(p \<mapsto> pc'), counts := c'\<rparr>)"
| accepted: "p < n \<Longrightarrow> pcs s p = Some (Reserve_Return True) \<Longrightarrow>
    client_moves mx n s (s\<lparr>pcs := (pcs s)(p := None), reservations := (reservations s)(p := u64 (reservations s p + 1))\<rparr>)"
| rejected: "p < n \<Longrightarrow> pcs s p = Some (Reserve_Return False) \<Longrightarrow> client_moves mx n s (s\<lparr>pcs := (pcs s)(p := None)\<rparr>)"
| close_one: "p < n \<Longrightarrow> pcs s p = None \<Longrightarrow> 0 < reservations s p \<Longrightarrow>
    client_moves mx n s (s\<lparr>pcs := (pcs s)(p \<mapsto> Release_Read 1)\<rparr>)"
| worker_before_exit: "p < n \<Longrightarrow> pcs s p = None \<Longrightarrow> 0 < reservations s p \<Longrightarrow>
    client_moves mx n s (s\<lparr>pcs := (pcs s)(p \<mapsto> Release_Read (reservations s p))\<rparr>)"
| release: "p < n \<Longrightarrow> pcs s p = Some pc \<Longrightarrow> release_clients_step pc (counts s) = (pc', c') \<Longrightarrow>
    client_moves mx n s (s\<lparr>pcs := (pcs s)(p \<mapsto> pc'), counts := c'\<rparr>)"
| closed: "p < n \<Longrightarrow> pcs s p = Some (Release_Return k) \<Longrightarrow>
    client_moves mx n s (s\<lparr>pcs := (pcs s)(p := None), reservations := (reservations s)(p := u64_sub (reservations s p) k)\<rparr>)"

definition no_clients :: client_system where
  "no_clients = \<lparr>counts = \<lparr>active_clients = 0, peak_active_clients = 0, client_limit_rejections = 0, rejected_connections = 0\<rparr>,
     pcs = (\<lambda>p. None), reservations = (\<lambda>p. 0)\<rparr>"

abbreviation client_reachable :: "nat \<Rightarrow> nat \<Rightarrow> client_system \<Rightarrow> bool" where
  "client_reachable mx n \<equiv> (client_moves mx n)\<^sup>*\<^sup>* no_clients"

text \<open>The clients that worker \<open>p\<close> accounts for: what it accounted, what it is about to count, less what it has just released.\<close>

fun accounted :: "client_pc option \<Rightarrow> nat \<Rightarrow> nat" where
  "accounted (Some (Peak_Read d)) r = r + 1"
| "accounted (Some (Peak_Try d k)) r = r + 1"
| "accounted (Some (Reserve_Return True)) r = r + 1"
| "accounted (Some (Release_Return k)) r = r - k"
| "accounted _ r = r"

abbreviation owned :: "client_system \<Rightarrow> nat \<Rightarrow> nat" where
  "owned s p \<equiv> accounted (pcs s p) (reservations s p)"

text \<open>A count that a worker has still to record in the peak.\<close>

fun unrecorded :: "client_pc option \<Rightarrow> nat" where
  "unrecorded (Some (Peak_Read d)) = d"
| "unrecorded (Some (Peak_Try d k)) = d"
| "unrecorded _ = 0"

abbreviation pending_peak :: "client_system \<Rightarrow> nat \<Rightarrow> nat" where
  "pending_peak s p \<equiv> unrecorded (pcs s p)"

section \<open>The limit holds\<close>

fun release_ok :: "client_pc option \<Rightarrow> nat \<Rightarrow> bool" where
  "release_ok (Some (Release_Read k)) r \<longleftrightarrow> 0 < k \<and> k \<le> r"
| "release_ok (Some (Release_Try k a)) r \<longleftrightarrow> 0 < k \<and> k \<le> r \<and> k \<le> a"
| "release_ok (Some (Release_Return k)) r \<longleftrightarrow> k \<le> r"
| "release_ok _ r \<longleftrightarrow> True"

abbreviation pc_ok :: "client_system \<Rightarrow> nat \<Rightarrow> bool" where
  "pc_ok s p \<equiv> release_ok (pcs s p) (reservations s p)"

fun read_peak :: "client_pc option \<Rightarrow> nat" where
  "read_peak (Some (Peak_Try d k)) = k"
| "read_peak _ = 0"

definition clients_ok :: "nat \<Rightarrow> nat \<Rightarrow> client_system \<Rightarrow> bool" where
  "clients_ok mx n s \<longleftrightarrow> active_clients (counts s) = (\<Sum>p<n. owned s p) \<and> active_clients (counts s) \<le> mx \<and>
     peak_active_clients (counts s) \<le> mx \<and>
     (\<exists>p. active_clients (counts s) \<le> max (peak_active_clients (counts s)) (pending_peak s p)) \<and>
     (\<forall>p. pc_ok s p \<and> pending_peak s p \<le> mx \<and> read_peak (pcs s p) \<le> peak_active_clients (counts s) \<and>
       reservations s p \<le> mx \<and> (n \<le> p \<longrightarrow> pcs s p = None))"

lemma owned_le_active:
  assumes "clients_ok mx n s" "p < n"
  shows "owned s p \<le> active_clients (counts s)"
  using assms member_le_sum[of p "{..<n}" "owned s"] by (simp add: clients_ok_def)

text \<open>A step of worker \<open>p\<close> changes the sum by what it changes for \<open>p\<close>.\<close>

lemma sum_owned_step:
  assumes "p < n" "\<And>q. q \<noteq> p \<Longrightarrow> owned s' q = owned s q"
  shows "(\<Sum>q<n. owned s' q) + owned s p = (\<Sum>q<n. owned s q) + owned s' p"
proof -
  have "(\<Sum>q\<in>{..<n} - {p}. owned s' q) = (\<Sum>q\<in>{..<n} - {p}. owned s q)" by (rule sum.cong) (auto simp: assms)
  then show ?thesis using assms(1) by (simp add: sum.remove[of "{..<n}" p])
qed

lemma clients_ok_step:
  assumes ok: "clients_ok mx n s" and p: "p < n"
    and other: "\<And>q. q \<noteq> p \<Longrightarrow> pcs s' q = pcs s q \<and> reservations s' q = reservations s q"
    and active: "active_clients (counts s') + owned s p = active_clients (counts s) + owned s' p" "active_clients (counts s') \<le> mx"
    and peak: "peak_active_clients (counts s') \<le> mx" "pending_peak s' p \<le> mx"
      "read_peak (pcs s' p) \<le> peak_active_clients (counts s')" "peak_active_clients (counts s) \<le> peak_active_clients (counts s')"
      "active_clients (counts s') \<le> max (peak_active_clients (counts s')) (pending_peak s' p) \<or>
       active_clients (counts s') \<le> active_clients (counts s) \<and>
       pending_peak s p \<le> max (peak_active_clients (counts s')) (pending_peak s' p)"
    and pc: "pc_ok s' p" "reservations s' p \<le> mx"
  shows "clients_ok mx n s'"
proof -
  have other': "owned s' q = owned s q" "pending_peak s' q = pending_peak s q" "pc_ok s' q = pc_ok s q" if "q \<noteq> p" for q
    using other[OF that] by simp_all
  have "active_clients (counts s') = (\<Sum>q<n. owned s' q)"
    using sum_owned_step[of p n s' s] other' ok p active(1) by (simp add: clients_ok_def)
  moreover obtain q where q: "active_clients (counts s) \<le> max (peak_active_clients (counts s)) (pending_peak s q)"
    using ok by (auto simp: clients_ok_def)
  have "\<exists>q. active_clients (counts s') \<le> max (peak_active_clients (counts s')) (pending_peak s' q)"
  proof (cases "active_clients (counts s') \<le> max (peak_active_clients (counts s')) (pending_peak s' p)")
    case False
    then have "active_clients (counts s') \<le> max (peak_active_clients (counts s')) (pending_peak s' q)"
      using peak(4,5) q other'(2)[of q] by (cases "q = p") (auto simp: max_def split: if_splits)
    then show ?thesis ..
  qed blast
  moreover have "pc_ok s' q \<and> pending_peak s' q \<le> mx \<and> read_peak (pcs s' q) \<le> peak_active_clients (counts s') \<and>
    reservations s' q \<le> mx \<and> (n \<le> q \<longrightarrow> pcs s' q = None)" for q
    using ok p pc peak(2,3,4) other[of q] by (cases "q = p") (auto simp: clients_ok_def intro: le_trans)
  ultimately show ?thesis using active(2) peak(1) by (simp add: clients_ok_def)
qed

lemma clients_ok_reserve:
  assumes ok: "clients_ok mx n s" and p: "p < n" "pcs s p = Some pc" and mx: "mx < 2 ^ 64"
    and step: "try_reserve_client_step mx pc (counts s) = (pc', c')"
  shows "clients_ok mx n (s\<lparr>pcs := (pcs s)(p \<mapsto> pc'), counts := c'\<rparr>)"
proof -
  have old: "pc_ok s p" "pending_peak s p \<le> mx" "read_peak (pcs s p) \<le> peak_active_clients (counts s)"
    "active_clients (counts s) \<le> mx" "peak_active_clients (counts s) \<le> mx"
    "reservations s p \<le> mx" using ok by (simp_all add: clients_ok_def)
  note step_ok = clients_ok_step[OF ok p(1)]
  show ?thesis
  proof (cases pc)
    case (Reserve_Try a)
    consider "\<not> a < mx" | "a < mx" "active_clients (counts s) = a" | "a < mx" "active_clients (counts s) \<noteq> a" by blast
    then show ?thesis
      by cases (rule step_ok; use step old mx p(2) Reserve_Try in \<open>auto simp: pg_atomic_compare_exchange_u64_def u64_def\<close>)+
  next
    case (Peak_Try d k)
    consider "\<not> k < d" | "k < d" "peak_active_clients (counts s) = k" | "k < d" "peak_active_clients (counts s) \<noteq> k" by blast
    then show ?thesis
      by cases (rule step_ok; use step old p(2) Peak_Try in \<open>auto simp: pg_atomic_compare_exchange_u64_def\<close>)+
  qed (rule step_ok; use step old p(2) in \<open>auto\<close>)+
qed

lemma clients_ok_release:
  assumes ok: "clients_ok mx n s" and p: "p < n" "pcs s p = Some pc"
    and step: "release_clients_step pc (counts s) = (pc', c')"
  shows "clients_ok mx n (s\<lparr>pcs := (pcs s)(p \<mapsto> pc'), counts := c'\<rparr>)"
proof -
  have old: "pc_ok s p" "pending_peak s p \<le> mx" "read_peak (pcs s p) \<le> peak_active_clients (counts s)"
    "active_clients (counts s) \<le> mx" "peak_active_clients (counts s) \<le> mx"
    "reservations s p \<le> mx" using ok by (simp_all add: clients_ok_def)
  note own = owned_le_active[OF ok p(1)]
  note step_ok = clients_ok_step[OF ok p(1)]
  show ?thesis
  proof (cases pc)
    case (Release_Try k a)
    show ?thesis
      by (cases "active_clients (counts s) = a")
        (rule step_ok; use step old own p(2) Release_Try in \<open>auto simp: pg_atomic_compare_exchange_u64_def release_desired_def\<close>)+
  qed (rule step_ok; use step old own p(2) in \<open>auto split: if_splits\<close>)+
qed

lemma clients_ok_return:
  assumes ok: "clients_ok mx n s" and p: "p < n" and mx: "mx < 2 ^ 64"
  shows "pcs s p = None \<Longrightarrow> clients_ok mx n (s\<lparr>pcs := (pcs s)(p \<mapsto> Reserve_Read)\<rparr>)"
    and "pcs s p = None \<Longrightarrow> 0 < k \<Longrightarrow> k \<le> reservations s p \<Longrightarrow> clients_ok mx n (s\<lparr>pcs := (pcs s)(p \<mapsto> Release_Read k)\<rparr>)"
    and "pcs s p = Some (Reserve_Return False) \<Longrightarrow> clients_ok mx n (s\<lparr>pcs := (pcs s)(p := None)\<rparr>)"
    and "pcs s p = Some (Reserve_Return True) \<Longrightarrow> clients_ok mx n
      (s\<lparr>pcs := (pcs s)(p := None), reservations := (reservations s)(p := u64 (reservations s p + 1))\<rparr>)"
    and "pcs s p = Some (Release_Return k) \<Longrightarrow> clients_ok mx n
      (s\<lparr>pcs := (pcs s)(p := None), reservations := (reservations s)(p := u64_sub (reservations s p) k)\<rparr>)"
proof -
  have old: "pc_ok s p" "active_clients (counts s) \<le> mx" "peak_active_clients (counts s) \<le> mx"
    "reservations s p \<le> mx" using ok by (simp_all add: clients_ok_def)
  note own = owned_le_active[OF ok p] and step = clients_ok_step[OF ok p]
  show "clients_ok mx n (s\<lparr>pcs := (pcs s)(p \<mapsto> Reserve_Read)\<rparr>)" if "pcs s p = None"
    by (rule step) (use that old in \<open>auto simp: width_simps\<close>)
  show "clients_ok mx n (s\<lparr>pcs := (pcs s)(p \<mapsto> Release_Read k)\<rparr>)" if "pcs s p = None" "0 < k" "k \<le> reservations s p"
    by (rule step) (use that old in \<open>auto simp: width_simps\<close>)
  show "clients_ok mx n (s\<lparr>pcs := (pcs s)(p := None)\<rparr>)" if "pcs s p = Some (Reserve_Return False)"
    by (rule step) (use that old in \<open>auto simp: width_simps\<close>)
  show "clients_ok mx n (s\<lparr>pcs := (pcs s)(p := None), reservations := (reservations s)(p := u64 (reservations s p + 1))\<rparr>)"
    if "pcs s p = Some (Reserve_Return True)"
    by (rule step) (use that old own mx in \<open>auto simp: u64_def\<close>)
  show "clients_ok mx n (s\<lparr>pcs := (pcs s)(p := None), reservations := (reservations s)(p := u64_sub (reservations s p) k)\<rparr>)"
    if "pcs s p = Some (Release_Return k)"
    by (rule step) (use that old own mx in \<open>auto simp: width_simps\<close>)
qed

lemma client_moves_ok: "client_moves mx n s s' \<Longrightarrow> mx < 2 ^ 64 \<Longrightarrow> clients_ok mx n s \<Longrightarrow> clients_ok mx n s'"
  by (induction rule: client_moves.induct)
    (simp_all add: clients_ok_return clients_ok_reserve clients_ok_release del: add_Suc_right Nat.add_0_right One_nat_def)

lemma client_reachable_ok:
  assumes "client_reachable mx n s" "mx < 2 ^ 64"
  shows "clients_ok mx n s"
  using assms(1)
proof induction
  case base
  show ?case by (simp add: no_clients_def clients_ok_def)
next
  case (step s s')
  then show ?case using client_moves_ok assms(2) by blast
qed

text \<open>C8: However the workers interleave their lock-free updates, the number of active clients never exceeds the configured
  limit, it is the sum of what the workers account for, the recorded peak never exceeds the limit, and the assertion of
  a release, that at least as many clients are active as it gives back, holds for the value it has read. When no worker
  is inside an update, the count is the sum of the reservations of the workers and the peak has recorded it.
\<close>

theorem client_limit_held:
  assumes "client_reachable mx n s" "mx < 2 ^ 64"
  shows "active_clients (counts s) \<le> mx \<and> peak_active_clients (counts s) \<le> mx \<and>
    active_clients (counts s) = (\<Sum>p<n. owned s p) \<and>
    (\<forall>p k a. pcs s p = Some (Release_Try k a) \<longrightarrow> k \<le> a) \<and>
    ((\<forall>p. pcs s p = None) \<longrightarrow>
       active_clients (counts s) = (\<Sum>p<n. reservations s p) \<and> active_clients (counts s) \<le> peak_active_clients (counts s))"
proof -
  have ok: "clients_ok mx n s" using client_reachable_ok assms by blast
  then have "k \<le> a" if "pcs s p = Some (Release_Try k a)" for p k a
    using that by (auto simp: clients_ok_def dest: spec[of _ p])
  then show ?thesis using ok by (auto simp: clients_ok_def)
qed

text \<open>A schedule of accepting workers, and two of them that race for the last place: one is turned away.\<close>

definition accept_step :: "nat \<Rightarrow> nat \<Rightarrow> client_system \<Rightarrow> client_system" where
  "accept_step mx p s = (case pcs s p of
      None \<Rightarrow> s\<lparr>pcs := (pcs s)(p \<mapsto> Reserve_Read)\<rparr>
    | Some pc \<Rightarrow> let (pc', c') = try_reserve_client_step mx pc (counts s) in s\<lparr>pcs := (pcs s)(p \<mapsto> pc'), counts := c'\<rparr>)"

lemma accept_steps_reachable:
  "client_reachable mx n s \<Longrightarrow> \<forall>p\<in>set ps. p < n \<Longrightarrow> client_reachable mx n (fold (accept_step mx) ps s)"
proof (induction ps arbitrary: s)
  case (Cons p ps)
  have "client_moves mx n s (accept_step mx p s)"
    using Cons.prems(2) by (auto simp: accept_step_def split: option.split prod.split intro: client_moves.intros)
  then show ?case using Cons by (simp add: rtranclp.rtrancl_into_rtrancl)
qed simp

theorem client_limit_held_witness:
  "let s = fold (accept_step 1) [0, 1, 0, 1, 0, 1, 1, 0, 0, 1, 1] no_clients in
   active_clients (counts s) = 1 \<and> pcs s 0 = Some (Reserve_Return True) \<and> pcs s 1 = Some (Reserve_Return False) \<and>
   peak_active_clients (counts s) = 1 \<and> (\<Sum>p<2. owned s p) = 1"
proof -
  let ?s = "fold (accept_step 1) [0, 1, 0, 1, 0, 1, 1, 0, 0, 1, 1] no_clients"
  have reach: "client_reachable 1 2 ?s" by (rule accept_steps_reachable) simp_all
  have run: "?s = no_clients\<lparr>pcs := (\<lambda>p. None)(0 \<mapsto> Reserve_Return True, 1 \<mapsto> Reserve_Return False),
    counts := \<lparr>active_clients = 1, peak_active_clients = 1, client_limit_rejections = 1, rejected_connections = 1\<rparr>\<rparr>"
    by (simp add: accept_step_def no_clients_def pg_atomic_compare_exchange_u64_def u64_def fun_upd_twist)
  have "active_clients (counts ?s) = (\<Sum>p<2. owned ?s p)" using client_limit_held[OF reach] by simp
  then show ?thesis using run by (simp add: Let_def)
qed

text \<open>A worker that is not disturbed reserves in four steps and releases in two.\<close>

lemma reserve_undisturbed:
  assumes "active_clients s < mx" "mx < 2 ^ 64"
  shows "((\<lambda>(pc, s). try_reserve_client_step mx pc s) ^^ 4) (Reserve_Read, s) =
    (Reserve_Return True, s\<lparr>active_clients := active_clients s + 1,
       peak_active_clients := max (peak_active_clients s) (active_clients s + 1)\<rparr>)"
proof -
  have four: "(4::nat) = Suc (Suc (Suc (Suc 0)))" by simp
  show ?thesis unfolding four using assms by (auto simp: pg_atomic_compare_exchange_u64_def u64_def max_def)
qed

lemma release_undisturbed:
  assumes "0 < k"
  shows "((\<lambda>(pc, s). release_clients_step pc s) ^^ 2) (Release_Read k, s) =
    (Release_Return k, s\<lparr>active_clients := release_desired k (active_clients s)\<rparr>)"
  using assms by (simp add: numeral_2_eq_2 pg_atomic_compare_exchange_u64_def)

end
