(* ===== verification/Deferred.thy ===== *)
theory Deferred
  imports Connection Clients
begin

text \<open>
  The queue of \<open>MGET\<close> requests that wait for a load of another client, and the closing of a
  client: src/src/pg_local_cache_worker.c lines 155 to 170, 1518 to 1718 and 1720 to 1789, as built
  without OpenSSL.

  \<^item> The queue is the linked list of the code: a heap of allocated nodes with \<open>next\<close> pointers, a
    head and a tail pointer, and the count and the bytes it holds.
  \<^item> The address of a new node is chosen by the allocator: any address that is not in use.
  \<^item> Clients are numbered; \<open>clients k\<close> is the struct of client \<open>k\<close>.
\<close>

section \<open>The list\<close>

abbreviation (input) PGLC_DEFERRED_REQUEST_BYTES_MAX :: nat where "PGLC_DEFERRED_REQUEST_BYTES_MAX \<equiv> 524288"
abbreviation (input) PGLC_DEFERRED_RETRIES_PER_TURN :: nat where "PGLC_DEFERRED_RETRIES_PER_TURN \<equiv> 8"
abbreviation (input) INT_MAX :: int where "INT_MAX \<equiv> 2147483647"

record deferred_miss =
  dm_next :: "nat option"
  dm_client :: nat
  dm_request_offset :: nat
  dm_request_length :: nat
  dm_deadline :: int
  dm_mapping_generation :: nat

record deferred_queue =
  dq_heap :: "nat \<Rightarrow> deferred_miss option"
  dq_head :: "nat option"
  dq_tail :: "nat option"
  dq_count :: nat
  dq_bytes :: nat
  dq_total :: nat
  dq_timeouts :: nat
  dq_rejections :: nat

datatype deferred_result = PGLC_DEFERRED_QUEUED | PGLC_DEFERRED_QUEUE_FULL | PGLC_DEFERRED_EXPIRED

abbreviation miss_at :: "deferred_queue \<Rightarrow> nat \<Rightarrow> deferred_miss" where
  "miss_at q a \<equiv> the (dq_heap q a)"

definition set_next :: "nat \<Rightarrow> nat option \<Rightarrow> deferred_queue \<Rightarrow> deferred_queue" where
  "set_next a n q = q\<lparr>dq_heap := (dq_heap q)(a \<mapsto> (miss_at q a)\<lparr>dm_next := n\<rparr>)\<rparr>"

text \<open>The new node at the address \<open>a\<close> becomes the tail.\<close>

definition append_miss :: "nat \<Rightarrow> deferred_miss \<Rightarrow> deferred_queue \<Rightarrow> deferred_queue" where
  "append_miss a miss q =
     (let q = q\<lparr>dq_heap := (dq_heap q)(a \<mapsto> miss)\<rparr>;
          q = (case dq_tail q of None \<Rightarrow> q\<lparr>dq_head := Some a\<rparr> | Some t \<Rightarrow> set_next t (Some a) q)
      in q\<lparr>dq_tail := Some a, dq_count := dq_count q + 1, dq_bytes := dq_bytes q + dm_request_length miss\<rparr>)"

text \<open>\<open>now\<close> is the current time, \<open>generation\<close> the one of the mappings that the worker has loaded.\<close>

definition enqueue_deferred_miss ::
  "nat \<Rightarrow> nat \<Rightarrow> int \<Rightarrow> nat \<Rightarrow> nat \<Rightarrow> nat \<Rightarrow> int \<Rightarrow> client \<Rightarrow> deferred_queue \<Rightarrow> deferred_result \<times> client \<times> deferred_queue" where
  "enqueue_deferred_miss max_misses a now generation k request_length deadline c q =
     (let se = cl_session c in
      if deadline \<le> now then (PGLC_DEFERRED_EXPIRED, c, q)
      else if se_deferred_miss se \<noteq> None \<or> max_misses \<le> dq_count q \<or>
              u64_sub PGLC_DEFERRED_REQUEST_BYTES_MAX (dq_bytes q) < request_length
      then (PGLC_DEFERRED_QUEUE_FULL, c, if se_retrying_deferred_miss se then q else q\<lparr>dq_rejections := u64 (dq_rejections q + 1)\<rparr>)
      else
        let q = append_miss a \<lparr>dm_next = None, dm_client = k, dm_request_offset = cl_input_start c, dm_request_length = request_length,
                    dm_deadline = deadline, dm_mapping_generation = generation\<rparr> q
        in (PGLC_DEFERRED_QUEUED,
            c\<lparr>cl_session := se\<lparr>se_deferred_miss := Some a, se_deferred_deadline := deadline, se_deferred_deadline_expired := False\<rparr>\<rparr>,
            if se_retrying_deferred_miss se then q else q\<lparr>dq_total := u64 (dq_total q + 1)\<rparr>))"

text \<open>The search for a node: the node before it and where the search ends. A cyclic list gives no result.\<close>

partial_function (option) find_previous ::
  "(nat \<Rightarrow> deferred_miss option) \<Rightarrow> nat \<Rightarrow> nat option \<Rightarrow> nat option \<Rightarrow> (nat option \<times> nat option) option" where
  "find_previous heap miss previous current =
     (if current = None \<or> current = Some miss then Some (previous, current)
      else find_previous heap miss current (dm_next (the (heap (the current)))))"

definition free_miss :: "nat \<Rightarrow> deferred_queue \<Rightarrow> deferred_queue" where
  "free_miss a q = q\<lparr>dq_heap := (dq_heap q)(a := None)\<rparr>"

text \<open>The node \<open>a\<close> leaves the list and is freed; \<open>previous\<close> is the node before it.\<close>

definition unlink_miss :: "nat \<Rightarrow> nat option \<Rightarrow> deferred_queue \<Rightarrow> deferred_queue" where
  "unlink_miss a previous q =
     (let n = dm_next (miss_at q a); bytes = dm_request_length (miss_at q a);
          q = (case previous of None \<Rightarrow> q\<lparr>dq_head := n\<rparr> | Some p \<Rightarrow> set_next p n q);
          q = (if dq_tail q = Some a then q\<lparr>dq_tail := previous\<rparr> else q)
      in free_miss a (q\<lparr>dq_count := dq_count q - 1, dq_bytes := u64_sub (dq_bytes q) bytes\<rparr>))"

definition remove_deferred_miss :: "client \<Rightarrow> deferred_queue \<Rightarrow> (client \<times> deferred_queue) option" where
  "remove_deferred_miss c q =
     (case se_deferred_miss (cl_session c) of
        None \<Rightarrow> Some (c, q)
      | Some a \<Rightarrow>
        (case find_previous (dq_heap q) a None (dq_head q) of
           None \<Rightarrow> None
         | Some (previous, current) \<Rightarrow>
           Some (c\<lparr>cl_session := (cl_session c)\<lparr>se_deferred_miss := None\<rparr>\<rparr>, unlink_miss a previous q)))"

definition rotate_deferred_miss_head :: "deferred_queue \<Rightarrow> deferred_queue" where
  "rotate_deferred_miss_head q =
     (case dq_head q of
        None \<Rightarrow> q
      | Some a \<Rightarrow>
        (case dm_next (miss_at q a) of
           None \<Rightarrow> q
         | Some b \<Rightarrow>
             let q = q\<lparr>dq_head := Some b\<rparr>; q = set_next a None q; q = set_next (the (dq_tail q)) (Some a) q
             in q\<lparr>dq_tail := Some a\<rparr>))"

text \<open>The head leaves the list and is freed.\<close>

definition pop_deferred_miss :: "nat \<Rightarrow> deferred_queue \<Rightarrow> deferred_queue" where
  "pop_deferred_miss a q =
     (let miss = miss_at q a;
          q = q\<lparr>dq_head := dm_next miss, dq_count := dq_count q - 1, dq_bytes := u64_sub (dq_bytes q) (dm_request_length miss)\<rparr>
      in free_miss a (if dq_head q = None then q\<lparr>dq_tail := None\<rparr> else q))"

section \<open>Retries\<close>

record 'v worker_loop =
  wl_clients :: "nat \<Rightarrow> client"
  wl_sockets :: "nat \<Rightarrow> recv_result list"
  wl_reservations :: nat
  wl_active_clients :: nat
  wl_queue :: deferred_queue
  wl_rest :: 'v
  wl_stats :: stats

definition close_client :: "nat \<Rightarrow> 'v worker_loop \<Rightarrow> 'v worker_loop option" where
  "close_client k wl =
     (case remove_deferred_miss (wl_clients wl k) (wl_queue wl) of
        None \<Rightarrow> None
      | Some (c, q) \<Rightarrow>
        let wl = wl\<lparr>wl_queue := q\<rparr>;
            wl = (if cl_connected c
                  then wl\<lparr>wl_stats := pg_atomic_fetch_add_u64 client_disconnects 1 (wl_stats wl),
                          wl_active_clients := release_desired 1 (wl_active_clients wl),
                          wl_reservations := u64_sub (wl_reservations wl) 1\<rparr> else wl);
            se = \<lparr>se_authenticated = False, se_authentication_failures = 0, se_deferred_miss = se_deferred_miss (cl_session c),
                  se_deferred_deadline = 0, se_deferred_deadline_expired = False, se_retrying_deferred_miss = False\<rparr>;
            c = c\<lparr>cl_connected := False, cl_input_start := 0, cl_input := [], cl_output := [], cl_output_sent := 0,
                  cl_close_after_flush := False, cl_input_ready := False, cl_read_activity_pending := False, cl_output_ready := False,
                  cl_output_backpressure_reported := False, cl_input_eof := False, cl_peer_hung_up := False, cl_session := se\<rparr>
        in Some (wl\<lparr>wl_clients := (wl_clients wl)(k := c)\<rparr>))"

text \<open>
  One attempt at the head \<open>a\<close>: rotated while its client cannot take output or the error does not fit, answered with
  an error when its deadline has passed, and otherwise taken from the queue to be served again.
\<close>

datatype attempt_result = Waits client deferred_queue | Times_Out client deferred_queue | Retries client deferred_queue

definition attempt_head :: "int \<Rightarrow> nat \<Rightarrow> client \<Rightarrow> deferred_queue \<Rightarrow> attempt_result" where
  "attempt_head now a c q =
     (let miss = miss_at q a; se = cl_session c;
          se = (if dm_deadline miss \<le> now then se\<lparr>se_deferred_deadline_expired := True\<rparr> else se);
          c = c\<lparr>cl_session := se\<rparr>
      in if cl_output_sent c < cl_output_used c then Waits c (rotate_deferred_miss_head q)
         else if se_deferred_deadline_expired se
         then (case queue_response c (pglc_resp_error ''ERR MGET deadline exceeded'') False of
                 (False, c) \<Rightarrow> Waits c (rotate_deferred_miss_head q)
               | (True, c) \<Rightarrow>
                 let c = c\<lparr>cl_input_start := cl_input_start c + dm_request_length miss,
                           cl_session := se\<lparr>se_deferred_miss := None, se_deferred_deadline := 0, se_deferred_deadline_expired := False,
                                           se_retrying_deferred_miss := False\<rparr>\<rparr>;
                     c = c\<lparr>cl_input_ready := (cl_input_start c < cl_used c \<or> cl_input_eof c)\<rparr>
                 in Times_Out c ((pop_deferred_miss a q)\<lparr>dq_timeouts := u64 (dq_timeouts q + 1)\<rparr>))
         else Retries (c\<lparr>cl_session := se\<lparr>se_deferred_miss := None, se_retrying_deferred_miss := True,
                se_deferred_deadline := dm_deadline miss, se_deferred_deadline_expired := False\<rparr>\<rparr>) (pop_deferred_miss a q))"

text \<open>
  The loop over the attempts. \<open>sv k\<close> serves client \<open>k\<close>, with the queue as a part of its state; \<open>generation\<close> is the
  generation of the mappings that the worker has loaded. There is no result when the worker raises an error.
\<close>

fun retry_loop ::
  "(nat \<Rightarrow> (deferred_queue \<times> 'v) server) \<Rightarrow> ('v \<Rightarrow> nat) \<Rightarrow> (nat \<Rightarrow> int) \<Rightarrow> nat \<Rightarrow> nat \<Rightarrow> 'v worker_loop \<Rightarrow> 'v worker_loop option" where
  "retry_loop sv generation nows 0 i wl = Some wl"
| "retry_loop sv generation nows (Suc n) i wl =
     (case dq_head (wl_queue wl) of
        None \<Rightarrow> Some wl
      | Some a \<Rightarrow>
        let k = dm_client (miss_at (wl_queue wl) a);
            put = (\<lambda>c q. wl\<lparr>wl_clients := (wl_clients wl)(k := c), wl_queue := q\<rparr>)
        in case attempt_head (nows i) a (wl_clients wl k) (wl_queue wl) of
             Waits c q \<Rightarrow> retry_loop sv generation nows n (i + 1) (put c q)
           | Times_Out c q \<Rightarrow> retry_loop sv generation nows n (i + 1) (put c q)
           | Retries c q \<Rightarrow>
             let v = (if dm_mapping_generation (miss_at (wl_queue wl) a) \<noteq> generation (wl_rest wl)
                      then snd (sv_maybe_reload_mappings (sv k) (wl_queue wl, wl_rest wl)) else wl_rest wl)
             in (case process_client (sv k) (wl_sockets wl k) (c, (q, v), wl_stats wl) of
                   (Return ok (c, (q, v), st), socket) \<Rightarrow>
                     let wl = wl\<lparr>wl_clients := (wl_clients wl)(k := c), wl_sockets := (wl_sockets wl)(k := socket),
                                 wl_queue := q, wl_rest := v, wl_stats := st\<rparr>
                     in (case (if ok then Some wl else close_client k wl) of
                           None \<Rightarrow> None
                         | Some wl \<Rightarrow> retry_loop sv generation nows n (i + 1) wl)
                 | _ \<Rightarrow> None))"

definition retry_deferred_misses ::
  "(nat \<Rightarrow> (deferred_queue \<times> 'v) server) \<Rightarrow> ('v \<Rightarrow> nat) \<Rightarrow> (nat \<Rightarrow> int) \<Rightarrow> 'v worker_loop \<Rightarrow> 'v worker_loop option" where
  "retry_deferred_misses sv generation nows wl =
     retry_loop sv generation nows (min (dq_count (wl_queue wl)) PGLC_DEFERRED_RETRIES_PER_TURN) 0 wl"

partial_function (option) poll_timeout_loop ::
  "(nat \<Rightarrow> deferred_miss option) \<Rightarrow> int \<Rightarrow> int \<Rightarrow> nat option \<Rightarrow> (nat \<Rightarrow> client) \<Rightarrow> (int \<times> (nat \<Rightarrow> client)) option" where
  "poll_timeout_loop heap now current_timeout current clients =
     (if current = None then Some (current_timeout, clients)
      else
        let miss = the (heap (the current)); c = clients (dm_client miss);
            transport_blocked = (cl_output_sent c < cl_output_used c);
            remaining_us = dm_deadline miss - now
        in if remaining_us \<le> 0
           then
             let clients = clients(dm_client miss := c\<lparr>cl_session := (cl_session c)\<lparr>se_deferred_deadline_expired := True\<rparr>\<rparr>)
             in if \<not> transport_blocked then Some (0, clients) else poll_timeout_loop heap now current_timeout (dm_next miss) clients
           else
             let remaining_ms = (remaining_us + 999) div 1000
             in poll_timeout_loop heap now (min current_timeout (min remaining_ms INT_MAX)) (dm_next miss) clients)"

definition deferred_miss_poll_timeout :: "int \<Rightarrow> int \<Rightarrow> deferred_queue \<Rightarrow> (nat \<Rightarrow> client) \<Rightarrow> (int \<times> (nat \<Rightarrow> client)) option" where
  "deferred_miss_poll_timeout now current_timeout q clients = poll_timeout_loop (dq_heap q) now current_timeout (dq_head q) clients"

section \<open>The list as a sequence\<close>

fun links :: "(nat \<Rightarrow> deferred_miss option) \<Rightarrow> nat option \<Rightarrow> nat list \<Rightarrow> bool" where
  "links heap p [] \<longleftrightarrow> p = None"
| "links heap p (a # as) \<longleftrightarrow> p = Some a \<and> heap a \<noteq> None \<and> links heap (dm_next (the (heap a))) as"

text \<open>What a queue holds: the waiting requests without their links.\<close>

definition waiting :: "deferred_queue \<Rightarrow> nat list \<Rightarrow> deferred_miss list" where
  "waiting q as = map (\<lambda>a. (miss_at q a)\<lparr>dm_next := None\<rparr>) as"

definition queue_ok :: "nat \<Rightarrow> deferred_queue \<Rightarrow> nat list \<Rightarrow> bool" where
  "queue_ok mx q as \<longleftrightarrow> links (dq_heap q) (dq_head q) as \<and> distinct as \<and> dom (dq_heap q) = set as \<and>
     dq_tail q = (if as = [] then None else Some (last as)) \<and> dq_count q = length as \<and> dq_count q \<le> mx \<and>
     dq_bytes q = sum_list (map dm_request_length (waiting q as)) \<and> dq_bytes q \<le> PGLC_DEFERRED_REQUEST_BYTES_MAX"

lemma waiting_simps [simp]:
  "waiting q [] = []"
  "waiting q (a # as) = (miss_at q a)\<lparr>dm_next := None\<rparr> # waiting q as"
  "waiting q (as @ bs) = waiting q as @ waiting q bs"
  by (simp_all add: waiting_def)

lemma waiting_cong:
  "(\<And>a. a \<in> set as \<Longrightarrow> (miss_at q a)\<lparr>dm_next := None\<rparr> = (miss_at q' a)\<lparr>dm_next := None\<rparr>) \<Longrightarrow> waiting q as = waiting q' as"
  by (simp add: waiting_def)

lemma links_cong: "(\<And>a. a \<in> set as \<Longrightarrow> heap' a = heap a) \<Longrightarrow> links heap' p as = links heap p as"
  by (induction as arbitrary: p) auto

lemma links_suffix: "links heap p (as @ bs) \<Longrightarrow> links heap (if as = [] then p else dm_next (the (heap (last as)))) bs"
  by (induction as arbitrary: p) auto

text \<open>Redirecting the link of the last node before \<open>bs\<close> to \<open>cs\<close>.\<close>

lemma links_relink:
  assumes "links heap p (as @ bs)" "as \<noteq> []" "links heap' (dm_next (the (heap' (last as)))) cs"
    "\<And>a. a \<in> set (butlast as) \<Longrightarrow> heap' a = heap a" "heap' (last as) \<noteq> None"
  shows "links heap' p (as @ cs)"
  using assms
proof (induction as arbitrary: p)
  case (Cons a as)
  then show ?case by (cases "as = []") (simp_all split: if_splits)
qed simp

lemma find_previous_links:
  assumes "links heap p (xs @ a # ys)" "a \<notin> set xs"
  shows "find_previous heap a previous p = Some (if xs = [] then previous else Some (last xs), Some a)"
  using assms
proof (induction xs arbitrary: p previous)
  case Nil
  then show ?case by (subst find_previous.simps) simp
next
  case (Cons x xs)
  then show ?case by (subst find_previous.simps) simp
qed

lemma queue_okD:
  assumes "queue_ok mx q as"
  shows "links (dq_heap q) (dq_head q) as" "distinct as" "dom (dq_heap q) = set as" "dq_count q = length as" "length as \<le> mx"
    "dq_tail q = (if as = [] then None else Some (last as))"
    "dq_bytes q = sum_list (map dm_request_length (waiting q as))" "dq_bytes q \<le> PGLC_DEFERRED_REQUEST_BYTES_MAX"
  using assms by (simp_all add: queue_ok_def)

lemma queue_ok_counters [simp]:
  "queue_ok mx (q\<lparr>dq_total := x\<rparr>) as = queue_ok mx q as" "queue_ok mx (q\<lparr>dq_timeouts := x\<rparr>) as = queue_ok mx q as"
  "queue_ok mx (q\<lparr>dq_rejections := x\<rparr>) as = queue_ok mx q as" "waiting (q\<lparr>dq_total := x\<rparr>) as = waiting q as"
  "waiting (q\<lparr>dq_timeouts := x\<rparr>) as = waiting q as" "waiting (q\<lparr>dq_rejections := x\<rparr>) as = waiting q as"
  by (simp_all add: queue_ok_def waiting_def)

section \<open>The operations on the sequence\<close>

lemma in_butlast_distinct: "distinct xs \<Longrightarrow> x \<in> set (butlast xs) \<Longrightarrow> x \<noteq> last xs \<and> x \<in> set xs"
  by (induction xs) (auto split: if_splits)

lemma append_ok:
  assumes ok: "queue_ok mx q as" and fresh: "dq_heap q a = None" and m: "dm_next m = None"
    and room: "length as < mx" "dq_bytes q + dm_request_length m \<le> PGLC_DEFERRED_REQUEST_BYTES_MAX"
  shows "queue_ok mx (append_miss a m q) (as @ [a])" "waiting (append_miss a m q) (as @ [a]) = waiting q as @ [m]"
proof -
  note D = queue_okD[OF ok]
  define q' where "q' = append_miss a m q"
  have a: "a \<notin> set as" using D(3) fresh by blast
  have last: "last as \<in> set as" "last as \<noteq> a" if "as \<noteq> []" using that a last_in_set[of as] by metis+
  have h: "dq_heap q' a = Some m" "as \<noteq> [] \<Longrightarrow> dq_heap q' (last as) = Some ((miss_at q (last as))\<lparr>dm_next := Some a\<rparr>)"
    "x \<noteq> a \<Longrightarrow> as = [] \<or> x \<noteq> last as \<Longrightarrow> dq_heap q' x = dq_heap q x" for x
    unfolding q'_def append_miss_def Let_def set_next_def using D(6) last by auto
  have f: "dq_head q' = (if as = [] then Some a else dq_head q)" "dq_tail q' = Some a"
    "dq_count q' = dq_count q + 1" "dq_bytes q' = dq_bytes q + dm_request_length m"
    unfolding q'_def append_miss_def Let_def set_next_def using D(6) by simp_all
  have wa: "waiting q' as = waiting q as"
  proof (rule waiting_cong)
    fix x assume "x \<in> set as"
    then have "as \<noteq> []" "x \<noteq> a" using a by auto
    then show "(miss_at q' x)\<lparr>dm_next := None\<rparr> = (miss_at q x)\<lparr>dm_next := None\<rparr>" using h(2) h(3)[of x] by (cases "x = last as") simp_all
  qed
  have "m\<lparr>dm_next := None\<rparr> = m" using m by (cases m) simp
  then show w: "waiting (append_miss a m q) (as @ [a]) = waiting q as @ [m]" using wa h(1) by (simp add: q'_def)
  have "links (dq_heap q') (dq_head q) (as @ [a])" if "as \<noteq> []"
  proof (rule links_relink[of "dq_heap q" _ as "[]"])
    show "dq_heap q' x = dq_heap q x" if "x \<in> set (butlast as)" for x
      using in_butlast_distinct[OF D(2) that] a by (intro h(3)) auto
  qed (use D(1) that h(1,2) m in simp_all)
  then have "links (dq_heap q') (dq_head q') (as @ [a])" using f(1) h(1) m by (cases "as = []") simp_all
  moreover have "x \<in> dom (dq_heap q') \<longleftrightarrow> x \<in> set (as @ [a])" for x
  proof (cases "x = a \<or> as \<noteq> [] \<and> x = last as")
    case True
    then show ?thesis using h(1,2) last(1) by (auto simp: dom_def)
  next
    case False
    then have "dq_heap q' x = dq_heap q x" by (intro h(3)) auto
    then have "x \<in> dom (dq_heap q') \<longleftrightarrow> x \<in> dom (dq_heap q)" by (simp add: domIff)
    then show ?thesis using False D(3) by simp
  qed
  ultimately show "queue_ok mx (append_miss a m q) (as @ [a])"
    using f(2-4) D(2,4,7) a room w unfolding queue_ok_def q'_def by (simp add: set_eq_iff)
qed

lemma unlink_miss_ok:
  assumes ok: "queue_ok mx q (xs @ a # ys)"
  defines "q' \<equiv> unlink_miss a (if xs = [] then None else Some (last xs)) q"
  shows "queue_ok mx q' (xs @ ys)" "waiting q' (xs @ ys) = waiting q xs @ waiting q ys"
proof -
  note D = queue_okD[OF ok]
  have d: "a \<notin> set xs" "a \<notin> set ys" "set xs \<inter> set ys = {}" "distinct xs" "distinct ys" using D(2) by auto
  have last: "last xs \<in> set xs" "last xs \<noteq> a" if "xs \<noteq> []" using that d(1) last_in_set[of xs] by metis+
  define n where "n = dm_next (miss_at q a)"
  have h: "dq_heap q' a = None" "xs \<noteq> [] \<Longrightarrow> dq_heap q' (last xs) = Some ((miss_at q (last xs))\<lparr>dm_next := n\<rparr>)"
    "x \<noteq> a \<Longrightarrow> xs = [] \<or> x \<noteq> last xs \<Longrightarrow> dq_heap q' x = dq_heap q x" for x
    unfolding q'_def unlink_miss_def Let_def set_next_def free_miss_def n_def using last by auto
  have f: "dq_head q' = (if xs = [] then n else dq_head q)"
    "dq_tail q' = (if dq_tail q = Some a then (if xs = [] then None else Some (last xs)) else dq_tail q)"
    "dq_count q' = dq_count q - 1" "dq_bytes q' = u64_sub (dq_bytes q) (dm_request_length (miss_at q a))"
    unfolding q'_def unlink_miss_def Let_def set_next_def free_miss_def n_def by simp_all
  have hy: "dq_heap q' x = dq_heap q x" if "x \<in> set ys" for x using that d(2,3) last(1) by (intro h(3)) (auto simp: disjoint_iff)
  have wx: "waiting q' xs = waiting q xs"
  proof (rule waiting_cong)
    fix x assume "x \<in> set xs"
    then have "xs \<noteq> []" "x \<noteq> a" using d(1) by auto
    then show "(miss_at q' x)\<lparr>dm_next := None\<rparr> = (miss_at q x)\<lparr>dm_next := None\<rparr>" using h(2) h(3)[of x] by (cases "x = last xs") simp_all
  qed
  have wy: "waiting q' ys = waiting q ys" by (rule waiting_cong) (simp add: hy)
  show w: "waiting q' (xs @ ys) = waiting q xs @ waiting q ys" using wx wy by simp
  have "links (dq_heap q) n ys" using links_suffix[OF D(1)] by (simp add: n_def split: if_splits)
  then have ny: "links (dq_heap q') n ys" using links_cong[of ys "dq_heap q'" "dq_heap q" n] hy by blast
  have "links (dq_heap q') (dq_head q) (xs @ ys)" if "xs \<noteq> []"
  proof (rule links_relink[of "dq_heap q" _ xs "a # ys"])
    show "dq_heap q' x = dq_heap q x" if "x \<in> set (butlast xs)" for x
      using in_butlast_distinct[OF d(4) that] d(1) by (intro h(3)) auto
  qed (use D(1) that h(2) ny in simp_all)
  then have "links (dq_heap q') (dq_head q') (xs @ ys)" using f(1) ny by (cases "xs = []") simp_all
  moreover have "x \<in> dom (dq_heap q') \<longleftrightarrow> x \<in> set (xs @ ys)" for x
  proof (cases "x = a \<or> xs \<noteq> [] \<and> x = last xs")
    case True
    then show ?thesis using h(1,2) last(1) d(1,2) by (auto simp: dom_def)
  next
    case False
    then have "dq_heap q' x = dq_heap q x" by (intro h(3)) auto
    then have "x \<in> dom (dq_heap q') \<longleftrightarrow> x \<in> dom (dq_heap q)" by (simp add: domIff)
    then show ?thesis using False D(3) by simp
  qed
  moreover have "dq_tail q' = (if xs @ ys = [] then None else Some (last (xs @ ys)))"
    using f(2) D(6) d(2) last_in_set[of ys] by auto
  moreover have "dq_bytes q' = sum_list (map dm_request_length (waiting q' (xs @ ys)))"
    using f(4) D(7,8) unfolding w by (simp add: u64_sub_exact)
  ultimately show "queue_ok mx q' (xs @ ys)"
    using D(4,5,7,8) f(3) d wx wy unfolding queue_ok_def by (simp add: set_eq_iff)
qed

lemma pop_unlink:
  assumes "queue_ok mx q (a # ys)"
  shows "pop_deferred_miss a q = unlink_miss a None q"
proof -
  note D = queue_okD[OF assms]
  have n: "links (dq_heap q) (dm_next (miss_at q a)) ys" using D(1) by simp
  have "dm_next (miss_at q a) = None \<longleftrightarrow> dq_tail q = Some a"
    using n D(2,6) last_in_set[of ys] by (cases ys) auto
  then show ?thesis by (auto simp: pop_deferred_miss_def unlink_miss_def Let_def free_miss_def)
qed

lemma rotate_ok:
  assumes ok: "queue_ok mx q as"
  shows "queue_ok mx (rotate_deferred_miss_head q) (rotate1 as)"
    "waiting (rotate_deferred_miss_head q) (rotate1 as) = rotate1 (waiting q as)"
proof -
  note D = queue_okD[OF ok]
  define q' where "q' = rotate_deferred_miss_head q"
  have "queue_ok mx q' (rotate1 as) \<and> waiting q' (rotate1 as) = rotate1 (waiting q as)"
  proof (cases "\<exists>a b bs. as = a # b # bs")
    case False
    then have "as = [] \<or> (\<exists>a. as = [a])" by (metis neq_Nil_conv)
    then show ?thesis using ok D(1) by (auto simp: q'_def rotate_deferred_miss_head_def)
  next
    case True
    then obtain a b bs where as: "as = a # b # bs" by blast
    let ?r = "b # bs"
    have d: "a \<notin> set ?r" "distinct ?r" using D(2) as by auto
    have t: "last ?r \<in> set ?r" "last ?r \<noteq> a" using d(1) last_in_set[of ?r] by blast+
    have nx: "dq_head q = Some a" "dm_next (miss_at q a) = Some b" "dq_tail q = Some (last ?r)" using D(1,6) as by auto
    have h: "dq_heap q' a = Some ((miss_at q a)\<lparr>dm_next := None\<rparr>)"
      "dq_heap q' (last ?r) = Some ((miss_at q (last ?r))\<lparr>dm_next := Some a\<rparr>)"
      "x \<noteq> a \<Longrightarrow> x \<noteq> last ?r \<Longrightarrow> dq_heap q' x = dq_heap q x" for x
      unfolding q'_def rotate_deferred_miss_head_def Let_def set_next_def nx using t(2) by (simp_all add: nx)
    have f: "dq_head q' = Some b" "dq_tail q' = Some a" "dq_count q' = dq_count q" "dq_bytes q' = dq_bytes q"
      unfolding q'_def rotate_deferred_miss_head_def Let_def set_next_def nx by (simp_all add: nx)
    have wr: "waiting q' ?r = waiting q ?r"
    proof (rule waiting_cong)
      fix x assume "x \<in> set ?r"
      then have "x \<noteq> a" using d(1) by blast
      then show "(miss_at q' x)\<lparr>dm_next := None\<rparr> = (miss_at q x)\<lparr>dm_next := None\<rparr>" using h(2) h(3)[of x] by (cases "x = last ?r") simp_all
    qed
    then have w: "waiting q' (rotate1 as) = rotate1 (waiting q as)" using h(1) as by simp
    have "links (dq_heap q') (Some b) (?r @ [a])"
    proof (rule links_relink[of "dq_heap q" _ ?r "[]"])
      show "dq_heap q' x = dq_heap q x" if "x \<in> set (butlast ?r)" for x
        using in_butlast_distinct[OF d(2) that] d(1) by (intro h(3)) auto
      show "links (dq_heap q) (Some b) (?r @ [])" using D(1) nx(2) as by simp
    qed (use h(1,2) in simp_all)
    moreover have "x \<in> dom (dq_heap q') \<longleftrightarrow> x \<in> set as" for x
    proof (cases "x = a \<or> x = last ?r")
      case True
      then show ?thesis using h(1,2) t(1) as by (auto simp: dom_def)
    next
      case False
      then have "x \<in> dom (dq_heap q') \<longleftrightarrow> x \<in> dom (dq_heap q)" using h(3)[of x] by (simp add: domIff)
      then show ?thesis using D(3) by simp
    qed
    moreover have "dq_bytes q = sum_list (map dm_request_length (waiting q' (rotate1 as)))"
      using D(7) as unfolding w by simp
    ultimately have "queue_ok mx q' (rotate1 as)"
      using f D(4,5,8) d as unfolding queue_ok_def by (auto simp: set_eq_iff)
    then show ?thesis using w by simp
  qed
  then show "queue_ok mx (rotate_deferred_miss_head q) (rotate1 as)"
    "waiting (rotate_deferred_miss_head q) (rotate1 as) = rotate1 (waiting q as)" by (simp_all add: q'_def)
qed

lemma enqueue_result:
  assumes "dq_bytes q \<le> PGLC_DEFERRED_REQUEST_BYTES_MAX"
  shows "enqueue_deferred_miss mx a now generation k n deadline c q =
    (if deadline \<le> now then (PGLC_DEFERRED_EXPIRED, c, q)
     else if se_deferred_miss (cl_session c) \<noteq> None \<or> mx \<le> dq_count q \<or> PGLC_DEFERRED_REQUEST_BYTES_MAX < dq_bytes q + n
     then (PGLC_DEFERRED_QUEUE_FULL, c, if se_retrying_deferred_miss (cl_session c) then q else q\<lparr>dq_rejections := u64 (dq_rejections q + 1)\<rparr>)
     else let q = append_miss a \<lparr>dm_next = None, dm_client = k, dm_request_offset = cl_input_start c, dm_request_length = n,
            dm_deadline = deadline, dm_mapping_generation = generation\<rparr> q
       in (PGLC_DEFERRED_QUEUED, c\<lparr>cl_session := (cl_session c)\<lparr>se_deferred_miss := Some a, se_deferred_deadline := deadline,
             se_deferred_deadline_expired := False\<rparr>\<rparr>,
           if se_retrying_deferred_miss (cl_session c) then q else q\<lparr>dq_total := u64 (dq_total q + 1)\<rparr>))"
proof -
  have "u64_sub PGLC_DEFERRED_REQUEST_BYTES_MAX (dq_bytes q) = PGLC_DEFERRED_REQUEST_BYTES_MAX - dq_bytes q"
    using assms by (simp add: u64_sub_exact)
  then have "u64_sub PGLC_DEFERRED_REQUEST_BYTES_MAX (dq_bytes q) < n \<longleftrightarrow> PGLC_DEFERRED_REQUEST_BYTES_MAX < dq_bytes q + n"
    using assms by linarith
  then show ?thesis by (simp add: enqueue_deferred_miss_def Let_def)
qed

text \<open>The queue holds the given sequence of addresses and requests.\<close>

definition holds :: "nat \<Rightarrow> deferred_queue \<Rightarrow> (nat \<times> deferred_miss) list \<Rightarrow> bool" where
  "holds mx q xs \<longleftrightarrow> queue_ok mx q (map fst xs) \<and> waiting q (map fst xs) = map snd xs"

lemma holds_enqueue:
  assumes h: "holds mx q xs" and fresh: "dq_heap q a = None"
    and run: "enqueue_deferred_miss mx a now generation k n deadline c q = (r, c', q')"
  shows "r = PGLC_DEFERRED_QUEUED \<longleftrightarrow> now < deadline \<and> se_deferred_miss (cl_session c) = None \<and> length xs < mx \<and>
      sum_list (map (dm_request_length \<circ> snd) xs) + n \<le> PGLC_DEFERRED_REQUEST_BYTES_MAX"
    and "holds mx q' (if r = PGLC_DEFERRED_QUEUED then xs @ [(a, \<lparr>dm_next = None, dm_client = k, dm_request_offset = cl_input_start c,
      dm_request_length = n, dm_deadline = deadline, dm_mapping_generation = generation\<rparr>)] else xs)"
    and "r = PGLC_DEFERRED_QUEUED \<Longrightarrow> se_deferred_miss (cl_session c') = Some a"
proof -
  have ok: "queue_ok mx q (map fst xs)" and w: "waiting q (map fst xs) = map snd xs" using h by (simp_all add: holds_def)
  note D = queue_okD[OF ok] and R = enqueue_result[OF queue_okD(8)[OF ok], of mx a now generation k n deadline c]
  have b: "dq_bytes q = sum_list (map (dm_request_length \<circ> snd) xs)" using D(7) unfolding w by simp
  show q: "r = PGLC_DEFERRED_QUEUED \<longleftrightarrow> now < deadline \<and> se_deferred_miss (cl_session c) = None \<and> length xs < mx \<and>
      sum_list (map (dm_request_length \<circ> snd) xs) + n \<le> PGLC_DEFERRED_REQUEST_BYTES_MAX"
    using R run D(4) unfolding b Let_def by (auto split: if_splits)
  show "r = PGLC_DEFERRED_QUEUED \<Longrightarrow> se_deferred_miss (cl_session c') = Some a"
    using R run unfolding Let_def by (auto split: if_splits)
  show "holds mx q' (if r = PGLC_DEFERRED_QUEUED then xs @ [(a, \<lparr>dm_next = None, dm_client = k, dm_request_offset = cl_input_start c,
      dm_request_length = n, dm_deadline = deadline, dm_mapping_generation = generation\<rparr>)] else xs)"
  proof (cases "r = PGLC_DEFERRED_QUEUED")
    case True
    let ?m = "\<lparr>dm_next = None, dm_client = k, dm_request_offset = cl_input_start c, dm_request_length = n, dm_deadline = deadline,
      dm_mapping_generation = generation\<rparr>"
    have "queue_ok mx (append_miss a ?m q) (map fst xs @ [a])" "waiting (append_miss a ?m q) (map fst xs @ [a]) = map snd xs @ [?m]"
      using append_ok[OF ok fresh, of ?m] q True b w by simp_all
    moreover have "q' = append_miss a ?m q \<or> (\<exists>x. q' = (append_miss a ?m q)\<lparr>dq_total := x\<rparr>)"
      using R run True unfolding Let_def by (auto split: if_splits)
    ultimately show ?thesis using True unfolding holds_def by auto
  next
    case False
    then have "q' = q \<or> (\<exists>x. q' = q\<lparr>dq_rejections := x\<rparr>)" using R run unfolding Let_def by (auto split: if_splits)
    then show ?thesis using False h unfolding holds_def by auto
  qed
qed

lemma holds_unlink:
  assumes h: "holds mx q (xs @ (a, m) # ys)"
  shows "holds mx (unlink_miss a (if xs = [] then None else Some (fst (last xs))) q) (xs @ ys)"
proof -
  have ok: "queue_ok mx q (map fst xs @ a # map fst ys)" and w: "waiting q (map fst xs) @ waiting q (a # map fst ys) = map snd xs @ m # map snd ys"
    using h by (simp_all add: holds_def)
  have "length (waiting q (map fst xs)) = length (map snd xs)" by (simp add: waiting_def)
  then have "waiting q (map fst xs) = map snd xs" "waiting q (map fst ys) = map snd ys" using w by simp_all
  moreover have "last (map fst xs) = fst (last xs)" if "xs \<noteq> []" using that by (simp add: last_map)
  ultimately show ?thesis using unlink_miss_ok[OF ok] unfolding holds_def by (cases "xs = []") simp_all
qed

lemma holds_remove:
  assumes h: "holds mx q xs" and a: "se_deferred_miss (cl_session c) = Some a" "a \<in> fst ` set xs"
  shows "\<exists>c' q'. remove_deferred_miss c q = Some (c', q') \<and> se_deferred_miss (cl_session c') = None \<and>
    holds mx q' (filter (\<lambda>x. fst x \<noteq> a) xs)"
proof -
  obtain ys m zs where xs: "xs = ys @ (a, m) # zs" using a(2) by (auto dest: split_list)
  have ok: "queue_ok mx q (map fst ys @ a # map fst zs)" using h xs by (simp add: holds_def)
  have d: "a \<notin> set (map fst ys)" "a \<notin> set (map fst zs)" using queue_okD(2)[OF ok] by auto
  have "last (map fst ys) = fst (last ys)" if "ys \<noteq> []" using that by (simp add: last_map)
  then have "find_previous (dq_heap q) a None (dq_head q) = Some (if ys = [] then None else Some (fst (last ys)), Some a)"
    using find_previous_links[OF queue_okD(1)[OF ok] d(1), of None] by (cases "ys = []") simp_all
  moreover have "filter (\<lambda>x. fst x \<noteq> a) ys = ys" "filter (\<lambda>x. fst x \<noteq> a) zs = zs" using d by (auto simp: filter_id_conv)
  then have "filter (\<lambda>x. fst x \<noteq> a) xs = ys @ zs" unfolding xs by simp
  ultimately show ?thesis using holds_unlink[of mx q ys a m zs] h a(1) unfolding xs remove_deferred_miss_def by simp
qed

lemma holds_rotate: "holds mx q xs \<Longrightarrow> holds mx (rotate_deferred_miss_head q) (rotate1 xs)"
  using rotate_ok[of mx q "map fst xs"] by (simp add: holds_def rotate1_map)

lemma holds_pop:
  assumes "holds mx q ((a, m) # xs)"
  shows "dq_head q = Some a" "holds mx (pop_deferred_miss a q) xs"
proof -
  have ok: "queue_ok mx q (a # map fst xs)" using assms by (simp add: holds_def)
  show "dq_head q = Some a" using queue_okD(1)[OF ok] by simp
  show "holds mx (pop_deferred_miss a q) xs" using holds_unlink[of mx q "[]" a m xs] assms unfolding pop_unlink[OF ok] by simp
qed

text \<open>A client that cannot take a response now.\<close>

definition blocked :: "client \<Rightarrow> bool" where
  "blocked c \<longleftrightarrow> cl_output_sent c < cl_output_used c"

lemma poll_timeout_spec:
  assumes "links heap p as" "0 \<le> current"
  shows "\<exists>t cs. poll_timeout_loop heap now current p clients = Some (t, cs) \<and> 0 \<le> t \<and> t \<le> current \<and>
    (\<forall>a \<in> set as. \<not> blocked (clients (dm_client (the (heap a)))) \<longrightarrow> now + 1000 * t < max now (dm_deadline (the (heap a))) + 1000)"
  using assms
proof (induction as arbitrary: p current clients)
  case Nil
  then show ?case by (subst poll_timeout_loop.simps) simp
next
  case (Cons a as)
  let ?m = "the (heap a)" let ?c = "clients (dm_client ?m)"
  define marked where "marked = clients(dm_client ?m := ?c\<lparr>cl_session := (cl_session ?c)\<lparr>se_deferred_deadline_expired := True\<rparr>\<rparr>)"
  let ?ms = "(dm_deadline ?m - now + 999) div 1000"
  have p: "p = Some a" "links heap (dm_next ?m) as" using Cons.prems by simp_all
  have same: "blocked (marked k) = blocked (clients k)" for k by (simp add: blocked_def marked_def)
  have step: "poll_timeout_loop heap now current p clients =
      (if dm_deadline ?m \<le> now then (if \<not> blocked ?c then Some (0, marked) else poll_timeout_loop heap now current (dm_next ?m) marked)
       else poll_timeout_loop heap now (min current (min ?ms INT_MAX)) (dm_next ?m) clients)"
    by (subst poll_timeout_loop.simps) (simp add: p(1) Let_def blocked_def marked_def)
  consider "now < dm_deadline ?m" | "dm_deadline ?m \<le> now" "blocked ?c" | "dm_deadline ?m \<le> now" "\<not> blocked ?c" by linarith
  then show ?case
  proof cases
    case 1
    have ms: "0 \<le> ?ms" "1000 * ?ms < dm_deadline ?m - now + 1000" using 1 by simp_all
    obtain t cs where t: "poll_timeout_loop heap now (min current (min ?ms INT_MAX)) (dm_next ?m) clients = Some (t, cs)" "0 \<le> t"
      "t \<le> current" "t \<le> ?ms"
      "\<forall>a \<in> set as. \<not> blocked (clients (dm_client (the (heap a)))) \<longrightarrow> now + 1000 * t < max now (dm_deadline (the (heap a))) + 1000"
      using Cons.IH[OF p(2), of "min current (min ?ms INT_MAX)" clients] Cons.prems(2) ms(1) by auto
    have "now + 1000 * t < max now (dm_deadline ?m) + 1000" using t(4) ms(2) by linarith
    moreover have "poll_timeout_loop heap now current p clients = Some (t, cs)" using step 1 t(1) by simp
    ultimately show ?thesis using t(2,3,5) by simp
  next
    case 2
    then have "poll_timeout_loop heap now current p clients = poll_timeout_loop heap now current (dm_next ?m) marked"
      using step by simp
    then show ?thesis using Cons.IH[OF p(2) Cons.prems(2), of marked] 2(2) unfolding same by simp
  next
    case 3
    then have "poll_timeout_loop heap now current p clients = Some (0, marked)" using step by simp
    then show ?thesis using Cons.prems(2) by (auto simp: max_def)
  qed
qed

lemma miss_of_waiting:
  assumes "holds mx q xs" "(a, m) \<in> set xs"
  shows "dm_client (miss_at q a) = dm_client m" "dm_request_length (miss_at q a) = dm_request_length m" "dm_deadline (miss_at q a) = dm_deadline m"
proof -
  obtain i where i: "i < length xs" "xs ! i = (a, m)" using assms(2) by (auto simp: in_set_conv_nth)
  have "(miss_at q a)\<lparr>dm_next := None\<rparr> = m"
    using assms(1) i unfolding holds_def waiting_def by (metis (no_types, lifting) fst_conv length_map nth_map snd_conv)
  then show "dm_client (miss_at q a) = dm_client m" "dm_request_length (miss_at q a) = dm_request_length m" "dm_deadline (miss_at q a) = dm_deadline m"
    by (auto dest: sym)
qed

abbreviation deadline_error :: "char list" where
  "deadline_error \<equiv> pglc_resp_error ''ERR MGET deadline exceeded''"

text \<open>What an attempt at the head does to the queue and to the client.\<close>

definition attempted :: "nat \<Rightarrow> int \<Rightarrow> nat \<Rightarrow> deferred_miss \<Rightarrow> (nat \<times> deferred_miss) list \<Rightarrow> client \<Rightarrow> attempt_result \<Rightarrow> bool" where
  "attempted mx now a m xs c r \<longleftrightarrow>
     (let expired = (dm_deadline m \<le> now \<or> se_deferred_deadline_expired (cl_session c));
          fits = (cl_output_sent c = 0 \<and> length deadline_error \<le> PGLC_OUTPUT_BUFFER_MAX - cl_output_used c)
      in case r of
        Waits c' q' \<Rightarrow> (blocked c \<or> expired \<and> \<not> fits) \<and> holds mx q' (xs @ [(a, m)]) \<and>
          cl_output c' = cl_output c \<and> cl_input_start c' = cl_input_start c
      | Times_Out c' q' \<Rightarrow> \<not> blocked c \<and> expired \<and> fits \<and> holds mx q' xs \<and> se_deferred_miss (cl_session c') = None \<and>
          cl_output c' = cl_output c @ deadline_error \<and> cl_input_start c' = cl_input_start c + dm_request_length m
      | Retries c' q' \<Rightarrow> \<not> blocked c \<and> \<not> expired \<and> holds mx q' xs \<and> se_deferred_miss (cl_session c') = None \<and>
          se_retrying_deferred_miss (cl_session c') \<and> se_deferred_deadline (cl_session c') = dm_deadline m \<and>
          cl_output c' = cl_output c \<and> cl_input_start c' = cl_input_start c)"

lemma attempt_spec:
  assumes h: "holds mx q ((a, m) # xs)"
  shows "attempted mx now a m xs c (attempt_head now a c q)"
proof -
  have m: "dm_request_length (miss_at q a) = dm_request_length m" "dm_deadline (miss_at q a) = dm_deadline m"
    using miss_of_waiting[OF h, of a m] by simp_all
  have r: "holds mx (rotate_deferred_miss_head q) (xs @ [(a, m)])" using holds_rotate[OF h] by simp
  have p: "holds mx (pop_deferred_miss a q) xs" by (rule holds_pop(2)[OF h])
  then have t: "holds mx ((pop_deferred_miss a q)\<lparr>dq_timeouts := x\<rparr>) xs" for x by (simp add: holds_def)
  show ?thesis unfolding attempt_head_def attempted_def Let_def m queue_response_def blocked_def using r p t by auto
qed

section \<open>Properties\<close>

text \<open>C9: The linked list of deferred requests implements a bounded sequence. A request is queued exactly when
  its deadline is ahead, its client waits for nothing else and the limits on the number of requests and on their
  bytes leave room, and then it comes last; otherwise the queue keeps its requests. The search of a removal ends, and
  exactly the request of the client leaves. Rotation moves the head to the end. An attempt at the head
  keeps the request, last in the queue, only while its client cannot take the response; otherwise it
  leaves the queue, answered by one error when its deadline has passed and else to be served again.
\<close>

theorem deferred_queue_fifo:
  assumes "holds mx q xs"
  shows "(dq_heap q a = None \<and> enqueue_deferred_miss mx a now generation k n deadline c q = (r, c', q') \<longrightarrow>
      (r = PGLC_DEFERRED_QUEUED \<longleftrightarrow> now < deadline \<and> se_deferred_miss (cl_session c) = None \<and> length xs < mx \<and>
        sum_list (map (dm_request_length \<circ> snd) xs) + n \<le> PGLC_DEFERRED_REQUEST_BYTES_MAX) \<and>
      holds mx q' (if r = PGLC_DEFERRED_QUEUED then xs @ [(a, \<lparr>dm_next = None, dm_client = k, dm_request_offset = cl_input_start c,
        dm_request_length = n, dm_deadline = deadline, dm_mapping_generation = generation\<rparr>)] else xs)) \<and>
    (se_deferred_miss (cl_session c) = Some a \<and> a \<in> fst ` set xs \<longrightarrow>
      (\<exists>c' q'. remove_deferred_miss c q = Some (c', q') \<and> se_deferred_miss (cl_session c') = None \<and>
        holds mx q' (filter (\<lambda>x. fst x \<noteq> a) xs))) \<and>
    holds mx (rotate_deferred_miss_head q) (rotate1 xs) \<and>
    (xs = (a, m) # ys \<longrightarrow> dq_head q = Some a \<and> attempted mx now a m ys c (attempt_head now a c q))"
  using holds_enqueue(1,2)[OF assms, of a now generation k n deadline c r c' q'] holds_remove[OF assms, of c a] holds_rotate[OF assms]
    holds_pop(1) attempt_spec assms by blast

text \<open>An empty queue, and two requests that enter it.\<close>

definition no_misses :: deferred_queue where
  "no_misses = \<lparr>dq_heap = Map.empty, dq_head = None, dq_tail = None, dq_count = 0, dq_bytes = 0, dq_total = 0, dq_timeouts = 0, dq_rejections = 0\<rparr>"

lemma no_misses_holds: "holds mx no_misses []"
  by (simp add: no_misses_def holds_def queue_ok_def)

definition idle_client :: client where
  "idle_client = new_client (replicate 40 CHR ''x'')"

lemma idle_client_fields [simp]: "cl_input_start idle_client = 0" "se_deferred_miss (cl_session idle_client) = None" "cl_output idle_client = []"
  "cl_output_sent idle_client = 0"
  by (simp_all add: idle_client_def new_client_def new_session_def)

definition demo_miss :: "nat \<Rightarrow> deferred_miss" where
  "demo_miss k = \<lparr>dm_next = None, dm_client = k, dm_request_offset = 0, dm_request_length = 40, dm_deadline = 1000, dm_mapping_generation = 1\<rparr>"

definition queue_one :: deferred_queue where
  "queue_one = snd (snd (enqueue_deferred_miss 8 64 0 1 5 40 1000 idle_client no_misses))"

lemma queue_one_holds: "holds 8 queue_one [(64, demo_miss 5)]" "dq_heap queue_one 96 = None"
proof -
  obtain r c' where e: "enqueue_deferred_miss 8 64 0 1 5 40 1000 idle_client no_misses = (r, c', queue_one)"
    by (metis queue_one_def prod.collapse)
  have "dq_heap no_misses 64 = None" by (simp add: no_misses_def)
  from holds_enqueue(1,2)[OF no_misses_holds this e] show h: "holds 8 queue_one [(64, demo_miss 5)]"
    by (simp add: demo_miss_def)
  then have "dom (dq_heap queue_one) = {64}" using queue_okD(3)[of 8 queue_one "[64]"] by (simp add: holds_def)
  then have "96 \<notin> dom (dq_heap queue_one)" by simp
  then show "dq_heap queue_one 96 = None" by (simp add: domIff)
qed

theorem deferred_queue_fifo_witness:
  "\<exists>c q. enqueue_deferred_miss 8 96 0 1 7 40 1000 idle_client queue_one = (PGLC_DEFERRED_QUEUED, c, q) \<and>
     holds 8 q [(64, demo_miss 5), (96, demo_miss 7)]"
proof -
  obtain r c q where e: "enqueue_deferred_miss 8 96 0 1 7 40 1000 idle_client queue_one = (r, c, q)" by (metis prod.collapse)
  show ?thesis
    using deferred_queue_fifo[OF queue_one_holds(1), of 96 0 1 7 40 1000 idle_client r c q] queue_one_holds(2) e
    by (auto simp: demo_miss_def)
qed

text \<open>C10: A deferred request is not kept past its deadline. The worker never sleeps longer than until one
  millisecond after the deadline of a request whose client can take a response, the walk over the queue
  ends, and an attempt at the head after its deadline, for a client without pending output, queues exactly the deadline error,
  consumes exactly the request and removes it from the queue.
\<close>

theorem deferred_deadline_kept:
  assumes "holds mx q xs" "0 \<le> current"
  shows "(\<exists>t cs. deferred_miss_poll_timeout now current q clients = Some (t, cs) \<and> 0 \<le> t \<and> t \<le> current \<and>
      (\<forall>(a, m) \<in> set xs. \<not> blocked (clients (dm_client m)) \<longrightarrow> now + 1000 * t < max now (dm_deadline m) + 1000)) \<and>
    (xs = (a, m) # ys \<and> dm_deadline m \<le> now \<and> cl_output c = [] \<and> cl_output_sent c = 0 \<longrightarrow>
      (\<exists>c' q'. attempt_head now a c q = Times_Out c' q' \<and> holds mx q' ys \<and> cl_output c' = deadline_error \<and>
        cl_input_start c' = cl_input_start c + dm_request_length m \<and> se_deferred_miss (cl_session c') = None))"
proof (intro conjI impI)
  have ch: "links (dq_heap q) (dq_head q) (map fst xs)" using assms(1) queue_okD(1) unfolding holds_def by blast
  show "\<exists>t cs. deferred_miss_poll_timeout now current q clients = Some (t, cs) \<and> 0 \<le> t \<and> t \<le> current \<and>
      (\<forall>(a, m) \<in> set xs. \<not> blocked (clients (dm_client m)) \<longrightarrow> now + 1000 * t < max now (dm_deadline m) + 1000)"
    using poll_timeout_spec[OF ch assms(2), of now clients] miss_of_waiting[OF assms(1)]
    unfolding deferred_miss_poll_timeout_def by fastforce
  assume x: "xs = (a, m) # ys \<and> dm_deadline m \<le> now \<and> cl_output c = [] \<and> cl_output_sent c = 0"
  have "length deadline_error \<le> PGLC_OUTPUT_BUFFER_MAX" by (simp add: pglc_resp_error_def line_response_def strlen_def)
  then show "\<exists>c' q'. attempt_head now a c q = Times_Out c' q' \<and> holds mx q' ys \<and> cl_output c' = deadline_error \<and>
        cl_input_start c' = cl_input_start c + dm_request_length m \<and> se_deferred_miss (cl_session c') = None"
    using attempt_spec[of mx q a m ys now c] assms(1) x
    by (cases "attempt_head now a c q") (auto simp: attempted_def Let_def blocked_def)
qed

theorem deferred_deadline_kept_witness:
  "(\<exists>t cs. deferred_miss_poll_timeout 0 250 queue_one (\<lambda>_. idle_client) = Some (t, cs) \<and> 0 \<le> t \<and> t \<le> 1) \<and>
   (\<exists>c q. attempt_head 1000 64 idle_client queue_one = Times_Out c q \<and> holds 8 q [] \<and> cl_output c = deadline_error \<and> cl_input_start c = 40)"
proof -
  note K = deferred_deadline_kept[OF queue_one_holds(1), of 250]
  have "\<exists>t cs. deferred_miss_poll_timeout 0 250 queue_one (\<lambda>_. idle_client) = Some (t, cs) \<and> 0 \<le> t \<and> t \<le> 1"
    using K[THEN conjunct1, of 0 "\<lambda>_. idle_client"] by (fastforce simp: demo_miss_def blocked_def)
  moreover have "\<exists>c q. attempt_head 1000 64 idle_client queue_one = Times_Out c q \<and> holds 8 q [] \<and> cl_output c = deadline_error \<and> cl_input_start c = 40"
    using K[THEN conjunct2, of 64 "demo_miss 5" "[]" 1000 idle_client] by (auto simp: demo_miss_def)
  ultimately show ?thesis by blast
qed

end
