(* ===== verification/Spec2Isabelle.thy ===== *)
theory Spec2Isabelle
  imports Arena Index KeyCodec Resp RowPayload Coherence Frontend Clients Deferred
begin

text \<open>
  Verification of the PostgreSQL extension \<open>pg_local_cache\<close>: a cache of table rows in shared memory, filled and
  invalidated by PostgreSQL processes and served to RESP clients by socket workers. All paths below are under src/src/.

  \<^bold>\<open>The program.\<close> Shared memory is cut into partitions. A partition has a lock, an array of entry descriptors, an array of
  dirty markers, an open-addressing index over each, and an arena of value blocks. Outside of the partitions are the fence
  counters (a global one and one per relation slot), the registry that gives relations their slots, and statistics. A reader
  looks a key up under the partition lock, without excluding writers from the fence counters: it reads the counters twice and
  serves only if nothing moved. A miss gives it a token, and after reading the database it may fill the entry if the token
  still matches. A writing transaction remembers what it changes, publishes that before its commit by raising fences or by
  making single keys dirty, and releases it afterwards. A worker parses RESP requests from its connections, answers \<open>MGET\<close>
  from the cache where it can, and otherwise runs SQL.

  \<^bold>\<open>Theories, code and what is shown.\<close>

  \<^item> \<open>Prelude\<close>: C values. An unsigned integer is a \<open>nat\<close> with its wrap-around written out (\<open>u8\<close> to \<open>u64\<close>, \<open>u32_sub\<close>, \<open>u64_sub\<close>),
    memory is a function from addresses to bytes, an error raised by \<open>ereport\<close> is the left side of a sum.
  \<^item> \<open>Arena\<close> (cache_arena.c): the slab allocator over a byte memory. It refines a finite map of live blocks: allocation, release and
    resizing do on the map what they promise, blocks are disjoint and keep their contents, and allocation fails exactly when there
    is no room. The locale \<open>block_allocator\<close> is the interface, interpreted on the allocator.
  \<^item> \<open>Index\<close> (cache_index.c): the index with its callbacks as state-passing functions. It refines a set of entries; a lookup is exact,
    insertion and removal change one entry, a rebuild loses nothing and fails only when a probe window is full. The locale
    \<open>index_callbacks\<close> is the contract of the callbacks, interpreted for entries (\<open>Entries\<close>) and markers (\<open>Markers\<close>).
  \<^item> \<open>KeyCodec\<close> (key_codec.c): the canonical key encoding is injective, the JSON fast path accepts exactly its grammar and agrees
    with the typed encoder, the UTF-8 check accepts exactly the encodings of scalar values.
  \<^item> \<open>Resp\<close> (resp.c): parsing inverts printing, verdicts on a prefix are final, argument slices are in bounds, lines cannot be split,
    the bounded writers append exactly their reply or nothing.
  \<^item> \<open>RowPayload\<close> (row_payload.c): the checked decoder accepts exactly what the encoder writes for the same row type.
  \<^item> \<open>Sizing\<close>, \<open>Startup\<close> (pg_local_cache.c, lines 838 to 1607): sizes, limits and the storage layout; the arrays do not overlap and end
    at the reserved size, and startup establishes the invariants of all components.
  \<^item> \<open>Registry\<close>, \<open>Fences\<close> (lines 1609 to 2118): statistics, hashing and routing, relation slots with generations, fence snapshots.
  \<^item> \<open>Partition\<close>, \<open>Entries\<close>, \<open>Markers\<close> (lines 2079 to 2995): what runs under a partition lock, and its invariants \<open>part_ok\<close> and \<open>markers_ok\<close>.
  \<^item> \<open>CacheOps\<close>, \<open>Contents\<close>, \<open>CacheSpec\<close> (lines 3004 to 3960): lookup, fill, leases and retirement; a partition as a map from identities
    to cells, and the operations as steps on that map.
  \<^item> \<open>Serving\<close>: progress. While nothing moves, miss, claim, fill and hit succeed whenever there is room, and the hit returns the
    stored bytes.
  \<^item> \<open>LocalDirty\<close> (lines 4104 to 4331 and 4564 to 4666, dirty_key_limit.h): what a transaction remembers of its writes; no written key
    is forgotten.
  \<^item> \<open>Publish\<close>, \<open>Writers\<close> (lines 3734 to 3984 and 4668 to 5235): publication, release, the transaction callbacks and bulk
    invalidation, as state-passing programs with errors; what their lock sections do to a partition.
  \<^item> \<open>Coherence\<close>: all of it together as a transition system over one partition, the fences and the database. A lock section is one
    step, but every fence read in it sees the state at its own moment; the atomic writes to the fences, commits and the queries of
    loaders are steps of their own. In every reachable state a hit returns the row that the database held at a moment inside the
    lookup.
  \<^item> \<open>Connection\<close> (pg_local_cache_worker.c, lines 1792 to 2335): a turn of a connection answers the requests in its input in order
    and once each, and its buffers stay in bounds.
  \<^item> \<open>Commands\<close>, \<open>FastPath\<close>, \<open>Frontend\<close> (lines 2337 to 2822 and 2989 to 3227): authentication, dispatch, wire keys and the fast \<open>MGET\<close>.
    An unauthenticated client gets only error lines; an answer of the fast path is the current row of the key that was asked for.
  \<^item> \<open>Clients\<close> (pg_local_cache.c, lines 4007 to 4058): the lock-free limit on clients, one step per access to a shared counter, over all
    interleavings of the workers.
  \<^item> \<open>Deferred\<close> (pg_local_cache_worker.c, lines 1518 to 1790): the queue of requests that wait for a load, a linked list that implements
    a bounded sequence, and its deadlines.

  \<^bold>\<open>Loops and bounds.\<close> Loops are structural recursion or functions with a termination measure. Three loops need not end and are
  \<open>partial_function\<close>s in the option type: the doubling of \<open>pglc_next_power_of_two\<close>, which is shown to return exactly up to \<open>2 ^ 31\<close>, and the
  two walks over the deferred list, which are shown to return on every well-formed list. No definition uses fuel: the probe
  loops make \<open>PGLC_INDEX_MAX_PROBES\<close> steps and the retry loop \<open>PGLC_DEFERRED_RETRIES_PER_TURN\<close> as in the code. The observation indices of a lock
  section (30, 40, 47) are the numbers of fence reads that precede a point in the code.

  \<^bold>\<open>Assumptions.\<close> Code outside of the repository is a parameter: the hash functions, CRC32C, \<open>qsort\<close>, the datum output functions, the
  clock, the sockets, the allocator of worker memory, and in \<open>Commands\<close> a record of what PostgreSQL does. What is relied on is
  a hypothesis of the theorem that uses it. In \<open>Coherence\<close> a loader reads the database after its token was issued, operations that raise an
  error are not steps, the checked counters stay below \<open>2 ^ 64\<close>, and a commit changes only rows that its transaction has covered
  (\<open>may_write\<close>). The scan for eviction victims reads each candidate's fences in one observation; \<open>tag_relation_slot\<close> is one step in
  \<open>Registry\<close> and the steps \<open>retag_generation\<close>, \<open>retag_slot\<close> and \<open>retag_publish\<close> in \<open>Coherence\<close>.

  \<^bold>\<open>Not modelled.\<close> The registration of configuration variables, hooks and shared memory (\<open>_PG_init\<close>, \<open>pglc_define_gucs\<close>), the worker's process
  and event loop (\<open>worker_main\<close>, \<open>run_server\<close>, listener, token file) and TLS are calls to PostgreSQL, the operating system and OpenSSL; the
  connection is modelled as built without OpenSSL. \<open>SET\<close>, \<open>DEL\<close>, the general \<open>MGET\<close> and the reload of the mappings run SQL through
  SPI and are functions of the environment in \<open>Commands\<close>; the triggers and SQL functions are wrappers that take keys from tuples and
  call the modelled operations; the statistics output formats counters. Test hooks are left out, as in a release build.
\<close>

end
